(* ===== verification/Pool_Prelude.thy ===== *)
theory Pool_Prelude
  imports Main "HOL-Library.AList" "HOL-Library.Word"
begin

text \<open>
  The vocabulary shared by every component of the development.

  \<^item> Python exceptions are values of type \<open>error\<close>. An operation that mutates an object
    of type \<open>'s\<close> and may raise returns \<open>('s, 'a) res\<close>: \<open>Inr (a, s')\<close> is a
    normal return, \<open>Inl (e, s')\<close> an exception raised when the object was in state
    \<open>s'\<close>, so that a handler (\<open>except\<close>/\<open>finally\<close>) runs on what was left behind.
  \<^item> A Python \<open>dict\<close> is an association list in insertion order with distinct keys;
    \<open>AList.update\<close> keeps the position of an existing key and appends a new one, and
    \<open>AList.delete\<close> removes the entry, exactly as Python does.
  \<^item> A Python \<open>set\<close> that the code iterates over is a list without repetitions.
  \<^item> \<open>post\<close> is the weakest precondition of a result with a normal and an exceptional
    postcondition; \<open>runs_to\<close> says that no exception is raised.
\<close>

named_theorems res_simps \<open>equations that push postconditions through results\<close>

section \<open>Exceptions and results\<close>

datatype error =
    AssertionError string
  | RuntimeError string
  | ValueError string
  | IndexError
  | KeyError
  | AttributeError
  | StopIteration
  | OverflowError
  | ZeroDivisionError
  | Exception string
  | Diverges

type_synonym ('s, 'a) res = "(error \<times> 's) + ('a \<times> 's)"

definition rbind :: "('s, 'a) res \<Rightarrow> ('a \<Rightarrow> 's \<Rightarrow> ('s, 'b) res) \<Rightarrow> ('s, 'b) res" where
  "rbind r f = (case r of Inl es \<Rightarrow> Inl es | Inr (a, s) \<Rightarrow> f a s)"

definition return :: "'a \<Rightarrow> 's \<Rightarrow> ('s, 'a) res" where
  "return a s = Inr (a, s)"

definition raise :: "error \<Rightarrow> 's \<Rightarrow> ('s, 'a) res" where
  "raise e s = Inl (e, s)"

definition assert_that :: "bool \<Rightarrow> string \<Rightarrow> 's \<Rightarrow> ('s, unit) res" where
  "assert_that b msg s = (if b then return () s else raise (AssertionError msg) s)"

text \<open>A loop \<open>for x in xs: f(x)\<close> over a list fixed before the loop.\<close>

fun for_each :: "('x \<Rightarrow> 's \<Rightarrow> ('s, unit) res) \<Rightarrow> 'x list \<Rightarrow> 's \<Rightarrow> ('s, unit) res" where
  "for_each f [] s = return () s"
| "for_each f (x # xs) s = rbind (f x s) (\<lambda>_ s'. for_each f xs s')"

text \<open>A loop \<open>[f(x) for x in xs]\<close> whose calls mutate the state.\<close>

fun collect_each :: "('x \<Rightarrow> 's \<Rightarrow> ('s, 'y) res) \<Rightarrow> 'x list \<Rightarrow> 's \<Rightarrow> ('s, 'y list) res" where
  "collect_each f [] s = return [] s"
| "collect_each f (x # xs) s =
     rbind (f x s) (\<lambda>y s'. rbind (collect_each f xs s') (\<lambda>ys. return (y # ys)))"

text \<open>A method call on a component of the state: \<open>get\<close> reads it, \<open>put\<close> writes it back.\<close>

definition on_part :: "('s \<Rightarrow> 'p) \<Rightarrow> ('p \<Rightarrow> 's \<Rightarrow> 's) \<Rightarrow> ('p \<Rightarrow> ('p, 'a) res) \<Rightarrow> 's \<Rightarrow> ('s, 'a) res" where
  "on_part get put f s =
     (case f (get s) of Inl (e, p) \<Rightarrow> Inl (e, put p s) | Inr (a, p) \<Rightarrow> Inr (a, put p s))"

section \<open>Postconditions\<close>

definition post :: "('s, 'a) res \<Rightarrow> ('a \<Rightarrow> 's \<Rightarrow> bool) \<Rightarrow> (error \<Rightarrow> 's \<Rightarrow> bool) \<Rightarrow> bool" where
  "post r Q E = (case r of Inl (e, s) \<Rightarrow> E e s | Inr (a, s) \<Rightarrow> Q a s)"

abbreviation runs_to :: "('s, 'a) res \<Rightarrow> ('a \<Rightarrow> 's \<Rightarrow> bool) \<Rightarrow> bool" where
  "runs_to r Q \<equiv> post r Q (\<lambda>_ _. False)"

lemma rbind_simps [simp]:
  "rbind (Inl es) f = Inl es"
  "rbind (Inr (a, s)) f = f a s"
  by (simp_all add: rbind_def)

lemma post_simps [simp]:
  "post (Inl (e, s)) Q E = E e s"
  "post (Inr (a, s)) Q E = Q a s"
  by (simp_all add: post_def)

lemma post_return [res_simps, simp]: "post (return a s) Q E = Q a s"
  by (simp add: return_def)

lemma post_raise [res_simps, simp]: "post (raise e s) Q E = E e s"
  by (simp add: raise_def)

lemma post_rbind [res_simps]: "post (rbind r f) Q E = post r (\<lambda>a s. post (f a s) Q E) E"
  by (auto simp: post_def rbind_def split: sum.splits)

lemma post_assert [res_simps]:
  "post (assert_that b msg s) Q E = (if b then Q () s else E (AssertionError msg) s)"
  by (simp add: assert_that_def)

lemma post_if [res_simps]: "post (if b then r else r') Q E = (if b then post r Q E else post r' Q E)"
  by simp

lemma post_on_part [res_simps]:
  "post (on_part get put f s) Q E =
     post (f (get s)) (\<lambda>a p. Q a (put p s)) (\<lambda>e p. E e (put p s))"
  by (auto simp: post_def on_part_def split: sum.splits)

lemma post_mono:
  assumes "post r Q E" and "\<And>a s. r = Inr (a, s) \<Longrightarrow> Q a s \<Longrightarrow> Q' a s"
    and "\<And>e s. r = Inl (e, s) \<Longrightarrow> E e s \<Longrightarrow> E' e s"
  shows "post r Q' E'"
  using assms by (auto simp: post_def split: sum.splits prod.splits)

lemma runs_to_mono:
  assumes "runs_to r Q" and "\<And>a s. r = Inr (a, s) \<Longrightarrow> Q a s \<Longrightarrow> Q' a s"
  shows "runs_to r Q'"
  using assms by (auto elim!: post_mono)

lemma runs_toE:
  assumes "runs_to r Q"
  obtains a s where "r = Inr (a, s)" and "Q a s"
  using assms by (auto simp: post_def split: sum.splits)

lemma postD: "post r Q E \<Longrightarrow> r = Inr (a, s) \<Longrightarrow> Q a s"
  by (simp add: post_def)

lemma post_conj:
  "post r (\<lambda>a s. Q a s \<and> Q' a s) (\<lambda>e s. E e s \<and> E' e s) = (post r Q E \<and> post r Q' E')"
  by (auto simp: post_def split: sum.splits)

lemma rbind_Inr_iff [simp]:
  "rbind r f = Inr (b, t) \<longleftrightarrow> (\<exists>a s. r = Inr (a, s) \<and> f a s = Inr (b, t))"
  by (auto simp: rbind_def split: sum.splits)

lemma rbind_cong [fundef_cong]:
  "r = r' \<Longrightarrow> (\<And>a s. r' = Inr (a, s) \<Longrightarrow> f a s = f' a s) \<Longrightarrow> rbind r f = rbind r' f'"
  by (auto simp: rbind_def split: sum.splits)

text \<open>The loop rule: an invariant indexed by what is still to be visited.\<close>

lemma for_each_post:
  assumes "I xs s"
    and "\<And>x ys s. I (x # ys) s \<Longrightarrow> post (f x s) (\<lambda>_ s'. I ys s') E"
  shows "post (for_each f xs s) (\<lambda>_ s'. I [] s') E"
  using assms(1)
proof (induction xs arbitrary: s)
  case Nil
  then show ?case by simp
next
  case (Cons x xs)
  from assms(2) [OF Cons.prems] show ?case
    by (auto simp: post_rbind elim!: post_mono intro: Cons.IH)
qed

lemma for_each_append:
  "for_each f (xs @ ys) s = rbind (for_each f xs s) (\<lambda>_ s'. for_each f ys s')"
  by (induction xs arbitrary: s) (auto simp: return_def rbind_def split: sum.splits)

lemma collect_each_post:
  assumes "I xs [] s"
    and "\<And>x ys zs s. I (x # ys) zs s \<Longrightarrow> post (f x s) (\<lambda>y s'. I ys (zs @ [y]) s') E"
  shows "post (collect_each f xs s) (\<lambda>zs s'. I [] zs s') E"
proof -
  have "I xs zs s \<Longrightarrow> post (collect_each f xs s) (\<lambda>ys s'. I [] (zs @ ys) s') E" for zs s
  proof (induction xs arbitrary: s zs)
    case Nil
    then show ?case by simp
  next
    case (Cons x xs)
    have step: "post (f x s) (\<lambda>y s'. I xs (zs @ [y]) s') E"
      by (rule assms(2) [OF Cons.prems])
    show ?case
      by (simp add: post_rbind, rule post_mono [OF step])
        (use Cons.IH in \<open>force intro: post_mono\<close>)+
  qed
  from this [of "[]" s] assms(1) show ?thesis by simp
qed

section \<open>Dictionaries and sets\<close>

lemma count_list_distinct: "distinct xs \<Longrightarrow> count_list xs x = (if x \<in> set xs then 1 else 0)"
  by (induction xs) auto

lemma count_list_filter: "P x \<Longrightarrow> count_list (filter P xs) x = count_list xs x"
  by (induction xs) auto

type_synonym ('k, 'v) dict = "('k \<times> 'v) list"

abbreviation dict_keys :: "('k, 'v) dict \<Rightarrow> 'k list" where
  "dict_keys d \<equiv> map fst d"

abbreviation dict_wf :: "('k, 'v) dict \<Rightarrow> bool" where
  "dict_wf d \<equiv> distinct (map fst d)"

definition set_add :: "'a \<Rightarrow> 'a list \<Rightarrow> 'a list" where
  "set_add x xs = (if x \<in> set xs then xs else xs @ [x])"

lemma set_set_add [simp]: "set (set_add x xs) = insert x (set xs)"
  by (auto simp: set_add_def)

lemma distinct_set_add [simp]: "distinct (set_add x xs) = distinct xs"
  by (auto simp: set_add_def)

lemma dict_wf_update [simp]: "dict_wf d \<Longrightarrow> dict_wf (AList.update k v d)"
  by (rule distinct_update)

lemma dict_wf_delete [simp]: "dict_wf d \<Longrightarrow> dict_wf (AList.delete k d)"
  by (rule distinct_delete)

lemma map_of_update [simp]: "map_of (AList.update k v d) = (map_of d)(k \<mapsto> v)"
  by (simp add: update_conv')

lemma map_of_delete [simp]: "map_of (AList.delete k d) = (map_of d)(k := None)"
  by (simp add: delete_conv')

lemma dict_keys_update [simp]: "fst ` set (AList.update k v d) = insert k (fst ` set d)"
  by (simp add: dom_update)

lemma dict_keys_delete [simp]: "fst ` set (AList.delete k d) = fst ` set d - {k}"
  by (auto simp: AList.delete_eq)

lemma set_update_entries: "set (AList.update k v d) \<subseteq> insert (k, v) (set d)"
  by (induction d) auto

lemma update_values: "snd ` set (AList.update k v d) \<subseteq> insert v (snd ` set d)"
  using set_update_entries [of k v d] by force

lemma delete_update_same: "AList.delete k (AList.update k v d) = AList.delete k d"
  by (induction d) (auto simp: AList.delete_eq)

lemma update_fresh: "k \<notin> fst ` set d \<Longrightarrow> AList.update k v d = d @ [(k, v)]"
  by (induction d) auto

lemma length_update_fresh: "k \<notin> fst ` set d \<Longrightarrow> length (AList.update k v d) = Suc (length d)"
  by (induction d) auto

lemma length_delete_present:
  "dict_wf d \<Longrightarrow> k \<in> fst ` set d \<Longrightarrow> length d = Suc (length (AList.delete k d))"
proof (induction d)
  case (Cons x d)
  show ?case
  proof (cases "fst x = k")
    case True
    with Cons.prems have "AList.delete k d = d"
      by (auto intro!: delete_id)
    with True show ?thesis by (simp add: AList.delete_eq case_prod_beta)
  next
    case False
    with Cons show ?thesis by (auto simp: AList.delete_eq case_prod_beta)
  qed
qed simp

lemma map_of_in_set: "dict_wf d \<Longrightarrow> map_of d k = Some v \<longleftrightarrow> (k, v) \<in> set d"
  by simp

lemma rekey_keys: "fst ` set (map (\<lambda>(k, v). (g k, v)) d) = g ` fst ` set d"
  by (induction d) auto

lemma map_of_keys: "k \<in> fst ` set d \<longleftrightarrow> map_of d k \<noteq> None"
  by (simp add: map_of_eq_None_iff)

section \<open>Numbers\<close>

type_synonym byte = "8 word"

text \<open>\<open>cdiv\<close> of \<open>vllm.utils.math_utils\<close>: ceiling division, \<open>-(a // -b)\<close>.\<close>

definition cdiv :: "int \<Rightarrow> int \<Rightarrow> int" where
  "cdiv a b = - (a div (- b))"

lemma int_div_shift: "0 < b \<Longrightarrow> a div b = k + (a - k * b) div b" for a b k :: int
  using div_mult_self1 [of b "a - k * b" k] by simp

lemma int_le_div_iff: "0 < b \<Longrightarrow> k \<le> a div b \<longleftrightarrow> k * b \<le> a" for a b k :: int
  using int_div_shift [of b a k] pos_imp_zdiv_nonneg_iff [of b "a - k * b"] by simp

lemma int_div_less_iff: "0 < b \<Longrightarrow> a div b < k \<longleftrightarrow> a < k * b" for a b k :: int
  using int_le_div_iff [of b k a] by linarith

section \<open>Byte buffers\<close>

text \<open>
  \<open>buffer.narrow(0, off, n)\<close> names a window of a buffer and raises when it does not fit;
  \<open>copy_\<close> into a window raises when the lengths differ. \<open>read_at\<close> and \<open>write_at\<close> are the
  accesses of a window that fits.
\<close>

definition read_at :: "nat \<Rightarrow> nat \<Rightarrow> byte list \<Rightarrow> byte list" where
  "read_at off n buf = take n (drop off buf)"

definition write_at :: "nat \<Rightarrow> byte list \<Rightarrow> byte list \<Rightarrow> byte list" where
  "write_at off xs buf = take off buf @ xs @ drop (off + length xs) buf"

definition narrow_ok :: "nat \<Rightarrow> nat \<Rightarrow> byte list \<Rightarrow> bool" where
  "narrow_ok off n buf \<longleftrightarrow> off + n \<le> length buf"

definition copy_into :: "nat \<Rightarrow> nat \<Rightarrow> byte list \<Rightarrow> byte list \<Rightarrow> error + byte list" where
  "copy_into off n xs buf =
     (if \<not> narrow_ok off n buf then Inl (RuntimeError ''narrow: window exceeds the buffer'')
      else if length xs \<noteq> n then Inl (RuntimeError ''copy_: sizes differ'')
      else Inr (write_at off xs buf))"

lemma length_write_at [simp]: "off + length xs \<le> length buf \<Longrightarrow> length (write_at off xs buf) = length buf"
  by (simp add: write_at_def)

lemma length_read_at [simp]: "off + n \<le> length buf \<Longrightarrow> length (read_at off n buf) = n"
  by (simp add: read_at_def)

lemma read_at_nth: "off + n \<le> length buf \<Longrightarrow> i < n \<Longrightarrow> read_at off n buf ! i = buf ! (off + i)"
  by (simp add: read_at_def)

lemma write_at_nth:
  "off + length xs \<le> length buf \<Longrightarrow> i < length buf \<Longrightarrow>
     write_at off xs buf ! i = (if off \<le> i \<and> i < off + length xs then xs ! (i - off) else buf ! i)"
  by (auto simp: write_at_def nth_append)

lemma read_write_same: "off + length xs \<le> length buf \<Longrightarrow> n = length xs \<Longrightarrow> read_at off n (write_at off xs buf) = xs"
  by (simp add: read_at_def write_at_def)

lemma read_write_apart:
  assumes "off + length xs \<le> length buf" "a + n \<le> length buf" "a + n \<le> off \<or> off + length xs \<le> a"
  shows "read_at a n (write_at off xs buf) = read_at a n buf"
  using assms by (intro nth_equalityI) (auto simp: read_at_nth write_at_nth)

lemma read_at_split: "read_at a (n + m) buf = read_at a n buf @ read_at (a + n) m buf"
  by (simp add: read_at_def take_add) (simp add: add.commute)

lemma copy_into_ok:
  "off + n \<le> length buf \<Longrightarrow> length xs = n \<Longrightarrow> copy_into off n xs buf = Inr (write_at off xs buf)"
  by (simp add: copy_into_def narrow_ok_def)

text \<open>Windows of pages of \<open>g\<close> bytes, and of slots of \<open>f\<close> pages.\<close>

lemma page_fits: "p < n \<Longrightarrow> p * g + g \<le> n * g" for p n g :: nat
  using mult_le_mono1 [of "Suc p" n g] by simp

lemma pages_apart: "p \<noteq> q \<Longrightarrow> p * g + g \<le> q * g \<or> q * g + g \<le> p * g" for p q g :: nat
  using page_fits [of p q g] page_fits [of q p g] by linarith

lemma slot_apart:
  fixes p sb f g :: nat
  assumes "0 < f" "p div f \<noteq> sb"
  shows "p * g + g \<le> sb * (f * g) \<or> sb * (f * g) + f * g \<le> p * g"
proof (cases "p div f < sb")
  case True
  then have "p < sb * f" using assms(1) by (simp add: div_less_iff_less_mult)
  from page_fits [OF this, of g] show ?thesis by (simp add: mult.assoc)
next
  case False
  with assms have "Suc sb \<le> p div f" by simp
  then have "Suc sb * f \<le> p" using assms(1) by (simp add: less_eq_div_iff_mult_less_eq)
  then have "Suc sb * f * g \<le> p * g" by (rule mult_le_mono1)
  then show ?thesis by (simp add: algebra_simps)
qed

lemma slot_fits: "sb < n div f \<Longrightarrow> sb * (f * g) + f * g \<le> n * g" for sb n f g :: nat
proof -
  assume "sb < n div f"
  then have "Suc sb * f \<le> n div f * f" by (intro mult_le_mono1) simp
  also have "\<dots> \<le> n" by simp
  finally have "Suc sb * f * g \<le> n * g" by (rule mult_le_mono1)
  then show ?thesis by (simp add: algebra_simps)
qed

end
