(* ===== verification/Linked_List.thy ===== *)
theory Linked_List
  imports Pool_Prelude
begin

text \<open>
  Doubly linked paths. Both linked structures of the code, the free block queue of
  \<open>kv_cache_utils.py\<close> and the recency list of \<open>unified_pool.py\<close>, are a start node, a run
  of nodes and an end node whose \<open>next\<close> and \<open>prev\<close> fields agree. A field is a function
  from nodes to an optional node. The start and the end may be the same sentinel.
  The two operations on such a path are unlinking a node and linking a fresh one in.
\<close>

primrec dll :: "('r \<Rightarrow> 'r option) \<Rightarrow> ('r \<Rightarrow> 'r option) \<Rightarrow> 'r \<Rightarrow> 'r list \<Rightarrow> bool" where
  "dll nx pv a [] = True"
| "dll nx pv a (b # bs) = (nx a = Some b \<and> pv b = Some a \<and> dll nx pv b bs)"

lemma dll_append: "dll nx pv a (us @ vs) \<longleftrightarrow> dll nx pv a us \<and> dll nx pv (last (a # us)) vs"
  by (induction us arbitrary: a) auto

lemma dll_frame:
  assumes "dll nx pv a us"
    and "\<And>r. r \<in> set (butlast (a # us)) \<Longrightarrow> nx' r = nx r"
    and "\<And>r. r \<in> set us \<Longrightarrow> pv' r = pv r"
  shows "dll nx' pv' a us"
  using assms
proof (induction us arbitrary: a)
  case Nil
  then show ?case by simp
next
  case (Cons u us)
  from Cons.prems(1) have *: "nx a = Some u" "pv u = Some a" "dll nx pv u us"
    by auto
  have "dll nx' pv' u us"
    by (rule Cons.IH) (use * Cons.prems in auto)
  with * Cons.prems show ?case by auto
qed

text \<open>\<open>linked\<close> adds that the nodes whose fields the path reads are pairwise different.\<close>

definition linked :: "('r \<Rightarrow> 'r option) \<Rightarrow> ('r \<Rightarrow> 'r option) \<Rightarrow> 'r \<Rightarrow> 'r list \<Rightarrow> 'r \<Rightarrow> bool" where
  "linked nx pv s us t \<longleftrightarrow> dll nx pv s (us @ [t]) \<and> distinct us \<and> s \<notin> set us \<and> t \<notin> set us"

lemma linked_split:
  "linked nx pv s (us @ x # ws) t \<Longrightarrow>
     pv x = Some (last (s # us)) \<and> nx x = Some (hd (ws @ [t]))"
  by (cases ws) (auto simp: linked_def dll_append)

lemma linked_unlink:
  assumes "linked nx pv s (us @ x # ws) t"
  defines "a \<equiv> last (s # us)" and "c \<equiv> hd (ws @ [t])"
  assumes nx': "nx' a = Some c" "\<And>r. r \<noteq> a \<Longrightarrow> r \<noteq> x \<Longrightarrow> nx' r = nx r"
    and pv': "pv' c = Some a" "\<And>r. r \<noteq> c \<Longrightarrow> r \<noteq> x \<Longrightarrow> pv' r = pv r"
  shows "linked nx' pv' s (us @ ws) t"
proof -
  obtain cs where cs: "ws @ [t] = c # cs"
    unfolding c_def by (cases ws) auto
  from assms(1) have d: "dll nx pv s us" "dll nx pv a (x # c # cs)"
    and dist: "distinct (us @ x # ws)" "s \<notin> set (us @ x # ws)" "t \<notin> set (us @ x # ws)"
    by (auto simp: linked_def dll_append a_def cs [symmetric] simp del: last.simps)
  have a_mem: "a = s \<or> a \<in> set us"
    unfolding a_def by (cases us rule: rev_cases) auto
  have c_mem: "c = t \<or> c \<in> set ws"
    using cs by (cases ws) auto
  have a_last: "a \<notin> set (butlast (s # us))"
    using dist unfolding a_def by (cases us rule: rev_cases) (auto dest: in_set_butlastD)
  have "dll nx' pv' s us"
  proof (rule dll_frame [OF d(1)])
    fix r assume "r \<in> set (butlast (s # us))"
    moreover from this have "r = s \<or> r \<in> set us"
      by (cases us rule: rev_cases) auto
    ultimately show "nx' r = nx r"
      using a_last dist by (intro nx') auto
  next
    fix r assume "r \<in> set us"
    then show "pv' r = pv r"
      using c_mem dist by (intro pv') auto
  qed
  moreover have "dll nx' pv' c cs"
  proof (rule dll_frame)
    show "dll nx pv c cs" using d(2) by simp
    have csd: "distinct (c # cs)"
      using dist cs [symmetric] by auto
    have csm: "set (c # cs) = insert t (set ws)"
      using cs [symmetric] by auto
    have bl: "butlast (c # cs) = ws"
      using cs [symmetric] by simp
    fix r
    {
      assume "r \<in> set (butlast (c # cs))"
      then have "r \<in> set ws" by (simp only: bl)
      then show "nx' r = nx r"
        using a_mem dist by (intro nx') auto
    }
    assume "r \<in> set cs"
    then show "pv' r = pv r"
      using csd csm dist by (intro pv') auto
  qed
  ultimately have "dll nx' pv' s (us @ c # cs)"
    using nx'(1) pv'(1) by (auto simp: dll_append a_def)
  with dist cs show ?thesis
    by (auto simp: linked_def)
qed

lemma linked_link:
  assumes "linked nx pv s (us @ ws) t"
  defines "a \<equiv> last (s # us)" and "c \<equiv> hd (ws @ [t])"
  assumes fresh: "x \<notin> set (us @ ws)" "x \<noteq> s" "x \<noteq> t"
    and nx': "nx' a = Some x" "nx' x = Some c" "\<And>r. r \<noteq> a \<Longrightarrow> r \<noteq> x \<Longrightarrow> nx' r = nx r"
    and pv': "pv' c = Some x" "pv' x = Some a" "\<And>r. r \<noteq> c \<Longrightarrow> r \<noteq> x \<Longrightarrow> pv' r = pv r"
  shows "linked nx' pv' s (us @ x # ws) t"
proof -
  obtain cs where cs: "ws @ [t] = c # cs"
    unfolding c_def by (cases ws) auto
  from assms(1) have d: "dll nx pv s us" "dll nx pv c cs"
    and dist: "distinct (us @ ws)" "s \<notin> set (us @ ws)" "t \<notin> set (us @ ws)"
    by (auto simp: linked_def dll_append cs)
  have a_mem: "a = s \<or> a \<in> set us"
    unfolding a_def by (cases us rule: rev_cases) auto
  have c_mem: "c = t \<or> c \<in> set ws"
    using cs by (cases ws) auto
  have a_last: "a \<notin> set (butlast (s # us))"
    using dist unfolding a_def by (cases us rule: rev_cases) (auto dest: in_set_butlastD)
  have "dll nx' pv' s us"
  proof (rule dll_frame [OF d(1)])
    fix r assume "r \<in> set (butlast (s # us))"
    moreover from this have "r = s \<or> r \<in> set us"
      by (cases us rule: rev_cases) auto
    ultimately show "nx' r = nx r"
      using a_last fresh by (intro nx') auto
  next
    fix r assume "r \<in> set us"
    then show "pv' r = pv r"
      using c_mem dist fresh by (intro pv') auto
  qed
  moreover have "dll nx' pv' c cs"
  proof (rule dll_frame)
    show "dll nx pv c cs" by (rule d(2))
    have csd: "distinct (c # cs)"
      using dist cs [symmetric] by auto
    have csm: "set (c # cs) = insert t (set ws)"
      using cs [symmetric] by auto
    have bl: "butlast (c # cs) = ws"
      using cs [symmetric] by simp
    fix r
    {
      assume "r \<in> set (butlast (c # cs))"
      then have "r \<in> set ws" by (simp only: bl)
      then show "nx' r = nx r"
        using a_mem dist fresh by (intro nx') auto
    }
    assume "r \<in> set cs"
    then show "pv' r = pv r"
      using csd csm fresh by (intro pv') auto
  qed
  ultimately have "dll nx' pv' s (us @ x # c # cs)"
    using nx'(1,2) pv'(1,2) by (auto simp: dll_append a_def)
  with dist cs fresh show ?thesis
    by (auto simp: linked_def)
qed

lemma linked_frame:
  assumes "linked nx pv s us t"
    and "\<And>r. r \<in> set (s # us) \<Longrightarrow> nx' r = nx r"
    and "\<And>r. r \<in> set (us @ [t]) \<Longrightarrow> pv' r = pv r"
  shows "linked nx' pv' s us t"
proof -
  have "dll nx' pv' s (us @ [t])"
    by (rule dll_frame [of nx pv]) (use assms in \<open>auto simp: linked_def butlast_append\<close>)
  with assms(1) show ?thesis by (simp add: linked_def)
qed

end
