(* ===== verification/Free_Block_Queue.thy ===== *)
theory Free_Block_Queue
  imports Linked_List
begin

text \<open>
  The class \<open>FreeKVCacheBlockQueue\<close> of \<open>vllm/v1/core/kv_cache_utils.py\<close>: a doubly
  linked list of free blocks threaded through the \<open>prev_free_block\<close> and
  \<open>next_free_block\<close> attributes of the \<open>KVCacheBlock\<close> objects themselves, between a fake
  head and a fake tail. These two attributes are written by this class only, so the model
  keeps them here, as functions from block references to references; the other attributes
  of a block are in \<open>Block_Pool\<close>. A real block is named by its \<open>block_id\<close>.

  The theorems: every operation refines the corresponding operation on a list of block
  ids (\<open>fq_rep\<close>), errors included, and the walk over the queue terminates and lists it.
\<close>

section \<open>The queue and its operations\<close>

datatype bref = Head | Tail | Blk nat

record free_queue =
  num_free_blocks :: int
  prev_free_block :: "bref \<Rightarrow> bref option"
  next_free_block :: "bref \<Rightarrow> bref option"

definition set_next :: "bref \<Rightarrow> bref option \<Rightarrow> free_queue \<Rightarrow> free_queue" where
  "set_next r v q = q\<lparr>next_free_block := (next_free_block q)(r := v)\<rparr>"

definition set_prev :: "bref \<Rightarrow> bref option \<Rightarrow> free_queue \<Rightarrow> free_queue" where
  "set_prev r v q = q\<lparr>prev_free_block := (prev_free_block q)(r := v)\<rparr>"

definition add_free :: "int \<Rightarrow> free_queue \<Rightarrow> free_queue" where
  "add_free n q = q\<lparr>num_free_blocks := num_free_blocks q + n\<rparr>"

text \<open>\<open>__init__\<close>: the loop over the blocks, then the two fake ends.\<close>

definition fq_init_step :: "nat list \<Rightarrow> nat \<Rightarrow> free_queue \<Rightarrow> free_queue" where
  "fq_init_step blocks i q =
     (let q1 = (if i > 0 then set_prev (Blk (blocks ! i)) (Some (Blk (blocks ! (i - 1)))) q else q)
      in if int i < int (length blocks) - 1
         then set_next (Blk (blocks ! i)) (Some (Blk (blocks ! (i + 1)))) q1 else q1)"

definition fq_init :: "nat list \<Rightarrow> free_queue" where
  "fq_init blocks =
     (let n = length blocks;
          q = fold (fq_init_step blocks) [0..<n]
                \<lparr>num_free_blocks = int n, prev_free_block = (\<lambda>_. None), next_free_block = (\<lambda>_. None)\<rparr>
      in if n > 0
         then set_next (Blk (last blocks)) (Some Tail)
               (set_prev Tail (Some (Blk (last blocks)))
               (set_prev (Blk (hd blocks)) (Some Head)
               (set_next Head (Some (Blk (hd blocks))) q)))
         else set_prev Tail (Some Head) (set_next Head (Some Tail) q))"

text \<open>
  The head is never its own successor, so the case \<open>Some Head\<close> of \<open>popleft\<close> and
  \<open>popleft_n\<close> cannot occur on a queue built by \<open>fq_init\<close>; there the model reports the
  corrupt list instead of handing out a fake block. The same holds for the fake tail inside
  \<open>popleft_n\<close>, which the code could only reach with \<open>num_free_blocks\<close> out of step.
\<close>

definition popleft :: "free_queue \<Rightarrow> (free_queue, nat) res" where
  "popleft q =
     (case next_free_block q Head of
        Some (Blk first) \<Rightarrow>
          (case next_free_block q (Blk first) of
             None \<Rightarrow> raise (RuntimeError ''popleft: invalid block'') q
           | Some second \<Rightarrow>
               return first
                 (add_free (- 1)
                 (set_prev (Blk first) None (set_next (Blk first) None
                 (set_prev second (Some Head) (set_next Head (Some second) q))))))
      | Some Head \<Rightarrow> raise (RuntimeError ''popleft: corrupt list'') q
      | _ \<Rightarrow> rbind (assert_that (num_free_blocks q = 0) ''num_free_blocks out of sync'' q)
               (\<lambda>_. raise (ValueError ''No free blocks available'')))"

fun popleft_loop :: "nat \<Rightarrow> bref option \<Rightarrow> free_queue \<Rightarrow> (free_queue, nat list \<times> bref option) res" where
  "popleft_loop 0 cur q = return ([], cur) q"
| "popleft_loop (Suc n) cur q =
     (case cur of
        None \<Rightarrow> raise (AssertionError ''curr_block is not None'') q
      | Some (Blk b) \<Rightarrow>
          rbind (popleft_loop n (next_free_block q (Blk b))
                  (set_next (Blk b) None (set_prev (Blk b) None q)))
            (\<lambda>(bs, c). return (b # bs, c))
      | Some _ \<Rightarrow> raise (RuntimeError ''popleft_n: corrupt list'') q)"

definition popleft_n :: "nat \<Rightarrow> free_queue \<Rightarrow> (free_queue, nat list) res" where
  "popleft_n n q =
     (if n = 0 then return [] q
      else rbind (assert_that (num_free_blocks q \<ge> int n) ''num_free_blocks >= n'' q) (\<lambda>_ q0.
             rbind (popleft_loop n (next_free_block q0 Head) (add_free (- int n) q0)) (\<lambda>(ret, cur) q1.
               (case cur of
                  None \<Rightarrow> return ret q1
                | Some c \<Rightarrow> return ret (set_prev c (Some Head) (set_next Head (Some c) q1))))))"

definition fq_remove :: "nat \<Rightarrow> free_queue \<Rightarrow> (free_queue, unit) res" where
  "fq_remove b q =
     (case (prev_free_block q (Blk b), next_free_block q (Blk b)) of
        (Some p, Some n) \<Rightarrow>
          return ()
            (add_free (- 1)
            (set_next (Blk b) None (set_prev (Blk b) None
            (set_prev n (Some p) (set_next p (Some n) q)))))
      | _ \<Rightarrow> raise (RuntimeError ''remove() called on an invalid block'') q)"

definition fq_append :: "nat \<Rightarrow> free_queue \<Rightarrow> (free_queue, unit) res" where
  "fq_append b q =
     (case prev_free_block q Tail of
        None \<Rightarrow> raise (RuntimeError ''prev_free_block of fake_free_list_tail'') q
      | Some l \<Rightarrow>
          return ()
            (add_free 1
            (set_prev Tail (Some (Blk b)) (set_next (Blk b) (Some Tail)
            (set_prev (Blk b) (Some l) (set_next l (Some (Blk b)) q))))))"

fun append_loop :: "nat list \<Rightarrow> bref \<Rightarrow> free_queue \<Rightarrow> bref \<times> free_queue" where
  "append_loop [] l q = (l, q)"
| "append_loop (b # bs) l q =
     append_loop bs (Blk b) (set_next l (Some (Blk b)) (set_prev (Blk b) (Some l) q))"

definition append_n :: "nat list \<Rightarrow> free_queue \<Rightarrow> (free_queue, unit) res" where
  "append_n blocks q =
     (if length blocks = 0 then return () q
      else case prev_free_block q Tail of
             None \<Rightarrow> raise (AssertionError ''prev_free_block of fake_free_list_tail'') q
           | Some l \<Rightarrow>
               (let (l', q') = append_loop blocks l q
                in return () (add_free (int (length blocks))
                     (set_prev Tail (Some l') (set_next l' (Some Tail) q')))))"

text \<open>
  The walk of \<open>get_all_free_blocks\<close>, which is also the cursor loop of the unified pool
  (\<open>while cursor is not None and cursor is not fake_free_list_tail\<close>). The fuel bounds the
  number of nodes visited; running out is \<open>None\<close>.
\<close>

fun fq_walk :: "nat \<Rightarrow> (bref \<Rightarrow> bref option) \<Rightarrow> bref option \<Rightarrow> nat list option" where
  "fq_walk 0 nx c = None"
| "fq_walk (Suc n) nx c =
     (case c of Some (Blk b) \<Rightarrow> map_option ((#) b) (fq_walk n nx (nx (Blk b))) | _ \<Rightarrow> Some [])"

definition free_walk :: "free_queue \<Rightarrow> nat list option" where
  "free_walk q = fq_walk (Suc (nat (num_free_blocks q))) (next_free_block q) (next_free_block q Head)"

definition get_all_free_blocks :: "free_queue \<Rightarrow> (free_queue, nat list) res" where
  "get_all_free_blocks q =
     (if next_free_block q Head = None
      then raise (RuntimeError ''next_free_block of fake_free_list_head'') q
      else case free_walk q of None \<Rightarrow> raise Diverges q | Some bs \<Rightarrow> return bs q)"

section \<open>The list a queue stands for\<close>

definition fq_rep :: "free_queue \<Rightarrow> nat list \<Rightarrow> bool" where
  "fq_rep q xs \<longleftrightarrow>
     linked (next_free_block q) (prev_free_block q) Head (map Blk xs) Tail \<and>
     next_free_block q Tail = None \<and> prev_free_block q Head = None \<and>
     (\<forall>b. b \<notin> set xs \<longrightarrow> next_free_block q (Blk b) = None \<and> prev_free_block q (Blk b) = None) \<and>
     num_free_blocks q = int (length xs)"

lemma fq_rep_distinct: "fq_rep q xs \<Longrightarrow> distinct xs"
  by (auto simp: fq_rep_def linked_def distinct_map)

lemma fq_rep_num: "fq_rep q xs \<Longrightarrow> num_free_blocks q = int (length xs)"
  by (simp add: fq_rep_def)

lemmas fq_update_defs = set_next_def set_prev_def add_free_def

lemma fq_rep_remove:
  assumes "fq_rep q (ys @ x # zs)"
  shows "runs_to (fq_remove x q) (\<lambda>_ q'. fq_rep q' (ys @ zs))"
proof -
  let ?a = "last (Head # map Blk ys)" and ?c = "hd (map Blk zs @ [Tail])"
  from assms have l: "linked (next_free_block q) (prev_free_block q) Head (map Blk ys @ Blk x # map Blk zs) Tail"
    and d: "distinct (ys @ x # zs)"
    using fq_rep_distinct [OF assms] by (auto simp: fq_rep_def)
  have px: "prev_free_block q (Blk x) = Some ?a" and nx: "next_free_block q (Blk x) = Some ?c"
    using linked_split [OF l] by auto
  have ac: "?a \<noteq> Blk x" "?c \<noteq> Blk x" "?a \<noteq> Tail" "?c \<noteq> Head"
    using d by (cases ys rule: rev_cases; cases zs; auto)+
  let ?q = "add_free (- 1) (set_next (Blk x) None (set_prev (Blk x) None
              (set_prev ?c (Some ?a) (set_next ?a (Some ?c) q))))"
  have "linked (next_free_block ?q) (prev_free_block ?q) Head (map Blk ys @ map Blk zs) Tail"
    by (rule linked_unlink [OF l]) (use ac in \<open>auto simp: fq_update_defs simp del: last.simps\<close>)
  moreover have "?a \<in> insert Head (Blk ` set ys)" "?c \<in> insert Tail (Blk ` set zs)"
    by (cases ys rule: rev_cases; auto) (cases zs; auto)
  then have "\<forall>b. b \<notin> set (ys @ zs) \<longrightarrow> next_free_block ?q (Blk b) = None \<and> prev_free_block ?q (Blk b) = None"
    using assms by (auto simp: fq_rep_def fq_update_defs simp del: last.simps)
  ultimately have "fq_rep ?q (ys @ zs)"
    using assms ac by (auto simp: fq_rep_def fq_update_defs simp del: last.simps)
  with px nx show ?thesis
    by (simp add: fq_remove_def del: last.simps)
qed

lemma fq_remove_absent:
  "fq_rep q xs \<Longrightarrow> x \<notin> set xs \<Longrightarrow>
     fq_remove x q = Inl (RuntimeError ''remove() called on an invalid block'', q)"
  by (simp add: fq_rep_def fq_remove_def raise_def)

lemma fq_rep_append:
  assumes "fq_rep q xs" and "x \<notin> set xs"
  shows "runs_to (fq_append x q) (\<lambda>_ q'. fq_rep q' (xs @ [x]))"
proof -
  let ?a = "last (Head # map Blk xs)"
  from assms have l: "linked (next_free_block q) (prev_free_block q) Head (map Blk xs @ []) Tail"
    by (auto simp: fq_rep_def)
  then have pt: "prev_free_block q Tail = Some ?a"
    by (auto simp: linked_def dll_append simp del: last.simps)
  have a: "?a \<noteq> Blk x" "?a \<noteq> Tail" "?a \<in> insert Head (Blk ` set xs)"
    using assms(2) by (cases xs rule: rev_cases; auto)+
  let ?q = "add_free 1 (set_prev Tail (Some (Blk x)) (set_next (Blk x) (Some Tail)
              (set_prev (Blk x) (Some ?a) (set_next ?a (Some (Blk x)) q))))"
  have "linked (next_free_block ?q) (prev_free_block ?q) Head (map Blk xs @ [Blk x]) Tail"
    by (rule linked_link [OF l]) (use assms a in \<open>auto simp: fq_update_defs simp del: last.simps\<close>)
  then have "fq_rep ?q (xs @ [x])"
    using assms a by (auto simp: fq_rep_def fq_update_defs simp del: last.simps)
  with pt show ?thesis
    by (simp add: fq_append_def del: last.simps)
qed

text \<open>\<open>popleft\<close> unlinks the first block, so it is \<open>remove\<close> of that block.\<close>

lemma fq_rep_popleft:
  assumes "fq_rep q (x # zs)"
  shows "runs_to (popleft q) (\<lambda>b q'. b = x \<and> fq_rep q' zs)"
proof -
  let ?c = "hd (map Blk zs @ [Tail])"
  from assms have l: "linked (next_free_block q) (prev_free_block q) Head ([] @ Blk x # map Blk zs) Tail"
    by (simp add: fq_rep_def)
  from linked_split [OF l] have px: "prev_free_block q (Blk x) = Some Head"
    and nx: "next_free_block q (Blk x) = Some ?c" by auto
  from l have "next_free_block q Head = Some (Blk x)"
    by (auto simp: linked_def)
  with px nx have "popleft q = rbind (fq_remove x q) (\<lambda>_. return x)"
    by (simp add: popleft_def fq_remove_def return_def fq_update_defs)
  moreover have "runs_to (fq_remove x q) (\<lambda>_ q'. fq_rep q' zs)"
    using fq_rep_remove [of q "[]" x zs] assms by simp
  ultimately show ?thesis by (simp add: post_rbind)
qed

lemma popleft_empty:
  "fq_rep q [] \<Longrightarrow> popleft q = Inl (ValueError ''No free blocks available'', q)"
  by (auto simp: fq_rep_def linked_def popleft_def assert_that_def return_def raise_def)

definition clear_links :: "nat set \<Rightarrow> free_queue \<Rightarrow> free_queue" where
  "clear_links B q = q\<lparr>next_free_block := (\<lambda>r. if r \<in> Blk ` B then None else next_free_block q r),
                       prev_free_block := (\<lambda>r. if r \<in> Blk ` B then None else prev_free_block q r)\<rparr>"

lemma popleft_loop_eq:
  assumes "dll nx pv a (map Blk xs @ [Tail])" and "distinct xs" and "n \<le> length xs"
    and "\<And>b. b \<in> set xs \<Longrightarrow> next_free_block q (Blk b) = nx (Blk b)"
  shows "popleft_loop n (Some (hd (map Blk xs @ [Tail]))) q =
     Inr ((take n xs, Some (hd (map Blk (drop n xs) @ [Tail]))), clear_links (set (take n xs)) q)"
  using assms
proof (induction n arbitrary: xs q a)
  case 0
  then show ?case by (simp add: return_def clear_links_def)
next
  case (Suc n)
  then obtain x ys where xs: "xs = x # ys" by (cases xs) auto
  let ?q = "set_next (Blk x) None (set_prev (Blk x) None q)"
  have d: "dll nx pv (Blk x) (map Blk ys @ [Tail])"
    using Suc.prems(1) xs by auto
  then have nx: "next_free_block q (Blk x) = Some (hd (map Blk ys @ [Tail]))"
    using Suc.prems(4) [of x] xs by (cases ys) auto
  have "popleft_loop n (Some (hd (map Blk ys @ [Tail]))) ?q =
     Inr ((take n ys, Some (hd (map Blk (drop n ys) @ [Tail]))), clear_links (set (take n ys)) ?q)"
    by (rule Suc.IH [OF d]) (use Suc.prems xs in \<open>auto simp: fq_update_defs\<close>)
  with nx xs show ?case
    by (auto simp: return_def fq_update_defs clear_links_def fun_eq_iff)
qed

lemma fq_rep_relink:
  assumes rep: "fq_rep q (ys @ zs)" and cs: "map Blk zs @ [Tail] = c # cs"
  shows "fq_rep (set_prev c (Some Head) (set_next Head (Some c)
           (clear_links (set ys) (add_free (- int (length ys)) q)))) zs"
proof -
  let ?q = "set_prev c (Some Head) (set_next Head (Some c)
              (clear_links (set ys) (add_free (- int (length ys)) q)))"
  note d = fq_rep_distinct [OF rep]
  have dc: "distinct (c # cs)" and sc: "set (c # cs) = insert Tail (Blk ` set zs)"
    and bc: "set (butlast (c # cs)) = Blk ` set zs"
    using d by (auto simp: cs [symmetric] distinct_map inj_on_def)
  have "dll (next_free_block q) (prev_free_block q) Head (map Blk ys @ c # cs)"
    using rep by (simp add: fq_rep_def linked_def flip: cs)
  then have "dll (next_free_block q) (prev_free_block q) c cs"
    by (simp add: dll_append)
  then have "dll (next_free_block ?q) (prev_free_block ?q) c cs"
  proof (rule dll_frame)
    fix r assume "r \<in> set (butlast (c # cs))"
    then have "r \<in> Blk ` set zs" by (simp only: bc)
    then show "next_free_block ?q r = next_free_block q r"
      using d by (auto simp: fq_update_defs clear_links_def)
  next
    fix r assume "r \<in> set cs"
    then have "r \<noteq> c" "r \<in> insert Tail (Blk ` set zs)"
      using dc sc by auto
    then show "prev_free_block ?q r = prev_free_block q r"
      using d by (auto simp: fq_update_defs clear_links_def)
  qed
  then have "dll (next_free_block ?q) (prev_free_block ?q) Head (map Blk zs @ [Tail])"
    by (simp add: cs) (simp add: fq_update_defs)
  then have "linked (next_free_block ?q) (prev_free_block ?q) Head (map Blk zs) Tail"
    using d by (auto simp: linked_def distinct_map inj_on_def)
  moreover have c: "c \<in> insert Tail (Blk ` set zs)"
    using sc by auto
  have "next_free_block ?q Tail = None \<and> prev_free_block ?q Head = None \<and>
      num_free_blocks ?q = int (length zs) \<and>
      (\<forall>b. b \<notin> set zs \<longrightarrow> next_free_block ?q (Blk b) = None \<and> prev_free_block ?q (Blk b) = None)"
    using rep c by (auto simp: fq_rep_def fq_update_defs clear_links_def)
  ultimately show ?thesis
    unfolding fq_rep_def by blast
qed

lemma fq_rep_popleft_n:
  assumes rep: "fq_rep q xs" and n: "n \<le> length xs"
  shows "runs_to (popleft_n n q) (\<lambda>bs q'. bs = take n xs \<and> fq_rep q' (drop n xs))"
proof (cases "n = 0")
  case True
  with rep show ?thesis by (simp add: popleft_n_def)
next
  case False
  let ?q0 = "add_free (- int n) q"
  obtain c cs where cs: "map Blk (drop n xs) @ [Tail] = c # cs"
    by (cases "drop n xs") auto
  then have c: "hd (map Blk (drop n xs) @ [Tail]) = c" by simp
  from rep have dl: "dll (next_free_block q) (prev_free_block q) Head (map Blk xs @ [Tail])"
    by (simp add: fq_rep_def linked_def)
  then have hd_xs: "next_free_block q Head = Some (hd (map Blk xs @ [Tail]))"
    by (cases xs) auto
  have "popleft_loop n (Some (hd (map Blk xs @ [Tail]))) ?q0 =
      Inr ((take n xs, Some c), clear_links (set (take n xs)) ?q0)"
    unfolding c [symmetric]
    by (rule popleft_loop_eq [OF dl fq_rep_distinct [OF rep] n]) (simp add: add_free_def)
  with False n rep hd_xs have "popleft_n n q = Inr (take n xs,
      set_prev c (Some Head) (set_next Head (Some c) (clear_links (set (take n xs)) ?q0)))"
    by (simp add: popleft_n_def assert_that_def return_def fq_rep_num)
  with fq_rep_relink [of q "take n xs" "drop n xs", OF _ cs] rep n show ?thesis
    by simp
qed

text \<open>
  \<open>append_n\<close> links the new blocks one after the other and closes the list at the end.
  Closing after every block instead gives the same queue, so it is a run of \<open>append\<close>s.
\<close>

definition close_list :: "bref \<Rightarrow> int \<Rightarrow> free_queue \<Rightarrow> free_queue" where
  "close_list l n q = add_free n (set_prev Tail (Some l) (set_next l (Some Tail) q))"

lemma append_loop_rep:
  assumes "fq_rep (close_list l n q) xs" and "l = last (Head # map Blk xs)"
    and "distinct (xs @ bs)" and "append_loop bs l q = (l', q')"
  shows "fq_rep (close_list l' (n + int (length bs)) q') (xs @ bs)"
  using assms
proof (induction bs arbitrary: xs l n q)
  case Nil
  then show ?case by simp
next
  case (Cons b bs)
  let ?q = "set_next l (Some (Blk b)) (set_prev (Blk b) (Some l) q)"
  have lb: "l \<noteq> Blk b" "l \<noteq> Tail"
    using Cons.prems(2,3) by (cases xs rule: rev_cases; auto)+
  have "fq_append b (close_list l n q) = Inr ((), close_list (Blk b) (n + 1) ?q)"
    using lb by (auto simp: fq_append_def close_list_def fq_update_defs return_def fun_eq_iff)
  moreover have "runs_to (fq_append b (close_list l n q)) (\<lambda>_ q'. fq_rep q' (xs @ [b]))"
    by (rule fq_rep_append [OF Cons.prems(1)]) (use Cons.prems(3) in auto)
  ultimately have rep: "fq_rep (close_list (Blk b) (n + 1) ?q) (xs @ [b])"
    by simp
  have "fq_rep (close_list l' (n + 1 + int (length bs)) q') ((xs @ [b]) @ bs)"
    by (rule Cons.IH [OF rep]) (use Cons.prems in auto)
  then show ?case by (simp add: ac_simps)
qed

lemma fq_rep_append_n:
  assumes rep: "fq_rep q xs" and d: "distinct bs" "set bs \<inter> set xs = {}"
  shows "runs_to (append_n bs q) (\<lambda>_ q'. fq_rep q' (xs @ bs))"
proof -
  let ?l = "last (Head # map Blk xs)"
  have l: "prev_free_block q Tail = Some ?l" "next_free_block q ?l = Some Tail"
    using rep by (auto simp: fq_rep_def linked_def dll_append simp del: last.simps)
  then have "close_list ?l 0 q = q"
    by (auto simp: close_list_def fq_update_defs fun_eq_iff simp del: last.simps)
  then have "fq_rep (close_list l' (0 + int (length bs)) q') (xs @ bs)"
    if "append_loop bs ?l q = (l', q')" for l' q'
    using append_loop_rep [OF _ refl _ that, of 0] rep d fq_rep_distinct [OF rep] by auto
  with l rep show ?thesis
    by (auto simp: append_n_def close_list_def split: prod.splits simp del: last.simps)
qed

section \<open>The initial queue\<close>

lemma dll_nth:
  "dll nx pv a us \<longleftrightarrow> (\<forall>i < length us. nx ((a # us) ! i) = Some (us ! i) \<and> pv (us ! i) = Some ((a # us) ! i))"
proof (induction us arbitrary: a)
  case (Cons u us)
  show ?case
    by (auto simp: Cons.IH nth_Cons' less_Suc_eq_0_disj)
qed simp

text \<open>What the constructor's loop has written after \<open>k\<close> rounds.\<close>

lemma fq_init_loop_all:
  assumes "distinct bs" and "k \<le> length bs"
  defines "q \<equiv> \<lambda>k. fold (fq_init_step bs) [0..<k]
             \<lparr>num_free_blocks = int (length bs), prev_free_block = (\<lambda>_. None), next_free_block = (\<lambda>_. None)\<rparr>"
  shows "num_free_blocks (q k) = int (length bs) \<and>
     (\<forall>i. 0 < i \<and> i < k \<longrightarrow> prev_free_block (q k) (Blk (bs ! i)) = Some (Blk (bs ! (i - 1)))) \<and>
     (\<forall>i. i < k \<and> Suc i < length bs \<longrightarrow> next_free_block (q k) (Blk (bs ! i)) = Some (Blk (bs ! Suc i))) \<and>
     (\<forall>r. r \<notin> Blk ` set bs \<longrightarrow> next_free_block (q k) r = None \<and> prev_free_block (q k) r = None)"
  using assms(2)
proof (induction k)
  case 0
  then show ?case by (simp add: q_def)
next
  case (Suc k)
  have ne: "bs ! i \<noteq> bs ! k" if "i < k" for i
    using assms(1) Suc.prems that by (simp add: nth_eq_iff_index_eq)
  have step: "q (Suc k) = fq_init_step bs k (q k)"
    by (simp add: q_def)
  have mem: "Blk (bs ! k) \<in> Blk ` set bs" using Suc.prems by simp
  then have off: "r \<noteq> Blk (bs ! k)" if "r \<notin> Blk ` set bs" for r
    using that by auto
  from Suc ne off show ?case
    by (auto simp: step fq_init_step_def fq_update_defs Let_def less_Suc_eq)
qed

lemmas fq_init_loop = fq_init_loop_all [THEN conjunct1]
  fq_init_loop_all [THEN conjunct2, THEN conjunct1, rule_format]
  fq_init_loop_all [THEN conjunct2, THEN conjunct2, THEN conjunct1, rule_format]
  fq_init_loop_all [THEN conjunct2, THEN conjunct2, THEN conjunct2, rule_format]

lemma fq_rep_init:
  assumes d: "distinct bs"
  shows "fq_rep (fq_init bs) bs"
proof (cases bs)
  case Nil
  then show ?thesis
    by (simp add: fq_init_def fq_rep_def linked_def fq_update_defs)
next
  case (Cons b bs')
  let ?n = "length bs" and ?us = "map Blk bs @ [Tail]"
  note loop = fq_init_loop [OF d order.refl]
  have ends: "hd bs = bs ! 0" "last bs = bs ! (?n - 1)" "0 < ?n"
    using Cons by (auto simp: hd_conv_nth last_conv_nth)
  have ne: "bs ! i = bs ! j \<longleftrightarrow> i = j" if "i < ?n" "j < ?n" for i j
    using d that by (simp add: nth_eq_iff_index_eq)
  have "next_free_block (fq_init bs) ((Head # ?us) ! i) = Some (?us ! i) \<and>
        prev_free_block (fq_init bs) (?us ! i) = Some ((Head # ?us) ! i)" if i: "i < length ?us" for i
  proof -
    consider "i = 0" | j where "i = Suc j" "i < ?n" | "i = ?n"
      using i by (cases i) (auto simp: less_Suc_eq)
    then show ?thesis
      using ends ne loop(2) [of i] loop(3) [of "i - 1"]
      by cases (auto simp: fq_init_def fq_update_defs Let_def nth_append nth_Cons')
  qed
  then have "dll (next_free_block (fq_init bs)) (prev_free_block (fq_init bs)) Head ?us"
    by (simp add: dll_nth del: length_append)
  then have "linked (next_free_block (fq_init bs)) (prev_free_block (fq_init bs)) Head (map Blk bs) Tail"
    using d by (auto simp: linked_def distinct_map inj_on_def)
  moreover have "next_free_block (fq_init bs) r = None \<and> prev_free_block (fq_init bs) r = None"
    if "r \<notin> Blk ` set bs" "r \<noteq> Head" "r \<noteq> Tail" for r
    using loop(4) [of r] that Cons last_in_set [of bs] hd_in_set [of bs]
    by (auto simp: fq_init_def fq_update_defs Let_def simp del: last_in_set hd_in_set)
  moreover have "next_free_block (fq_init bs) Tail = None \<and> prev_free_block (fq_init bs) Head = None"
    using loop(4) [of Tail] loop(4) [of Head] Cons by (auto simp: fq_init_def fq_update_defs Let_def)
  moreover have "num_free_blocks (fq_init bs) = int (length bs)"
    using loop(1) Cons by (simp add: fq_init_def fq_update_defs Let_def)
  ultimately show ?thesis
    unfolding fq_rep_def by auto
qed

section \<open>The walk\<close>

lemma fq_walk_path:
  "dll nx pv a (map Blk xs @ [Tail]) \<Longrightarrow> nx Tail = None \<Longrightarrow> length xs \<le> n \<Longrightarrow>
     fq_walk (Suc n) nx (nx a) = Some xs"
proof (induction xs arbitrary: a n)
  case (Cons x xs)
  then obtain m where n: "n = Suc m" by (cases n) auto
  from Cons.prems have "dll nx pv (Blk x) (map Blk xs @ [Tail])" by simp
  from Cons.IH [OF this, of m] Cons.prems n show ?case by simp
qed simp

lemma fq_rep_walk: "fq_rep q xs \<Longrightarrow> free_walk q = Some xs"
  unfolding free_walk_def by (rule fq_walk_path) (auto simp: fq_rep_def linked_def)

lemma fq_rep_get_all:
  assumes "fq_rep q xs"
  shows "get_all_free_blocks q = Inr (xs, q)"
proof -
  have "next_free_block q Head \<noteq> None"
    using assms by (cases xs) (auto simp: fq_rep_def linked_def)
  with fq_rep_walk [OF assms] show ?thesis
    by (auto simp: get_all_free_blocks_def return_def)
qed

section \<open>The interface the block pool uses\<close>

definition free_ids :: "free_queue \<Rightarrow> nat list" where
  "free_ids q = (case free_walk q of None \<Rightarrow> [] | Some xs \<Rightarrow> xs)"

definition fq_wf :: "free_queue \<Rightarrow> bool" where
  "fq_wf q \<longleftrightarrow> fq_rep q (free_ids q)"

lemma fq_rep_ids: "fq_rep q xs \<Longrightarrow> fq_wf q \<and> free_ids q = xs"
  by (auto simp: fq_wf_def free_ids_def fq_rep_walk)

locale block_queue =
  fixes wf :: "'q \<Rightarrow> bool"
    and ids :: "'q \<Rightarrow> nat list"
    and num :: "'q \<Rightarrow> int"
    and walk :: "'q \<Rightarrow> nat list option"
    and remove :: "nat \<Rightarrow> 'q \<Rightarrow> ('q, unit) res"
    and append_all :: "nat list \<Rightarrow> 'q \<Rightarrow> ('q, unit) res"
    and pop_front :: "nat \<Rightarrow> 'q \<Rightarrow> ('q, nat list) res"
  assumes ids_distinct: "wf q \<Longrightarrow> distinct (ids q)"
    and num_ids: "wf q \<Longrightarrow> num q = int (length (ids q))"
    and walk_ids: "wf q \<Longrightarrow> walk q = Some (ids q)"
    and remove_member: "wf q \<Longrightarrow> b \<in> set (ids q) \<Longrightarrow>
          runs_to (remove b q) (\<lambda>_ q'. wf q' \<and> ids q' = remove1 b (ids q))"
    and remove_other: "wf q \<Longrightarrow> b \<notin> set (ids q) \<Longrightarrow>
          remove b q = Inl (RuntimeError ''remove() called on an invalid block'', q)"
    and append_ids: "wf q \<Longrightarrow> distinct bs \<Longrightarrow> set bs \<inter> set (ids q) = {} \<Longrightarrow>
          runs_to (append_all bs q) (\<lambda>_ q'. wf q' \<and> ids q' = ids q @ bs)"
    and pop_ids: "wf q \<Longrightarrow> n \<le> length (ids q) \<Longrightarrow>
          runs_to (pop_front n q) (\<lambda>bs q'. bs = take n (ids q) \<and> wf q' \<and> ids q' = drop n (ids q))"
begin

lemma remove_member_set:
  assumes "wf q" and "b \<in> set (ids q)"
  shows "runs_to (remove b q) (\<lambda>_ q'. wf q' \<and> set (ids q') = set (ids q) - {b} \<and> num q' = num q - 1)"
proof (rule runs_to_mono [OF remove_member [OF assms]])
  fix a q' assume q': "wf q' \<and> ids q' = remove1 b (ids q)"
  have "int (length (ids q) - 1) = int (length (ids q)) - 1"
    using assms(2) by (cases "ids q") auto
  then show "wf q' \<and> set (ids q') = set (ids q) - {b} \<and> num q' = num q - 1"
    using q' assms ids_distinct [OF assms(1)] by (simp add: num_ids length_remove1)
qed

lemma remove_runs_iff:
  assumes "wf q"
  shows "(\<exists>q'. remove b q = Inr ((), q')) \<longleftrightarrow> b \<in> set (ids q)"
  using remove_member [OF assms, of b] remove_other [OF assms, of b]
  by (cases "b \<in> set (ids q)") (auto elim!: runs_toE)

lemma pop_then_append_rotates:
  assumes "wf q" and "n \<le> length (ids q)"
  shows "runs_to (rbind (pop_front n q) append_all) (\<lambda>_ q'. wf q' \<and> ids q' = rotate n (ids q))"
proof -
  have d: "distinct (ids q)" using assms(1) by (rule ids_distinct)
  have disj: "set (take n (ids q)) \<inter> set (drop n (ids q)) = {}"
    by (rule set_take_disj_set_drop_if_distinct [OF d order.refl])
  have rot: "rotate n (ids q) = drop n (ids q) @ take n (ids q)"
    using assms(2) by (cases "n = length (ids q)") (auto simp: rotate_drop_take)
  have "runs_to (append_all bs q') (\<lambda>_ q''. wf q'' \<and> ids q'' = rotate n (ids q))"
    if "bs = take n (ids q)" "wf q'" "ids q' = drop n (ids q)" for bs q'
    by (rule runs_to_mono [OF append_ids])
      (use that d disj rot in auto)
  then show ?thesis
    by (auto simp: post_rbind intro: runs_to_mono [OF pop_ids [OF assms]])
qed

end

interpretation fq: block_queue fq_wf free_ids num_free_blocks free_walk fq_remove append_n popleft_n
proof (unfold_locales, goal_cases)
  case (1 q) then show ?case by (auto simp: fq_wf_def dest: fq_rep_distinct)
next
  case (2 q) then show ?case by (auto simp: fq_wf_def dest: fq_rep_num)
next
  case (3 q) then show ?case by (auto simp: fq_wf_def dest: fq_rep_walk)
next
  case (4 q b)
  then obtain ys zs where q: "free_ids q = ys @ b # zs" by (auto simp: in_set_conv_decomp)
  have "b \<notin> set ys"
    using 4 q fq_rep_distinct [of q "free_ids q"] by (auto simp: fq_wf_def)
  with q have "remove1 b (free_ids q) = ys @ zs" by (simp add: remove1_append)
  moreover have "runs_to (fq_remove b q) (\<lambda>_ q'. fq_rep q' (ys @ zs))"
    using 4 q by (intro fq_rep_remove) (simp add: fq_wf_def)
  ultimately show ?case by (auto intro: runs_to_mono dest: fq_rep_ids)
next
  case (5 q b) then show ?case by (auto simp: fq_wf_def intro: fq_remove_absent)
next
  case (6 q bs)
  then have "runs_to (append_n bs q) (\<lambda>_ q'. fq_rep q' (free_ids q @ bs))"
    by (intro fq_rep_append_n) (auto simp: fq_wf_def)
  then show ?case by (auto intro: runs_to_mono dest: fq_rep_ids)
next
  case (7 q n)
  then have "runs_to (popleft_n n q) (\<lambda>bs q'. bs = take n (free_ids q) \<and> fq_rep q' (drop n (free_ids q)))"
    by (intro fq_rep_popleft_n) (auto simp: fq_wf_def)
  then show ?case by (auto intro: runs_to_mono dest: fq_rep_ids)
qed

section \<open>Properties\<close>

text \<open>Removing a block from the free list unlinks exactly that block and keeps the order of the others; for a block
  that is not in the list it raises \<open>RuntimeError\<close> and changes nothing.\<close>

theorem remove_unlinks_one_block:
  assumes "fq_wf q"
  shows "if b \<in> set (free_ids q) then runs_to (fq_remove b q) (\<lambda>_ q'. fq_wf q' \<and> free_ids q' = remove1 b (free_ids q))
         else fq_remove b q = Inl (RuntimeError ''remove() called on an invalid block'', q)"
  using fq.remove_member [OF assms] fq.remove_other [OF assms] by simp

lemma init_ids: "fq_wf (fq_init [0..<n]) \<and> free_ids (fq_init [0..<n]) = [0..<n]"
  using fq_rep_ids [OF fq_rep_init [of "[0..<n]"]] by simp

theorem remove_unlinks_one_block_witness:
  "fq_wf (fq_init [0..<4]) \<and> runs_to (fq_remove 2 (fq_init [0..<4])) (\<lambda>_ q'. fq_wf q' \<and> free_ids q' = remove1 2 [0..<4])"
  using remove_unlinks_one_block [of "fq_init [0..<4]" 2] init_ids [of 4] by simp

text \<open>Taking \<open>n\<close> blocks from the front and returning them to the back rotates the list: allocation is in
  first-freed order, and no block is lost or duplicated.\<close>

lemma allocate_then_free_rotates:
  assumes "fq_wf q" and "n \<le> length (free_ids q)"
  shows "runs_to (rbind (popleft_n n q) append_n) (\<lambda>_ q'. fq_wf q' \<and> free_ids q' = rotate n (free_ids q))"
  using assms by (rule fq.pop_then_append_rotates)

end
