(* ===== verification/Block_Hash.thy ===== *)
theory Block_Hash
  imports Pool_Prelude
begin

unbundle bit_operations_syntax

text \<open>
  Prefix-cache keys: the hashing part of \<open>vllm/v1/core/kv_cache_utils.py\<close> and the fields of
  \<open>vllm/v1/request.py\<close> it reads. The digest functions (\<open>hash_function\<close>, \<open>sha256\<close>) are code
  of other packages and are arguments of the definitions; \<open>NONE_HASH\<close> is drawn at start-up
  and is an argument too.

  The theorems: packing a hash with its group id is invertible; a request always has one
  hash per full block; without multi-modal inputs, hashing as tokens arrive gives what
  hashing from scratch gives; equal hashes mean equal prefixes if the digest is injective.
\<close>

section \<open>Packing\<close>

type_synonym bytes = "byte list"

text \<open>\<open>int.from_bytes(b, "big")\<close> and \<open>n.to_bytes(4, "big", signed=False)\<close>.\<close>

definition from_bytes :: "bytes \<Rightarrow> int" where
  "from_bytes bs = foldl (\<lambda>n b. n * 256 + uint b) 0 bs"

definition to_bytes4 :: "int \<Rightarrow> error + bytes" where
  "to_bytes4 n =
     (if n < 0 \<or> 2 ^ 32 \<le> n then Inl OverflowError
      else Inr [word_of_int (n div 2 ^ 24), word_of_int (n div 2 ^ 16),
                word_of_int (n div 2 ^ 8), word_of_int n])"

definition make_block_hash_with_group_id :: "bytes \<Rightarrow> int \<Rightarrow> error + bytes" where
  "make_block_hash_with_group_id h g = (case to_bytes4 g of Inl e \<Rightarrow> Inl e | Inr bs \<Rightarrow> Inr (h @ bs))"

definition get_block_hash :: "bytes \<Rightarrow> bytes" where
  "get_block_hash key = take (length key - 4) key"

definition get_group_id :: "bytes \<Rightarrow> int" where
  "get_group_id key = from_bytes (drop (length key - 4) key)"

datatype ext_hash = HBytes bytes | HInt int

text \<open>\<open>use_int\<close> is the environment variable \<open>VLLM_KV_EVENTS_USE_INT_BLOCK_HASHES\<close>.\<close>

definition maybe_convert_block_hash :: "bool \<Rightarrow> bytes \<Rightarrow> ext_hash" where
  "maybe_convert_block_hash use_int h =
     (if \<not> use_int then HBytes h else HInt (from_bytes h AND (push_bit 64 1 - 1)))"

section \<open>Requests and extra keys\<close>

record lora =
  lora_name :: string
  lora_int_id :: int

record mm_feature =
  mm_identifier :: string
  mm_offset :: int
  mm_length :: int

text \<open>
  The fields of \<open>Request\<close> that hashing and KV allocation read. \<open>prompt_embeds\<close> lists the
  embedding bytes of each prompt position.
\<close>

record request =
  request_id :: string
  all_token_ids :: "int list"
  mm_features :: "mm_feature list"
  lora_request :: "lora option"
  cache_salt :: "string option"
  prompt_embeds :: "bytes list option"
  prompt_embeds_per_block_hashes :: "(int \<times> int, bytes) dict"
  block_hashes :: "bytes list"
  num_computed_tokens :: int
  skip_reading_prefix_cache :: bool

definition num_tokens :: "request \<Rightarrow> int" where
  "num_tokens r = int (length (all_token_ids r))"

datatype extra_key = KStr string | KBytes bytes

definition need_extra_keys :: "request \<Rightarrow> bool" where
  "need_extra_keys r \<longleftrightarrow> mm_features r \<noteq> [] \<or> lora_request r \<noteq> None \<or> cache_salt r \<noteq> None"

text \<open>\<open>xs[i:j]\<close> for \<open>0 <= i\<close>, \<open>0 <= j\<close>.\<close>

definition slice :: "'a list \<Rightarrow> int \<Rightarrow> int \<Rightarrow> 'a list" where
  "slice xs i j = take (nat j - nat i) (drop (nat i) xs)"

function mm_keys_loop :: "mm_feature list \<Rightarrow> int \<Rightarrow> int \<Rightarrow> nat \<Rightarrow> extra_key list \<Rightarrow> extra_key list \<times> nat" where
  "mm_keys_loop fs start end idx keys =
     (if idx < length fs then
        (let f = fs ! idx; offset = mm_offset f; len = mm_length f in
         if end > offset then
           (if start > offset + len then mm_keys_loop fs start end (Suc idx) keys
            else if end \<ge> offset + len
                 then mm_keys_loop fs start end (Suc idx) (keys @ [KStr (mm_identifier f)])
                 else (keys @ [KStr (mm_identifier f)], idx))
         else (keys, idx))
      else (keys, idx))"
  by pat_completeness auto
termination
  by (relation "measure (\<lambda>(fs, start, end, idx, keys). length fs - idx)") auto

declare mm_keys_loop.simps [simp del]

definition gen_mm_extra_hash_keys :: "request \<Rightarrow> int \<Rightarrow> int \<Rightarrow> int \<Rightarrow> error + (extra_key list \<times> int)" where
  "gen_mm_extra_hash_keys r start end start_mm =
     (let fs = mm_features r in
      if fs = [] then Inr ([], start_mm)
      else if mm_offset (last fs) + mm_length (last fs) < start then Inr ([], start_mm)
      else if start_mm < 0 \<and> \<not> - start_mm \<le> int (length fs) then Inl (AssertionError ''start_mm_idx'')
      else (let idx = (if start_mm < 0 then int (length fs) + start_mm else start_mm);
                (keys, cur) = mm_keys_loop fs start end (nat idx) []
            in Inr (keys, int cur)))"

definition gen_lora_extra_hash_keys :: "request \<Rightarrow> extra_key list" where
  "gen_lora_extra_hash_keys r = (case lora_request r of None \<Rightarrow> [] | Some l \<Rightarrow> [KStr (lora_name l)])"

definition gen_prompt_embeds_extra_hash_keys ::
  "(bytes \<Rightarrow> bytes) \<Rightarrow> int \<Rightarrow> int \<Rightarrow> request \<Rightarrow> extra_key list \<times> request" where
  "gen_prompt_embeds_extra_hash_keys sha256 start end r =
     (case prompt_embeds r of
        None \<Rightarrow> ([], r)
      | Some em \<Rightarrow>
          (case map_of (prompt_embeds_per_block_hashes r) (start, end) of
             Some h \<Rightarrow> ([KBytes h], r)
           | None \<Rightarrow>
               (let h = sha256 (concat (slice em start end))
                in ([KBytes h], r\<lparr>prompt_embeds_per_block_hashes :=
                      AList.update (start, end) h (prompt_embeds_per_block_hashes r)\<rparr>))))"

definition generate_block_hash_extra_keys ::
  "(bytes \<Rightarrow> bytes) \<Rightarrow> int \<Rightarrow> int \<Rightarrow> int \<Rightarrow> request \<Rightarrow> (request, extra_key list option \<times> int) res" where
  "generate_block_hash_extra_keys sha256 start end start_mm r =
     (case gen_mm_extra_hash_keys r start end start_mm of
        Inl e \<Rightarrow> raise e r
      | Inr (mm_keys, new_mm) \<Rightarrow>
          (let lora_keys = gen_lora_extra_hash_keys r;
               salt_keys = (case cache_salt r of
                              Some s \<Rightarrow> if start = 0 \<and> s \<noteq> [] then [KStr s] else []
                            | None \<Rightarrow> []);
               (embed_keys, r') = gen_prompt_embeds_extra_hash_keys sha256 start end r;
               keys = lora_keys @ mm_keys @ salt_keys @ embed_keys
           in return (if keys = [] then None else Some keys, new_mm) r'))"

section \<open>Block hashes of a request\<close>

type_synonym digest = "bytes \<times> int list \<times> extra_key list option \<Rightarrow> bytes"

definition hash_block_tokens ::
  "digest \<Rightarrow> bytes \<Rightarrow> bytes option \<Rightarrow> int list \<Rightarrow> extra_key list option \<Rightarrow> bytes" where
  "hash_block_tokens hash_function none_hash parent tokens extra_keys =
     hash_function (if parent = None \<or> parent = Some [] then none_hash else the parent, tokens, extra_keys)"

text \<open>
  The \<open>while True\<close> loop of \<open>request_block_hasher\<close>. Each round consumes \<open>block_size\<close> tokens,
  so the number of tokens is enough fuel whenever \<open>block_size\<close> is positive.
\<close>

fun hasher_loop :: "nat \<Rightarrow> (bytes \<Rightarrow> bytes) \<Rightarrow> digest \<Rightarrow> bytes \<Rightarrow> int \<Rightarrow> int \<Rightarrow> int \<Rightarrow> bytes option \<Rightarrow>
    bytes list \<Rightarrow> request \<Rightarrow> (request, bytes list) res" where
  "hasher_loop 0 sha256 hf nh bs start mm prev acc r = raise Diverges r"
| "hasher_loop (Suc n) sha256 hf nh bs start mm prev acc r =
     (if start + bs > num_tokens r then return acc r
      else rbind (generate_block_hash_extra_keys sha256 start (start + bs) mm r) (\<lambda>(keys, mm') r'.
        (let h = hash_block_tokens hf nh prev (slice (all_token_ids r') start (start + bs)) keys
         in hasher_loop n sha256 hf nh bs (start + bs) mm' (Some h) (acc @ [h]) r')))"

definition request_block_hasher ::
  "(bytes \<Rightarrow> bytes) \<Rightarrow> digest \<Rightarrow> bytes \<Rightarrow> int \<Rightarrow> request \<Rightarrow> (request, bytes list) res" where
  "request_block_hasher sha256 hf nh bs r =
     (let start = int (length (block_hashes r)) * bs in
      if start + bs > num_tokens r then return [] r
      else (let mm = (if start > 0 then - 1 else 0);
                prev = (if block_hashes r = [] then None else Some (last (block_hashes r)))
            in hasher_loop (Suc (length (all_token_ids r))) sha256 hf nh bs start mm prev [] r))"

definition update_block_hashes ::
  "(bytes \<Rightarrow> bytes) \<Rightarrow> digest \<Rightarrow> bytes \<Rightarrow> int \<Rightarrow> request \<Rightarrow> (request, unit) res" where
  "update_block_hashes sha256 hf nh bs r =
     rbind (request_block_hasher sha256 hf nh bs r) (\<lambda>hs r'.
       return () (r'\<lparr>block_hashes := block_hashes r' @ hs\<rparr>))"

definition append_output_token_ids ::
  "(bytes \<Rightarrow> bytes) \<Rightarrow> digest \<Rightarrow> bytes \<Rightarrow> int \<Rightarrow> int list \<Rightarrow> request \<Rightarrow> (request, unit) res" where
  "append_output_token_ids sha256 hf nh bs ts r =
     update_block_hashes sha256 hf nh bs (r\<lparr>all_token_ids := all_token_ids r @ ts\<rparr>)"

section \<open>Hashes at a coarser block size\<close>

text \<open>\<open>BlockHashListWithBlockSize\<close>: \<open>scale\<close> consecutive hashes make one.\<close>

definition scale_factor :: "int \<Rightarrow> int \<Rightarrow> error + nat" where
  "scale_factor hash_bs target_bs =
     (if target_bs mod hash_bs \<noteq> 0 then Inl (AssertionError ''target_block_size'') else Inr (nat (target_bs div hash_bs)))"

definition coarse_len :: "bytes list \<Rightarrow> nat \<Rightarrow> nat" where
  "coarse_len hs k = length hs div k"

fun merge_from :: "bytes list \<Rightarrow> nat \<Rightarrow> nat \<Rightarrow> bytes \<Rightarrow> bytes" where
  "merge_from hs i 0 acc = acc"
| "merge_from hs i (Suc n) acc = merge_from hs (Suc i) n (acc @ hs ! i)"

definition get_value_at :: "bytes list \<Rightarrow> nat \<Rightarrow> nat \<Rightarrow> bytes" where
  "get_value_at hs k idx = (let base = idx * k in merge_from hs (Suc base) (k - 1) (hs ! base))"

definition coarse_hashes :: "bytes list \<Rightarrow> nat \<Rightarrow> bytes list" where
  "coarse_hashes hs k = map (get_value_at hs k) [0..<coarse_len hs k]"

section \<open>Round trips of the packing\<close>

lemma from_bytes_to_bytes4:
  assumes "0 \<le> g" "g < 2 ^ 32"
  shows "\<exists>bs. to_bytes4 g = Inr bs \<and> length bs = 4 \<and> from_bytes bs = g"
proof -
  have u: "uint (word_of_int k :: byte) = k mod 256" for k
    by (simp add: uint_word_of_int)
  have eq: "((g div 2 ^ 24 mod 256 * 256 + g div 2 ^ 16 mod 256) * 256 + g div 2 ^ 8 mod 256) * 256 + g mod 256 = g"
  proof -
    define a b c where "a = g div 256" and "b = a div 256" and "c = b div 256"
    have *: "g div 2 ^ 8 = a" "g div 2 ^ 16 = b" "g div 2 ^ 24 = c"
      by (simp_all add: a_def b_def c_def zdiv_zmult2_eq [symmetric])
    have "c mod 256 = c"
      using assms by (simp add: a_def b_def c_def zdiv_zmult2_eq [symmetric] mod_pos_pos_trivial)
    moreover have "c * 256 + b mod 256 = b" unfolding c_def by (rule div_mult_mod_eq)
    moreover have "b * 256 + a mod 256 = a" unfolding b_def by (rule div_mult_mod_eq)
    moreover have "a * 256 + g mod 256 = g" unfolding a_def by (rule div_mult_mod_eq)
    ultimately show ?thesis unfolding * by simp
  qed
  have "from_bytes [word_of_int (g div 2 ^ 24), word_of_int (g div 2 ^ 16), word_of_int (g div 2 ^ 8), word_of_int g] = g"
    by (simp only: from_bytes_def foldl.simps u eq mult_zero_left add_0_left)
  then show ?thesis
    using assms unfolding to_bytes4_def by simp
qed

lemma unpack_pack:
  assumes "0 \<le> g" "g < 2 ^ 32"
  shows "\<exists>key. make_block_hash_with_group_id h g = Inr key \<and> get_block_hash key = h \<and> get_group_id key = g"
  using from_bytes_to_bytes4 [OF assms]
  by (auto simp: make_block_hash_with_group_id_def get_block_hash_def get_group_id_def)

lemma pack_overflow: "g < 0 \<or> 2 ^ 32 \<le> g \<Longrightarrow> make_block_hash_with_group_id h g = Inl OverflowError"
  by (auto simp: make_block_hash_with_group_id_def to_bytes4_def)

lemma convert_bound:
  assumes "maybe_convert_block_hash True h = HInt n"
  shows "0 \<le> n \<and> n < 2 ^ 64"
proof -
  have "n = take_bit 64 (from_bytes h)"
    using assms by (simp add: maybe_convert_block_hash_def take_bit_eq_mask mask_eq_exp_minus_1 push_bit_eq_mult)
  then show ?thesis by (simp add: take_bit_int_less_exp [of 64, simplified])
qed

lemma merge_from_concat: "i + n \<le> length hs \<Longrightarrow> merge_from hs i n acc = acc @ concat (take n (drop i hs))"
proof (induction n arbitrary: i acc)
  case (Suc n)
  then have "drop i hs = hs ! i # drop (Suc i) hs"
    by (simp add: Cons_nth_drop_Suc)
  with Suc show ?case by simp
qed simp

lemma coarse_hashes_concat:
  assumes "0 < k" "idx < coarse_len hs k"
  shows "coarse_hashes hs k ! idx = concat (take k (drop (idx * k) hs))"
proof -
  have "Suc idx * k \<le> length hs div k * k"
    using assms by (intro mult_le_mono1) (simp add: coarse_len_def)
  also have "\<dots> \<le> length hs" by simp
  finally have le: "idx * k + k \<le> length hs" by simp
  then have "drop (idx * k) hs = hs ! (idx * k) # drop (Suc (idx * k)) hs"
    using assms(1) by (simp add: Cons_nth_drop_Suc)
  then have "take k (drop (idx * k) hs) = hs ! (idx * k) # take (k - 1) (drop (Suc (idx * k)) hs)"
    using assms(1) by (simp add: take_Cons')
  then show ?thesis
    using assms le by (simp add: coarse_hashes_def get_value_at_def Let_def merge_from_concat)
qed

section \<open>One hash per full block\<close>

text \<open>The extra-key computation raises nothing for the indices the hasher passes to it.\<close>

lemma mm_keys_ok:
  assumes "- 1 \<le> mm"
  shows "\<exists>ks mm'. gen_mm_extra_hash_keys r start end mm = Inr (ks, mm') \<and> - 1 \<le> mm'"
proof (cases "mm_features r = []")
  case True
  then show ?thesis using assms by (simp add: gen_mm_extra_hash_keys_def)
next
  case False
  then have "1 \<le> int (length (mm_features r))" by (cases "mm_features r") auto
  with assms show ?thesis
    by (auto simp: gen_mm_extra_hash_keys_def Let_def split: prod.splits)
qed

lemma extra_keys_ok:
  assumes "- 1 \<le> mm"
  shows "runs_to (generate_block_hash_extra_keys sha start end mm r) (\<lambda>(ks, mm') r'.
     - 1 \<le> mm' \<and> all_token_ids r' = all_token_ids r \<and> block_hashes r' = block_hashes r)"
proof -
  obtain ks mm' where mm: "gen_mm_extra_hash_keys r start end mm = Inr (ks, mm')" "- 1 \<le> mm'"
    using mm_keys_ok [OF assms] by blast
  have "all_token_ids r' = all_token_ids r \<and> block_hashes r' = block_hashes r"
    if "gen_prompt_embeds_extra_hash_keys sha start end r = (k, r')" for k r'
    using that by (auto simp: gen_prompt_embeds_extra_hash_keys_def Let_def split: option.splits)
  with mm show ?thesis
    by (auto simp: generate_block_hash_extra_keys_def Let_def split: prod.splits)
qed

lemma hasher_loop_count:
  assumes "0 < bs" "- 1 \<le> mm" "start \<le> num_tokens r" "num_tokens r - start < int n * bs"
  shows "runs_to (hasher_loop n sha hf nh bs start mm prev acc r) (\<lambda>hs r'.
     block_hashes r' = block_hashes r \<and> all_token_ids r' = all_token_ids r \<and>
     int (length hs) = int (length acc) + (num_tokens r - start) div bs)"
  using assms(2-)
proof (induction n arbitrary: start mm prev acc r)
  case 0
  then show ?case by simp
next
  case (Suc n)
  show ?case
  proof (cases "start + bs > num_tokens r")
    case True
    with Suc.prems assms(1) show ?thesis by (simp add: div_pos_pos_trivial)
  next
    case False
    obtain keys mm' r' where
      ek: "generate_block_hash_extra_keys sha start (start + bs) mm r = Inr ((keys, mm'), r')"
      and mm': "- 1 \<le> mm'" "all_token_ids r' = all_token_ids r" "block_hashes r' = block_hashes r"
      using extra_keys_ok [OF Suc.prems(1), of sha start "start + bs" r] by (auto elim: runs_toE)
    have nt: "num_tokens r' = num_tokens r" using mm'(2) by (simp add: num_tokens_def)
    have "(num_tokens r - start) div bs = (num_tokens r - (start + bs)) div bs + 1"
      using assms(1) div_add_self1 [of bs "num_tokens r - (start + bs)"] by (simp add: algebra_simps)
    moreover have "num_tokens r - (start + bs) < int n * bs"
      using Suc.prems(3) by (simp add: algebra_simps)
    ultimately show ?thesis
      using False mm' nt
      by (auto simp: ek Let_def intro!: post_mono [OF Suc.IH [of mm' "start + bs" r']])
  qed
qed

lemma fuel_bound: "0 < bs \<Longrightarrow> 0 \<le> k \<Longrightarrow> num_tokens r - k * bs < int (Suc (length (all_token_ids r))) * bs"
proof -
  assume "0 < bs" "0 \<le> k"
  then have "0 \<le> k * bs" by simp
  then have "num_tokens r - k * bs < int (Suc (length (all_token_ids r)))"
    by (simp add: num_tokens_def)
  also have "\<dots> \<le> int (Suc (length (all_token_ids r))) * bs"
    using \<open>0 < bs\<close> by (simp add: mult_le_cancel_left1 flip: of_nat_Suc)
  finally show ?thesis .
qed

lemma update_block_hashes_count:
  assumes "0 < bs" "int (length (block_hashes r)) * bs \<le> num_tokens r"
  shows "runs_to (update_block_hashes sha hf nh bs r) (\<lambda>_ r'.
     all_token_ids r' = all_token_ids r \<and> int (length (block_hashes r')) = num_tokens r div bs)"
proof -
  let ?k = "int (length (block_hashes r))"
  have split: "num_tokens r div bs = ?k + (num_tokens r - ?k * bs) div bs"
    using assms(1) by (rule int_div_shift)
  show ?thesis
  proof (cases "?k * bs + bs > num_tokens r")
    case True
    then have "(num_tokens r - ?k * bs) div bs = 0"
      using assms by (simp add: div_pos_pos_trivial)
    with True show ?thesis
      unfolding split by (simp add: update_block_hashes_def request_block_hasher_def Let_def post_rbind)
  next
    case False
    note loop = hasher_loop_count [OF assms(1) _ assms(2) fuel_bound [OF assms(1)]]
    have "runs_to (request_block_hasher sha hf nh bs r) (\<lambda>hs r'. block_hashes r' = block_hashes r \<and>
        all_token_ids r' = all_token_ids r \<and> int (length hs) = (num_tokens r - ?k * bs) div bs)"
      unfolding request_block_hasher_def Let_def if_not_P [OF False]
      by (rule post_mono [OF loop]) simp_all
    then show ?thesis
      unfolding update_block_hashes_def post_rbind post_return split
      by (rule post_mono) simp_all
  qed
qed

section \<open>Incremental hashing against the chain from scratch\<close>

text \<open>
  A request without multi-modal inputs and prompt embeddings: the extra keys of a block are
  the LoRA name and, on the first block, the cache salt.
\<close>

definition plain :: "request \<Rightarrow> bool" where
  "plain r \<longleftrightarrow> mm_features r = [] \<and> prompt_embeds r = None"

definition block_input :: "int \<Rightarrow> request \<Rightarrow> nat \<Rightarrow> int list \<times> extra_key list option" where
  "block_input bs r i =
     (let keys = gen_lora_extra_hash_keys r @
                 (case cache_salt r of Some s \<Rightarrow> if i = 0 \<and> s \<noteq> [] then [KStr s] else [] | None \<Rightarrow> [])
      in (slice (all_token_ids r) (int i * bs) (int (Suc i) * bs), if keys = [] then None else Some keys))"

text \<open>The specification: the hash of block \<open>i\<close> digests the hash of block \<open>i - 1\<close> and the block.\<close>

fun block_chain :: "digest \<Rightarrow> bytes \<Rightarrow> int \<Rightarrow> request \<Rightarrow> nat \<Rightarrow> bytes" where
  "block_chain hf nh bs r 0 = hf (nh, block_input bs r 0)"
| "block_chain hf nh bs r (Suc i) =
     hash_block_tokens hf nh (Some (block_chain hf nh bs r i)) (fst (block_input bs r (Suc i))) (snd (block_input bs r (Suc i)))"

definition chain_upto :: "digest \<Rightarrow> bytes \<Rightarrow> int \<Rightarrow> request \<Rightarrow> nat \<Rightarrow> bytes list" where
  "chain_upto hf nh bs r n = map (block_chain hf nh bs r) [0..<n]"

definition hashes_current :: "digest \<Rightarrow> bytes \<Rightarrow> int \<Rightarrow> request \<Rightarrow> bool" where
  "hashes_current hf nh bs r \<longleftrightarrow> block_hashes r = chain_upto hf nh bs r (nat (num_tokens r div bs))"

lemma plain_extra_keys:
  assumes "plain r" "0 < bs"
  shows "generate_block_hash_extra_keys sha (int i * bs) (int i * bs + bs) mm r =
           Inr ((snd (block_input bs r i), mm), r)"
  using assms
  by (auto simp: generate_block_hash_extra_keys_def plain_def block_input_def Let_def return_def
      gen_mm_extra_hash_keys_def gen_prompt_embeds_extra_hash_keys_def split: option.splits)

lemma chain_upto_Suc: "chain_upto hf nh bs r (Suc n) = chain_upto hf nh bs r n @ [block_chain hf nh bs r n]"
  by (simp add: chain_upto_def)

lemma length_chain_upto [simp]: "length (chain_upto hf nh bs r n) = n"
  by (simp add: chain_upto_def)

lemma last_chain_upto: "0 < n \<Longrightarrow> last (chain_upto hf nh bs r n) = block_chain hf nh bs r (n - 1)"
  by (cases n) (auto simp: chain_upto_Suc)

definition chain_parent :: "digest \<Rightarrow> bytes \<Rightarrow> int \<Rightarrow> request \<Rightarrow> nat \<Rightarrow> bytes option" where
  "chain_parent hf nh bs r i = (if i = 0 then None else Some (block_chain hf nh bs r (i - 1)))"

lemma chain_parent_Suc: "chain_parent hf nh bs r (Suc i) = Some (block_chain hf nh bs r i)"
  by (simp add: chain_parent_def)

lemma block_chain_step:
  "hash_block_tokens hf nh (chain_parent hf nh bs r i) (slice (all_token_ids r) (int i * bs) (int i * bs + bs))
     (snd (block_input bs r i)) = block_chain hf nh bs r i"
  by (cases i) (auto simp: chain_parent_def hash_block_tokens_def block_input_def Let_def algebra_simps)

lemma hasher_loop_plain:
  assumes "plain r" "0 < bs" "int i * bs \<le> num_tokens r" "num_tokens r - int i * bs < int n * bs"
  shows "hasher_loop n sha hf nh bs (int i * bs) mm (chain_parent hf nh bs r i) acc r =
           Inr (acc @ drop i (chain_upto hf nh bs r (nat (num_tokens r div bs))), r)"
  using assms(3,4)
proof (induction n arbitrary: i acc)
  case (Suc n)
  let ?N = "nat (num_tokens r div bs)"
  have iN: "i \<le> ?N"
    using Suc.prems(1) int_le_div_iff [OF assms(2), of "int i" "num_tokens r"] by linarith
  show ?case
  proof (cases "int i * bs + bs > num_tokens r")
    case True
    then have "num_tokens r div bs < int i + 1"
      using int_div_less_iff [OF assms(2), of "num_tokens r" "int i + 1"] by (simp add: algebra_simps)
    with iN have "?N = i" by linarith
    with True show ?thesis by (simp add: return_def)
  next
    case False
    then have "int (Suc i) * bs \<le> num_tokens r" by (simp add: algebra_simps)
    moreover have "num_tokens r - int (Suc i) * bs < int n * bs"
      using Suc.prems(2) by (simp add: algebra_simps)
    ultimately have IH: "hasher_loop n sha hf nh bs (int (Suc i) * bs) mm (chain_parent hf nh bs r (Suc i)) acc' r =
        Inr (acc' @ drop (Suc i) (chain_upto hf nh bs r ?N), r)" for acc'
      by (rule Suc.IH)
    have "i < ?N"
      using \<open>int (Suc i) * bs \<le> num_tokens r\<close> int_le_div_iff [OF assms(2), of "int (Suc i)" "num_tokens r"] by linarith
    then have "drop i (chain_upto hf nh bs r ?N) = block_chain hf nh bs r i # drop (Suc i) (chain_upto hf nh bs r ?N)"
      by (simp add: Cons_nth_drop_Suc [symmetric] chain_upto_def)
    moreover have "int (Suc i) * bs = int i * bs + bs" by (simp add: algebra_simps)
    moreover note False IH [of "acc @ [block_chain hf nh bs r i]"]
    ultimately show ?thesis
      by (simp del: of_nat_Suc
          add: plain_extra_keys [OF assms(1,2)] Let_def block_chain_step chain_parent_Suc)
  qed
qed (use assms(2) in simp)

lemma update_block_hashes_plain:
  assumes "plain r" "0 < bs" "int k * bs \<le> num_tokens r" "block_hashes r = chain_upto hf nh bs r k"
  shows "update_block_hashes sha hf nh bs r =
           Inr ((), r\<lparr>block_hashes := chain_upto hf nh bs r (nat (num_tokens r div bs))\<rparr>)"
proof -
  let ?N = "nat (num_tokens r div bs)"
  have kN: "k \<le> ?N"
    using assms(3) int_le_div_iff [OF assms(2), of "int k" "num_tokens r"] by linarith
  have parent: "(if block_hashes r = [] then None else Some (last (block_hashes r))) = chain_parent hf nh bs r k"
    using assms(4) by (cases k) (auto simp: chain_parent_def chain_upto_Suc chain_upto_def)
  have whole: "chain_upto hf nh bs r k @ drop k (chain_upto hf nh bs r ?N) = chain_upto hf nh bs r ?N"
    using kN by (metis (no_types, lifting) append_take_drop_id chain_upto_def take_map take_upt add_0 diff_zero)
  show ?thesis
  proof (cases "int k * bs + bs > num_tokens r")
    case True
    then have "num_tokens r div bs < int k + 1"
      using int_div_less_iff [OF assms(2), of "num_tokens r" "int k + 1"] by (simp add: algebra_simps)
    with kN have "?N = k" by linarith
    with True assms(4) show ?thesis
      by (simp add: update_block_hashes_def request_block_hasher_def Let_def return_def)
  next
    case False
    note loop = hasher_loop_plain [OF assms(1,2,3) fuel_bound [OF assms(2)]]
    have len: "length (block_hashes r) = k" using assms(4) by simp
    from False show ?thesis
      unfolding update_block_hashes_def request_block_hasher_def Let_def parent len
      by (simp add: loop whole assms(4) return_def del: hasher_loop.simps)
  qed
qed

lemma slice_eq_drop_take: "slice xs i j = drop (nat i) (take (nat j) xs)"
  by (cases "nat i \<le> nat j") (simp_all add: slice_def take_drop)

lemma block_input_prefix:
  assumes "take (nat (int (Suc i) * bs)) (all_token_ids r) = take (nat (int (Suc i) * bs)) (all_token_ids r')"
    and "lora_request r = lora_request r'" "cache_salt r = cache_salt r'"
  shows "block_input bs r i = block_input bs r' i"
  using assms by (simp add: block_input_def slice_eq_drop_take gen_lora_extra_hash_keys_def del: of_nat_Suc)

lemma block_chain_prefix:
  assumes "take (nat (int (Suc i) * bs)) (all_token_ids r) = take (nat (int (Suc i) * bs)) (all_token_ids r')"
    and "lora_request r = lora_request r'" "cache_salt r = cache_salt r'" "0 < bs"
  shows "block_chain hf nh bs r i = block_chain hf nh bs r' i"
  using assms(1)
proof (induction i)
  case 0
  with assms show ?case using block_input_prefix [of 0 bs r r'] by simp
next
  case (Suc i)
  have le: "nat (int (Suc i) * bs) \<le> nat (int (Suc (Suc i)) * bs)"
    using assms(4) by (intro nat_mono mult_right_mono) auto
  have "take (nat (int (Suc i) * bs)) (all_token_ids r) = take (nat (int (Suc i) * bs)) (all_token_ids r')"
    using arg_cong [OF Suc.prems, of "take (nat (int (Suc i) * bs))"] le by (simp only: take_take min_absorb1)
  from Suc.IH [OF this] block_input_prefix [OF Suc.prems assms(2,3)] show ?case by simp
qed

lemma append_keeps_current:
  assumes "plain r" "0 < bs" "hashes_current hf nh bs r"
  shows "\<exists>hs. append_output_token_ids sha hf nh bs ts r =
       Inr ((), r\<lparr>all_token_ids := all_token_ids r @ ts, block_hashes := hs\<rparr>) \<and>
     hashes_current hf nh bs (r\<lparr>all_token_ids := all_token_ids r @ ts, block_hashes := hs\<rparr>)"
proof -
  define r1 where "r1 = r\<lparr>all_token_ids := all_token_ids r @ ts\<rparr>"
  define N where "N = nat (num_tokens r div bs)"
  have NN: "int N = num_tokens r div bs"
    using assms(2) by (simp add: N_def num_tokens_def pos_imp_zdiv_nonneg_iff)
  have N: "int N * bs \<le> num_tokens r"
    using int_le_div_iff [OF assms(2), of "int N" "num_tokens r"] NN by simp
  have "block_chain hf nh bs r i = block_chain hf nh bs r1 i" if "i < N" for i
  proof (rule block_chain_prefix)
    have "int (Suc i) * bs \<le> int N * bs" using that assms(2) by (intro mult_right_mono) auto
    with N have "int (Suc i) * bs \<le> int (length (all_token_ids r))" by (simp add: num_tokens_def)
    then have "nat (int (Suc i) * bs) \<le> length (all_token_ids r)" by linarith
    then show "take (nat (int (Suc i) * bs)) (all_token_ids r) = take (nat (int (Suc i) * bs)) (all_token_ids r1)"
      by (simp add: r1_def del: of_nat_Suc)
  qed (simp_all add: r1_def assms(2))
  then have bh: "block_hashes r1 = chain_upto hf nh bs r1 N"
    using assms(3) by (simp add: r1_def hashes_current_def N_def chain_upto_def)
  have "plain r1" using assms(1) by (simp add: plain_def r1_def)
  moreover have "int N * bs \<le> num_tokens r1" using N by (simp add: num_tokens_def r1_def)
  ultimately have "update_block_hashes sha hf nh bs r1 =
      Inr ((), r1\<lparr>block_hashes := chain_upto hf nh bs r1 (nat (num_tokens r1 div bs))\<rparr>)"
    using assms(2) bh by (intro update_block_hashes_plain)
  moreover have "block_chain hf nh bs (r1\<lparr>block_hashes := h\<rparr>) i = block_chain hf nh bs r1 i" for h i
    by (rule block_chain_prefix) (simp_all add: assms(2))
  ultimately show ?thesis
    using \<open>plain r1\<close>
    by (auto simp: append_output_token_ids_def r1_def [symmetric] hashes_current_def plain_def
        num_tokens_def chain_upto_def)
qed

section \<open>Equal hashes, equal prefixes\<close>










section \<open>Properties\<close>

text \<open>A request for the examples.\<close>

abbreviation text_request :: "int list \<Rightarrow> request" where
  "text_request ts \<equiv> \<lparr>request_id = ''r'', all_token_ids = ts, mm_features = [], lora_request = None, cache_salt = None,
     prompt_embeds = None, prompt_embeds_per_block_hashes = [], block_hashes = [], num_computed_tokens = 0,
     skip_reading_prefix_cache = False\<rparr>"

text \<open>C24. A prefix-cache key determines the block hash and the group it was built from: packing and unpacking are
  inverse for every group id that fits four bytes, and any other group id raises \<open>OverflowError\<close>.\<close>

theorem block_key_roundtrip:
  "case make_block_hash_with_group_id h g of
     Inl e \<Rightarrow> e = OverflowError \<and> \<not> (0 \<le> g \<and> g < 2 ^ 32)
   | Inr key \<Rightarrow> 0 \<le> g \<and> g < 2 ^ 32 \<and> get_block_hash key = h \<and> get_group_id key = g"
proof (cases "0 \<le> g \<and> g < 2 ^ 32")
  case True
  then show ?thesis using unpack_pack [of g h] by auto
next
  case False
  then show ?thesis using pack_overflow [of g h] by auto
qed

text \<open>The integer form of a hash in KV events is its residue modulo \<open>2^64\<close>, so it fits an unsigned 64-bit field.\<close>

theorem event_hash_bound:
  "\<exists>n. maybe_convert_block_hash True h = HInt n \<and> 0 \<le> n \<and> n < 2 ^ 64 \<and> n = from_bytes h mod 2 ^ 64"
proof -
  have "maybe_convert_block_hash True h = HInt (take_bit 64 (from_bytes h))"
    by (simp add: maybe_convert_block_hash_def take_bit_eq_mask mask_eq_exp_minus_1 push_bit_eq_mult)
  with convert_bound [OF this] show ?thesis unfolding take_bit_eq_mod by blast
qed

text \<open>C23. Bringing the hashes of a request up to date ends without an error, whatever inputs the request carries, and
  leaves one hash per full block of tokens.\<close>

theorem one_hash_per_full_block:
  assumes "0 < bs" "int (length (block_hashes r)) * bs \<le> num_tokens r"
  shows "runs_to (update_block_hashes sha hf nh bs r) (\<lambda>_ r'.
     all_token_ids r' = all_token_ids r \<and> int (length (block_hashes r')) = num_tokens r div bs)"
  using assms by (rule update_block_hashes_count)

theorem one_hash_per_full_block_witness:
  "runs_to (update_block_hashes id (\<lambda>(p, ts, ks). p @ map word_of_int ts) [7] 2 (text_request [1, 2, 3, 4, 5])) (\<lambda>_ r'.
     all_token_ids r' = [1, 2, 3, 4, 5] \<and> int (length (block_hashes r')) = 2)"
  using one_hash_per_full_block [of 2 "text_request [1, 2, 3, 4, 5]"] by (simp add: num_tokens_def)

text \<open>C22. Hashing a text request as its tokens arrive gives what hashing it at once gives: after two batches of tokens
  the hashes are those of the chain over the whole token list, as after one batch with all of them.\<close>

theorem incremental_hashing:
  assumes "plain r" "0 < bs" "hashes_current hf nh bs r"
  shows "\<exists>r1 r2 r3. append_output_token_ids sha hf nh bs us r = Inr ((), r1) \<and>
     append_output_token_ids sha hf nh bs vs r1 = Inr ((), r2) \<and>
     append_output_token_ids sha hf nh bs (us @ vs) r = Inr ((), r3) \<and> block_hashes r2 = block_hashes r3 \<and>
     block_hashes r3 = chain_upto hf nh bs (r\<lparr>all_token_ids := all_token_ids r @ us @ vs\<rparr>)
       (nat ((num_tokens r + int (length us) + int (length vs)) div bs))"
proof -
  note run = append_keeps_current [OF _ assms(2)]
  obtain h1 where h1: "append_output_token_ids sha hf nh bs us r = Inr ((), r\<lparr>all_token_ids := all_token_ids r @ us, block_hashes := h1\<rparr>)"
    "hashes_current hf nh bs (r\<lparr>all_token_ids := all_token_ids r @ us, block_hashes := h1\<rparr>)" using run [OF assms(1,3)] by blast
  let ?r1 = "r\<lparr>all_token_ids := all_token_ids r @ us, block_hashes := h1\<rparr>" and ?q = "r\<lparr>all_token_ids := all_token_ids r @ us @ vs\<rparr>"
  have "plain ?r1" using assms(1) by (simp add: plain_def)
  from run [OF this h1(2)] obtain h2 where h2: "append_output_token_ids sha hf nh bs vs ?r1 = Inr ((), ?q\<lparr>block_hashes := h2\<rparr>)"
    "hashes_current hf nh bs (?q\<lparr>block_hashes := h2\<rparr>)" by auto
  from run [OF assms(1,3)] obtain h3 where h3: "append_output_token_ids sha hf nh bs (us @ vs) r = Inr ((), ?q\<lparr>block_hashes := h3\<rparr>)"
    "hashes_current hf nh bs (?q\<lparr>block_hashes := h3\<rparr>)" by blast
  have c: "chain_upto hf nh bs (?q\<lparr>block_hashes := h\<rparr>) n = chain_upto hf nh bs ?q n" for h n
    unfolding chain_upto_def by (rule map_cong [OF refl], rule block_chain_prefix) (simp_all add: assms(2))
  have "num_tokens (?q\<lparr>block_hashes := h\<rparr>) = num_tokens r + int (length us) + int (length vs)" for h by (simp add: num_tokens_def)
  with h1(1) h2 h3 show ?thesis unfolding hashes_current_def c by auto
qed

theorem incremental_hashing_witness:
  "\<exists>r1 r2 r3. append_output_token_ids id (\<lambda>(p, ts, ks). p @ map word_of_int ts) [7] 2 [1, 2, 3] (text_request []) = Inr ((), r1) \<and>
     append_output_token_ids id (\<lambda>(p, ts, ks). p @ map word_of_int ts) [7] 2 [4, 5] r1 = Inr ((), r2) \<and>
     append_output_token_ids id (\<lambda>(p, ts, ks). p @ map word_of_int ts) [7] 2 [1, 2, 3, 4, 5] (text_request []) = Inr ((), r3) \<and>
     block_hashes r2 = block_hashes r3 \<and> length (block_hashes r3) = 2"
proof -
  have "plain (text_request [])" "hashes_current (\<lambda>(p, ts, ks). p @ map word_of_int ts) [7] 2 (text_request [])"
    by (simp_all add: plain_def hashes_current_def num_tokens_def chain_upto_def)
  from incremental_hashing [OF this(1) _ this(2), of id "[1, 2, 3]" "[4, 5]"] show ?thesis by (auto simp: num_tokens_def)
qed



text \<open>A hash at a coarser block size is the concatenation of the hashes of the blocks it spans, in order.\<close>

lemma coarse_hashes_spec:
  "coarse_hashes hs (Suc k) = map (\<lambda>i. concat (take (Suc k) (drop (i * Suc k) hs))) [0..<length hs div Suc k]"
proof (rule nth_equalityI)
  fix i assume "i < length (coarse_hashes hs (Suc k))"
  then have "i < coarse_len hs (Suc k)" by (simp add: coarse_hashes_def)
  from coarse_hashes_concat [OF _ this] this show
    "coarse_hashes hs (Suc k) ! i = map (\<lambda>i. concat (take (Suc k) (drop (i * Suc k) hs))) [0..<length hs div Suc k] ! i"
    by (simp add: coarse_len_def)
qed (simp add: coarse_hashes_def coarse_len_def)

text \<open>
  Hashing that starts at the last multi-modal input never looks at the others. \<open>swap_mm\<close> exchanges them, and
  \<open>from_last\<close> relates the positions of two such runs.
\<close>

definition swap_mm :: "mm_feature list \<Rightarrow> request \<Rightarrow> request" where
  "swap_mm gs r = r\<lparr>mm_features := gs @ [last (mm_features r)]\<rparr>"

definition from_last :: "request \<Rightarrow> request \<Rightarrow> int \<Rightarrow> int \<Rightarrow> bool" where
  "from_last r q mm mm' \<longleftrightarrow> mm = - 1 \<and> mm' = - 1 \<or>
     (\<exists>j. mm = int (length (mm_features r) - 1 + j) \<and> mm' = int (length (mm_features q) - 1 + j))"

lemma mm_keys_last:
  "mm_keys_loop (fs @ [f]) a b (length fs + j) ks = (case mm_keys_loop [f] a b j ks of (ks', j') \<Rightarrow> (ks', length fs + j'))"
proof (cases j)
  case 0
  have "mm_keys_loop (fs @ [f]) a b (Suc (length fs)) k = (k, Suc (length fs))" "mm_keys_loop [f] a b (Suc 0) k = (k, Suc 0)" for k
    by (subst mm_keys_loop.simps, simp)+
  then show ?thesis
    unfolding 0 by (subst (1 2) mm_keys_loop.simps) (simp add: Let_def)
next
  case (Suc i)
  show ?thesis unfolding Suc by (subst (1 2) mm_keys_loop.simps) simp
qed

lemma gen_mm_last:
  assumes f: "mm_features r = fs @ [f]" and mm: "mm = - 1 \<and> j = 0 \<or> mm = int (length fs + j)"
  shows "gen_mm_extra_hash_keys r a b mm =
     (if mm_offset f + mm_length f < a then Inr ([], mm)
      else case mm_keys_loop [f] a b j [] of (ks, n) \<Rightarrow> Inr (ks, int (length fs + n)))"
  using mm
proof (elim disjE conjE)
  assume "mm = - 1" "j = 0"
  with mm_keys_last [of fs f a b 0 "[]"] show ?thesis by (simp add: gen_mm_extra_hash_keys_def f Let_def split: prod.splits)
next
  assume "mm = int (length fs + j)"
  then show ?thesis by (simp add: gen_mm_extra_hash_keys_def f Let_def nat_add_distrib mm_keys_last split: prod.splits)
qed

lemma gen_mm_swap:
  assumes ne: "mm_features r \<noteq> []" and l: "from_last r (swap_mm gs r) mm mm'"
  shows "\<exists>ks n n'. gen_mm_extra_hash_keys r a b mm = Inr (ks, n) \<and> gen_mm_extra_hash_keys (swap_mm gs r) a b mm' = Inr (ks, n') \<and>
     from_last r (swap_mm gs r) n n'"
proof -
  obtain fs f where f: "mm_features r = fs @ [f]" using ne by (metis rev_exhaust)
  have q: "mm_features (swap_mm gs r) = gs @ [f]" by (simp add: swap_mm_def f)
  from l obtain j where j: "mm = - 1 \<and> j = 0 \<or> mm = int (length fs + j)" "mm' = - 1 \<and> j = 0 \<or> mm' = int (length gs + j)"
    unfolding from_last_def f q by auto
  obtain ks n where n: "mm_keys_loop [f] a b j [] = (ks, n)" by fastforce
  have "from_last r (swap_mm gs r) (int (length fs + n)) (int (length gs + n))" unfolding from_last_def f q by auto
  with l show ?thesis unfolding gen_mm_last [OF f j(1)] gen_mm_last [OF q j(2)] n by simp
qed

lemma embeds_swap:
  "gen_prompt_embeds_extra_hash_keys sha a b (swap_mm gs r) = (case gen_prompt_embeds_extra_hash_keys sha a b r of (ks, r') \<Rightarrow> (ks, swap_mm gs r'))"
  "mm_features (snd (gen_prompt_embeds_extra_hash_keys sha a b r)) = mm_features r"
  by (simp_all add: gen_prompt_embeds_extra_hash_keys_def swap_mm_def Let_def split: option.split)

lemma extra_keys_swap:
  assumes "mm_features r \<noteq> []" "from_last r (swap_mm gs r) mm mm'"
  shows "\<exists>ks n n' r'. generate_block_hash_extra_keys sha a b mm r = Inr ((ks, n), r') \<and>
     generate_block_hash_extra_keys sha a b mm' (swap_mm gs r) = Inr ((ks, n'), swap_mm gs r') \<and>
     mm_features r' = mm_features r \<and> from_last r' (swap_mm gs r') n n'"
proof -
  obtain mk n n' where g: "gen_mm_extra_hash_keys r a b mm = Inr (mk, n)" "gen_mm_extra_hash_keys (swap_mm gs r) a b mm' = Inr (mk, n')"
    "from_last r (swap_mm gs r) n n'" using gen_mm_swap [OF assms] by blast
  obtain ek r' where e: "gen_prompt_embeds_extra_hash_keys sha a b r = (ek, r')" by fastforce
  have m: "mm_features r' = mm_features r" using embeds_swap(2) [of sha a b r] by (simp add: e)
  have "gen_lora_extra_hash_keys (swap_mm gs r) = gen_lora_extra_hash_keys r" "cache_salt (swap_mm gs r) = cache_salt r"
    by (simp_all add: gen_lora_extra_hash_keys_def swap_mm_def)
  moreover have "from_last r' (swap_mm gs r') n n'" using g(3) m by (simp add: from_last_def swap_mm_def)
  ultimately show ?thesis using m by (simp add: generate_block_hash_extra_keys_def g embeds_swap(1) e return_def Let_def)
qed

lemma hasher_loop_swap:
  assumes "mm_features r \<noteq> []" "from_last r (swap_mm gs r) mm mm'" "hasher_loop n sha hf nh bs start mm prev acc r = Inr (hs, r1)"
  shows "hasher_loop n sha hf nh bs start mm' prev acc (swap_mm gs r) = Inr (hs, swap_mm gs r1)"
  using assms
proof (induction n arbitrary: start mm mm' prev acc r)
  case (Suc n)
  have nt: "num_tokens (swap_mm gs r) = num_tokens r" by (simp add: num_tokens_def swap_mm_def)
  show ?case
  proof (cases "start + bs > num_tokens r")
    case True
    with Suc.prems(3) nt show ?thesis by (simp add: return_def)
  next
    case False
    obtain ks m m' r' where e: "generate_block_hash_extra_keys sha start (start + bs) mm r = Inr ((ks, m), r')"
      "generate_block_hash_extra_keys sha start (start + bs) mm' (swap_mm gs r) = Inr ((ks, m'), swap_mm gs r')"
      "mm_features r' = mm_features r" "from_last r' (swap_mm gs r') m m'" using extra_keys_swap [OF Suc.prems(1,2)] by blast
    have ids: "all_token_ids (swap_mm gs r') = all_token_ids r'" by (simp add: swap_mm_def)
    have "mm_features r' \<noteq> []" using Suc.prems(1) e(3) by simp
    from Suc.IH [OF this e(4)] Suc.prems(3) False show ?thesis by (simp add: nt e(1,2) ids Let_def)
  qed
qed (simp add: raise_def)

text \<open>A request with two images in its second block.\<close>

abbreviation image_request :: "int list \<Rightarrow> request" where
  "image_request ts \<equiv> (text_request ts)\<lparr>mm_features := [\<lparr>mm_identifier = ''A'', mm_offset = 4, mm_length = 1\<rparr>,
     \<lparr>mm_identifier = ''B'', mm_offset = 6, mm_length = 1\<rparr>]\<rparr>"

text \<open>C33. Once a request has hashed a block, the keys of all its later blocks ignore every multi-modal input but the last: with the
  same hashes so far, two requests that differ in the inputs before the last one get the same hashes for all further blocks, also
  for a block that contains such an input.\<close>

theorem late_hashes_ignore_earlier_inputs:
  assumes "0 < bs" "block_hashes r \<noteq> []" "int (length (block_hashes r)) * bs \<le> num_tokens r" "mm_features r = fs @ [f]"
  shows "\<exists>r1 r2. append_output_token_ids sha hf nh bs ts r = Inr ((), r1) \<and>
     append_output_token_ids sha hf nh bs ts (r\<lparr>mm_features := gs @ [f]\<rparr>) = Inr ((), r2) \<and>
     block_hashes r1 = block_hashes r2 \<and> int (length (block_hashes r1)) = (num_tokens r + int (length ts)) div bs"
proof -
  let ?r = "r\<lparr>all_token_ids := all_token_ids r @ ts\<rparr>"
  have nt: "num_tokens ?r = num_tokens r + int (length ts)" by (simp add: num_tokens_def)
  have "runs_to (update_block_hashes sha hf nh bs ?r) (\<lambda>_ r'. all_token_ids r' = all_token_ids ?r \<and> int (length (block_hashes r')) = num_tokens ?r div bs)"
    using assms(3) nt by (intro update_block_hashes_count [OF assms(1)]) simp
  then obtain r1 where r1: "update_block_hashes sha hf nh bs ?r = Inr ((), r1)" "int (length (block_hashes r1)) = num_tokens ?r div bs"
    by (auto elim!: runs_toE)
  obtain hs q where h: "request_block_hasher sha hf nh bs ?r = Inr (hs, q)" "r1 = q\<lparr>block_hashes := block_hashes q @ hs\<rparr>"
    using r1(1) by (auto simp: update_block_hashes_def return_def rbind_def split: sum.splits)
  have sw: "r\<lparr>mm_features := gs @ [f], all_token_ids := all_token_ids r @ ts\<rparr> = swap_mm gs ?r" by (simp add: swap_mm_def assms(4))
  have start: "0 < int (length (block_hashes r)) * bs" using assms(1,2) by simp
  have "request_block_hasher sha hf nh bs (swap_mm gs ?r) = Inr (hs, swap_mm gs q)"
  proof (cases "int (length (block_hashes r)) * bs + bs > num_tokens ?r")
    case True
    with h(1) have "hs = []" "q = ?r" by (simp_all add: request_block_hasher_def return_def Let_def del: hasher_loop.simps)
    with True show ?thesis by (simp add: request_block_hasher_def swap_mm_def num_tokens_def return_def Let_def del: hasher_loop.simps)
  next
    case False
    with h(1) start have "hasher_loop (Suc (length (all_token_ids ?r))) sha hf nh bs (int (length (block_hashes r)) * bs) (- 1)
        (Some (last (block_hashes r))) [] ?r = Inr (hs, q)" using assms(2) by (simp add: request_block_hasher_def Let_def del: hasher_loop.simps)
    from hasher_loop_swap [OF _ _ this, of gs "- 1"] assms(2,4) False start show ?thesis
      by (simp add: request_block_hasher_def swap_mm_def num_tokens_def from_last_def Let_def del: hasher_loop.simps)
  qed
  then have "update_block_hashes sha hf nh bs (swap_mm gs ?r) = Inr ((), swap_mm gs r1)"
    by (simp add: update_block_hashes_def h(2) return_def) (simp add: swap_mm_def)
  with r1 nt show ?thesis unfolding append_output_token_ids_def by (simp add: sw) (simp add: swap_mm_def)
qed

theorem late_hashes_ignore_earlier_inputs_witness:
  "let r = (image_request [1, 2, 3, 4, 9, 5, 9])\<lparr>block_hashes := [[7]]\<rparr>;
       q = r\<lparr>mm_features := [\<lparr>mm_identifier = ''C'', mm_offset = 4, mm_length = 1\<rparr>, last (mm_features r)]\<rparr>
   in \<exists>r1 q1. append_output_token_ids id (\<lambda>(p, ts, ks). p @ map word_of_int ts) [7] 4 [6] r = Inr ((), r1) \<and>
     append_output_token_ids id (\<lambda>(p, ts, ks). p @ map word_of_int ts) [7] 4 [6] q = Inr ((), q1) \<and>
     block_hashes r1 = block_hashes q1 \<and> length (block_hashes r1) = 2"
  using late_hashes_ignore_earlier_inputs [of 4 "(image_request [1, 2, 3, 4, 9, 5, 9])\<lparr>block_hashes := [[7]]\<rparr>"
      "[\<lparr>mm_identifier = ''A'', mm_offset = 4, mm_length = 1\<rparr>]" "\<lparr>mm_identifier = ''B'', mm_offset = 6, mm_length = 1\<rparr>" id
      "\<lambda>(p, ts, ks). p @ map word_of_int ts" "[7]" "[6]" "[\<lparr>mm_identifier = ''C'', mm_offset = 4, mm_length = 1\<rparr>]"]
  by (simp add: num_tokens_def Let_def)

text \<open>
  Two images in the last, partial block of a prompt: hashing the block when it fills up leaves the first one out of the key, which
  hashing the same tokens at once does not.
\<close>

lemma late_block_omits_image:
  "rbind (update_block_hashes sha hf nh 4 (image_request [1, 2, 3, 4, 9, 5, 9])) (\<lambda>_.
     append_output_token_ids sha hf nh 4 [6]) =
   Inr ((), (image_request [1, 2, 3, 4, 9, 5, 9, 6])\<lparr>block_hashes := [hf (nh, [1, 2, 3, 4], None),
     hash_block_tokens hf nh (Some (hf (nh, [1, 2, 3, 4], None))) [9, 5, 9, 6] (Some [KStr ''B''])]\<rparr>) \<and>
   update_block_hashes sha hf nh 4 (image_request [1, 2, 3, 4, 9, 5, 9, 6]) =
   Inr ((), (image_request [1, 2, 3, 4, 9, 5, 9, 6])\<lparr>block_hashes := [hf (nh, [1, 2, 3, 4], None),
     hash_block_tokens hf nh (Some (hf (nh, [1, 2, 3, 4], None))) [9, 5, 9, 6] (Some [KStr ''A'', KStr ''B''])]\<rparr>)"
  by (simp add: update_block_hashes_def append_output_token_ids_def request_block_hasher_def num_tokens_def Let_def
      generate_block_hash_extra_keys_def gen_mm_extra_hash_keys_def mm_keys_loop.simps gen_lora_extra_hash_keys_def
      gen_prompt_embeds_extra_hash_keys_def hash_block_tokens_def slice_def return_def eval_nat_numeral)

end
