(* ===== verification/Block_Map.thy ===== *)
theory Block_Map
  imports Block_Hash
begin

text \<open>
  \<open>BlockHashToBlockMap\<close> of \<open>vllm/v1/core/block_pool.py\<close>: the prefix-cache index from hash
  keys to blocks. An entry is a single block or a dict of blocks keyed by id; blocks are
  named by their ids, so an inner dict is the list of its ids in insertion order.

  The locale \<open>hash_index\<close> states what the block pool relies on: the index is a relation
  between keys and block ids, \<open>insert\<close> and \<open>pop\<close> add and remove one pair, and a lookup
  returns the oldest block of its key.
\<close>

section \<open>Operations\<close>

datatype cached = One nat | Many "nat list"

type_synonym block_map = "(bytes, cached) dict"

definition bmap_empty :: block_map where
  "bmap_empty = []"

definition get_one_block :: "bytes \<Rightarrow> block_map \<Rightarrow> error + nat option" where
  "get_one_block key m =
     (case map_of m key of
        Some (One b) \<Rightarrow> Inr (Some b)
      | Some (Many bs) \<Rightarrow> (case bs of [] \<Rightarrow> Inl StopIteration | b # _ \<Rightarrow> Inr (Some b))
      | None \<Rightarrow> Inr None)"

definition bmap_insert :: "bytes \<Rightarrow> nat \<Rightarrow> block_map \<Rightarrow> block_map" where
  "bmap_insert key b m =
     (case map_of m key of
        None \<Rightarrow> AList.update key (One b) m
      | Some (One b') \<Rightarrow> AList.update key (Many (set_add b [b'])) m
      | Some (Many bs) \<Rightarrow> AList.update key (Many (set_add b bs)) m)"

definition bmap_pop :: "bytes \<Rightarrow> nat \<Rightarrow> block_map \<Rightarrow> nat option \<times> block_map" where
  "bmap_pop key b m =
     (let m' = AList.delete key m
      in case map_of m key of
           None \<Rightarrow> (None, m')
         | Some (One b') \<Rightarrow> if b' = b then (Some b, m') else (None, AList.update key (One b') m')
         | Some (Many bs) \<Rightarrow>
             (let bs' = removeAll b bs; r = (if b \<in> set bs then Some b else None)
              in (r, if length bs' > 0 then AList.update key (Many bs') m' else m')))"

definition bmap_len :: "block_map \<Rightarrow> nat" where
  "bmap_len m = length m"

section \<open>The relation an index stands for\<close>

definition bmap_ids :: "block_map \<Rightarrow> bytes \<Rightarrow> nat list" where
  "bmap_ids m key = (case map_of m key of None \<Rightarrow> [] | Some (One b) \<Rightarrow> [b] | Some (Many bs) \<Rightarrow> bs)"

definition cached_ok :: "cached \<Rightarrow> bool" where
  "cached_ok c = (case c of One _ \<Rightarrow> True | Many bs \<Rightarrow> bs \<noteq> [] \<and> distinct bs)"

definition bmap_wf :: "block_map \<Rightarrow> bool" where
  "bmap_wf m \<longleftrightarrow> dict_wf m \<and> (\<forall>c \<in> snd ` set m. cached_ok c)"

lemma cached_ok_simps [simp]: "cached_ok (One b)" "cached_ok (Many bs) \<longleftrightarrow> bs \<noteq> [] \<and> distinct bs"
  by (simp_all add: cached_ok_def)

lemma bmap_wfD: "bmap_wf m \<Longrightarrow> map_of m key = Some c \<Longrightarrow> cached_ok c"
  unfolding bmap_wf_def by (metis image_eqI map_of_SomeD snd_conv)

lemma bmap_wf_update: "bmap_wf m \<Longrightarrow> cached_ok c \<Longrightarrow> bmap_wf (AList.update key c m)"
  unfolding bmap_wf_def using set_update_entries [of key c m] by auto

lemma bmap_wf_delete: "bmap_wf m \<Longrightarrow> bmap_wf (AList.delete key m)"
  unfolding bmap_wf_def by (simp, auto simp: AList.delete_eq)

locale hash_index =
  fixes wf :: "'m \<Rightarrow> bool"
    and ids :: "'m \<Rightarrow> 'k \<Rightarrow> nat list"
    and get_one :: "'k \<Rightarrow> 'm \<Rightarrow> error + nat option"
    and add :: "'k \<Rightarrow> nat \<Rightarrow> 'm \<Rightarrow> 'm"
    and pop :: "'k \<Rightarrow> nat \<Rightarrow> 'm \<Rightarrow> nat option \<times> 'm"
  assumes ids_distinct: "wf m \<Longrightarrow> distinct (ids m k)"
    and get_one_ids: "wf m \<Longrightarrow> get_one k m = Inr (case ids m k of [] \<Rightarrow> None | b # _ \<Rightarrow> Some b)"
    and add_wf: "wf m \<Longrightarrow> wf (add k b m)"
    and add_ids: "wf m \<Longrightarrow> ids (add k b m) k' = (if k' = k then set_add b (ids m k) else ids m k')"
    and pop_wf: "wf m \<Longrightarrow> wf (snd (pop k b m))"
    and pop_ids: "wf m \<Longrightarrow> ids (snd (pop k b m)) k' = (if k' = k then removeAll b (ids m k) else ids m k')"
    and pop_result: "wf m \<Longrightarrow> fst (pop k b m) = (if b \<in> set (ids m k) then Some b else None)"
begin

text \<open>A lookup misses exactly when no block has the key, and a hit is one of them.\<close>

lemma get_one_miss: "wf m \<Longrightarrow> get_one k m = Inr None \<longleftrightarrow> ids m k = []"
  by (auto simp: get_one_ids split: list.splits)

lemma get_one_hit: "wf m \<Longrightarrow> get_one k m = Inr (Some b) \<Longrightarrow> b \<in> set (ids m k)"
  by (auto simp: get_one_ids split: list.splits)

text \<open>Adding a block does not change which block a key that was present resolves to.\<close>

lemma get_one_stable: "wf m \<Longrightarrow> get_one k m = Inr (Some b) \<Longrightarrow> get_one k (add k b' m) = Inr (Some b)"
  by (auto simp: get_one_ids add_wf add_ids set_add_def split: list.splits)

text \<open>Popping what was just added restores the index, up to order.\<close>

lemma pop_add: "wf m \<Longrightarrow> b \<notin> set (ids m k) \<Longrightarrow> ids (snd (pop k b (add k b m))) k' = ids m k'"
  by (auto simp: pop_ids add_wf add_ids set_add_def)

text \<open>Moving a key from one block to another.\<close>

lemma move_ids:
  "wf m \<Longrightarrow> set (ids (add k b' (snd (pop k b m))) k') =
     (if k' = k then insert b' (set (ids m k) - {b}) else set (ids m k'))"
  by (auto simp: pop_ids pop_wf add_wf add_ids)

end

interpretation bmap: hash_index bmap_wf bmap_ids get_one_block bmap_insert bmap_pop
proof (unfold_locales, goal_cases)
  case (1 m k) then show ?case
    by (auto simp: bmap_ids_def split: option.splits cached.splits dest: bmap_wfD)
next
  case (2 m k) then show ?case
    by (auto simp: bmap_ids_def get_one_block_def split: option.splits cached.splits list.splits dest: bmap_wfD)
next
  case (3 m k b) then show ?case
    by (auto simp: bmap_insert_def set_add_def split: option.splits cached.splits
        intro!: bmap_wf_update dest: bmap_wfD)
next
  case (4 m k b k') then show ?case
    by (auto simp: bmap_ids_def bmap_insert_def set_add_def split: option.splits cached.splits)
next
  case (5 m k b) then show ?case
    by (auto simp: bmap_pop_def Let_def distinct_removeAll split: option.splits cached.splits
        intro!: bmap_wf_update bmap_wf_delete dest: bmap_wfD)
next
  case (6 m k b k') then show ?case
    by (auto simp: bmap_ids_def bmap_pop_def Let_def split: option.splits cached.splits)
next
  case (7 m k b) then show ?case
    by (auto simp: bmap_ids_def bmap_pop_def Let_def split: option.splits cached.splits)
qed

lemma bmap_wf_empty [simp]: "bmap_wf bmap_empty" "bmap_ids bmap_empty k = []"
  by (simp_all add: bmap_wf_def bmap_empty_def bmap_ids_def)

section \<open>Properties\<close>

text \<open>The prefix-cache index: after an insertion a key resolves to the block that had it first, other keys are
  untouched, and removing a block that was just added restores every lookup.\<close>

theorem first_cached_block_wins:
  assumes "bmap_wf m" "b \<notin> set (bmap_ids m k)"
  shows "get_one_block k (bmap_insert k b m) = Inr (Some (case bmap_ids m k of [] \<Rightarrow> b | b' # _ \<Rightarrow> b')) \<and>
     (\<forall>k'. k' \<noteq> k \<longrightarrow> get_one_block k' (bmap_insert k b m) = get_one_block k' m) \<and>
     bmap_pop k b (bmap_insert k b m) = (Some b, snd (bmap_pop k b (bmap_insert k b m))) \<and>
     (\<forall>k'. get_one_block k' (snd (bmap_pop k b (bmap_insert k b m))) = get_one_block k' m)"
proof (intro conjI allI impI)
  let ?i = "bmap_insert k b m"
  note wf = bmap.add_wf [OF assms(1), of k b]
  note ids = bmap.add_ids [OF assms(1), of k b]
  show "get_one_block k ?i = Inr (Some (case bmap_ids m k of [] \<Rightarrow> b | b' # _ \<Rightarrow> b'))"
    using assms(2) by (auto simp: bmap.get_one_ids [OF wf] ids set_add_def split: list.splits)
  show "get_one_block k' ?i = get_one_block k' m" if "k' \<noteq> k" for k'
    using that by (simp add: bmap.get_one_ids [OF wf] bmap.get_one_ids [OF assms(1)] ids)
  have "fst (bmap_pop k b ?i) = Some b" by (simp add: bmap.pop_result [OF wf] ids set_add_def)
  then show "bmap_pop k b ?i = (Some b, snd (bmap_pop k b ?i))" by (metis prod.collapse)
  show "get_one_block k' (snd (bmap_pop k b ?i)) = get_one_block k' m" for k'
    unfolding bmap.get_one_ids [OF bmap.pop_wf [OF wf]] bmap.get_one_ids [OF assms(1)] bmap.pop_add [OF assms] ..
qed

theorem first_cached_block_wins_witness:
  "get_one_block [1] (bmap_insert [1] 7 (bmap_insert [1] 4 bmap_empty)) = Inr (Some 4)"
proof -
  have "bmap_wf (bmap_insert [1] 4 bmap_empty)" "bmap_ids (bmap_insert [1] 4 bmap_empty) [1] = [4]" by code_simp+
  with first_cached_block_wins [of "bmap_insert [1] 4 bmap_empty" 7 "[1]"] show ?thesis by simp
qed

end
