(* ===== verification/Block_Pool.thy ===== *)
theory Block_Pool
  imports Free_Block_Queue Block_Map
begin

text \<open>
  \<open>BlockPool\<close> of \<open>vllm/v1/core/block_pool.py\<close> with \<open>KVCacheBlock\<close> of
  \<open>vllm/v1/core/kv_cache_utils.py\<close>. Blocks are named by their ids, which are their positions
  in \<open>blocks\<close>; their free-list links are the maps of \<open>free_queue\<close>.

  The pool's record is extensible: the unified pool manager, whose methods the pool calls
  back, adds its own fields to it. A callback is therefore a state transformer of the
  extended record, and the lists of registered callbacks are an argument
  (\<open>pool_callbacks\<close>) of the operations that fire them. The metrics collector only observes
  and is left out. \<open>use_int_block_hashes\<close> is the environment variable
  \<open>VLLM_KV_EVENTS_USE_INT_BLOCK_HASHES\<close>.
\<close>

section \<open>State\<close>

record kv_block =
  block_id :: nat
  ref_cnt :: int
  block_hash :: "bytes option"
  is_null :: bool

datatype kv_event =
    BlockStored (ev_hashes: "ext_hash list") (ev_parent: "ext_hash option") (ev_tokens: "int list")
      (ev_block_size: int) (ev_lora_id: "int option") (ev_medium: string) (ev_lora_name: "string option")
      (ev_extra_keys: "extra_key list option list option")
  | BlockRemoved "ext_hash list" string
  | AllBlocksCleared

record block_pool =
  num_gpu_blocks :: nat
  enable_caching :: bool
  hash_block_size :: int
  blocks :: "kv_block list"
  free_block_queue :: free_queue
  cached_block_hash_to_block :: block_map
  null_block :: nat
  enable_kv_cache_events :: bool
  kv_event_queue :: "kv_event list"
  use_int_block_hashes :: bool

record 's pool_callbacks =
  on_allocation_callbacks :: "(nat list \<Rightarrow> 's \<Rightarrow> ('s, unit) res) list"
  on_prefix_added_callbacks :: "(nat \<Rightarrow> 's \<Rightarrow> ('s, unit) res) list"
  on_prefix_removed_callbacks :: "(nat \<Rightarrow> 's \<Rightarrow> ('s, unit) res) list"
  kv_victim_selector :: "(nat \<Rightarrow> 's \<Rightarrow> ('s, nat list) res) option"

definition no_callbacks :: "'s pool_callbacks" where
  "no_callbacks = \<lparr>on_allocation_callbacks = [], on_prefix_added_callbacks = [],
                   on_prefix_removed_callbacks = [], kv_victim_selector = None\<rparr>"

definition register_on_allocation_callback where
  "register_on_allocation_callback f cbs =
     cbs\<lparr>on_allocation_callbacks := on_allocation_callbacks cbs @ [f]\<rparr>"

definition register_on_prefix_added_callback where
  "register_on_prefix_added_callback f cbs =
     cbs\<lparr>on_prefix_added_callbacks := on_prefix_added_callbacks cbs @ [f]\<rparr>"

definition register_on_prefix_removed_callback where
  "register_on_prefix_removed_callback f cbs =
     cbs\<lparr>on_prefix_removed_callbacks := on_prefix_removed_callbacks cbs @ [f]\<rparr>"

definition register_kv_victim_selector where
  "register_kv_victim_selector f cbs = cbs\<lparr>kv_victim_selector := Some f\<rparr>"

definition new_block :: "nat \<Rightarrow> kv_block" where
  "new_block i = \<lparr>block_id = i, ref_cnt = 0, block_hash = None, is_null = False\<rparr>"

definition block_pool_init :: "nat \<Rightarrow> bool \<Rightarrow> int \<Rightarrow> bool \<Rightarrow> bool \<Rightarrow> error + block_pool" where
  "block_pool_init n caching hbs events use_int =
     (if \<not> n > 0 then Inl (AssertionError ''num_gpu_blocks > 0'')
      else case popleft (fq_init [0..<n]) of
             Inl (e, _) \<Rightarrow> Inl e
           | Inr (b, q) \<Rightarrow>
               Inr \<lparr>num_gpu_blocks = n, enable_caching = caching, hash_block_size = hbs,
                    blocks = (map new_block [0..<n])[b := (new_block b)\<lparr>is_null := True\<rparr>],
                    free_block_queue = q, cached_block_hash_to_block = bmap_empty, null_block = b,
                    enable_kv_cache_events = events, kv_event_queue = [], use_int_block_hashes = use_int\<rparr>)"

section \<open>Access to blocks\<close>

definition get_block :: "nat \<Rightarrow> 'm block_pool_scheme \<Rightarrow> ('m block_pool_scheme, kv_block) res" where
  "get_block i s = (if i < length (blocks s) then return (blocks s ! i) s else raise IndexError s)"

definition upd_block :: "nat \<Rightarrow> (kv_block \<Rightarrow> kv_block) \<Rightarrow> 'm block_pool_scheme \<Rightarrow> 'm block_pool_scheme" where
  "upd_block i f s = s\<lparr>blocks := (blocks s)[i := f (blocks s ! i)]\<rparr>"

definition add_ref :: "nat \<Rightarrow> int \<Rightarrow> 'm block_pool_scheme \<Rightarrow> 'm block_pool_scheme" where
  "add_ref i d = upd_block i (\<lambda>b. b\<lparr>ref_cnt := ref_cnt b + d\<rparr>)"

text \<open>The setter of \<open>block_hash\<close> and \<open>reset_hash\<close>.\<close>

definition set_block_hash :: "nat \<Rightarrow> bytes \<Rightarrow> 'm block_pool_scheme \<Rightarrow> ('m block_pool_scheme, unit) res" where
  "set_block_hash i h s =
     rbind (get_block i s) (\<lambda>b s.
       rbind (assert_that (block_hash b = None) ''The block already has a hash'' s) (\<lambda>_ s.
         return () (upd_block i (\<lambda>b. b\<lparr>block_hash := Some h\<rparr>) s)))"

definition reset_hash :: "nat \<Rightarrow> 'm block_pool_scheme \<Rightarrow> 'm block_pool_scheme" where
  "reset_hash i = upd_block i (\<lambda>b. b\<lparr>block_hash := None\<rparr>)"

definition on_queue ::
  "(free_queue \<Rightarrow> (free_queue, 'a) res) \<Rightarrow> 'm block_pool_scheme \<Rightarrow> ('m block_pool_scheme, 'a) res" where
  "on_queue = on_part free_block_queue (\<lambda>q s. s\<lparr>free_block_queue := q\<rparr>)"

definition get_num_free_blocks :: "'m block_pool_scheme \<Rightarrow> int" where
  "get_num_free_blocks s = num_free_blocks (free_block_queue s)"

definition fire :: "('x \<Rightarrow> 's \<Rightarrow> ('s, unit) res) list \<Rightarrow> 'x \<Rightarrow> 's \<Rightarrow> ('s, unit) res" where
  "fire fs x s = for_each (\<lambda>f. f x) fs s"

section \<open>Lookup and caching\<close>

fun get_cached_loop :: "bytes \<Rightarrow> int list \<Rightarrow> nat list \<Rightarrow> 'm block_pool_scheme \<Rightarrow> error + nat list option" where
  "get_cached_loop h [] acc s = Inr (Some acc)"
| "get_cached_loop h (g # gs) acc s =
     (case make_block_hash_with_group_id h g of
        Inl e \<Rightarrow> Inl e
      | Inr key \<Rightarrow>
          (case get_one_block key (cached_block_hash_to_block s) of
             Inl e \<Rightarrow> Inl e
           | Inr None \<Rightarrow> Inr None
           | Inr (Some b) \<Rightarrow> get_cached_loop h gs (acc @ [b]) s))"

definition get_cached_block :: "bytes \<Rightarrow> int list \<Rightarrow> 'm block_pool_scheme \<Rightarrow> error + nat list option" where
  "get_cached_block h gids s = get_cached_loop h gids [] s"

text \<open>
  The loop of \<open>cache_full_blocks\<close> over \<open>enumerate(new_full_blocks)\<close>; the result lists
  the converted hashes for the event.
\<close>

fun cache_loop :: "int \<Rightarrow> bytes list \<Rightarrow> nat \<Rightarrow> nat list \<Rightarrow> 'm block_pool_scheme \<Rightarrow>
    ('m block_pool_scheme, ext_hash list) res" where
  "cache_loop gid hs i [] s = return [] s"
| "cache_loop gid hs i (b # bs) s =
     rbind (get_block b s) (\<lambda>blk s.
       if is_null blk then cache_loop gid hs (Suc i) bs s
       else rbind (assert_that (block_hash blk = None) ''blk.block_hash is None'' s) (\<lambda>_ s.
         if \<not> i < length hs then raise IndexError s
         else case make_block_hash_with_group_id (hs ! i) gid of
                Inl e \<Rightarrow> raise e s
              | Inr key \<Rightarrow>
                  rbind (set_block_hash b key s) (\<lambda>_ s.
                    rbind (cache_loop gid hs (Suc i) bs
                             (s\<lparr>cached_block_hash_to_block := bmap_insert key b (cached_block_hash_to_block s)\<rparr>))
                      (\<lambda>evs. return (maybe_convert_block_hash (use_int_block_hashes s) (hs ! i) # evs)))))"

fun stored_extra_keys :: "(bytes \<Rightarrow> bytes) \<Rightarrow> int \<Rightarrow> int \<Rightarrow> int \<Rightarrow> bool list \<Rightarrow> request \<Rightarrow>
    (request, extra_key list option list) res" where
  "stored_extra_keys sha bs i mm [] r = return [] r"
| "stored_extra_keys sha bs i mm (null # nulls) r =
     (if null then stored_extra_keys sha bs (i + 1) mm nulls r
      else rbind (generate_block_hash_extra_keys sha (i * bs) (i * bs + bs) mm r) (\<lambda>(keys, mm') r.
             rbind (stored_extra_keys sha bs (i + 1) mm' nulls r) (\<lambda>ks. return (keys # ks))))"

definition stored_event ::
  "bool \<Rightarrow> (bytes \<Rightarrow> bytes) \<Rightarrow> ext_hash list \<Rightarrow> bytes list \<Rightarrow> nat \<Rightarrow> nat \<Rightarrow> int \<Rightarrow> bool list \<Rightarrow> request \<Rightarrow>
     (request, kv_event) res" where
  "stored_event use_int sha new_hashes hs num_cached num_full bs nulls r =
     rbind (stored_extra_keys sha bs (int num_cached) 0 nulls r) (\<lambda>keys r.
       return (BlockStored new_hashes
                 (if num_cached = 0 then None else Some (maybe_convert_block_hash use_int (hs ! (num_cached - 1))))
                 (slice (all_token_ids r) (int num_cached * bs) (int num_full * bs)) bs
                 (map_option lora_int_id (lora_request r)) ''GPU'' (map_option lora_name (lora_request r))
                 (if keys = [] then None else Some keys)) r)"

definition cache_full_blocks ::
  "(bytes \<Rightarrow> bytes) \<Rightarrow> request \<Rightarrow> nat list \<Rightarrow> nat \<Rightarrow> nat \<Rightarrow> int \<Rightarrow> int \<Rightarrow> 'm block_pool_scheme \<Rightarrow>
     ('m block_pool_scheme, request) res" where
  "cache_full_blocks sha r blks num_cached num_full bs gid s =
     (if num_cached \<ge> num_full then return r s
      else
        (let new_full = take (num_full - num_cached) (drop num_cached blks)
         in rbind (assert_that (length (block_hashes r) \<ge> num_full) ''len(request.block_hashes) >= num_full_blocks'' s) (\<lambda>_ s.
              rbind (if bs = hash_block_size s then return (block_hashes r) s
                     else case scale_factor (hash_block_size s) bs of
                            Inl e \<Rightarrow> raise e s
                          | Inr k \<Rightarrow> return (coarse_hashes (block_hashes r) k) s) (\<lambda>hs s.
                rbind (cache_loop gid (drop num_cached hs) 0 new_full s) (\<lambda>new_hashes s.
                  if \<not> enable_kv_cache_events s then return r s
                  else if length hs < num_cached \<or> length blks < num_full then raise IndexError s
                  else case stored_event (use_int_block_hashes s) sha new_hashes hs num_cached num_full bs
                              (map (\<lambda>b. is_null (blocks s ! b)) new_full) r of
                         Inl (e, _) \<Rightarrow> raise e s
                       | Inr (ev, r') \<Rightarrow> return r' (s\<lparr>kv_event_queue := kv_event_queue s @ [ev]\<rparr>))))))"

section \<open>Allocation, eviction and release\<close>

text \<open>\<open>_maybe_evict_cached_block\<close>, for a block of the pool.\<close>

definition maybe_evict_cached_block ::
  "('m block_pool_scheme) pool_callbacks \<Rightarrow> nat \<Rightarrow> 'm block_pool_scheme \<Rightarrow> ('m block_pool_scheme, bool) res" where
  "maybe_evict_cached_block cbs b s =
     (case block_hash (blocks s ! b) of
        None \<Rightarrow> return False s
      | Some h \<Rightarrow>
          (let (popped, m) = bmap_pop h b (cached_block_hash_to_block s);
               s1 = s\<lparr>cached_block_hash_to_block := m\<rparr>
           in if popped = None then return False s1
              else rbind (fire (on_prefix_removed_callbacks cbs) b (reset_hash b s1)) (\<lambda>_ s2.
                     return True
                       (if enable_kv_cache_events s2
                        then s2\<lparr>kv_event_queue := kv_event_queue s2 @
                               [BlockRemoved [maybe_convert_block_hash (use_int_block_hashes s2) (get_block_hash h)] ''GPU'']\<rparr>
                        else s2))))"

definition claim_block ::
  "('m block_pool_scheme) pool_callbacks \<Rightarrow> nat \<Rightarrow> 'm block_pool_scheme \<Rightarrow> ('m block_pool_scheme, unit) res" where
  "claim_block cbs b s =
     rbind (if enable_caching s then maybe_evict_cached_block cbs b s else return False s) (\<lambda>_ s.
       rbind (assert_that (ref_cnt (blocks s ! b) = 0) ''block.ref_cnt == 0'' s) (\<lambda>_ s.
         return () (add_ref b 1 s)))"

definition pick_blocks ::
  "('m block_pool_scheme) pool_callbacks \<Rightarrow> nat \<Rightarrow> 'm block_pool_scheme \<Rightarrow> ('m block_pool_scheme, nat list) res" where
  "pick_blocks cbs n s =
     (case kv_victim_selector cbs of Some f \<Rightarrow> f n s | None \<Rightarrow> on_queue (popleft_n n) s)"

definition get_new_blocks ::
  "('m block_pool_scheme) pool_callbacks \<Rightarrow> nat \<Rightarrow> 'm block_pool_scheme \<Rightarrow> ('m block_pool_scheme, nat list) res" where
  "get_new_blocks cbs n s =
     (if int n > get_num_free_blocks s then raise (ValueError ''Cannot get free blocks from the pool'') s
      else rbind (pick_blocks cbs n s) (\<lambda>ret s.
             rbind (for_each (claim_block cbs) ret s) (\<lambda>_ s.
               rbind (fire (on_allocation_callbacks cbs) ret s) (\<lambda>_. return ret))))"

definition touch_block ::
  "('m block_pool_scheme) pool_callbacks \<Rightarrow> nat \<Rightarrow> 'm block_pool_scheme \<Rightarrow> ('m block_pool_scheme, unit) res" where
  "touch_block cbs b s =
     rbind (get_block b s) (\<lambda>blk s.
       rbind (if ref_cnt blk = 0 \<and> \<not> is_null blk
              then rbind (on_queue (fq_remove b) s) (\<lambda>_ s.
                     if block_hash blk \<noteq> None then fire (on_prefix_removed_callbacks cbs) b s else return () s)
              else return () s) (\<lambda>_ s.
         return () (add_ref b 1 s)))"

definition touch ::
  "('m block_pool_scheme) pool_callbacks \<Rightarrow> nat list \<Rightarrow> 'm block_pool_scheme \<Rightarrow> ('m block_pool_scheme, unit) res" where
  "touch cbs bs s = for_each (touch_block cbs) bs s"

definition prefix_added ::
  "('m block_pool_scheme) pool_callbacks \<Rightarrow> nat \<Rightarrow> 'm block_pool_scheme \<Rightarrow> ('m block_pool_scheme, unit) res" where
  "prefix_added cbs b s =
     (if block_hash (blocks s ! b) = None then return () s else fire (on_prefix_added_callbacks cbs) b s)"

definition free_blocks ::
  "('m block_pool_scheme) pool_callbacks \<Rightarrow> nat list \<Rightarrow> 'm block_pool_scheme \<Rightarrow> ('m block_pool_scheme, unit) res" where
  "free_blocks cbs ordered s =
     rbind (for_each (\<lambda>b s. rbind (get_block b s) (\<lambda>_ s. return () (add_ref b (- 1) s))) ordered s) (\<lambda>_ s.
       (let newly_freed = filter (\<lambda>b. ref_cnt (blocks s ! b) = 0 \<and> \<not> is_null (blocks s ! b)) ordered
        in rbind (on_queue (append_n newly_freed) s) (\<lambda>_ s. for_each (prefix_added cbs) newly_freed s)))"

definition evict_prefix_hash ::
  "('m block_pool_scheme) pool_callbacks \<Rightarrow> nat \<Rightarrow> 'm block_pool_scheme \<Rightarrow> ('m block_pool_scheme, bool) res" where
  "evict_prefix_hash cbs b s =
     rbind (get_block b s) (\<lambda>_ s. maybe_evict_cached_block cbs b s)"

definition relocate_prefix_hash :: "nat \<Rightarrow> nat \<Rightarrow> 'm block_pool_scheme \<Rightarrow> ('m block_pool_scheme, bool) res" where
  "relocate_prefix_hash src_id dst_id s =
     rbind (get_block src_id s) (\<lambda>src s. rbind (get_block dst_id s) (\<lambda>dst s.
       case block_hash src of
         None \<Rightarrow> return False s
       | Some h \<Rightarrow>
           rbind (assert_that (block_hash dst = None) ''dst block already has a hash'' s) (\<lambda>_ s.
           rbind (assert_that (ref_cnt src = 0) ''src block is live'' s) (\<lambda>_ s.
             (let (popped, m) = bmap_pop h src_id (cached_block_hash_to_block s);
                  s1 = s\<lparr>cached_block_hash_to_block := m\<rparr>
              in rbind (assert_that (popped = Some src_id) ''cache map entry is missing or does not match'' s1) (\<lambda>_ s.
                   rbind (set_block_hash dst_id h (reset_hash src_id s)) (\<lambda>_ s.
                     return True
                       (s\<lparr>cached_block_hash_to_block :=
                            bmap_insert h dst_id (cached_block_hash_to_block s)\<rparr>))))))))"

definition evict_blocks ::
  "('m block_pool_scheme) pool_callbacks \<Rightarrow> nat list \<Rightarrow> 'm block_pool_scheme \<Rightarrow> ('m block_pool_scheme, unit) res" where
  "evict_blocks cbs bs s =
     for_each (\<lambda>b s. rbind (assert_that (b < length (blocks s)) ''Invalid block_id'' s) (\<lambda>_ s.
        rbind (maybe_evict_cached_block cbs b s) (\<lambda>_. return ()))) bs s"

definition reset_prefix_cache :: "'m block_pool_scheme \<Rightarrow> bool \<times> 'm block_pool_scheme" where
  "reset_prefix_cache s =
     (let num_used = int (num_gpu_blocks s) - get_num_free_blocks s
      in if num_used \<noteq> 1 then (False, s)
         else (let s1 = s\<lparr>cached_block_hash_to_block := bmap_empty,
                         blocks := map (\<lambda>b. b\<lparr>block_hash := None\<rparr>) (blocks s)\<rparr>
               in (True, if enable_kv_cache_events s1
                         then s1\<lparr>kv_event_queue := kv_event_queue s1 @ [AllBlocksCleared]\<rparr> else s1)))"

definition take_events :: "'m block_pool_scheme \<Rightarrow> kv_event list \<times> 'm block_pool_scheme" where
  "take_events s =
     (if \<not> enable_kv_cache_events s then ([], s) else (kv_event_queue s, s\<lparr>kv_event_queue := []\<rparr>))"

end
