(* ===== verification/Pool_Listener.thy ===== *)
theory Pool_Listener
  imports Block_Pool
begin

text \<open>
  What the block pool keeps true, and the contract between the pool and a component that
  listens to its callbacks and may choose its victims.

  \<open>pool_inv fl s\<close> is the pool's invariant, where \<open>fl\<close> holds the blocks in flight: taken off
  the free queue by a victim selector and not yet given a reference. The locale
  \<open>pool_listener\<close> states what the pool expects of its callbacks; its lemmas show that every
  operation of the pool keeps the pool's invariant and the listener's view of the cached
  free blocks in step. It is interpreted here for a pool without callbacks, the plain vLLM
  configuration, and for the unified pool manager in its own theory.
\<close>

section \<open>Views of the pool\<close>

definition ref_at :: "'m block_pool_scheme \<Rightarrow> nat \<Rightarrow> int" where
  "ref_at s i = ref_cnt (blocks s ! i)"

definition hash_at :: "'m block_pool_scheme \<Rightarrow> nat \<Rightarrow> bytes option" where
  "hash_at s i = block_hash (blocks s ! i)"

definition free_set :: "'m block_pool_scheme \<Rightarrow> nat set" where
  "free_set s = set (free_ids (free_block_queue s))"

text \<open>The evictable cached blocks: free and with a hash.\<close>

definition cached_free :: "'m block_pool_scheme \<Rightarrow> nat set" where
  "cached_free s = {p \<in> free_set s. hash_at s p \<noteq> None}"

definition ids_ok :: "'m block_pool_scheme \<Rightarrow> bool" where
  "ids_ok s \<longleftrightarrow> num_gpu_blocks s = length (blocks s) \<and> 0 < length (blocks s) \<and> null_block s = 0 \<and>
     (\<forall>i < length (blocks s). block_id (blocks s ! i) = i \<and> (is_null (blocks s ! i) \<longleftrightarrow> i = 0))"

definition queue_ok :: "nat set \<Rightarrow> 'm block_pool_scheme \<Rightarrow> bool" where
  "queue_ok fl s \<longleftrightarrow> fq_wf (free_block_queue s) \<and>
     free_set s = {i. 0 < i \<and> i < length (blocks s) \<and> ref_at s i = 0 \<and> i \<notin> fl} \<and>
     (\<forall>i. 0 < i \<and> i < length (blocks s) \<longrightarrow> 0 \<le> ref_at s i) \<and>
     (\<forall>i \<in> fl. 0 < i \<and> i < length (blocks s) \<and> ref_at s i = 0)"

definition cache_ok :: "'m block_pool_scheme \<Rightarrow> bool" where
  "cache_ok s \<longleftrightarrow> bmap_wf (cached_block_hash_to_block s) \<and>
     (\<forall>h. set (bmap_ids (cached_block_hash_to_block s) h) = {i. i < length (blocks s) \<and> hash_at s i = Some h}) \<and>
     hash_at s 0 = None \<and> (\<not> enable_caching s \<longrightarrow> (\<forall>i < length (blocks s). hash_at s i = None))"

definition pool_inv :: "nat set \<Rightarrow> 'm block_pool_scheme \<Rightarrow> bool" where
  "pool_inv fl s \<longleftrightarrow> ids_ok s \<and> queue_ok fl s \<and> cache_ok s"

lemmas pool_views = ref_at_def hash_at_def free_set_def

section \<open>How the primitive updates change the views\<close>

lemma upd_block_views [simp]:
  "length (blocks (upd_block i f s)) = length (blocks s)"
  "free_block_queue (upd_block i f s) = free_block_queue s"
  "cached_block_hash_to_block (upd_block i f s) = cached_block_hash_to_block s"
  "num_gpu_blocks (upd_block i f s) = num_gpu_blocks s" "null_block (upd_block i f s) = null_block s"
  "enable_caching (upd_block i f s) = enable_caching s" "hash_block_size (upd_block i f s) = hash_block_size s"
  "enable_kv_cache_events (upd_block i f s) = enable_kv_cache_events s"
  "kv_event_queue (upd_block i f s) = kv_event_queue s"
  "use_int_block_hashes (upd_block i f s) = use_int_block_hashes s"
  "free_set (upd_block i f s) = free_set s"
  "block_pool.more (upd_block i f s) = block_pool.more s"
  by (simp_all add: upd_block_def free_set_def)

lemma upd_block_nth:
  "blocks (upd_block i f s) ! j = (if j = i \<and> i < length (blocks s) then f (blocks s ! i) else blocks s ! j)"
  by (cases "i < length (blocks s)") (auto simp: upd_block_def list_update_beyond)

lemma upd_block_ids_ok:
  "(\<And>b. block_id (f b) = block_id b \<and> is_null (f b) = is_null b) \<Longrightarrow> ids_ok (upd_block i f s) = ids_ok s"
  unfolding ids_ok_def by (simp add: upd_block_nth) blast

lemma add_ref_views [simp]:
  "length (blocks (add_ref i d s)) = length (blocks s)"
  "free_block_queue (add_ref i d s) = free_block_queue s"
  "cached_block_hash_to_block (add_ref i d s) = cached_block_hash_to_block s"
  "enable_caching (add_ref i d s) = enable_caching s" "hash_block_size (add_ref i d s) = hash_block_size s" "enable_kv_cache_events (add_ref i d s) = enable_kv_cache_events s"
  "block_pool.more (add_ref i d s) = block_pool.more s" "free_set (add_ref i d s) = free_set s"
  "hash_at (add_ref i d s) j = hash_at s j"
  "i < length (blocks s) \<Longrightarrow> ref_at (add_ref i d s) j = (if j = i then ref_at s i + d else ref_at s j)"
  "j < length (blocks s) \<Longrightarrow> is_null (blocks (add_ref i d s) ! j) = is_null (blocks s ! j)"
  "ids_ok (add_ref i d s) = ids_ok s"
  by (simp_all add: add_ref_def ref_at_def hash_at_def upd_block_nth upd_block_ids_ok)

lemma reset_hash_views [simp]:
  "length (blocks (reset_hash i s)) = length (blocks s)"
  "free_block_queue (reset_hash i s) = free_block_queue s"
  "cached_block_hash_to_block (reset_hash i s) = cached_block_hash_to_block s"
  "enable_caching (reset_hash i s) = enable_caching s" "hash_block_size (reset_hash i s) = hash_block_size s" "enable_kv_cache_events (reset_hash i s) = enable_kv_cache_events s"
  "block_pool.more (reset_hash i s) = block_pool.more s" "free_set (reset_hash i s) = free_set s"
  "ref_at (reset_hash i s) j = ref_at s j"
  "i < length (blocks s) \<Longrightarrow> hash_at (reset_hash i s) j = (if j = i then None else hash_at s j)"
  "ids_ok (reset_hash i s) = ids_ok s"
  by (simp_all add: reset_hash_def ref_at_def hash_at_def upd_block_nth upd_block_ids_ok)

lemma set_block_hash_run:
  assumes "i < length (blocks s)" "hash_at s i = None"
  shows "set_block_hash i h s = Inr ((), upd_block i (\<lambda>b. b\<lparr>block_hash := Some h\<rparr>) s)"
  using assms by (simp add: set_block_hash_def get_block_def assert_that_def return_def hash_at_def)

lemma set_hash_views [simp]:
  fixes s :: "'m block_pool_scheme"
  defines "t h i \<equiv> upd_block i (\<lambda>b. b\<lparr>block_hash := Some h\<rparr>) s"
  shows "ref_at (t h i) j = ref_at s j"
    "i < length (blocks s) \<Longrightarrow> hash_at (t h i) j = (if j = i then Some h else hash_at s j)"
    "ids_ok (t h i) = ids_ok s"
  by (simp_all add: t_def ref_at_def hash_at_def upd_block_nth upd_block_ids_ok)

lemma other_fields_views [simp]:
  "ref_at (s\<lparr>cached_block_hash_to_block := m\<rparr>) = ref_at s" "hash_at (s\<lparr>cached_block_hash_to_block := m\<rparr>) = hash_at s"
  "free_set (s\<lparr>cached_block_hash_to_block := m\<rparr>) = free_set s" "ids_ok (s\<lparr>cached_block_hash_to_block := m\<rparr>) = ids_ok s"
  "ref_at (s\<lparr>free_block_queue := q\<rparr>) = ref_at s" "hash_at (s\<lparr>free_block_queue := q\<rparr>) = hash_at s"
  "ids_ok (s\<lparr>free_block_queue := q\<rparr>) = ids_ok s" "cache_ok (s\<lparr>free_block_queue := q\<rparr>) = cache_ok s"
  "free_set (s\<lparr>free_block_queue := q\<rparr>) = set (free_ids q)"
  "ref_at (s\<lparr>kv_event_queue := e\<rparr>) = ref_at s" "hash_at (s\<lparr>kv_event_queue := e\<rparr>) = hash_at s"
  "free_set (s\<lparr>kv_event_queue := e\<rparr>) = free_set s" "ids_ok (s\<lparr>kv_event_queue := e\<rparr>) = ids_ok s"
  by (auto simp: fun_eq_iff pool_views ids_ok_def cache_ok_def)

lemma queue_ok_cong:
  assumes "queue_ok fl s" "length (blocks t) = length (blocks s)" "free_block_queue t = free_block_queue s"
    and "ref_at t = ref_at s"
  shows "queue_ok fl t"
  using assms by (simp add: queue_ok_def free_set_def)

lemma cache_ok_cong:
  assumes "cache_ok s" "length (blocks t) = length (blocks s)" "enable_caching t = enable_caching s"
    and "cached_block_hash_to_block t = cached_block_hash_to_block s" "hash_at t = hash_at s"
  shows "cache_ok t"
  using assms by (simp add: cache_ok_def)

text \<open>Dropping the hash of a block from the block and from the index, and adding one.\<close>

lemma cache_ok_drop:
  assumes "cache_ok s" "b < length (blocks s)" "hash_at s b = Some h"
  shows "cache_ok (reset_hash b (s\<lparr>cached_block_hash_to_block := snd (bmap_pop h b (cached_block_hash_to_block s))\<rparr>))"
    and "fst (bmap_pop h b (cached_block_hash_to_block s)) = Some b"
  using assms by (auto simp: cache_ok_def bmap.pop_wf bmap.pop_ids bmap.pop_result)

lemma cache_ok_add:
  assumes "cache_ok s" "b < length (blocks s)" "0 < b" "hash_at s b = None" "enable_caching s"
  shows "cache_ok ((upd_block b (\<lambda>b. b\<lparr>block_hash := Some h\<rparr>) s)
           \<lparr>cached_block_hash_to_block := bmap_insert h b (cached_block_hash_to_block s)\<rparr>)"
  using assms by (auto simp: cache_ok_def bmap.add_wf bmap.add_ids)

lemma pool_inv_events [simp]: "pool_inv fl (s\<lparr>kv_event_queue := e\<rparr>) = pool_inv fl s"
  by (auto simp: pool_inv_def intro: queue_ok_cong cache_ok_cong)

lemma cache_ok_add_ref [simp]: "cache_ok (add_ref b d s) = cache_ok s"
  by (auto simp: cache_ok_def)

lemma queue_ok_take:
  assumes "queue_ok fl s" "fq_wf q" "set (free_ids q) = free_set s - R" "R \<subseteq> free_set s"
  shows "queue_ok (fl \<union> R) (s\<lparr>free_block_queue := q\<rparr>)"
  using assms by (auto simp: queue_ok_def)

lemma queue_ok_claim:
  assumes "queue_ok fl s" "b \<in> fl"
  shows "queue_ok (fl - {b}) (add_ref b 1 s)"
proof -
  have b: "b < length (blocks s)" using assms by (auto simp: queue_ok_def)
  show ?thesis using assms by (auto simp: queue_ok_def b)
qed

lemma queue_ok_touch:
  assumes "queue_ok {} s" "b < length (blocks s)" "b \<notin> free_set s"
  shows "queue_ok {} (add_ref b 1 s)"
proof -
  have "\<not> (0 < b \<and> ref_at s b + 1 = 0)" using assms by (fastforce simp: queue_ok_def)
  with assms show ?thesis by (auto simp: queue_ok_def intro!: add_nonneg_nonneg)
qed

text \<open>What \<open>touch\<close> and \<open>free_blocks\<close> change: reference counts and the queue.\<close>

definition rereffed :: "(nat \<Rightarrow> int) \<Rightarrow> 'm block_pool_scheme \<Rightarrow> 'm block_pool_scheme \<Rightarrow> bool" where
  "rereffed f s s' \<longleftrightarrow> ref_at s' = f \<and> hash_at s' = hash_at s \<and> length (blocks s') = length (blocks s) \<and>
     enable_caching s' = enable_caching s \<and> hash_block_size s' = hash_block_size s"

lemma dec_refs:
  assumes "\<forall>b \<in> set bs. b < length (blocks s)"
  shows "runs_to (for_each (\<lambda>b s. rbind (get_block b s) (\<lambda>_ s. return () (add_ref b (- 1) s))) bs s) (\<lambda>_ s'.
     rereffed (\<lambda>i. ref_at s i - int (count_list bs i)) s s' \<and> free_block_queue s' = free_block_queue s \<and>
     ids_ok s' = ids_ok s \<and> cache_ok s' = cache_ok s \<and> block_pool.more s' = block_pool.more s)"
  using assms
proof (induction bs arbitrary: s)
  case Nil
  then show ?case by (simp add: rereffed_def)
next
  case (Cons b bs)
  have "\<forall>c \<in> set bs. c < length (blocks (add_ref b (- 1) s))" using Cons.prems by simp
  from Cons.IH [OF this] Cons.prems show ?case
    by (auto simp: post_rbind get_block_def rereffed_def fun_eq_iff elim!: runs_to_mono)
qed

text \<open>The blocks whose last reference goes when \<open>bs\<close> is freed, in the order of \<open>bs\<close>.\<close>

definition last_refs :: "nat list \<Rightarrow> 'm block_pool_scheme \<Rightarrow> nat list" where
  "last_refs bs s = filter (\<lambda>b. b \<noteq> 0 \<and> ref_at s b = 1) bs"

text \<open>What a client may free: blocks it holds a reference to, each once (the null block as often as it likes).\<close>

definition may_free :: "nat list \<Rightarrow> 'm block_pool_scheme \<Rightarrow> bool" where
  "may_free bs s \<longleftrightarrow> (\<forall>b \<in> set bs. b < length (blocks s) \<and> (b \<noteq> 0 \<longrightarrow> 0 < ref_at s b)) \<and> distinct (filter (\<lambda>b. b \<noteq> 0) bs)"

lemma may_free_count:
  assumes "may_free bs s" "b \<in> set bs" "b \<noteq> 0"
  shows "count_list bs b = 1"
proof -
  have "count_list (filter (\<lambda>b. b \<noteq> 0) bs) b = 1"
    using assms by (simp add: may_free_def count_list_distinct)
  then show ?thesis using assms(3) by (simp add: count_list_filter)
qed

lemma queue_ok_dec:
  assumes q: "queue_ok {} s" and m: "may_free bs s"
    and s1: "rereffed (\<lambda>i. ref_at s i - int (count_list bs i)) s s1" "free_block_queue s1 = free_block_queue s"
  shows "queue_ok (set (last_refs bs s)) s1"
proof -
  have cnt: "count_list bs b = (if b \<in> set bs then 1 else 0)" if "b \<noteq> 0" for b
    using that may_free_count [OF m] by (auto simp: count_list_0_iff)
  have pos: "0 < ref_at s b" "b < length (blocks s)" if "b \<in> set bs" "b \<noteq> 0" for b
    using that m by (auto simp: may_free_def)
  have "free_set s1 = free_set s" using s1(2) by (simp add: free_set_def)
  moreover have "0 < i \<Longrightarrow> ref_at s1 i = ref_at s i - (if i \<in> set bs then 1 else 0)" for i
    using s1(1) cnt [of i] by (simp add: rereffed_def)
  ultimately show ?thesis
    using q s1 pos unfolding queue_ok_def last_refs_def rereffed_def by fastforce
qed

lemma newly_freed_eq:
  assumes q: "queue_ok {} s" and m: "may_free bs s" and i: "ids_ok s1"
    and s1: "rereffed (\<lambda>i. ref_at s i - int (count_list bs i)) s s1"
  shows "filter (\<lambda>b. ref_cnt (blocks s1 ! b) = 0 \<and> \<not> is_null (blocks s1 ! b)) bs = last_refs bs s"
  unfolding last_refs_def
proof (rule filter_cong [OF refl])
  fix b assume b: "b \<in> set bs"
  then have "is_null (blocks s1 ! b) \<longleftrightarrow> b = 0"
    using i m s1 by (auto simp: ids_ok_def may_free_def rereffed_def)
  moreover have "b \<noteq> 0 \<Longrightarrow> ref_cnt (blocks s1 ! b) = ref_at s b - 1"
    using s1 may_free_count [OF m b] by (simp add: rereffed_def fun_eq_iff ref_at_def)
  ultimately show "(ref_cnt (blocks s1 ! b) = 0 \<and> \<not> is_null (blocks s1 ! b)) = (b \<noteq> 0 \<and> ref_at s b = 1)"
    by auto
qed

text \<open>What an eviction changes: only the hash of its block.\<close>

definition evicted :: "nat \<Rightarrow> 'm block_pool_scheme \<Rightarrow> 'm block_pool_scheme \<Rightarrow> bool" where
  "evicted b s s' \<longleftrightarrow> ref_at s' = ref_at s \<and> hash_at s' = (hash_at s)(b := None) \<and>
     free_block_queue s' = free_block_queue s \<and> length (blocks s') = length (blocks s) \<and>
     enable_caching s' = enable_caching s \<and> hash_block_size s' = hash_block_size s"

text \<open>What an allocation changes: its blocks have one reference and no hash.\<close>

definition claimed :: "nat set \<Rightarrow> 'm block_pool_scheme \<Rightarrow> 'm block_pool_scheme \<Rightarrow> bool" where
  "claimed B s s' \<longleftrightarrow> ref_at s' = (\<lambda>i. if i \<in> B then 1 else ref_at s i) \<and>
     hash_at s' = (\<lambda>i. if i \<in> B then None else hash_at s i) \<and>
     length (blocks s') = length (blocks s) \<and> enable_caching s' = enable_caching s \<and> hash_block_size s' = hash_block_size s"

text \<open>What a relocation changes: the hash moves from \<open>src\<close> to \<open>dst\<close>; the queue stays.\<close>

definition relocated :: "nat \<Rightarrow> nat \<Rightarrow> 'm block_pool_scheme \<Rightarrow> 'm block_pool_scheme \<Rightarrow> bool" where
  "relocated src dst s s' \<longleftrightarrow> ref_at s' = ref_at s \<and>
     hash_at s' = (hash_at s)(src := None, dst := hash_at s src) \<and>
     free_block_queue s' = free_block_queue s \<and> length (blocks s') = length (blocks s) \<and>
     enable_caching s' = enable_caching s \<and> hash_block_size s' = hash_block_size s \<and> block_pool.more s' = block_pool.more s"

lemma relocate_ok:
  assumes inv: "pool_inv fl s" and b: "src < length (blocks s)" "dst < length (blocks s)" "0 < dst"
    and h: "hash_at s src = Some h" "hash_at s dst = None" and r: "ref_at s src = 0"
  shows "runs_to (relocate_prefix_hash src dst s) (\<lambda>moved s'. moved \<and> pool_inv fl s' \<and> relocated src dst s s')"
proof -
  let ?m = "snd (bmap_pop h src (cached_block_hash_to_block s))"
  define s2 where "s2 = reset_hash src (s\<lparr>cached_block_hash_to_block := ?m\<rparr>)"
  define s3 where "s3 = (upd_block dst (\<lambda>b. b\<lparr>block_hash := Some h\<rparr>) s2)
    \<lparr>cached_block_hash_to_block := bmap_insert h dst (cached_block_hash_to_block s2)\<rparr>"
  have i: "ids_ok s" "queue_ok fl s" "cache_ok s" using inv by (auto simp: pool_inv_def)
  have caching: "enable_caching s" using i(3) h(1) b(1) by (auto simp: cache_ok_def)
  have c2: "cache_ok s2" unfolding s2_def using i(3) b(1) h(1) by (rule cache_ok_drop)
  have h2: "hash_at s2 dst = None" "dst < length (blocks s2)" using h b by (simp_all add: s2_def)
  have popped: "fst (bmap_pop h src (cached_block_hash_to_block s)) = Some src"
    using i(3) b(1) h(1) by (rule cache_ok_drop)
  have "relocate_prefix_hash src dst s = Inr (True, s3)"
    using b h r popped set_block_hash_run [OF h2(2) h2(1), of h]
    by (simp add: relocate_prefix_hash_def get_block_def assert_that_def return_def hash_at_def ref_at_def
        case_prod_beta Let_def s3_def flip: s2_def)
  moreover have "cache_ok s3"
    unfolding s3_def using c2 h2 b caching by (intro cache_ok_add) (simp_all add: s2_def)
  moreover have "ids_ok s3" using i(1) by (simp add: s3_def s2_def)
  moreover have "queue_ok fl s3"
    using i(2) by (rule queue_ok_cong) (simp_all add: s3_def s2_def fun_eq_iff)
  moreover have "relocated src dst s s3"
    using b h by (auto simp: relocated_def s3_def s2_def fun_eq_iff)
  ultimately show ?thesis by (simp add: pool_inv_def)
qed

text \<open>A fresh pool.\<close>

lemma block_pool_init_ok:
  assumes "0 < n"
  shows "\<exists>s. block_pool_init n caching hbs events use_int = Inr s \<and> pool_inv {} s \<and> length (blocks s) = n \<and>
     free_ids (free_block_queue s) = [1..<n] \<and> (\<forall>i<n. ref_at s i = 0 \<and> hash_at s i = None) \<and>
     enable_caching s = caching"
proof -
  have "fq_rep (fq_init [0..<n]) (0 # [1..<n])"
    using fq_rep_init [of "[0..<n]"] assms by (simp add: upt_conv_Cons)
  from fq_rep_popleft [OF this] obtain q where q: "popleft (fq_init [0..<n]) = Inr (0, q)" "fq_rep q [1..<n]"
    by (auto elim: runs_toE)
  define bs where "bs = (map new_block [0..<n])[0 := (new_block 0)\<lparr>is_null := True\<rparr>]"
  have len: "length bs = n" by (simp add: bs_def)
  have nth: "bs ! i = (if i = 0 then (new_block 0)\<lparr>is_null := True\<rparr> else new_block i)" if "i < n" for i
    using that by (cases i) (auto simp: bs_def)
  have run: "block_pool_init n caching hbs events use_int =
      Inr \<lparr>num_gpu_blocks = n, enable_caching = caching, hash_block_size = hbs, blocks = bs,
           free_block_queue = q, cached_block_hash_to_block = bmap_empty, null_block = 0,
           enable_kv_cache_events = events, kv_event_queue = [], use_int_block_hashes = use_int\<rparr>"
    using assms by (simp add: block_pool_init_def q(1) bs_def)
  have fields: "block_id (bs ! i) = i \<and> ref_cnt (bs ! i) = 0 \<and> block_hash (bs ! i) = None \<and> (is_null (bs ! i) \<longleftrightarrow> i = 0)"
    if "i < n" for i
    using nth [OF that] by (simp add: new_block_def)
  show ?thesis
    unfolding run using assms fq_rep_ids [OF q(2)] fields len
    by (auto simp: pool_inv_def ids_ok_def queue_ok_def cache_ok_def pool_views)
qed

text \<open>The hashes a group with blocks of \<open>bs\<close> tokens uses.\<close>

definition group_hashes :: "int \<Rightarrow> int \<Rightarrow> request \<Rightarrow> bytes list" where
  "group_hashes hbs bs r =
     (if bs = hbs then block_hashes r
      else case scale_factor hbs bs of Inl _ \<Rightarrow> [] | Inr k \<Rightarrow> coarse_hashes (block_hashes r) k)"

lemma stored_extra_keys_runs:
  "- 1 \<le> mm \<Longrightarrow> runs_to (stored_extra_keys sha bs i mm nulls r) (\<lambda>_ _. True)"
proof (induction nulls arbitrary: i mm r)
  case (Cons null nulls)
  have "runs_to (generate_block_hash_extra_keys sha (i * bs) (i * bs + bs) mm r) (\<lambda>(ks, mm') r'. - 1 \<le> mm')"
    using extra_keys_ok [OF Cons.prems] by (rule runs_to_mono) auto
  then have "runs_to (generate_block_hash_extra_keys sha (i * bs) (i * bs + bs) mm r) (\<lambda>(ks, mm') r'.
      runs_to (stored_extra_keys sha bs (i + 1) mm' nulls r') (\<lambda>_ _. True))"
    by (rule runs_to_mono) (use Cons.IH in auto)
  with Cons show ?case by (auto simp: post_rbind case_prod_beta elim!: runs_to_mono)
qed simp

lemma stored_event_runs: "\<exists>ev r'. stored_event ui sha new hs nc nf bs nulls r = Inr (ev, r')"
  using stored_extra_keys_runs [of 0 sha bs "int nc" nulls r]
  by (auto simp: stored_event_def return_def elim!: runs_toE)

text \<open>\<open>reset_prefix_cache\<close> succeeds exactly when only the null block is in use; then nothing is cached.\<close>

lemma reset_prefix_cache_ok:
  assumes inv: "pool_inv {} s" and run: "reset_prefix_cache s = (ok, s')"
  shows "ok \<longleftrightarrow> (\<forall>i. 0 < i \<and> i < length (blocks s) \<longrightarrow> ref_at s i = 0)"
    and "ok \<Longrightarrow> pool_inv {} s' \<and> (\<forall>i < length (blocks s). hash_at s' i = None) \<and> ref_at s' 0 = ref_at s 0"
    and "\<not> ok \<Longrightarrow> s' = s"
proof -
  let ?n = "length (blocks s)"
  have q: "queue_ok {} s" and i: "ids_ok s" using inv by (auto simp: pool_inv_def)
  have num: "get_num_free_blocks s = int (card (free_set s))"
  proof -
    have w: "fq_wf (free_block_queue s)" using q by (simp add: queue_ok_def)
    show ?thesis
      unfolding get_num_free_blocks_def fq.num_ids [OF w] free_set_def
      by (simp only: distinct_card [OF fq.ids_distinct [OF w]])
  qed
  have fs: "free_set s = {i. 0 < i \<and> i < ?n \<and> ref_at s i = 0}" using q by (simp add: queue_ok_def)
  have sub: "free_set s \<subseteq> {1..<?n}" unfolding fs by auto
  have "ok \<longleftrightarrow> int ?n - get_num_free_blocks s = 1"
    using run i by (auto simp: reset_prefix_cache_def Let_def ids_ok_def split: if_splits)
  also have "\<dots> \<longleftrightarrow> card (free_set s) = card {1..<?n}"
  proof -
    have "0 < ?n" using i by (simp add: ids_ok_def)
    then show ?thesis unfolding num by (simp, linarith)
  qed
  also have "\<dots> \<longleftrightarrow> free_set s = {1..<?n}"
    using card_subset_eq [OF _ sub] by (metis finite_atLeastLessThan)
  also have "\<dots> \<longleftrightarrow> (\<forall>i. 0 < i \<and> i < ?n \<longrightarrow> ref_at s i = 0)"
    unfolding fs set_eq_iff mem_Collect_eq atLeastLessThan_iff One_nat_def Suc_le_eq by blast
  finally show "ok \<longleftrightarrow> (\<forall>i. 0 < i \<and> i < ?n \<longrightarrow> ref_at s i = 0)" .
  show "\<not> ok \<Longrightarrow> s' = s" using run by (auto simp: reset_prefix_cache_def Let_def split: if_splits)
  let ?b = "map (\<lambda>b. b\<lparr>block_hash := None\<rparr>) (blocks s)"
  have "ref_at (s\<lparr>cached_block_hash_to_block := bmap_empty, blocks := ?b\<rparr>) j = ref_at s j \<and>
      hash_at (s\<lparr>cached_block_hash_to_block := bmap_empty, blocks := ?b\<rparr>) j = None" if "j < ?n" for j
    using that by (simp add: pool_views)
  moreover have "0 < ?n" using i by (simp add: ids_ok_def)
  ultimately have "pool_inv {} (s\<lparr>cached_block_hash_to_block := bmap_empty, blocks := ?b\<rparr>)"
    using q i by (auto simp: pool_inv_def queue_ok_def cache_ok_def ids_ok_def free_set_def)
  then show "ok \<Longrightarrow> pool_inv {} s' \<and> (\<forall>i < ?n. hash_at s' i = None) \<and> ref_at s' 0 = ref_at s 0"
    using run \<open>0 < ?n\<close> by (auto simp: reset_prefix_cache_def Let_def pool_views split: if_splits)
qed

section \<open>The contract with a listener\<close>

abbreviation base :: "'m block_pool_scheme \<Rightarrow> block_pool" where
  "base \<equiv> block_pool.truncate"

lemma base_eq_iff:
  "base s = base t \<longleftrightarrow>
     num_gpu_blocks s = num_gpu_blocks t \<and> enable_caching s = enable_caching t \<and>
     hash_block_size s = hash_block_size t \<and> blocks s = blocks t \<and>
     free_block_queue s = free_block_queue t \<and>
     cached_block_hash_to_block s = cached_block_hash_to_block t \<and> null_block s = null_block t \<and>
     enable_kv_cache_events s = enable_kv_cache_events t \<and> kv_event_queue s = kv_event_queue t \<and>
     use_int_block_hashes s = use_int_block_hashes t"
  by (auto simp: block_pool.truncate_def)

lemma base_views:
  assumes "base s = base t"
  shows "ref_at s = ref_at t" "hash_at s = hash_at t" "free_set s = free_set t"
    "pool_inv fl s = pool_inv fl t" "cached_free s = cached_free t" "length (blocks s) = length (blocks t)"
    "enable_caching s = enable_caching t" "get_num_free_blocks s = get_num_free_blocks t"
    "ids_ok s = ids_ok t" "cache_ok s = cache_ok t" "hash_block_size s = hash_block_size t"
proof -
  note eq = assms [unfolded base_eq_iff]
  show "hash_block_size s = hash_block_size t" using eq by simp
  show v: "ref_at s = ref_at t" "hash_at s = hash_at t" "free_set s = free_set t"
    "length (blocks s) = length (blocks t)" "enable_caching s = enable_caching t"
    "get_num_free_blocks s = get_num_free_blocks t"
    using eq by (auto simp: fun_eq_iff pool_views get_num_free_blocks_def)
  show "cached_free s = cached_free t" by (simp add: cached_free_def v)
  show ic: "ids_ok s = ids_ok t" "cache_ok s = cache_ok t"
    using eq v by (simp_all add: ids_ok_def cache_ok_def)
  show "pool_inv fl s = pool_inv fl t"
    using eq v by (simp add: pool_inv_def ic queue_ok_def)
qed

lemma evicted_base:
  assumes "evicted b s t" "base t' = base t"
  shows "evicted b s t'"
  using assms(1) assms(2) [unfolded base_eq_iff] unfolding evicted_def base_views(1,2) [OF assms(2)] by simp

lemma claimed_base:
  assumes "claimed B s t" "base t' = base t"
  shows "claimed B s t'"
  using assms(1) assms(2) [unfolded base_eq_iff] unfolding claimed_def base_views(1,2) [OF assms(2)] by simp

text \<open>
  The pool and its listener in step: the listener tracks the blocks \<open>P\<close> as cached and free,
  and the blocks it holds for itself are free blocks without a hash.
\<close>

definition listens ::
  "(nat set \<Rightarrow> 'm block_pool_scheme \<Rightarrow> bool) \<Rightarrow> ('m block_pool_scheme \<Rightarrow> nat set) \<Rightarrow>
     nat set \<Rightarrow> nat set \<Rightarrow> 'm block_pool_scheme \<Rightarrow> bool" where
  "listens L held P fl s \<longleftrightarrow> pool_inv fl s \<and> L P s \<and> held s \<subseteq> {p \<in> free_set s. hash_at s p = None}"

definition synced where
  "synced L held fl s \<longleftrightarrow> listens L held (cached_free s) fl s"

locale pool_listener =
  fixes cbs :: "('m block_pool_scheme) pool_callbacks"
    and L :: "nat set \<Rightarrow> 'm block_pool_scheme \<Rightarrow> bool"
    and held :: "'m block_pool_scheme \<Rightarrow> nat set"
    and ready :: "'m block_pool_scheme \<Rightarrow> bool"
  assumes own_state: "block_pool.more s = block_pool.more t \<Longrightarrow> L P s = L P t \<and> held s = held t \<and> ready s = ready t"
    and added: "L P s \<Longrightarrow> runs_to (fire (on_prefix_added_callbacks cbs) p s) (\<lambda>_ s'.
       base s' = base s \<and> L (insert p P) s' \<and> held s' = held s \<and> ready s' = ready s)"
    and removed: "L P s \<Longrightarrow> runs_to (fire (on_prefix_removed_callbacks cbs) p s) (\<lambda>_ s'.
       base s' = base s \<and> L (P - {p}) s' \<and> held s' = held s \<and> ready s' = ready s)"
    and allocated: "L P s \<Longrightarrow> set bs \<inter> held s = {} \<Longrightarrow> runs_to (fire (on_allocation_callbacks cbs) bs s) (\<lambda>_ s'.
       base s' = base s \<and> L P s' \<and> held s' = held s \<and> ready s' = ready s)"
    and pick: "synced L held {} s \<Longrightarrow> ready s \<Longrightarrow> int n \<le> get_num_free_blocks s \<Longrightarrow>
       runs_to (pick_blocks cbs n s) (\<lambda>ret s'. synced L held (set ret) s' \<and> ready s' \<and>
         distinct ret \<and> length ret = n \<and> set ret \<subseteq> free_set s \<and>
         base (s'\<lparr>free_block_queue := free_block_queue s\<rparr>) = base s)"
begin

lemma listens_base:
  assumes "listens L held P fl s" "base s' = base s" "L P' s'" "held s' = held s"
  shows "listens L held P' fl s'"
  using assms by (simp add: listens_def base_views [OF assms(2)])

lemma evict_step:
  assumes J: "listens L held P fl s" and b: "b < length (blocks s)"
  shows "runs_to (maybe_evict_cached_block cbs b s) (\<lambda>r s'.
     listens L held (if hash_at s b = None then P else P - {b}) fl s' \<and> r = (hash_at s b \<noteq> None) \<and>
     evicted b s s' \<and> held s' = held s \<and> ready s' = ready s)"
proof (cases "hash_at s b")
  case None
  then show ?thesis
    using J by (simp add: maybe_evict_cached_block_def evicted_def hash_at_def [symmetric] fun_upd_idem)
next
  case (Some h)
  define s2 where "s2 = reset_hash b (s\<lparr>cached_block_hash_to_block := snd (bmap_pop h b (cached_block_hash_to_block s))\<rparr>)"
  have inv: "ids_ok s" "queue_ok fl s" "cache_ok s" and own: "L P s2" "held s2 = held s" "ready s2 = ready s"
    using J own_state [of s s2 P] by (auto simp: listens_def pool_inv_def s2_def)
  have "pool_inv fl s2"
    unfolding pool_inv_def
  proof (intro conjI)
    show "ids_ok s2" using inv(1) by (simp add: s2_def)
    show "queue_ok fl s2" using inv(2) by (rule queue_ok_cong) (simp_all add: s2_def fun_eq_iff)
    show "cache_ok s2" unfolding s2_def using inv(3) b Some by (rule cache_ok_drop)
  qed
  moreover have ev: "evicted b s s2"
    using b by (auto simp: evicted_def s2_def)
  ultimately have J2: "listens L held P fl s2"
    using J own by (auto simp: listens_def evicted_def free_set_def)
  have "runs_to (fire (on_prefix_removed_callbacks cbs) b s2) (\<lambda>_ s3.
      base s3 = base s2 \<and> listens L held (P - {b}) fl s3 \<and> held s3 = held s \<and> ready s3 = ready s)"
    using removed [OF own(1), of b] by (rule runs_to_mono) (use J2 own listens_base in auto)
  then have "runs_to (fire (on_prefix_removed_callbacks cbs) b s2) (\<lambda>_ s3.
      evicted b s s3 \<and> listens L held (P - {b}) fl s3 \<and> held s3 = held s \<and> ready s3 = ready s)"
    by (rule runs_to_mono) (use ev evicted_base in blast)
  moreover have "listens L held (P - {b}) fl (s3\<lparr>kv_event_queue := e\<rparr>) \<and> evicted b s (s3\<lparr>kv_event_queue := e\<rparr>)
      \<and> held (s3\<lparr>kv_event_queue := e\<rparr>) = held s \<and> ready (s3\<lparr>kv_event_queue := e\<rparr>) = ready s"
    if "evicted b s s3 \<and> listens L held (P - {b}) fl s3 \<and> held s3 = held s \<and> ready s3 = ready s" for s3 e
    using that own_state [of "s3\<lparr>kv_event_queue := e\<rparr>" s3 "P - {b}"] by (auto simp: listens_def evicted_def)
  moreover have "maybe_evict_cached_block cbs b s =
      rbind (fire (on_prefix_removed_callbacks cbs) b s2) (\<lambda>_ s3. return True
        (if enable_kv_cache_events s3 then s3\<lparr>kv_event_queue := kv_event_queue s3 @
           [BlockRemoved [maybe_convert_block_hash (use_int_block_hashes s3) (get_block_hash h)] ''GPU'']\<rparr> else s3))"
    using Some cache_ok_drop(2) [OF inv(3) b Some]
    by (simp add: maybe_evict_cached_block_def hash_at_def [symmetric] case_prod_beta s2_def)
  ultimately show ?thesis
    using Some by (auto simp: post_rbind elim!: runs_to_mono)
qed

lemma claim_step:
  assumes J: "listens L held P fl s" and b: "b \<in> fl" "b \<notin> P"
  shows "runs_to (claim_block cbs b s) (\<lambda>_ s'.
     listens L held P (fl - {b}) s' \<and> claimed {b} s s' \<and>
     free_block_queue s' = free_block_queue s \<and> held s' = held s \<and> ready s' = ready s)"
proof -
  have q: "b < length (blocks s)" "ref_at s b = 0"
    and cache: "cache_ok s"
    using J b by (auto simp: listens_def pool_inv_def queue_ok_def)
  have evict: "runs_to (if enable_caching s then maybe_evict_cached_block cbs b s else return False s)
      (\<lambda>_ s'. listens L held P fl s' \<and> evicted b s s' \<and> held s' = held s \<and> ready s' = ready s)"
  proof (cases "enable_caching s")
    case True
    from b have "(if hash_at s b = None then P else P - {b}) = P" by auto
    with True evict_step [OF J q(1)] show ?thesis by (auto elim: runs_to_mono)
  next
    case False
    with cache q have "hash_at s b = None" by (auto simp: cache_ok_def)
    with False J show ?thesis by (simp add: evicted_def fun_upd_idem)
  qed
  show ?thesis
    unfolding claim_block_def post_rbind
  proof (rule runs_to_mono [OF evict])
    fix r s1 assume s1: "listens L held P fl s1 \<and> evicted b s s1 \<and> held s1 = held s \<and> ready s1 = ready s"
    have "queue_ok (fl - {b}) (add_ref b 1 s1)"
      using s1 b by (intro queue_ok_claim) (auto simp: listens_def pool_inv_def)
    moreover have "ref_cnt (blocks s1 ! b) = 0" "b < length (blocks s1)"
      using s1 q by (auto simp: evicted_def ref_at_def fun_eq_iff)
    moreover have "claimed {b} s (add_ref b 1 s1)"
      using s1 q calculation(3) by (auto simp: evicted_def claimed_def fun_eq_iff)
    ultimately show "runs_to (assert_that (ref_cnt (blocks s1 ! b) = 0) ''block.ref_cnt == 0'' s1)
       (\<lambda>_ s'. runs_to (return () (add_ref b 1 s')) (\<lambda>_ s'.
          listens L held P (fl - {b}) s' \<and> claimed {b} s s' \<and>
          free_block_queue s' = free_block_queue s \<and> held s' = held s \<and> ready s' = ready s))"
      using s1 own_state [of "add_ref b 1 s1" s1 P]
      by (auto simp: post_assert listens_def pool_inv_def evicted_def)
  qed
qed

text \<open>Claiming every block of a list that is in flight.\<close>

lemma claim_all:
  assumes "listens L held P (set ret) s" "distinct ret" "set ret \<inter> P = {}"
  shows "runs_to (for_each (claim_block cbs) ret s) (\<lambda>_ s'.
     listens L held P {} s' \<and> claimed (set ret) s s' \<and>
     free_block_queue s' = free_block_queue s \<and> held s' = held s \<and> ready s' = ready s)"
  using assms
proof (induction ret arbitrary: s)
  case (Cons b ret)
  have "set (b # ret) - {b} = set ret" using Cons.prems(2) by auto
  with claim_step [OF Cons.prems(1), of b] Cons.prems(3)
  have "runs_to (claim_block cbs b s) (\<lambda>_ s1.
     listens L held P (set ret) s1 \<and> claimed {b} s s1 \<and>
     free_block_queue s1 = free_block_queue s \<and> held s1 = held s \<and> ready s1 = ready s)"
    by auto
  then show ?case
    unfolding for_each.simps post_rbind
  proof (rule runs_to_mono)
    fix r s1 assume "listens L held P (set ret) s1 \<and> claimed {b} s s1 \<and>
     free_block_queue s1 = free_block_queue s \<and> held s1 = held s \<and> ready s1 = ready s"
    with Cons.IH [of s1] Cons.prems(2,3) show "runs_to (for_each (claim_block cbs) ret s1) (\<lambda>_ s'.
     listens L held P {} s' \<and> claimed (set (b # ret)) s s' \<and>
     free_block_queue s' = free_block_queue s \<and> held s' = held s \<and> ready s' = ready s)"
      by (auto simp: claimed_def fun_eq_iff elim!: runs_to_mono)
  qed
qed (simp add: claimed_def)

lemma get_new_blocks_ok:
  assumes J: "synced L held {} s" "ready s" and n: "int n \<le> get_num_free_blocks s"
  shows "runs_to (get_new_blocks cbs n s) (\<lambda>ret s'.
     synced L held {} s' \<and> ready s' \<and> distinct ret \<and> length ret = n \<and> set ret \<subseteq> free_set s \<and>
     claimed (set ret) s s')"
  using n unfolding get_new_blocks_def if_not_P [OF not_less [THEN iffD2, OF n]] post_rbind
proof (rule_tac runs_to_mono [OF pick [OF J n]])
  fix ret s1
  assume s1: "synced L held (set ret) s1 \<and> ready s1 \<and> distinct ret \<and> length ret = n \<and> set ret \<subseteq> free_set s \<and>
      base (s1\<lparr>free_block_queue := free_block_queue s\<rparr>) = base s"
  then have views: "ref_at s1 = ref_at s" "hash_at s1 = hash_at s" "length (blocks s1) = length (blocks s)"
      "enable_caching s1 = enable_caching s" "hash_block_size s1 = hash_block_size s"
    using base_views [of "s1\<lparr>free_block_queue := free_block_queue s\<rparr>" s] by simp_all
  have disj: "set ret \<inter> cached_free s1 = {}"
    using s1 by (auto simp: synced_def listens_def pool_inv_def queue_ok_def cached_free_def)
  let ?claimed = "\<lambda>s2. listens L held (cached_free s1) {} s2 \<and> claimed (set ret) s s2 \<and>
     free_block_queue s2 = free_block_queue s1 \<and> ready s2"
  have "runs_to (for_each (claim_block cbs) ret s1) (\<lambda>_ s2. ?claimed s2)"
    using claim_all [of "cached_free s1" ret s1] s1 disj by (auto simp: synced_def views claimed_def elim!: runs_to_mono)
  then have "runs_to (for_each (claim_block cbs) ret s1) (\<lambda>_ s2.
      runs_to (fire (on_allocation_callbacks cbs) ret s2) (\<lambda>_ s3. ?claimed s3))"
  proof (rule runs_to_mono)
    fix u s2 assume s2: "?claimed s2"
    then have "set ret \<inter> held s2 = {}"
      by (auto simp: listens_def pool_inv_def queue_ok_def fun_eq_iff claimed_def)
    with s2 allocated [of "cached_free s1" s2 ret]
    have "runs_to (fire (on_allocation_callbacks cbs) ret s2) (\<lambda>_ s3.
       base s3 = base s2 \<and> L (cached_free s1) s3 \<and> held s3 = held s2 \<and> ready s3 = ready s2)"
      by (simp add: listens_def)
    then show "runs_to (fire (on_allocation_callbacks cbs) ret s2) (\<lambda>_ s3. ?claimed s3)"
      by (rule runs_to_mono) (use s2 in \<open>auto simp: base_eq_iff intro: listens_base claimed_base\<close>)
  qed
  moreover have "cached_free s3 = cached_free s1" if "?claimed s3" for s3
    using that views disj s1 by (auto simp: cached_free_def free_set_def claimed_def)
  ultimately show "runs_to (for_each (claim_block cbs) ret s1) (\<lambda>_ s2.
      runs_to (fire (on_allocation_callbacks cbs) ret s2) (\<lambda>_ s3. runs_to (return ret s3) (\<lambda>ret s'.
     synced L held {} s' \<and> ready s' \<and> distinct ret \<and> length ret = n \<and> set ret \<subseteq> free_set s \<and>
     claimed (set ret) s s')))"
    using s1 by (auto simp: synced_def elim!: runs_to_mono)
qed

lemma synced_own:
  assumes "synced L held fl s" "pool_inv fl' s'" "block_pool.more s' = block_pool.more s"
    and "cached_free s' = cached_free s" "held s \<subseteq> {p \<in> free_set s'. hash_at s' p = None}"
  shows "synced L held fl' s' \<and> held s' = held s \<and> ready s' = ready s"
  using assms own_state [OF assms(3)] by (simp add: synced_def listens_def)

text \<open>\<open>touch\<close> is called on blocks that are in use or found in the prefix cache.\<close>

lemma touch_block_ok:
  assumes J: "synced L held {} s" and b: "b < length (blocks s)" "b = 0 \<or> 0 < ref_at s b \<or> hash_at s b \<noteq> None"
  shows "runs_to (touch_block cbs b s) (\<lambda>_ s'. synced L held {} s' \<and>
     rereffed ((ref_at s)(b := ref_at s b + 1)) s s' \<and> held s' = held s \<and> ready s' = ready s)"
proof -
  have inv: "ids_ok s" "queue_ok {} s" "cache_ok s" and L: "L (cached_free s) s"
    and held: "held s \<subseteq> {p \<in> free_set s. hash_at s p = None}"
    using J by (auto simp: synced_def listens_def pool_inv_def)
  have null: "is_null (blocks s ! b) \<longleftrightarrow> b = 0" using inv(1) b(1) by (simp add: ids_ok_def)
  have final: "synced L held {} (add_ref b 1 t) \<and> rereffed ((ref_at s)(b := ref_at s b + 1)) s (add_ref b 1 t) \<and>
      held (add_ref b 1 t) = held s \<and> ready (add_ref b 1 t) = ready s"
    if t: "L (cached_free t) t" "ids_ok t" "cache_ok t" "queue_ok {} (add_ref b 1 t)" "held t = held s" "ready t = ready s"
      "ref_at t = ref_at s" "hash_at t = hash_at s" "length (blocks t) = length (blocks s)"
      "enable_caching t = enable_caching s" "held s \<subseteq> free_set t" "hash_block_size t = hash_block_size s" for t
  proof -
    have "cached_free (add_ref b 1 t) = cached_free t" by (simp add: cached_free_def)
    then show ?thesis
      using t b held own_state [of "add_ref b 1 t" t "cached_free t"]
      by (auto simp: synced_def listens_def pool_inv_def rereffed_def fun_eq_iff)
  qed
  show ?thesis
  proof (cases "ref_at s b = 0 \<and> b \<noteq> 0")
    case False
    then have "b \<notin> free_set s" using inv(2) by (auto simp: queue_ok_def)
    with inv(2) b(1) have "queue_ok {} (add_ref b 1 s)" by (intro queue_ok_touch)
    with False null b inv L held final [of s] show ?thesis
      by (auto simp: touch_block_def get_block_def post_rbind ref_at_def)
  next
    case True
    then have free: "b \<in> free_set s" and h: "hash_at s b \<noteq> None" using inv(2) b by (auto simp: queue_ok_def)
    let ?s1 = "\<lambda>q. s\<lparr>free_block_queue := q\<rparr>"
    have rm: "runs_to (fq_remove b (free_block_queue s)) (\<lambda>_ q. fq_wf q \<and> set (free_ids q) = free_set s - {b})"
      using fq.remove_member_set [of "free_block_queue s" b] inv(2) free
      by (auto simp: queue_ok_def free_set_def elim!: runs_to_mono)
    have fired: "runs_to (fire (on_prefix_removed_callbacks cbs) b (?s1 q)) (\<lambda>_ t.
        synced L held {} (add_ref b 1 t) \<and> rereffed ((ref_at s)(b := ref_at s b + 1)) s (add_ref b 1 t) \<and>
        held (add_ref b 1 t) = held s \<and> ready (add_ref b 1 t) = ready s)"
      if q: "fq_wf q" "set (free_ids q) = free_set s - {b}" for q
    proof -
      have own: "L (cached_free s) (?s1 q)" "held (?s1 q) = held s" "ready (?s1 q) = ready s"
        using own_state [of "?s1 q" s "cached_free s"] L by auto
      show ?thesis
      proof (rule runs_to_mono [OF removed [OF own(1), of b]])
        fix u t assume t: "base t = base (?s1 q) \<and> L (cached_free s - {b}) t \<and> held t = held (?s1 q) \<and> ready t = ready (?s1 q)"
        then have eq: "base t = base (?s1 q)" by blast
        have v: "ref_at t = ref_at s" "hash_at t = hash_at s" "free_set t = free_set s - {b}"
          "length (blocks t) = length (blocks s)" "enable_caching t = enable_caching s" "free_block_queue t = q"
          "hash_block_size t = hash_block_size s"
          using base_views [OF eq] q eq by (simp_all add: base_eq_iff)
        have "cached_free t = cached_free s - {b}" by (auto simp: cached_free_def v)
        moreover have "ids_ok t" "cache_ok t"
          using inv(1,3) base_views(9,10) [OF eq] by simp_all
        moreover have "queue_ok {} (add_ref b 1 t)"
          using inv(2) v True b(1) q(1) unfolding queue_ok_def by auto
        moreover have "held s \<subseteq> free_set t" using held h v by auto
        ultimately show "synced L held {} (add_ref b 1 t) \<and> rereffed ((ref_at s)(b := ref_at s b + 1)) s (add_ref b 1 t) \<and>
            held (add_ref b 1 t) = held s \<and> ready (add_ref b 1 t) = ready s"
          using t v own by (intro final) auto
      qed
    qed
    have run: "touch_block cbs b s = rbind (rbind (on_queue (fq_remove b) s)
        (\<lambda>_. fire (on_prefix_removed_callbacks cbs) b)) (\<lambda>_ s. return () (add_ref b 1 s))"
      using True null b h by (auto simp: touch_block_def get_block_def return_def ref_at_def hash_at_def)
    show ?thesis
      unfolding run on_queue_def post_rbind post_on_part post_return
      by (rule runs_to_mono [OF rm], rule fired) blast+
  qed
qed

lemma touch_ok:
  assumes "synced L held {} s"
    and "\<forall>b \<in> set bs. b < length (blocks s) \<and> (b = 0 \<or> 0 < ref_at s b \<or> hash_at s b \<noteq> None)"
  shows "runs_to (touch cbs bs s) (\<lambda>_ s'. synced L held {} s' \<and>
     rereffed (\<lambda>i. ref_at s i + int (count_list bs i)) s s' \<and> held s' = held s \<and> ready s' = ready s)"
  using assms unfolding touch_def
proof (induction bs arbitrary: s)
  case Nil
  then show ?case by (simp add: rereffed_def)
next
  case (Cons b bs)
  have "runs_to (touch_block cbs b s) (\<lambda>_ s1. synced L held {} s1 \<and>
     rereffed ((ref_at s)(b := ref_at s b + 1)) s s1 \<and> held s1 = held s \<and> ready s1 = ready s)"
    using Cons.prems by (intro touch_block_ok) auto
  then show ?case
    unfolding for_each.simps post_rbind
  proof (rule runs_to_mono)
    fix u s1 assume s1: "synced L held {} s1 \<and> rereffed ((ref_at s)(b := ref_at s b + 1)) s s1 \<and>
      held s1 = held s \<and> ready s1 = ready s"
    have "\<forall>c \<in> set bs. c < length (blocks s1) \<and> (c = 0 \<or> 0 < ref_at s1 c \<or> hash_at s1 c \<noteq> None)"
      using s1 Cons.prems(2) by (auto simp: rereffed_def)
    with s1 Cons.IH [of s1] show "runs_to (for_each (touch_block cbs) bs s1) (\<lambda>_ s'. synced L held {} s' \<and>
      rereffed (\<lambda>i. ref_at s i + int (count_list (b # bs) i)) s s' \<and> held s' = held s \<and> ready s' = ready s)"
      by (auto simp: rereffed_def fun_eq_iff elim!: runs_to_mono)
  qed
qed

lemma prefix_added_all:
  assumes "listens L held P fl s"
  shows "runs_to (for_each (prefix_added cbs) bs s) (\<lambda>_ s'. base s' = base s \<and>
     listens L held (P \<union> {b \<in> set bs. hash_at s b \<noteq> None}) fl s' \<and> held s' = held s \<and> ready s' = ready s)"
  using assms
proof (induction bs arbitrary: s P)
  case (Cons b bs)
  let ?P = "if hash_at s b = None then P else insert b P"
  have "L P s" using Cons.prems by (simp add: listens_def)
  then have "runs_to (prefix_added cbs b s) (\<lambda>_ s1. base s1 = base s \<and> L ?P s1 \<and> held s1 = held s \<and> ready s1 = ready s)"
    using added [of P s b] by (auto simp: prefix_added_def hash_at_def)
  then show ?case
    unfolding for_each.simps post_rbind
  proof (rule runs_to_mono)
    fix u s1 assume s1: "base s1 = base s \<and> L ?P s1 \<and> held s1 = held s \<and> ready s1 = ready s"
    then have "listens L held ?P fl s1" using Cons.prems listens_base by blast
    note IH = Cons.IH [OF this]
    have "hash_at s1 = hash_at s" using s1 base_views(2) by blast
    moreover have "P \<union> {c \<in> set (b # bs). hash_at s c \<noteq> None} = ?P \<union> {c \<in> set bs. hash_at s c \<noteq> None}" by auto
    ultimately show "runs_to (for_each (prefix_added cbs) bs s1) (\<lambda>_ s'. base s' = base s \<and>
       listens L held (P \<union> {c \<in> set (b # bs). hash_at s c \<noteq> None}) fl s' \<and> held s' = held s \<and> ready s' = ready s)"
      using s1 IH by (auto elim!: runs_to_mono)
  qed
qed simp

lemma free_blocks_ok:
  assumes J: "synced L held {} s" and m: "may_free bs s"
  shows "runs_to (free_blocks cbs bs s) (\<lambda>_ s'. synced L held {} s' \<and>
     rereffed (\<lambda>i. ref_at s i - int (count_list bs i)) s s' \<and>
     free_ids (free_block_queue s') = free_ids (free_block_queue s) @ last_refs bs s \<and>
     held s' = held s \<and> ready s' = ready s)"
proof -
  let ?new = "last_refs bs s"
  have inv: "ids_ok s" "queue_ok {} s" "cache_ok s" and L: "L (cached_free s) s"
    and held: "held s \<subseteq> {p \<in> free_set s. hash_at s p = None}"
    using J by (auto simp: synced_def listens_def pool_inv_def)
  have new: "distinct ?new" "set ?new \<inter> free_set s = {}"
    using m inv(2) by (auto simp: may_free_def last_refs_def queue_ok_def filter_filter [symmetric]
        simp del: filter_filter)
  let ?s1 = "\<lambda>s1. rereffed (\<lambda>i. ref_at s i - int (count_list bs i)) s s1 \<and> free_block_queue s1 = free_block_queue s \<and>
     ids_ok s1 = ids_ok s \<and> cache_ok s1 = cache_ok s \<and> block_pool.more s1 = block_pool.more s"
  have step: "runs_to (rbind (on_queue (append_n ?new) s1) (\<lambda>_ s2. for_each (prefix_added cbs) ?new s2)) (\<lambda>_ s'.
     synced L held {} s' \<and> rereffed (\<lambda>i. ref_at s i - int (count_list bs i)) s s' \<and>
     free_ids (free_block_queue s') = free_ids (free_block_queue s) @ ?new \<and> held s' = held s \<and> ready s' = ready s)"
    if s1: "?s1 s1" for s1
  proof -
    have q1: "queue_ok (set ?new) s1" using inv(2) m s1 by (intro queue_ok_dec) auto
    have app: "runs_to (append_n ?new (free_block_queue s1)) (\<lambda>_ q. fq_wf q \<and> free_ids q = free_ids (free_block_queue s) @ ?new)"
      using fq.append_ids [of "free_block_queue s1" ?new] q1 new s1 by (auto simp: queue_ok_def free_set_def)
    have "runs_to (for_each (prefix_added cbs) ?new (s1\<lparr>free_block_queue := q\<rparr>)) (\<lambda>_ s'.
       synced L held {} s' \<and> rereffed (\<lambda>i. ref_at s i - int (count_list bs i)) s s' \<and>
       free_ids (free_block_queue s') = free_ids (free_block_queue s) @ ?new \<and> held s' = held s \<and> ready s' = ready s)"
      if q: "fq_wf q \<and> free_ids q = free_ids (free_block_queue s) @ ?new" for q
    proof -
      let ?s2 = "s1\<lparr>free_block_queue := q\<rparr>"
      have fs: "free_set ?s2 = free_set s \<union> set ?new" using q by (auto simp: free_set_def)
      have "queue_ok {} ?s2"
        using q1 q s1 fs by (auto simp: queue_ok_def free_set_def)
      then have inv2: "pool_inv {} ?s2" using inv s1 by (simp add: pool_inv_def)
      have own: "L (cached_free s) ?s2" "held ?s2 = held s" "ready ?s2 = ready s"
        using own_state [of ?s2 s "cached_free s"] L s1 by auto
      have h2: "hash_at ?s2 = hash_at s" using s1 by (simp add: rereffed_def)
      have J2: "listens L held (cached_free s) {} ?s2"
        using inv2 own held h2 fs by (auto simp: listens_def)
      show ?thesis
      proof (rule runs_to_mono [OF prefix_added_all [OF J2]])
        fix u s' assume s': "base s' = base ?s2 \<and>
          listens L held (cached_free s \<union> {b \<in> set ?new. hash_at ?s2 b \<noteq> None}) {} s' \<and>
          held s' = held ?s2 \<and> ready s' = ready ?s2"
        then have eq: "base s' = base ?s2" by blast
        note v = base_views [OF eq]
        have "cached_free s' = cached_free s \<union> {b \<in> set ?new. hash_at ?s2 b \<noteq> None}"
          using fs h2 by (auto simp: v(5)) (auto simp: cached_free_def)
        moreover have "free_block_queue s' = q" using eq by (simp add: base_eq_iff)
        moreover have "rereffed (\<lambda>i. ref_at s i - int (count_list bs i)) s s'"
          using s1 v by (simp add: rereffed_def)
        ultimately show "synced L held {} s' \<and> rereffed (\<lambda>i. ref_at s i - int (count_list bs i)) s s' \<and>
           free_ids (free_block_queue s') = free_ids (free_block_queue s) @ ?new \<and> held s' = held s \<and> ready s' = ready s"
          using s' own q by (simp add: synced_def)
      qed
    qed
    then show ?thesis
      unfolding on_queue_def post_rbind post_on_part by (rule_tac runs_to_mono [OF app])
  qed
  have "\<forall>b \<in> set bs. b < length (blocks s)" using m by (auto simp: may_free_def)
  from dec_refs [OF this] show ?thesis
    unfolding free_blocks_def post_rbind Let_def
  proof (rule runs_to_mono)
    fix u s1 assume s1: "?s1 s1"
    have "filter (\<lambda>b. ref_cnt (blocks s1 ! b) = 0 \<and> \<not> is_null (blocks s1 ! b)) bs = ?new"
      using inv s1 m by (intro newly_freed_eq) auto
    with step [OF s1] show "runs_to (on_queue (append_n (filter (\<lambda>b. ref_cnt (blocks s1 ! b) = 0 \<and> \<not> is_null (blocks s1 ! b)) bs)) s1)
      (\<lambda>_ s2. runs_to (for_each (prefix_added cbs) (filter (\<lambda>b. ref_cnt (blocks s1 ! b) = 0 \<and> \<not> is_null (blocks s1 ! b)) bs) s2) (\<lambda>_ s'.
        synced L held {} s' \<and> rereffed (\<lambda>i. ref_at s i - int (count_list bs i)) s s' \<and>
        free_ids (free_block_queue s') = free_ids (free_block_queue s) @ ?new \<and> held s' = held s \<and> ready s' = ready s))"
      by (simp add: post_rbind)
  qed
qed

lemma evict_synced:
  assumes J: "synced L held fl s" and b: "b < length (blocks s)"
  shows "runs_to (maybe_evict_cached_block cbs b s) (\<lambda>r s'.
     synced L held fl s' \<and> r = (hash_at s b \<noteq> None) \<and> evicted b s s' \<and> held s' = held s \<and> ready s' = ready s)"
proof -
  have "cached_free s' = (if hash_at s b = None then cached_free s else cached_free s - {b})" if "evicted b s s'" for s'
    using that by (auto simp: evicted_def cached_free_def free_set_def)
  with J evict_step [of "cached_free s" fl s b] b show ?thesis
    by (auto simp: synced_def elim!: runs_to_mono)
qed

lemma evict_blocks_ok:
  assumes "synced L held {} s" "\<forall>b \<in> set bs. b < length (blocks s)"
  shows "runs_to (evict_blocks cbs bs s) (\<lambda>_ s'. synced L held {} s' \<and> ref_at s' = ref_at s \<and>
     hash_at s' = (\<lambda>i. if i \<in> set bs then None else hash_at s i) \<and> free_block_queue s' = free_block_queue s \<and>
     length (blocks s') = length (blocks s) \<and> enable_caching s' = enable_caching s \<and> hash_block_size s' = hash_block_size s \<and> held s' = held s \<and> ready s' = ready s)"
  using assms unfolding evict_blocks_def
proof (induction bs arbitrary: s)
  case (Cons b bs)
  have b: "b < length (blocks s)" using Cons.prems by simp
  have "runs_to (for_each (\<lambda>b s. rbind (assert_that (b < length (blocks s)) ''Invalid block_id'' s) (\<lambda>_ s.
        rbind (maybe_evict_cached_block cbs b s) (\<lambda>_. return ()))) bs s1) (\<lambda>_ s'. synced L held {} s' \<and> ref_at s' = ref_at s \<and>
     hash_at s' = (\<lambda>i. if i \<in> set (b # bs) then None else hash_at s i) \<and> free_block_queue s' = free_block_queue s \<and>
     length (blocks s') = length (blocks s) \<and> enable_caching s' = enable_caching s \<and> hash_block_size s' = hash_block_size s \<and> held s' = held s \<and> ready s' = ready s)"
    if "synced L held {} s1 \<and> evicted b s s1 \<and> held s1 = held s \<and> ready s1 = ready s" for s1
    using that Cons.IH [of s1] Cons.prems(2) by (auto simp: evicted_def elim!: runs_to_mono)
  with evict_synced [OF Cons.prems(1) b] b show ?case
    by (auto simp: post_rbind post_assert elim!: runs_to_mono)
qed simp

text \<open>
  Caching: a client caches blocks of its own that are full and not cached yet. Block \<open>j\<close> of
  the list gets the packed hash of position \<open>i + j\<close>; nothing else changes.
\<close>

lemma cache_loop_ok:
  assumes "listens L held P {} s" "enable_caching s" "0 \<le> gid" "gid < 2 ^ 32"
    and "\<forall>b \<in> set bs. b < length (blocks s) \<and> (b \<noteq> 0 \<longrightarrow> 0 < ref_at s b \<and> hash_at s b = None)"
    and "distinct (filter (\<lambda>b. b \<noteq> 0) bs)" "i + length bs \<le> length hs"
  shows "runs_to (cache_loop gid hs i bs s) (\<lambda>_ s'. listens L held P {} s' \<and> ref_at s' = ref_at s \<and>
     free_block_queue s' = free_block_queue s \<and> enable_caching s' = enable_caching s \<and> hash_block_size s' = hash_block_size s \<and>
     length (blocks s') = length (blocks s) \<and> block_pool.more s' = block_pool.more s \<and>
     (\<forall>j < length bs. bs ! j \<noteq> 0 \<longrightarrow> make_block_hash_with_group_id (hs ! (i + j)) gid = Inr (the (hash_at s' (bs ! j)))
        \<and> hash_at s' (bs ! j) \<noteq> None) \<and>
     (\<forall>b. b = 0 \<or> b \<notin> set bs \<longrightarrow> hash_at s' b = hash_at s b))"
  using assms
proof (induction bs arbitrary: s i)
  case (Cons b bs)
  have b: "b < length (blocks s)" using Cons.prems by simp
  then have null: "is_null (blocks s ! b) \<longleftrightarrow> b = 0"
    using Cons.prems(1) by (auto simp: listens_def pool_inv_def ids_ok_def)
  let ?Q = "\<lambda>bs i s s'. listens L held P {} s' \<and> ref_at s' = ref_at s \<and>
     free_block_queue s' = free_block_queue s \<and> enable_caching s' = enable_caching s \<and> hash_block_size s' = hash_block_size s \<and>
     length (blocks s') = length (blocks s) \<and> block_pool.more s' = block_pool.more s \<and>
     (\<forall>j < length bs. bs ! j \<noteq> 0 \<longrightarrow> make_block_hash_with_group_id (hs ! (i + j)) gid = Inr (the (hash_at s' (bs ! j)))
        \<and> hash_at s' (bs ! j) \<noteq> None) \<and>
     (\<forall>b. b = 0 \<or> b \<notin> set bs \<longrightarrow> hash_at s' b = hash_at s b)"
  show ?case
  proof (cases "b = 0")
    case True
    have "runs_to (cache_loop gid hs (Suc i) bs s) (\<lambda>_ s'. ?Q bs (Suc i) s s')"
      using Cons.prems True by (intro Cons.IH) auto
    then have "runs_to (cache_loop gid hs (Suc i) bs s) (\<lambda>_ s'. ?Q (b # bs) i s s')"
      by (rule runs_to_mono) (auto simp: True nth_Cons' less_Suc_eq_0_disj)
    then show ?thesis using True null b by (simp add: post_rbind get_block_def)
  next
    case False
    obtain key where key: "make_block_hash_with_group_id (hs ! i) gid = Inr key"
      using unpack_pack [OF Cons.prems(3,4)] by blast
    have hb: "hash_at s b = None" "0 < ref_at s b" using Cons.prems(5) False by auto
    define s1 where "s1 = (upd_block b (\<lambda>b. b\<lparr>block_hash := Some key\<rparr>) s)
      \<lparr>cached_block_hash_to_block := bmap_insert key b (cached_block_hash_to_block s)\<rparr>"
    have v1: "ref_at s1 = ref_at s" "hash_at s1 = (hash_at s)(b := Some key)" "free_block_queue s1 = free_block_queue s"
      "enable_caching s1 = enable_caching s" "length (blocks s1) = length (blocks s)"
      "block_pool.more s1 = block_pool.more s" "free_set s1 = free_set s" "ids_ok s1 = ids_ok s"
      "hash_block_size s1 = hash_block_size s"
      using b by (auto simp: s1_def fun_eq_iff)
    have "pool_inv {} s1"
    proof -
      have "queue_ok {} s1" using Cons.prems(1) v1 by (auto simp: listens_def pool_inv_def intro: queue_ok_cong)
      moreover have "cache_ok s1"
        unfolding s1_def using Cons.prems(1,2) b False hb by (intro cache_ok_add) (auto simp: listens_def pool_inv_def)
      ultimately show ?thesis using Cons.prems(1) v1 by (simp add: pool_inv_def listens_def)
    qed
    moreover have "b \<notin> free_set s" using Cons.prems(1) hb by (auto simp: listens_def pool_inv_def queue_ok_def)
    ultimately have J1: "listens L held P {} s1"
      using Cons.prems(1) v1 own_state [OF v1(6), of P] by (auto simp: listens_def)
    have "runs_to (cache_loop gid hs (Suc i) bs s1) (\<lambda>_ s'. ?Q bs (Suc i) s1 s')"
      using J1 Cons.prems False v1 by (intro Cons.IH) auto
    then have IH: "runs_to (cache_loop gid hs (Suc i) bs s1) (\<lambda>_ s'. ?Q (b # bs) i s s')"
      by (rule runs_to_mono) (use key False Cons.prems(6) in \<open>auto simp: v1 nth_Cons' less_Suc_eq_0_disj\<close>)
    have "cache_loop gid hs i (b # bs) s = rbind (cache_loop gid hs (Suc i) bs s1)
        (\<lambda>evs. return (maybe_convert_block_hash (use_int_block_hashes s) (hs ! i) # evs))"
      using b null False hb Cons.prems(7) key set_block_hash_run [OF b hb(1), of key]
      by (simp add: get_block_def assert_that_def return_def hash_at_def s1_def)
    with IH show ?thesis by (simp only: post_rbind post_return)
  qed
qed simp

lemma cache_full_blocks_ok:
  assumes J: "synced L held {} s" and c: "enable_caching s" "0 \<le> gid" "gid < 2 ^ 32"
    and own: "\<forall>b \<in> set (take (nf - nc) (drop nc blks)).
       b < length (blocks s) \<and> (b \<noteq> 0 \<longrightarrow> 0 < ref_at s b \<and> hash_at s b = None)"
    and d: "distinct (filter (\<lambda>b. b \<noteq> 0) blks)"
    and len: "nc < nf" "nf \<le> length blks" "nf \<le> length (block_hashes r)"
      "nf \<le> length (group_hashes (hash_block_size s) bs r)"
  shows "runs_to (cache_full_blocks sha r blks nc nf bs gid s) (\<lambda>_ s'. synced L held {} s' \<and>
     ref_at s' = ref_at s \<and> free_block_queue s' = free_block_queue s \<and> length (blocks s') = length (blocks s) \<and>
     enable_caching s' = enable_caching s \<and> hash_block_size s' = hash_block_size s \<and> held s' = held s \<and> ready s' = ready s \<and>
     (\<forall>j. nc \<le> j \<and> j < nf \<and> blks ! j \<noteq> 0 \<longrightarrow> hash_at s' (blks ! j) \<noteq> None \<and>
        make_block_hash_with_group_id (group_hashes (hash_block_size s) bs r ! j) gid = Inr (the (hash_at s' (blks ! j)))) \<and>
     (\<forall>b. b \<notin> set (take (nf - nc) (drop nc blks)) \<longrightarrow> hash_at s' b = hash_at s b))"
proof -
  let ?hs = "group_hashes (hash_block_size s) bs r" and ?new = "take (nf - nc) (drop nc blks)"
  have hashes: "(if bs = hash_block_size s then return (block_hashes r) s
        else case scale_factor (hash_block_size s) bs of Inl e \<Rightarrow> raise e s
             | Inr k \<Rightarrow> return (coarse_hashes (block_hashes r) k) s) = Inr (?hs, s)"
    using len by (auto simp: group_hashes_def return_def split: sum.splits)
  let ?Q = "\<lambda>s'. listens L held (cached_free s) {} s' \<and> ref_at s' = ref_at s \<and>
     free_block_queue s' = free_block_queue s \<and> enable_caching s' = enable_caching s \<and> hash_block_size s' = hash_block_size s \<and>
     length (blocks s') = length (blocks s) \<and> block_pool.more s' = block_pool.more s \<and>
     (\<forall>j < length ?new. ?new ! j \<noteq> 0 \<longrightarrow> make_block_hash_with_group_id (drop nc ?hs ! (0 + j)) gid = Inr (the (hash_at s' (?new ! j)))
        \<and> hash_at s' (?new ! j) \<noteq> None) \<and>
     (\<forall>b. b = 0 \<or> b \<notin> set ?new \<longrightarrow> hash_at s' b = hash_at s b)"
  have dn: "distinct (filter (\<lambda>b. b \<noteq> 0) ?new)"
  proof -
    have "blks = take nc blks @ ?new @ drop (nf - nc) (drop nc blks)" by (simp del: drop_drop)
    with d show ?thesis by (metis distinct_append filter_append)
  qed
  have loop: "runs_to (cache_loop gid (drop nc ?hs) 0 ?new s) (\<lambda>_ s'. ?Q s')"
    using J c own dn len by (intro cache_loop_ok) (auto simp: synced_def)
  let ?R = "\<lambda>s'. synced L held {} s' \<and>
     ref_at s' = ref_at s \<and> free_block_queue s' = free_block_queue s \<and> length (blocks s') = length (blocks s) \<and>
     enable_caching s' = enable_caching s \<and> hash_block_size s' = hash_block_size s \<and> held s' = held s \<and> ready s' = ready s \<and>
     (\<forall>j. nc \<le> j \<and> j < nf \<and> blks ! j \<noteq> 0 \<longrightarrow> hash_at s' (blks ! j) \<noteq> None \<and>
        make_block_hash_with_group_id (?hs ! j) gid = Inr (the (hash_at s' (blks ! j)))) \<and>
     (\<forall>b. b \<notin> set ?new \<longrightarrow> hash_at s' b = hash_at s b)"
  have weaken: "?R s'" if s': "?Q s'" for s'
  proof -
    have "b \<notin> set ?new" if "b \<in> free_set s" for b
      using that own J by (auto simp: synced_def listens_def pool_inv_def queue_ok_def)
    then have "cached_free s' = cached_free s" using s' by (auto simp: cached_free_def free_set_def)
    moreover have "hash_at s' (blks ! j) \<noteq> None \<and> make_block_hash_with_group_id (?hs ! j) gid = Inr (the (hash_at s' (blks ! j)))"
      if j: "nc \<le> j" "j < nf" "blks ! j \<noteq> 0" for j
      using s' j len by (auto dest!: spec [where x = "j - nc"])
    ultimately show ?thesis
      using s' own_state [of s' s "cached_free s"] by (auto simp: synced_def)
  qed
  have event: "?R (s'\<lparr>kv_event_queue := e\<rparr>)" if "?R s'" for s' e
    using that own_state [of "s'\<lparr>kv_event_queue := e\<rparr>" s' "cached_free s'"]
    by (auto simp: synced_def listens_def cached_free_def)
  have nc: "\<not> nf \<le> nc" "\<not> (length ?hs < nc \<or> length blks < nf)" using len by auto
  show ?thesis
    unfolding cache_full_blocks_def if_not_P [OF nc(1)] Let_def post_rbind post_assert if_P [OF len(3)] hashes post_simps
  proof (rule runs_to_mono [OF loop])
    fix evs s' assume "?Q s'"
    then have R: "?R s'" by (rule weaken)
    obtain ev r' where "stored_event (use_int_block_hashes s') sha evs ?hs nc nf bs (map (\<lambda>b. is_null (blocks s' ! b)) ?new) r = Inr (ev, r')"
      using stored_event_runs by blast
    with R event [OF R] show "runs_to
        (if \<not> enable_kv_cache_events s' then return r s'
         else if length ?hs < nc \<or> length blks < nf then raise IndexError s'
         else case stored_event (use_int_block_hashes s') sha evs ?hs nc nf bs (map (\<lambda>b. is_null (blocks s' ! b)) ?new) r of
                Inl (e, _) \<Rightarrow> raise e s' | Inr (ev, r') \<Rightarrow> return r' (s'\<lparr>kv_event_queue := kv_event_queue s' @ [ev]\<rparr>))
        (\<lambda>_ s'. ?R s')"
      by (simp only: if_not_P [OF nc(2)] post_if post_return sum.case prod.case split: if_split) simp
  qed
qed

end

interpretation plain_pool: pool_listener "no_callbacks :: block_pool pool_callbacks" "\<lambda>_ _. True" "\<lambda>_. {}" "\<lambda>_. True"
proof (unfold_locales, goal_cases)
  case (5 s n)
  then have w: "fq_wf (free_block_queue s)" "n \<le> length (free_ids (free_block_queue s))"
    by (auto simp: synced_def listens_def pool_inv_def queue_ok_def get_num_free_blocks_def fq.num_ids)
  let ?ids = "free_ids (free_block_queue s)"
  have d: "distinct ?ids" using w(1) by (rule fq.ids_distinct)
  have taken: "set (drop n ?ids) = free_set s - set (take n ?ids)"
    using set_take_disj_set_drop_if_distinct [OF d, of n n] set_append [of "take n ?ids" "drop n ?ids"]
    by (auto simp: free_set_def)
  have "synced (\<lambda>_ _. True) (\<lambda>_. {}) (set (take n ?ids)) (s\<lparr>free_block_queue := q\<rparr>)"
    if "fq_wf q" "free_ids q = drop n ?ids" for q
    using 5(1) that taken queue_ok_take [of "{}" s q "set (take n ?ids)"] set_take_subset [of n ?ids]
    by (simp add: synced_def listens_def pool_inv_def free_set_def)
  with w d show ?case
    unfolding pick_blocks_def no_callbacks_def on_queue_def
    by (auto simp: post_on_part base_eq_iff free_set_def dest: in_set_takeD intro!: runs_to_mono [OF fq.pop_ids [OF w]])
qed (auto simp: no_callbacks_def fire_def base_eq_iff)

end
