(* ===== verification/Prefix_LRU.thy ===== *)
theory Prefix_LRU
  imports Linked_List
begin

text \<open>
  The class \<open>PrefixLRU\<close> of \<open>vllm/model_executor/layers/fused_moe/unified_pool.py\<close>: the
  recency list of cached-prefix pages, an intrusive doubly linked list of \<open>_PrefixNode\<close>
  objects from oldest to newest plus a dict from pages to nodes. Node identity matters
  (\<open>rename\<close> swaps the page id on a node that keeps its place), so the nodes live in a heap
  and a reference is a heap address; \<open>lru_fresh\<close> is the next unused address.

  The theorems: each operation refines an operation on the list of (page, step) pairs, the
  steps stay in order from head to tail, and the class's own \<open>validate\<close> never fails.
\<close>

section \<open>The structure and its operations\<close>

record pnode =
  pn_page :: nat
  pn_step :: int
  pn_prev :: "nat option"
  pn_next :: "nat option"

record prefix_lru =
  lru_nodes :: "(nat, nat) dict"
  lru_head :: "nat option"
  lru_tail :: "nat option"
  lru_heap :: "nat \<Rightarrow> pnode"
  lru_fresh :: nat

definition new_node :: "nat \<Rightarrow> int \<Rightarrow> pnode" where
  "new_node p st = \<lparr>pn_page = p, pn_step = st, pn_prev = None, pn_next = None\<rparr>"

definition lru_empty :: prefix_lru where
  "lru_empty = \<lparr>lru_nodes = [], lru_head = None, lru_tail = None,
                lru_heap = (\<lambda>_. new_node 0 0), lru_fresh = 0\<rparr>"

definition upd_node :: "nat \<Rightarrow> (pnode \<Rightarrow> pnode) \<Rightarrow> prefix_lru \<Rightarrow> prefix_lru" where
  "upd_node r f l = l\<lparr>lru_heap := (lru_heap l)(r := f (lru_heap l r))\<rparr>"

text \<open>Writing \<open>x.next\<close> and \<open>x.prev\<close>, where \<open>None\<close> stands for the list object's own ends.\<close>

definition set_next_of :: "nat option \<Rightarrow> nat option \<Rightarrow> prefix_lru \<Rightarrow> prefix_lru" where
  "set_next_of x v l = (case x of Some r \<Rightarrow> upd_node r (pn_next_update (\<lambda>_. v)) l
                                | None \<Rightarrow> l\<lparr>lru_head := v\<rparr>)"

definition set_prev_of :: "nat option \<Rightarrow> nat option \<Rightarrow> prefix_lru \<Rightarrow> prefix_lru" where
  "set_prev_of x v l = (case x of Some r \<Rightarrow> upd_node r (pn_prev_update (\<lambda>_. v)) l
                                | None \<Rightarrow> l\<lparr>lru_tail := v\<rparr>)"

definition lru_unlink :: "nat \<Rightarrow> prefix_lru \<Rightarrow> prefix_lru" where
  "lru_unlink r l =
     (let p = pn_prev (lru_heap l r); n = pn_next (lru_heap l r);
          l1 = set_next_of p n l;
          l2 = set_prev_of n p l1
      in upd_node r (\<lambda>nd. nd\<lparr>pn_prev := None, pn_next := None\<rparr>) l2)"

definition lru_append :: "nat \<Rightarrow> prefix_lru \<Rightarrow> prefix_lru" where
  "lru_append r l =
     (let l1 = upd_node r (\<lambda>nd. nd\<lparr>pn_prev := lru_tail l, pn_next := None\<rparr>) l;
          l2 = set_next_of (lru_tail l) (Some r) l1
      in l2\<lparr>lru_tail := Some r\<rparr>)"

definition lru_alloc :: "nat \<Rightarrow> int \<Rightarrow> prefix_lru \<Rightarrow> nat \<times> prefix_lru" where
  "lru_alloc p st l =
     (let r = lru_fresh l
      in (r, l\<lparr>lru_heap := (lru_heap l)(r := new_node p st),
               lru_nodes := AList.update p r (lru_nodes l), lru_fresh := Suc r\<rparr>))"

definition lru_len :: "prefix_lru \<Rightarrow> nat" where
  "lru_len l = length (lru_nodes l)"

definition lru_contains :: "prefix_lru \<Rightarrow> nat \<Rightarrow> bool" where
  "lru_contains l p \<longleftrightarrow> map_of (lru_nodes l) p \<noteq> None"

definition lru_get :: "prefix_lru \<Rightarrow> nat \<Rightarrow> int option" where
  "lru_get l p = map_option (\<lambda>r. pn_step (lru_heap l r)) (map_of (lru_nodes l) p)"

definition lru_touch :: "nat \<Rightarrow> int \<Rightarrow> prefix_lru \<Rightarrow> prefix_lru" where
  "lru_touch p st l =
     (case map_of (lru_nodes l) p of
        None \<Rightarrow> (let (r, l') = lru_alloc p st l in lru_append r l')
      | Some r \<Rightarrow> lru_append r (lru_unlink r (upd_node r (pn_step_update (\<lambda>_. st)) l)))"

text \<open>\<open>pop(page, None)\<close>: the removed step, or \<open>None\<close> when the page is absent.\<close>

definition lru_pop :: "nat \<Rightarrow> prefix_lru \<Rightarrow> int option \<times> prefix_lru" where
  "lru_pop p l =
     (case map_of (lru_nodes l) p of
        None \<Rightarrow> (None, l)
      | Some r \<Rightarrow> (Some (pn_step (lru_heap l r)),
                   lru_unlink r (l\<lparr>lru_nodes := AList.delete p (lru_nodes l)\<rparr>)))"

text \<open>The backward search of \<open>insert_ordered\<close>; the outer option is the fuel.\<close>

fun insert_cursor :: "nat \<Rightarrow> (nat \<Rightarrow> pnode) \<Rightarrow> int \<Rightarrow> nat option \<Rightarrow> nat option option" where
  "insert_cursor 0 h st c = None"
| "insert_cursor (Suc n) h st c =
     (case c of
        None \<Rightarrow> Some None
      | Some r \<Rightarrow> if pn_step (h r) > st then insert_cursor n h st (pn_prev (h r)) else Some (Some r))"

definition insert_ordered :: "nat \<Rightarrow> int \<Rightarrow> prefix_lru \<Rightarrow> (prefix_lru, unit) res" where
  "insert_ordered p st l =
     (let l0 = snd (lru_pop p l); (r, l1) = lru_alloc p st l0
      in case insert_cursor (Suc (lru_len l1)) (lru_heap l1) st (lru_tail l1) of
           None \<Rightarrow> raise Diverges l1
         | Some None \<Rightarrow>
             (let l2 = upd_node r (pn_next_update (\<lambda>_. lru_head l1)) l1;
                  l3 = set_prev_of (lru_head l1) (Some r) l2
              in return () (l3\<lparr>lru_head := Some r\<rparr>))
         | Some (Some c) \<Rightarrow>
             (let n = pn_next (lru_heap l1 c);
                  l2 = upd_node r (\<lambda>nd. nd\<lparr>pn_prev := Some c, pn_next := n\<rparr>) l1;
                  l3 = set_prev_of n (Some r) l2
              in return () (set_next_of (Some c) (Some r) l3)))"

definition lru_rename :: "nat \<Rightarrow> nat \<Rightarrow> int \<Rightarrow> prefix_lru \<Rightarrow> int \<times> prefix_lru" where
  "lru_rename src dst fallback l =
     (let l0 = snd (lru_pop dst l)
      in case map_of (lru_nodes l0) src of
           None \<Rightarrow> (fallback, lru_touch dst fallback l0)
         | Some r \<Rightarrow>
             (let l1 = upd_node r (pn_page_update (\<lambda>_. dst))
                         (l0\<lparr>lru_nodes := AList.delete src (lru_nodes l0)\<rparr>)
              in (pn_step (lru_heap l1 r), l1\<lparr>lru_nodes := AList.update dst r (lru_nodes l1)\<rparr>)))"

definition lru_oldest :: "prefix_lru \<Rightarrow> (nat \<times> int) option" where
  "lru_oldest l = map_option (\<lambda>r. (pn_page (lru_heap l r), pn_step (lru_heap l r))) (lru_head l)"

text \<open>
  The generators \<open>items\<close>/\<open>coldest_first\<close> and \<open>newest_first\<close>, listed in full; a consumer
  that stops early reads a prefix of the list. The fuel is the number of mapped pages.
\<close>

fun node_walk :: "nat \<Rightarrow> (pnode \<Rightarrow> nat option) \<Rightarrow> (nat \<Rightarrow> pnode) \<Rightarrow> nat option \<Rightarrow> (nat \<times> int) list option" where
  "node_walk 0 succ h c = None"
| "node_walk (Suc n) succ h c =
     (case c of
        None \<Rightarrow> Some []
      | Some r \<Rightarrow> map_option ((#) (pn_page (h r), pn_step (h r))) (node_walk n succ h (succ (h r))))"

definition coldest_first :: "prefix_lru \<Rightarrow> (nat \<times> int) list option" where
  "coldest_first l = node_walk (Suc (lru_len l)) pn_next (lru_heap l) (lru_head l)"

definition newest_first :: "prefix_lru \<Rightarrow> nat \<Rightarrow> (nat \<times> int) list option" where
  "newest_first l limit = map_option (take limit) (node_walk (Suc (lru_len l)) pn_prev (lru_heap l) (lru_tail l))"

text \<open>
  \<open>validate\<close>, the structure's self-check: the loop carries the previous node and the
  number of nodes seen.
\<close>

fun validate_loop :: "nat \<Rightarrow> prefix_lru \<Rightarrow> nat \<Rightarrow> nat option \<Rightarrow> nat option \<Rightarrow> (prefix_lru, unit) res" where
  "validate_loop 0 l seen prv c = raise Diverges l"
| "validate_loop (Suc n) l seen prv c =
     (case c of
        None \<Rightarrow>
          rbind (assert_that (prv = lru_tail l) ''tail does not terminate the list'' l) (\<lambda>_ l.
            assert_that (seen = lru_len l) ''linked nodes but mapped'' l)
      | Some r \<Rightarrow>
          rbind (assert_that (map_of (lru_nodes l) (pn_page (lru_heap l r)) = Some r) ''node not in the map'' l) (\<lambda>_ l.
          rbind (assert_that (pn_prev (lru_heap l r) = prv) ''broken prev link'' l) (\<lambda>_ l.
          rbind (assert_that (case prv of None \<Rightarrow> True | Some p \<Rightarrow> pn_step (lru_heap l p) \<le> pn_step (lru_heap l r))
                   ''steps out of order'' l) (\<lambda>_ l.
            validate_loop n l (Suc seen) (Some r) (pn_next (lru_heap l r))))))"

definition lru_validate :: "prefix_lru \<Rightarrow> (prefix_lru, unit) res" where
  "lru_validate l = validate_loop (Suc (lru_len l)) l 0 None (lru_head l)"

section \<open>The list of nodes a structure stands for\<close>

definition next_of :: "prefix_lru \<Rightarrow> nat option \<Rightarrow> nat option option" where
  "next_of l x = Some (case x of Some r \<Rightarrow> pn_next (lru_heap l r) | None \<Rightarrow> lru_head l)"

definition prev_of :: "prefix_lru \<Rightarrow> nat option \<Rightarrow> nat option option" where
  "prev_of l x = Some (case x of Some r \<Rightarrow> pn_prev (lru_heap l r) | None \<Rightarrow> lru_tail l)"

abbreviation chain :: "prefix_lru \<Rightarrow> nat list \<Rightarrow> bool" where
  "chain l rs \<equiv> linked (next_of l) (prev_of l) None (map Some rs) None"

definition entry :: "prefix_lru \<Rightarrow> nat \<Rightarrow> nat \<times> int" where
  "entry l r = (pn_page (lru_heap l r), pn_step (lru_heap l r))"

definition lru_rep :: "prefix_lru \<Rightarrow> nat list \<Rightarrow> bool" where
  "lru_rep l rs \<longleftrightarrow> chain l rs \<and> dict_wf (lru_nodes l) \<and>
     set (lru_nodes l) = (\<lambda>r. (pn_page (lru_heap l r), r)) ` set rs \<and>
     (\<forall>r \<in> set rs. r < lru_fresh l)"

lemmas link_defs = next_of_def prev_of_def set_next_of_def set_prev_of_def upd_node_def

lemma chain_distinct: "chain l rs \<Longrightarrow> distinct rs"
  by (auto simp: linked_def distinct_map)

lemma chain_split:
  "chain l (us @ r # ws) \<Longrightarrow>
     pn_prev (lru_heap l r) = last (None # map Some us) \<and>
     pn_next (lru_heap l r) = hd (map Some ws @ [None])"
  using linked_split [of "next_of l" "prev_of l" None "map Some us" "Some r" "map Some ws" None]
  by (simp add: next_of_def prev_of_def)

lemma chain_ends:
  "chain l rs \<Longrightarrow> lru_head l = hd (map Some rs @ [None]) \<and> lru_tail l = last (None # map Some rs)"
  by (cases rs; cases rs rule: rev_cases) (auto simp: linked_def dll_append next_of_def prev_of_def)

text \<open>\<open>_unlink\<close> and \<open>_append\<close> change links only.\<close>

lemma chain_unlink:
  assumes "chain l (us @ r # ws)"
  shows "chain (lru_unlink r l) (us @ ws)"
proof -
  let ?a = "last (None # map Some us)" and ?c = "hd (map Some ws @ [None])"
  have pn: "pn_prev (lru_heap l r) = ?a" "pn_next (lru_heap l r) = ?c"
    using chain_split [OF assms] by auto
  have "distinct (us @ r # ws)" by (rule chain_distinct [OF assms])
  then have ne: "?a \<noteq> Some r" "?c \<noteq> Some r"
    by (cases us rule: rev_cases; cases ws; auto)+
  have "linked (next_of (lru_unlink r l)) (prev_of (lru_unlink r l)) None (map Some us @ map Some ws) None"
    by (rule linked_unlink [of "next_of l" "prev_of l" _ _ "Some r"])
      (use assms ne in \<open>auto simp: lru_unlink_def pn link_defs Let_def simp del: last.simps split: option.splits\<close>)
  then show ?thesis by simp
qed

lemma chain_append:
  assumes "chain l rs" and "r \<notin> set rs"
  shows "chain (lru_append r l) (rs @ [r])"
proof -
  have t: "lru_tail l = last (None # map Some rs)"
    using chain_ends [OF assms(1)] by blast
  have ne: "lru_tail l \<noteq> Some r"
    using t assms(2) by (cases rs rule: rev_cases) auto
  have "linked (next_of (lru_append r l)) (prev_of (lru_append r l)) None (map Some rs @ [Some r]) None"
    by (rule linked_link [of "next_of l" "prev_of l" _ _ "[]"])
      (use assms ne t in \<open>auto simp: lru_append_def link_defs Let_def simp del: last.simps split: option.splits\<close>)
  then show ?thesis by simp
qed

lemma unlink_frame [simp]:
  "lru_nodes (lru_unlink r l) = lru_nodes l" "lru_fresh (lru_unlink r l) = lru_fresh l"
  "pn_page (lru_heap (lru_unlink r l) x) = pn_page (lru_heap l x)"
  "pn_step (lru_heap (lru_unlink r l) x) = pn_step (lru_heap l x)"
  by (auto simp: lru_unlink_def link_defs Let_def split: option.splits)

lemma append_frame [simp]:
  "lru_nodes (lru_append r l) = lru_nodes l" "lru_fresh (lru_append r l) = lru_fresh l"
  "pn_page (lru_heap (lru_append r l) x) = pn_page (lru_heap l x)"
  "pn_step (lru_heap (lru_append r l) x) = pn_step (lru_heap l x)"
  by (auto simp: lru_append_def link_defs Let_def split: option.splits)

lemma chain_cong:
  assumes "chain l rs" and "lru_head l' = lru_head l" "lru_tail l' = lru_tail l"
    and "\<And>r. r \<in> set rs \<Longrightarrow> pn_prev (lru_heap l' r) = pn_prev (lru_heap l r) \<and>
                         pn_next (lru_heap l' r) = pn_next (lru_heap l r)"
  shows "chain l' rs"
  by (rule linked_frame [OF assms(1)])
    (use assms(2-4) in \<open>auto simp: next_of_def prev_of_def split: option.splits\<close>)

section \<open>What each operation does to the list\<close>

lemma lru_rep_lookup:
  "lru_rep l rs \<Longrightarrow> map_of (lru_nodes l) p = Some r \<longleftrightarrow> r \<in> set rs \<and> pn_page (lru_heap l r) = p"
  by (auto simp: lru_rep_def)

lemma lru_rep_absent:
  "lru_rep l rs \<Longrightarrow> map_of (lru_nodes l) p = None \<longleftrightarrow> p \<notin> fst ` entry l ` set rs"
  by (auto simp: lru_rep_def map_of_eq_None_iff entry_def image_image)

lemma lru_rep_inj: "lru_rep l rs \<Longrightarrow> r \<in> set rs \<Longrightarrow> r' \<in> set rs \<Longrightarrow>
    pn_page (lru_heap l r) = pn_page (lru_heap l r') \<Longrightarrow> r = r'"
  by (metis lru_rep_lookup option.inject)

lemma lru_rep_distinct: "lru_rep l rs \<Longrightarrow> distinct rs"
  by (auto simp: lru_rep_def intro: chain_distinct)

lemma lru_rep_filter:
  assumes "lru_rep l (us @ r # ws)" and "pn_page (lru_heap l r) = p"
  shows "filter (\<lambda>e. fst e \<noteq> p) (map (entry l) (us @ r # ws)) = map (entry l) (us @ ws)"
    and "\<forall>x \<in> set (us @ ws). pn_page (lru_heap l x) \<noteq> p"
proof -
  show ne: "\<forall>x \<in> set (us @ ws). pn_page (lru_heap l x) \<noteq> p"
  proof (intro ballI notI)
    fix x assume x: "x \<in> set (us @ ws)" "pn_page (lru_heap l x) = p"
    have "x = r"
      by (rule lru_rep_inj [OF assms(1)]) (use x assms(2) in auto)
    with x(1) lru_rep_distinct [OF assms(1)] show False by auto
  qed
  have "filter (\<lambda>e. fst e \<noteq> p) (map (entry l) vs) = map (entry l) vs" if "set vs \<subseteq> set (us @ ws)" for vs
    by (rule filter_True) (use ne that in \<open>auto simp: entry_def\<close>)
  then show "filter (\<lambda>e. fst e \<noteq> p) (map (entry l) (us @ r # ws)) = map (entry l) (us @ ws)"
    using assms(2) by (simp add: entry_def)
qed

lemma lru_rep_pages_distinct: "lru_rep l rs \<Longrightarrow> distinct (map fst (map (entry l) rs))"
  using chain_distinct [of l rs] lru_rep_inj [of l rs]
  by (auto simp: distinct_map inj_on_def entry_def lru_rep_def)

lemma lru_rep_len:
  assumes "lru_rep l rs"
  shows "lru_len l = length rs"
proof -
  have "distinct (lru_nodes l)"
    using assms by (auto simp: lru_rep_def distinct_map)
  then have "length (lru_nodes l) = card (set (lru_nodes l))"
    by (simp add: distinct_card)
  also have "\<dots> = card (set rs)"
    using assms by (simp add: lru_rep_def card_image inj_on_def)
  finally show ?thesis
    using assms chain_distinct [of l rs] by (simp add: lru_len_def lru_rep_def distinct_card)
qed

lemma lru_rep_empty: "lru_rep lru_empty []"
  by (simp add: lru_rep_def lru_empty_def linked_def next_of_def prev_of_def)

lemma lru_rep_alloc_append:
  assumes rep: "lru_rep l rs" and abs: "map_of (lru_nodes l) p = None" and al: "lru_alloc p st l = (r, l')"
  shows "lru_rep (lru_append r l') (rs @ [r])"
    and "map (entry (lru_append r l')) (rs @ [r]) = map (entry l) rs @ [(p, st)]"
proof -
  have r: "r = lru_fresh l" "r \<notin> set rs"
    using rep al by (auto simp: lru_rep_def lru_alloc_def Let_def)
  have l': "l' = l\<lparr>lru_heap := (lru_heap l)(r := new_node p st),
                   lru_nodes := AList.update p r (lru_nodes l), lru_fresh := Suc r\<rparr>"
    using al r(1) by (auto simp: lru_alloc_def Let_def)
  have "chain l' rs"
    by (rule chain_cong [of l]) (use rep r l' in \<open>auto simp: lru_rep_def\<close>)
  then have "chain (lru_append r l') (rs @ [r])"
    using r(2) by (rule chain_append)
  moreover have "AList.update p r (lru_nodes l) = lru_nodes l @ [(p, r)]" and "p \<notin> fst ` set (lru_nodes l)"
    using abs by (simp_all add: update_fresh map_of_eq_None_iff)
  moreover have "(\<lambda>x. (pn_page (lru_heap l' x), x)) ` set rs = (\<lambda>x. (pn_page (lru_heap l x), x)) ` set rs"
    using r by (intro image_cong) (auto simp: l')
  moreover have "pn_page (lru_heap l' r) = p" by (simp add: l' new_node_def)
  ultimately show "lru_rep (lru_append r l') (rs @ [r])"
    using rep r by (simp add: lru_rep_def) (auto simp: l')
  show "map (entry (lru_append r l')) (rs @ [r]) = map (entry l) rs @ [(p, st)]"
    using r by (auto simp: entry_def l' new_node_def)
qed

text \<open>Removing a node's entry from the dict and unlinking it.\<close>

lemma lru_rep_pop_present:
  assumes rep: "lru_rep l (us @ r # ws)" and p: "pn_page (lru_heap l r) = p"
  shows "lru_rep (lru_unlink r (l\<lparr>lru_nodes := AList.delete p (lru_nodes l)\<rparr>)) (us @ ws)"
    and "map (entry (lru_unlink r (l\<lparr>lru_nodes := AList.delete p (lru_nodes l)\<rparr>))) (us @ ws) =
           filter (\<lambda>e. fst e \<noteq> p) (map (entry l) (us @ r # ws))"
proof -
  let ?l = "l\<lparr>lru_nodes := AList.delete p (lru_nodes l)\<rparr>"
  note pages = lru_rep_filter(2) [OF rep p]
  have "chain ?l (us @ r # ws)"
    by (rule chain_cong [of l]) (use rep in \<open>auto simp: lru_rep_def\<close>)
  then have "chain (lru_unlink r ?l) (us @ ws)"
    by (rule chain_unlink)
  moreover have "set (AList.delete p (lru_nodes l)) = (\<lambda>r. (pn_page (lru_heap l r), r)) ` set (us @ ws)"
  proof -
    have "{e \<in> insert (p, r) (f ` A). p \<noteq> fst e} = f ` A" if "\<forall>x \<in> A. fst (f x) \<noteq> p"
      for f :: "nat \<Rightarrow> nat \<times> nat" and A
      using that by auto
    from this [of "set (us @ ws)" "\<lambda>r. (pn_page (lru_heap l r), r)"] pages rep p show ?thesis
      by (simp add: lru_rep_def AList.delete_eq case_prod_beta)
  qed
  ultimately show "lru_rep (lru_unlink r ?l) (us @ ws)"
    using rep by (auto simp: lru_rep_def)
  show "map (entry (lru_unlink r ?l)) (us @ ws) = filter (\<lambda>e. fst e \<noteq> p) (map (entry l) (us @ r # ws))"
    unfolding lru_rep_filter(1) [OF rep p] by (simp add: entry_def)
qed

lemma lru_rep_pop:
  assumes "lru_rep l rs"
  shows "\<exists>rs'. lru_rep (snd (lru_pop p l)) rs' \<and>
           map (entry (snd (lru_pop p l))) rs' = filter (\<lambda>e. fst e \<noteq> p) (map (entry l) rs)"
proof (cases "map_of (lru_nodes l) p")
  case None
  then have "filter (\<lambda>e. fst e \<noteq> p) (map (entry l) rs) = map (entry l) rs"
    using lru_rep_absent [OF assms] by (intro filter_True) auto
  with None assms show ?thesis by (auto simp: lru_pop_def)
next
  case (Some r)
  then have r: "r \<in> set rs" "pn_page (lru_heap l r) = p"
    using lru_rep_lookup [OF assms] by auto
  then obtain us ws where rs: "rs = us @ r # ws" by (auto simp: in_set_conv_decomp)
  from lru_rep_pop_present [OF assms [unfolded rs] r(2)] Some show ?thesis
    unfolding rs by (intro exI [of _ "us @ ws"]) (simp add: lru_pop_def)
qed

lemma lru_rep_restamp:
  fixes st :: int
  assumes rep: "lru_rep l (us @ r # ws)"
  defines "l' \<equiv> lru_append r (lru_unlink r (upd_node r (pn_step_update (\<lambda>_. st)) l))"
  shows "lru_rep l' (us @ ws @ [r])"
    and "map (entry l') (us @ ws @ [r]) = map (entry l) (us @ ws) @ [(pn_page (lru_heap l r), st)]"
proof -
  note d = lru_rep_distinct [OF rep]
  have "chain (upd_node r (pn_step_update (\<lambda>_. st)) l) (us @ r # ws)"
    by (rule chain_cong [of l]) (use rep in \<open>auto simp: lru_rep_def upd_node_def\<close>)
  from chain_append [OF chain_unlink [OF this], of r] d have "chain l' (us @ ws @ [r])"
    by (simp add: l'_def)
  moreover have "set (us @ ws @ [r]) = set (us @ r # ws)" by auto
  moreover have "pn_page (lru_heap l' x) = pn_page (lru_heap l x)" for x
    by (simp add: l'_def upd_node_def)
  ultimately show "lru_rep l' (us @ ws @ [r])"
    using rep by (simp add: lru_rep_def) (simp add: l'_def upd_node_def)
  show "map (entry l') (us @ ws @ [r]) = map (entry l) (us @ ws) @ [(pn_page (lru_heap l r), st)]"
    using d by (auto simp: l'_def entry_def upd_node_def)
qed

lemma lru_rep_touch:
  assumes "lru_rep l rs"
  shows "\<exists>rs'. lru_rep (lru_touch p st l) rs' \<and>
           map (entry (lru_touch p st l)) rs' = filter (\<lambda>e. fst e \<noteq> p) (map (entry l) rs) @ [(p, st)]"
proof (cases "map_of (lru_nodes l) p")
  case None
  obtain r l' where al: "lru_alloc p st l = (r, l')" by (cases "lru_alloc p st l")
  have "filter (\<lambda>e. fst e \<noteq> p) (map (entry l) rs) = map (entry l) rs"
    using lru_rep_absent [OF assms] None by (intro filter_True) auto
  with lru_rep_alloc_append [OF assms None al] None al show ?thesis
    by (intro exI [of _ "rs @ [r]"]) (simp add: lru_touch_def)
next
  case (Some r)
  then have r: "r \<in> set rs" "pn_page (lru_heap l r) = p"
    using lru_rep_lookup [OF assms] by auto
  then obtain us ws where rs: "rs = us @ r # ws" by (auto simp: in_set_conv_decomp)
  note rep = assms [unfolded rs]
  have "filter (\<lambda>e. fst e \<noteq> p) (map (entry l) rs) = map (entry l) (us @ ws)"
    unfolding rs by (rule lru_rep_filter(1) [OF rep r(2)])
  with lru_rep_restamp [OF rep, of st] r(2) Some show ?thesis
    by (intro exI [of _ "us @ ws @ [r]"]) (simp add: lru_touch_def)
qed

lemma lru_rep_rename:
  assumes rep: "lru_rep l rs" and ne: "src \<noteq> dst" and src: "src \<in> fst ` entry l ` set rs"
  shows "\<exists>rs'. lru_rep (snd (lru_rename src dst fb l)) rs' \<and>
           map (entry (snd (lru_rename src dst fb l))) rs' =
             map (\<lambda>(q, t). (if q = src then dst else q, t)) (filter (\<lambda>e. fst e \<noteq> dst) (map (entry l) rs))"
proof -
  define l0 where "l0 = snd (lru_pop dst l)"
  obtain rs0 where rep0: "lru_rep l0 rs0"
    and en0: "map (entry l0) rs0 = filter (\<lambda>e. fst e \<noteq> dst) (map (entry l) rs)"
    using lru_rep_pop [OF rep] unfolding l0_def by blast
  have "set (map (entry l0) rs0) = {e \<in> entry l ` set rs. fst e \<noteq> dst}"
    by (simp add: en0)
  then have keys: "dst \<notin> fst ` entry l0 ` set rs0" "src \<in> fst ` entry l0 ` set rs0"
    using src ne by (auto simp: image_iff Bex_def)
  then obtain r where r: "map_of (lru_nodes l0) src = Some r"
    using lru_rep_absent [OF rep0, of src] by auto
  then have rm: "r \<in> set rs0" "pn_page (lru_heap l0 r) = src"
    using lru_rep_lookup [OF rep0] by auto
  define l1 where "l1 = snd (lru_rename src dst fb l)"
  have l1: "l1 = l0\<lparr>lru_heap := (lru_heap l0)(r := (lru_heap l0 r)\<lparr>pn_page := dst\<rparr>),
                    lru_nodes := AList.update dst r (AList.delete src (lru_nodes l0))\<rparr>"
    using r by (simp add: l1_def lru_rename_def l0_def Let_def upd_node_def)
  have page_src: "pn_page (lru_heap l0 x) = src \<longleftrightarrow> x = r" if "x \<in> set rs0" for x
    using lru_rep_inj [OF rep0 that rm(1)] rm(2) by auto
  have page_dst: "pn_page (lru_heap l0 x) \<noteq> dst" if "x \<in> set rs0" for x
    using keys(1) that by (auto simp: entry_def image_iff)
  have "chain l1 rs0"
    by (rule chain_cong [of l0]) (use rep0 in \<open>auto simp: l1 lru_rep_def\<close>)
  moreover have "dict_wf (lru_nodes l1)"
    using rep0 by (simp add: l1 lru_rep_def)
  moreover have "(p, x) \<in> set (lru_nodes l1) \<longleftrightarrow> x \<in> set rs0 \<and> pn_page (lru_heap l1 x) = p" for p x
  proof -
    have "(p, x) \<in> set (lru_nodes l1) \<longleftrightarrow> map_of (lru_nodes l1) p = Some x"
      using \<open>dict_wf (lru_nodes l1)\<close> by simp
    also have "\<dots> \<longleftrightarrow> x \<in> set rs0 \<and> pn_page (lru_heap l1 x) = p"
      using lru_rep_lookup [OF rep0, of p x] page_src [of x] rm page_dst
      by (auto simp: l1)
    finally show ?thesis .
  qed
  ultimately have "lru_rep l1 rs0"
    using rep0 by (auto simp: lru_rep_def l1)
  moreover have "map (entry l1) rs0 = map (\<lambda>(q, t). (if q = src then dst else q, t)) (map (entry l0) rs0)"
    using page_src by (auto simp: entry_def l1)
  ultimately show ?thesis
    unfolding en0 l1_def by blast
qed

lemma lru_rename_absent:
  "lru_rep l rs \<Longrightarrow> src \<notin> fst ` entry l ` set rs \<Longrightarrow>
     lru_rename src dst fb l = (fb, lru_touch dst fb (snd (lru_pop dst l)))"
  using lru_rep_absent [of l rs src]
  by (auto simp: lru_rename_def lru_pop_def Let_def split: option.splits)

section \<open>Walks\<close>

lemma node_walk_chain:
  assumes "chain l (us @ ws)" and "length ws \<le> n"
  shows "node_walk (Suc n) pn_next (lru_heap l) (hd (map Some ws @ [None])) = Some (map (entry l) ws)"
  using assms
proof (induction ws arbitrary: us n)
  case (Cons w ws)
  then obtain m where n: "n = Suc m" by (cases n) auto
  have "pn_next (lru_heap l w) = hd (map Some ws @ [None])"
    using chain_split [OF Cons.prems(1)] by simp
  moreover have "node_walk (Suc m) pn_next (lru_heap l) (hd (map Some ws @ [None])) = Some (map (entry l) ws)"
    by (rule Cons.IH [of "us @ [w]"]) (use Cons.prems n in auto)
  ultimately show ?case by (simp add: n entry_def)
qed simp

lemma node_walk_back:
  assumes "chain l (us @ ws)" and "length us \<le> n"
  shows "node_walk (Suc n) pn_prev (lru_heap l) (last (None # map Some us)) = Some (rev (map (entry l) us))"
  using assms
proof (induction us arbitrary: ws n rule: rev_induct)
  case (snoc u us)
  then obtain m where n: "n = Suc m" by (cases n) auto
  have "pn_prev (lru_heap l u) = last (None # map Some us)"
    using chain_split [of l us u ws] snoc.prems by simp
  moreover have "node_walk n pn_prev (lru_heap l) (last (None # map Some us)) = Some (rev (map (entry l) us))"
    unfolding n by (rule snoc.IH [of "u # ws"]) (use snoc.prems n in auto)
  moreover have "last (None # map Some (us @ [u])) = Some u" by simp
  ultimately show ?case by (simp add: entry_def del: last.simps)
qed simp

lemma lru_rep_walk: "lru_rep l rs \<Longrightarrow> coldest_first l = Some (map (entry l) rs)"
  using node_walk_chain [of l "[]" rs "length rs"] chain_ends [of l rs]
  by (simp add: coldest_first_def lru_rep_len) (simp add: lru_rep_def)

lemma lru_rep_newest: "lru_rep l rs \<Longrightarrow> newest_first l k = Some (take k (rev (map (entry l) rs)))"
  using node_walk_back [of l rs "[]" "length rs"] chain_ends [of l rs]
  by (simp add: newest_first_def lru_rep_len del: last.simps) (simp add: lru_rep_def del: last.simps)

section \<open>Ordered insertion and the self-check\<close>

text \<open>The backward search stops behind the last node that is not newer than \<open>st\<close>.\<close>

lemma insert_cursor_chain:
  assumes "chain l (us @ ws)" and "length us \<le> n"
  shows "\<exists>us1 us2. us = us1 @ us2 \<and>
     insert_cursor (Suc n) (lru_heap l) st (last (None # map Some us)) = Some (last (None # map Some us1)) \<and>
     (\<forall>r \<in> set us2. pn_step (lru_heap l r) > st) \<and>
     (us1 \<noteq> [] \<longrightarrow> pn_step (lru_heap l (last us1)) \<le> st)"
  using assms
proof (induction us arbitrary: ws n rule: rev_induct)
  case Nil
  then show ?case by simp
next
  case (snoc u us)
  obtain m where n: "n = Suc m" using snoc.prems by (cases n) auto
  have pv: "pn_prev (lru_heap l u) = last (None # map Some us)"
    using chain_split [of l us u ws] snoc.prems by simp
  have lst: "last (None # map Some (us @ [u])) = Some u" by simp
  show ?case
  proof (cases "pn_step (lru_heap l u) > st")
    case True
    have "\<exists>us1 us2. us = us1 @ us2 \<and>
      insert_cursor n (lru_heap l) st (last (None # map Some us)) = Some (last (None # map Some us1)) \<and>
      (\<forall>r \<in> set us2. pn_step (lru_heap l r) > st) \<and> (us1 \<noteq> [] \<longrightarrow> pn_step (lru_heap l (last us1)) \<le> st)"
      unfolding n by (rule snoc.IH [of "u # ws"]) (use snoc.prems n in auto)
    then obtain us1 us2 where us: "us = us1 @ us2"
      "insert_cursor n (lru_heap l) st (last (None # map Some us)) = Some (last (None # map Some us1))"
      "\<forall>r \<in> set us2. pn_step (lru_heap l r) > st" "us1 \<noteq> [] \<longrightarrow> pn_step (lru_heap l (last us1)) \<le> st"
      by blast
    show ?thesis
    proof (rule exI [of _ us1], rule exI [of _ "us2 @ [u]"], intro conjI)
      show "us @ [u] = us1 @ us2 @ [u]" using us(1) by simp
      show "insert_cursor (Suc n) (lru_heap l) st (last (None # map Some (us @ [u]))) = Some (last (None # map Some us1))"
        using True pv us(2) by (simp only: lst) simp
      show "\<forall>r \<in> set (us2 @ [u]). pn_step (lru_heap l r) > st" using us(3) True by auto
    qed (rule us(4))
  next
    case False
    then show ?thesis
      by (intro exI [of _ "us @ [u]"] exI [of _ "[]"]) (simp add: lst del: last.simps, simp)
  qed
qed

lemma validate_loop_ok:
  assumes "chain l (us @ ws)" and "lru_rep l (us @ ws)" and "length ws \<le> n"
    and "sorted (map (\<lambda>r. pn_step (lru_heap l r)) (us @ ws))"
  shows "validate_loop (Suc n) l (length us) (last (None # map Some us)) (hd (map Some ws @ [None])) = Inr ((), l)"
  using assms
proof (induction ws arbitrary: us n)
  case Nil
  then show ?case
    using chain_ends [of l us] lru_rep_len [of l us]
    by (simp add: assert_that_def return_def del: last.simps)
next
  case (Cons w ws)
  obtain m where n: "n = Suc m" using Cons.prems by (cases n) auto
  have links: "pn_prev (lru_heap l w) = last (None # map Some us)"
    "pn_next (lru_heap l w) = hd (map Some ws @ [None])"
    using chain_split [OF Cons.prems(1)] by auto
  have look: "map_of (lru_nodes l) (pn_page (lru_heap l w)) = Some w"
    using lru_rep_lookup [OF Cons.prems(2)] by simp
  have ord: "case last (None # map Some us) of None \<Rightarrow> True | Some p \<Rightarrow> pn_step (lru_heap l p) \<le> pn_step (lru_heap l w)"
    using Cons.prems(4) by (cases us rule: rev_cases) (auto simp: sorted_append)
  have "validate_loop n l (length (us @ [w])) (last (None # map Some (us @ [w]))) (hd (map Some ws @ [None])) = Inr ((), l)"
    unfolding n by (rule Cons.IH) (use Cons.prems n in auto)
  moreover have "last (None # map Some (us @ [w])) = Some w" by simp
  ultimately show ?case
    using links look ord by (simp add: assert_that_def return_def del: last.simps)
qed

lemma insert_ordered_links:
  assumes ch: "chain l1 (us1 @ us2)" and r: "r \<notin> set (us1 @ us2)" "pn_prev (lru_heap l1 r) = None"
    and cur: "insert_cursor (Suc (lru_len l1)) (lru_heap l1) st (lru_tail l1) = Some (last (None # map Some us1))"
    and al: "lru_alloc p st (snd (lru_pop p l)) = (r, l1)"
  shows "runs_to (insert_ordered p st l) (\<lambda>_ l'. chain l' (us1 @ r # us2) \<and>
     lru_nodes l' = lru_nodes l1 \<and> lru_fresh l' = lru_fresh l1 \<and> entry l' = entry l1)"
proof -
  let ?a = "last (None # map Some us1)" and ?c = "hd (map Some us2 @ [None])"
  have nx: "next_of l1 ?a = Some ?c"
    using ch by (cases us2) (auto simp: linked_def dll_append simp del: last.simps)
  have ne: "?a \<noteq> Some r" "?c \<noteq> Some r"
    using r(1) by (cases us1 rule: rev_cases; cases us2; auto)+
  define l' where "l' = set_next_of ?a (Some r) (set_prev_of ?c (Some r)
                    (upd_node r (\<lambda>nd. nd\<lparr>pn_prev := ?a, pn_next := ?c\<rparr>) l1))"
  have "insert_ordered p st l = return () l'"
  proof (cases ?a)
    case None
    then have "lru_head l1 = ?c" using nx by (simp add: next_of_def del: last.simps)
    moreover have "upd_node r (\<lambda>nd. nd\<lparr>pn_prev := None, pn_next := ?c\<rparr>) l1 = upd_node r (pn_next_update (\<lambda>_. ?c)) l1"
      using r(2) by (cases "lru_heap l1 r") (simp add: upd_node_def)
    ultimately show ?thesis
      using None cur al by (simp add: insert_ordered_def Let_def l'_def set_next_of_def del: last.simps)
  next
    case (Some x)
    then have "pn_next (lru_heap l1 x) = ?c" using nx by (simp add: next_of_def del: last.simps)
    then show ?thesis
      using Some cur al by (simp add: insert_ordered_def Let_def l'_def del: last.simps)
  qed
  moreover have "linked (next_of l') (prev_of l') None (map Some us1 @ Some r # map Some us2) None"
    by (rule linked_link [of "next_of l1" "prev_of l1"])
      (use ch r(1) ne in \<open>auto simp: l'_def link_defs simp del: last.simps split: option.splits\<close>)
  ultimately show ?thesis
    by (auto simp: l'_def link_defs entry_def fun_eq_iff simp del: last.simps split: option.splits)
qed

lemma lru_rep_insert_ordered:
  assumes "lru_rep l rs"
  shows "runs_to (insert_ordered p st l) (\<lambda>_ l'. \<exists>rs' xs ys. lru_rep l' rs' \<and>
     filter (\<lambda>e. fst e \<noteq> p) (map (entry l) rs) = xs @ ys \<and> map (entry l') rs' = xs @ (p, st) # ys \<and>
     (\<forall>e \<in> set ys. snd e > st) \<and> (xs \<noteq> [] \<longrightarrow> snd (last xs) \<le> st))"
proof -
  define l0 where "l0 = snd (lru_pop p l)"
  obtain rs0 where rep0: "lru_rep l0 rs0"
    and en0: "map (entry l0) rs0 = filter (\<lambda>e. fst e \<noteq> p) (map (entry l) rs)"
    using lru_rep_pop [OF assms] unfolding l0_def by blast
  have "p \<notin> fst ` set (map (entry l0) rs0)"
    unfolding en0 by auto
  then have abs: "map_of (lru_nodes l0) p = None"
    using lru_rep_absent [OF rep0] by simp
  obtain r l1 where al: "lru_alloc p st l0 = (r, l1)" by (cases "lru_alloc p st l0")
  have r: "r = lru_fresh l0" "r \<notin> set rs0"
    and l1: "l1 = l0\<lparr>lru_heap := (lru_heap l0)(r := new_node p st),
                     lru_nodes := AList.update p r (lru_nodes l0), lru_fresh := Suc r\<rparr>"
    using rep0 al by (auto simp: lru_rep_def lru_alloc_def Let_def)
  have ch: "chain l1 rs0"
    by (rule chain_cong [of l0]) (use rep0 r l1 in \<open>auto simp: lru_rep_def\<close>)
  have "length rs0 \<le> lru_len l1"
    using lru_rep_len [OF rep0] abs by (simp add: lru_len_def l1 update_fresh map_of_eq_None_iff)
  moreover have "chain l1 (rs0 @ [])" using ch by simp
  ultimately obtain us1 us2 where us: "rs0 = us1 @ us2"
    "insert_cursor (Suc (lru_len l1)) (lru_heap l1) st (lru_tail l1) = Some (last (None # map Some us1))"
    "\<forall>r \<in> set us2. pn_step (lru_heap l1 r) > st" "us1 \<noteq> [] \<longrightarrow> pn_step (lru_heap l1 (last us1)) \<le> st"
    using insert_cursor_chain [of l1 rs0 "[]" "lru_len l1" st] chain_ends [OF ch] by metis
  have e1: "entry l1 x = entry l0 x" if "x \<in> set rs0" for x
    using that r by (auto simp: entry_def l1)
  have er: "entry l1 r = (p, st)" by (simp add: entry_def l1 new_node_def)
  have "lru_rep (lru_append r l1) (rs0 @ [r])"
    by (rule lru_rep_alloc_append(1) [OF rep0 abs al])
  then have nodes: "dict_wf (lru_nodes l1)"
    "set (lru_nodes l1) = (\<lambda>r. (fst (entry l1 r), r)) ` set (us1 @ r # us2)" "\<forall>x \<in> set (us1 @ r # us2). x < lru_fresh l1"
    by (auto simp: lru_rep_def us(1) entry_def)
  have "runs_to (insert_ordered p st l) (\<lambda>_ l'. chain l' (us1 @ r # us2) \<and>
     lru_nodes l' = lru_nodes l1 \<and> lru_fresh l' = lru_fresh l1 \<and> entry l' = entry l1)"
    by (rule insert_ordered_links) (use ch r us al in \<open>auto simp: l0_def l1 new_node_def\<close>)
  then show ?thesis
  proof (rule runs_to_mono)
    fix l' assume l': "chain l' (us1 @ r # us2) \<and> lru_nodes l' = lru_nodes l1 \<and>
      lru_fresh l' = lru_fresh l1 \<and> entry l' = entry l1"
    have "pn_page (lru_heap l' x) = fst (entry l1 x)" for x
      using l' by (metis entry_def fst_conv)
    then have "lru_rep l' (us1 @ r # us2)"
      using l' nodes by (simp add: lru_rep_def)
    moreover have "map (entry l') (us1 @ r # us2) = map (entry l0) us1 @ (p, st) # map (entry l0) us2"
      using l' e1 er us(1) by simp
    moreover have "\<forall>e \<in> set (map (entry l0) us2). snd e > st"
      "map (entry l0) us1 \<noteq> [] \<longrightarrow> snd (last (map (entry l0) us1)) \<le> st"
      using us e1 by (auto simp: entry_def last_map)
    ultimately show "\<exists>rs' xs ys. lru_rep l' rs' \<and> filter (\<lambda>e. fst e \<noteq> p) (map (entry l) rs) = xs @ ys \<and>
      map (entry l') rs' = xs @ (p, st) # ys \<and> (\<forall>e \<in> set ys. snd e > st) \<and> (xs \<noteq> [] \<longrightarrow> snd (last xs) \<le> st)"
      using en0 us(1) by (metis map_append)
  qed
qed

section \<open>The interface the pool manager uses\<close>

definition lru_items :: "prefix_lru \<Rightarrow> (nat \<times> int) list" where
  "lru_items l = (case coldest_first l of None \<Rightarrow> [] | Some xs \<Rightarrow> xs)"

definition lru_wf :: "prefix_lru \<Rightarrow> bool" where
  "lru_wf l \<longleftrightarrow> (\<exists>rs. lru_rep l rs)"

text \<open>Recency order: steps never decrease along the list and none lies in the future.\<close>

definition recency_ordered :: "int \<Rightarrow> (nat \<times> int) list \<Rightarrow> bool" where
  "recency_ordered now xs \<longleftrightarrow> sorted (map snd xs) \<and> (\<forall>e \<in> set xs. snd e \<le> now)"

lemma lru_rep_items: "lru_rep l rs \<Longrightarrow> lru_items l = map (entry l) rs"
  by (simp add: lru_items_def lru_rep_walk)

lemma lru_wf_items: "lru_wf l \<Longrightarrow> \<exists>rs. lru_rep l rs \<and> lru_items l = map (entry l) rs"
  by (auto simp: lru_wf_def dest: lru_rep_items)

locale recency_list =
  fixes wf :: "'l \<Rightarrow> bool"
    and items :: "'l \<Rightarrow> (nat \<times> int) list"
    and walk :: "'l \<Rightarrow> (nat \<times> int) list option"
    and len :: "'l \<Rightarrow> nat"
    and get :: "'l \<Rightarrow> nat \<Rightarrow> int option"
    and touch :: "nat \<Rightarrow> int \<Rightarrow> 'l \<Rightarrow> 'l"
    and pop :: "nat \<Rightarrow> 'l \<Rightarrow> int option \<times> 'l"
    and rename :: "nat \<Rightarrow> nat \<Rightarrow> int \<Rightarrow> 'l \<Rightarrow> int \<times> 'l"
  assumes pages_distinct: "wf l \<Longrightarrow> distinct (map fst (items l))"
    and walk_items: "wf l \<Longrightarrow> walk l = Some (items l)"
    and len_items: "wf l \<Longrightarrow> len l = length (items l)"
    and get_items: "wf l \<Longrightarrow> get l p = map_of (items l) p"
    and touch_items: "wf l \<Longrightarrow> wf (touch p st l) \<and>
          items (touch p st l) = filter (\<lambda>e. fst e \<noteq> p) (items l) @ [(p, st)]"
    and pop_items: "wf l \<Longrightarrow> wf (snd (pop p l)) \<and>
          items (snd (pop p l)) = filter (\<lambda>e. fst e \<noteq> p) (items l)"
    and rename_items: "wf l \<Longrightarrow> src \<noteq> dst \<Longrightarrow> src \<in> fst ` set (items l) \<Longrightarrow>
          wf (snd (rename src dst fb l)) \<and>
          items (snd (rename src dst fb l)) =
            map (\<lambda>(q, t). (if q = src then dst else q, t)) (filter (\<lambda>e. fst e \<noteq> dst) (items l))"
begin

lemma touch_pages: "wf l \<Longrightarrow> fst ` set (items (touch p st l)) = insert p (fst ` set (items l))"
  by (auto simp: touch_items)

lemma pop_pages: "wf l \<Longrightarrow> fst ` set (items (snd (pop p l))) = fst ` set (items l) - {p}"
  by (auto simp: pop_items)

lemma rename_pages:
  assumes "wf l" "src \<noteq> dst" "src \<in> fst ` set (items l)"
  shows "fst ` set (items (snd (rename src dst fb l))) = insert dst (fst ` set (items l) - {src})"
proof -
  let ?g = "\<lambda>q. if q = src then dst else q"
  from rekey_keys [of ?g "filter (\<lambda>e. fst e \<noteq> dst) (items l)"]
  have "fst ` set (items (snd (rename src dst fb l))) = ?g ` fst ` set (filter (\<lambda>e. fst e \<noteq> dst) (items l))"
    by (simp only: rename_items [OF assms, of fb, THEN conjunct2])
  moreover have "fst ` set (filter (\<lambda>e. fst e \<noteq> dst) (items l)) = fst ` set (items l) - {dst}"
    by auto
  ultimately have "fst ` set (items (snd (rename src dst fb l))) = ?g ` (fst ` set (items l) - {dst})"
    by (simp only:)
  with assms(2,3) show ?thesis by (auto simp: image_iff)
qed

lemma pop_absent: "wf l \<Longrightarrow> p \<notin> fst ` set (items l) \<Longrightarrow> items (snd (pop p l)) = items l"
  by (auto simp: pop_items intro: filter_True)

text \<open>Stamping with the current step, removing and renaming keep the recency order.\<close>

lemma touch_ordered:
  "wf l \<Longrightarrow> recency_ordered now (items l) \<Longrightarrow> recency_ordered now (items (touch p now l))"
  by (auto simp: recency_ordered_def touch_items sorted_append sorted_filter)

lemma pop_ordered:
  "wf l \<Longrightarrow> recency_ordered now (items l) \<Longrightarrow> recency_ordered now (items (snd (pop p l)))"
  by (auto simp: recency_ordered_def pop_items sorted_filter)

lemma rename_steps:
  assumes "wf l" "src \<noteq> dst" "src \<in> fst ` set (items l)"
  shows "map snd (items (snd (rename src dst fb l))) = map snd (filter (\<lambda>e. fst e \<noteq> dst) (items l))"
  using assms by (simp add: rename_items case_prod_beta comp_def)

lemma rename_ordered:
  assumes "wf l" "src \<noteq> dst" "src \<in> fst ` set (items l)" and o: "recency_ordered now (items l)"
  shows "recency_ordered now (items (snd (rename src dst fb l)))"
proof -
  have "\<forall>t \<in> set (map snd (items (snd (rename src dst fb l)))). t \<le> now"
    unfolding rename_steps [OF assms(1-3)] using o by (auto simp: recency_ordered_def)
  moreover have "sorted (map snd (items (snd (rename src dst fb l))))"
    unfolding rename_steps [OF assms(1-3)] using o by (auto simp: recency_ordered_def sorted_filter)
  ultimately show ?thesis by (simp add: recency_ordered_def)
qed

text \<open>The head of an ordered list is a coldest page.\<close>

lemma head_coldest:
  "recency_ordered now (items l) \<Longrightarrow> items l = (p, st) # xs \<Longrightarrow> e \<in> set (items l) \<Longrightarrow> st \<le> snd e"
  by (auto simp: recency_ordered_def)

end

interpretation plru: recency_list lru_wf lru_items coldest_first lru_len lru_get lru_touch lru_pop lru_rename
proof (unfold_locales, goal_cases)
  case (1 l)
  then obtain rs where "lru_rep l rs" "lru_items l = map (entry l) rs" using lru_wf_items by blast
  then show ?case using lru_rep_pages_distinct by simp
next
  case (2 l)
  then obtain rs where "lru_rep l rs" "lru_items l = map (entry l) rs" using lru_wf_items by blast
  then show ?case by (simp add: lru_rep_walk)
next
  case (3 l)
  then obtain rs where "lru_rep l rs" "lru_items l = map (entry l) rs" using lru_wf_items by blast
  then show ?case by (simp add: lru_rep_len)
next
  case (4 l p)
  then obtain rs where rs: "lru_rep l rs" "lru_items l = map (entry l) rs" using lru_wf_items by blast
  show ?case
  proof (cases "map_of (lru_nodes l) p")
    case None
    then have "p \<notin> fst ` set (lru_items l)"
      using lru_rep_absent [OF rs(1)] rs(2) by simp
    with None show ?thesis by (simp add: lru_get_def map_of_eq_None_iff [THEN iffD2])
  next
    case (Some r)
    then have "(p, pn_step (lru_heap l r)) \<in> set (lru_items l)"
      using lru_rep_lookup [OF rs(1)] rs(2) by (auto simp: entry_def)
    moreover have "distinct (map fst (lru_items l))"
      using lru_rep_pages_distinct [OF rs(1)] rs(2) by simp
    ultimately show ?thesis using Some by (simp add: lru_get_def)
  qed
next
  case (5 l p st)
  then show ?case
    using lru_wf_items [of l] lru_rep_touch [of l _ p st] by (metis lru_rep_items lru_wf_def)
next
  case (6 l p)
  then show ?case
    using lru_wf_items [of l] lru_rep_pop [of l _ p] by (metis lru_rep_items lru_wf_def)
next
  case (7 l src dst fb)
  then obtain rs where rs: "lru_rep l rs" "lru_items l = map (entry l) rs" using lru_wf_items by blast
  then have "src \<in> fst ` entry l ` set rs" using 7 by simp
  from lru_rep_rename [OF rs(1) 7(2) this, of fb] rs(2) show ?case
    by (auto simp: lru_rep_items lru_wf_def)
qed

lemma lru_wf_empty [simp]: "lru_wf lru_empty" "lru_items lru_empty = []"
  using lru_rep_empty lru_rep_items [OF lru_rep_empty] by (auto simp: lru_wf_def)

lemma lru_oldest_items: "lru_wf l \<Longrightarrow> lru_oldest l = (case lru_items l of [] \<Rightarrow> None | e # _ \<Rightarrow> Some e)"
  using lru_wf_items [of l] chain_ends [of l]
  by (force simp: lru_oldest_def lru_rep_def entry_def split: list.splits)

lemma lru_validate_ordered:
  assumes "lru_wf l" and "recency_ordered now (lru_items l)"
  shows "lru_validate l = Inr ((), l)"
proof -
  obtain rs where rs: "lru_rep l rs" "lru_items l = map (entry l) rs"
    using lru_wf_items [OF assms(1)] by blast
  have "map snd (lru_items l) = map (\<lambda>r. pn_step (lru_heap l r)) rs"
    by (simp add: rs(2) entry_def)
  then have "sorted (map (\<lambda>r. pn_step (lru_heap l r)) rs)"
    using assms(2) by (simp only: recency_ordered_def)
  then show ?thesis
    using validate_loop_ok [of l "[]" rs "length rs"] rs lru_rep_len [OF rs(1)] chain_ends [of l rs]
    by (simp add: lru_validate_def lru_rep_def)
qed

section \<open>Properties\<close>

lemma lru_rename_gone:
  assumes "lru_wf l" "p = q \<or> p \<notin> fst ` set (lru_items l)"
  shows "lru_rename p q fb l = (fb, lru_touch q fb (snd (lru_pop q l)))"
proof -
  let ?l = "snd (lru_pop q l)"
  have w: "lru_wf ?l" "lru_items ?l = filter (\<lambda>e. fst e \<noteq> q) (lru_items l)" using plru.pop_items [OF assms(1)] by auto
  have "p \<notin> fst ` set (lru_items ?l)" using assms(2) w(2) by auto
  then have "lru_get ?l p = None" using plru.get_items [OF w(1), of p] by (simp add: map_of_eq_None_iff)
  then have "map_of (lru_nodes ?l) p = None" by (simp add: lru_get_def)
  then show ?thesis by (simp add: lru_rename_def Let_def)
qed

text \<open>C25. The linked recency list refines a list of (page, step) pairs: touching moves a page to the warm end, popping
  removes it, renaming drops the destination and gives it the position and step of the source, or the warm end if the source is
  absent, and every one of them keeps the order that \<open>validate\<close> checks.\<close>

theorem recency_list_refines_list:
  assumes "lru_wf l" "recency_ordered now (lru_items l)"
  shows "lru_items (lru_touch p now l) = filter (\<lambda>e. fst e \<noteq> p) (lru_items l) @ [(p, now)] \<and>
     lru_items (snd (lru_pop p l)) = filter (\<lambda>e. fst e \<noteq> p) (lru_items l) \<and>
     lru_items (snd (lru_rename p q now l)) =
       (if p \<noteq> q \<and> p \<in> fst ` set (lru_items l)
        then map (\<lambda>(r, t). (if r = p then q else r, t)) (filter (\<lambda>e. fst e \<noteq> q) (lru_items l))
        else filter (\<lambda>e. fst e \<noteq> q) (lru_items l) @ [(q, now)]) \<and>
     lru_validate (snd (lru_rename p q now l)) = Inr ((), snd (lru_rename p q now l)) \<and>
     lru_validate (lru_touch p now l) = Inr ((), lru_touch p now l) \<and>
     lru_validate (snd (lru_pop p l)) = Inr ((), snd (lru_pop p l))"
proof (intro conjI)
  show "lru_items (lru_touch p now l) = filter (\<lambda>e. fst e \<noteq> p) (lru_items l) @ [(p, now)]"
    "lru_items (snd (lru_pop p l)) = filter (\<lambda>e. fst e \<noteq> p) (lru_items l)"
    using plru.touch_items [OF assms(1)] plru.pop_items [OF assms(1)] by auto
  show "lru_validate (lru_touch p now l) = Inr ((), lru_touch p now l)"
    using plru.touch_items [OF assms(1)] plru.touch_ordered [OF assms] by (intro lru_validate_ordered) auto
  show "lru_validate (snd (lru_pop p l)) = Inr ((), snd (lru_pop p l))"
    using plru.pop_items [OF assms(1)] plru.pop_ordered [OF assms] by (intro lru_validate_ordered) auto
  let ?r = "snd (lru_rename p q now l)"
  have "lru_items ?r = (if p \<noteq> q \<and> p \<in> fst ` set (lru_items l)
        then map (\<lambda>(r, t). (if r = p then q else r, t)) (filter (\<lambda>e. fst e \<noteq> q) (lru_items l))
        else filter (\<lambda>e. fst e \<noteq> q) (lru_items l) @ [(q, now)]) \<and> lru_validate ?r = Inr ((), ?r)"
  proof (cases "p \<noteq> q \<and> p \<in> fst ` set (lru_items l)")
    case True
    then show ?thesis
      using plru.rename_items [OF assms(1), of p q now] plru.rename_ordered [OF assms(1) _ _ assms(2), of p q now]
      by (auto intro!: lru_validate_ordered)
  next
    case False
    let ?l = "snd (lru_pop q l)"
    have w: "lru_wf ?l" "lru_items ?l = filter (\<lambda>e. fst e \<noteq> q) (lru_items l)" "recency_ordered now (lru_items ?l)"
      using plru.pop_items [OF assms(1)] plru.pop_ordered [OF assms] by auto
    have "?r = lru_touch q now ?l" using lru_rename_gone [OF assms(1), of p q now] False by simp
    moreover have "lru_items (lru_touch q now ?l) = filter (\<lambda>e. fst e \<noteq> q) (lru_items l) @ [(q, now)]"
      using plru.touch_items [OF w(1), of q now] w(2) by simp
    moreover have "lru_validate (lru_touch q now ?l) = Inr ((), lru_touch q now ?l)"
      using plru.touch_items [OF w(1)] plru.touch_ordered [OF w(1,3)] by (intro lru_validate_ordered) auto
    ultimately show ?thesis using False by simp
  qed
  then show "lru_items ?r = (if p \<noteq> q \<and> p \<in> fst ` set (lru_items l)
        then map (\<lambda>(r, t). (if r = p then q else r, t)) (filter (\<lambda>e. fst e \<noteq> q) (lru_items l))
        else filter (\<lambda>e. fst e \<noteq> q) (lru_items l) @ [(q, now)])" "lru_validate ?r = Inr ((), ?r)" by blast+
qed

lemma two_pages:
  "lru_wf (lru_touch 7 1 (lru_touch 5 0 lru_empty))" "lru_items (lru_touch 7 1 (lru_touch 5 0 lru_empty)) = [(5, 0), (7, 1)]"
  using plru.touch_items [OF lru_wf_empty(1), of 5 0] plru.touch_items [of "lru_touch 5 0 lru_empty" 7 1] by simp_all

theorem recency_list_refines_list_witness:
  "lru_items (lru_touch 5 1 (lru_touch 7 1 (lru_touch 5 0 lru_empty))) = [(7, 1), (5, 1)] \<and>
   lru_items (snd (lru_rename 5 9 1 (lru_touch 7 1 (lru_touch 5 0 lru_empty)))) = [(9, 0), (7, 1)]"
  using recency_list_refines_list [of "lru_touch 7 1 (lru_touch 5 0 lru_empty)" 1 5 9] two_pages
  by (simp add: recency_ordered_def)

text \<open>\<open>insert_ordered\<close> puts a page at its step: everything after it is younger, its predecessor is not, so an
  ordered list stays ordered; the walk for the position ends.\<close>

theorem insert_ordered_keeps_order:
  assumes "lru_wf l" "recency_ordered now (lru_items l)" "st \<le> now"
  shows "runs_to (insert_ordered p st l) (\<lambda>_ l'. lru_wf l' \<and> recency_ordered now (lru_items l') \<and>
     set (lru_items l') = insert (p, st) {e \<in> set (lru_items l). fst e \<noteq> p})"
proof -
  obtain rs where rs: "lru_rep l rs" "lru_items l = map (entry l) rs" using lru_wf_items [OF assms(1)] by blast
  show ?thesis
  proof (rule runs_to_mono [OF lru_rep_insert_ordered [OF rs(1)]])
    fix u l' assume "\<exists>rs' xs ys. lru_rep l' rs' \<and> filter (\<lambda>e. fst e \<noteq> p) (map (entry l) rs) = xs @ ys \<and>
      map (entry l') rs' = xs @ (p, st) # ys \<and> (\<forall>e \<in> set ys. snd e > st) \<and> (xs \<noteq> [] \<longrightarrow> snd (last xs) \<le> st)"
    then obtain rs' xs ys where r: "lru_rep l' rs'" "filter (\<lambda>e. fst e \<noteq> p) (lru_items l) = xs @ ys"
      "lru_items l' = xs @ (p, st) # ys" "\<forall>e \<in> set ys. snd e > st" "xs \<noteq> [] \<longrightarrow> snd (last xs) \<le> st"
      unfolding rs(2) by (metis lru_rep_items)
    have "sorted (map snd (filter (\<lambda>e. fst e \<noteq> p) (lru_items l)))"
      using assms(2) by (auto simp: recency_ordered_def sorted_filter)
    then have s: "sorted (map snd xs)" "sorted (map snd ys)" unfolding r(2) by (auto simp: sorted_append)
    have below: "\<forall>e \<in> set xs. snd e \<le> st"
      using s(1) r(5) by (cases xs rule: rev_cases) (auto simp: sorted_append)
    have across: "\<forall>x \<in> set xs. \<forall>y \<in> set ys. snd x \<le> snd y" using below r(4) by (meson le_less_trans less_imp_le)
    have "\<forall>e \<in> set (xs @ ys). snd e \<le> now" using assms(2) unfolding r(2) [symmetric] by (auto simp: recency_ordered_def)
    then have "recency_ordered now (lru_items l')"
      using s r(4) assms(3) below across unfolding recency_ordered_def r(3)
      by (simp add: sorted_append) (auto intro: less_imp_le)
    moreover have "set (xs @ ys) = {e \<in> set (lru_items l). fst e \<noteq> p}" unfolding r(2) [symmetric] by auto
    ultimately show "lru_wf l' \<and> recency_ordered now (lru_items l') \<and>
       set (lru_items l') = insert (p, st) {e \<in> set (lru_items l). fst e \<noteq> p}"
      using r(1,3) by (auto simp: lru_wf_def)
  qed
qed

theorem insert_ordered_keeps_order_witness:
  "runs_to (insert_ordered 3 0 (lru_touch 7 1 (lru_touch 5 0 lru_empty))) (\<lambda>_ l'. lru_wf l' \<and> recency_ordered 1 (lru_items l') \<and>
     set (lru_items l') = {(3, 0), (5, 0), (7, 1)})"
  using insert_ordered_keeps_order [of "lru_touch 7 1 (lru_touch 5 0 lru_empty)" 1 0 3] two_pages
  by (simp add: recency_ordered_def) (erule runs_to_mono, auto)

end
