(* ===== verification/Unified_Layer.thy ===== *)
theory Unified_Layer
  imports Pool_Prelude
begin

text \<open>
  \<open>UnifiedPool\<close> of \<open>vllm/model_executor/layers/fused_moe/unified_pool.py\<close>: one MoE layer's
  directory of resident experts. A layer maps experts to super-blocks and back, keeps its
  experts in recency order, pins super-blocks for the running forward pass and mirrors the
  mapping in the table that remaps \<open>topk_ids\<close> for the kernel. The byte buffer of the layer is
  the KV buffer of the same layer index and belongs to the manager.

  The locale \<open>expert_directory\<close> states what the manager relies on.
\<close>

section \<open>State and construction\<close>

record unified_layer =
  layer_idx :: nat
  num_experts :: nat
  cpu_w13_bytes :: "byte list list"
  cpu_w2_bytes :: "byte list list"
  layer_page_size_bytes :: nat
  expert_slot_bytes :: nat
  w13_bytes :: nat
  w2_bytes :: nat
  layer_pages_per_super_block :: nat
  layer_num_gpu_blocks :: nat
  layer_num_super_blocks :: nat
  super_block_id_at :: "int list"
  expert_at_super_block :: "(nat, nat) dict"
  super_block_at_expert :: "(nat, nat) dict"
  expert_lru :: "(nat, int) dict"
  pinned_super_blocks :: "nat list"
  ever_activated :: "nat list"
  hits :: nat
  misses :: nat
  forward_count :: nat

definition UNLOADED :: int where
  "UNLOADED = - 1"

text \<open>
  \<open>__init__\<close>: \<open>buf\<close> is the number of bytes of the pool buffer, \<open>elem\<close> the element size of the
  weights; \<open>w13\<close> and \<open>w2\<close> are the byte rows of the CPU weights.
\<close>

definition unified_layer_init ::
  "nat \<Rightarrow> nat \<Rightarrow> byte list list \<Rightarrow> byte list list \<Rightarrow> nat \<Rightarrow> nat \<Rightarrow> nat \<Rightarrow> nat \<Rightarrow> nat \<Rightarrow> nat \<Rightarrow> error + unified_layer" where
  "unified_layer_init idx ne w13 w2 buf page slot n13 n2 elem =
     (if slot \<noteq> n13 + n2 then Inl (AssertionError ''expert_slot_bytes == w13_bytes + w2_bytes'')
      else if page = 0 then Inl ZeroDivisionError
      else if slot mod page \<noteq> 0 then Inl (AssertionError ''expert_slot_bytes % page_size_bytes == 0'')
      else if page mod elem \<noteq> 0 then Inl (AssertionError ''page_size_bytes % elem_size == 0'')
      else if slot mod elem \<noteq> 0 then Inl (AssertionError ''expert_slot_bytes % elem_size == 0'')
      else if n13 mod elem \<noteq> 0 then Inl (AssertionError ''w13_bytes % elem_size == 0'')
      else if n2 mod elem \<noteq> 0 then Inl (AssertionError ''w2_bytes % elem_size == 0'')
      else (let f = slot div page; blocks = (buf div elem) div (page div elem)
            in if f = 0 then Inl ZeroDivisionError
               else Inr \<lparr>layer_idx = idx, num_experts = ne, cpu_w13_bytes = w13, cpu_w2_bytes = w2,
                         layer_page_size_bytes = page, expert_slot_bytes = slot, w13_bytes = n13, w2_bytes = n2,
                         layer_pages_per_super_block = f, layer_num_gpu_blocks = blocks,
                         layer_num_super_blocks = blocks div f,
                         super_block_id_at = replicate ne UNLOADED,
                         expert_at_super_block = [], super_block_at_expert = [], expert_lru = [],
                         pinned_super_blocks = [], ever_activated = [], hits = 0, misses = 0, forward_count = 0\<rparr>))"

text \<open>Row \<open>s\<close> of the strided views the kernel reads, as bytes of the pool buffer.\<close>

definition pool_w13_row :: "unified_layer \<Rightarrow> byte list \<Rightarrow> nat \<Rightarrow> byte list" where
  "pool_w13_row l buf s = read_at (s * expert_slot_bytes l) (w13_bytes l) buf"

definition pool_w2_row :: "unified_layer \<Rightarrow> byte list \<Rightarrow> nat \<Rightarrow> byte list" where
  "pool_w2_row l buf s = read_at (s * expert_slot_bytes l + w13_bytes l) (w2_bytes l) buf"

section \<open>Operations\<close>

definition has_expert :: "unified_layer \<Rightarrow> nat \<Rightarrow> bool" where
  "has_expert l e \<longleftrightarrow> map_of (super_block_at_expert l) e \<noteq> None"

definition super_block_of_expert :: "unified_layer \<Rightarrow> nat \<Rightarrow> nat option" where
  "super_block_of_expert l e = map_of (super_block_at_expert l) e"

definition expert_of_super_block :: "unified_layer \<Rightarrow> nat \<Rightarrow> nat option" where
  "expert_of_super_block l s = map_of (expert_at_super_block l) s"

text \<open>\<open>self.super_block_id_at[e] = v\<close>.\<close>

definition set_row :: "nat \<Rightarrow> int \<Rightarrow> unified_layer \<Rightarrow> (unified_layer, unit) res" where
  "set_row e v l =
     (if e < length (super_block_id_at l) then return () (l\<lparr>super_block_id_at := (super_block_id_at l)[e := v]\<rparr>)
      else raise IndexError l)"

definition assign :: "nat \<Rightarrow> nat \<Rightarrow> int \<Rightarrow> unified_layer \<Rightarrow> (unified_layer, unit) res" where
  "assign s e st l =
     rbind (assert_that (s \<notin> fst ` set (expert_at_super_block l)) ''super-block already mapped'' l) (\<lambda>_ l.
     rbind (assert_that (e \<notin> fst ` set (super_block_at_expert l)) ''expert already mapped'' l) (\<lambda>_ l.
       set_row e (int s)
         (l\<lparr>expert_at_super_block := AList.update s e (expert_at_super_block l),
            super_block_at_expert := AList.update e s (super_block_at_expert l),
            expert_lru := AList.update e st (expert_lru l)\<rparr>)))"

definition drop_expert :: "nat \<Rightarrow> unified_layer \<Rightarrow> (unified_layer, nat option) res" where
  "drop_expert s l =
     (case map_of (expert_at_super_block l) s of
        None \<Rightarrow> return None l
      | Some e \<Rightarrow>
          (let l1 = l\<lparr>expert_at_super_block := AList.delete s (expert_at_super_block l)\<rparr>
           in if e \<notin> fst ` set (super_block_at_expert l1) then raise KeyError l1
              else rbind (set_row e UNLOADED
                     (l1\<lparr>super_block_at_expert := AList.delete e (super_block_at_expert l1),
                         expert_lru := AList.delete e (expert_lru l1)\<rparr>)) (\<lambda>_. return (Some e))))"

definition bump_expert :: "nat \<Rightarrow> int \<Rightarrow> unified_layer \<Rightarrow> unified_layer" where
  "bump_expert e st l =
     (if e \<in> fst ` set (expert_lru l)
      then l\<lparr>expert_lru := AList.delete e (AList.update e st (expert_lru l)) @ [(e, st)]\<rparr> else l)"

definition pin :: "nat \<Rightarrow> unified_layer \<Rightarrow> unified_layer" where
  "pin s l = l\<lparr>pinned_super_blocks := set_add s (pinned_super_blocks l)\<rparr>"

section \<open>The invariant\<close>

text \<open>
  \<open>now\<close> is the manager's step: the directory is a bijection between resident experts and
  super-blocks, its recency list has exactly the resident experts in the order of their
  stamps, and the remap table has the super-block of every resident expert and the
  sentinel everywhere else.
\<close>

definition layer_ok :: "int \<Rightarrow> unified_layer \<Rightarrow> bool" where
  "layer_ok now l \<longleftrightarrow>
     dict_wf (expert_at_super_block l) \<and> dict_wf (super_block_at_expert l) \<and> dict_wf (expert_lru l) \<and>
     (\<forall>s e. map_of (expert_at_super_block l) s = Some e \<longleftrightarrow> map_of (super_block_at_expert l) e = Some s) \<and>
     fst ` set (expert_lru l) = fst ` set (super_block_at_expert l) \<and>
     sorted (map snd (expert_lru l)) \<and> (\<forall>st \<in> snd ` set (expert_lru l). st \<le> now) \<and>
     length (super_block_id_at l) = num_experts l \<and> (\<forall>e \<in> fst ` set (super_block_at_expert l). e < num_experts l) \<and>
     (\<forall>e < num_experts l. super_block_id_at l ! e =
        (case map_of (super_block_at_expert l) e of Some s \<Rightarrow> int s | None \<Rightarrow> UNLOADED))"

text \<open>Only the directory of a layer changes.\<close>

definition clear_directory :: "unified_layer \<Rightarrow> unified_layer" where
  "clear_directory l = l\<lparr>super_block_id_at := [], expert_at_super_block := [], super_block_at_expert := [], expert_lru := []\<rparr>"

definition same_layer :: "unified_layer \<Rightarrow> unified_layer \<Rightarrow> bool" where
  "same_layer l l' \<longleftrightarrow> clear_directory l' = clear_directory l"

lemma same_layer_fields:
  assumes "same_layer l l'"
  shows "layer_idx l' = layer_idx l" "num_experts l' = num_experts l" "cpu_w13_bytes l' = cpu_w13_bytes l"
    "cpu_w2_bytes l' = cpu_w2_bytes l" "expert_slot_bytes l' = expert_slot_bytes l" "w13_bytes l' = w13_bytes l"
    "w2_bytes l' = w2_bytes l" "pinned_super_blocks l' = pinned_super_blocks l"
    "layer_pages_per_super_block l' = layer_pages_per_super_block l"
    "layer_num_super_blocks l' = layer_num_super_blocks l" "hits l' = hits l" "misses l' = misses l"
  using assms by (cases l; cases l'; simp add: same_layer_def clear_directory_def)+

lemma same_layer_refl [simp]: "same_layer l l"
  by (simp add: same_layer_def)

lemma same_layer_trans: "same_layer l l' \<Longrightarrow> same_layer l' l'' \<Longrightarrow> same_layer l l''"
  by (simp add: same_layer_def)

locale expert_directory =
  fixes ok :: "int \<Rightarrow> 'l \<Rightarrow> bool"
    and frame :: "'l \<Rightarrow> 'l \<Rightarrow> bool"
    and experts :: "'l \<Rightarrow> nat"
    and at :: "'l \<Rightarrow> nat \<rightharpoonup> nat"
    and home :: "'l \<Rightarrow> nat \<rightharpoonup> nat"
    and row :: "'l \<Rightarrow> nat \<Rightarrow> int"
    and stamps :: "'l \<Rightarrow> (nat \<times> int) list"
    and put :: "nat \<Rightarrow> nat \<Rightarrow> int \<Rightarrow> 'l \<Rightarrow> ('l, unit) res"
    and del :: "nat \<Rightarrow> 'l \<Rightarrow> ('l, nat option) res"
    and bump :: "nat \<Rightarrow> int \<Rightarrow> 'l \<Rightarrow> 'l"
  assumes inverse: "ok now l \<Longrightarrow> at l s = Some e \<longleftrightarrow> home l e = Some s"
    and bounded: "ok now l \<Longrightarrow> home l e = Some s \<Longrightarrow> e < experts l"
    and row_home: "ok now l \<Longrightarrow> e < experts l \<Longrightarrow> row l e = (case home l e of Some s \<Rightarrow> int s | None \<Rightarrow> UNLOADED)"
    and stamped: "ok now l \<Longrightarrow> fst ` set (stamps l) = dom (home l)"
    and stamps_sorted: "ok now l \<Longrightarrow> sorted (map snd (stamps l))"
    and stamps_past: "ok now l \<Longrightarrow> (e, st) \<in> set (stamps l) \<Longrightarrow> st \<le> now"
    and later: "ok now l \<Longrightarrow> now \<le> now' \<Longrightarrow> ok now' l"
    and put_new: "ok now l \<Longrightarrow> at l s = None \<Longrightarrow> home l e = None \<Longrightarrow> e < experts l \<Longrightarrow>
       runs_to (put s e now l) (\<lambda>_ l'. ok now l' \<and> frame l l' \<and> at l' = (at l)(s \<mapsto> e) \<and> home l' = (home l)(e \<mapsto> s))"
    and del_absent: "at l s = None \<Longrightarrow> del s l = Inr (None, l)"
    and del_present: "ok now l \<Longrightarrow> at l s = Some e \<Longrightarrow>
       runs_to (del s l) (\<lambda>r l'. r = Some e \<and> ok now l' \<and> frame l l' \<and> at l' = (at l)(s := None) \<and> home l' = (home l)(e := None))"
    and bump_same: "ok now l \<Longrightarrow> ok now (bump e now l) \<and> frame l (bump e now l) \<and> at (bump e now l) = at l \<and> home (bump e now l) = home l"
begin

text \<open>The kernel's table never maps a resident expert to the sentinel, nor an absent one to a row.\<close>

lemma row_resident: "ok now l \<Longrightarrow> e < experts l \<Longrightarrow> row l e \<noteq> UNLOADED \<longleftrightarrow> home l e \<noteq> None"
  by (auto simp: row_home UNLOADED_def split: option.splits)

lemma row_value: "ok now l \<Longrightarrow> at l s = Some e \<Longrightarrow> row l e = int s"
  using inverse [of now l s e] bounded [of now l e s] row_home [of now l e] by simp

text \<open>Two resident experts never share a super-block.\<close>

lemma home_inj: "ok now l \<Longrightarrow> home l e = Some s \<Longrightarrow> home l e' = Some s \<Longrightarrow> e = e'"
  using inverse [of now l s e] inverse [of now l s e'] by simp

text \<open>Loading an expert and dropping it again restores the directory.\<close>

lemma put_del:
  assumes "ok now l" "at l s = None" "home l e = None" "e < experts l"
  shows "runs_to (rbind (put s e now l) (\<lambda>_. del s)) (\<lambda>r l'. r = Some e \<and> ok now l' \<and> at l' = at l \<and> home l' = home l)"
  unfolding post_rbind
proof (rule runs_to_mono [OF put_new [OF assms]])
  fix u l1 assume l1: "ok now l1 \<and> frame l l1 \<and> at l1 = (at l)(s \<mapsto> e) \<and> home l1 = (home l)(e \<mapsto> s)"
  then have "at l1 s = Some e" by simp
  from del_present [of now, OF _ this] l1 assms(2,3)
  show "runs_to (del s l1) (\<lambda>r l'. r = Some e \<and> ok now l' \<and> at l' = at l \<and> home l' = home l)"
    by (auto simp: fun_upd_idem elim!: runs_to_mono)
qed

text \<open>The head of the recency list is the coldest resident expert.\<close>

lemma first_stamp_coldest:
  assumes "ok now l" "stamps l = xs @ (e, st) # ys" "\<forall>x \<in> set xs. \<not> P (fst x)"
    and "(e', st') \<in> set (stamps l)" "P e'"
  shows "st \<le> st'"
proof -
  have "(e', st') \<in> set ((e, st) # ys)" using assms by auto
  with stamps_sorted [OF assms(1)] assms(2) show ?thesis by (auto simp: sorted_append)
qed

end

lemma layer_ok_put:
  assumes ok: "layer_ok now l" and s: "map_of (expert_at_super_block l) s = None"
    and e: "map_of (super_block_at_expert l) e = None" "e < num_experts l"
  shows "runs_to (assign s e now l) (\<lambda>_ l'. layer_ok now l' \<and> same_layer l l' \<and>
     map_of (expert_at_super_block l') = (map_of (expert_at_super_block l))(s \<mapsto> e) \<and>
     map_of (super_block_at_expert l') = (map_of (super_block_at_expert l))(e \<mapsto> s))"
proof -
  let ?l = "l\<lparr>expert_at_super_block := AList.update s e (expert_at_super_block l),
     super_block_at_expert := AList.update e s (super_block_at_expert l),
     expert_lru := AList.update e now (expert_lru l), super_block_id_at := (super_block_id_at l)[e := int s]\<rparr>"
  have fresh: "s \<notin> fst ` set (expert_at_super_block l)" "e \<notin> fst ` set (super_block_at_expert l)"
    using s e by (simp_all add: map_of_eq_None_iff)
  have lru: "e \<notin> fst ` set (expert_lru l)" using ok fresh(2) by (auto simp: layer_ok_def)
  have run: "assign s e now l = Inr ((), ?l)"
    using ok fresh e(2) by (simp add: assign_def assert_that_def return_def set_row_def layer_ok_def)
  have inv: "map_of (expert_at_super_block l) t = Some d \<longleftrightarrow> map_of (super_block_at_expert l) d = Some t" for t d
    using ok by (simp add: layer_ok_def)
  have m: "map_of (AList.update s e (expert_at_super_block l)) t = Some d \<longleftrightarrow>
      map_of (AList.update e s (super_block_at_expert l)) d = Some t" for t d
    using inv [of t d] inv [of t e] inv [of s d] s e by (auto simp del: map_of_eq_Some_iff)
  have lru': "sorted (map snd (AList.update e now (expert_lru l)))" "dict_wf (AList.update e now (expert_lru l))"
    "\<forall>st \<in> snd ` set (AList.update e now (expert_lru l)). st \<le> now"
    using ok lru by (auto simp: update_fresh [OF lru] sorted_append layer_ok_def)
  have keys: "fst ` set (AList.update e now (expert_lru l)) = fst ` set (AList.update e s (super_block_at_expert l))"
    "\<forall>d \<in> fst ` set (AList.update e s (super_block_at_expert l)). d < num_experts l"
    unfolding dict_keys_update using ok e(2) by (auto simp: layer_ok_def)
  have rows: "\<forall>d < num_experts l. (super_block_id_at l)[e := int s] ! d =
      (case map_of (AList.update e s (super_block_at_expert l)) d of Some t \<Rightarrow> int t | None \<Rightarrow> UNLOADED)"
    using ok by (auto simp: layer_ok_def nth_list_update simp del: map_of_eq_Some_iff)
  have "layer_ok now ?l"
    unfolding layer_ok_def by (intro conjI) (use ok m lru' keys rows in \<open>simp_all add: layer_ok_def del: map_of_eq_Some_iff map_of_update dict_keys_update\<close>)
  then show ?thesis
    unfolding run by (simp add: same_layer_def clear_directory_def)
qed

lemma layer_ok_del:
  assumes ok: "layer_ok now l" and s: "map_of (expert_at_super_block l) s = Some e"
  shows "runs_to (drop_expert s l) (\<lambda>r l'. r = Some e \<and> layer_ok now l' \<and> same_layer l l' \<and>
     map_of (expert_at_super_block l') = (map_of (expert_at_super_block l))(s := None) \<and>
     map_of (super_block_at_expert l') = (map_of (super_block_at_expert l))(e := None))"
proof -
  let ?l = "l\<lparr>expert_at_super_block := AList.delete s (expert_at_super_block l),
     super_block_at_expert := AList.delete e (super_block_at_expert l),
     expert_lru := AList.delete e (expert_lru l), super_block_id_at := (super_block_id_at l)[e := UNLOADED]\<rparr>"
  have inv: "map_of (expert_at_super_block l) t = Some d \<longleftrightarrow> map_of (super_block_at_expert l) d = Some t" for t d
    using ok by (simp add: layer_ok_def)
  then have home: "map_of (super_block_at_expert l) e = Some s" using s by blast
  then have e: "e \<in> fst ` set (super_block_at_expert l)" "e < num_experts l"
    using ok map_of_keys [of e "super_block_at_expert l"] by (auto simp: layer_ok_def simp del: map_of_eq_Some_iff)
  have "e < length (super_block_id_at l)" using ok e(2) by (simp add: layer_ok_def)
  then have run: "drop_expert s l = Inr (Some e, ?l)"
    using e(1) by (simp add: drop_expert_def return_def set_row_def s Let_def)
  have m: "map_of (AList.delete s (expert_at_super_block l)) t = Some d \<longleftrightarrow>
      map_of (AList.delete e (super_block_at_expert l)) d = Some t" for t d
    using inv [of t d] inv [of t e] inv [of s d] s home by (auto simp del: map_of_eq_Some_iff)
  have srt: "sorted (map snd (AList.delete e (expert_lru l)))"
    using ok by (auto simp: AList.delete_eq layer_ok_def sorted_filter)
  have past: "\<forall>st \<in> snd ` set (AList.delete e (expert_lru l)). st \<le> now"
    using ok by (auto simp: AList.delete_eq layer_ok_def)
  have rows: "\<forall>d < num_experts l. (super_block_id_at l)[e := UNLOADED] ! d =
      (case map_of (AList.delete e (super_block_at_expert l)) d of Some t \<Rightarrow> int t | None \<Rightarrow> UNLOADED)"
    using ok by (auto simp: layer_ok_def nth_list_update simp del: map_of_eq_Some_iff)
  have bound: "\<forall>d \<in> fst ` set (AList.delete e (super_block_at_expert l)). d < num_experts l"
    unfolding dict_keys_delete using ok by (auto simp: layer_ok_def)
  have keys: "fst ` set (AList.delete e (expert_lru l)) = fst ` set (AList.delete e (super_block_at_expert l))"
    unfolding dict_keys_delete using ok by (simp add: layer_ok_def)
  have "layer_ok now ?l"
    unfolding layer_ok_def by (intro conjI) (use ok m srt past rows bound keys in \<open>simp_all add: layer_ok_def del: map_of_eq_Some_iff map_of_delete dict_keys_delete\<close>)
  then show ?thesis
    unfolding run by (simp add: same_layer_def clear_directory_def)
qed

lemma layer_ok_bump:
  assumes ok: "layer_ok now l"
  shows "layer_ok now (bump_expert e now l)" "same_layer l (bump_expert e now l)"
    "expert_at_super_block (bump_expert e now l) = expert_at_super_block l"
    "super_block_at_expert (bump_expert e now l) = super_block_at_expert l"
proof -
  let ?d = "AList.delete e (AList.update e now (expert_lru l))"
  have d: "?d = AList.delete e (expert_lru l)"
    by (rule delete_update_same)
  have srt: "sorted (map snd (?d @ [(e, now)]))"
    unfolding d using ok by (auto simp: AList.delete_eq layer_ok_def sorted_filter sorted_append)
  have past: "\<forall>st \<in> snd ` set (?d @ [(e, now)]). st \<le> now"
    unfolding d using ok by (auto simp: AList.delete_eq layer_ok_def)
  have wf: "dict_wf (?d @ [(e, now)])"
    unfolding d using ok by (auto simp: layer_ok_def)
  have keys: "e \<in> fst ` set (expert_lru l) \<Longrightarrow> fst ` set (?d @ [(e, now)]) = fst ` set (expert_lru l)"
    unfolding d by (auto simp: image_iff)
  from ok srt past wf keys show "layer_ok now (bump_expert e now l)"
    unfolding layer_ok_def bump_expert_def by (auto simp del: map_of_eq_Some_iff)
qed (simp_all add: bump_expert_def same_layer_def clear_directory_def)

interpretation experts: expert_directory layer_ok same_layer num_experts
  "\<lambda>l. map_of (expert_at_super_block l)" "\<lambda>l. map_of (super_block_at_expert l)"
  "\<lambda>l e. super_block_id_at l ! e" expert_lru assign drop_expert bump_expert
proof (unfold_locales, goal_cases)
  case (2 now l e s)
  then show ?case using map_of_keys [of e "super_block_at_expert l"] by (auto simp: layer_ok_def simp del: map_of_eq_Some_iff)
next
  case (4 now l) then show ?case by (simp add: layer_ok_def dom_map_of_conv_image_fst)
next
  case (6 now l e st) then show ?case by (force simp: layer_ok_def)
next
  case (8 now l s e) then show ?case by (rule layer_ok_put)
next
  case (10 now l s e) then show ?case by (rule layer_ok_del)
next
  case (11 now l e) then show ?case using layer_ok_bump by simp
qed (auto simp: layer_ok_def drop_expert_def return_def simp del: map_of_eq_Some_iff)

section \<open>Properties\<close>

text \<open>A layer's expert directory: assigning an absent expert to an unmapped super-block succeeds and makes the two
  dictionaries and the remap row agree on it; dropping the super-block again returns the expert, marks its row
  \<open>UNLOADED\<close> and restores the directory.\<close>

theorem assign_drop_roundtrip:
  assumes "layer_ok now l" "expert_of_super_block l s = None" "\<not> has_expert l e" "e < num_experts l"
  shows "runs_to (assign s e now l) (\<lambda>_ l'. has_expert l' e \<and> super_block_of_expert l' e = Some s \<and>
       expert_of_super_block l' s = Some e \<and> super_block_id_at l' ! e = int s \<and> layer_ok now l') \<and>
     runs_to (rbind (assign s e now l) (\<lambda>_. drop_expert s)) (\<lambda>r l'. r = Some e \<and> super_block_id_at l' ! e = UNLOADED \<and>
       layer_ok now l' \<and> expert_of_super_block l' = expert_of_super_block l \<and> super_block_of_expert l' = super_block_of_expert l)"
proof
  have s: "map_of (expert_at_super_block l) s = None" using assms(2) by (simp add: expert_of_super_block_def)
  have e: "map_of (super_block_at_expert l) e = None" using assms(3) by (auto simp: has_expert_def map_of_eq_None_iff)
  show "runs_to (assign s e now l) (\<lambda>_ l'. has_expert l' e \<and> super_block_of_expert l' e = Some s \<and>
       expert_of_super_block l' s = Some e \<and> super_block_id_at l' ! e = int s \<and> layer_ok now l')"
  proof (rule runs_to_mono [OF layer_ok_put [OF assms(1) s e assms(4)]])
    fix u l' assume a: "layer_ok now l' \<and> same_layer l l' \<and> map_of (expert_at_super_block l') = (map_of (expert_at_super_block l))(s \<mapsto> e) \<and>
       map_of (super_block_at_expert l') = (map_of (super_block_at_expert l))(e \<mapsto> s)"
    then have m: "map_of (expert_at_super_block l') s = Some e" "map_of (super_block_at_expert l') e = Some s" by simp_all
    have "e \<in> fst ` set (super_block_at_expert l')" using m(2) by (metis map_of_keys option.distinct(1))
    with m experts.row_value [OF _ m(1)] a show "has_expert l' e \<and> super_block_of_expert l' e = Some s \<and>
       expert_of_super_block l' s = Some e \<and> super_block_id_at l' ! e = int s \<and> layer_ok now l'"
      by (auto simp: has_expert_def super_block_of_expert_def expert_of_super_block_def)
  qed
  have keep: "e < num_experts l'" if "same_layer l l'" for l' using assms(4) same_layer_fields [OF that] by simp
  show "runs_to (rbind (assign s e now l) (\<lambda>_. drop_expert s)) (\<lambda>r l'. r = Some e \<and> super_block_id_at l' ! e = UNLOADED \<and>
       layer_ok now l' \<and> expert_of_super_block l' = expert_of_super_block l \<and> super_block_of_expert l' = super_block_of_expert l)"
    unfolding post_rbind
  proof (rule runs_to_mono [OF layer_ok_put [OF assms(1) s e assms(4)]])
    fix u l1 assume l1: "layer_ok now l1 \<and> same_layer l l1 \<and> map_of (expert_at_super_block l1) = (map_of (expert_at_super_block l))(s \<mapsto> e) \<and>
       map_of (super_block_at_expert l1) = (map_of (super_block_at_expert l))(e \<mapsto> s)"
    then have ok1: "layer_ok now l1" "same_layer l l1" and at1: "map_of (expert_at_super_block l1) s = Some e" by simp_all
    show "runs_to (drop_expert s l1) (\<lambda>r l'. r = Some e \<and> super_block_id_at l' ! e = UNLOADED \<and>
       layer_ok now l' \<and> expert_of_super_block l' = expert_of_super_block l \<and> super_block_of_expert l' = super_block_of_expert l)"
    proof (rule runs_to_mono [OF layer_ok_del [OF ok1(1) at1]])
      fix r l' assume a: "r = Some e \<and> layer_ok now l' \<and> same_layer l1 l' \<and>
        map_of (expert_at_super_block l') = (map_of (expert_at_super_block l1))(s := None) \<and>
        map_of (super_block_at_expert l') = (map_of (super_block_at_expert l1))(e := None)"
      then have d: "map_of (expert_at_super_block l') = map_of (expert_at_super_block l)"
        "map_of (super_block_at_expert l') = map_of (super_block_at_expert l)"
        using l1 s e by (auto simp: fun_eq_iff)
      have "same_layer l l'" using a ok1(2) same_layer_trans by blast
      from experts.row_home [of now l' e] keep [OF this] a d(2) e have "super_block_id_at l' ! e = UNLOADED" by simp
      with a d show "r = Some e \<and> super_block_id_at l' ! e = UNLOADED \<and> layer_ok now l' \<and>
        expert_of_super_block l' = expert_of_super_block l \<and> super_block_of_expert l' = super_block_of_expert l"
        by (simp add: fun_eq_iff expert_of_super_block_def super_block_of_expert_def)
    qed
  qed
qed

theorem assign_drop_roundtrip_witness:
  "runs_to (rbind (assign 3 1 0 (projr (unified_layer_init 0 2 [[1], [2]] [[3], [4]] 8 1 2 1 1 1))) (\<lambda>_. drop_expert 3)) (\<lambda>r l'.
     r = Some 1 \<and> super_block_id_at l' ! 1 = UNLOADED)"
proof -
  let ?l = "projr (unified_layer_init 0 2 [[1], [2]] [[3], [4]] 8 1 2 1 1 1)"
  have "layer_ok 0 ?l" "expert_of_super_block ?l 3 = None" "\<not> has_expert ?l 1" "1 < num_experts ?l"
    by (simp_all add: unified_layer_init_def layer_ok_def expert_of_super_block_def has_expert_def)
  with assign_drop_roundtrip [of 0 ?l 3 1] show ?thesis by (auto elim!: runs_to_mono)
qed

end
