(* ===== verification/Unified_Manager.thy ===== *)
theory Unified_Manager
  imports Pool_Listener Prefix_LRU Unified_Layer "HOL-Library.Product_Lexorder"
begin

text \<open>
  \<open>UnifiedPoolManager\<close> of \<open>vllm/model_executor/layers/fused_moe/unified_pool.py\<close>: expert
  weights and KV blocks in one pool of pages. The manager's record extends the block pool's,
  since the two objects call each other: the pool fires the manager's callbacks and asks it
  for victims, and the manager reads the pool's blocks, edits its free queue and evicts or
  relocates its hashes.

  \<^item> A layer object is named by its index, its key in \<open>layers\<close>.
  \<^item> The buffer of a layer is \<open>kv_pool_buffers[layer_idx]\<close>, the buffer \<open>setup_unified_pool\<close>
    passes to both classes.
  \<^item> Copies are enqueued on one stream in program order, behind a barrier before any reader,
    so a copy is modelled as happening when it is enqueued.
  \<^item> Trace output and profiler counters do not change the state and are left out.
\<close>

section \<open>State\<close>

record unified_manager = block_pool +
  pages_per_super_block :: nat
  page_size_bytes :: nat
  kv_pool_buffers :: "(nat, byte list) dict"
  num_super_blocks :: nat
  layers :: "(nat, unified_layer) dict"
  super_block_holder :: "(nat, nat list) dict"
  step :: int
  relocation_enabled :: bool
  relocations :: nat
  prefix_lru :: prefix_lru
  kv_score_oldest :: bool

text \<open>
  \<open>__init__\<close>: \<open>relocate\<close> and \<open>score_oldest\<close> are the environment variables
  \<open>VLLM_UNIFIED_POOL_RELOCATE\<close> and \<open>VLLM_UNIFIED_POOL_KV_SCORE\<close>.
\<close>

definition manager_init ::
  "block_pool \<Rightarrow> nat \<Rightarrow> nat \<Rightarrow> (nat, byte list) dict \<Rightarrow> bool \<Rightarrow> bool \<Rightarrow> error + unified_manager" where
  "manager_init bp f page bufs relocate score_oldest =
     (if \<not> f \<ge> 1 then Inl (AssertionError ''pages_per_super_block >= 1'')
      else if \<not> page > 0 then Inl (AssertionError ''page_size_bytes > 0'')
      else if \<exists>buf \<in> snd ` set bufs. length buf \<noteq> num_gpu_blocks bp * page
           then Inl (AssertionError ''KV pool buffer size'')
      else Inr (block_pool.extend bp (unified_manager.fields f page bufs (num_gpu_blocks bp div f) [] [] 0
                  relocate 0 lru_empty score_oldest)))"

definition put_layer :: "nat \<Rightarrow> unified_layer \<Rightarrow> unified_manager \<Rightarrow> unified_manager" where
  "put_layer i l s = s\<lparr>layers := AList.update i l (layers s)\<rparr>"

text \<open>A method call on a layer, given by its index.\<close>

definition on_layer ::
  "nat \<Rightarrow> (unified_layer \<Rightarrow> (unified_layer, 'a) res) \<Rightarrow> unified_manager \<Rightarrow> (unified_manager, 'a) res" where
  "on_layer i f s =
     (case map_of (layers s) i of
        None \<Rightarrow> raise KeyError s
      | Some l \<Rightarrow> (case f l of Inl (e, l') \<Rightarrow> Inl (e, put_layer i l' s) | Inr (a, l') \<Rightarrow> Inr (a, put_layer i l' s)))"

definition register_layer :: "unified_layer \<Rightarrow> unified_manager \<Rightarrow> (unified_manager, unit) res" where
  "register_layer l s =
     rbind (assert_that (layer_idx l \<notin> fst ` set (layers s)) ''Layer already registered'' s) (\<lambda>_ s.
     rbind (assert_that (layer_pages_per_super_block l = pages_per_super_block s) ''pages_per_super_block'' s) (\<lambda>_ s.
     rbind (assert_that (layer_num_super_blocks l = num_super_blocks s) ''num_super_blocks'' s) (\<lambda>_ s.
       return () (put_layer (layer_idx l) l s))))"

section \<open>Pages and super-blocks\<close>

definition pages_of :: "unified_manager \<Rightarrow> nat \<Rightarrow> nat list" where
  "pages_of s sb = [sb * pages_per_super_block s ..< sb * pages_per_super_block s + pages_per_super_block s]"

definition super_block_of_page :: "unified_manager \<Rightarrow> nat \<Rightarrow> nat" where
  "super_block_of_page s p = p div pages_per_super_block s"

definition any_layer_pins_super_block :: "unified_manager \<Rightarrow> nat \<Rightarrow> bool" where
  "any_layer_pins_super_block s sb \<longleftrightarrow> (\<exists>l \<in> snd ` set (layers s). sb \<in> set (pinned_super_blocks l))"

fun live_loop :: "nat list \<Rightarrow> unified_manager \<Rightarrow> (unified_manager, bool) res" where
  "live_loop [] s = return False s"
| "live_loop (p # ps) s =
     rbind (get_block p s) (\<lambda>b s. if ref_cnt b > 0 then return True s else live_loop ps s)"

definition super_block_has_live_page :: "nat \<Rightarrow> unified_manager \<Rightarrow> (unified_manager, bool) res" where
  "super_block_has_live_page sb s = live_loop (pages_of s sb) s"

section \<open>Mappings and holders\<close>

definition holders_of :: "unified_manager \<Rightarrow> nat \<Rightarrow> nat list" where
  "holders_of s sb = (case map_of (super_block_holder s) sb of None \<Rightarrow> [] | Some hs \<Rightarrow> hs)"

definition add_holder :: "nat \<Rightarrow> nat \<Rightarrow> unified_manager \<Rightarrow> unified_manager" where
  "add_holder i sb s = s\<lparr>super_block_holder := AList.update sb (set_add i (holders_of s sb)) (super_block_holder s)\<rparr>"

definition remove_holder :: "nat \<Rightarrow> nat \<Rightarrow> unified_manager \<Rightarrow> unified_manager" where
  "remove_holder i sb s =
     (case map_of (super_block_holder s) sb of
        None \<Rightarrow> s
      | Some hs \<Rightarrow>
          (let hs' = removeAll i hs
           in s\<lparr>super_block_holder := (if hs' = [] then AList.delete sb (super_block_holder s)
                                       else AList.update sb hs' (super_block_holder s))\<rparr>))"

definition drop_layer_mapping :: "nat \<Rightarrow> nat \<Rightarrow> unified_manager \<Rightarrow> (unified_manager, unit) res" where
  "drop_layer_mapping i sb s =
     rbind (on_layer i (drop_expert sb) s) (\<lambda>evicted s.
       if evicted = None then return () s else return () (remove_holder i sb s))"

definition broadcast_drop_one :: "nat \<Rightarrow> nat \<Rightarrow> unified_manager \<Rightarrow> (unified_manager, unit) res" where
  "broadcast_drop_one sb i s =
     (case map_of (layers s) i of
        None \<Rightarrow> return () s
      | Some l \<Rightarrow>
          rbind (assert_that (sb \<notin> set (pinned_super_blocks l)) ''KV-allocation broadcast tried to drop a pinned super-block'' s)
            (\<lambda>_ s. rbind (on_layer i (drop_expert sb) s) (\<lambda>_. return ())))"

definition broadcast_drop_all_layers :: "nat \<Rightarrow> unified_manager \<Rightarrow> (unified_manager, unit) res" where
  "broadcast_drop_all_layers sb s =
     (let hs = holders_of s sb;
          s1 = s\<lparr>super_block_holder := AList.delete sb (super_block_holder s)\<rparr>
      in if hs = [] then return () s1 else for_each (broadcast_drop_one sb) hs s1)"

section \<open>Block pool callbacks\<close>

text \<open>The loop of \<open>_on_kv_allocation\<close>, with its \<open>seen\<close> set.\<close>

fun kv_allocation_loop :: "nat list \<Rightarrow> nat list \<Rightarrow> unified_manager \<Rightarrow> (unified_manager, unit) res" where
  "kv_allocation_loop seen [] s = return () s"
| "kv_allocation_loop seen (b # bs) s =
     (let sb = super_block_of_page s b
      in if sb \<in> set seen then kv_allocation_loop seen bs s
         else rbind (broadcast_drop_all_layers sb s) (\<lambda>_ s. kv_allocation_loop (sb # seen) bs s))"

definition on_kv_allocation :: "nat list \<Rightarrow> unified_manager \<Rightarrow> (unified_manager, unit) res" where
  "on_kv_allocation bs s = kv_allocation_loop [] bs s"

definition on_prefix_added :: "nat \<Rightarrow> unified_manager \<Rightarrow> (unified_manager, unit) res" where
  "on_prefix_added b s = return () (s\<lparr>prefix_lru := lru_touch b (step s) (prefix_lru s)\<rparr>)"

definition on_prefix_removed :: "nat \<Rightarrow> unified_manager \<Rightarrow> (unified_manager, unit) res" where
  "on_prefix_removed b s = return () (s\<lparr>prefix_lru := snd (lru_pop b (prefix_lru s))\<rparr>)"

section \<open>KV-side victim selection\<close>

fun holder_steps :: "unified_manager \<Rightarrow> nat \<Rightarrow> nat list \<Rightarrow> int list option" where
  "holder_steps s sb [] = Some []"
| "holder_steps s sb (i # hs) =
     (case map_of (layers s) i of
        None \<Rightarrow> None
      | Some l \<Rightarrow>
          (case map_of (expert_at_super_block l) sb of
             None \<Rightarrow> holder_steps s sb hs
           | Some e \<Rightarrow>
               (case map_of (expert_lru l) e of
                  None \<Rightarrow> None
                | Some st \<Rightarrow> map_option ((#) st) (holder_steps s sb hs))))"

text \<open>One round of the loop of \<open>_oldest_global_expert\<close>; a missing key raises \<open>KeyError\<close>.\<close>

fun oldest_expert_loop ::
  "unified_manager \<Rightarrow> (nat, nat list) dict \<Rightarrow> (nat \<times> int) option \<Rightarrow> error + (nat \<times> int) option" where
  "oldest_expert_loop s [] best = Inr best"
| "oldest_expert_loop s ((sb, hs) # d) best =
     (if any_layer_pins_super_block s sb then oldest_expert_loop s d best
      else case holder_steps s sb hs of
             None \<Rightarrow> Inl KeyError
           | Some [] \<Rightarrow> oldest_expert_loop s d best
           | Some (x # xs) \<Rightarrow>
               (let st = Min (set (x # xs))
                in oldest_expert_loop s d
                     (case best of None \<Rightarrow> Some (sb, st)
                                 | Some (sb', st') \<Rightarrow> if st < st' then Some (sb, st) else best)))"

definition oldest_global_expert :: "unified_manager \<Rightarrow> error + (nat \<times> int) option" where
  "oldest_global_expert s = oldest_expert_loop s (super_block_holder s) None"

definition truly_free :: "unified_manager \<Rightarrow> nat \<Rightarrow> bool" where
  "truly_free s b \<longleftrightarrow> block_hash (blocks s ! b) = None \<and> holders_of s (super_block_of_page s b) = [] \<and>
     \<not> any_layer_pins_super_block s (super_block_of_page s b)"

definition kv_take_prefix_page :: "nat \<Rightarrow> unified_manager \<Rightarrow> (unified_manager, nat) res" where
  "kv_take_prefix_page b s =
     rbind (get_block b s) (\<lambda>_ s.
       rbind (on_queue (fq_remove b) s) (\<lambda>_ s.
         return b (s\<lparr>prefix_lru := snd (lru_pop b (prefix_lru s))\<rparr>)))"

fun take_first_page :: "nat list \<Rightarrow> unified_manager \<Rightarrow> (unified_manager, nat) res" where
  "take_first_page [] s = raise (RuntimeError ''super-block had no usable page after evicting its expert'') s"
| "take_first_page (p # ps) s =
     rbind (get_block p s) (\<lambda>b s.
       if is_null b then take_first_page ps s
       else rbind (on_queue (fq_remove p) s) (\<lambda>_. return p))"

definition kv_take_page_evicting_expert :: "nat \<Rightarrow> unified_manager \<Rightarrow> (unified_manager, nat) res" where
  "kv_take_page_evicting_expert sb s =
     rbind (broadcast_drop_all_layers sb s) (\<lambda>_ s. take_first_page (pages_of s sb) s)"

definition pick_one_kv_victim :: "unified_manager \<Rightarrow> (unified_manager, nat) res" where
  "pick_one_kv_victim s =
     (case free_walk (free_block_queue s) of
        None \<Rightarrow> raise Diverges s
      | Some ids \<Rightarrow>
          (case find (truly_free s) ids of
             Some b \<Rightarrow> rbind (on_queue (fq_remove b) s) (\<lambda>_. return b)
           | None \<Rightarrow>
               (case oldest_global_expert s of
                  Inl e \<Rightarrow> raise e s
                | Inr expert \<Rightarrow>
                    (case coldest_first (prefix_lru s) of
                       None \<Rightarrow> raise Diverges s
                     | Some items \<Rightarrow>
                         (case (expert, find (\<lambda>(b, _). \<not> any_layer_pins_super_block s (super_block_of_page s b)) items) of
                            (Some (sb, est), Some (b, pst)) \<Rightarrow>
                              if est \<le> pst then kv_take_page_evicting_expert sb s else kv_take_prefix_page b s
                          | (Some (sb, _), None) \<Rightarrow> kv_take_page_evicting_expert sb s
                          | (None, Some (b, _)) \<Rightarrow> kv_take_prefix_page b s
                          | (None, None) \<Rightarrow> raise (RuntimeError ''pool exhausted resolving KV allocation'') s)))))"

definition select_kv_victim_blocks :: "nat \<Rightarrow> unified_manager \<Rightarrow> (unified_manager, nat list) res" where
  "select_kv_victim_blocks n s =
     (if n = 0 then return [] s
      else rbind (collect_each (\<lambda>_. pick_one_kv_victim) [0..<n] s) (\<lambda>ret s.
             rbind (assert_that (num_free_blocks (free_block_queue s) \<ge> 0) ''queue.num_free_blocks >= 0'' s)
               (\<lambda>_. return ret)))"

text \<open>What \<open>__init__\<close> registers with the block pool.\<close>

definition manager_callbacks :: "unified_manager pool_callbacks" where
  "manager_callbacks =
     register_kv_victim_selector select_kv_victim_blocks
     (register_on_prefix_removed_callback on_prefix_removed
     (register_on_prefix_added_callback on_prefix_added
     (register_on_allocation_callback on_kv_allocation no_callbacks)))"

section \<open>Vacating a super-block\<close>

definition evict_prefix_globally :: "nat \<Rightarrow> unified_manager \<Rightarrow> (unified_manager, unit) res" where
  "evict_prefix_globally b s =
     rbind (get_block b s) (\<lambda>blk s.
       if block_hash blk = None then return () s
       else rbind (evict_prefix_hash manager_callbacks b s) (\<lambda>_. return ()))"

text \<open>The walk stops after \<open>limit\<close> pages, so it lists the first \<open>limit\<close> that pass the filters.\<close>

definition displaceable_pages_coldest_first :: "nat \<Rightarrow> nat \<Rightarrow> unified_manager \<Rightarrow> (nat \<times> int) list option" where
  "displaceable_pages_coldest_first exclude limit s =
     (if limit = 0 then Some []
      else map_option (\<lambda>items. take limit (filter (\<lambda>(p, _). super_block_of_page s p \<noteq> exclude \<and>
             \<not> any_layer_pins_super_block s (super_block_of_page s p)) items))
           (coldest_first (prefix_lru s)))"

definition usable_hole :: "nat \<Rightarrow> unified_manager \<Rightarrow> nat \<Rightarrow> bool" where
  "usable_hole exclude s b \<longleftrightarrow> block_hash (blocks s ! b) = None \<and> \<not> is_null (blocks s ! b) \<and>
     super_block_of_page s b \<noteq> exclude \<and> holders_of s (super_block_of_page s b) = [] \<and>
     \<not> any_layer_pins_super_block s (super_block_of_page s b)"

definition collect_free_pages :: "nat \<Rightarrow> nat \<Rightarrow> unified_manager \<Rightarrow> nat list option" where
  "collect_free_pages exclude limit s =
     (if limit = 0 then Some []
      else map_option (\<lambda>ids. take limit (filter (usable_hole exclude s) ids)) (free_walk (free_block_queue s)))"

definition first_free_page :: "nat \<Rightarrow> unified_manager \<Rightarrow> nat option option" where
  "first_free_page exclude s =
     map_option (\<lambda>found. case found of [] \<Rightarrow> None | p # _ \<Rightarrow> Some p) (collect_free_pages exclude 1 s)"

fun coldest_prefix_loop :: "nat \<Rightarrow> int \<Rightarrow> (nat \<times> int) list \<Rightarrow> unified_manager \<Rightarrow> nat option" where
  "coldest_prefix_loop exclude colder [] s = None"
| "coldest_prefix_loop exclude colder ((p, st) # xs) s =
     (if st \<ge> colder then None
      else if super_block_of_page s p = exclude then coldest_prefix_loop exclude colder xs s
      else if any_layer_pins_super_block s (super_block_of_page s p) then coldest_prefix_loop exclude colder xs s
      else Some p)"

definition coldest_prefix_page :: "nat \<Rightarrow> int \<Rightarrow> unified_manager \<Rightarrow> nat option option" where
  "coldest_prefix_page exclude colder s =
     map_option (\<lambda>items. coldest_prefix_loop exclude colder items s) (coldest_first (prefix_lru s))"

definition copy_page :: "nat \<Rightarrow> nat \<Rightarrow> nat \<Rightarrow> byte list \<Rightarrow> error + byte list" where
  "copy_page page src dst buf =
     (if \<not> narrow_ok (dst * page) page buf \<or> \<not> narrow_ok (src * page) page buf
      then Inl (RuntimeError ''narrow: window exceeds the buffer'')
      else copy_into (dst * page) page (read_at (src * page) page buf) buf)"

definition copy_page_all_layers :: "nat \<Rightarrow> nat \<Rightarrow> unified_manager \<Rightarrow> (unified_manager, unit) res" where
  "copy_page_all_layers src dst s =
     for_each (\<lambda>i s. case map_of (kv_pool_buffers s) i of
                       None \<Rightarrow> return () s
                     | Some buf \<Rightarrow>
                         (case copy_page (page_size_bytes s) src dst buf of
                            Inl e \<Rightarrow> raise e s
                          | Inr buf' \<Rightarrow> return () (s\<lparr>kv_pool_buffers := AList.update i buf' (kv_pool_buffers s)\<rparr>)))
       (dict_keys (kv_pool_buffers s)) s"

definition relocate_kv_page :: "nat \<Rightarrow> nat \<Rightarrow> unified_manager \<Rightarrow> (unified_manager, unit) res" where
  "relocate_kv_page src dst s =
     rbind (copy_page_all_layers src dst s) (\<lambda>_ s.
       rbind (relocate_prefix_hash src dst s) (\<lambda>moved s.
         if \<not> moved then return () s
         else return () (s\<lparr>prefix_lru := snd (lru_rename src dst (step s) (prefix_lru s)),
                           relocations := relocations s + 1\<rparr>)))"

definition warmth :: "unified_manager \<Rightarrow> nat \<Rightarrow> int" where
  "warmth s p = (case lru_get (prefix_lru s) p of Some st \<Rightarrow> st | None \<Rightarrow> - 1)"

text \<open>
  The relocation loop: \<open>holes\<close> and \<open>cands\<close> are the unused tails of the two snapshots
  (\<open>holes[hole_i:]\<close>, \<open>cold_first[cand_i:]\<close>).
\<close>

fun vacate_loop :: "nat list \<Rightarrow> nat list \<Rightarrow> (nat \<times> int) list \<Rightarrow> unified_manager \<Rightarrow> (unified_manager, unit) res" where
  "vacate_loop [] holes cands s = return () s"
| "vacate_loop (p # ps) holes cands s =
     (case holes of
        hole # holes' \<Rightarrow>
          rbind (relocate_kv_page p hole s) (\<lambda>_ s. vacate_loop ps holes' cands s)
      | [] \<Rightarrow>
          (case cands of
             (victim, victim_step) # cands' \<Rightarrow>
               if victim_step < warmth s p
               then rbind (evict_prefix_globally victim s) (\<lambda>_ s.
                      rbind (relocate_kv_page p victim s) (\<lambda>_ s. vacate_loop ps [] cands' s))
               else rbind (evict_prefix_globally p s) (\<lambda>_ s. vacate_loop ps [] [] s)
           | [] \<Rightarrow> rbind (evict_prefix_globally p s) (\<lambda>_ s. vacate_loop ps [] [] s)))"

fun hashed_pages :: "nat list \<Rightarrow> unified_manager \<Rightarrow> (unified_manager, nat list) res" where
  "hashed_pages [] s = return [] s"
| "hashed_pages (p # ps) s =
     rbind (get_block p s) (\<lambda>b s.
       rbind (hashed_pages ps s) (\<lambda>qs. return (if block_hash b \<noteq> None then p # qs else qs)))"

definition vacate_kv_super_block :: "nat \<Rightarrow> unified_manager \<Rightarrow> (unified_manager, unit) res" where
  "vacate_kv_super_block sb s =
     rbind (hashed_pages (pages_of s sb) s) (\<lambda>prefix_pages s.
       if prefix_pages = [] then return () s
       else if \<not> relocation_enabled s then for_each evict_prefix_globally prefix_pages s
       else
         (let ps = sort_key (\<lambda>p. - warmth s p) prefix_pages; n = length prefix_pages
          in case (collect_free_pages sb n s, displaceable_pages_coldest_first sb n s) of
               (Some holes, Some cold_first) \<Rightarrow> vacate_loop ps holes cold_first s
             | _ \<Rightarrow> raise Diverges s))"

section \<open>Choosing a super-block for an expert\<close>

definition warmest_prefix_step :: "unified_manager \<Rightarrow> nat \<Rightarrow> int" where
  "warmest_prefix_step s sb =
     fold (\<lambda>p w. case lru_get (prefix_lru s) p of Some st \<Rightarrow> if st > w then st else w | None \<Rightarrow> w) (pages_of s sb) (- 1)"

text \<open>
  The inner walk of \<open>_cheapest_kv_super_block\<close>: it tallies pages per super-block until
  \<open>horizon\<close> pages have been seen, and tells whether the list ran out first.
\<close>

fun tally :: "unified_manager \<Rightarrow> (nat \<times> int) list \<Rightarrow> (nat, nat) dict \<Rightarrow> (nat, int) dict \<Rightarrow> nat \<Rightarrow> nat \<Rightarrow>
    (nat \<times> int) list \<times> (nat, nat) dict \<times> (nat, int) dict \<times> nat \<times> bool" where
  "tally s [] cnt old seen horizon = ([], cnt, old, seen, True)"
| "tally s ((p, st) # xs) cnt old seen horizon =
     (let sb = super_block_of_page s p;
          cnt' = AList.update sb ((case map_of cnt sb of None \<Rightarrow> 0 | Some n \<Rightarrow> n) + 1) cnt;
          old' = (if sb \<in> fst ` set old then old else AList.update sb st old)
      in if seen + 1 \<ge> horizon then (xs, cnt', old', seen + 1, False)
         else tally s xs cnt' old' (seen + 1) horizon)"

text \<open>The first candidate, in the given order, that can be vacated.\<close>

fun first_vacatable :: "nat list \<Rightarrow> unified_manager \<Rightarrow> (unified_manager, nat option) res" where
  "first_vacatable [] s = return None s"
| "first_vacatable (sb # sbs) s =
     (if sb = 0 \<or> holders_of s sb \<noteq> [] \<or> any_layer_pins_super_block s sb then first_vacatable sbs s
      else rbind (super_block_has_live_page sb s) (\<lambda>live s.
             if live then first_vacatable sbs s else return (Some sb) s))"

definition by_cold_pages :: "(nat, nat) dict \<Rightarrow> (nat, int) dict \<Rightarrow> nat list" where
  "by_cold_pages cnt old = map fst (sort_key (\<lambda>(sb, n). (- int n, the (map_of old sb))) cnt)"

text \<open>Every round but the last consumes a page, so the number of pages bounds the rounds.\<close>

fun cheapest_loop :: "nat \<Rightarrow> (nat \<times> int) list \<Rightarrow> (nat, nat) dict \<Rightarrow> (nat, int) dict \<Rightarrow> nat \<Rightarrow> nat \<Rightarrow>
    unified_manager \<Rightarrow> (unified_manager, (nat \<times> int) option) res" where
  "cheapest_loop 0 xs cnt old seen horizon s = raise Diverges s"
| "cheapest_loop (Suc k) xs cnt old seen horizon s =
     (let (xs', cnt', old', seen', exhausted) = tally s xs cnt old seen horizon
      in rbind (first_vacatable (by_cold_pages cnt' old') s) (\<lambda>found s.
           case found of
             Some sb \<Rightarrow> return (Some (sb, if kv_score_oldest s then the (map_of old' sb) else warmest_prefix_step s sb)) s
           | None \<Rightarrow> if exhausted then return None s
                     else cheapest_loop k xs' cnt' old' seen' (seen' + pages_per_super_block s) s))"

definition cheapest_kv_super_block :: "unified_manager \<Rightarrow> (unified_manager, (nat \<times> int) option) res" where
  "cheapest_kv_super_block s =
     (case coldest_first (prefix_lru s) of
        None \<Rightarrow> raise Diverges s
      | Some items \<Rightarrow> cheapest_loop (length items + 2) items [] [] 0 (pages_per_super_block s) s)"

text \<open>Option A of \<open>_evict_for_expert\<close>: the layer's coldest expert that may go.\<close>

definition own_coldest :: "unified_layer \<Rightarrow> nat list \<Rightarrow> (nat \<times> int) option" where
  "own_coldest l needed =
     find (\<lambda>(e, _). e \<notin> set needed \<and>
             (case map_of (super_block_at_expert l) e of None \<Rightarrow> False | Some sb \<Rightarrow> sb \<notin> set (pinned_super_blocks l)))
       (expert_lru l)"

definition reuse_own :: "nat \<Rightarrow> nat \<Rightarrow> unified_manager \<Rightarrow> (unified_manager, nat \<times> string) res" where
  "reuse_own i e s =
     (case map_of (layers s) i of
        None \<Rightarrow> raise KeyError s
      | Some l \<Rightarrow>
          (case map_of (super_block_at_expert l) e of
             None \<Rightarrow> raise KeyError s
           | Some sb \<Rightarrow> rbind (drop_layer_mapping i sb s) (\<lambda>_. return (sb, ''expert-local''))))"

definition vacate_for :: "nat \<Rightarrow> unified_manager \<Rightarrow> (unified_manager, nat \<times> string) res" where
  "vacate_for sb s = rbind (vacate_kv_super_block sb s) (\<lambda>_. return (sb, ''kv-vacate''))"

definition evict_for_expert :: "nat \<Rightarrow> nat list \<Rightarrow> unified_manager \<Rightarrow> (unified_manager, nat \<times> string) res" where
  "evict_for_expert i needed s =
     (case map_of (layers s) i of
        None \<Rightarrow> raise KeyError s
      | Some l \<Rightarrow>
          rbind (cheapest_kv_super_block s) (\<lambda>kv s.
            case (own_coldest l needed, kv) of
              (Some (e, est), Some (sb, kst)) \<Rightarrow> if kst \<le> est then vacate_for sb s else reuse_own i e s
            | (Some (e, _), None) \<Rightarrow> reuse_own i e s
            | (None, Some (sb, _)) \<Rightarrow> vacate_for sb s
            | (None, None) \<Rightarrow> raise (RuntimeError ''pool exhausted while resolving expert miss'') s))"

definition co_location :: "unified_manager \<Rightarrow> unified_layer \<Rightarrow> nat option" where
  "co_location s l =
     (case filter (\<lambda>sb. sb > 0 \<and> sb \<notin> set (pinned_super_blocks l) \<and> sb \<notin> fst ` set (expert_at_super_block l))
             (dict_keys (super_block_holder s)) of
        [] \<Rightarrow> None
      | c # cs \<Rightarrow> Some (Min (set (c # cs))))"

fun pages_pure :: "nat list \<Rightarrow> unified_manager \<Rightarrow> (unified_manager, bool) res" where
  "pages_pure [] s = return True s"
| "pages_pure (p # ps) s =
     rbind (get_block p s) (\<lambda>b s. if ref_cnt b > 0 \<or> block_hash b \<noteq> None then return False s else pages_pure ps s)"

fun first_pure :: "unified_layer \<Rightarrow> nat list \<Rightarrow> unified_manager \<Rightarrow> (unified_manager, nat option) res" where
  "first_pure l [] s = return None s"
| "first_pure l (sb # sbs) s =
     (if sb \<in> set (pinned_super_blocks l) \<or> sb \<in> fst ` set (expert_at_super_block l) \<or> holders_of s sb \<noteq> []
      then first_pure l sbs s
      else rbind (pages_pure (pages_of s sb) s) (\<lambda>pure s. if pure then return (Some sb) s else first_pure l sbs s))"

definition select_super_block_for_expert ::
  "nat \<Rightarrow> nat list \<Rightarrow> unified_manager \<Rightarrow> (unified_manager, nat \<times> string) res" where
  "select_super_block_for_expert i needed s =
     (case map_of (layers s) i of
        None \<Rightarrow> raise KeyError s
      | Some l \<Rightarrow>
          (case co_location s l of
             Some sb \<Rightarrow> return (sb, ''free-cross-layer-expert'') s
           | None \<Rightarrow>
               if num_free_blocks (free_block_queue s) - int (lru_len (prefix_lru s)) < int (pages_per_super_block s)
               then evict_for_expert i needed s
               else rbind (first_pure l [1..<num_super_blocks s] s) (\<lambda>found s.
                      case found of
                        Some sb \<Rightarrow> return (sb, ''free-pure'') s
                      | None \<Rightarrow> evict_for_expert i needed s)))"

section \<open>Loading experts\<close>

text \<open>The two copies into the buffer; an error of the second leaves the first done.\<close>

definition dma_expert :: "unified_layer \<Rightarrow> nat \<Rightarrow> nat \<Rightarrow> byte list \<Rightarrow> error \<times> byte list + byte list" where
  "dma_expert l e sb buf =
     (let off = sb * expert_slot_bytes l
      in if \<not> narrow_ok off (w13_bytes l) buf \<or> \<not> narrow_ok (off + w13_bytes l) (w2_bytes l) buf
         then Inl (RuntimeError ''narrow: window exceeds the buffer'', buf)
         else if \<not> e < length (cpu_w13_bytes l) then Inl (IndexError, buf)
         else case copy_into off (w13_bytes l) (cpu_w13_bytes l ! e) buf of
                Inl err \<Rightarrow> Inl (err, buf)
              | Inr buf' \<Rightarrow>
                  if \<not> e < length (cpu_w2_bytes l) then Inl (IndexError, buf')
                  else (case copy_into (off + w13_bytes l) (w2_bytes l) (cpu_w2_bytes l ! e) buf' of
                          Inl err \<Rightarrow> Inl (err, buf')
                        | Inr buf'' \<Rightarrow> Inr buf''))"

definition dma_expert_into_super_block :: "nat \<Rightarrow> nat \<Rightarrow> nat \<Rightarrow> unified_manager \<Rightarrow> (unified_manager, unit) res" where
  "dma_expert_into_super_block i e sb s =
     (case (map_of (layers s) i, map_of (kv_pool_buffers s) i) of
        (Some l, Some buf) \<Rightarrow>
          (case dma_expert l e sb buf of
             Inl (err, buf') \<Rightarrow> raise err (s\<lparr>kv_pool_buffers := AList.update i buf' (kv_pool_buffers s)\<rparr>)
           | Inr buf' \<Rightarrow> return () (s\<lparr>kv_pool_buffers := AList.update i buf' (kv_pool_buffers s)\<rparr>))
      | _ \<Rightarrow> raise KeyError s)"

text \<open>
  The \<open>try\<close> block of \<open>ensure_loaded\<close>: the state carries \<open>miss_assignments\<close>, which the
  handler reads.
\<close>

type_synonym claims = "unified_manager \<times> (nat \<times> nat \<times> string) list"

definition on_manager :: "(unified_manager \<Rightarrow> (unified_manager, 'a) res) \<Rightarrow> claims \<Rightarrow> (claims, 'a) res" where
  "on_manager f = on_part fst (\<lambda>s c. (s, snd c)) f"

definition claim_miss :: "nat \<Rightarrow> nat list \<Rightarrow> nat \<Rightarrow> claims \<Rightarrow> (claims, unit) res" where
  "claim_miss i needed e c =
     rbind (on_manager (select_super_block_for_expert i needed) c) (\<lambda>(sb, tier) c.
     rbind (on_manager (\<lambda>s. on_layer i (assign sb e (step s)) s) c) (\<lambda>_ (s, done).
       on_manager (dma_expert_into_super_block i e sb)
         (let s1 = add_holder i sb s
          in (put_layer i (pin sb (the (map_of (layers s1) i))) s1, done @ [(e, sb, tier)]))))"

definition unwind :: "nat \<Rightarrow> (nat \<times> nat \<times> string) list \<Rightarrow> unified_manager \<Rightarrow> (unified_manager, unit) res" where
  "unwind i done s =
     rbind (for_each (\<lambda>(_, sb, _). drop_layer_mapping i sb) done s) (\<lambda>_.
       on_layer i (\<lambda>l. return () (l\<lparr>pinned_super_blocks := []\<rparr>)))"

definition hit_all :: "nat list \<Rightarrow> int \<Rightarrow> unified_layer \<Rightarrow> unified_layer" where
  "hit_all es now l =
     fold (\<lambda>(e, sb) l. bump_expert e now (pin sb l)) (map (\<lambda>e. (e, the (map_of (super_block_at_expert l) e))) es) l"

definition ensure_loaded :: "nat \<Rightarrow> nat list \<Rightarrow> unified_manager \<Rightarrow> (unified_manager, unit) res" where
  "ensure_loaded i needed s =
     (case map_of (layers s) i of
        None \<Rightarrow> raise KeyError s
      | Some l \<Rightarrow>
          (let hit_eids = filter (has_expert l) needed;
               miss_eids = filter (\<lambda>e. \<not> has_expert l e) needed;
               l1 = l\<lparr>ever_activated := fold set_add needed (ever_activated l),
                      hits := hits l + length hit_eids, misses := misses l + length miss_eids\<rparr>;
               s1 = put_layer i (hit_all hit_eids (step s) l1) s
           in case for_each (claim_miss i needed) miss_eids (s1, []) of
                Inr (_, (s2, _)) \<Rightarrow> return () s2
              | Inl (e, (s2, done)) \<Rightarrow> rbind (unwind i done s2) (\<lambda>_. raise e)))"

definition release_pinned :: "nat \<Rightarrow> bool \<Rightarrow> unified_manager \<Rightarrow> (unified_manager, unit) res" where
  "release_pinned i completed =
     on_layer i (\<lambda>l. return () (l\<lparr>pinned_super_blocks := [],
       forward_count := (if completed then forward_count l + 1 else forward_count l)\<rparr>))"

definition end_forward_step :: "unified_manager \<Rightarrow> unified_manager" where
  "end_forward_step s = s\<lparr>step := step s + 1\<rparr>"

section \<open>Warm-up\<close>

fun pages_unhashed :: "nat list \<Rightarrow> unified_manager \<Rightarrow> (unified_manager, unit) res" where
  "pages_unhashed [] s = return () s"
| "pages_unhashed (p # ps) s =
     rbind (get_block p s) (\<lambda>b s.
       rbind (assert_that (block_hash b = None) ''warm-up: page already has a prefix hash'' s) (\<lambda>_. pages_unhashed ps))"

definition warm_layer :: "nat \<Rightarrow> nat \<Rightarrow> nat \<Rightarrow> unified_manager \<Rightarrow> (unified_manager, unit) res" where
  "warm_layer e sb i s =
     rbind (on_layer i (assign sb e (step s)) s) (\<lambda>_ s.
       dma_expert_into_super_block i e sb (add_holder i sb s))"

definition warm_expert :: "nat list \<Rightarrow> nat \<Rightarrow> unified_manager \<Rightarrow> (unified_manager, unit) res" where
  "warm_expert is e s =
     rbind (pages_unhashed (pages_of s (e + 1)) s) (\<lambda>_. for_each (warm_layer e (e + 1)) is)"

text \<open>The check after the warm-up: every row of the views equals the CPU weights.\<close>

fun warm_check_pairs :: "unified_layer \<Rightarrow> byte list \<Rightarrow> (nat \<times> nat) list \<Rightarrow> unified_manager \<Rightarrow> (unified_manager, unit) res" where
  "warm_check_pairs l buf [] s = return () s"
| "warm_check_pairs l buf ((e, sb) # ps) s =
     (if pool_w13_row l buf sb \<noteq> cpu_w13_bytes l ! e then raise (RuntimeError ''pool_w13_view != cpu_w13 after warm-up'') s
      else if pool_w2_row l buf sb \<noteq> cpu_w2_bytes l ! e then raise (RuntimeError ''pool_w2_view != cpu_w2 after warm-up'') s
      else warm_check_pairs l buf ps s)"

definition warm_check_layer :: "nat \<Rightarrow> unified_manager \<Rightarrow> (unified_manager, unit) res" where
  "warm_check_layer i s =
     (case (map_of (layers s) i, map_of (kv_pool_buffers s) i) of
        (Some l, Some buf) \<Rightarrow> warm_check_pairs l buf (super_block_at_expert l) s
      | _ \<Rightarrow> raise KeyError s)"

definition warm_up :: "nat \<Rightarrow> unified_manager \<Rightarrow> (unified_manager, unit) res" where
  "warm_up warm_count s =
     (if warm_count = 0 then return () s
      else rbind (assert_that (\<forall>l \<in> snd ` set (layers s). warm_count \<le> num_experts l) ''warm_count > num_experts'' s) (\<lambda>_ s.
           rbind (assert_that (int warm_count \<le> int (num_super_blocks s) - 1) ''warm_count > usable super-blocks'' s) (\<lambda>_ s.
             (let is = dict_keys (layers s)
              in if is = [] then return () s
                 else rbind (for_each (warm_expert is) [0..<warm_count] s) (\<lambda>_. for_each warm_check_layer is)))))"

end
