(* ===== verification/Manager_Invariant.thy ===== *)
theory Manager_Invariant
  imports Unified_Manager
begin

text \<open>
  The invariant of the unified pool manager and the proof that the manager is a listener of
  the block pool in the sense of \<open>pool_listener\<close>: its callbacks keep its view of the cached
  free pages exact, and its victim selector always finds a page when one is free.

  The invariant says that the directories of the layers, \<open>super_block_holder\<close> and the free
  queue agree: the pages of a super-block that holds an expert are free pages without a
  hash, so no KV block lives there (mutual exclusion), and the bytes of every resident
  expert are its weights.
\<close>

section \<open>The invariant\<close>

definition mapped :: "unified_manager \<Rightarrow> nat \<Rightarrow> nat \<Rightarrow> nat \<Rightarrow> bool" where
  "mapped s i sb e \<longleftrightarrow> (\<exists>l. map_of (layers s) i = Some l \<and> map_of (expert_at_super_block l) sb = Some e)"

definition geometry_ok :: "nat \<Rightarrow> unified_manager \<Rightarrow> bool" where
  "geometry_ok n s \<longleftrightarrow> 0 < pages_per_super_block s \<and> 0 < page_size_bytes s \<and>
     num_super_blocks s = n div pages_per_super_block s \<and> dict_wf (kv_pool_buffers s) \<and> dict_wf (layers s) \<and>
     (\<forall>buf \<in> snd ` set (kv_pool_buffers s). length buf = n * page_size_bytes s)"

definition lru_ok :: "nat set \<Rightarrow> unified_manager \<Rightarrow> bool" where
  "lru_ok P s \<longleftrightarrow> lru_wf (prefix_lru s) \<and> fst ` set (lru_items (prefix_lru s)) = P \<and>
     recency_ordered (step s) (lru_items (prefix_lru s))"

definition shape_ok :: "unified_manager \<Rightarrow> unified_layer \<Rightarrow> bool" where
  "shape_ok s l \<longleftrightarrow> expert_slot_bytes l = pages_per_super_block s * page_size_bytes s \<and>
     w13_bytes l + w2_bytes l = expert_slot_bytes l \<and>
     length (cpu_w13_bytes l) = num_experts l \<and> length (cpu_w2_bytes l) = num_experts l \<and>
     (\<forall>e < num_experts l. length (cpu_w13_bytes l ! e) = w13_bytes l \<and> length (cpu_w2_bytes l ! e) = w2_bytes l)"

definition layers_ok :: "unified_manager \<Rightarrow> bool" where
  "layers_ok s \<longleftrightarrow> (\<forall>i l. map_of (layers s) i = Some l \<longrightarrow>
     layer_idx l = i \<and> layer_ok (step s) l \<and> shape_ok s l \<and> map_of (kv_pool_buffers s) i \<noteq> None \<and>
     (\<forall>sb \<in> set (pinned_super_blocks l). map_of (expert_at_super_block l) sb \<noteq> None))"

definition holders_ok :: "(nat \<Rightarrow> nat set) \<Rightarrow> unified_manager \<Rightarrow> bool" where
  "holders_ok H s \<longleftrightarrow> dict_wf (super_block_holder s) \<and> [] \<notin> snd ` set (super_block_holder s) \<and>
     (\<forall>sb \<in> fst ` set (super_block_holder s). 0 < sb \<and> sb < num_super_blocks s) \<and>
     (\<forall>sb i. i \<in> H sb \<longleftrightarrow> (\<exists>e. mapped s i sb e))"

definition bytes_ok :: "unified_manager \<Rightarrow> bool" where
  "bytes_ok s \<longleftrightarrow> (\<forall>i l buf sb e. map_of (layers s) i = Some l \<longrightarrow> map_of (kv_pool_buffers s) i = Some buf \<longrightarrow>
     map_of (expert_at_super_block l) sb = Some e \<longrightarrow>
       pool_w13_row l buf sb = cpu_w13_bytes l ! e \<and> pool_w2_row l buf sb = cpu_w2_bytes l ! e)"

abbreviation holder_sets :: "unified_manager \<Rightarrow> nat \<Rightarrow> nat set" where
  "holder_sets s \<equiv> (\<lambda>sb. set (holders_of s sb))"

text \<open>\<open>n\<close> is the number of blocks of the pool and \<open>P\<close> the cached free pages.\<close>

definition manager_view :: "nat \<Rightarrow> nat set \<Rightarrow> unified_manager \<Rightarrow> bool" where
  "manager_view n P s \<longleftrightarrow> geometry_ok n s \<and> lru_ok P s \<and> layers_ok s \<and> holders_ok (holder_sets s) s \<and> bytes_ok s"

definition held_pages :: "unified_manager \<Rightarrow> nat set" where
  "held_pages s = (\<Union>sb \<in> fst ` set (super_block_holder s). set (pages_of s sb))"

definition unpinned :: "unified_manager \<Rightarrow> bool" where
  "unpinned s \<longleftrightarrow> (\<forall>l \<in> snd ` set (layers s). pinned_super_blocks l = [])"

lemmas view_defs = geometry_ok_def lru_ok_def layers_ok_def holders_ok_def bytes_ok_def shape_ok_def mapped_def

lemma view_more:
  assumes "block_pool.more s = block_pool.more t"
  shows "manager_view n P s = manager_view n P t" "held_pages s = held_pages t" "unpinned s = unpinned t"
    "pages_of s = pages_of t" "super_block_of_page s = super_block_of_page t" "holders_of s = holders_of t"
    "any_layer_pins_super_block s = any_layer_pins_super_block t" "prefix_lru s = prefix_lru t" "layers s = layers t"
    "super_block_holder s = super_block_holder t" "pages_per_super_block s = pages_per_super_block t"
    "kv_pool_buffers s = kv_pool_buffers t" "step s = step t" "num_super_blocks s = num_super_blocks t"
    "page_size_bytes s = page_size_bytes t" "relocation_enabled s = relocation_enabled t"
    "kv_score_oldest s = kv_score_oldest t" "relocations s = relocations t"
proof -
  show f: "prefix_lru s = prefix_lru t" "layers s = layers t"
    "super_block_holder s = super_block_holder t" "pages_per_super_block s = pages_per_super_block t"
    "kv_pool_buffers s = kv_pool_buffers t" "step s = step t" "num_super_blocks s = num_super_blocks t"
    "page_size_bytes s = page_size_bytes t" "relocation_enabled s = relocation_enabled t"
    "kv_score_oldest s = kv_score_oldest t" "relocations s = relocations t"
    using assms by (cases s; cases t; simp)+
  show g: "pages_of s = pages_of t" "super_block_of_page s = super_block_of_page t" "holders_of s = holders_of t"
    "any_layer_pins_super_block s = any_layer_pins_super_block t"
    by (auto simp: fun_eq_iff pages_of_def super_block_of_page_def holders_of_def any_layer_pins_super_block_def f)
  show "manager_view n P s = manager_view n P t" "held_pages s = held_pages t" "unpinned s = unpinned t"
    by (simp_all add: manager_view_def view_defs held_pages_def unpinned_def f g)
qed

lemma view_fields:
  assumes "layers t = layers s" "super_block_holder t = super_block_holder s" "kv_pool_buffers t = kv_pool_buffers s"
    "pages_per_super_block t = pages_per_super_block s" "page_size_bytes t = page_size_bytes s"
    "num_super_blocks t = num_super_blocks s" "step t = step s"
  shows "geometry_ok n t = geometry_ok n s" "layers_ok t = layers_ok s" "bytes_ok t = bytes_ok s"
    "holders_ok (holder_sets t) t = holders_ok (holder_sets s) s" "held_pages t = held_pages s"
    "unpinned t = unpinned s" "pages_of t = pages_of s" "super_block_of_page t = super_block_of_page s"
    "holders_of t = holders_of s" "any_layer_pins_super_block t = any_layer_pins_super_block s" "mapped t = mapped s"
  by (simp_all add: view_defs held_pages_def unpinned_def pages_of_def super_block_of_page_def fun_eq_iff
      holders_of_def any_layer_pins_super_block_def assms)

section \<open>Pages and super-blocks\<close>

lemma mem_pages_of: "0 < pages_per_super_block s \<Longrightarrow> p \<in> set (pages_of s sb) \<longleftrightarrow> super_block_of_page s p = sb"
proof -
  assume f: "0 < pages_per_super_block s"
  have "p div pages_per_super_block s = sb \<longleftrightarrow>
      sb * pages_per_super_block s \<le> p \<and> p < sb * pages_per_super_block s + pages_per_super_block s"
    using f by (auto simp: div_nat_eqI less_eq_div_iff_mult_less_eq dividend_less_times_div mult.commute
        intro: div_times_less_eq_dividend) (metis add.commute dividend_less_times_div mult.commute)
  then show ?thesis by (simp add: pages_of_def super_block_of_page_def)
qed

lemma held_iff: "0 < pages_per_super_block s \<Longrightarrow> p \<in> held_pages s \<longleftrightarrow> super_block_of_page s p \<in> fst ` set (super_block_holder s)"
  by (auto simp: held_pages_def mem_pages_of)

lemma holders_key:
  assumes "holders_ok H s"
  shows "holders_of s sb \<noteq> [] \<longleftrightarrow> sb \<in> fst ` set (super_block_holder s)"
proof -
  have "map_of (super_block_holder s) sb \<noteq> Some []"
    using assms by (auto simp: holders_ok_def dest!: map_of_SomeD) (metis image_eqI snd_conv)
  then show ?thesis
    by (auto simp: holders_of_def map_of_keys split: option.splits)
qed

lemma unpinned_pins: "unpinned s \<Longrightarrow> \<not> any_layer_pins_super_block s sb"
  by (auto simp: unpinned_def any_layer_pins_super_block_def)

section \<open>Updates of one layer\<close>

lemma put_layer_fields [simp]:
  "layers (put_layer i l s) = AList.update i l (layers s)" "base (put_layer i l s) = base s"
  "super_block_holder (put_layer i l s) = super_block_holder s" "prefix_lru (put_layer i l s) = prefix_lru s"
  "pages_per_super_block (put_layer i l s) = pages_per_super_block s" "step (put_layer i l s) = step s"
  "kv_pool_buffers (put_layer i l s) = kv_pool_buffers s" "num_super_blocks (put_layer i l s) = num_super_blocks s"
  "page_size_bytes (put_layer i l s) = page_size_bytes s" "holders_of (put_layer i l s) = holders_of s"
  "pages_of (put_layer i l s) = pages_of s" "held_pages (put_layer i l s) = held_pages s"
  by (auto simp: put_layer_def base_eq_iff fun_eq_iff holders_of_def pages_of_def held_pages_def)

lemma on_layer_post:
  assumes "map_of (layers s) i = Some l"
  shows "post (on_layer i f s) Q E = post (f l) (\<lambda>a l'. Q a (put_layer i l' s)) (\<lambda>e l'. E e (put_layer i l' s))"
  using assms by (auto simp: on_layer_def post_def split: sum.splits)

lemma put_layer_same: "map_of (layers s) i = Some l \<Longrightarrow> put_layer i l s = s"
  by (simp add: put_layer_def update_triv)

lemma put_layer_mapped:
  "mapped (put_layer i l s) j sb e \<longleftrightarrow>
     (if j = i then map_of (expert_at_super_block l) sb = Some e else mapped s j sb e)"
  by (auto simp: mapped_def)

lemma mapped_self: "map_of (layers s) i = Some l \<Longrightarrow> mapped s i sb e \<longleftrightarrow> map_of (expert_at_super_block l) sb = Some e"
  by (simp add: mapped_def)

lemma put_layer_layers_ok:
  assumes "layers_ok s" "map_of (layers s) i = Some l" "same_layer l l'" "layer_ok (step s) l'"
    and "\<forall>sb \<in> set (pinned_super_blocks l). map_of (expert_at_super_block l') sb \<noteq> None"
  shows "layers_ok (put_layer i l' s)"
proof -
  note f = same_layer_fields [OF assms(3)]
  have "shape_ok (put_layer i l' s) k = shape_ok s k" for k by (simp add: shape_ok_def)
  moreover have "shape_ok s l' = shape_ok s l" by (simp add: shape_ok_def f)
  ultimately show ?thesis using assms f by (simp add: layers_ok_def)
qed

lemma put_layer_bytes_ok:
  assumes "bytes_ok s" "map_of (layers s) i = Some l" "same_layer l l'"
    and "\<forall>sb e. map_of (expert_at_super_block l') sb = Some e \<longrightarrow> map_of (expert_at_super_block l) sb = Some e"
  shows "bytes_ok (put_layer i l' s)"
proof -
  note f = same_layer_fields [OF assms(3)]
  have "pool_w13_row l' = pool_w13_row l" "pool_w2_row l' = pool_w2_row l"
    by (simp_all add: fun_eq_iff pool_w13_row_def pool_w2_row_def f)
  with assms f show ?thesis by (auto simp: bytes_ok_def simp del: map_of_eq_Some_iff)
qed

lemma drop_mapping:
  assumes ok: "layers_ok s" "bytes_ok s" and l: "map_of (layers s) i = Some l" "sb \<notin> set (pinned_super_blocks l)"
  shows "runs_to (on_layer i (drop_expert sb) s) (\<lambda>r s'. \<exists>l'. s' = put_layer i l' s \<and> same_layer l l' \<and>
     r = map_of (expert_at_super_block l) sb \<and> layers_ok s' \<and> bytes_ok s' \<and>
     (\<forall>j b e. mapped s' j b e \<longleftrightarrow> mapped s j b e \<and> \<not> (j = i \<and> b = sb)))"
proof (cases "map_of (expert_at_super_block l) sb")
  case None
  then have "post (on_layer i (drop_expert sb) s) Q E \<longleftrightarrow> Q None s" for Q E
    using l by (simp add: on_layer_post experts.del_absent put_layer_same)
  moreover have "\<not> mapped s i sb e" for e using l None by (simp add: mapped_self)
  ultimately show ?thesis
    using None ok l put_layer_same [OF l(1)] by (auto intro!: exI [of _ l])
next
  case (Some e)
  have "layer_ok (step s) l" using ok l by (auto simp: layers_ok_def)
  note run = experts.del_present [OF this Some]
  show ?thesis
    unfolding on_layer_post [OF l(1)]
  proof (rule runs_to_mono [OF run])
    fix r l'
    assume l': "r = Some e \<and> layer_ok (step s) l' \<and> same_layer l l' \<and>
      map_of (expert_at_super_block l') = (map_of (expert_at_super_block l))(sb := None) \<and>
      map_of (super_block_at_expert l') = (map_of (super_block_at_expert l))(e := None)"
    have "layers_ok (put_layer i l' s)"
      using ok l l' by (intro put_layer_layers_ok) (auto simp: layers_ok_def)
    moreover have "bytes_ok (put_layer i l' s)"
      using ok l l' by (intro put_layer_bytes_ok) auto
    moreover have "mapped (put_layer i l' s) j b d \<longleftrightarrow> mapped s j b d \<and> \<not> (j = i \<and> b = sb)" for j b d
      using l l' by (auto simp: put_layer_mapped mapped_self)
    ultimately show "\<exists>k. put_layer i l' s = put_layer i k s \<and> same_layer l k \<and>
     r = map_of (expert_at_super_block l) sb \<and> layers_ok (put_layer i l' s) \<and> bytes_ok (put_layer i l' s) \<and>
     (\<forall>j b e. mapped (put_layer i l' s) j b e \<longleftrightarrow> mapped s j b e \<and> \<not> (j = i \<and> b = sb))"
      using l' Some by (intro exI [of _ l']) simp
  qed
qed

section \<open>Broadcasting a drop\<close>

text \<open>What a run that only drops mappings keeps of the manager.\<close>

definition same_rest :: "unified_manager \<Rightarrow> unified_manager \<Rightarrow> bool" where
  "same_rest s s' \<longleftrightarrow> base s' = base s \<and> pages_per_super_block s' = pages_per_super_block s \<and>
     page_size_bytes s' = page_size_bytes s \<and> kv_pool_buffers s' = kv_pool_buffers s \<and>
     num_super_blocks s' = num_super_blocks s \<and> step s' = step s \<and> prefix_lru s' = prefix_lru s \<and>
     relocation_enabled s' = relocation_enabled s \<and> kv_score_oldest s' = kv_score_oldest s \<and>
     (\<forall>i. map_option pinned_super_blocks (map_of (layers s') i) = map_option pinned_super_blocks (map_of (layers s) i))"

lemma same_rest_refl [simp]: "same_rest s s"
  by (simp add: same_rest_def)

lemma same_rest_trans: "same_rest s s' \<Longrightarrow> same_rest s' s'' \<Longrightarrow> same_rest s s''"
  by (simp add: same_rest_def)

lemma same_rest_put_layer:
  "map_of (layers s) i = Some l \<Longrightarrow> pinned_super_blocks l' = pinned_super_blocks l \<Longrightarrow> same_rest s (put_layer i l' s)"
  by (simp add: same_rest_def) (simp add: put_layer_def)

lemma same_rest_holder [simp]: "same_rest s (s\<lparr>super_block_holder := h\<rparr>)"
  by (simp add: same_rest_def base_eq_iff)

lemma unpinned_rest: "same_rest s s' \<Longrightarrow> dict_wf (layers s) \<Longrightarrow> dict_wf (layers s') \<Longrightarrow> unpinned s' = unpinned s"
proof -
  have *: "unpinned t \<longleftrightarrow> (\<forall>i. map_option pinned_super_blocks (map_of (layers t) i) \<in> {None, Some []})"
    if "dict_wf (layers t)" for t
  proof -
    have "unpinned t \<longleftrightarrow> (\<forall>i l. map_of (layers t) i = Some l \<longrightarrow> pinned_super_blocks l = [])"
      unfolding unpinned_def ran_distinct [OF that, symmetric] ran_def by blast
    also have "\<dots> \<longleftrightarrow> (\<forall>i. map_option pinned_super_blocks (map_of (layers t) i) \<in> {None, Some []})"
    proof (rule all_cong1)
      fix i show "(\<forall>l. map_of (layers t) i = Some l \<longrightarrow> pinned_super_blocks l = []) \<longleftrightarrow>
          map_option pinned_super_blocks (map_of (layers t) i) \<in> {None, Some []}"
        by (cases "map_of (layers t) i") auto
    qed
    finally show ?thesis .
  qed
  show "same_rest s s' \<Longrightarrow> dict_wf (layers s) \<Longrightarrow> dict_wf (layers s') \<Longrightarrow> unpinned s' = unpinned s"
    by (simp add: * same_rest_def)
qed

lemma broadcast_loop:
  assumes "layers_ok s" "bytes_ok s" "dict_wf (layers s)"
    and "\<forall>i \<in> set hs. \<exists>l. map_of (layers s) i = Some l \<and> sb \<notin> set (pinned_super_blocks l)"
  shows "runs_to (for_each (broadcast_drop_one sb) hs s) (\<lambda>_ s'. layers_ok s' \<and> bytes_ok s' \<and> dict_wf (layers s') \<and>
     same_rest s s' \<and> super_block_holder s' = super_block_holder s \<and>
     (\<forall>j b e. mapped s' j b e \<longleftrightarrow> mapped s j b e \<and> \<not> (j \<in> set hs \<and> b = sb)))"
  using assms
proof (induction hs arbitrary: s)
  case (Cons i hs)
  then obtain l where l: "map_of (layers s) i = Some l" "sb \<notin> set (pinned_super_blocks l)" by auto
  have one: "runs_to (broadcast_drop_one sb i s) (\<lambda>_ s1. \<exists>l'. s1 = put_layer i l' s \<and> same_layer l l' \<and>
     layers_ok s1 \<and> bytes_ok s1 \<and> (\<forall>j b e. mapped s1 j b e \<longleftrightarrow> mapped s j b e \<and> \<not> (j = i \<and> b = sb)))"
    unfolding broadcast_drop_one_def l(1) option.case post_rbind post_assert post_return if_P [OF l(2)]
    using drop_mapping [OF Cons.prems(1,2) l] by (rule runs_to_mono) blast
  show ?case
    unfolding for_each.simps post_rbind
  proof (rule runs_to_mono [OF one])
    fix u s1 assume "\<exists>l'. s1 = put_layer i l' s \<and> same_layer l l' \<and>
     layers_ok s1 \<and> bytes_ok s1 \<and> (\<forall>j b e. mapped s1 j b e \<longleftrightarrow> mapped s j b e \<and> \<not> (j = i \<and> b = sb))"
    then obtain l' where s1: "s1 = put_layer i l' s" "same_layer l l'" "layers_ok s1" "bytes_ok s1"
      "\<forall>j b e. mapped s1 j b e \<longleftrightarrow> mapped s j b e \<and> \<not> (j = i \<and> b = sb)" by blast
    have pin: "pinned_super_blocks l' = pinned_super_blocks l" using s1(2) by (rule same_layer_fields)
    have rest: "same_rest s s1" unfolding s1(1) using l(1) pin by (rule same_rest_put_layer)
    have "dict_wf (layers s1)" using Cons.prems(3) by (simp add: s1(1))
    moreover have "\<forall>j \<in> set hs. \<exists>k. map_of (layers s1) j = Some k \<and> sb \<notin> set (pinned_super_blocks k)"
      using Cons.prems(4) l pin by (auto simp: s1(1))
    ultimately have "runs_to (for_each (broadcast_drop_one sb) hs s1) (\<lambda>_ s'. layers_ok s' \<and> bytes_ok s' \<and> dict_wf (layers s') \<and>
       same_rest s1 s' \<and> super_block_holder s' = super_block_holder s1 \<and>
       (\<forall>j b e. mapped s' j b e \<longleftrightarrow> mapped s1 j b e \<and> \<not> (j \<in> set hs \<and> b = sb)))"
      using s1 by (intro Cons.IH)
    then show "runs_to (for_each (broadcast_drop_one sb) hs s1) (\<lambda>_ s'. layers_ok s' \<and> bytes_ok s' \<and> dict_wf (layers s') \<and>
       same_rest s s' \<and> super_block_holder s' = super_block_holder s \<and>
       (\<forall>j b e. mapped s' j b e \<longleftrightarrow> mapped s j b e \<and> \<not> (j \<in> set (i # hs) \<and> b = sb)))"
      by (rule runs_to_mono) (use s1 rest same_rest_trans in auto)
  qed
qed auto

lemma broadcast_ok:
  assumes v: "manager_view n P s" and u: "unpinned s" and sb: "sb \<in> fst ` set (super_block_holder s)"
  shows "runs_to (broadcast_drop_all_layers sb s) (\<lambda>_ s'. manager_view n P s' \<and> same_rest s s' \<and> unpinned s' \<and>
     held_pages s' = held_pages s - set (pages_of s sb) \<and>
     super_block_holder s' = AList.delete sb (super_block_holder s))"
proof -
  let ?s1 = "s\<lparr>super_block_holder := AList.delete sb (super_block_holder s)\<rparr>"
  have ok: "geometry_ok n s" "lru_ok P s" "layers_ok s" "holders_ok (holder_sets s) s" "bytes_ok s"
    using v by (auto simp: manager_view_def)
  have wf: "dict_wf (layers s)" "0 < pages_per_super_block s" using ok(1) by (auto simp: geometry_ok_def)
  have ok1: "layers_ok ?s1" "bytes_ok ?s1" "dict_wf (layers ?s1)"
    using ok wf by (auto simp: layers_ok_def bytes_ok_def shape_ok_def)
  have m1: "mapped ?s1 = mapped s" by (auto simp: fun_eq_iff mapped_def)
  have hs: "\<forall>i \<in> set (holders_of s sb). \<exists>l. map_of (layers ?s1) i = Some l \<and> sb \<notin> set (pinned_super_blocks l)"
  proof
    fix i assume "i \<in> set (holders_of s sb)"
    then obtain e where "mapped s i sb e" using ok(4) by (auto simp: holders_ok_def)
    then obtain l where "map_of (layers s) i = Some l" by (auto simp: mapped_def)
    moreover from this have "l \<in> snd ` set (layers s)" by (metis image_eqI map_of_SomeD snd_conv)
    ultimately show "\<exists>l. map_of (layers ?s1) i = Some l \<and> sb \<notin> set (pinned_super_blocks l)"
      using u by (auto simp: unpinned_def)
  qed
  have ne: "holders_of s sb \<noteq> []" using holders_key [OF ok(4)] sb by blast
  have run: "broadcast_drop_all_layers sb s = for_each (broadcast_drop_one sb) (holders_of s sb) ?s1"
    using ne by (simp add: broadcast_drop_all_layers_def Let_def)
  show ?thesis
    unfolding run
  proof (rule runs_to_mono [OF broadcast_loop [OF ok1 hs]])
    fix u' s'
    assume s': "layers_ok s' \<and> bytes_ok s' \<and> dict_wf (layers s') \<and> same_rest ?s1 s' \<and>
      super_block_holder s' = super_block_holder ?s1 \<and>
      (\<forall>j b e. mapped s' j b e \<longleftrightarrow> mapped ?s1 j b e \<and> \<not> (j \<in> set (holders_of s sb) \<and> b = sb))"
    have rest: "same_rest s s'" using same_rest_trans [OF same_rest_holder] s' by blast
    have holder: "super_block_holder s' = AList.delete sb (super_block_holder s)" using s' by simp
    have hof: "holders_of s' b = (if b = sb then [] else holders_of s b)" for b
      by (simp add: holders_of_def holder)
    have map': "mapped s' j b e \<longleftrightarrow> mapped s j b e \<and> b \<noteq> sb" for j b e
      using s' ok(4) by (auto simp: m1 holders_ok_def)
    have "holders_ok (holder_sets s') s'"
      using ok(4) rest by (auto simp: holders_ok_def holder hof map' same_rest_def AList.delete_eq distinct_map_filter)
    moreover have "geometry_ok n s'" "lru_ok P s'"
      using ok rest s' by (auto simp: geometry_ok_def lru_ok_def same_rest_def)
    ultimately have "manager_view n P s'" using s' by (simp add: manager_view_def)
    moreover have "unpinned s'" using unpinned_rest [OF rest wf(1)] s' u by blast
    moreover have "held_pages s' = held_pages s - set (pages_of s sb)"
    proof -
      have F: "pages_per_super_block s' = pages_per_super_block s" using rest by (simp add: same_rest_def)
      then have "super_block_of_page s' = super_block_of_page s" by (simp add: fun_eq_iff super_block_of_page_def)
      with F wf(2) show ?thesis
        by (intro set_eqI) (simp add: held_iff mem_pages_of holder conj_commute)
    qed
    ultimately show "manager_view n P s' \<and> same_rest s s' \<and> unpinned s' \<and>
       held_pages s' = held_pages s - set (pages_of s sb) \<and>
       super_block_holder s' = AList.delete sb (super_block_holder s)"
      using rest holder by blast
  qed
qed

lemma broadcast_absent:
  assumes "sb \<notin> fst ` set (super_block_holder s)"
  shows "broadcast_drop_all_layers sb s = Inr ((), s)"
proof -
  have "map_of (super_block_holder s) sb = None" "AList.delete sb (super_block_holder s) = super_block_holder s"
    using assms by (simp_all add: map_of_eq_None_iff delete_id)
  then show ?thesis by (simp add: broadcast_drop_all_layers_def holders_of_def return_def)
qed

lemma kv_allocation_absent:
  assumes "0 < pages_per_super_block s" "set bs \<inter> held_pages s = {}"
  shows "kv_allocation_loop seen bs s = Inr ((), s)"
  using assms(2)
proof (induction bs arbitrary: seen)
  case (Cons b bs)
  then have "super_block_of_page s b \<notin> fst ` set (super_block_holder s)"
    using held_iff [OF assms(1)] by auto
  with Cons show ?case by (simp add: Let_def broadcast_absent)
qed (simp add: return_def)

section \<open>The coldest expert super-block\<close>

definition stamp_at :: "unified_manager \<Rightarrow> nat \<Rightarrow> nat \<Rightarrow> int" where
  "stamp_at s i sb =
     (case map_of (layers s) i of
        Some l \<Rightarrow> (case map_of (expert_at_super_block l) sb of
                     Some e \<Rightarrow> (case map_of (expert_lru l) e of Some st \<Rightarrow> st | None \<Rightarrow> 0) | None \<Rightarrow> 0)
      | None \<Rightarrow> 0)"

text \<open>The score of a super-block: its coldest holder.\<close>

definition coldest_stamp :: "unified_manager \<Rightarrow> nat \<Rightarrow> int" where
  "coldest_stamp s sb = Min ((\<lambda>i. stamp_at s i sb) ` set (holders_of s sb))"

lemma holder_steps_eq:
  assumes "layers_ok s" "\<forall>i \<in> set hs. \<exists>e. mapped s i sb e"
  shows "holder_steps s sb hs = Some (map (\<lambda>i. stamp_at s i sb) hs)"
  using assms(2)
proof (induction hs)
  case (Cons i hs)
  then obtain l e where l: "map_of (layers s) i = Some l" "map_of (expert_at_super_block l) sb = Some e"
    by (auto simp: mapped_def)
  then have ok: "layer_ok (step s) l" using assms(1) by (auto simp: layers_ok_def)
  then have "map_of (super_block_at_expert l) e = Some sb" using l experts.inverse by blast
  then have "e \<in> fst ` set (expert_lru l)" using experts.stamped [OF ok] by (metis domI)
  then obtain st where "map_of (expert_lru l) e = Some st" by (auto simp: map_of_keys)
  with l Cons show ?case by (simp add: stamp_at_def)
qed simp

definition better :: "(nat \<times> int) option \<Rightarrow> (nat \<times> int) option \<Rightarrow> bool" where
  "better r best \<longleftrightarrow> (\<forall>x. best = Some x \<longrightarrow> (\<exists>y. r = Some y \<and> snd y \<le> snd x))"

lemma oldest_expert_loop_spec:
  assumes "\<forall>(sb, hs) \<in> set d. hs \<noteq> [] \<and> holder_steps s sb hs = Some (map (\<lambda>i. stamp_at s i sb) hs)"
  shows "\<exists>r. oldest_expert_loop s d best = Inr r \<and> better r best \<and>
     (\<forall>(sb, hs) \<in> set d. \<not> any_layer_pins_super_block s sb \<longrightarrow>
        better r (Some (sb, Min ((\<lambda>i. stamp_at s i sb) ` set hs)))) \<and>
     (r = best \<or> (\<exists>(sb, hs) \<in> set d. \<not> any_layer_pins_super_block s sb \<and>
        r = Some (sb, Min ((\<lambda>i. stamp_at s i sb) ` set hs))))"
  using assms
proof (induction d arbitrary: best)
  case Nil
  then show ?case by (auto simp: better_def)
next
  case (Cons x d)
  obtain sb hs where x: "x = (sb, hs)" by (cases x)
  show ?case
  proof (cases "any_layer_pins_super_block s sb")
    case True
    then have "oldest_expert_loop s (x # d) best = oldest_expert_loop s d best" by (simp add: x)
    with Cons.IH [of best] Cons.prems True show ?thesis by (auto simp: x)
  next
    case False
    let ?m = "Min ((\<lambda>i. stamp_at s i sb) ` set hs)"
    let ?b = "case best of None \<Rightarrow> Some (sb, ?m) | Some (sb', st') \<Rightarrow> if ?m < st' then Some (sb, ?m) else best"
    obtain y ys where ys: "holder_steps s sb hs = Some (y # ys)" "Min (set (y # ys)) = ?m"
      using Cons.prems by (cases hs) (auto simp: x)
    have "oldest_expert_loop s (x # d) best = oldest_expert_loop s d ?b"
      unfolding x oldest_expert_loop.simps if_not_P [OF False] ys(1) option.case list.case Let_def ys(2) by (rule refl)
    moreover obtain r where r: "oldest_expert_loop s d ?b = Inr r" "better r ?b"
      "\<forall>(sb, hs) \<in> set d. \<not> any_layer_pins_super_block s sb \<longrightarrow> better r (Some (sb, Min ((\<lambda>i. stamp_at s i sb) ` set hs)))"
      "r = ?b \<or> (\<exists>(sb, hs) \<in> set d. \<not> any_layer_pins_super_block s sb \<and> r = Some (sb, Min ((\<lambda>i. stamp_at s i sb) ` set hs)))"
      using Cons.IH [of ?b] Cons.prems by auto
    moreover have "better r best" "better r (Some (sb, ?m))"
      using r(2) by (auto simp: better_def split: option.splits if_splits prod.splits)
    moreover have "?b = best \<or> ?b = Some (sb, ?m)" by (auto split: option.splits)
    ultimately show ?thesis using False by (auto simp: x)
  qed
qed

lemma view_holder_entry:
  assumes v: "manager_view n P s" and m: "(sb, hs) \<in> set (super_block_holder s)"
  shows "hs = holders_of s sb \<and> hs \<noteq> [] \<and> holder_steps s sb hs = Some (map (\<lambda>i. stamp_at s i sb) hs)"
proof -
  have h: "holders_ok (holder_sets s) s" and l: "layers_ok s" using v by (auto simp: manager_view_def)
  have "map_of (super_block_holder s) sb = Some hs" using h m by (simp add: holders_ok_def)
  then have eq: "hs = holders_of s sb" by (simp add: holders_of_def)
  moreover have "hs \<noteq> []" using h m by (auto simp: holders_ok_def image_iff)
  moreover have "holder_steps s sb hs = Some (map (\<lambda>i. stamp_at s i sb) hs)"
    using l h eq by (intro holder_steps_eq) (auto simp: holders_ok_def)
  ultimately show ?thesis by blast
qed

text \<open>The victim on the expert side is the unpinned super-block with the coldest holder.\<close>

lemma oldest_global_expert_spec:
  assumes v: "manager_view n P s"
  shows "\<exists>r. oldest_global_expert s = Inr r \<and>
     (\<forall>sb st. r = Some (sb, st) \<longrightarrow> sb \<in> fst ` set (super_block_holder s) \<and> \<not> any_layer_pins_super_block s sb \<and>
        st = coldest_stamp s sb) \<and>
     (\<forall>sb \<in> fst ` set (super_block_holder s). \<not> any_layer_pins_super_block s sb \<longrightarrow>
        (\<exists>y. r = Some y \<and> snd y \<le> coldest_stamp s sb))"
proof -
  have "\<forall>(sb, hs) \<in> set (super_block_holder s). hs \<noteq> [] \<and> holder_steps s sb hs = Some (map (\<lambda>i. stamp_at s i sb) hs)"
    using view_holder_entry [OF v] by auto
  from oldest_expert_loop_spec [OF this, of None] obtain r where
    r: "oldest_global_expert s = Inr r"
    "\<forall>(sb, hs) \<in> set (super_block_holder s). \<not> any_layer_pins_super_block s sb \<longrightarrow>
        better r (Some (sb, Min ((\<lambda>i. stamp_at s i sb) ` set hs)))"
    "r = None \<or> (\<exists>(sb, hs) \<in> set (super_block_holder s). \<not> any_layer_pins_super_block s sb \<and>
        r = Some (sb, Min ((\<lambda>i. stamp_at s i sb) ` set hs)))"
    by (auto simp: oldest_global_expert_def)
  have score: "Min ((\<lambda>i. stamp_at s i sb) ` set hs) = coldest_stamp s sb" if "(sb, hs) \<in> set (super_block_holder s)" for sb hs
    using view_holder_entry [OF v that] by (simp add: coldest_stamp_def)
  show ?thesis
    by (rule exI [of _ r]) (use r score in \<open>force simp: better_def\<close>)
qed

section \<open>Taking pages off the free queue\<close>

abbreviation manager_synced :: "nat \<Rightarrow> nat set \<Rightarrow> unified_manager \<Rightarrow> bool" where
  "manager_synced n fl s \<equiv> synced (manager_view n) held_pages fl s"

lemma manager_syncedD:
  assumes "manager_synced n fl s"
  shows "pool_inv fl s" "manager_view n (cached_free s) s" "held_pages s \<subseteq> {p \<in> free_set s. hash_at s p = None}"
    "ids_ok s" "queue_ok fl s" "cache_ok s" "fq_wf (free_block_queue s)" "0 < pages_per_super_block s"
    "layers_ok s" "holders_ok (holder_sets s) s" "bytes_ok s" "lru_ok (cached_free s) s" "geometry_ok n s"
    "dict_wf (layers s)" "lru_wf (prefix_lru s)"
  using assms
  by (auto simp: synced_def listens_def pool_inv_def manager_view_def queue_ok_def geometry_ok_def lru_ok_def)

text \<open>Removing one free page leaves the pool consistent with that page in flight.\<close>

lemma dequeue_one:
  assumes q: "queue_ok fl s" and b: "b \<in> free_set s"
  shows "runs_to (on_queue (fq_remove b) s) (\<lambda>_ s'. \<exists>q'. s' = s\<lparr>free_block_queue := q'\<rparr> \<and>
     queue_ok (insert b fl) s' \<and> free_set s' = free_set s - {b} \<and>
     num_free_blocks q' = num_free_blocks (free_block_queue s) - 1)"
proof -
  have w: "fq_wf (free_block_queue s)" using q by (simp add: queue_ok_def)
  show ?thesis
    unfolding on_queue_def post_on_part
  proof (rule runs_to_mono [OF fq.remove_member_set [OF w]])
    show "b \<in> set (free_ids (free_block_queue s))" using b by (simp add: free_set_def)
  next
    fix u q' assume q': "fq_wf q' \<and> set (free_ids q') = set (free_ids (free_block_queue s)) - {b} \<and>
      num_free_blocks q' = num_free_blocks (free_block_queue s) - 1"
    then show "\<exists>q''. s\<lparr>free_block_queue := q'\<rparr> = s\<lparr>free_block_queue := q''\<rparr> \<and>
       queue_ok (insert b fl) (s\<lparr>free_block_queue := q'\<rparr>) \<and> free_set (s\<lparr>free_block_queue := q'\<rparr>) = free_set s - {b} \<and>
       num_free_blocks q'' = num_free_blocks (free_block_queue s) - 1"
      using queue_ok_take [OF q, of q' "{b}"] b by (auto simp: free_set_def)
  qed
qed

text \<open>What a victim pick promises.\<close>

text \<open>The fields that only the expert side writes.\<close>

definition frozen :: "unified_manager \<Rightarrow> nat \<times> nat \<times> nat \<times> int \<times> bool \<times> bool \<times> (nat, byte list) dict" where
  "frozen s = (pages_per_super_block s, page_size_bytes s, num_super_blocks s, step s, relocation_enabled s,
     kv_score_oldest s, kv_pool_buffers s)"

definition picked :: "nat \<Rightarrow> nat set \<Rightarrow> unified_manager \<Rightarrow> nat \<Rightarrow> unified_manager \<Rightarrow> bool" where
  "picked n fl s b s' \<longleftrightarrow> b \<in> free_set s \<and> manager_synced n (insert b fl) s' \<and> unpinned s' \<and>
     free_set s' = free_set s - {b} \<and> base (s'\<lparr>free_block_queue := free_block_queue s\<rparr>) = base s \<and>
     num_free_blocks (free_block_queue s') = num_free_blocks (free_block_queue s) - 1 \<and> frozen s' = frozen s"

lemma frozen_more: "block_pool.more s = block_pool.more t \<Longrightarrow> frozen s = frozen t"
  using view_more [of s t] by (simp add: frozen_def)

lemma take_queue_page:
  assumes J: "manager_synced n fl s" "unpinned s" and b: "b \<in> free_set s" "hash_at s b = None" "b \<notin> held_pages s"
  shows "runs_to (on_queue (fq_remove b) s) (\<lambda>_ s'. picked n fl s b s')"
proof -
  note D = manager_syncedD [OF J(1)]
  show ?thesis
  proof (rule runs_to_mono [OF dequeue_one [OF D(5) b(1)]])
    fix u s' assume "\<exists>q'. s' = s\<lparr>free_block_queue := q'\<rparr> \<and> queue_ok (insert b fl) s' \<and>
      free_set s' = free_set s - {b} \<and> num_free_blocks q' = num_free_blocks (free_block_queue s) - 1"
    then obtain q' where s': "s' = s\<lparr>free_block_queue := q'\<rparr>" "queue_ok (insert b fl) s'"
      "free_set s' = free_set s - {b}" "num_free_blocks q' = num_free_blocks (free_block_queue s) - 1" by blast
    have m: "block_pool.more s' = block_pool.more s" by (simp add: s'(1))
    have h: "hash_at s' = hash_at s" by (simp add: s'(1))
    have "cached_free s' = cached_free s" unfolding cached_free_def h s'(3) using b(2) by auto
    moreover have "ids_ok s'" "cache_ok s'" using D(4,6) by (simp_all add: s'(1))
    moreover have "held_pages s' \<subseteq> {p \<in> free_set s'. hash_at s' p = None}"
      unfolding view_more(2) [OF m] h s'(3) using D(3) b(3) by auto
    moreover have "base (s'\<lparr>free_block_queue := free_block_queue s\<rparr>) = base s"
      "num_free_blocks (free_block_queue s') = num_free_blocks (free_block_queue s) - 1"
      using s'(4) by (simp_all add: s'(1) base_eq_iff)
    ultimately show "picked n fl s b s'"
      using D(2) J(2) b(1) s'(2,3) view_more(1,3) [OF m] frozen_more [OF m]
      by (simp add: picked_def synced_def listens_def pool_inv_def)
  qed
qed

lemma kv_take_prefix_page_ok:
  assumes J: "manager_synced n fl s" "unpinned s" and b: "b \<in> cached_free s"
  shows "runs_to (kv_take_prefix_page b s) (\<lambda>r s'. r = b \<and> picked n fl s b s')"
proof -
  note D = manager_syncedD [OF J(1)]
  have free: "b \<in> free_set s" and len: "b < length (blocks s)" and h: "hash_at s b \<noteq> None"
    using b D(5) by (auto simp: cached_free_def queue_ok_def)
  have run: "kv_take_prefix_page b s = rbind (on_queue (fq_remove b) s)
      (\<lambda>_ s. return b (s\<lparr>prefix_lru := snd (lru_pop b (prefix_lru s))\<rparr>))"
    using len by (simp add: kv_take_prefix_page_def get_block_def return_def)
  show ?thesis
    unfolding run post_rbind post_return
  proof (rule runs_to_mono [OF dequeue_one [OF D(5) free]])
    fix u s1 assume "\<exists>q'. s1 = s\<lparr>free_block_queue := q'\<rparr> \<and> queue_ok (insert b fl) s1 \<and>
      free_set s1 = free_set s - {b} \<and> num_free_blocks q' = num_free_blocks (free_block_queue s) - 1"
    then obtain q' where s1: "s1 = s\<lparr>free_block_queue := q'\<rparr>" "queue_ok (insert b fl) s1"
      "free_set s1 = free_set s - {b}" "num_free_blocks q' = num_free_blocks (free_block_queue s) - 1" by blast
    let ?s' = "s1\<lparr>prefix_lru := snd (lru_pop b (prefix_lru s1))\<rparr>"
    have fs: "free_set ?s' = free_set s - {b}" using s1(3) by (simp add: free_set_def)
    have h': "hash_at ?s' = hash_at s" "ref_at ?s' = ref_at s" by (auto simp: s1(1) fun_eq_iff pool_views)
    have cf: "cached_free ?s' = cached_free s - {b}" unfolding cached_free_def fs h' by auto
    have "queue_ok (insert b fl) ?s'" by (rule queue_ok_cong [OF s1(2)]) (simp_all add: s1(1) pool_views fun_eq_iff)
    moreover have "cache_ok ?s'" using D(6) by (rule cache_ok_cong) (simp_all add: s1(1) pool_views fun_eq_iff)
    moreover have "ids_ok ?s'" using D(4) by (simp add: ids_ok_def s1(1))
    ultimately have pool: "pool_inv (insert b fl) ?s'" by (simp add: pool_inv_def)
    have lru: "lru_ok (cached_free ?s') ?s'"
      using D(12) plru.pop_ordered [of "prefix_lru s" "step s" b] plru.pop_pages [of "prefix_lru s" b]
        plru.pop_items [of "prefix_lru s" b] unfolding cf by (simp add: lru_ok_def s1(1))
    have rest: "geometry_ok n ?s'" "layers_ok ?s'" "bytes_ok ?s'" "holders_ok (holder_sets ?s') ?s'"
      using D view_fields [of ?s' s] by (simp_all add: s1(1))
    have held: "held_pages ?s' = held_pages s" by (simp add: held_pages_def pages_of_def s1(1))
    have "held_pages ?s' \<subseteq> {p \<in> free_set ?s'. hash_at ?s' p = None}"
      unfolding held fs h' using D(3) h by auto
    moreover have "unpinned ?s'" using J(2) by (simp add: unpinned_def s1(1))
    moreover have "base (?s'\<lparr>free_block_queue := free_block_queue s\<rparr>) = base s"
      by (simp add: s1(1) base_eq_iff)
    ultimately show "b = b \<and> picked n fl s b ?s'"
      using pool lru rest free fs s1(1,4) by (simp add: picked_def synced_def listens_def manager_view_def frozen_def)
  qed
qed

lemma synced_base_view:
  assumes "manager_synced n fl s" "base s' = base s" "manager_view n (cached_free s) s'" "held_pages s' \<subseteq> held_pages s"
  shows "manager_synced n fl s'"
  using assms base_views [OF assms(2)] by (auto simp: synced_def listens_def)

lemma picked_base: "picked n fl s1 b s' \<Longrightarrow> base s1 = base s \<Longrightarrow> frozen s1 = frozen s \<Longrightarrow> picked n fl s b s'"
  using base_views(3) [of s1 s] by (simp add: picked_def base_eq_iff)

lemma kv_take_page_evicting_expert_ok:
  assumes J: "manager_synced n fl s" "unpinned s" and sb: "sb \<in> fst ` set (super_block_holder s)"
  shows "runs_to (kv_take_page_evicting_expert sb s) (\<lambda>b s'. b \<in> set (pages_of s sb) \<and> picked n fl s b s')"
  unfolding kv_take_page_evicting_expert_def post_rbind
proof (rule runs_to_mono [OF broadcast_ok [OF manager_syncedD(2) [OF J(1)] J(2) sb]])
  note D = manager_syncedD [OF J(1)]
  fix u s1
  assume s1: "manager_view n (cached_free s) s1 \<and> same_rest s s1 \<and> unpinned s1 \<and>
     held_pages s1 = held_pages s - set (pages_of s sb) \<and>
     super_block_holder s1 = AList.delete sb (super_block_holder s)"
  then have b1: "base s1 = base s" and F: "pages_per_super_block s1 = pages_per_super_block s"
    by (simp_all add: same_rest_def)
  have f1: "frozen s1 = frozen s" using s1 by (simp add: same_rest_def frozen_def)
  have v1: "manager_view n (cached_free s) s1" and h1: "held_pages s1 = held_pages s - set (pages_of s sb)"
    using s1 by simp_all
  have J1: "manager_synced n fl s1" using J(1) b1 v1 by (rule synced_base_view) (simp add: h1 Diff_subset)
  define p where "p = sb * pages_per_super_block s"
  have pages: "pages_of s1 sb = p # [Suc p ..< p + pages_per_super_block s]"
    using D(8) by (simp add: pages_of_def F p_def upt_conv_Cons)
  have mem: "p \<in> set (pages_of s sb)" using D(8) by (simp add: pages_of_def p_def)
  then have held: "p \<in> held_pages s" using sb by (auto simp: held_pages_def)
  have "0 < sb" using D(10) sb by (auto simp: holders_ok_def)
  then have "0 < p" using D(8) by (simp add: p_def)
  have p: "p \<in> free_set s1" "hash_at s1 p = None" "p \<notin> held_pages s1"
    unfolding base_views(2,3) [OF b1] h1 using held D(3) mem by auto
  have "p < length (blocks s1)" using p(1) manager_syncedD(5) [OF J1] by (auto simp: queue_ok_def)
  moreover from this have "\<not> is_null (blocks s1 ! p)"
    using manager_syncedD(4) [OF J1] \<open>0 < p\<close> by (simp add: ids_ok_def)
  ultimately have run: "take_first_page (pages_of s1 sb) s1 = rbind (on_queue (fq_remove p) s1) (\<lambda>_. return p)"
    unfolding pages by (simp add: get_block_def return_def)
  have "unpinned s1" using s1 by blast
  show "runs_to (take_first_page (pages_of s1 sb) s1) (\<lambda>b s'. b \<in> set (pages_of s sb) \<and> picked n fl s b s')"
    unfolding run post_rbind post_return
    by (rule runs_to_mono [OF take_queue_page [OF J1 \<open>unpinned s1\<close> p]]) (use mem b1 f1 picked_base in blast)
qed

lemma pick_one_kv_victim_ok:
  assumes J: "manager_synced n fl s" "unpinned s" and some: "free_set s \<noteq> {}"
  shows "runs_to (pick_one_kv_victim s) (\<lambda>b s'. picked n fl s b s')"
proof -
  note D = manager_syncedD [OF J(1)]
  let ?ids = "free_ids (free_block_queue s)" and ?items = "lru_items (prefix_lru s)"
  let ?unpinned = "\<lambda>(b, _ :: int). \<not> any_layer_pins_super_block s (super_block_of_page s b)"
  have walk: "free_walk (free_block_queue s) = Some ?ids" using D(7) by (rule fq.walk_ids)
  have items: "coldest_first (prefix_lru s) = Some ?items" using D(15) by (rule plru.walk_items)
  have pages: "fst ` set ?items = cached_free s" using D(12) by (simp add: lru_ok_def)
  note pins = unpinned_pins [OF J(2)]
  show ?thesis
  proof (cases "find (truly_free s) ?ids")
    case (Some b)
    then have b: "b \<in> free_set s" "truly_free s b" by (auto simp: find_Some_iff free_set_def)
    then have "hash_at s b = None" "b \<notin> held_pages s"
      using holders_key [OF D(10)] held_iff [OF D(8)] by (auto simp: truly_free_def hash_at_def)
    with take_queue_page [OF J b(1)] show ?thesis
      by (simp add: pick_one_kv_victim_def walk Some post_rbind)
  next
    case None
    obtain r where r0: "oldest_global_expert s = Inr r \<and>
     (\<forall>sb st. r = Some (sb, st) \<longrightarrow> sb \<in> fst ` set (super_block_holder s) \<and> \<not> any_layer_pins_super_block s sb \<and>
        st = coldest_stamp s sb) \<and>
     (\<forall>sb \<in> fst ` set (super_block_holder s). \<not> any_layer_pins_super_block s sb \<longrightarrow>
        (\<exists>y. r = Some y \<and> snd y \<le> coldest_stamp s sb))"
      using oldest_global_expert_spec [OF D(2)] by (rule exE)
    then have r: "oldest_global_expert s = Inr r"
      "\<forall>sb st. r = Some (sb, st) \<longrightarrow> sb \<in> fst ` set (super_block_holder s)"
      by auto
    have r3: "r \<noteq> None" if "sb \<in> fst ` set (super_block_holder s)" for sb
      using r0 pins [of sb] that by (metis option.distinct(1))
    have "?items \<noteq> [] \<or> r \<noteq> None"
    proof -
      obtain b where b: "b \<in> free_set s" using some by blast
      with None have "\<not> truly_free s b" by (auto simp: find_None_iff free_set_def)
      then have "hash_at s b \<noteq> None \<or> holders_of s (super_block_of_page s b) \<noteq> []"
        using pins by (auto simp: truly_free_def hash_at_def)
      with b pages r3 holders_key [OF D(10)] show ?thesis by (force simp: cached_free_def)
    qed
    have fnd: "find ?unpinned ?items = (case ?items of [] \<Rightarrow> None | x # _ \<Rightarrow> Some x)"
      using pins by (cases ?items) auto
    have expert: "runs_to (kv_take_page_evicting_expert sb s) (\<lambda>b s'. picked n fl s b s')" if "r = Some (sb, st)" for sb st
      using kv_take_page_evicting_expert_ok [OF J] r(2) that by (blast intro: runs_to_mono)
    have prefix: "runs_to (kv_take_prefix_page b s) (\<lambda>b' s'. picked n fl s b' s')" if "?items = (b, st) # xs" for b st xs
    proof -
      have "b \<in> cached_free s" using pages that by force
      from kv_take_prefix_page_ok [OF J this] show ?thesis by (rule runs_to_mono) simp
    qed
    show ?thesis
      unfolding pick_one_kv_victim_def walk option.case None r(1) sum.case items fnd
      using expert prefix \<open>?items \<noteq> [] \<or> r \<noteq> None\<close>
      by (cases r; cases ?items) (auto split: prod.splits)
  qed
qed

lemma pick_all:
  assumes "manager_synced n fl s" "unpinned s" "int (length xs) \<le> get_num_free_blocks s"
  shows "runs_to (collect_each (\<lambda>_. pick_one_kv_victim) xs s) (\<lambda>ret s'. manager_synced n (fl \<union> set ret) s' \<and> unpinned s' \<and>
     distinct ret \<and> length ret = length xs \<and> set ret \<subseteq> free_set s \<and>
     base (s'\<lparr>free_block_queue := free_block_queue s\<rparr>) = base s \<and>
     num_free_blocks (free_block_queue s') = num_free_blocks (free_block_queue s) - int (length xs) \<and> frozen s' = frozen s)"
  using assms
proof (induction xs arbitrary: s fl)
  case (Cons x xs)
  note D = manager_syncedD [OF Cons.prems(1)]
  have "free_set s \<noteq> {}"
    using Cons.prems(3) fq.num_ids [OF D(7)] by (auto simp: get_num_free_blocks_def free_set_def)
  note one = pick_one_kv_victim_ok [OF Cons.prems(1,2) this]
  show ?case
    unfolding collect_each.simps post_rbind post_return
  proof (rule runs_to_mono [OF one])
    fix b s1 assume s1: "picked n fl s b s1"
    have J1: "manager_synced n (insert b fl) s1" "unpinned s1" "int (length xs) \<le> get_num_free_blocks s1"
      using s1 Cons.prems(3) by (auto simp: picked_def get_num_free_blocks_def)
    show "runs_to (collect_each (\<lambda>_. pick_one_kv_victim) xs s1) (\<lambda>ys s'.
       manager_synced n (fl \<union> set (b # ys)) s' \<and> unpinned s' \<and>
       distinct (b # ys) \<and> length (b # ys) = length (x # xs) \<and> set (b # ys) \<subseteq> free_set s \<and>
       base (s'\<lparr>free_block_queue := free_block_queue s\<rparr>) = base s \<and>
       num_free_blocks (free_block_queue s') = num_free_blocks (free_block_queue s) - int (length (x # xs)) \<and> frozen s' = frozen s)"
    proof (rule runs_to_mono [OF Cons.IH [OF J1]])
      fix ys s'
      assume s': "manager_synced n (insert b fl \<union> set ys) s' \<and> unpinned s' \<and> distinct ys \<and> length ys = length xs \<and>
         set ys \<subseteq> free_set s1 \<and> base (s'\<lparr>free_block_queue := free_block_queue s1\<rparr>) = base s1 \<and>
         num_free_blocks (free_block_queue s') = num_free_blocks (free_block_queue s1) - int (length xs) \<and> frozen s' = frozen s1"
      have "insert b fl \<union> set ys = fl \<union> set (b # ys)" by auto
      with s' s1 show "manager_synced n (fl \<union> set (b # ys)) s' \<and> unpinned s' \<and>
         distinct (b # ys) \<and> length (b # ys) = length (x # xs) \<and> set (b # ys) \<subseteq> free_set s \<and>
         base (s'\<lparr>free_block_queue := free_block_queue s\<rparr>) = base s \<and>
         num_free_blocks (free_block_queue s') = num_free_blocks (free_block_queue s) - int (length (x # xs)) \<and> frozen s' = frozen s"
        by (auto simp: picked_def base_eq_iff)
    qed
  qed
qed simp

lemma select_kv_victim_blocks_ok:
  assumes "manager_synced n fl s" "unpinned s" "int k \<le> get_num_free_blocks s"
  shows "runs_to (select_kv_victim_blocks k s) (\<lambda>ret s'. manager_synced n (fl \<union> set ret) s' \<and> unpinned s' \<and>
     distinct ret \<and> length ret = k \<and> set ret \<subseteq> free_set s \<and>
     base (s'\<lparr>free_block_queue := free_block_queue s\<rparr>) = base s \<and> frozen s' = frozen s)"
proof (cases "k = 0")
  case True
  with assms show ?thesis by (simp add: select_kv_victim_blocks_def base_eq_iff)
next
  case False
  have "0 \<le> num_free_blocks (free_block_queue s) - int k" using assms(3) by (simp add: get_num_free_blocks_def)
  with pick_all [OF assms(1,2), of "[0..<k]"] assms(3) False show ?thesis
    by (auto simp: select_kv_victim_blocks_def post_rbind post_assert elim!: runs_to_mono)
qed

section \<open>The manager is a listener of the block pool\<close>

lemma manager_callbacks_simps [simp]:
  "on_allocation_callbacks manager_callbacks = [on_kv_allocation]"
  "on_prefix_added_callbacks manager_callbacks = [on_prefix_added]"
  "on_prefix_removed_callbacks manager_callbacks = [on_prefix_removed]"
  "kv_victim_selector manager_callbacks = Some select_kv_victim_blocks"
  by (simp_all add: manager_callbacks_def register_kv_victim_selector_def register_on_prefix_removed_callback_def
      register_on_prefix_added_callback_def register_on_allocation_callback_def no_callbacks_def)

lemma lru_update_view:
  assumes v: "manager_view n P s" and l: "lru_wf l" "fst ` set (lru_items l) = P'" "recency_ordered (step s) (lru_items l)"
  shows "manager_view n P' (s\<lparr>prefix_lru := l\<rparr>)" "held_pages (s\<lparr>prefix_lru := l\<rparr>) = held_pages s"
    "unpinned (s\<lparr>prefix_lru := l\<rparr>) = unpinned s" "base (s\<lparr>prefix_lru := l\<rparr>) = base s"
  using assms view_fields [of "s\<lparr>prefix_lru := l\<rparr>" s]
  by (simp_all add: manager_view_def lru_ok_def base_eq_iff)

text \<open>The manager's view, with the fields \<open>fz\<close> that no operation of the block pool changes.\<close>

interpretation manager: pool_listener manager_callbacks "\<lambda>P s. manager_view n P s \<and> frozen s = fz" held_pages unpinned for n fz
proof (unfold_locales, goal_cases)
  case (1 s t P)
  then show ?case using view_more [of s t] frozen_more [of s t] by simp
next
  case (2 P s p)
  then have v: "manager_view n P s" and l: "lru_ok P s" by (simp_all add: manager_view_def)
  have "lru_wf (lru_touch p (step s) (prefix_lru s))" "fst ` set (lru_items (lru_touch p (step s) (prefix_lru s))) = insert p P"
    "recency_ordered (step s) (lru_items (lru_touch p (step s) (prefix_lru s)))"
    using l plru.touch_items [of "prefix_lru s" p "step s"] plru.touch_pages [of "prefix_lru s" p "step s"]
      plru.touch_ordered [of "prefix_lru s" "step s" p] by (auto simp: lru_ok_def)
  from lru_update_view [OF v this] 2 show ?case
    by (simp add: fire_def on_prefix_added_def return_def frozen_def)
next
  case (3 P s p)
  then have v: "manager_view n P s" and l: "lru_ok P s" by (simp_all add: manager_view_def)
  have "lru_wf (snd (lru_pop p (prefix_lru s)))" "fst ` set (lru_items (snd (lru_pop p (prefix_lru s)))) = P - {p}"
    "recency_ordered (step s) (lru_items (snd (lru_pop p (prefix_lru s))))"
    using l plru.pop_items [of "prefix_lru s" p] plru.pop_pages [of "prefix_lru s" p]
      plru.pop_ordered [of "prefix_lru s" "step s" p] by (auto simp: lru_ok_def)
  from lru_update_view [OF v this] 3 show ?case
    by (simp add: fire_def on_prefix_removed_def return_def frozen_def)
next
  case (4 P s bs)
  then have "0 < pages_per_super_block s" by (simp add: manager_view_def geometry_ok_def)
  with 4 show ?case by (simp add: fire_def on_kv_allocation_def kv_allocation_absent return_def)
next
  case (5 s k)
  then have J: "manager_synced n {} s" and fz: "frozen s = fz" by (simp_all add: synced_def listens_def)
  from select_kv_victim_blocks_ok [OF J 5(2,3)] show ?case
    unfolding pick_blocks_def manager_callbacks_simps option.case
    by (rule runs_to_mono) (use fz in \<open>simp add: synced_def listens_def\<close>)
qed

lemma frame_synced:
  "synced (\<lambda>P s. manager_view n P s \<and> frozen s = fz) held_pages fl s \<longleftrightarrow> manager_synced n fl s \<and> frozen s = fz"
  by (auto simp: synced_def listens_def)

text \<open>The operations of the block pool, on the manager's invariant.\<close>

lemma manager_evict:
  assumes "manager_synced n fl s" "b < length (blocks s)"
  shows "runs_to (maybe_evict_cached_block manager_callbacks b s) (\<lambda>r s'. manager_synced n fl s' \<and>
     r = (hash_at s b \<noteq> None) \<and> evicted b s s' \<and> held_pages s' = held_pages s \<and> unpinned s' = unpinned s \<and> frozen s' = frozen s)"
  using manager.evict_synced [of n "frozen s" fl s b] assms unfolding frame_synced by (auto elim!: runs_to_mono)

lemma manager_get_new_blocks:
  assumes "manager_synced n {} s" "unpinned s" "int k \<le> get_num_free_blocks s"
  shows "runs_to (get_new_blocks manager_callbacks k s) (\<lambda>ret s'. manager_synced n {} s' \<and> unpinned s' \<and> distinct ret \<and>
     length ret = k \<and> set ret \<subseteq> free_set s \<and> claimed (set ret) s s' \<and> frozen s' = frozen s)"
  using manager.get_new_blocks_ok [of n "frozen s" s k] assms unfolding frame_synced by (auto elim!: runs_to_mono)

lemma manager_touch:
  assumes "manager_synced n {} s" "\<forall>b \<in> set bs. b < length (blocks s) \<and> (b = 0 \<or> 0 < ref_at s b \<or> hash_at s b \<noteq> None)"
  shows "runs_to (touch manager_callbacks bs s) (\<lambda>_ s'. manager_synced n {} s' \<and>
     rereffed (\<lambda>i. ref_at s i + int (count_list bs i)) s s' \<and> unpinned s' = unpinned s \<and> frozen s' = frozen s)"
  using manager.touch_ok [of n "frozen s" s bs] assms unfolding frame_synced by (auto elim!: runs_to_mono)

lemma manager_free_blocks:
  assumes "manager_synced n {} s" "may_free bs s"
  shows "runs_to (free_blocks manager_callbacks bs s) (\<lambda>_ s'. manager_synced n {} s' \<and>
     rereffed (\<lambda>i. ref_at s i - int (count_list bs i)) s s' \<and>
     free_ids (free_block_queue s') = free_ids (free_block_queue s) @ last_refs bs s \<and>
     unpinned s' = unpinned s \<and> frozen s' = frozen s)"
  using manager.free_blocks_ok [of n "frozen s" s bs] assms unfolding frame_synced by (auto elim!: runs_to_mono)

lemma manager_evict_blocks:
  assumes "manager_synced n {} s" "\<forall>b \<in> set bs. b < length (blocks s)"
  shows "runs_to (evict_blocks manager_callbacks bs s) (\<lambda>_ s'. manager_synced n {} s' \<and> ref_at s' = ref_at s \<and>
     hash_at s' = (\<lambda>i. if i \<in> set bs then None else hash_at s i) \<and> length (blocks s') = length (blocks s) \<and>
     enable_caching s' = enable_caching s \<and> hash_block_size s' = hash_block_size s \<and>
     unpinned s' = unpinned s \<and> frozen s' = frozen s)"
  using manager.evict_blocks_ok [of n "frozen s" s bs] assms unfolding frame_synced by (auto elim!: runs_to_mono)

lemma manager_cache_full_blocks:
  assumes "manager_synced n {} s" "enable_caching s" "0 \<le> gid" "gid < 2 ^ 32"
    and "\<forall>b \<in> set (take (nf - nc) (drop nc blks)). b < length (blocks s) \<and> (b \<noteq> 0 \<longrightarrow> 0 < ref_at s b \<and> hash_at s b = None)"
    and "distinct (filter (\<lambda>b. b \<noteq> 0) blks)" "nc < nf" "nf \<le> length blks" "nf \<le> length (block_hashes r)"
      "nf \<le> length (group_hashes (hash_block_size s) bs r)"
  shows "runs_to (cache_full_blocks sha r blks nc nf bs gid s) (\<lambda>_ s'. manager_synced n {} s' \<and>
     ref_at s' = ref_at s \<and> free_block_queue s' = free_block_queue s \<and> length (blocks s') = length (blocks s) \<and>
     enable_caching s' = enable_caching s \<and> hash_block_size s' = hash_block_size s \<and>
     unpinned s' = unpinned s \<and> frozen s' = frozen s \<and>
     (\<forall>j. nc \<le> j \<and> j < nf \<and> blks ! j \<noteq> 0 \<longrightarrow> hash_at s' (blks ! j) \<noteq> None \<and>
        make_block_hash_with_group_id (group_hashes (hash_block_size s) bs r ! j) gid = Inr (the (hash_at s' (blks ! j)))) \<and>
     (\<forall>b. b \<notin> set (take (nf - nc) (drop nc blks)) \<longrightarrow> hash_at s' b = hash_at s b))"
proof -
  have "synced (\<lambda>P s'. manager_view n P s' \<and> frozen s' = frozen s) held_pages {} s"
    unfolding frame_synced using assms(1) by blast
  from manager.cache_full_blocks_ok [OF this assms(2-)] show ?thesis
    unfolding frame_synced by (rule runs_to_mono) blast
qed

end
