(* ===== verification/Expert_Path.thy ===== *)
theory Expert_Path
  imports Manager_Invariant "HOL-Library.Multiset"
begin

text \<open>
  The expert side of the unified pool: relocating and evicting cached KV pages to vacate a
  super-block, choosing a super-block for an expert, and \<open>ensure_loaded\<close>.
\<close>

section \<open>What a step keeps\<close>

text \<open>The fields that no KV-side bookkeeping touches.\<close>

definition keeps :: "unified_manager \<Rightarrow> unified_manager \<Rightarrow> bool" where
  "keeps s s' \<longleftrightarrow> layers s' = layers s \<and> super_block_holder s' = super_block_holder s \<and>
     pages_per_super_block s' = pages_per_super_block s \<and> page_size_bytes s' = page_size_bytes s \<and>
     num_super_blocks s' = num_super_blocks s \<and> step s' = step s \<and>
     relocation_enabled s' = relocation_enabled s \<and> kv_score_oldest s' = kv_score_oldest s \<and>
     dict_keys (kv_pool_buffers s') = dict_keys (kv_pool_buffers s) \<and>
     length (blocks s') = length (blocks s) \<and> ref_at s' = ref_at s \<and> free_block_queue s' = free_block_queue s \<and>
     enable_caching s' = enable_caching s \<and> hash_block_size s' = hash_block_size s"

lemma keeps_refl [simp]: "keeps s s"
  by (simp add: keeps_def)

lemma keeps_trans: "keeps s s' \<Longrightarrow> keeps s' s'' \<Longrightarrow> keeps s s''"
  by (simp add: keeps_def)

lemma keeps_views:
  assumes "keeps s s'"
  shows "pages_of s' = pages_of s" "super_block_of_page s' = super_block_of_page s" "holders_of s' = holders_of s"
    "any_layer_pins_super_block s' = any_layer_pins_super_block s" "held_pages s' = held_pages s"
    "unpinned s' = unpinned s" "mapped s' = mapped s" "free_set s' = free_set s"
  using assms
  by (simp_all add: keeps_def pages_of_def super_block_of_page_def holders_of_def any_layer_pins_super_block_def
      held_pages_def unpinned_def mapped_def free_set_def fun_eq_iff)

text \<open>The bytes of page \<open>p\<close> in the buffer of layer \<open>i\<close>.\<close>

definition page_bytes :: "unified_manager \<Rightarrow> nat \<Rightarrow> nat \<Rightarrow> byte list" where
  "page_bytes s i p =
     (case map_of (kv_pool_buffers s) i of
        Some buf \<Rightarrow> read_at (p * page_size_bytes s) (page_size_bytes s) buf | None \<Rightarrow> [])"

lemma page_bytes_cong:
  "kv_pool_buffers t = kv_pool_buffers s \<Longrightarrow> page_size_bytes t = page_size_bytes s \<Longrightarrow> page_bytes t = page_bytes s"
  by (simp add: fun_eq_iff page_bytes_def split: option.splits)

text \<open>
  No KV is lost or corrupted: a block in use keeps its bytes, and every cached block of the
  new state holds, in every layer, the bytes that a block with the same hash held before.
\<close>

definition kv_kept :: "unified_manager \<Rightarrow> unified_manager \<Rightarrow> bool" where
  "kv_kept s s' \<longleftrightarrow>
     (\<forall>p < length (blocks s). 0 < ref_at s p \<longrightarrow>
        ref_at s' p = ref_at s p \<and> hash_at s' p = hash_at s p \<and> (\<forall>i. page_bytes s' i p = page_bytes s i p)) \<and>
     (\<forall>p h. p < length (blocks s) \<and> hash_at s' p = Some h \<longrightarrow>
        (\<exists>q < length (blocks s). hash_at s q = Some h \<and> (\<forall>i. page_bytes s' i p = page_bytes s i q)))"

lemma kv_kept_refl [simp]: "kv_kept s s"
  by (auto simp: kv_kept_def)

lemma kv_kept_cached:
  assumes "kv_kept s s'" "p < length (blocks s)" "hash_at s' p = Some h"
  obtains q where "q < length (blocks s)" "hash_at s q = Some h" "\<forall>i. page_bytes s' i p = page_bytes s i q"
  using assms unfolding kv_kept_def by blast

lemma kv_kept_trans:
  assumes "kv_kept s s'" "kv_kept s' s''" "length (blocks s') = length (blocks s)"
  shows "kv_kept s s''"
  unfolding kv_kept_def
proof (intro conjI allI impI)
  fix p assume "p < length (blocks s)" "0 < ref_at s p"
  with assms show "ref_at s'' p = ref_at s p" "hash_at s'' p = hash_at s p"
    by (auto simp: kv_kept_def)
next
  fix p i assume "p < length (blocks s)" "0 < ref_at s p"
  with assms show "page_bytes s'' i p = page_bytes s i p" by (auto simp: kv_kept_def)
next
  fix p h assume "p < length (blocks s) \<and> hash_at s'' p = Some h"
  then obtain q where q: "q < length (blocks s')" "hash_at s' q = Some h" "\<forall>i. page_bytes s'' i p = page_bytes s' i q"
    using kv_kept_cached [OF assms(2), of p h] assms(3) by auto
  obtain r where "r < length (blocks s)" "hash_at s r = Some h" "\<forall>i. page_bytes s' i q = page_bytes s i r"
    using kv_kept_cached [OF assms(1), of q h] q assms(3) by auto
  with q show "\<exists>r < length (blocks s). hash_at s r = Some h \<and> (\<forall>i. page_bytes s'' i p = page_bytes s i r)" by auto
qed

section \<open>Evicting a cached page\<close>

lemma free_page: "queue_ok fl s \<Longrightarrow> p \<in> free_set s \<Longrightarrow> 0 < p \<and> p < length (blocks s) \<and> ref_at s p = 0"
  by (simp add: queue_ok_def)

abbreviation inv :: "unified_manager \<Rightarrow> bool" where
  "inv s \<equiv> manager_synced (length (blocks s)) {} s"

lemma evict_keeps:
  "post (maybe_evict_cached_block manager_callbacks b s) (\<lambda>_ s'.
     layers s' = layers s \<and> super_block_holder s' = super_block_holder s \<and>
     pages_per_super_block s' = pages_per_super_block s \<and> page_size_bytes s' = page_size_bytes s \<and>
     num_super_blocks s' = num_super_blocks s \<and> step s' = step s \<and>
     relocation_enabled s' = relocation_enabled s \<and> kv_score_oldest s' = kv_score_oldest s \<and>
     kv_pool_buffers s' = kv_pool_buffers s \<and>
     prefix_lru s' \<in> {prefix_lru s, snd (lru_pop b (prefix_lru s))}) (\<lambda>_ _. True)"
  by (auto simp: maybe_evict_cached_block_def fire_def on_prefix_removed_def return_def reset_hash_def upd_block_def Let_def
      split: option.splits prod.splits)

lemma evict_prefix_globally_ok:
  assumes J: "inv s" and b: "b < length (blocks s)"
  shows "runs_to (evict_prefix_globally b s) (\<lambda>_ s'. inv s' \<and> keeps s s' \<and> kv_pool_buffers s' = kv_pool_buffers s \<and>
     hash_at s' = (hash_at s)(b := None) \<and>
     lru_items (prefix_lru s') = filter (\<lambda>e. fst e \<noteq> b) (lru_items (prefix_lru s)))"
proof (cases "hash_at s b")
  case None
  then have "evict_prefix_globally b s = Inr ((), s)"
    using b by (simp add: evict_prefix_globally_def get_block_def return_def hash_at_def)
  moreover have "b \<notin> fst ` set (lru_items (prefix_lru s))"
    using None manager_syncedD(12) [OF J] by (auto simp: lru_ok_def cached_free_def)
  ultimately show ?thesis using J None by (auto simp: fun_upd_idem intro!: filter_True [symmetric])
next
  case (Some h)
  then have run: "evict_prefix_globally b s = rbind (maybe_evict_cached_block manager_callbacks b s) (\<lambda>_. return ())"
    using b by (simp add: evict_prefix_globally_def evict_prefix_hash_def get_block_def return_def hash_at_def)
  have "runs_to (maybe_evict_cached_block manager_callbacks b s) (\<lambda>_ s'. inv s' \<and> keeps s s' \<and>
      kv_pool_buffers s' = kv_pool_buffers s \<and> hash_at s' = (hash_at s)(b := None) \<and>
      prefix_lru s' \<in> {prefix_lru s, snd (lru_pop b (prefix_lru s))})"
    using manager_evict [OF J b] evict_keeps [of b s]
    by (auto simp: post_def keeps_def evicted_def split: sum.splits)
  then show ?thesis
    unfolding run post_rbind post_return
  proof (rule runs_to_mono)
    fix r s' assume s': "inv s' \<and> keeps s s' \<and> kv_pool_buffers s' = kv_pool_buffers s \<and>
      hash_at s' = (hash_at s)(b := None) \<and> prefix_lru s' \<in> {prefix_lru s, snd (lru_pop b (prefix_lru s))}"
    have "b \<notin> fst ` set (lru_items (prefix_lru s'))"
      using s' manager_syncedD(12) [of "length (blocks s')" "{}" s'] by (auto simp: lru_ok_def cached_free_def)
    then have "lru_items (prefix_lru s') = filter (\<lambda>e. fst e \<noteq> b) (lru_items (prefix_lru s))"
      using s' plru.pop_items [OF manager_syncedD(15) [OF J], of b] by (auto intro!: filter_True [symmetric])
    with s' show "inv s' \<and> keeps s s' \<and> kv_pool_buffers s' = kv_pool_buffers s \<and>
      hash_at s' = (hash_at s)(b := None) \<and>
      lru_items (prefix_lru s') = filter (\<lambda>e. fst e \<noteq> b) (lru_items (prefix_lru s))" by blast
  qed
qed

lemma evict_kv_kept:
  assumes "keeps s s'" "kv_pool_buffers s' = kv_pool_buffers s" "hash_at s' = (hash_at s)(b := None)" "ref_at s b = 0"
  shows "kv_kept s s'"
proof -
  have "page_bytes s' = page_bytes s" using assms(1,2) by (intro page_bytes_cong) (simp_all add: keeps_def)
  with assms show ?thesis by (auto simp: kv_kept_def keeps_def split: if_splits)
qed

section \<open>Relocating a cached page\<close>

definition copied :: "nat \<Rightarrow> nat \<Rightarrow> nat \<Rightarrow> byte list \<Rightarrow> byte list" where
  "copied page src dst buf = write_at (dst * page) (read_at (src * page) page buf) buf"

lemma copy_page_run:
  assumes "src < n" "dst < n" "length buf = n * page"
  shows "copy_page page src dst buf = Inr (copied page src dst buf)"
  using page_fits [OF assms(1), of page] page_fits [OF assms(2), of page] assms(3)
  by (simp add: copy_page_def narrow_ok_def copy_into_ok copied_def)

lemma length_copied: "src < n \<Longrightarrow> dst < n \<Longrightarrow> length buf = n * page \<Longrightarrow> length (copied page src dst buf) = n * page"
  using page_fits [of src n page] page_fits [of dst n page] by (simp add: copied_def)

lemma read_copied:
  assumes "src < n" "dst < n" "p < n" "length buf = n * page"
  shows "read_at (p * page) page (copied page src dst buf) = read_at ((if p = dst then src else p) * page) page buf"
  using page_fits [OF assms(1), of page] page_fits [OF assms(2), of page] page_fits [OF assms(3), of page]
    pages_apart [of p dst page] assms(4)
  by (auto simp: copied_def read_write_same intro!: read_write_apart)

text \<open>Only the buffers change.\<close>

definition rebuffered :: "unified_manager \<Rightarrow> unified_manager \<Rightarrow> bool" where
  "rebuffered s s' \<longleftrightarrow> s'\<lparr>kv_pool_buffers := []\<rparr> = s\<lparr>kv_pool_buffers := []\<rparr> \<and>
     dict_keys (kv_pool_buffers s') = dict_keys (kv_pool_buffers s)"

lemma rebuffered_fields:
  assumes "rebuffered s s'"
  shows "base s' = base s" "layers s' = layers s" "super_block_holder s' = super_block_holder s"
    "pages_per_super_block s' = pages_per_super_block s" "page_size_bytes s' = page_size_bytes s"
    "num_super_blocks s' = num_super_blocks s" "step s' = step s" "relocation_enabled s' = relocation_enabled s"
    "kv_score_oldest s' = kv_score_oldest s" "prefix_lru s' = prefix_lru s" "relocations s' = relocations s"
    "dict_keys (kv_pool_buffers s') = dict_keys (kv_pool_buffers s)"
  using assms by (cases s; cases s'; simp add: rebuffered_def block_pool.truncate_def)+

lemma rebuffered_refl [simp]: "rebuffered s s"
  by (simp add: rebuffered_def)

lemma rebuffered_trans: "rebuffered s s' \<Longrightarrow> rebuffered s' s'' \<Longrightarrow> rebuffered s s''"
  by (simp add: rebuffered_def)

lemma copy_loop:
  fixes s :: unified_manager
  defines "f \<equiv> \<lambda>src dst i (s :: unified_manager). case map_of (kv_pool_buffers s) i of
       None \<Rightarrow> return () s
     | Some buf \<Rightarrow>
         (case copy_page (page_size_bytes s) src dst buf of
            Inl e \<Rightarrow> raise e s
          | Inr buf' \<Rightarrow> return () (s\<lparr>kv_pool_buffers := AList.update i buf' (kv_pool_buffers s)\<rparr>))"
  assumes "\<forall>buf \<in> snd ` set (kv_pool_buffers s). length buf = n * page_size_bytes s" "src < n" "dst < n"
    and "distinct is" "set is \<subseteq> fst ` set (kv_pool_buffers s)"
  shows "runs_to (for_each (f src dst) is s) (\<lambda>_ s'. rebuffered s s' \<and>
     (\<forall>i. map_of (kv_pool_buffers s') i = (if i \<in> set is then map_option (copied (page_size_bytes s) src dst) (map_of (kv_pool_buffers s) i)
                        else map_of (kv_pool_buffers s) i)))"
  using assms(2-)
proof (induction "is" arbitrary: s)
  case Nil
  then show ?case by simp
next
  case (Cons i "is")
  let ?page = "page_size_bytes s"
  obtain buf where buf: "map_of (kv_pool_buffers s) i = Some buf"
    using Cons.prems(5) map_of_keys [of i "kv_pool_buffers s"] by auto
  then have len: "length buf = n * ?page"
    using Cons.prems(1) by (metis image_eqI map_of_SomeD snd_conv)
  let ?buf = "copied ?page src dst buf"
  let ?s1 = "s\<lparr>kv_pool_buffers := AList.update i ?buf (kv_pool_buffers s)\<rparr>"
  have run: "f src dst i s = Inr ((), ?s1)"
    using copy_page_run [OF Cons.prems(2,3) len] buf by (simp add: f_def return_def)
  have len': "length ?buf = n * ?page"
    using Cons.prems(2,3) len by (rule length_copied)
  have keys: "dict_keys (kv_pool_buffers ?s1) = dict_keys (kv_pool_buffers s)"
    using Cons.prems(5) by (simp add: update_keys)
  have "\<forall>b \<in> snd ` set (kv_pool_buffers ?s1). length b = n * page_size_bytes ?s1"
    using Cons.prems(1) len' set_update_entries [of i ?buf "kv_pool_buffers s"] by auto
  moreover have "set is \<subseteq> fst ` set (kv_pool_buffers ?s1)" using Cons.prems(5) by auto
  ultimately have IH: "runs_to (for_each (f src dst) is ?s1) (\<lambda>_ s'. rebuffered ?s1 s' \<and>
     (\<forall>j. map_of (kv_pool_buffers s') j = (if j \<in> set is then map_option (copied (page_size_bytes ?s1) src dst) (map_of (kv_pool_buffers ?s1) j)
                        else map_of (kv_pool_buffers ?s1) j)))"
    using Cons.prems by (intro Cons.IH) auto
  have "rebuffered s ?s1" using keys by (simp add: rebuffered_def)
  then show ?case
    unfolding for_each.simps run rbind_simps
    by (rule_tac runs_to_mono [OF IH]) (use buf Cons.prems(4) rebuffered_trans in auto)
qed

lemma copy_page_all_layers_ok:
  assumes "geometry_ok n s" "src < n" "dst < n"
  shows "runs_to (copy_page_all_layers src dst s) (\<lambda>_ s'. rebuffered s s' \<and>
     (\<forall>i. map_of (kv_pool_buffers s') i = map_option (copied (page_size_bytes s) src dst) (map_of (kv_pool_buffers s) i)))"
proof -
  have "distinct (dict_keys (kv_pool_buffers s))" "set (dict_keys (kv_pool_buffers s)) \<subseteq> fst ` set (kv_pool_buffers s)"
    "\<forall>buf \<in> snd ` set (kv_pool_buffers s). length buf = n * page_size_bytes s"
    using assms(1) by (auto simp: geometry_ok_def)
  from copy_loop [OF this(3) assms(2,3) this(1,2)] show ?thesis
    unfolding copy_page_all_layers_def
  proof (rule runs_to_mono)
    fix u s'
    assume s': "rebuffered s s' \<and> (\<forall>i. map_of (kv_pool_buffers s') i = (if i \<in> set (dict_keys (kv_pool_buffers s))
      then map_option (copied (page_size_bytes s) src dst) (map_of (kv_pool_buffers s) i) else map_of (kv_pool_buffers s) i))"
    have "map_of (kv_pool_buffers s') i = map_option (copied (page_size_bytes s) src dst) (map_of (kv_pool_buffers s) i)" for i
      using s' map_of_keys [of i "kv_pool_buffers s"] by (cases "map_of (kv_pool_buffers s) i") auto
    with s' show "rebuffered s s' \<and>
      (\<forall>i. map_of (kv_pool_buffers s') i = map_option (copied (page_size_bytes s) src dst) (map_of (kv_pool_buffers s) i))"
      by blast
  qed
qed

text \<open>The rows of an expert are the two parts of its slot.\<close>

lemma slot_rows:
  assumes "w13_bytes l + w2_bytes l = expert_slot_bytes l" "read_at (sb * expert_slot_bytes l) (expert_slot_bytes l) buf' =
     read_at (sb * expert_slot_bytes l) (expert_slot_bytes l) buf"
  shows "pool_w13_row l buf' sb = pool_w13_row l buf sb" "pool_w2_row l buf' sb = pool_w2_row l buf sb"
proof -
  have "read_at (sb * expert_slot_bytes l) (expert_slot_bytes l) b =
      read_at (sb * expert_slot_bytes l) (w13_bytes l + w2_bytes l) b" for b using assms(1) by simp
  then have split: "read_at (sb * expert_slot_bytes l) (expert_slot_bytes l) b = pool_w13_row l b sb @ pool_w2_row l b sb" for b
    by (simp add: read_at_split pool_w13_row_def pool_w2_row_def)
  have "pool_w13_row l b sb = take (w13_bytes l) (read_at (sb * expert_slot_bytes l) (expert_slot_bytes l) b)" for b
    using assms(1) by (simp add: pool_w13_row_def read_at_def)
  with assms(2) show eq: "pool_w13_row l buf' sb = pool_w13_row l buf sb" by simp
  with split [of buf] split [of buf'] assms(2) show "pool_w2_row l buf' sb = pool_w2_row l buf sb" by simp
qed

text \<open>A change of buffers keeps the invariant of the expert side if it leaves the slots of resident experts alone.\<close>

lemma rebuffered_view:
  assumes v: "manager_view n P s" and r: "rebuffered s s'"
    and len: "\<forall>i buf'. map_of (kv_pool_buffers s') i = Some buf' \<longrightarrow> length buf' = n * page_size_bytes s"
    and slots: "\<forall>i buf buf' sb e. map_of (kv_pool_buffers s) i = Some buf \<longrightarrow> map_of (kv_pool_buffers s') i = Some buf' \<longrightarrow>
       mapped s i sb e \<longrightarrow>
       read_at (sb * (pages_per_super_block s * page_size_bytes s)) (pages_per_super_block s * page_size_bytes s) buf' =
       read_at (sb * (pages_per_super_block s * page_size_bytes s)) (pages_per_super_block s * page_size_bytes s) buf"
  shows "manager_view n P s'"
proof -
  note f = rebuffered_fields [OF r]
  have v': "geometry_ok n s" "lru_ok P s" "layers_ok s" "holders_ok (holder_sets s) s" "bytes_ok s"
    using v by (auto simp: manager_view_def)
  have wf: "dict_wf (kv_pool_buffers s')" using v'(1) f(12) by (simp add: geometry_ok_def)
  have "geometry_ok n s'"
    using v'(1) wf len by (auto simp: geometry_ok_def f)
  moreover have "lru_ok P s'" using v'(2) by (simp add: lru_ok_def f)
  moreover have dom: "(map_of (kv_pool_buffers s') i = None) = (map_of (kv_pool_buffers s) i = None)" for i
    unfolding map_of_eq_None_iff set_map [symmetric] f(12) ..
  have shape: "shape_ok s' = shape_ok s" by (simp add: fun_eq_iff shape_ok_def f)
  have "layers_ok s'" using v'(3) unfolding layers_ok_def shape f dom by blast
  moreover have "holders_of s' = holders_of s" "mapped s' = mapped s"
    by (simp_all add: fun_eq_iff holders_of_def mapped_def f)
  with v'(4) have "holders_ok (holder_sets s') s'" unfolding holders_ok_def by (simp add: f)
  moreover have "bytes_ok s'"
    unfolding bytes_ok_def f
  proof (intro allI impI)
    fix i l buf' sb e
    assume l: "map_of (layers s) i = Some l" and b': "map_of (kv_pool_buffers s') i = Some buf'"
      and e: "map_of (expert_at_super_block l) sb = Some e"
    obtain buf where b: "map_of (kv_pool_buffers s) i = Some buf" using dom [of i] b' by auto
    have sh: "shape_ok s l" using v'(3) l unfolding layers_ok_def by blast
    have "mapped s i sb e" using l e by (simp add: mapped_def)
    with slots b b' have "read_at (sb * (pages_per_super_block s * page_size_bytes s)) (pages_per_super_block s * page_size_bytes s) buf' =
       read_at (sb * (pages_per_super_block s * page_size_bytes s)) (pages_per_super_block s * page_size_bytes s) buf" by blast
    with sh have "read_at (sb * expert_slot_bytes l) (expert_slot_bytes l) buf' =
        read_at (sb * expert_slot_bytes l) (expert_slot_bytes l) buf" by (simp add: shape_ok_def)
    with sh slot_rows [of l sb buf' buf] v'(5) l b e
    show "pool_w13_row l buf' sb = cpu_w13_bytes l ! e \<and> pool_w2_row l buf' sb = cpu_w2_bytes l ! e"
      unfolding bytes_ok_def shape_ok_def by metis
  qed
  ultimately show ?thesis by (simp add: manager_view_def)
qed

lemma buffer_length:
  assumes "geometry_ok n s" "map_of (kv_pool_buffers s) i = Some buf"
  shows "length buf = n * page_size_bytes s"
  using assms unfolding geometry_ok_def by (metis image_eqI map_of_SomeD snd_conv)

lemma mapped_held:
  assumes "holders_ok (holder_sets s) s" "mapped s i sb e"
  shows "sb \<in> fst ` set (super_block_holder s)" "0 < sb" "sb < num_super_blocks s"
proof -
  have "i \<in> set (holders_of s sb)" using assms by (auto simp: holders_ok_def)
  then show k: "sb \<in> fst ` set (super_block_holder s)" using holders_key [OF assms(1), of sb] by force
  from assms(1) k show "0 < sb" "sb < num_super_blocks s" by (auto simp: holders_ok_def)
qed

lemma relocate_kv_page_ok:
  assumes J: "inv s" and src: "src \<in> cached_free s"
    and dst: "dst \<in> free_set s" "hash_at s dst = None" "dst \<notin> held_pages s"
  shows "runs_to (relocate_kv_page src dst s) (\<lambda>_ s'. inv s' \<and> keeps s s' \<and> kv_kept s s' \<and>
     hash_at s' = (hash_at s)(src := None, dst := hash_at s src) \<and>
     lru_items (prefix_lru s') = map (\<lambda>(q, t). (if q = src then dst else q, t)) (lru_items (prefix_lru s)))"
proof -
  let ?n = "length (blocks s)" and ?page = "page_size_bytes s"
  note D = manager_syncedD [OF J]
  obtain h where h: "hash_at s src = Some h" "src \<in> free_set s" using src by (auto simp: cached_free_def)
  have lt: "src < ?n" "dst < ?n" "0 < dst" "ref_at s src = 0" "ref_at s dst = 0" "src \<noteq> dst"
    using free_page [OF D(5) h(2)] free_page [OF D(5) dst(1)] h(1) dst(2) by auto
  have sb: "dst div pages_per_super_block s \<noteq> sb" if "mapped s i sb e" for i sb e
    using mapped_held(1) [OF D(10) that] dst(3) held_iff [OF D(8)] by (auto simp: super_block_of_page_def)
  let ?Q = "\<lambda>s1. rebuffered s s1 \<and>
     (\<forall>i. map_of (kv_pool_buffers s1) i = map_option (copied ?page src dst) (map_of (kv_pool_buffers s) i))"
  have after_copy: "runs_to (rbind (relocate_prefix_hash src dst s1) (\<lambda>moved s.
         if \<not> moved then return () s
         else return () (s\<lparr>prefix_lru := snd (lru_rename src dst (step s) (prefix_lru s)),
                           relocations := relocations s + 1\<rparr>))) (\<lambda>_ s'. inv s' \<and> keeps s s' \<and> kv_kept s s' \<and>
     hash_at s' = (hash_at s)(src := None, dst := hash_at s src) \<and>
     lru_items (prefix_lru s') = map (\<lambda>(q, t). (if q = src then dst else q, t)) (lru_items (prefix_lru s)))"
    if s1: "?Q s1" for s1
  proof -
    note f = rebuffered_fields [OF conjunct1 [OF s1]]
    note bv = base_views [OF f(1)]
    have bytes: "page_bytes s1 i p = page_bytes s i (if p = dst then src else p)" if "p < ?n" for i p
      using s1 f(5) read_copied [OF lt(1,2) that] buffer_length [OF D(13)]
      by (auto simp: page_bytes_def split: option.splits)
    have view1: "manager_view ?n (cached_free s) s1"
    proof (rule rebuffered_view [OF D(2) conjunct1 [OF s1]])
      show "\<forall>i buf'. map_of (kv_pool_buffers s1) i = Some buf' \<longrightarrow> length buf' = ?n * ?page"
        using s1 buffer_length [OF D(13)] length_copied [OF lt(1,2)] by auto
      show "\<forall>i buf buf' sb e. map_of (kv_pool_buffers s) i = Some buf \<longrightarrow> map_of (kv_pool_buffers s1) i = Some buf' \<longrightarrow>
         mapped s i sb e \<longrightarrow> read_at (sb * (pages_per_super_block s * ?page)) (pages_per_super_block s * ?page) buf' =
         read_at (sb * (pages_per_super_block s * ?page)) (pages_per_super_block s * ?page) buf"
      proof (intro allI impI)
        fix i buf buf' sb e
        assume b: "map_of (kv_pool_buffers s) i = Some buf" "map_of (kv_pool_buffers s1) i = Some buf'" and m: "mapped s i sb e"
        have buf': "buf' = write_at (dst * ?page) (read_at (src * ?page) ?page buf) buf" using s1 b by (simp add: copied_def)
        have len: "length buf = ?n * ?page" using buffer_length [OF D(13) b(1)] .
        have "sb < ?n div pages_per_super_block s" using mapped_held(3) [OF D(10) m] D(13) by (simp add: geometry_ok_def)
        from slot_fits [OF this, of ?page] slot_apart [OF D(8) sb [OF m], of ?page]
          page_fits [OF lt(1), of ?page] page_fits [OF lt(2), of ?page] len
        show "read_at (sb * (pages_per_super_block s * ?page)) (pages_per_super_block s * ?page) buf' =
           read_at (sb * (pages_per_super_block s * ?page)) (pages_per_super_block s * ?page) buf"
          unfolding buf' by (intro read_write_apart) auto
      qed
    qed
    have pool1: "pool_inv {} s1" using D(1) bv(4) by simp
    have hashes1: "hash_at s1 src = Some h" "hash_at s1 dst = None" "ref_at s1 src = 0" "src < length (blocks s1)" "dst < length (blocks s1)"
      using h dst lt bv by auto
    note reloc = relocate_ok [OF pool1 hashes1(4,5) lt(3) hashes1(1,2,3)]
    show ?thesis
      unfolding post_rbind
    proof (rule runs_to_mono [OF reloc])
      fix moved s2 assume s2: "moved \<and> pool_inv {} s2 \<and> relocated src dst s1 s2"
      then have more: "block_pool.more s2 = block_pool.more s1" by (simp add: relocated_def)
      note vm = view_more [OF more]
      let ?s' = "s2\<lparr>prefix_lru := snd (lru_rename src dst (step s2) (prefix_lru s2)), relocations := relocations s2 + 1\<rparr>"
      have b': "base ?s' = base s2" by (simp add: base_eq_iff)
      note bv' = base_views [OF b']
      have hash': "hash_at ?s' = (hash_at s)(src := None, dst := hash_at s src)" and ref': "ref_at ?s' = ref_at s"
        and len': "length (blocks ?s') = ?n" and queue': "free_block_queue ?s' = free_block_queue s"
        using s2 bv bv' f(1) by (auto simp: relocated_def base_eq_iff)
      have free': "free_set ?s' = free_set s" using queue' by (simp add: free_set_def)
      have cf': "cached_free ?s' = insert dst (cached_free s - {src})"
        unfolding cached_free_def free' hash' using h dst lt(6) by auto
      have lru: "lru_wf (prefix_lru s)" "src \<in> fst ` set (lru_items (prefix_lru s))" "dst \<notin> fst ` set (lru_items (prefix_lru s))"
        "recency_ordered (step s) (lru_items (prefix_lru s))" "fst ` set (lru_items (prefix_lru s)) = cached_free s"
        using D(12) src dst by (auto simp: lru_ok_def cached_free_def)
      have lru2: "prefix_lru s2 = prefix_lru s" "step s2 = step s" using vm f by auto
      have items: "lru_items (prefix_lru ?s') = map (\<lambda>(q, t). (if q = src then dst else q, t)) (lru_items (prefix_lru s))"
        using plru.rename_items [OF lru(1) lt(6) lru(2)] lru(3) by (auto simp: lru2 intro!: arg_cong [of _ _ "map _"] filter_True)
      have view': "manager_view ?n (cached_free ?s') ?s'"
      proof -
        have "manager_view ?n (cached_free s) s2" using view1 vm by simp
        then have "geometry_ok ?n s2" "layers_ok s2" "bytes_ok s2" "holders_ok (holder_sets s2) s2"
          by (auto simp: manager_view_def)
        moreover have "lru_ok (cached_free ?s') ?s'"
          unfolding lru_ok_def cf'
          using plru.rename_items [OF lru(1) lt(6) lru(2), of "step s"] plru.rename_pages [OF lru(1) lt(6) lru(2), of "step s"]
            plru.rename_ordered [OF lru(1) lt(6) lru(2,4), of "step s"] lru(5) by (simp add: lru2)
        ultimately show ?thesis
          using view_fields [of ?s' s2] by (simp add: manager_view_def)
      qed
      have held': "held_pages ?s' = held_pages s"
        using vm f by (simp add: held_pages_def pages_of_def)
      have "held_pages ?s' \<subseteq> {p \<in> free_set ?s'. hash_at ?s' p = None}"
        unfolding held' free' hash' using D(3) dst(3) by auto
      then have "inv ?s'" using view' s2 bv'(4) len' by (simp add: synced_def listens_def)
      moreover have "keeps s ?s'"
        using vm f ref' len' queue' s2 bv(7,11) by (simp add: keeps_def relocated_def)
      moreover have "page_bytes ?s' i p = page_bytes s i (if p = dst then src else p)" if "p < ?n" for i p
        using bytes [OF that, of i] page_bytes_cong [of ?s' s1] vm by simp
      then have "kv_kept s ?s'"
        unfolding kv_kept_def hash' ref' using lt h by (auto split: if_splits)
      ultimately show "runs_to (if \<not> moved then return () s2
         else return () (s2\<lparr>prefix_lru := snd (lru_rename src dst (step s2) (prefix_lru s2)),
                           relocations := relocations s2 + 1\<rparr>)) (\<lambda>_ s'. inv s' \<and> keeps s s' \<and> kv_kept s s' \<and>
           hash_at s' = (hash_at s)(src := None, dst := hash_at s src) \<and>
           lru_items (prefix_lru s') = map (\<lambda>(q, t). (if q = src then dst else q, t)) (lru_items (prefix_lru s)))"
        using s2 hash' items by simp
    qed
  qed
  show ?thesis
    unfolding relocate_kv_page_def
    by (subst post_rbind, rule runs_to_mono [OF copy_page_all_layers_ok [OF D(13) lt(1,2)]], rule after_copy)
qed

section \<open>Vacating a super-block\<close>

text \<open>
  The recency stamps a vacate kills, as a function of the stamps \<open>ws\<close> of the pages to save,
  warmest first, the number of holes and the stamps \<open>cs\<close> of the pages elsewhere, coldest first.
\<close>

fun kills :: "int list \<Rightarrow> nat \<Rightarrow> int list \<Rightarrow> int list" where
  "kills [] holes cs = []"
| "kills (w # ws) (Suc holes) cs = kills ws holes cs"
| "kills (w # ws) 0 (c # cs) = (if c < w then c # kills ws 0 cs else w # kills ws 0 [])"
| "kills (w # ws) 0 [] = w # kills ws 0 []"

definition steps :: "unified_manager \<Rightarrow> int multiset" where
  "steps s = mset (map snd (lru_items (prefix_lru s)))"

definition vacate_pre :: "nat \<Rightarrow> nat list \<Rightarrow> nat list \<Rightarrow> (nat \<times> int) list \<Rightarrow> unified_manager \<Rightarrow> bool" where
  "vacate_pre sb ps holes cands s \<longleftrightarrow> inv s \<and>
     distinct ps \<and> (\<forall>p \<in> set ps. p \<in> cached_free s \<and> super_block_of_page s p = sb) \<and>
     distinct holes \<and> (\<forall>h \<in> set holes. h \<in> free_set s \<and> hash_at s h = None \<and> h \<notin> held_pages s \<and> super_block_of_page s h \<noteq> sb) \<and>
     distinct (map fst cands) \<and> set cands \<subseteq> set (lru_items (prefix_lru s)) \<and>
     (\<forall>v \<in> fst ` set cands. super_block_of_page s v \<noteq> sb)"

definition vacate_post :: "nat \<Rightarrow> nat list \<Rightarrow> unified_manager \<Rightarrow> unified_manager \<Rightarrow> bool" where
  "vacate_post sb ps s s' \<longleftrightarrow> inv s' \<and> keeps s s' \<and> kv_kept s s' \<and>
     (\<forall>q. super_block_of_page s q = sb \<longrightarrow> q \<in> set ps \<or> hash_at s q = None \<longrightarrow> hash_at s' q = None)"

lemma lru_get_items: "inv s \<Longrightarrow> lru_get (prefix_lru s) p = map_of (lru_items (prefix_lru s)) p"
  using manager_syncedD(15) by (rule plru.get_items)

lemma inv_items:
  assumes "inv s"
  shows "distinct (map fst (lru_items (prefix_lru s)))" "fst ` set (lru_items (prefix_lru s)) = cached_free s"
    "sorted (map snd (lru_items (prefix_lru s)))"
  using manager_syncedD(12,15) [OF assms] plru.pages_distinct
  by (auto simp: lru_ok_def recency_ordered_def)

lemma warmth_item:
  assumes "inv s" "(p, st) \<in> set (lru_items (prefix_lru s))"
  shows "warmth s p = st"
  using assms inv_items(1) [OF assms(1)] by (simp add: warmth_def lru_get_items map_of_is_SomeI)

lemma warmth_mem:
  assumes "inv s" "p \<in> cached_free s"
  shows "(p, warmth s p) \<in> set (lru_items (prefix_lru s))"
proof -
  obtain st where "(p, st) \<in> set (lru_items (prefix_lru s))" using assms inv_items(2) [OF assms(1)] by force
  with warmth_item [OF assms(1)] show ?thesis by fastforce
qed

lemma map_of_rekey:
  assumes "dst \<notin> fst ` set xs" "p \<noteq> src" "p \<noteq> dst"
  shows "map_of (map (\<lambda>(q, t). (if q = src then dst else q, t)) xs) p = map_of xs p"
  using assms by (induction xs) auto

lemma map_of_drop_key: "p \<noteq> b \<Longrightarrow> map_of (filter (\<lambda>e. fst e \<noteq> b) xs) p = map_of xs p"
  by (induction xs) auto

lemma drop_key_absent: "b \<notin> fst ` set xs \<Longrightarrow> filter (\<lambda>e. fst e \<noteq> b) xs = xs"
  by (induction xs) auto

lemma warmth_cong:
  assumes "inv s" "inv s'" "map_of (lru_items (prefix_lru s')) p = map_of (lru_items (prefix_lru s)) p"
  shows "warmth s' p = warmth s p"
  unfolding warmth_def lru_get_items [OF assms(1)] lru_get_items [OF assms(2)] assms(3) by (rule refl)

text \<open>The two moves of the loop on the stamps.\<close>

lemma steps_rekey:
  "lru_items (prefix_lru s') = map (\<lambda>(q, t). (if q = src then dst else q, t)) (lru_items (prefix_lru s)) \<Longrightarrow> steps s' = steps s"
  by (simp add: steps_def case_prod_beta comp_def)

lemma steps_evict:
  assumes "inv s" "b \<in> cached_free s" "lru_items (prefix_lru s') = filter (\<lambda>e. fst e \<noteq> b) (lru_items (prefix_lru s))"
  shows "steps s = add_mset (warmth s b) (steps s')"
proof -
  let ?xs = "lru_items (prefix_lru s)"
  obtain us ws where xs: "?xs = us @ (b, warmth s b) # ws" using warmth_mem [OF assms(1,2)] by (auto simp: in_set_conv_decomp)
  then have "b \<notin> fst ` set us" "b \<notin> fst ` set ws" using inv_items(1) [OF assms(1)] by auto
  then have "filter (\<lambda>e. fst e \<noteq> b) ?xs = us @ ws" unfolding xs by (simp add: drop_key_absent)
  then show ?thesis unfolding steps_def assms(3) xs by simp
qed

lemma evict_step_vacate:
  assumes J: "inv s" and b: "b \<in> cached_free s"
  shows "runs_to (evict_prefix_globally b s) (\<lambda>_ s'. inv s' \<and> keeps s s' \<and> kv_kept s s' \<and>
     hash_at s' = (hash_at s)(b := None) \<and> cached_free s' = cached_free s - {b} \<and>
     steps s = add_mset (warmth s b) (steps s') \<and> set (lru_items (prefix_lru s')) = {e \<in> set (lru_items (prefix_lru s)). fst e \<noteq> b} \<and>
     (\<forall>p. p \<noteq> b \<longrightarrow> warmth s' p = warmth s p))"
proof -
  have lt: "b < length (blocks s)" "ref_at s b = 0"
    using b free_page [OF manager_syncedD(5) [OF J]] by (auto simp: cached_free_def)
  show ?thesis
  proof (rule runs_to_mono [OF evict_prefix_globally_ok [OF J lt(1)]])
    fix u s' assume s': "inv s' \<and> keeps s s' \<and> kv_pool_buffers s' = kv_pool_buffers s \<and> hash_at s' = (hash_at s)(b := None) \<and>
      lru_items (prefix_lru s') = filter (\<lambda>e. fst e \<noteq> b) (lru_items (prefix_lru s))"
    have "cached_free s' = cached_free s - {b}"
      using s' keeps_views(8) [of s s'] by (auto simp: cached_free_def)
    moreover have "warmth s' p = warmth s p" if "p \<noteq> b" for p
      using J s' map_of_drop_key [OF that] by (intro warmth_cong) auto
    moreover have "kv_kept s s'" using s' lt(2) by (intro evict_kv_kept) auto
    ultimately show "inv s' \<and> keeps s s' \<and> kv_kept s s' \<and> hash_at s' = (hash_at s)(b := None) \<and> cached_free s' = cached_free s - {b} \<and>
      steps s = add_mset (warmth s b) (steps s') \<and> set (lru_items (prefix_lru s')) = {e \<in> set (lru_items (prefix_lru s)). fst e \<noteq> b} \<and>
      (\<forall>p. p \<noteq> b \<longrightarrow> warmth s' p = warmth s p)"
      using s' steps_evict [OF J b] by auto
  qed
qed

lemma relocate_step_vacate:
  assumes J: "inv s" and src: "src \<in> cached_free s" and dst: "dst \<in> free_set s" "hash_at s dst = None" "dst \<notin> held_pages s"
  shows "runs_to (relocate_kv_page src dst s) (\<lambda>_ s'. inv s' \<and> keeps s s' \<and> kv_kept s s' \<and>
     hash_at s' = (hash_at s)(src := None, dst := hash_at s src) \<and> cached_free s' = insert dst (cached_free s - {src}) \<and>
     steps s' = steps s \<and>
     (\<forall>e \<in> set (lru_items (prefix_lru s)). fst e \<noteq> src \<longrightarrow> e \<in> set (lru_items (prefix_lru s'))) \<and>
     (\<forall>p. p \<noteq> src \<and> p \<noteq> dst \<longrightarrow> warmth s' p = warmth s p))"
proof (rule runs_to_mono [OF relocate_kv_page_ok [OF assms]])
  fix u s' assume s': "inv s' \<and> keeps s s' \<and> kv_kept s s' \<and> hash_at s' = (hash_at s)(src := None, dst := hash_at s src) \<and>
     lru_items (prefix_lru s') = map (\<lambda>(q, t). (if q = src then dst else q, t)) (lru_items (prefix_lru s))"
  have "dst \<notin> fst ` set (lru_items (prefix_lru s))" unfolding inv_items(2) [OF J] using dst(2) by (simp add: cached_free_def)
  then have "warmth s' p = warmth s p" if "p \<noteq> src" "p \<noteq> dst" for p
    using J s' map_of_rekey [OF _ that] by (intro warmth_cong) auto
  moreover have "cached_free s' = insert dst (cached_free s - {src})"
    using s' keeps_views(8) [of s s'] src dst by (auto simp: cached_free_def)
  moreover have "e \<in> set (lru_items (prefix_lru s'))" if "e \<in> set (lru_items (prefix_lru s))" "fst e \<noteq> src" for e
  proof -
    let ?f = "\<lambda>(q, t :: int). (if q = src then dst else q, t)"
    have it: "lru_items (prefix_lru s') = map ?f (lru_items (prefix_lru s))" using s' by blast
    have "?f e = e" using that(2) by (cases e) simp
    with imageI [OF that(1), of ?f] show ?thesis unfolding it set_map by simp
  qed
  ultimately show "inv s' \<and> keeps s s' \<and> kv_kept s s' \<and>
     hash_at s' = (hash_at s)(src := None, dst := hash_at s src) \<and> cached_free s' = insert dst (cached_free s - {src}) \<and>
     steps s' = steps s \<and>
     (\<forall>e \<in> set (lru_items (prefix_lru s)). fst e \<noteq> src \<longrightarrow> e \<in> set (lru_items (prefix_lru s'))) \<and>
     (\<forall>p. p \<noteq> src \<and> p \<noteq> dst \<longrightarrow> warmth s' p = warmth s p)"
    using s' steps_rekey [of s'] by auto
qed

lemma vacate_post_trans:
  assumes "keeps s s1" "kv_kept s s1" "\<forall>q. super_block_of_page s q = sb \<longrightarrow> q \<in> A \<or> hash_at s q = None \<longrightarrow> hash_at s1 q = None"
    and "vacate_post sb ps' s1 s'" "set ps \<subseteq> A \<union> set ps'"
  shows "vacate_post sb ps s s'"
proof -
  have len: "length (blocks s1) = length (blocks s)" using assms(1) by (simp add: keeps_def)
  note sbp = keeps_views(2) [OF assms(1)]
  have s': "inv s'" "keeps s1 s'" "kv_kept s1 s'" using assms(4) by (simp_all add: vacate_post_def)
  note keeps_trans [OF assms(1) s'(2)] kv_kept_trans [OF assms(2) s'(3) len]
  moreover have "hash_at s' q = None" if "super_block_of_page s q = sb" "q \<in> set ps \<or> hash_at s q = None" for q
    using assms(3,4,5) that unfolding vacate_post_def sbp by blast
  ultimately show ?thesis using s'(1) by (simp add: vacate_post_def)
qed

lemma vacate_post_refl: "inv s \<Longrightarrow> vacate_post sb [] s s"
  by (simp add: vacate_post_def)

lemma vacate_pre_evict:
  assumes "vacate_pre sb (p # ps) [] cands s" "inv s1" "keeps s s1" "cached_free s1 = cached_free s - {p}"
  shows "vacate_pre sb ps [] [] s1"
  using assms keeps_views(2) [OF assms(3)] by (auto simp: vacate_pre_def)

lemma vacate_pre_relocate:
  assumes pre: "vacate_pre sb (p # ps) holes cands s" and k: "inv s1" "keeps s s1"
    and h: "hash_at s1 = (hash_at s)(p := None, d := hash_at s p)" "cached_free s1 = insert d (cached_free s - {p})"
    and e: "\<forall>e \<in> set (lru_items (prefix_lru s)). fst e \<noteq> p \<longrightarrow> e \<in> set (lru_items (prefix_lru s1))"
    and sub: "set holes' \<subseteq> set holes" "distinct holes'" "d \<notin> set holes'"
  shows "vacate_pre sb ps holes' cands s1"
proof -
  note v = keeps_views [OF k(2)]
  have "hash_at s p \<noteq> None" using pre by (auto simp: vacate_pre_def cached_free_def)
  then have "\<forall>x \<in> set holes'. x \<in> free_set s1 \<and> hash_at s1 x = None \<and> x \<notin> held_pages s1 \<and> super_block_of_page s1 x \<noteq> sb"
    using pre sub unfolding v h vacate_pre_def by auto
  moreover have "set cands \<subseteq> set (lru_items (prefix_lru s1))"
  proof
    fix x assume x: "x \<in> set cands"
    then have "x \<in> set (lru_items (prefix_lru s))" "super_block_of_page s (fst x) \<noteq> sb" using pre by (auto simp: vacate_pre_def)
    moreover have "super_block_of_page s p = sb" using pre by (simp add: vacate_pre_def)
    ultimately show "x \<in> set (lru_items (prefix_lru s1))" using e by force
  qed
  moreover have "\<forall>x \<in> set ps. x \<in> cached_free s1 \<and> super_block_of_page s1 x = sb"
    using pre unfolding v h vacate_pre_def by auto
  ultimately show ?thesis
    using pre k(1) sub(2) unfolding vacate_pre_def v by auto
qed

lemma vacate_loop_ok:
  assumes "vacate_pre sb ps holes cands s"
  shows "runs_to (vacate_loop ps holes cands s) (\<lambda>_ s'. vacate_post sb ps s s' \<and>
     steps s = steps s' + mset (kills (map (warmth s) ps) (length holes) (map snd cands)))"
  using assms
proof (induction ps arbitrary: holes cands s)
  case Nil
  then show ?case by (simp add: vacate_pre_def vacate_post_refl)
next
  case (Cons p ps)
  have J: "inv s" and p: "p \<in> cached_free s" "super_block_of_page s p = sb" and ps: "p \<notin> set ps"
    using Cons.prems by (auto simp: vacate_pre_def)
  have in_place: "runs_to (rbind (evict_prefix_globally p s) (\<lambda>_ s. vacate_loop ps [] [] s)) (\<lambda>_ s'. vacate_post sb (p # ps) s s' \<and>
     steps s = steps s' + mset (warmth s p # kills (map (warmth s) ps) 0 []))"
    if pre: "vacate_pre sb (p # ps) [] cands' s" for cands'
    unfolding post_rbind
  proof (rule runs_to_mono [OF evict_step_vacate [OF J p(1)]])
    fix u s1 assume s1: "inv s1 \<and> keeps s s1 \<and> kv_kept s s1 \<and> hash_at s1 = (hash_at s)(p := None) \<and> cached_free s1 = cached_free s - {p} \<and>
      steps s = add_mset (warmth s p) (steps s1) \<and> set (lru_items (prefix_lru s1)) = {e \<in> set (lru_items (prefix_lru s)). fst e \<noteq> p} \<and>
      (\<forall>q. q \<noteq> p \<longrightarrow> warmth s1 q = warmth s q)"
    have eq: "map (warmth s1) ps = map (warmth s) ps" using s1 ps by auto
    have "vacate_pre sb ps [] [] s1" using pre s1 by (intro vacate_pre_evict) auto
    from Cons.IH [OF this, unfolded eq list.size list.map] show "runs_to (vacate_loop ps [] [] s1) (\<lambda>_ s'. vacate_post sb (p # ps) s s' \<and>
        steps s = steps s' + mset (warmth s p # kills (map (warmth s) ps) 0 []))"
      by (rule runs_to_mono) (use s1 vacate_post_trans [of s s1 sb "{p}" ps] in auto)
  qed
  have move: "runs_to (rbind (relocate_kv_page p d t) (\<lambda>_ t. vacate_loop ps holes' cands' t)) (\<lambda>_ s'. vacate_post sb (p # ps) t s' \<and>
     steps t = steps s' + mset (kills (map (warmth s) ps) (length holes') (map snd cands')))"
    if pre: "vacate_pre sb (p # ps) holes cands' t" and d: "d \<in> free_set t" "hash_at t d = None" "d \<notin> held_pages t" "super_block_of_page t d \<noteq> sb"
      and sub: "set holes' \<subseteq> set holes" "distinct holes'" "d \<notin> set holes'" and w: "map (warmth t) ps = map (warmth s) ps" for d t holes' cands'
  proof -
    have Jt: "inv t" "p \<in> cached_free t" "super_block_of_page t p = sb" using pre by (auto simp: vacate_pre_def)
    show ?thesis
      unfolding post_rbind
    proof (rule runs_to_mono [OF relocate_step_vacate [OF Jt(1,2) d(1,2,3)]])
      fix u s1 assume s1: "inv s1 \<and> keeps t s1 \<and> kv_kept t s1 \<and> hash_at s1 = (hash_at t)(p := None, d := hash_at t p) \<and>
        cached_free s1 = insert d (cached_free t - {p}) \<and> steps s1 = steps t \<and>
        (\<forall>e \<in> set (lru_items (prefix_lru t)). fst e \<noteq> p \<longrightarrow> e \<in> set (lru_items (prefix_lru s1))) \<and>
        (\<forall>q. q \<noteq> p \<and> q \<noteq> d \<longrightarrow> warmth s1 q = warmth t q)"
      have "d \<notin> set ps" using pre d(4) by (auto simp: vacate_pre_def)
      then have eq: "map (warmth s1) ps = map (warmth s) ps" unfolding w [symmetric] using s1 ps by auto
      have "vacate_pre sb ps holes' cands' s1" using pre s1 sub by (intro vacate_pre_relocate [of sb p ps holes cands' t s1 d]) auto
      from Cons.IH [OF this, unfolded eq] show "runs_to (vacate_loop ps holes' cands' s1) (\<lambda>_ s'. vacate_post sb (p # ps) t s' \<and>
          steps t = steps s' + mset (kills (map (warmth s) ps) (length holes') (map snd cands')))"
        by (rule runs_to_mono) (use s1 d(4) vacate_post_trans [of t s1 sb "{p}" ps] in auto)
    qed
  qed
  show ?case
  proof (cases holes)
    case (Cons hole holes')
    with Cons.prems have "hole \<in> free_set s" "hash_at s hole = None" "hole \<notin> held_pages s" "super_block_of_page s hole \<noteq> sb"
      "set holes' \<subseteq> set holes" "distinct holes'" "hole \<notin> set holes'" by (auto simp: vacate_pre_def)
    from move [OF Cons.prems this refl] show ?thesis by (simp add: Cons)
  next
    case Nil
    show ?thesis
    proof (cases cands)
      case Nil
      with in_place [of "[]"] Cons.prems \<open>holes = []\<close> show ?thesis by simp
    next
      case (Cons c cands')
      obtain v st where c: "c = (v, st)" by (cases c)
      show ?thesis
      proof (cases "st < warmth s p")
        case False
        with in_place [of cands] Cons.prems \<open>holes = []\<close> Cons c show ?thesis by simp
      next
        case True
        have v: "(v, st) \<in> set (lru_items (prefix_lru s))" "super_block_of_page s v \<noteq> sb" "v \<notin> fst ` set cands'"
          using Cons.prems Cons c by (auto simp: vacate_pre_def)
        then have vc: "v \<in> cached_free s" "warmth s v = st"
          using inv_items(2) [OF J] warmth_item [OF J] by force+
        have "runs_to (rbind (evict_prefix_globally v s) (\<lambda>_ t. rbind (relocate_kv_page p v t) (\<lambda>_ t. vacate_loop ps [] cands' t)))
           (\<lambda>_ s'. vacate_post sb (p # ps) s s' \<and> steps s = steps s' + mset (st # kills (map (warmth s) ps) 0 (map snd cands')))"
          unfolding post_rbind [of "evict_prefix_globally v s"]
        proof (rule runs_to_mono [OF evict_step_vacate [OF J vc(1)]])
          fix u t assume t: "inv t \<and> keeps s t \<and> kv_kept s t \<and> hash_at t = (hash_at s)(v := None) \<and> cached_free t = cached_free s - {v} \<and>
            steps s = add_mset (warmth s v) (steps t) \<and> set (lru_items (prefix_lru t)) = {e \<in> set (lru_items (prefix_lru s)). fst e \<noteq> v} \<and>
            (\<forall>q. q \<noteq> v \<longrightarrow> warmth t q = warmth s q)"
          note kv = keeps_views [OF conjunct1 [OF conjunct2 [OF t]]]
          have "v \<notin> set ps" "v \<noteq> p" using Cons.prems v(2) by (auto simp: vacate_pre_def)
          then have pre: "vacate_pre sb (p # ps) holes cands' t" and w: "\<forall>x \<in> set ps. warmth t x = warmth s x"
            using Cons.prems v(3) t \<open>holes = []\<close> unfolding Cons c vacate_pre_def kv by (auto simp: image_iff)
          have "v \<in> free_set t" "hash_at t v = None" "v \<notin> held_pages t" "super_block_of_page t v \<noteq> sb"
            unfolding kv using vc(1) v(2) t manager_syncedD(3) [OF J] by (auto simp: cached_free_def)
          note moved = move [OF pre this, of "[]", simplified, OF w]
          show "runs_to (rbind (relocate_kv_page p v t) (\<lambda>_ t. vacate_loop ps [] cands' t))
             (\<lambda>_ s'. vacate_post sb (p # ps) s s' \<and> steps s = steps s' + mset (st # kills (map (warmth s) ps) 0 (map snd cands')))"
            by (rule runs_to_mono [OF moved]) (use t vc(2) vacate_post_trans [of s t sb "{}" "p # ps"] in auto)
        qed
        with True Cons c \<open>holes = []\<close> show ?thesis by simp
      qed
    qed
  qed
qed

subsection \<open>Which pages a vacate kills\<close>

lemma kills_all [simp]: "kills ws 0 [] = ws"
  by (induction ws) auto

lemma add_mset_diff: "M \<subseteq># N \<Longrightarrow> add_mset w N - M = add_mset w (N - M)"
  using multiset_diff_union_assoc [of M N "{#w#}"] by simp

lemma kills_spec:
  assumes "sorted_wrt (\<ge>) ws" "sorted cs"
  shows "mset (kills ws h cs) \<subseteq># mset ws + mset cs \<and> length (kills ws h cs) = length ws - h \<and>
     (\<forall>k \<in> set (kills ws h cs). \<forall>b \<in># mset ws + mset cs - mset (kills ws h cs). k \<le> b) \<and>
     (length ws \<le> h + length cs \<longrightarrow> (\<forall>k \<in> set (kills ws h cs). \<exists>c \<in> set cs. k \<le> c)) \<and>
     (\<forall>k \<in> set (kills ws h cs). \<exists>w \<in> set ws. k \<le> w) \<and>
     (h = 0 \<longrightarrow> (\<forall>b \<in># mset ws + mset cs - mset (kills ws h cs). \<exists>c \<in> set cs. c \<le> b))"
  using assms
proof (induction ws h cs rule: kills.induct)
  case (2 w ws h cs)
  let ?K = "kills ws h cs"
  have IH: "mset ?K \<subseteq># mset ws + mset cs" "length ?K = length ws - h"
    "\<forall>k \<in> set ?K. \<forall>b \<in># mset ws + mset cs - mset ?K. k \<le> b"
    "length ws \<le> h + length cs \<longrightarrow> (\<forall>k \<in> set ?K. \<exists>c \<in> set cs. k \<le> c)" "\<forall>k \<in> set ?K. \<exists>w \<in> set ws. k \<le> w"
    using 2 by auto
  have "mset (w # ws) + mset cs - mset ?K = add_mset w (mset ws + mset cs - mset ?K)"
    using add_mset_diff [OF IH(1), of w] by simp
  moreover have "\<forall>k \<in> set ?K. k \<le> w" using IH(5) "2.prems"(1) by force
  moreover have "mset ?K \<subseteq># mset (w # ws) + mset cs" using IH(1) by (simp add: subset_mset.add_increasing2 subset_mset.trans [OF IH(1)])
  ultimately show ?case using IH by auto
next
  case (3 w ws c cs)
  show ?case
  proof (cases "c < w")
    case True
    let ?K = "kills ws 0 cs"
    have IH: "mset ?K \<subseteq># mset ws + mset cs" "length ?K = length ws"
      "\<forall>k \<in> set ?K. \<forall>b \<in># mset ws + mset cs - mset ?K. k \<le> b"
      "length ws \<le> length cs \<longrightarrow> (\<forall>k \<in> set ?K. \<exists>c \<in> set cs. k \<le> c)" "\<forall>k \<in> set ?K. \<exists>w \<in> set ws. k \<le> w"
      "\<forall>b \<in># mset ws + mset cs - mset ?K. \<exists>c \<in> set cs. c \<le> b"
      using 3 True by auto
    have rest: "mset (w # ws) + mset (c # cs) - mset (c # ?K) = add_mset w (mset ws + mset cs - mset ?K)"
      using add_mset_diff [OF IH(1), of w] by simp
    have cw: "\<forall>k \<in> set ?K. k \<le> w" using IH(5) "3.prems"(1) by force
    have cc: "\<forall>c' \<in> set cs. c \<le> c'" using "3.prems"(2) by simp
    have "\<forall>b \<in># mset ws + mset cs - mset ?K. c \<le> b" using IH(6) cc by (meson order_trans)
    moreover have "mset ?K \<subseteq># add_mset w (mset ws + mset cs)"
      by (rule subset_mset.trans [OF IH(1)]) simp
    ultimately show ?thesis using IH rest cw True by auto
  next
    case False
    then have "\<forall>x \<in> set (w # ws). \<forall>b \<in> set (c # cs). x \<le> b" using "3.prems" by fastforce
    with False show ?thesis by auto
  qed
qed auto

text \<open>No cached page lies in a pinned super-block.\<close>

lemma pinned_held:
  assumes "inv s" "any_layer_pins_super_block s sb"
  shows "sb \<in> fst ` set (super_block_holder s)"
proof -
  note D = manager_syncedD [OF assms(1)]
  obtain i l where "(i, l) \<in> set (layers s)" "sb \<in> set (pinned_super_blocks l)"
    using assms(2) by (auto simp: any_layer_pins_super_block_def)
  then have "map_of (layers s) i = Some l" using D(14) by simp
  then obtain e where "mapped s i sb e"
    using D(9) \<open>sb \<in> set (pinned_super_blocks l)\<close> unfolding layers_ok_def mapped_def by (metis option.exhaust)
  then show ?thesis using mapped_held(1) [OF D(10)] by blast
qed

lemma cached_not_pinned:
  assumes "inv s" "p \<in> cached_free s"
  shows "\<not> any_layer_pins_super_block s (super_block_of_page s p)"
proof
  assume "any_layer_pins_super_block s (super_block_of_page s p)"
  then have "p \<in> held_pages s" using pinned_held [OF assms(1)] held_iff [OF manager_syncedD(8) [OF assms(1)]] by blast
  then show False using manager_syncedD(3) [OF assms(1)] assms(2) by (auto simp: cached_free_def)
qed

text \<open>A super-block that can be vacated: whole, not reserved, not held, without a page in use.\<close>

definition vacatable :: "nat \<Rightarrow> unified_manager \<Rightarrow> bool" where
  "vacatable sb s \<longleftrightarrow> 0 < sb \<and> sb < num_super_blocks s \<and> holders_of s sb = [] \<and> (\<forall>p \<in> set (pages_of s sb). ref_at s p = 0)"

lemma pages_in_pool:
  assumes "inv s" "sb < num_super_blocks s" "p \<in> set (pages_of s sb)"
  shows "p < length (blocks s)"
proof -
  have "num_super_blocks s = length (blocks s) div pages_per_super_block s"
    using manager_syncedD(13) [OF assms(1)] by (simp add: geometry_ok_def)
  then have "sb * (pages_per_super_block s * 1) + pages_per_super_block s * 1 \<le> length (blocks s) * 1"
    using assms(2) by (intro slot_fits) simp
  with assms(3) show ?thesis by (simp add: pages_of_def)
qed

lemma vacatable_pages:
  assumes J: "inv s" and v: "vacatable sb s" and p: "p \<in> set (pages_of s sb)"
  shows "p \<in> free_set s" "super_block_of_page s p = sb"
proof -
  note D = manager_syncedD [OF J]
  have "p < length (blocks s)" using v pages_in_pool [OF J _ p] by (simp add: vacatable_def)
  moreover have "0 < sb * pages_per_super_block s" using v D(8) by (simp add: vacatable_def)
  then have "0 < p" using p unfolding pages_of_def set_upt atLeastLessThan_iff by linarith
  ultimately show "p \<in> free_set s" using D(5) v p by (auto simp: queue_ok_def vacatable_def)
  show "super_block_of_page s p = sb" using p mem_pages_of [OF D(8)] by blast
qed

lemma hashed_pages_run:
  assumes "\<forall>p \<in> set ps. p < length (blocks s)"
  shows "hashed_pages ps s = Inr (filter (\<lambda>p. hash_at s p \<noteq> None) ps, s)"
  using assms by (induction ps) (auto simp: get_block_def return_def hash_at_def)

definition sb_prefix_pages :: "nat \<Rightarrow> unified_manager \<Rightarrow> nat list" where
  "sb_prefix_pages sb s = filter (\<lambda>p. hash_at s p \<noteq> None) (pages_of s sb)"

lemma sb_prefix_pages_cached:
  "inv s \<Longrightarrow> vacatable sb s \<Longrightarrow> p \<in> set (sb_prefix_pages sb s) \<Longrightarrow> p \<in> cached_free s \<and> super_block_of_page s p = sb"
  using vacatable_pages by (auto simp: sb_prefix_pages_def cached_free_def)

text \<open>The snapshots of \<open>_vacate_kv_super_block\<close> are usable.\<close>

definition sorted_pages :: "nat \<Rightarrow> unified_manager \<Rightarrow> nat list" where
  "sorted_pages sb s = sort_key (\<lambda>p. - warmth s p) (sb_prefix_pages sb s)"

definition hole_list :: "nat \<Rightarrow> unified_manager \<Rightarrow> nat list" where
  "hole_list sb s = take (length (sb_prefix_pages sb s)) (filter (usable_hole sb s) (free_ids (free_block_queue s)))"

definition outside_items :: "nat \<Rightarrow> unified_manager \<Rightarrow> (nat \<times> int) list" where
  "outside_items sb s = filter (\<lambda>(p, _). super_block_of_page s p \<noteq> sb) (lru_items (prefix_lru s))"

lemma vacate_snapshots:
  assumes J: "inv s" and v: "vacatable sb s"
  shows "collect_free_pages sb (length (sb_prefix_pages sb s)) s = Some (hole_list sb s)"
    and "displaceable_pages_coldest_first sb (length (sb_prefix_pages sb s)) s =
      Some (take (length (sb_prefix_pages sb s)) (outside_items sb s))"
    and "vacate_pre sb (sorted_pages sb s) (hole_list sb s) (take (length (sb_prefix_pages sb s)) (outside_items sb s)) s"
proof -
  note D = manager_syncedD [OF J]
  show "collect_free_pages sb (length (sb_prefix_pages sb s)) s = Some (hole_list sb s)"
    using fq.walk_ids [OF D(7)] by (simp add: collect_free_pages_def hole_list_def)
  have "filter (\<lambda>(p, _). super_block_of_page s p \<noteq> sb \<and> \<not> any_layer_pins_super_block s (super_block_of_page s p))
      (lru_items (prefix_lru s)) = outside_items sb s"
    unfolding outside_items_def
    by (rule filter_cong) (use cached_not_pinned [OF J] inv_items(2) [OF J] in force)+
  then show "displaceable_pages_coldest_first sb (length (sb_prefix_pages sb s)) s =
      Some (take (length (sb_prefix_pages sb s)) (outside_items sb s))"
    using plru.walk_items [OF D(15)] by (simp add: displaceable_pages_coldest_first_def)
  have "set (hole_list sb s) \<subseteq> {h \<in> free_set s. usable_hole sb s h}"
    by (auto simp: hole_list_def free_set_def dest!: in_set_takeD)
  then have holes: "\<forall>h \<in> set (hole_list sb s). h \<in> free_set s \<and> hash_at s h = None \<and> h \<notin> held_pages s \<and> super_block_of_page s h \<noteq> sb"
    using holders_key [OF D(10)] held_iff [OF D(8)] by (auto simp: usable_hole_def hash_at_def)
  have "distinct (hole_list sb s)"
    using fq.ids_distinct [OF D(7)] by (simp add: hole_list_def)
  moreover have "distinct (sorted_pages sb s)"
    by (simp add: sorted_pages_def sb_prefix_pages_def pages_of_def)
  moreover have "distinct (map fst (take k (outside_items sb s)))" for k
    using inv_items(1) [OF J] distinct_take [OF distinct_map_filter] by (simp add: outside_items_def take_map [symmetric])
  moreover have "set (take k (outside_items sb s)) \<subseteq> set (lru_items (prefix_lru s))"
    "\<forall>v \<in> fst ` set (take k (outside_items sb s)). super_block_of_page s v \<noteq> sb" for k
    by (auto simp: outside_items_def dest!: in_set_takeD)
  ultimately show "vacate_pre sb (sorted_pages sb s) (hole_list sb s) (take (length (sb_prefix_pages sb s)) (outside_items sb s)) s"
    unfolding vacate_pre_def using J holes sb_prefix_pages_cached [OF J v] by (simp add: sorted_pages_def)
qed

text \<open>The stamps of a state: those of the super-block and those outside it.\<close>

lemma steps_split:
  assumes J: "inv s" and v: "vacatable sb s"
  shows "steps s = mset (map (warmth s) (sb_prefix_pages sb s)) + mset (map snd (outside_items sb s))"
proof -
  let ?xs = "lru_items (prefix_lru s)"
  let ?in = "filter (\<lambda>(p, _). super_block_of_page s p = sb) ?xs"
  have "mset xs = mset (filter (\<lambda>(p, _). super_block_of_page s p = sb) xs) +
      mset (filter (\<lambda>(p, _). super_block_of_page s p \<noteq> sb) xs)" for xs :: "(nat \<times> int) list"
    by (induction xs) auto
  then have "mset ?xs = mset ?in + mset (outside_items sb s)" unfolding outside_items_def .
  moreover have "mset ?in = mset (map (\<lambda>p. (p, warmth s p)) (sb_prefix_pages sb s))"
  proof (rule set_eq_iff_mset_eq_distinct [THEN iffD1])
    show "distinct ?in" using inv_items(1) [OF J] by (simp add: distinct_map)
    show "distinct (map (\<lambda>p. (p, warmth s p)) (sb_prefix_pages sb s))"
      by (simp add: distinct_map inj_on_def sb_prefix_pages_def pages_of_def)
    show "set ?in = set (map (\<lambda>p. (p, warmth s p)) (sb_prefix_pages sb s))"
    proof (intro set_eqI iffI)
      fix x assume "x \<in> set ?in"
      then obtain p st where x: "x = (p, st)" "(p, st) \<in> set ?xs" "super_block_of_page s p = sb" by force
      moreover from x have "p \<in> cached_free s" using inv_items(2) [OF J] by force
      ultimately show "x \<in> set (map (\<lambda>p. (p, warmth s p)) (sb_prefix_pages sb s))"
        using warmth_item [OF J x(2)] mem_pages_of [OF manager_syncedD(8) [OF J]]
        by (auto simp: sb_prefix_pages_def cached_free_def)
    next
      fix x assume "x \<in> set (map (\<lambda>p. (p, warmth s p)) (sb_prefix_pages sb s))"
      then show "x \<in> set ?in" using sb_prefix_pages_cached [OF J v] warmth_mem [OF J] by auto
    qed
  qed
  ultimately have "mset ?xs = mset (map (\<lambda>p. (p, warmth s p)) (sb_prefix_pages sb s)) + mset (outside_items sb s)" by simp
  from arg_cong [OF this, of "image_mset snd"] show ?thesis
    by (simp add: steps_def image_mset.compositionality comp_def)
qed

lemma vacate_in_place: "for_each evict_prefix_globally ps s = vacate_loop ps [] [] s"
proof (induction ps arbitrary: s)
  case (Cons p ps)
  then have "for_each evict_prefix_globally ps = vacate_loop ps [] []" by blast
  then show ?case by simp
qed simp

text \<open>
  A vacate empties the super-block and loses no KV. With relocation on, the pages it evicts are
  globally the coldest, and as few as the free pages elsewhere allow.
\<close>

definition evicted_coldest :: "nat \<Rightarrow> unified_manager \<Rightarrow> unified_manager \<Rightarrow> bool" where
  "evicted_coldest sb s s' \<longleftrightarrow> (\<exists>K. steps s = steps s' + K \<and> (\<forall>k \<in># K. \<forall>b \<in># steps s'. k \<le> b) \<and>
     size K = length (sb_prefix_pages sb s) - length (hole_list sb s))"

lemma kills_coldest:
  assumes "sorted_wrt (\<ge>) ws" "sorted cs" "mset ws + mset cs = S + mset (kills ws h (take (length ws) cs))"
    and "k \<in> set (kills ws h (take (length ws) cs))" "b \<in># S"
  shows "k \<le> b"
proof -
  let ?n = "length ws"
  let ?K = "kills ws h (take ?n cs)"
  have split: "mset cs = mset (take ?n cs) + mset (drop ?n cs)" by (simp flip: mset_append)
  note K = kills_spec [OF assms(1) sorted_wrt_take [OF assms(2)], of h ?n]
  then have sub: "mset ?K \<subseteq># mset ws + mset (take ?n cs)" by blast
  have "S = mset ws + mset cs - mset ?K" using assms(3) by simp
  also have "\<dots> = (mset ws + mset (take ?n cs) - mset ?K) + mset (drop ?n cs)"
    unfolding split using multiset_diff_union_assoc [OF sub, of "mset (drop ?n cs)"] by (simp add: ac_simps)
  finally consider "b \<in># mset ws + mset (take ?n cs) - mset ?K" | "b \<in> set (drop ?n cs)" using assms(5) by auto
  then show ?thesis
  proof cases
    case 1
    with K assms(4) show ?thesis by blast
  next
    case 2
    then have "?n \<le> h + length (take ?n cs)" by (cases "?n \<le> length cs") auto
    with K assms(4) obtain c where "c \<in> set (take ?n cs)" "k \<le> c" by blast
    moreover have "sorted (take ?n cs @ drop ?n cs)" using assms(2) by simp
    ultimately show ?thesis using 2 unfolding sorted_append by (meson order_trans)
  qed
qed

lemma vacate_kv_super_block_ok:
  assumes J: "inv s" and v: "vacatable sb s"
  shows "runs_to (vacate_kv_super_block sb s) (\<lambda>_ s'. inv s' \<and> keeps s s' \<and> kv_kept s s' \<and>
     (\<forall>p \<in> set (pages_of s sb). hash_at s' p = None) \<and> (relocation_enabled s \<longrightarrow> evicted_coldest sb s s'))"
proof -
  let ?ps = "sb_prefix_pages sb s" and ?cs = "outside_items sb s"
  let ?n = "length ?ps"
  let ?post = "\<lambda>s'. inv s' \<and> keeps s s' \<and> kv_kept s s' \<and>
     (\<forall>p \<in> set (pages_of s sb). hash_at s' p = None) \<and> (relocation_enabled s \<longrightarrow> evicted_coldest sb s s')"
  have hp: "hashed_pages (pages_of s sb) s = Inr (?ps, s)"
    unfolding sb_prefix_pages_def using pages_in_pool [OF J] v by (intro hashed_pages_run) (auto simp: vacatable_def)
  have cleared: "\<forall>p \<in> set (pages_of s sb). hash_at s' p = None" if "vacate_post sb ps s s'" "set ps = set ?ps" for ps s'
    using that vacatable_pages(2) [OF J v] by (auto simp: vacate_post_def sb_prefix_pages_def)
  consider "?ps = []" | "?ps \<noteq> []" "\<not> relocation_enabled s" | "?ps \<noteq> []" "relocation_enabled s" by blast
  then show ?thesis
  proof cases
    case 1
    then have "\<forall>p \<in> set (pages_of s sb). hash_at s p = None" by (auto simp: sb_prefix_pages_def filter_empty_conv)
    moreover have "evicted_coldest sb s s" using 1 by (simp add: evicted_coldest_def)
    ultimately show ?thesis using J 1 by (simp add: vacate_kv_super_block_def hp)
  next
    case 2
    have d: "distinct ?ps" by (simp add: sb_prefix_pages_def pages_of_def)
    have c: "\<forall>p \<in> set ?ps. p \<in> cached_free s \<and> super_block_of_page s p = sb"
      using sb_prefix_pages_cached [OF J v] by blast
    have "vacate_pre sb ?ps [] [] s" unfolding vacate_pre_def by (intro conjI J d c) simp_all
    from vacate_loop_ok [OF this] have "runs_to (vacate_loop ?ps [] [] s) (\<lambda>_ s'. ?post s')"
    proof (rule runs_to_mono)
      fix u s' assume "vacate_post sb ?ps s s' \<and> steps s = steps s' + mset (kills (map (warmth s) ?ps) (length []) (map snd []))"
      then have "vacate_post sb ?ps s s'" by blast
      moreover note cleared [OF this refl]
      ultimately show "?post s'" using 2(2) unfolding vacate_post_def by blast
    qed
    then show ?thesis
      unfolding vacate_kv_super_block_def hp rbind_simps if_not_P [OF 2(1)] vacate_in_place using 2(2) by simp
  next
    case 3
    have run: "vacate_kv_super_block sb s = vacate_loop (sorted_pages sb s) (hole_list sb s) (take ?n ?cs) s"
      using 3 vacate_snapshots(1,2) [OF J v] by (simp add: vacate_kv_super_block_def hp Let_def sorted_pages_def)
    let ?ws = "map (warmth s) (sorted_pages sb s)"
    have ws: "sorted_wrt (\<ge>) ?ws"
    proof -
      have "sorted (map (\<lambda>p. - warmth s p) (sorted_pages sb s))" by (simp add: sorted_pages_def)
      then show ?thesis by (simp add: sorted_wrt_map)
    qed
    have cs: "sorted (map snd ?cs)" using inv_items(3) [OF J] by (simp add: outside_items_def sorted_filter)
    have len: "length ?ws = ?n" by (simp add: sorted_pages_def)
    have total: "steps s = mset ?ws + mset (map snd ?cs)"
      unfolding steps_split [OF J v] by (simp add: sorted_pages_def)
    show ?thesis
      unfolding run
    proof (rule runs_to_mono [OF vacate_loop_ok [OF vacate_snapshots(3) [OF J v]]])
      fix u s' assume s': "vacate_post sb (sorted_pages sb s) s s' \<and>
        steps s = steps s' + mset (kills ?ws (length (hole_list sb s)) (map snd (take ?n ?cs)))"
      let ?K = "kills ?ws (length (hole_list sb s)) (take (length ?ws) (map snd ?cs))"
      have eq: "mset ?ws + mset (map snd ?cs) = steps s' + mset ?K"
        using s' total len by (simp add: take_map)
      have "\<forall>k \<in># mset ?K. \<forall>b \<in># steps s'. k \<le> b" using kills_coldest [OF ws cs eq] by simp
      moreover have "length ?K = ?n - length (hole_list sb s)"
        using kills_spec [OF ws sorted_wrt_take [OF cs]] len by simp
      ultimately have "evicted_coldest sb s s'"
        using eq total by (auto simp: evicted_coldest_def intro!: exI [of _ "mset ?K"])
      moreover have vp: "vacate_post sb (sorted_pages sb s) s s'" using s' by blast
      have "set (sorted_pages sb s) = set ?ps" by (simp add: sorted_pages_def)
      note cleared [OF vp this]
      ultimately show "?post s'" using vp unfolding vacate_post_def by blast
    qed
  qed
qed

end
