(* ===== verification/Expert_Choice.thy ===== *)
theory Expert_Choice
  imports Expert_Path
begin

text \<open>
  Choosing a super-block for an expert miss: the specification of \<open>_cheapest_kv_super_block\<close>
  and of \<open>_select_super_block_for_expert\<close>. The super-block returned holds no KV and has the
  layer's slot free; the search fails only when no super-block can be freed.
\<close>

section \<open>The cheapest super-block to vacate\<close>

subsection \<open>The tally\<close>

definition cold_pages :: "unified_manager \<Rightarrow> (nat \<times> int) list \<Rightarrow> nat \<Rightarrow> (nat \<times> int) list" where
  "cold_pages s done sb = filter (\<lambda>e. super_block_of_page s (fst e) = sb) done"

definition tallied :: "unified_manager \<Rightarrow> (nat \<times> int) list \<Rightarrow> (nat, nat) dict \<Rightarrow> (nat, int) dict \<Rightarrow> bool" where
  "tallied s done cnt old \<longleftrightarrow> dict_wf cnt \<and>
     (\<forall>sb. map_of cnt sb = (if cold_pages s done sb = [] then None else Some (length (cold_pages s done sb)))) \<and>
     (\<forall>sb. map_of old sb = (if cold_pages s done sb = [] then None else Some (snd (hd (cold_pages s done sb)))))"

lemma tallied_empty: "tallied s [] [] []"
  by (simp add: tallied_def cold_pages_def)

lemma tallied_step:
  assumes "tallied s done cnt old" "super_block_of_page s p = sb"
  shows "tallied s (done @ [(p, st)])
     (AList.update sb ((case map_of cnt sb of None \<Rightarrow> 0 | Some n \<Rightarrow> n) + 1) cnt)
     (if sb \<in> fst ` set old then old else AList.update sb st old)"
proof -
  have c: "cold_pages s (done @ [(p, st)]) b = cold_pages s done b @ (if b = sb then [(p, st)] else [])" for b
    using assms(2) by (simp add: cold_pages_def)
  have k: "sb \<in> fst ` set old \<longleftrightarrow> cold_pages s done sb \<noteq> []"
    using assms(1) unfolding tallied_def map_of_keys by (metis option.distinct(1))
  show ?thesis
    using assms(1) k unfolding tallied_def c
    by (auto simp: hd_append simp del: map_of_eq_Some_iff split: option.splits)
qed

lemma tally_ok:
  assumes "tallied s done cnt old" "tally s xs cnt old seen horizon = (xs', cnt', old', seen', ex)"
  shows "\<exists>ys. xs = ys @ xs' \<and> tallied s (done @ ys) cnt' old' \<and> (ex \<longrightarrow> xs' = []) \<and> (\<not> ex \<longrightarrow> ys \<noteq> [])"
  using assms
proof (induction s xs cnt old seen horizon arbitrary: "done" rule: tally.induct)
  case (2 s p st xs cnt old seen horizon)
  let ?sb = "super_block_of_page s p"
  let ?cnt = "AList.update ?sb ((case map_of cnt ?sb of None \<Rightarrow> 0 | Some n \<Rightarrow> n) + 1) cnt"
  let ?old = "if ?sb \<in> fst ` set old then old else AList.update ?sb st old"
  have t: "tallied s (done @ [(p, st)]) ?cnt ?old" using 2(2) by (intro tallied_step) auto
  show ?case
  proof (cases "seen + 1 \<ge> horizon")
    case True
    with 2(3) have "xs' = xs" "cnt' = ?cnt" "old' = ?old" "\<not> ex" by (auto simp: Let_def)
    with t show ?thesis by (intro exI [of _ "[(p, st)]"]) simp
  next
    case False
    then have "tally s xs ?cnt ?old (seen + 1) horizon = (xs', cnt', old', seen', ex)" using 2(3) by (auto simp: Let_def)
    from 2(1) [OF refl refl refl False t this] obtain ys where
      "xs = ys @ xs' \<and> tallied s ((done @ [(p, st)]) @ ys) cnt' old' \<and> (ex \<longrightarrow> xs' = []) \<and> (\<not> ex \<longrightarrow> ys \<noteq> [])" by blast
    then show ?thesis by (intro exI [of _ "(p, st) # ys"]) simp
  qed
qed auto

text \<open>One round reads up to the horizon, and runs dry exactly when the list ends before it.\<close>

lemma tally_reads:
  assumes "tally s xs cnt old seen horizon = (xs', cnt', old', seen', ex)" "seen < horizon"
  shows "xs' = drop (horizon - seen) xs \<and> seen' = seen + length (take (horizon - seen) xs) \<and> (ex \<longleftrightarrow> length xs < horizon - seen)"
  using assms
proof (induction s xs cnt old seen horizon rule: tally.induct)
  case (2 s p st xs cnt old seen horizon)
  show ?case
  proof (cases "seen + 1 \<ge> horizon")
    case True
    with 2(3) have "horizon - seen = 1" by simp
    with True 2(2) show ?thesis by (auto simp: Let_def)
  next
    case False
    then have h: "horizon - seen = Suc (horizon - (seen + 1))" by simp
    from False 2(2) have run: "tally s xs (AList.update (super_block_of_page s p)
        ((case map_of cnt (super_block_of_page s p) of None \<Rightarrow> 0 | Some n \<Rightarrow> n) + 1) cnt)
        (if super_block_of_page s p \<in> fst ` set old then old else AList.update (super_block_of_page s p) st old) (seen + 1) horizon =
      (xs', cnt', old', seen', ex)" by (simp add: Let_def)
    have "seen + 1 < horizon" using False by simp
    from 2(1) [OF refl refl refl False run this] show ?thesis unfolding h by auto
  qed
qed auto

subsection \<open>The candidates\<close>

lemma live_loop_run:
  assumes "\<forall>p \<in> set ps. p < length (blocks s)"
  shows "live_loop ps s = Inr (\<exists>p \<in> set ps. 0 < ref_at s p, s)"
  using assms by (induction ps) (auto simp: get_block_def return_def ref_at_def)

lemma vacatable_iff:
  assumes J: "inv s" and sb: "sb < num_super_blocks s"
  shows "vacatable sb s \<longleftrightarrow> sb \<noteq> 0 \<and> holders_of s sb = [] \<and> \<not> (\<exists>p \<in> set (pages_of s sb). 0 < ref_at s p)"
proof -
  note D = manager_syncedD [OF J]
  have "ref_at s p = 0 \<longleftrightarrow> \<not> 0 < ref_at s p" if "p \<in> set (pages_of s sb)" "0 < sb" for p
  proof -
    have "p < length (blocks s)" using pages_in_pool [OF J sb that(1)] .
    moreover have "0 < sb * pages_per_super_block s" using that D(8) by simp
    then have "0 < p" using that unfolding pages_of_def set_upt atLeastLessThan_iff by linarith
    ultimately have "0 \<le> ref_at s p" using D(5) unfolding queue_ok_def by blast
    then show ?thesis by linarith
  qed
  then show ?thesis using sb unfolding vacatable_def by (cases "sb = 0") auto
qed

lemma first_vacatable_run:
  assumes J: "inv s" and sbs: "\<forall>sb \<in> set sbs. sb < num_super_blocks s"
  shows "first_vacatable sbs s = Inr (find (\<lambda>sb. vacatable sb s) sbs, s)"
  using sbs
proof (induction sbs)
  case (Cons sb sbs)
  then have sb: "sb < num_super_blocks s" by simp
  have "\<forall>p \<in> set (pages_of s sb). p < length (blocks s)" using pages_in_pool [OF J sb] by blast
  note live = live_loop_run [OF this]
  have "any_layer_pins_super_block s sb \<Longrightarrow> holders_of s sb \<noteq> []"
    using pinned_held [OF J] holders_key [OF manager_syncedD(10) [OF J]] by blast
  with Cons live vacatable_iff [OF J sb] show ?case
    by (auto simp: super_block_has_live_page_def return_def)
qed (simp add: return_def)

lemma find_sorted:
  assumes "find P (map fst (sort_key f xs)) = Some a" "distinct (map fst xs)"
  shows "P a \<and> (\<exists>n. (a, n) \<in> set xs \<and> (\<forall>(b, m) \<in> set xs. P b \<longrightarrow> f (a, n) \<le> f (b, m)))"
proof -
  let ?ys = "sort_key f xs"
  obtain i where i: "i < length ?ys" "P (fst (?ys ! i))" "a = fst (?ys ! i)" "\<forall>j<i. \<not> P (fst (?ys ! j))"
    using assms(1) unfolding find_Some_iff length_map by (metis nth_map order_less_trans)
  have sorted: "sorted (map f ?ys)" by simp
  have "f (?ys ! i) \<le> f (b, m)" if "(b, m) \<in> set xs" "P b" for b m
  proof -
    have "(b, m) \<in> set ?ys" using that(1) by simp
    then obtain j where j: "j < length ?ys" "?ys ! j = (b, m)" unfolding in_set_conv_nth by blast
    with i that(2) have "i \<le> j" by (metis fst_conv not_le)
    with sorted j(1) have "map f ?ys ! i \<le> map f ?ys ! j" by (intro sorted_nth_mono) simp_all
    then show ?thesis using i(1) j by simp
  qed
  moreover have "?ys ! i \<in> set xs" using nth_mem [OF i(1)] by simp
  moreover obtain n where n: "?ys ! i = (a, n)" using i(3) by (cases "?ys ! i") simp
  moreover have "P a" using i(2) unfolding n by simp
  ultimately show ?thesis unfolding n by blast
qed

text \<open>
  What the search promises of a super-block it finds, after reading the pages \<open>done\<close>: it has the most of them, and among those with
  as many the coldest page.
\<close>

definition cheapest_in :: "unified_manager \<Rightarrow> (nat \<times> int) list \<Rightarrow> nat \<Rightarrow> bool" where
  "cheapest_in s done sb \<longleftrightarrow> vacatable sb s \<and> cold_pages s done sb \<noteq> [] \<and>
     (\<forall>sb'. vacatable sb' s \<and> cold_pages s done sb' \<noteq> [] \<longrightarrow>
        length (cold_pages s done sb') < length (cold_pages s done sb) \<or>
        length (cold_pages s done sb') = length (cold_pages s done sb) \<and>
          snd (hd (cold_pages s done sb)) \<le> snd (hd (cold_pages s done sb')))"

lemma by_cold_pages_found:
  assumes t: "tallied s done cnt old" and f: "find (\<lambda>sb. vacatable sb s) (by_cold_pages cnt old) = Some sb"
  shows "cheapest_in s done sb \<and> map_of old sb = Some (snd (hd (cold_pages s done sb)))"
proof -
  have wf: "dict_wf cnt" and c: "map_of cnt b = (if cold_pages s done b = [] then None else Some (length (cold_pages s done b)))"
    and o: "map_of old b = (if cold_pages s done b = [] then None else Some (snd (hd (cold_pages s done b))))" for b
    using t unfolding tallied_def by blast+
  have mem: "(b, n) \<in> set cnt \<longleftrightarrow> cold_pages s done b \<noteq> [] \<and> n = length (cold_pages s done b)" for b n
    using c [of b] wf by (metis map_of_eq_Some_iff option.distinct(1) option.inject)
  let ?key = "\<lambda>(sb, n :: nat). (- int n, the (map_of old sb))"
  obtain n where n: "vacatable sb s" "(sb, n) \<in> set cnt"
    "\<forall>(b, m) \<in> set cnt. vacatable b s \<longrightarrow> ?key (sb, n) \<le> ?key (b, m)"
    using find_sorted [OF f [unfolded by_cold_pages_def]] wf by blast
  have "m < n \<or> m = n \<and> the (map_of old sb) \<le> the (map_of old b)" if "(b, m) \<in> set cnt" "vacatable b s" for b m
    using n(3) that by (auto simp: less_eq_prod_def)
  then have "length (cold_pages s done b) < length (cold_pages s done sb) \<or> length (cold_pages s done b) = length (cold_pages s done sb) \<and>
      snd (hd (cold_pages s done sb)) \<le> snd (hd (cold_pages s done b))" if "vacatable b s" "cold_pages s done b \<noteq> []" for b
    using that n(2) mem o by auto
  with n(1,2) o [of sb] mem show ?thesis unfolding cheapest_in_def by auto
qed

lemma by_cold_pages_set: "tallied s done cnt old \<Longrightarrow> set (by_cold_pages cnt old) = {sb. cold_pages s done sb \<noteq> []}"
proof -
  assume t: "tallied s done cnt old"
  have "sb \<in> fst ` set cnt \<longleftrightarrow> cold_pages s done sb \<noteq> []" for sb
    using t unfolding tallied_def map_of_keys by (metis option.distinct(1))
  then show ?thesis by (auto simp: by_cold_pages_def)
qed

text \<open>
  The stretch the search reads after \<open>done\<close>: it grows by a super-block's worth of pages as long as no super-block with a page in it can be
  vacated.
\<close>

definition searched :: "unified_manager \<Rightarrow> (nat \<times> int) list \<Rightarrow> (nat \<times> int) list \<Rightarrow> (nat \<times> int) option \<Rightarrow> bool" where
  "searched s done xs r \<longleftrightarrow>
     (case r of
        Some (sb, st) \<Rightarrow> (\<exists>k.
          (\<forall>sb'. vacatable sb' s \<longrightarrow> cold_pages s (done @ take (k * pages_per_super_block s) xs) sb' = []) \<and>
          cheapest_in s (done @ take (Suc k * pages_per_super_block s) xs) sb \<and>
          st = (if kv_score_oldest s then snd (hd (cold_pages s (done @ take (Suc k * pages_per_super_block s) xs) sb))
                else warmest_prefix_step s sb))
      | None \<Rightarrow> \<forall>sb. vacatable sb s \<longrightarrow> cold_pages s (done @ xs) sb = [])"

lemma searched_append:
  assumes "searched s (done @ take (pages_per_super_block s) xs) (drop (pages_per_super_block s) xs) r"
  shows "searched s done xs r"
proof (cases r)
  case None
  with assms show ?thesis by (simp add: searched_def)
next
  case (Some a)
  let ?F = "pages_per_super_block s"
  have tk: "(done @ take ?F xs) @ take (k * ?F) (drop ?F xs) = done @ take (Suc k * ?F) xs" for k
    by (simp add: take_add)
  from assms obtain k sb st where a: "a = (sb, st)" "\<forall>sb'. vacatable sb' s \<longrightarrow> cold_pages s (done @ take (Suc k * ?F) xs) sb' = []"
    "cheapest_in s (done @ take (Suc (Suc k) * ?F) xs) sb"
    "st = (if kv_score_oldest s then snd (hd (cold_pages s (done @ take (Suc (Suc k) * ?F) xs) sb)) else warmest_prefix_step s sb)"
    unfolding searched_def Some option.case tk by (cases a) auto
  then show ?thesis unfolding searched_def Some a(1) option.case prod.case by blast
qed

lemma cheapest_loop_ok:
  assumes J: "inv s" and "tallied s done cnt old" "length xs < k" "horizon = seen + pages_per_super_block s"
    and "\<forall>sb. vacatable sb s \<longrightarrow> cold_pages s done sb = []"
    and "\<forall>e \<in> set (done @ xs). super_block_of_page s (fst e) < num_super_blocks s"
  shows "\<exists>r. cheapest_loop k xs cnt old seen horizon s = Inr (r, s) \<and> searched s done xs r"
  using assms(2-)
proof (induction k arbitrary: "done" xs cnt old seen horizon)
  case (Suc k)
  let ?F = "pages_per_super_block s"
  have F: "0 < ?F" using manager_syncedD(8) [OF J] .
  obtain xs' cnt' old' seen' ex where run: "tally s xs cnt old seen horizon = (xs', cnt', old', seen', ex)"
    by (metis prod_cases5)
  have rd: "xs' = drop ?F xs" "ex \<longleftrightarrow> length xs < ?F" using tally_reads [OF run] F Suc.prems(3) by simp_all
  have tl: "tallied s (done @ take ?F xs) cnt' old'"
    using tally_ok [OF Suc.prems(1) run] unfolding rd(1) by (metis append_same_eq append_take_drop_id)
  have "\<forall>sb \<in> set (by_cold_pages cnt' old'). sb < num_super_blocks s"
    unfolding by_cold_pages_set [OF tl] using Suc.prems(5) in_set_takeD [of _ ?F xs] by (auto simp: cold_pages_def filter_empty_conv)
  note fv = first_vacatable_run [OF J this]
  let ?f = "find (\<lambda>sb. vacatable sb s) (by_cold_pages cnt' old')"
  have step: "cheapest_loop (Suc k) xs cnt old seen horizon s =
      (case ?f of
         Some sb \<Rightarrow> return (Some (sb, if kv_score_oldest s then the (map_of old' sb) else warmest_prefix_step s sb)) s
       | None \<Rightarrow> if ex then return None s
                 else cheapest_loop k xs' cnt' old' seen' (seen' + ?F) s)"
    by (simp add: run fv)
  show ?case
  proof (cases ?f)
    case (Some sb)
    note found = by_cold_pages_found [OF tl this]
    then have "searched s done xs (Some (sb, if kv_score_oldest s then the (map_of old' sb) else warmest_prefix_step s sb))"
      unfolding searched_def option.case prod.case using Suc.prems(4) by (intro exI [of _ 0]) simp
    then show ?thesis unfolding step Some option.case by (simp add: return_def)
  next
    case None
    then have none: "\<forall>sb. vacatable sb s \<longrightarrow> cold_pages s (done @ take ?F xs) sb = []"
      using by_cold_pages_set [OF tl] by (auto simp: find_None_iff)
    show ?thesis
    proof (cases ex)
      case True
      with none rd(2) have "searched s done xs None" by (simp add: searched_def)
      with True None show ?thesis unfolding step by (simp add: return_def)
    next
      case False
      then have "length xs' < k" using rd F Suc.prems(2) by simp
      moreover have "\<forall>e \<in> set ((done @ take ?F xs) @ xs'). super_block_of_page s (fst e) < num_super_blocks s"
        using Suc.prems(5) unfolding rd(1) append_assoc append_take_drop_id .
      ultimately obtain r where r: "cheapest_loop k xs' cnt' old' seen' (seen' + ?F) s = Inr (r, s)"
        "searched s (done @ take ?F xs) xs' r" using Suc.IH [OF tl _ refl none] by blast
      from searched_append [OF r(2) [unfolded rd(1)]] r(1) None False show ?thesis unfolding step by simp
    qed
  qed
qed simp

text \<open>The pages of the pool fill whole super-blocks.\<close>

definition whole_super_blocks :: "unified_manager \<Rightarrow> bool" where
  "whole_super_blocks s \<longleftrightarrow> pages_per_super_block s dvd length (blocks s)"

lemma page_super_block:
  assumes J: "inv s" and w: "whole_super_blocks s" and p: "p < length (blocks s)"
  shows "super_block_of_page s p < num_super_blocks s"
proof -
  have "num_super_blocks s = length (blocks s) div pages_per_super_block s"
    using manager_syncedD(13) [OF J] by (simp add: geometry_ok_def)
  then have "num_super_blocks s * pages_per_super_block s = length (blocks s)"
    using w by (simp add: whole_super_blocks_def)
  with p show ?thesis unfolding super_block_of_page_def by (intro less_mult_imp_div_less) simp
qed

definition cheapest_result :: "unified_manager \<Rightarrow> (nat \<times> int) option \<Rightarrow> bool" where
  "cheapest_result s r \<longleftrightarrow>
     (case r of
        Some (sb, st) \<Rightarrow> (\<exists>k.
          (\<forall>sb'. vacatable sb' s \<longrightarrow> cold_pages s (take (k * pages_per_super_block s) (lru_items (prefix_lru s))) sb' = []) \<and>
          cheapest_in s (take (Suc k * pages_per_super_block s) (lru_items (prefix_lru s))) sb \<and>
          st = (if kv_score_oldest s then Min (warmth s ` set (sb_prefix_pages sb s)) else warmest_prefix_step s sb))
      | None \<Rightarrow> (\<forall>sb. vacatable sb s \<longrightarrow> sb_prefix_pages sb s = []))"

lemma cold_pages_all:
  assumes J: "inv s" and v: "vacatable sb s"
  shows "cold_pages s (lru_items (prefix_lru s)) sb = [] \<longleftrightarrow> sb_prefix_pages sb s = []"
proof -
  have "cold_pages s (lru_items (prefix_lru s)) sb = [] \<longleftrightarrow> (\<forall>p \<in> cached_free s. super_block_of_page s p \<noteq> sb)"
    unfolding inv_items(2) [OF J, symmetric] by (auto simp: cold_pages_def filter_empty_conv)
  also have "\<dots> \<longleftrightarrow> sb_prefix_pages sb s = []"
    using sb_prefix_pages_cached [OF J v] mem_pages_of [OF manager_syncedD(8) [OF J]]
    by (fastforce simp: sb_prefix_pages_def cached_free_def filter_empty_conv)
  finally show ?thesis .
qed

lemma coldest_of:
  assumes J: "inv s" and v: "vacatable sb s" and it: "lru_items (prefix_lru s) = ys @ zs" and ne: "cold_pages s ys sb \<noteq> []"
  shows "snd (hd (cold_pages s ys sb)) = Min (warmth s ` set (sb_prefix_pages sb s))"
proof -
  let ?xs = "cold_pages s (lru_items (prefix_lru s)) sb"
  have hd: "hd ?xs = hd (cold_pages s ys sb)" "?xs \<noteq> []" using ne by (auto simp: it cold_pages_def)
  have "sorted (map snd ?xs)" using inv_items(3) [OF J] by (simp add: cold_pages_def sorted_filter)
  then have le: "\<forall>e \<in> set ?xs. snd (hd ?xs) \<le> snd e" using hd(2) by (cases ?xs) auto
  have "snd ` set ?xs = warmth s ` set (sb_prefix_pages sb s)"
  proof (intro set_eqI iffI)
    fix st assume "st \<in> snd ` set ?xs"
    then obtain p where p: "(p, st) \<in> set (lru_items (prefix_lru s))" "super_block_of_page s p = sb"
      by (auto simp: cold_pages_def)
    then have "p \<in> cached_free s" using inv_items(2) [OF J] by force
    then have "p \<in> set (sb_prefix_pages sb s)"
      using p(2) mem_pages_of [OF manager_syncedD(8) [OF J]] by (simp add: sb_prefix_pages_def cached_free_def)
    with warmth_item [OF J p(1)] show "st \<in> warmth s ` set (sb_prefix_pages sb s)" by blast
  next
    fix st assume "st \<in> warmth s ` set (sb_prefix_pages sb s)"
    then obtain p where "p \<in> set (sb_prefix_pages sb s)" "st = warmth s p" by blast
    with sb_prefix_pages_cached [OF J v] warmth_mem [OF J] show "st \<in> snd ` set ?xs"
      by (force simp: cold_pages_def)
  qed
  then have "Min (warmth s ` set (sb_prefix_pages sb s)) = Min (snd ` set ?xs)" by simp
  also have "\<dots> = snd (hd ?xs)" using le hd(2) by (intro Min_eqI) auto
  finally show ?thesis using hd(1) by simp
qed

lemma cheapest_kv_super_block_ok:
  assumes J: "inv s" and w: "whole_super_blocks s"
  shows "\<exists>r. cheapest_kv_super_block s = Inr (r, s) \<and> cheapest_result s r"
proof -
  let ?xs = "lru_items (prefix_lru s)"
  have "p < length (blocks s)" if "p \<in> cached_free s" for p
    using that free_page [OF manager_syncedD(5) [OF J]] by (simp add: cached_free_def)
  then have "\<forall>e \<in> set ([] @ ?xs). super_block_of_page s (fst e) < num_super_blocks s"
    using inv_items(2) [OF J] page_super_block [OF J w] by fastforce
  from cheapest_loop_ok [OF J tallied_empty _ _ _ this, of "length ?xs + 2" "pages_per_super_block s" 0]
  obtain r where r: "cheapest_loop (length ?xs + 2) ?xs [] [] 0 (pages_per_super_block s) s = Inr (r, s)" "searched s [] ?xs r"
    by (auto simp: cold_pages_def simp del: cheapest_loop.simps)
  have "cheapest_kv_super_block s = Inr (r, s)"
    using r(1) plru.walk_items [OF manager_syncedD(15) [OF J]] by (simp add: cheapest_kv_super_block_def)
  moreover have "cheapest_result s r"
  proof (cases r)
    case None
    with r(2) cold_pages_all [OF J] show ?thesis by (simp add: cheapest_result_def searched_def)
  next
    case (Some a)
    obtain sb st where a: "a = (sb, st)" by (cases a)
    let ?n = "\<lambda>k. k * pages_per_super_block s"
    from r(2) obtain k where c: "\<forall>sb'. vacatable sb' s \<longrightarrow> cold_pages s (take (?n k) ?xs) sb' = []"
      "cheapest_in s (take (?n (Suc k)) ?xs) sb"
      "st = (if kv_score_oldest s then snd (hd (cold_pages s (take (?n (Suc k)) ?xs) sb)) else warmest_prefix_step s sb)"
      unfolding Some a searched_def option.case prod.case append_Nil by blast
    then have "snd (hd (cold_pages s (take (?n (Suc k)) ?xs) sb)) = Min (warmth s ` set (sb_prefix_pages sb s))"
      using coldest_of [OF J _ append_take_drop_id [symmetric]] by (simp add: cheapest_in_def)
    with c show ?thesis unfolding Some a cheapest_result_def option.case prod.case by (intro exI [of _ k]) simp
  qed
  ultimately show ?thesis by blast
qed

subsection \<open>A partial super-block at the end of the pool\<close>

text \<open>Reading the pages of a super-block that is not wholly in the pool, none of them in use, runs past the last block.\<close>

lemma live_loop_index:
  assumes "\<forall>p \<in> set ps. p < length (blocks s) \<longrightarrow> ref_at s p = 0" "\<exists>p \<in> set ps. length (blocks s) \<le> p"
  shows "live_loop ps s = Inl (IndexError, s)"
  using assms by (induction ps) (auto simp: get_block_def return_def raise_def ref_at_def)

lemma tail_live:
  assumes J: "inv s" and w: "\<not> whole_super_blocks s"
    and r: "\<forall>p \<in> set (pages_of s (num_super_blocks s)). p < length (blocks s) \<longrightarrow> ref_at s p = 0"
  shows "super_block_has_live_page (num_super_blocks s) s = Inl (IndexError, s)"
proof -
  let ?n = "length (blocks s)" and ?F = "pages_per_super_block s"
  have g: "num_super_blocks s = ?n div ?F" "0 < ?F" using manager_syncedD(13) [OF J] by (simp_all add: geometry_ok_def)
  have "?n mod ?F < ?F" "?n = num_super_blocks s * ?F + ?n mod ?F" using g by simp_all
  then have "?n \<in> set (pages_of s (num_super_blocks s))" unfolding pages_of_def set_upt atLeastLessThan_iff by linarith
  with r show ?thesis unfolding super_block_has_live_page_def by (intro live_loop_index) auto
qed

text \<open>The candidates among which the search runs into the tail: none of the whole super-blocks can be vacated.\<close>

definition tail_only :: "unified_manager \<Rightarrow> nat \<Rightarrow> bool" where
  "tail_only s sb \<longleftrightarrow> sb = num_super_blocks s \<or> sb < num_super_blocks s \<and> \<not> vacatable sb s"

lemma first_vacatable_tail:
  assumes J: "inv s" "\<not> whole_super_blocks s" "0 < num_super_blocks s"
    and r: "\<forall>p \<in> set (pages_of s (num_super_blocks s)). p < length (blocks s) \<longrightarrow> ref_at s p = 0"
    and sbs: "\<forall>sb \<in> set sbs. tail_only s sb"
  shows "first_vacatable sbs s = (if num_super_blocks s \<in> set sbs then Inl (IndexError, s) else Inr (None, s))"
  using sbs
proof (induction sbs)
  case (Cons sb sbs)
  note D = manager_syncedD [OF J(1)]
  show ?case
  proof (cases "sb = num_super_blocks s")
    case True
    have "sb \<notin> fst ` set (super_block_holder s)" using D(10) by (auto simp: True holders_ok_def)
    then have h: "holders_of s sb = []" "\<not> any_layer_pins_super_block s sb"
      using holders_key [OF D(10)] pinned_held [OF J(1)] by blast+
    show ?thesis using J(3) h tail_live [OF J(1,2) r] by (simp add: True)
  next
    case False
    with Cons.prems have sb: "sb < num_super_blocks s" "\<not> vacatable sb s" by (auto simp: tail_only_def)
    have "first_vacatable [sb] s = Inr (None, s)" using first_vacatable_run [OF J(1), of "[sb]"] sb by simp
    then have "first_vacatable (sb # sbs) s = first_vacatable sbs s"
      by (auto simp: return_def rbind_def raise_def split: if_splits sum.splits prod.splits)
    with Cons False show ?thesis by simp
  qed
qed (simp add: return_def)

lemma cheapest_loop_tail:
  assumes J: "inv s" "\<not> whole_super_blocks s" "0 < num_super_blocks s"
    and r: "\<forall>p \<in> set (pages_of s (num_super_blocks s)). p < length (blocks s) \<longrightarrow> ref_at s p = 0"
    and "tallied s done cnt old" "length xs < k"
    and "\<forall>e \<in> set (done @ xs). tail_only s (super_block_of_page s (fst e))"
    and "\<exists>e \<in> set (done @ xs). super_block_of_page s (fst e) = num_super_blocks s"
  shows "cheapest_loop k xs cnt old seen horizon s = Inl (IndexError, s)"
  using assms(5-)
proof (induction k arbitrary: "done" xs cnt old seen horizon)
  case (Suc k)
  obtain xs' cnt' old' seen' ex where run: "tally s xs cnt old seen horizon = (xs', cnt', old', seen', ex)"
    by (metis prod_cases5)
  from tally_ok [OF Suc.prems(1) this] obtain ys where ys: "xs = ys @ xs'" "tallied s (done @ ys) cnt' old'"
    "ex \<longrightarrow> xs' = []" "\<not> ex \<longrightarrow> ys \<noteq> []" by blast
  have cand: "\<forall>sb \<in> set (by_cold_pages cnt' old'). tail_only s sb"
    unfolding by_cold_pages_set [OF ys(2)] using Suc.prems(3) ys(1) by (auto simp: cold_pages_def filter_empty_conv)
  show ?case
  proof (cases "num_super_blocks s \<in> set (by_cold_pages cnt' old')")
    case True
    with first_vacatable_tail [OF J r cand] run show ?thesis by simp
  next
    case False
    then have none: "\<forall>e \<in> set (done @ ys). super_block_of_page s (fst e) \<noteq> num_super_blocks s"
      unfolding by_cold_pages_set [OF ys(2)] by (auto simp: cold_pages_def filter_empty_conv)
    with Suc.prems(4) ys(1,3) have "\<not> ex" by auto
    then have "length xs' < k" using ys(1,4) Suc.prems(2) by (cases ys) auto
    from Suc.IH [OF ys(2) this] Suc.prems(3,4) ys(1) first_vacatable_tail [OF J r cand] run False \<open>\<not> ex\<close> show ?thesis by simp
  qed
qed simp

lemma cheapest_tail:
  assumes J: "inv s" "\<not> whole_super_blocks s" "0 < num_super_blocks s"
    and r: "\<forall>p \<in> set (pages_of s (num_super_blocks s)). p < length (blocks s) \<longrightarrow> ref_at s p = 0"
    and p: "p \<in> cached_free s" "super_block_of_page s p = num_super_blocks s"
    and c: "\<forall>sb. vacatable sb s \<longrightarrow> sb_prefix_pages sb s = []"
  shows "cheapest_kv_super_block s = Inl (IndexError, s)"
proof -
  let ?xs = "lru_items (prefix_lru s)"
  note D = manager_syncedD [OF J(1)]
  have g: "num_super_blocks s = length (blocks s) div pages_per_super_block s" using D(13) by (simp add: geometry_ok_def)
  have "tail_only s (super_block_of_page s q)" if q: "q \<in> cached_free s" for q
  proof -
    have "q < length (blocks s)" using q free_page [OF D(5)] by (simp add: cached_free_def)
    then have le: "super_block_of_page s q \<le> num_super_blocks s" unfolding super_block_of_page_def g by (intro div_le_mono) simp
    have "q \<in> set (sb_prefix_pages (super_block_of_page s q) s)"
      using q mem_pages_of [OF D(8)] by (simp add: sb_prefix_pages_def cached_free_def)
    then have "sb_prefix_pages (super_block_of_page s q) s \<noteq> []" by (metis empty_iff empty_set)
    with c le show ?thesis unfolding tail_only_def by fastforce
  qed
  then have "\<forall>e \<in> set ([] @ ?xs). tail_only s (super_block_of_page s (fst e))" using inv_items(2) [OF J(1)] by fastforce
  moreover have "\<exists>e \<in> set ([] @ ?xs). super_block_of_page s (fst e) = num_super_blocks s"
    using p inv_items(2) [OF J(1)] by (metis append_Nil image_iff)
  ultimately have "cheapest_loop (length ?xs + 2) ?xs [] [] 0 (pages_per_super_block s) s = Inl (IndexError, s)"
    by (intro cheapest_loop_tail [OF J r tallied_empty]) simp_all
  then show ?thesis using plru.walk_items [OF D(15)] by (simp add: cheapest_kv_super_block_def del: cheapest_loop.simps)
qed

section \<open>Holders\<close>

text \<open>What the expert side never changes: the geometry, the weights, the reference counts and the free queue.\<close>

definition experts_of :: "unified_manager \<Rightarrow> nat \<Rightarrow> nat option" where
  "experts_of s i = map_option num_experts (map_of (layers s) i)"

definition weights_of :: "unified_manager \<Rightarrow> nat \<Rightarrow> (byte list list \<times> byte list list) option" where
  "weights_of s i = map_option (\<lambda>l. (cpu_w13_bytes l, cpu_w2_bytes l)) (map_of (layers s) i)"

definition same_pool :: "unified_manager \<Rightarrow> unified_manager \<Rightarrow> bool" where
  "same_pool s s' \<longleftrightarrow> pages_per_super_block s' = pages_per_super_block s \<and> page_size_bytes s' = page_size_bytes s \<and>
     num_super_blocks s' = num_super_blocks s \<and> step s' = step s \<and>
     relocation_enabled s' = relocation_enabled s \<and> kv_score_oldest s' = kv_score_oldest s \<and>
     dict_keys (kv_pool_buffers s') = dict_keys (kv_pool_buffers s) \<and> dict_keys (layers s') = dict_keys (layers s) \<and>
     length (blocks s') = length (blocks s) \<and> ref_at s' = ref_at s \<and> free_block_queue s' = free_block_queue s \<and>
     experts_of s' = experts_of s \<and> weights_of s' = weights_of s \<and>
     enable_caching s' = enable_caching s \<and> hash_block_size s' = hash_block_size s"

lemma same_pool_refl [simp]: "same_pool s s"
  by (simp add: same_pool_def)

lemma same_pool_trans: "same_pool s s' \<Longrightarrow> same_pool s' s'' \<Longrightarrow> same_pool s s''"
  by (simp add: same_pool_def)

lemma keeps_same_pool: "keeps s s' \<Longrightarrow> same_pool s s'"
  by (simp add: keeps_def same_pool_def experts_of_def weights_of_def fun_eq_iff)

lemma same_pool_views:
  assumes "same_pool s s'"
  shows "pages_of s' = pages_of s" "super_block_of_page s' = super_block_of_page s" "free_set s' = free_set s"
    "whole_super_blocks s' = whole_super_blocks s"
  using assms by (simp_all add: same_pool_def pages_of_def super_block_of_page_def free_set_def whole_super_blocks_def fun_eq_iff)

definition pins_of :: "unified_manager \<Rightarrow> nat \<Rightarrow> nat list option" where
  "pins_of s i = map_option pinned_super_blocks (map_of (layers s) i)"

lemma kv_kept_base:
  assumes "base s' = base s" "kv_pool_buffers s' = kv_pool_buffers s" "page_size_bytes s' = page_size_bytes s"
  shows "kv_kept s s'"
  using base_views [OF assms(1)] page_bytes_cong [OF assms(2,3)] by (auto simp: kv_kept_def)

lemma put_layer_keys: "map_of (layers s) i = Some l \<Longrightarrow> dict_keys (layers (put_layer i l' s)) = dict_keys (layers s)"
  using map_of_keys [of i "layers s"] by (simp add: update_keys)

lemma remove_holder_fields [simp]:
  "layers (remove_holder i sb s) = layers s" "base (remove_holder i sb s) = base s"
  "prefix_lru (remove_holder i sb s) = prefix_lru s" "pages_per_super_block (remove_holder i sb s) = pages_per_super_block s"
  "step (remove_holder i sb s) = step s" "kv_pool_buffers (remove_holder i sb s) = kv_pool_buffers s"
  "num_super_blocks (remove_holder i sb s) = num_super_blocks s" "page_size_bytes (remove_holder i sb s) = page_size_bytes s"
  "relocation_enabled (remove_holder i sb s) = relocation_enabled s" "kv_score_oldest (remove_holder i sb s) = kv_score_oldest s"
  by (auto simp: remove_holder_def base_eq_iff Let_def split: option.splits)

lemma remove_holder_holders:
  "holders_of (remove_holder i sb s) b = (if b = sb then removeAll i (holders_of s sb) else holders_of s b)"
  by (auto simp: holders_of_def remove_holder_def Let_def split: option.splits)

lemma remove_holder_keys: "fst ` set (super_block_holder (remove_holder i sb s)) \<subseteq> fst ` set (super_block_holder s)"
  using map_of_keys [of sb "super_block_holder s"]
  by (auto simp: remove_holder_def Let_def split: option.splits simp del: map_of_eq_Some_iff)

lemma remove_holder_wf:
  assumes "dict_wf (super_block_holder s)" "[] \<notin> snd ` set (super_block_holder s)"
  shows "dict_wf (super_block_holder (remove_holder i sb s)) \<and> [] \<notin> snd ` set (super_block_holder (remove_holder i sb s))"
proof (cases "map_of (super_block_holder s) sb")
  case None
  then show ?thesis using assms by (simp add: remove_holder_def)
next
  case (Some hs)
  have "snd ` set (AList.delete sb (super_block_holder s)) \<subseteq> snd ` set (super_block_holder s)"
    by (auto simp: AList.delete_eq)
  then have "removeAll i hs = [] \<or> [] \<notin> snd ` set (AList.update sb (removeAll i hs) (super_block_holder s))"
    "[] \<notin> snd ` set (AList.delete sb (super_block_holder s))"
    using assms(2) update_values [of sb "removeAll i hs" "super_block_holder s"] by (metis insert_iff subsetD)+
  with assms(1) show ?thesis unfolding remove_holder_def Some option.case Let_def by (cases "removeAll i hs = []") simp_all
qed

text \<open>Dropping one layer's mapping: other layers keep theirs, and no KV is touched.\<close>

lemma drop_layer_mapping_ok:
  assumes J: "inv s" and l: "map_of (layers s) i = Some l" "sb \<notin> set (pinned_super_blocks l)"
    and e: "map_of (expert_at_super_block l) sb = Some e"
  shows "runs_to (drop_layer_mapping i sb s) (\<lambda>_ s'. inv s' \<and> same_pool s s' \<and> kv_kept s s' \<and> hash_at s' = hash_at s \<and>
     (\<forall>j b e. mapped s' j b e \<longleftrightarrow> mapped s j b e \<and> \<not> (j = i \<and> b = sb)) \<and> pins_of s' = pins_of s)"
  unfolding drop_layer_mapping_def post_rbind
proof (rule runs_to_mono [OF drop_mapping [OF manager_syncedD(9,11) [OF J] l]])
  note D = manager_syncedD [OF J]
  fix r s1 assume "\<exists>l'. s1 = put_layer i l' s \<and> same_layer l l' \<and> r = map_of (expert_at_super_block l) sb \<and>
    layers_ok s1 \<and> bytes_ok s1 \<and> (\<forall>j b e. mapped s1 j b e \<longleftrightarrow> mapped s j b e \<and> \<not> (j = i \<and> b = sb))"
  then obtain l' where s1: "s1 = put_layer i l' s" "same_layer l l'" "r = Some e" "layers_ok s1" "bytes_ok s1"
    and m1: "\<And>j b e. mapped s1 j b e \<longleftrightarrow> mapped s j b e \<and> \<not> (j = i \<and> b = sb)" using e by auto
  let ?s' = "remove_holder i sb s1"
  have f: "base ?s' = base s" "layers ?s' = layers s1" "kv_pool_buffers ?s' = kv_pool_buffers s"
    "pages_per_super_block ?s' = pages_per_super_block s" "page_size_bytes ?s' = page_size_bytes s"
    "num_super_blocks ?s' = num_super_blocks s" "step ?s' = step s" "prefix_lru ?s' = prefix_lru s"
    "relocation_enabled ?s' = relocation_enabled s" "kv_score_oldest ?s' = kv_score_oldest s"
    by (simp_all add: s1(1)) (simp_all add: put_layer_def)
  have h1: "super_block_holder s1 = super_block_holder s" "holders_of s1 = holders_of s" by (simp_all add: s1(1))
  have m': "mapped ?s' j b d \<longleftrightarrow> mapped s j b d \<and> \<not> (j = i \<and> b = sb)" for j b d
    using m1 by (simp add: mapped_def)
  have "\<forall>b \<in> fst ` set (super_block_holder ?s'). 0 < b \<and> b < num_super_blocks s"
    using D(10) remove_holder_keys [of i sb s1] unfolding holders_ok_def h1 by (meson subsetD)
  moreover have "dict_wf (super_block_holder ?s') \<and> [] \<notin> snd ` set (super_block_holder ?s')"
    using D(10) by (intro remove_holder_wf) (simp_all add: holders_ok_def h1)
  moreover have "j \<in> holder_sets ?s' b \<longleftrightarrow> (\<exists>d. mapped ?s' j b d)" for b j
    using D(10) unfolding m' by (auto simp: remove_holder_holders h1 holders_ok_def)
  ultimately have "holders_ok (holder_sets ?s') ?s'" unfolding holders_ok_def f by blast
  moreover have "layers_ok ?s'" "bytes_ok ?s'"
    using s1(4,5) f by (simp_all add: layers_ok_def bytes_ok_def shape_ok_def s1(1))
  moreover have keys: "dict_keys (layers ?s') = dict_keys (layers s)" using put_layer_keys [OF l(1), of l'] by (simp add: s1(1))
  then have "geometry_ok (length (blocks s)) ?s'" using D(13) unfolding geometry_ok_def f(3-6) by simp
  moreover have "lru_ok (cached_free s) ?s'" using D(12) unfolding lru_ok_def f .
  ultimately have v: "manager_view (length (blocks s)) (cached_free s) ?s'" by (simp add: manager_view_def)
  have sbp: "super_block_of_page ?s' = super_block_of_page s" unfolding fun_eq_iff super_block_of_page_def f by simp
  have "held_pages ?s' \<subseteq> held_pages s"
  proof
    fix p assume "p \<in> held_pages ?s'"
    moreover have "0 < pages_per_super_block ?s'" unfolding f(4) by (rule D(8))
    ultimately have "super_block_of_page s p \<in> fst ` set (super_block_holder ?s')" using held_iff sbp by metis
    then show "p \<in> held_pages s" using remove_holder_keys [of i sb s1] held_iff [OF D(8)] unfolding h1 by blast
  qed
  note J' = synced_base_view [OF J f(1) v this]
  have b: "blocks ?s' = blocks s" "free_block_queue ?s' = free_block_queue s" "ref_at ?s' = ref_at s" "hash_at ?s' = hash_at s"
    using f(1) [unfolded base_eq_iff] base_views(1,2) [OF f(1)] by blast+
  have "pins_of ?s' = pins_of s"
    using l(1) same_layer_fields(8) [OF s1(2)] by (simp add: fun_eq_iff pins_of_def s1(1))
  moreover have "experts_of ?s' = experts_of s" "weights_of ?s' = weights_of s"
    using l(1) same_layer_fields(2-4) [OF s1(2)] by (simp_all add: fun_eq_iff experts_of_def weights_of_def s1(1))
  then have "same_pool s ?s'" using f b keys base_views(7,11) [OF f(1)] by (simp add: same_pool_def)
  moreover have "kv_kept s ?s'" by (rule kv_kept_base) (simp_all only: f)
  ultimately have "inv ?s' \<and> same_pool s ?s' \<and> kv_kept s ?s' \<and> hash_at ?s' = hash_at s \<and>
     (\<forall>j b e. mapped ?s' j b e \<longleftrightarrow> mapped s j b e \<and> \<not> (j = i \<and> b = sb)) \<and> pins_of ?s' = pins_of s"
    using J' b m' by simp
  then show "runs_to (if r = None then return () s1 else return () (remove_holder i sb s1)) (\<lambda>_ s'. inv s' \<and> same_pool s s' \<and>
     kv_kept s s' \<and> hash_at s' = hash_at s \<and>
     (\<forall>j b e. mapped s' j b e \<longleftrightarrow> mapped s j b e \<and> \<not> (j = i \<and> b = sb)) \<and> pins_of s' = pins_of s)"
    using s1(3) by simp
qed

section \<open>The choice\<close>

text \<open>The super-block can take an expert of layer \<open>i\<close>: no KV in it and the layer's slot is free.\<close>

definition ready_for :: "nat \<Rightarrow> nat \<Rightarrow> unified_manager \<Rightarrow> bool" where
  "ready_for i sb s \<longleftrightarrow> 0 < sb \<and> sb < num_super_blocks s \<and> (\<forall>e. \<not> mapped s i sb e) \<and>
     (\<forall>p \<in> set (pages_of s sb). p \<in> free_set s \<and> hash_at s p = None)"

lemma held_ready:
  assumes J: "inv s" and sb: "sb \<in> fst ` set (super_block_holder s)" "\<forall>e. \<not> mapped s i sb e"
  shows "ready_for i sb s"
proof -
  note D = manager_syncedD [OF J]
  have "0 < sb" "sb < num_super_blocks s" using D(10) sb(1) by (auto simp: holders_ok_def)
  moreover have "set (pages_of s sb) \<subseteq> held_pages s" using sb(1) by (auto simp: held_pages_def)
  ultimately show ?thesis using D(3) sb(2) unfolding ready_for_def by blast
qed

lemma mapped_holders: "inv s \<Longrightarrow> mapped s i sb e \<Longrightarrow> i \<in> set (holders_of s sb)"
  using manager_syncedD(10) [of "length (blocks s)" "{}" s] by (auto simp: holders_ok_def)

lemma vacated_ready:
  assumes J: "inv s" and v: "vacatable sb s" and h: "\<forall>p \<in> set (pages_of s sb). hash_at s p = None"
  shows "ready_for i sb s"
  unfolding ready_for_def using v h vacatable_pages(1) [OF J v] mapped_holders [OF J] by (force simp: vacatable_def)

lemma co_location_some:
  assumes J: "inv s" and l: "map_of (layers s) i = Some l" and c: "co_location s l = Some sb"
  shows "ready_for i sb s"
proof -
  let ?cs = "filter (\<lambda>sb. sb > 0 \<and> sb \<notin> set (pinned_super_blocks l) \<and> sb \<notin> fst ` set (expert_at_super_block l))
             (dict_keys (super_block_holder s))"
  have "sb \<in> set ?cs"
  proof (cases ?cs)
    case Nil
    then show ?thesis using c unfolding co_location_def Nil by simp
  next
    case (Cons x xs)
    then have "sb = Min (set (x # xs))" using c unfolding co_location_def Cons by simp
    then show ?thesis unfolding Cons using Min_in [of "set (x # xs)"] by simp
  qed
  then have "sb \<in> fst ` set (super_block_holder s)" "sb \<notin> fst ` set (expert_at_super_block l)" by auto
  moreover from this(2) have "\<forall>e. \<not> mapped s i sb e" using l by (simp add: mapped_self map_of_keys)
  ultimately show ?thesis by (intro held_ready [OF J])
qed

lemma co_location_none:
  assumes "inv s" "map_of (layers s) i = Some l" "co_location s l = None" "sb \<in> fst ` set (super_block_holder s)"
  shows "sb \<in> set (pinned_super_blocks l) \<or> (\<exists>e. mapped s i sb e)"
proof -
  have "0 < sb" using manager_syncedD(10) [OF assms(1)] assms(4) by (auto simp: holders_ok_def)
  moreover have "filter (\<lambda>sb. sb > 0 \<and> sb \<notin> set (pinned_super_blocks l) \<and> sb \<notin> fst ` set (expert_at_super_block l))
             (dict_keys (super_block_holder s)) = []" using assms(3) by (simp add: co_location_def split: list.splits)
  ultimately have "sb \<in> set (pinned_super_blocks l) \<or> sb \<in> fst ` set (expert_at_super_block l)"
    using assms(4) by (auto simp: filter_empty_conv)
  then show ?thesis using assms(2) by (auto simp: mapped_self map_of_keys)
qed

lemma pages_pure_run:
  assumes "\<forall>p \<in> set ps. p < length (blocks s)"
  shows "pages_pure ps s = Inr (\<forall>p \<in> set ps. \<not> 0 < ref_at s p \<and> hash_at s p = None, s)"
  using assms by (induction ps) (auto simp: get_block_def return_def ref_at_def hash_at_def)

text \<open>A fully free super-block is one that can be vacated and has no cached page.\<close>

definition pure :: "unified_manager \<Rightarrow> nat \<Rightarrow> bool" where
  "pure s sb \<longleftrightarrow> vacatable sb s \<and> sb_prefix_pages sb s = []"

lemma first_pure_run:
  assumes J: "inv s" and l: "map_of (layers s) i = Some l" and sbs: "\<forall>sb \<in> set sbs. 0 < sb \<and> sb < num_super_blocks s"
  shows "first_pure l sbs s = Inr (find (pure s) sbs, s)"
  using sbs
proof (induction sbs)
  case (Cons sb sbs)
  note D = manager_syncedD [OF J]
  have sb: "0 < sb" "sb < num_super_blocks s" using Cons.prems by auto
  have "\<forall>p \<in> set (pages_of s sb). p < length (blocks s)" using pages_in_pool [OF J sb(2)] by blast
  note pp = pages_pure_run [OF this]
  have pure: "pure s sb \<longleftrightarrow> holders_of s sb = [] \<and> (\<forall>p \<in> set (pages_of s sb). \<not> 0 < ref_at s p \<and> hash_at s p = None)"
    using sb(1) by (auto simp: pure_def vacatable_iff [OF J sb(2)] sb_prefix_pages_def filter_empty_conv)
  have "holders_of s sb \<noteq> []" if "sb \<in> fst ` set (expert_at_super_block l)"
    using that l mapped_holders [OF J, of i sb] by (auto simp: mapped_self map_of_keys)
  moreover have "sb \<in> fst ` set (expert_at_super_block l)" if "sb \<in> set (pinned_super_blocks l)"
    using that l D(9) unfolding layers_ok_def map_of_keys by blast
  ultimately have "sb \<in> set (pinned_super_blocks l) \<or> sb \<in> fst ` set (expert_at_super_block l) \<or> holders_of s sb \<noteq> [] \<longleftrightarrow>
      holders_of s sb \<noteq> []" by blast
  with Cons pp pure show ?case by (auto simp: return_def)
qed (simp add: return_def)

text \<open>The shortcut: below \<open>F\<close> free pages without a hash there is no fully free super-block.\<close>

lemma pure_needs_pages:
  assumes J: "inv s" and p: "pure s sb"
  shows "int (pages_per_super_block s) \<le> num_free_blocks (free_block_queue s) - int (lru_len (prefix_lru s))"
proof -
  note D = manager_syncedD [OF J]
  have v: "vacatable sb s" and none: "\<forall>p \<in> set (pages_of s sb). hash_at s p = None"
    using p by (auto simp: pure_def sb_prefix_pages_def filter_empty_conv)
  have fin: "finite (free_set s)" by (simp add: free_set_def)
  have sub: "cached_free s \<subseteq> free_set s" by (auto simp: cached_free_def)
  have "set (pages_of s sb) \<subseteq> free_set s - cached_free s"
    using vacatable_pages(1) [OF J v] none by (auto simp: cached_free_def)
  from card_mono [OF finite_Diff [OF fin] this] have "pages_per_super_block s \<le> card (free_set s - cached_free s)"
    by (simp add: pages_of_def)
  also have "\<dots> = card (free_set s) - card (cached_free s)"
    using sub by (intro card_Diff_subset) (auto intro: finite_subset [OF _ fin])
  finally have le: "pages_per_super_block s + card (cached_free s) \<le> card (free_set s)"
    using card_mono [OF fin sub] by linarith
  have "num_free_blocks (free_block_queue s) = int (card (free_set s))"
    using fq.num_ids [OF D(7)] fq.ids_distinct [OF D(7)] by (simp add: free_set_def distinct_card)
  moreover have "lru_len (prefix_lru s) = card (cached_free s)"
    using plru.len_items [OF D(15)] inv_items(1) [OF J] unfolding inv_items(2) [OF J, symmetric]
    by (metis card_image distinct_card distinct_map length_map set_map)
  ultimately show ?thesis using le by linarith
qed

text \<open>What a successful choice leaves, and when there is none.\<close>

definition chosen :: "nat \<Rightarrow> nat list \<Rightarrow> unified_manager \<Rightarrow> nat \<Rightarrow> unified_manager \<Rightarrow> bool" where
  "chosen i needed s sb s' \<longleftrightarrow> inv s' \<and> same_pool s s' \<and> kv_kept s s' \<and> ready_for i sb s' \<and> pins_of s' = pins_of s \<and>
     (\<forall>j b e. mapped s' j b e \<longleftrightarrow> mapped s j b e \<and> \<not> (j = i \<and> b = sb)) \<and>
     (\<forall>e. mapped s i sb e \<longrightarrow> e \<notin> set needed)"

definition exhausted :: "nat \<Rightarrow> nat list \<Rightarrow> unified_manager \<Rightarrow> bool" where
  "exhausted i needed s \<longleftrightarrow> (\<exists>l. map_of (layers s) i = Some l \<and> own_coldest l needed = None \<and> co_location s l = None) \<and>
     (\<forall>sb. \<not> vacatable sb s)"

lemma reuse_own_ok:
  assumes J: "inv s" and l: "map_of (layers s) i = Some l" and own: "own_coldest l needed = Some (e, st)"
  shows "runs_to (reuse_own i e s) (\<lambda>(sb, _) s'. chosen i needed s sb s')"
proof -
  have "layer_ok (step s) l" using manager_syncedD(9) [OF J] l unfolding layers_ok_def by blast
  note inverse = experts.inverse [OF this]
  obtain sb where sb: "map_of (super_block_at_expert l) e = Some sb" "sb \<notin> set (pinned_super_blocks l)" "e \<notin> set needed"
  proof -
    have "e \<notin> set needed \<and>
        (case map_of (super_block_at_expert l) e of None \<Rightarrow> False | Some sb \<Rightarrow> sb \<notin> set (pinned_super_blocks l))"
      using own unfolding own_coldest_def find_Some_iff by (metis (no_types, lifting) case_prod_conv)
    then show ?thesis using that by (cases "map_of (super_block_at_expert l) e") auto
  qed
  then have at: "map_of (expert_at_super_block l) sb = Some e" using inverse by blast
  then have m: "mapped s i sb d \<longleftrightarrow> d = e" for d using l by (auto simp: mapped_self)
  have held: "sb \<in> fst ` set (super_block_holder s)" using mapped_held(1) [OF manager_syncedD(10) [OF J]] m by blast
  have run: "reuse_own i e s = rbind (drop_layer_mapping i sb s) (\<lambda>_. return (sb, ''expert-local''))"
    unfolding reuse_own_def l sb(1) option.case ..
  show ?thesis
    unfolding run post_rbind post_return prod.case
  proof (rule runs_to_mono [OF drop_layer_mapping_ok [OF J l sb(2) at]])
    fix u s' assume s': "inv s' \<and> same_pool s s' \<and> kv_kept s s' \<and> hash_at s' = hash_at s \<and>
     (\<forall>j b e. mapped s' j b e \<longleftrightarrow> mapped s j b e \<and> \<not> (j = i \<and> b = sb)) \<and> pins_of s' = pins_of s"
    then have pv: "pages_of s' = pages_of s" "free_set s' = free_set s" "num_super_blocks s' = num_super_blocks s"
      using same_pool_views [of s s'] by (auto simp: same_pool_def)
    note D = manager_syncedD [OF J]
    have "set (pages_of s sb) \<subseteq> held_pages s" using held by (auto simp: held_pages_def)
    moreover have "0 < sb" "sb < num_super_blocks s" using D(10) held by (auto simp: holders_ok_def)
    ultimately have "ready_for i sb s'" unfolding ready_for_def pv using s' D(3) by auto
    with s' m sb(3) show "chosen i needed s sb s'" by (simp add: chosen_def)
  qed
qed

lemma vacate_for_ok:
  assumes J: "inv s" and v: "vacatable sb s"
  shows "runs_to (vacate_for sb s) (\<lambda>(b, _) s'. b = sb \<and> chosen i needed s sb s')"
  unfolding vacate_for_def post_rbind post_return prod.case
proof (rule runs_to_mono [OF vacate_kv_super_block_ok [OF J v]])
  fix u s' assume s': "inv s' \<and> keeps s s' \<and> kv_kept s s' \<and>
     (\<forall>p \<in> set (pages_of s sb). hash_at s' p = None) \<and> (relocation_enabled s \<longrightarrow> evicted_coldest sb s s')"
  then have k: "keeps s s'" by blast
  note kv = keeps_views [OF k]
  have "vacatable sb s'" using v k unfolding vacatable_def kv by (simp add: keeps_def)
  then have "ready_for i sb s'" using s' by (intro vacated_ready) (auto simp: kv)
  moreover have "\<not> mapped s i sb e" for e using v mapped_holders [OF J, of i sb e] by (auto simp: vacatable_def)
  moreover have "pins_of s' = pins_of s" using k by (simp add: fun_eq_iff pins_of_def keeps_def)
  ultimately show "sb = sb \<and> chosen i needed s sb s'"
    unfolding chosen_def kv using s' keeps_same_pool [OF k] by auto
qed

lemma unchanged_chosen:
  "inv s \<Longrightarrow> ready_for i sb s \<Longrightarrow> chosen i needed s sb s"
  by (auto simp: chosen_def ready_for_def)

lemma evict_for_expert_ok:
  assumes J: "inv s" and w: "whole_super_blocks s" and l: "map_of (layers s) i = Some l"
    and c: "co_location s l = None" "\<forall>sb. \<not> pure s sb"
  shows "post (evict_for_expert i needed s) (\<lambda>(sb, _) s'. chosen i needed s sb s')
     (\<lambda>e s'. e = RuntimeError ''pool exhausted while resolving expert miss'' \<and> s' = s \<and> exhausted i needed s)"
proof -
  obtain r where r: "cheapest_kv_super_block s = Inr (r, s)" "cheapest_result s r"
    using cheapest_kv_super_block_ok [OF J w] by blast
  have kv: "vacatable sb s" if "r = Some (sb, st)" for sb st
    using r(2) that by (auto simp: cheapest_result_def cheapest_in_def)
  have none: "\<not> vacatable sb s" if "r = None" for sb
    using r(2) c(2) that by (auto simp: cheapest_result_def pure_def)
  have own: "post (reuse_own i e s) (\<lambda>(sb, _) s'. chosen i needed s sb s') E" if "own_coldest l needed = Some (e, st)" for e st E
    using reuse_own_ok [OF J l that] by (rule post_mono) auto
  have vac: "post (vacate_for sb s) (\<lambda>(sb, _) s'. chosen i needed s sb s') E" if "r = Some (sb, st)" for sb st E
    using vacate_for_ok [OF J kv [OF that], of i needed] by (rule post_mono) auto
  show ?thesis
    unfolding evict_for_expert_def l option.case r(1) rbind_simps
    using own vac none l c(1)
    by (cases r; cases "own_coldest l needed") (auto simp: exhausted_def split: prod.splits)
qed

lemma select_super_block_for_expert_ok:
  assumes J: "inv s" and w: "whole_super_blocks s" and l: "map_of (layers s) i = Some l"
  shows "post (select_super_block_for_expert i needed s) (\<lambda>(sb, _) s'. chosen i needed s sb s')
     (\<lambda>e s'. e = RuntimeError ''pool exhausted while resolving expert miss'' \<and> s' = s \<and> exhausted i needed s)"
proof (cases "co_location s l")
  case (Some sb)
  from unchanged_chosen [OF J co_location_some [OF J l this]] show ?thesis
    unfolding select_super_block_for_expert_def l option.case Some post_return prod.case .
next
  case None
  have fp: "first_pure l [1..<num_super_blocks s] s = Inr (find (pure s) [1..<num_super_blocks s], s)"
    by (rule first_pure_run [OF J l]) auto
  have found: "chosen i needed s sb s" if "find (pure s) [1..<num_super_blocks s] = Some sb" for sb
  proof -
    have "pure s sb" using that by (auto simp: find_Some_iff)
    then show ?thesis
      using vacated_ready [OF J, of sb i] by (intro unchanged_chosen [OF J]) (auto simp: pure_def sb_prefix_pages_def filter_empty_conv)
  qed
  have no: "\<forall>sb. \<not> pure s sb" if "find (pure s) [1..<num_super_blocks s] = None"
    using that by (auto simp: find_None_iff pure_def vacatable_def)
  have short: "\<forall>sb. \<not> pure s sb" if "num_free_blocks (free_block_queue s) - int (lru_len (prefix_lru s)) < int (pages_per_super_block s)"
    using that pure_needs_pages [OF J] by (meson not_le)
  note ev = evict_for_expert_ok [OF J w l None]
  show ?thesis
    unfolding select_super_block_for_expert_def l option.case None fp rbind_simps post_if
    using short no found ev by (auto split: option.splits)
qed

end
