(* ===== verification/Expert_Loading.thy ===== *)
theory Expert_Loading
  imports Expert_Choice
begin

text \<open>
  Loading experts: \<open>ensure_loaded\<close>, its unwinding on failure, the end of a forward pass and
  the warm-up. After \<open>ensure_loaded\<close> every needed expert is resident and pinned, its bytes
  are its weights, and no KV was lost; it fails only when the pool is exhausted, and then it
  leaves no trace of the experts it had claimed.
\<close>

section \<open>Copying an expert into its slot\<close>

lemma dma_expert_ok:
  assumes slot: "w13_bytes l + w2_bytes l = expert_slot_bytes l" "sb * expert_slot_bytes l + expert_slot_bytes l \<le> length buf"
    and cpu: "e < length (cpu_w13_bytes l)" "e < length (cpu_w2_bytes l)"
      "length (cpu_w13_bytes l ! e) = w13_bytes l" "length (cpu_w2_bytes l ! e) = w2_bytes l"
  shows "\<exists>buf'. dma_expert l e sb buf = Inr buf' \<and> length buf' = length buf \<and>
     pool_w13_row l buf' sb = cpu_w13_bytes l ! e \<and> pool_w2_row l buf' sb = cpu_w2_bytes l ! e \<and>
     (\<forall>a n. a + n \<le> length buf \<longrightarrow> a + n \<le> sb * expert_slot_bytes l \<or> sb * expert_slot_bytes l + expert_slot_bytes l \<le> a \<longrightarrow>
        read_at a n buf' = read_at a n buf)"
proof -
  define off where "off = sb * expert_slot_bytes l"
  define b1 where "b1 = write_at off (cpu_w13_bytes l ! e) buf"
  define b2 where "b2 = write_at (off + w13_bytes l) (cpu_w2_bytes l ! e) b1"
  have fits: "off + w13_bytes l \<le> length buf" "off + w13_bytes l + w2_bytes l \<le> length buf"
    using slot by (simp_all add: off_def)
  then have len: "length b1 = length buf" "length b2 = length buf"
    using cpu(3,4) by (simp_all add: b1_def b2_def)
  have "dma_expert l e sb buf = Inr b2"
    using fits cpu len(1) unfolding dma_expert_def off_def [symmetric] Let_def
    by (simp add: narrow_ok_def copy_into_ok b1_def [symmetric]) (simp add: copy_into_ok b2_def)
  moreover have "pool_w2_row l b2 sb = cpu_w2_bytes l ! e"
    using fits len cpu(4) unfolding pool_w2_row_def off_def [symmetric] b2_def by (intro read_write_same) simp_all
  moreover have "pool_w13_row l b2 sb = cpu_w13_bytes l ! e"
  proof -
    have "pool_w13_row l b2 sb = read_at off (w13_bytes l) b1"
      using fits len cpu(4) unfolding pool_w13_row_def off_def [symmetric] b2_def by (intro read_write_apart) simp_all
    then show ?thesis using fits cpu(3) by (simp add: b1_def read_write_same)
  qed
  moreover have "read_at a n b2 = read_at a n buf" if "a + n \<le> length buf" "a + n \<le> off \<or> off + expert_slot_bytes l \<le> a" for a n
  proof -
    have "read_at a n b2 = read_at a n b1"
      using that fits len cpu(4) slot(1) unfolding b2_def by (intro read_write_apart) auto
    also have "\<dots> = read_at a n buf"
      using that fits cpu(3) slot(1) unfolding b1_def by (intro read_write_apart) auto
    finally show ?thesis .
  qed
  ultimately show ?thesis using len(2) unfolding off_def by blast
qed

section \<open>Installing an expert\<close>

text \<open>The state after the assignment, the holder entry and the copy, all at once.\<close>

definition installed :: "nat \<Rightarrow> nat \<Rightarrow> unified_layer \<Rightarrow> byte list \<Rightarrow> unified_manager \<Rightarrow> unified_manager" where
  "installed i sb l buf s =
     s\<lparr>layers := AList.update i l (layers s),
       super_block_holder := AList.update sb (set_add i (holders_of s sb)) (super_block_holder s),
       kv_pool_buffers := AList.update i buf (kv_pool_buffers s)\<rparr>"

lemma installed_fields [simp]:
  "layers (installed i sb l buf s) = AList.update i l (layers s)" "base (installed i sb l buf s) = base s"
  "prefix_lru (installed i sb l buf s) = prefix_lru s"
  "pages_per_super_block (installed i sb l buf s) = pages_per_super_block s" "step (installed i sb l buf s) = step s"
  "kv_pool_buffers (installed i sb l buf s) = AList.update i buf (kv_pool_buffers s)"
  "num_super_blocks (installed i sb l buf s) = num_super_blocks s" "page_size_bytes (installed i sb l buf s) = page_size_bytes s"
  "relocation_enabled (installed i sb l buf s) = relocation_enabled s" "kv_score_oldest (installed i sb l buf s) = kv_score_oldest s"
  "super_block_holder (installed i sb l buf s) = AList.update sb (set_add i (holders_of s sb)) (super_block_holder s)"
  by (simp_all add: installed_def base_eq_iff)

lemma installed_holders:
  "holders_of (installed i sb l buf s) b = (if b = sb then set_add i (holders_of s sb) else holders_of s b)"
  by (simp add: holders_of_def)

text \<open>A layer record with one more expert: the directory of \<open>l\<close> extended by \<open>e\<close> at \<open>sb\<close>.\<close>

definition extends :: "int \<Rightarrow> unified_layer \<Rightarrow> nat \<Rightarrow> nat \<Rightarrow> unified_layer \<Rightarrow> bool" where
  "extends now l sb e l' \<longleftrightarrow> layer_ok now l' \<and> layer_idx l' = layer_idx l \<and> num_experts l' = num_experts l \<and>
     cpu_w13_bytes l' = cpu_w13_bytes l \<and> cpu_w2_bytes l' = cpu_w2_bytes l \<and> expert_slot_bytes l' = expert_slot_bytes l \<and>
     w13_bytes l' = w13_bytes l \<and> w2_bytes l' = w2_bytes l \<and>
     map_of (expert_at_super_block l') = (map_of (expert_at_super_block l))(sb \<mapsto> e) \<and>
     set (pinned_super_blocks l') \<subseteq> insert sb (set (pinned_super_blocks l))"

lemma extendsD:
  assumes "extends now l sb e l'"
  shows "layer_ok now l'" "layer_idx l' = layer_idx l" "num_experts l' = num_experts l"
    "map_of (expert_at_super_block l') = (map_of (expert_at_super_block l))(sb \<mapsto> e)"
    "set (pinned_super_blocks l') \<subseteq> insert sb (set (pinned_super_blocks l))"
    "shape_ok s l' = shape_ok s l" "pool_w13_row l' = pool_w13_row l" "pool_w2_row l' = pool_w2_row l"
    "cpu_w13_bytes l' = cpu_w13_bytes l" "cpu_w2_bytes l' = cpu_w2_bytes l"
    "dma_expert l' = dma_expert l"
proof -
  have eq: "expert_slot_bytes l' = expert_slot_bytes l" "w13_bytes l' = w13_bytes l" "w2_bytes l' = w2_bytes l"
    "cpu_w13_bytes l' = cpu_w13_bytes l" "cpu_w2_bytes l' = cpu_w2_bytes l" "num_experts l' = num_experts l"
    using assms by (simp_all add: extends_def)
  show "shape_ok s l' = shape_ok s l" "pool_w13_row l' = pool_w13_row l" "pool_w2_row l' = pool_w2_row l" "dma_expert l' = dma_expert l"
    unfolding fun_eq_iff shape_ok_def pool_w13_row_def pool_w2_row_def dma_expert_def eq by simp_all
qed (use assms in \<open>simp_all add: extends_def\<close>)

lemma installed_ok:
  assumes J: "inv s" and r: "ready_for i sb s" and l: "map_of (layers s) i = Some l"
    and e: "e < num_experts l" and ext: "extends (step s) l sb e l'"
    and buf: "map_of (kv_pool_buffers s) i = Some buf"
  shows "\<exists>buf'. dma_expert l' e sb buf = Inr buf' \<and>
     (let s' = installed i sb l' buf' s
      in inv s' \<and> same_pool s s' \<and> kv_kept s s' \<and> hash_at s' = hash_at s \<and>
         (\<forall>j b d. mapped s' j b d \<longleftrightarrow> mapped s j b d \<or> j = i \<and> b = sb \<and> d = e))"
proof -
  note D = manager_syncedD [OF J]
  note x = extendsD [OF ext]
  let ?n = "length (blocks s)" and ?page = "page_size_bytes s" and ?F = "pages_per_super_block s"
  have sb: "0 < sb" "sb < num_super_blocks s" "\<forall>e. \<not> mapped s i sb e"
    and pages: "\<forall>p \<in> set (pages_of s sb). p \<in> free_set s \<and> hash_at s p = None" using r by (auto simp: ready_for_def)
  have lo: "layer_idx l = i" "shape_ok s l" using D(9) l unfolding layers_ok_def by blast+
  have slot: "expert_slot_bytes l = ?F * ?page" "w13_bytes l + w2_bytes l = expert_slot_bytes l" using lo(2) by (auto simp: shape_ok_def)
  have len: "length buf = ?n * ?page" using buffer_length [OF D(13) buf] .
  have ns: "num_super_blocks s = ?n div ?F" using D(13) by (simp add: geometry_ok_def)
  have fits: "b * (?F * ?page) + ?F * ?page \<le> length buf" if "b < num_super_blocks s" for b
    using that unfolding len ns by (rule slot_fits)
  obtain buf' where b': "dma_expert l e sb buf = Inr buf'" "length buf' = length buf"
    "pool_w13_row l buf' sb = cpu_w13_bytes l ! e" "pool_w2_row l buf' sb = cpu_w2_bytes l ! e"
    and apart: "\<And>a n. a + n \<le> length buf \<Longrightarrow> a + n \<le> sb * (?F * ?page) \<or> sb * (?F * ?page) + ?F * ?page \<le> a \<Longrightarrow>
        read_at a n buf' = read_at a n buf"
    using dma_expert_ok [OF slot(2), of sb buf e] fits [OF sb(2)] lo(2) e unfolding slot(1) shape_ok_def by auto
  define s' where "s' = installed i sb l' buf' s"
  have f: "layers s' = AList.update i l' (layers s)" "base s' = base s" "prefix_lru s' = prefix_lru s"
    "pages_per_super_block s' = ?F" "step s' = step s" "kv_pool_buffers s' = AList.update i buf' (kv_pool_buffers s)"
    "num_super_blocks s' = num_super_blocks s" "page_size_bytes s' = ?page" "relocation_enabled s' = relocation_enabled s"
    "kv_score_oldest s' = kv_score_oldest s"
    "super_block_holder s' = AList.update sb (set_add i (holders_of s sb)) (super_block_holder s)"
    by (simp_all add: s'_def)
  have m': "mapped s' j b d \<longleftrightarrow> mapped s j b d \<or> j = i \<and> b = sb \<and> d = e" for j b d
    using sb(3) l x(4) by (auto simp: mapped_def f)
  have keys: "dict_keys (layers s') = dict_keys (layers s)" "dict_keys (kv_pool_buffers s') = dict_keys (kv_pool_buffers s)"
    using l buf map_of_keys [of i "layers s"] map_of_keys [of i "kv_pool_buffers s"] by (simp_all add: f update_keys)
  have "geometry_ok ?n s'"
    using D(13) keys set_update_entries [of i buf' "kv_pool_buffers s"] len b'(2)
    unfolding geometry_ok_def f(4,7,8) by (auto simp: f(6))
  moreover have "lru_ok (cached_free s) s'" using D(12) unfolding lru_ok_def f .
  moreover have "layers_ok s'"
  proof -
    have shape: "shape_ok s' = shape_ok s" by (simp add: fun_eq_iff shape_ok_def f)
    have "\<forall>b \<in> set (pinned_super_blocks l). map_of (expert_at_super_block l) b \<noteq> None"
      using D(9) l unfolding layers_ok_def by blast
    then have pinned: "\<forall>b \<in> set (pinned_super_blocks l'). map_of (expert_at_super_block l') b \<noteq> None"
      using x(5) unfolding x(4) by auto
    have bufs: "map_of (kv_pool_buffers s') j \<noteq> None" if "map_of (kv_pool_buffers s) j \<noteq> None" for j
      using that by (simp add: f(6))
    show ?thesis
      unfolding layers_ok_def shape
    proof (intro allI impI)
      fix j k assume k: "map_of (layers s') j = Some k"
      show "layer_idx k = j \<and> layer_ok (step s') k \<and> shape_ok s k \<and> map_of (kv_pool_buffers s') j \<noteq> None \<and>
        (\<forall>sb \<in> set (pinned_super_blocks k). map_of (expert_at_super_block k) sb \<noteq> None)"
      proof (cases "j = i")
        case True
        then have "k = l'" using k by (simp add: f(1))
        with True lo x(1,2,6) pinned bufs [of i] buf show ?thesis unfolding f(5) by blast
      next
        case False
        then have "map_of (layers s) j = Some k" using k unfolding f(1) map_of_update by simp
        with D(9) bufs [of j] show ?thesis unfolding layers_ok_def f(5) by blast
      qed
    qed
  qed
  moreover have "holders_ok (holder_sets s') s'"
  proof -
    have "set_add i hs \<noteq> []" for hs by (auto simp: set_add_def)
    then have "[] \<notin> snd ` set (super_block_holder s')"
      using D(10) update_values [of sb "set_add i (holders_of s sb)" "super_block_holder s"]
      unfolding holders_ok_def f(11) by (metis insert_iff subsetD)
    moreover have "holders_of s' b = (if b = sb then set_add i (holders_of s sb) else holders_of s b)" for b
      unfolding s'_def by (rule installed_holders)
    then have "j \<in> holder_sets s' b \<longleftrightarrow> (\<exists>d. mapped s' j b d)" for j b
      using D(10) unfolding m' holders_ok_def by auto
    moreover have "dict_wf (super_block_holder s')" "\<forall>b \<in> fst ` set (super_block_holder s'). 0 < b \<and> b < num_super_blocks s'"
      using D(10) sb(1,2) unfolding f dict_keys_update holders_ok_def by auto
    ultimately show ?thesis unfolding holders_ok_def by blast
  qed
  moreover have "bytes_ok s'"
    unfolding bytes_ok_def
  proof (intro allI impI)
    fix j k c b d
    assume j: "map_of (layers s') j = Some k" "map_of (kv_pool_buffers s') j = Some c" "map_of (expert_at_super_block k) b = Some d"
    show "pool_w13_row k c b = cpu_w13_bytes k ! d \<and> pool_w2_row k c b = cpu_w2_bytes k ! d"
    proof (cases "j = i")
      case False
      then show ?thesis using j D(11) unfolding bytes_ok_def f by (auto simp del: map_of_eq_Some_iff)
    next
      case True
      then have k: "k = l'" "c = buf'" using j by (simp_all add: f)
      show ?thesis
      proof (cases "b = sb")
        case True
        then show ?thesis using b'(3,4) j(3) unfolding k x(4,7-10) by simp
      next
        case False
        then have at: "map_of (expert_at_super_block l) b = Some d" using j(3) unfolding k x(4) by simp
        then have "b < num_super_blocks s" using mapped_held(3) [OF D(10)] l by (auto simp: mapped_def)
        then have "read_at (b * expert_slot_bytes l) (expert_slot_bytes l) buf' = read_at (b * expert_slot_bytes l) (expert_slot_bytes l) buf"
          unfolding slot(1) using fits pages_apart [OF False, of "?F * ?page"] by (intro apart) auto
        from slot_rows [OF slot(2) this] D(11) l buf at show ?thesis
          unfolding k x(7-10) bytes_ok_def by metis
      qed
    qed
  qed
  ultimately have v: "manager_view ?n (cached_free s) s'" by (simp add: manager_view_def)
  note bv = base_views [OF f(2)]
  have sbp: "super_block_of_page s' = super_block_of_page s" unfolding fun_eq_iff super_block_of_page_def f by simp
  have "held_pages s' \<subseteq> held_pages s \<union> set (pages_of s sb)"
  proof
    fix p assume "p \<in> held_pages s'"
    then have "super_block_of_page s p \<in> insert sb (fst ` set (super_block_holder s))"
      using held_iff [of s' p] D(8) unfolding sbp f by simp
    then show "p \<in> held_pages s \<union> set (pages_of s sb)" using held_iff [OF D(8)] mem_pages_of [OF D(8)] by blast
  qed
  then have "inv s'" using J v bv(1-6) D(1,3) pages unfolding synced_def listens_def bv by blast
  moreover have "same_pool s s'"
    using f keys bv l ext by (simp add: same_pool_def base_eq_iff) (simp add: fun_eq_iff experts_of_def weights_of_def extends_def f)
  moreover have "page_bytes s' j p = page_bytes s j p" if "p < ?n" "p \<notin> set (pages_of s sb)" for j p
  proof -
    have "p div ?F \<noteq> sb" using that(2) mem_pages_of [OF D(8)] by (auto simp: super_block_of_page_def)
    then have "read_at (p * ?page) ?page buf' = read_at (p * ?page) ?page buf"
      using slot_apart [OF D(8), of p sb ?page] page_fits [OF that(1), of ?page] by (intro apart) (auto simp: len)
    then show ?thesis using buf unfolding page_bytes_def f by simp
  qed
  then have "kv_kept s s'"
    unfolding kv_kept_def bv using pages free_page [OF D(5)] by (metis less_irrefl option.distinct(1))
  ultimately show ?thesis using b'(1) bv(2) m' unfolding x(11) Let_def s'_def by blast
qed

section \<open>Pins and recency of one layer\<close>

text \<open>A layer record with the same directory: only pins, recency and counters may differ.\<close>

definition same_directory :: "int \<Rightarrow> unified_layer \<Rightarrow> unified_layer \<Rightarrow> bool" where
  "same_directory now l l' \<longleftrightarrow> layer_ok now l' \<and> layer_idx l' = layer_idx l \<and> num_experts l' = num_experts l \<and>
     cpu_w13_bytes l' = cpu_w13_bytes l \<and> cpu_w2_bytes l' = cpu_w2_bytes l \<and> expert_slot_bytes l' = expert_slot_bytes l \<and>
     w13_bytes l' = w13_bytes l \<and> w2_bytes l' = w2_bytes l \<and>
     expert_at_super_block l' = expert_at_super_block l \<and> super_block_at_expert l' = super_block_at_expert l"

lemma same_directoryD:
  assumes "same_directory now l l'"
  shows "shape_ok s l' = shape_ok s l" "pool_w13_row l' = pool_w13_row l" "pool_w2_row l' = pool_w2_row l"
proof -
  have eq: "expert_slot_bytes l' = expert_slot_bytes l" "w13_bytes l' = w13_bytes l" "w2_bytes l' = w2_bytes l"
    "cpu_w13_bytes l' = cpu_w13_bytes l" "cpu_w2_bytes l' = cpu_w2_bytes l" "num_experts l' = num_experts l"
    using assms by (simp_all add: same_directory_def)
  show "shape_ok s l' = shape_ok s l" "pool_w13_row l' = pool_w13_row l" "pool_w2_row l' = pool_w2_row l"
    unfolding fun_eq_iff shape_ok_def pool_w13_row_def pool_w2_row_def eq by simp_all
qed

lemma put_layer_ok:
  assumes J: "inv s" and l: "map_of (layers s) i = Some l" and d: "same_directory (step s) l l'"
    and p: "\<forall>sb \<in> set (pinned_super_blocks l'). map_of (expert_at_super_block l) sb \<noteq> None"
  shows "inv (put_layer i l' s)" "same_pool s (put_layer i l' s)" "kv_kept s (put_layer i l' s)"
    "mapped (put_layer i l' s) = mapped s" "hash_at (put_layer i l' s) = hash_at s"
proof -
  note D = manager_syncedD [OF J]
  let ?s = "put_layer i l' s"
  have f: "layer_ok (step s) l'" "layer_idx l' = layer_idx l" "expert_at_super_block l' = expert_at_super_block l"
    "cpu_w13_bytes l' = cpu_w13_bytes l" "cpu_w2_bytes l' = cpu_w2_bytes l" "num_experts l' = num_experts l"
    using d by (simp_all add: same_directory_def)
  have keys: "dict_keys (layers ?s) = dict_keys (layers s)" by (rule put_layer_keys [OF l])
  show m: "mapped ?s = mapped s" using l by (auto simp: fun_eq_iff mapped_def f)
  have g: "map_of (layers ?s) j = (if j = i then Some l' else map_of (layers s) j)" for j by simp
  have shape: "shape_ok ?s = shape_ok s" by (simp add: fun_eq_iff shape_ok_def)
  have lo: "layer_idx l = i" "shape_ok s l" "map_of (kv_pool_buffers s) i \<noteq> None" using D(9) l unfolding layers_ok_def by blast+
  have "layers_ok ?s"
    unfolding layers_ok_def shape g
  proof (intro allI impI)
    fix j k assume k: "(if j = i then Some l' else map_of (layers s) j) = Some k"
    show "layer_idx k = j \<and> layer_ok (step ?s) k \<and> shape_ok s k \<and> map_of (kv_pool_buffers ?s) j \<noteq> None \<and>
       (\<forall>sb \<in> set (pinned_super_blocks k). map_of (expert_at_super_block k) sb \<noteq> None)"
    proof (cases "j = i")
      case True
      with k have "k = l'" by simp
      with True lo f p same_directoryD(1) [OF d] show ?thesis by simp
    next
      case False
      with k have "map_of (layers s) j = Some k" by simp
      with D(9) show ?thesis unfolding layers_ok_def put_layer_fields by blast
    qed
  qed
  moreover have "bytes_ok ?s"
    unfolding bytes_ok_def g
  proof (intro allI impI)
    fix j k buf b e
    assume k: "(if j = i then Some l' else map_of (layers s) j) = Some k" and b: "map_of (kv_pool_buffers ?s) j = Some buf"
      "map_of (expert_at_super_block k) b = Some e"
    show "pool_w13_row k buf b = cpu_w13_bytes k ! e \<and> pool_w2_row k buf b = cpu_w2_bytes k ! e"
    proof (cases "j = i")
      case True
      with k have kl: "k = l'" by simp
      show ?thesis
        using b D(11) l True unfolding kl f same_directoryD(2,3) [OF d] bytes_ok_def put_layer_fields by blast
    next
      case False
      with k have "map_of (layers s) j = Some k" by simp
      with b D(11) show ?thesis unfolding bytes_ok_def put_layer_fields by blast
    qed
  qed
  moreover have "holders_ok (holder_sets ?s) ?s" using D(10) unfolding holders_ok_def m by simp
  moreover have "geometry_ok (length (blocks s)) ?s" using D(13) keys unfolding geometry_ok_def by simp
  moreover have "lru_ok (cached_free s) ?s" using D(12) by (simp add: lru_ok_def)
  ultimately have "manager_view (length (blocks s)) (cached_free s) ?s" by (simp add: manager_view_def)
  from synced_base_view [OF J _ this] have J': "manager_synced (length (blocks s)) {} ?s" by simp
  have b: "base ?s = base s" by simp
  note bv = base_views [OF b]
  show "inv ?s" using J' unfolding bv(6) .
  show "hash_at ?s = hash_at s" by (rule bv(2))
  have "experts_of ?s = experts_of s" "weights_of ?s = weights_of s"
    using l f(4-6) by (simp_all add: fun_eq_iff experts_of_def weights_of_def)
  moreover have "free_block_queue ?s = free_block_queue s" "relocation_enabled ?s = relocation_enabled s"
    "kv_score_oldest ?s = kv_score_oldest s" by (simp_all add: put_layer_def)
  ultimately show "same_pool s ?s" using keys bv by (simp add: same_pool_def)
  show "kv_kept s ?s" by (rule kv_kept_base) simp_all
qed

section \<open>Claiming a super-block per miss\<close>

lemma layer_ok_pin [simp]: "layer_ok now (pin sb l) = layer_ok now l"
  by (simp add: layer_ok_def pin_def)

lemma pin_fields [simp]:
  "layer_idx (pin sb l) = layer_idx l" "num_experts (pin sb l) = num_experts l" "cpu_w13_bytes (pin sb l) = cpu_w13_bytes l"
  "cpu_w2_bytes (pin sb l) = cpu_w2_bytes l" "expert_slot_bytes (pin sb l) = expert_slot_bytes l"
  "w13_bytes (pin sb l) = w13_bytes l" "w2_bytes (pin sb l) = w2_bytes l"
  "expert_at_super_block (pin sb l) = expert_at_super_block l" "super_block_at_expert (pin sb l) = super_block_at_expert l"
  "set (pinned_super_blocks (pin sb l)) = insert sb (set (pinned_super_blocks l))"
  by (simp_all add: pin_def)

lemma extends_assign:
  assumes "layer_ok now l'" "same_layer l l'" "map_of (expert_at_super_block l') = (map_of (expert_at_super_block l))(sb \<mapsto> e)"
  shows "extends now l sb e l'" "extends now l sb e (pin sb l')"
  using assms same_layer_fields [OF assms(2)] unfolding extends_def by auto

text \<open>The part of \<open>claim_miss\<close> after the choice, and the body of the warm-up loop; \<open>g\<close> is the pinning, if any.\<close>

definition load_into :: "(unified_layer \<Rightarrow> unified_layer) \<Rightarrow> nat \<Rightarrow> nat \<Rightarrow> nat \<Rightarrow> unified_manager \<Rightarrow> (unified_manager, unit) res" where
  "load_into g i e sb s =
     rbind (on_layer i (assign sb e (step s)) s) (\<lambda>_ s.
       dma_expert_into_super_block i e sb
         (let s1 = add_holder i sb s in put_layer i (g (the (map_of (layers s1) i))) s1))"

lemma load_into_ok:
  assumes J: "inv s" and r: "ready_for i sb s" and l: "map_of (layers s) i = Some l"
    and e: "e < num_experts l" "map_of (super_block_at_expert l) e = None" and g: "g = (\<lambda>l. l) \<or> g = pin sb"
  shows "runs_to (load_into g i e sb s) (\<lambda>_ s'. inv s' \<and> same_pool s s' \<and> kv_kept s s' \<and> hash_at s' = hash_at s \<and>
     (\<forall>j b d. mapped s' j b d \<longleftrightarrow> mapped s j b d \<or> j = i \<and> b = sb \<and> d = e) \<and>
     (\<forall>j. pins_of s' j = (if j = i then Some (pinned_super_blocks (g l)) else pins_of s j)))"
proof -
  note D = manager_syncedD [OF J]
  have ok: "layer_ok (step s) l" and "map_of (kv_pool_buffers s) i \<noteq> None" using D(9) l unfolding layers_ok_def by blast+
  then obtain buf where buf: "map_of (kv_pool_buffers s) i = Some buf" by blast
  have "map_of (expert_at_super_block l) sb = None"
    using r l unfolding ready_for_def by (metis mapped_self option.exhaust)
  from experts.put_new [OF ok this e(2,1)] obtain l2 where
    l2: "assign sb e (step s) l = Inr ((), l2)" "layer_ok (step s) l2" "same_layer l l2"
      "map_of (expert_at_super_block l2) = (map_of (expert_at_super_block l))(sb \<mapsto> e)"
    by (auto elim: runs_toE)
  have ext: "extends (step s) l sb e (g l2)" using extends_assign [OF l2(2-4)] g by auto
  from installed_ok [OF J r l e(1) ext buf] obtain buf' where
    b': "dma_expert (g l2) e sb buf = Inr buf'" and inst: "let s' = installed i sb (g l2) buf' s
      in inv s' \<and> same_pool s s' \<and> kv_kept s s' \<and> hash_at s' = hash_at s \<and>
         (\<forall>j b d. mapped s' j b d \<longleftrightarrow> mapped s j b d \<or> j = i \<and> b = sb \<and> d = e)" by blast
  let ?s1 = "put_layer i l2 s"
  let ?s2 = "put_layer i (g l2) (add_holder i sb ?s1)"
  have "on_layer i (assign sb e (step s)) s = Inr ((), ?s1)" by (simp add: on_layer_def l l2(1))
  moreover have "the (map_of (layers (add_holder i sb ?s1)) i) = l2" by (simp add: add_holder_def put_layer_def)
  moreover have "map_of (layers ?s2) i = Some (g l2)" "map_of (kv_pool_buffers ?s2) i = Some buf"
    by (simp_all add: add_holder_def put_layer_def buf)
  moreover have "?s2\<lparr>kv_pool_buffers := AList.update i buf' (kv_pool_buffers ?s2)\<rparr> = installed i sb (g l2) buf' s"
    by (simp add: installed_def put_layer_def add_holder_def holders_of_def)
  ultimately have "load_into g i e sb s = Inr ((), installed i sb (g l2) buf' s)"
    by (simp add: load_into_def Let_def dma_expert_into_super_block_def b' return_def)
  moreover have "pinned_super_blocks (g l2) = pinned_super_blocks (g l)"
    using g same_layer_fields(8) [OF l2(3)] by (auto simp: pin_def)
  then have "pins_of (installed i sb (g l2) buf' s) j = (if j = i then Some (pinned_super_blocks (g l)) else pins_of s j)" for j
    by (simp add: pins_of_def)
  ultimately show ?thesis using inst by (simp add: Let_def)
qed

text \<open>
  The invariant of the loop over the misses \<open>ms\<close> still to load, started in \<open>s0\<close>: the needed
  experts that are not in \<open>ms\<close> are resident and pinned, nothing else is pinned, and what was
  mapped since is listed in \<open>done\<close>.
\<close>

definition claiming :: "nat \<Rightarrow> nat list \<Rightarrow> unified_manager \<Rightarrow> nat list \<Rightarrow> claims \<Rightarrow> bool" where
  "claiming i needed s0 ms c \<longleftrightarrow>
     (let s = fst c; done = snd c
      in inv s \<and> same_pool s0 s \<and> kv_kept s0 s \<and> whole_super_blocks s \<and> distinct ms \<and> set ms \<subseteq> set needed \<and>
         (\<exists>n. experts_of s i = Some n \<and> (\<forall>e \<in> set needed. e < n)) \<and>
         (\<exists>P. pins_of s i = Some P \<and> (\<forall>e \<in> set needed - set ms. \<exists>sb \<in> set P. mapped s i sb e) \<and>
            (\<forall>sb \<in> set P. \<exists>e \<in> set needed. mapped s i sb e)) \<and>
         (\<forall>e \<in> set ms. \<forall>sb. \<not> mapped s i sb e) \<and>
         (\<forall>j b d. j \<noteq> i \<longrightarrow> mapped s j b d = mapped s0 j b d) \<and> (\<forall>j. j \<noteq> i \<longrightarrow> pins_of s j = pins_of s0 j) \<and>
         distinct (map (fst \<circ> snd) done) \<and> (\<forall>(d, b, _) \<in> set done. mapped s i b d \<and> d \<in> set needed) \<and>
         (\<forall>b d. mapped s i b d \<longrightarrow> mapped s0 i b d \<or> b \<in> (fst \<circ> snd) ` set done))"

lemma claimingD:
  assumes "claiming i needed s0 ms (s, done)"
  shows "inv s" "same_pool s0 s" "kv_kept s0 s" "whole_super_blocks s" "distinct ms" "set ms \<subseteq> set needed"
    "\<exists>n. experts_of s i = Some n \<and> (\<forall>e \<in> set needed. e < n)"
    "\<exists>P. pins_of s i = Some P \<and> (\<forall>e \<in> set needed - set ms. \<exists>sb \<in> set P. mapped s i sb e) \<and>
       (\<forall>sb \<in> set P. \<exists>e \<in> set needed. mapped s i sb e)"
    "\<forall>e \<in> set ms. \<forall>sb. \<not> mapped s i sb e"
    "\<forall>j b d. j \<noteq> i \<longrightarrow> mapped s j b d = mapped s0 j b d" "\<forall>j. j \<noteq> i \<longrightarrow> pins_of s j = pins_of s0 j"
    "distinct (map (fst \<circ> snd) done)" "\<forall>(d, b, _) \<in> set done. mapped s i b d \<and> d \<in> set needed"
    "\<forall>b d. mapped s i b d \<longrightarrow> mapped s0 i b d \<or> b \<in> (fst \<circ> snd) ` set done"
  using assms unfolding claiming_def Let_def fst_conv snd_conv by blast+

lemma claim_miss_run:
  "claim_miss i needed e (s, done) =
     (case select_super_block_for_expert i needed s of
        Inl (err, s') \<Rightarrow> Inl (err, (s', done))
      | Inr ((sb, tier), s') \<Rightarrow>
          (case on_layer i (assign sb e (step s')) s' of
             Inl (err, s1) \<Rightarrow> Inl (err, (s1, done))
           | Inr (_, s1) \<Rightarrow>
               on_manager (dma_expert_into_super_block i e sb)
                 (let s2 = add_holder i sb s1
                  in (put_layer i (pin sb (the (map_of (layers s2) i))) s2, done @ [(e, sb, tier)]))))"
  by (auto simp: claim_miss_def on_manager_def on_part_def rbind_def split: sum.splits prod.splits)

lemma claim_miss_load:
  assumes "select_super_block_for_expert i needed s = Inr ((sb, tier), s')" "load_into (pin sb) i e sb s' = Inr ((), s'')"
  shows "claim_miss i needed e (s, done) = Inr ((), (s'', done @ [(e, sb, tier)]))"
  using assms by (auto simp: claim_miss_run load_into_def on_manager_def on_part_def rbind_def Let_def split: sum.splits)

lemma claim_miss_ok:
  assumes c: "claiming i needed s0 (e # ms) (s, done)"
  shows "post (claim_miss i needed e (s, done)) (\<lambda>_ c'. claiming i needed s0 ms c')
     (\<lambda>err c'. err = RuntimeError ''pool exhausted while resolving expert miss'' \<and> c' = (s, done) \<and> exhausted i needed s)"
proof -
  note C = claimingD [OF c]
  obtain n P where n: "experts_of s i = Some n" "\<forall>e \<in> set needed. e < n"
    and P: "pins_of s i = Some P" "\<forall>d \<in> set needed - set (e # ms). \<exists>sb \<in> set P. mapped s i sb d"
      "\<forall>sb \<in> set P. \<exists>d \<in> set needed. mapped s i sb d" using C(7,8) by blast
  obtain l where l: "map_of (layers s) i = Some l" using n(1) by (auto simp: experts_of_def)
  note sel = select_super_block_for_expert_ok [OF C(1,4) l, of needed]
  show ?thesis
  proof (cases "select_super_block_for_expert i needed s")
    case (Inl r)
    with sel show ?thesis by (cases r) (simp add: claim_miss_run)
  next
    case (Inr r)
    obtain sb tier s1 where r: "r = ((sb, tier), s1)" by (metis prod.exhaust)
    have ch: "chosen i needed s sb s1" using sel unfolding Inr r by simp
    then have s1: "inv s1" "same_pool s s1" "kv_kept s s1" "ready_for i sb s1" "pins_of s1 = pins_of s"
      and m1: "\<And>j b d. mapped s1 j b d \<longleftrightarrow> mapped s j b d \<and> \<not> (j = i \<and> b = sb)"
      and nn: "\<forall>d. mapped s i sb d \<longrightarrow> d \<notin> set needed" by (simp_all add: chosen_def)
    have "experts_of s1 i = Some n" using s1(2) n(1) by (simp add: same_pool_def)
    then obtain l1 where l1: "map_of (layers s1) i = Some l1" "num_experts l1 = n" by (auto simp: experts_of_def)
    have ok1: "layer_ok (step s1) l1" using manager_syncedD(9) [OF s1(1)] l1(1) unfolding layers_ok_def by blast
    have e: "e < num_experts l1" using n(2) C(6) l1(2) by simp
    have "map_of (super_block_at_expert l1) e = None"
    proof (rule ccontr)
      assume "map_of (super_block_at_expert l1) e \<noteq> None"
      then obtain b where "map_of (expert_at_super_block l1) b = Some e" using experts.inverse [OF ok1] by blast
      then have "mapped s1 i b e" using l1(1) by (simp add: mapped_def)
      then show False using m1 C(9) by simp
    qed
    from load_into_ok [OF s1(1,4) l1(1) e this, of "pin sb"] obtain s2 where
      run: "load_into (pin sb) i e sb s1 = Inr ((), s2)" and
      s2: "inv s2" "same_pool s1 s2" "kv_kept s1 s2"
        "\<And>j b d. mapped s2 j b d \<longleftrightarrow> mapped s1 j b d \<or> j = i \<and> b = sb \<and> d = e"
        "\<And>j. pins_of s2 j = (if j = i then Some (pinned_super_blocks (pin sb l1)) else pins_of s1 j)"
      by (auto elim!: runs_toE)
    have m2: "mapped s2 j b d \<longleftrightarrow> mapped s j b d \<and> \<not> (j = i \<and> b = sb) \<or> j = i \<and> b = sb \<and> d = e" for j b d
      using s2(4) m1 by blast
    have pl1: "pinned_super_blocks l1 = P" using s1(5) P(1) l1(1) by (metis option.inject option.map(2) pins_of_def)
    have sp: "same_pool s0 s2" using C(2) s1(2) s2(2) by (meson same_pool_trans)
    have len: "length (blocks s1) = length (blocks s)" "length (blocks s) = length (blocks s0)"
      using s1(2) C(2) by (simp_all add: same_pool_def)
    have "kv_kept s s2" using s1(3) s2(3) len(1) by (rule kv_kept_trans)
    then have kv: "kv_kept s0 s2" using kv_kept_trans [OF C(3) _ len(2)] by blast
    have w: "whole_super_blocks s2" using C(4) same_pool_views(4) [OF s1(2)] same_pool_views(4) [OF s2(2)] by simp
    have ex: "experts_of s2 i = Some n" using sp n(1) C(2) by (simp add: same_pool_def)
    have pins: "pins_of s2 i = Some (pinned_super_blocks (pin sb l1))" using s2(5) by simp
    have pset: "set (pinned_super_blocks (pin sb l1)) = insert sb (set P)" using pl1 by simp
    have res: "\<exists>b \<in> insert sb (set P). mapped s2 i b d" if "d \<in> set needed - set ms" for d
    proof (cases "d = e")
      case True
      then show ?thesis using m2 by blast
    next
      case False
      with that P(2) obtain b where "b \<in> set P" "mapped s i b d" by force
      then show ?thesis using m2 nn that by blast
    qed
    have owner: "\<exists>d \<in> set needed. mapped s2 i b d" if "b \<in> insert sb (set P)" for b
      using that P(3) m2 C(6) by (cases "b = sb") auto
    have fresh: "\<forall>d \<in> set ms. \<forall>b. \<not> mapped s2 i b d" using C(5,9) m2 by auto
    have nsb: "sb \<notin> (fst \<circ> snd) ` set done"
    proof
      assume "sb \<in> (fst \<circ> snd) ` set done"
      then obtain d t where "(d, sb, t) \<in> set done" by auto
      then show False using C(13) nn by blast
    qed
    have "claiming i needed s0 ms (s2, done @ [(e, sb, tier)])"
      unfolding claiming_def Let_def fst_conv snd_conv
    proof (intro conjI)
      show "\<exists>n. experts_of s2 i = Some n \<and> (\<forall>e \<in> set needed. e < n)" using ex n(2) by blast
      show "\<exists>P. pins_of s2 i = Some P \<and> (\<forall>e \<in> set needed - set ms. \<exists>sb \<in> set P. mapped s2 i sb e) \<and>
            (\<forall>sb \<in> set P. \<exists>e \<in> set needed. mapped s2 i sb e)"
        using pins pset res owner by metis
      show "\<forall>(d, b, _) \<in> set (done @ [(e, sb, tier)]). mapped s2 i b d \<and> d \<in> set needed"
      proof (clarify, intro conjI)
        fix d b t assume "(d, b, t) \<in> set (done @ [(e, sb, tier)])"
        then consider "(d, b, t) \<in> set done" "b \<noteq> sb" | "d = e" "b = sb" using nsb by force
        then show "mapped s2 i b d" "d \<in> set needed" using C(6,13) m2 by (cases; fastforce)+
      qed
    qed (use s2(1) sp kv w C m2 fresh nsb s2(5) s1(5) in auto)
    then show ?thesis using claim_miss_load [OF _ run] Inr r by simp
  qed
qed

lemma claim_misses_ok:
  assumes "claiming i needed s0 ms c"
  shows "post (for_each (claim_miss i needed) ms c) (\<lambda>_ c'. claiming i needed s0 [] c')
     (\<lambda>err c'. err = RuntimeError ''pool exhausted while resolving expert miss'' \<and>
        (\<exists>e ms'. claiming i needed s0 (e # ms') c' \<and> exhausted i needed (fst c')))"
proof (rule for_each_post [where I = "claiming i needed s0", OF assms])
  fix e ms' c assume c: "claiming i needed s0 (e # ms') c"
  obtain s "done" where cs: "c = (s, done)" by (cases c)
  from claim_miss_ok [OF c [unfolded cs]] show "post (claim_miss i needed e c) (\<lambda>_ c'. claiming i needed s0 ms' c')
     (\<lambda>err c'. err = RuntimeError ''pool exhausted while resolving expert miss'' \<and>
        (\<exists>e ms'. claiming i needed s0 (e # ms') c' \<and> exhausted i needed (fst c')))"
    unfolding cs by (rule post_mono) (use c cs in auto)
qed

text \<open>The super-blocks an expert could use: whole, not reserved, without a page in use.\<close>

definition usable_super_blocks :: "unified_manager \<Rightarrow> nat set" where
  "usable_super_blocks s = {sb. 0 < sb \<and> sb < num_super_blocks s \<and> (\<forall>p \<in> set (pages_of s sb). ref_at s p = 0)}"

lemma finite_usable [simp]: "finite (usable_super_blocks s)"
  by (rule finite_subset [of _ "{..<num_super_blocks s}"]) (auto simp: usable_super_blocks_def)

text \<open>With as many of them as needed experts, a miss always finds one.\<close>

lemma claiming_not_exhausted:
  assumes c: "claiming i needed s0 (e # ms) (s, done)" and d: "distinct needed"
    and u: "length needed \<le> card (usable_super_blocks s0)"
  shows "\<not> exhausted i needed s"
proof
  assume x: "exhausted i needed s"
  note C = claimingD [OF c]
  note D = manager_syncedD [OF C(1)]
  obtain l where l: "map_of (layers s) i = Some l" "own_coldest l needed = None" "co_location s l = None"
    and nv: "\<And>sb. \<not> vacatable sb s" using x by (auto simp: exhausted_def)
  obtain P where P: "pins_of s i = Some P" "\<forall>d \<in> set needed - set (e # ms). \<exists>sb \<in> set P. mapped s i sb d"
      "\<forall>sb \<in> set P. \<exists>d \<in> set needed. mapped s i sb d" using C(8) by blast
  have pl: "pinned_super_blocks l = P" using P(1) l(1) by (simp add: pins_of_def)
  have ok: "layer_ok (step s) l" using D(9) l(1) unfolding layers_ok_def by blast
  have m: "mapped s i sb d \<longleftrightarrow> map_of (super_block_at_expert l) d = Some sb" for sb d
    using experts.inverse [OF ok] mapped_self [OF l(1)] by simp
  have us: "usable_super_blocks s = usable_super_blocks s0"
    using C(2) same_pool_views(1) [OF C(2)] by (simp add: usable_super_blocks_def same_pool_def)
  have "card (set P) < card (usable_super_blocks s)"
  proof -
    let ?f = "\<lambda>sb. the (map_of (expert_at_super_block l) sb)"
    have f: "map_of (expert_at_super_block l) sb = Some (?f sb)" "?f sb \<in> set needed - {e}" if "sb \<in> set P" for sb
      using that P(3) C(9) mapped_self [OF l(1)] by fastforce+
    have "inj_on ?f (set P)" using f(1) experts.inverse [OF ok] by (intro inj_onI) (metis option.inject)
    then have "card (set P) \<le> card (set needed - {e})" using f(2) by (intro card_inj_on_le [of ?f]) auto
    also have "\<dots> < card (set needed)" using C(6) by (intro card_Diff1_less) auto
    finally show ?thesis using u d us by (simp add: distinct_card)
  qed
  then obtain sb where sb: "sb \<in> usable_super_blocks s" "sb \<notin> set P"
    by (metis card_mono finite_set not_le subsetI)
  consider dd where "mapped s i sb dd" | "\<forall>dd. \<not> mapped s i sb dd" "holders_of s sb \<noteq> []" | "holders_of s sb = []" by blast
  then show False
  proof cases
    case 1
    have "dd \<notin> set needed"
    proof
      assume n: "dd \<in> set needed"
      have "dd \<notin> set (e # ms)" using 1 C(9) by blast
      with n P(2) obtain b where "b \<in> set P" "mapped s i b dd" by blast
      with 1 sb(2) show False unfolding m by simp
    qed
    moreover have home: "map_of (super_block_at_expert l) dd = Some sb" using 1 m by blast
    moreover obtain st where "(dd, st) \<in> set (expert_lru l)" using experts.stamped [OF ok] home by force
    ultimately show False using l(2) sb(2) unfolding own_coldest_def find_None_iff pl by fastforce
  next
    case 2
    then have "sb \<in> fst ` set (super_block_holder s)" using holders_key [OF D(10)] by blast
    from co_location_none [OF C(1) l(1,3) this] 2 sb(2) show False unfolding pl by blast
  next
    case 3
    with sb(1) have "vacatable sb s" by (simp add: usable_super_blocks_def vacatable_def)
    with nv show False by blast
  qed
qed

section \<open>Unwinding a failed load\<close>

definition clear_pins :: "nat \<Rightarrow> unified_manager \<Rightarrow> unified_manager" where
  "clear_pins i s = (case map_of (layers s) i of None \<Rightarrow> s | Some l \<Rightarrow> put_layer i (l\<lparr>pinned_super_blocks := []\<rparr>) s)"

lemma drop_expert_clear:
  "drop_expert sb (l\<lparr>pinned_super_blocks := []\<rparr>) =
     (case drop_expert sb l of Inl (e, l') \<Rightarrow> Inl (e, l'\<lparr>pinned_super_blocks := []\<rparr>)
      | Inr (r, l') \<Rightarrow> Inr (r, l'\<lparr>pinned_super_blocks := []\<rparr>))"
  by (auto simp: drop_expert_def set_row_def return_def raise_def Let_def split: option.splits)

lemma put_layer_twice: "put_layer i l (put_layer i l' s) = put_layer i l s"
  by (simp add: put_layer_def)

lemma clear_pins_put: "clear_pins i (put_layer i l s) = put_layer i (l\<lparr>pinned_super_blocks := []\<rparr>) s"
  by (simp add: clear_pins_def put_layer_twice)

lemma remove_holder_put: "remove_holder j sb (put_layer i l s) = put_layer i l (remove_holder j sb s)"
  by (simp add: remove_holder_def put_layer_def Let_def split: option.splits)

lemma drop_clear:
  assumes "map_of (layers s) i = Some l" "runs_to (drop_layer_mapping i sb (clear_pins i s)) Q"
  shows "runs_to (drop_layer_mapping i sb s) (\<lambda>u t. map_of (layers t) i \<noteq> None \<and> Q u (clear_pins i t))"
proof -
  have c: "clear_pins i s = put_layer i (l\<lparr>pinned_super_blocks := []\<rparr>) s" using assms(1) by (simp add: clear_pins_def)
  show ?thesis
  proof (cases "drop_expert sb l")
    case (Inl r)
    then show ?thesis
      using assms(2) unfolding c
      by (cases r) (simp add: drop_layer_mapping_def on_layer_def drop_expert_clear)
  next
    case (Inr r)
    then obtain e l' where r: "drop_expert sb l = Inr (e, l')" by (cases r) auto
    have s: "drop_layer_mapping i sb s = (if e = None then Inr ((), put_layer i l' s) else Inr ((), put_layer i l' (remove_holder i sb s)))"
      using assms(1) r by (simp add: drop_layer_mapping_def on_layer_def return_def remove_holder_put)
    have "drop_layer_mapping i sb (clear_pins i s) = (if e = None then Inr ((), put_layer i (l'\<lparr>pinned_super_blocks := []\<rparr>) s)
        else Inr ((), put_layer i (l'\<lparr>pinned_super_blocks := []\<rparr>) (remove_holder i sb s)))"
      using r unfolding c by (simp add: drop_layer_mapping_def on_layer_def return_def drop_expert_clear put_layer_twice remove_holder_put)
    then show ?thesis using assms(2) unfolding s by (cases e) (simp_all add: clear_pins_put)
  qed
qed

lemma drops_clear:
  assumes "map_of (layers s) i \<noteq> None"
    and "runs_to (for_each (\<lambda>(_, sb, _). drop_layer_mapping i sb) ds (clear_pins i s)) Q"
  shows "runs_to (for_each (\<lambda>(_, sb, _). drop_layer_mapping i sb) ds s) (\<lambda>u t. map_of (layers t) i \<noteq> None \<and> Q u (clear_pins i t))"
  using assms
proof (induction ds arbitrary: s)
  case (Cons x ds)
  obtain d sb tier where x: "x = (d, sb, tier)" by (cases x)
  obtain l where l: "map_of (layers s) i = Some l" using Cons.prems(1) by blast
  have "runs_to (drop_layer_mapping i sb (clear_pins i s)) (\<lambda>_ t. runs_to (for_each (\<lambda>(_, sb, _). drop_layer_mapping i sb) ds t) Q)"
    using Cons.prems(2) by (simp add: x post_rbind)
  note drop = drop_clear [OF l this]
  show ?case
    unfolding x for_each.simps prod.case post_rbind by (rule runs_to_mono [OF drop]) (use Cons.IH in blast)
qed simp

lemma unwind_clear:
  assumes "map_of (layers s) i \<noteq> None"
    and "runs_to (for_each (\<lambda>(_, sb, _). drop_layer_mapping i sb) ds (clear_pins i s)) Q"
  shows "runs_to (unwind i ds s) Q"
  unfolding unwind_def post_rbind
  by (rule runs_to_mono [OF drops_clear [OF assms]]) (auto simp: on_layer_def clear_pins_def return_def)

text \<open>Dropping a list of mappings of an unpinned layer.\<close>

lemma drop_all_ok:
  assumes "inv s" "pins_of s i = Some []" "distinct (map (fst \<circ> snd) ds)" "\<forall>(d, b, _) \<in> set ds. mapped s i b d"
  shows "runs_to (for_each (\<lambda>(_, sb, _). drop_layer_mapping i sb) ds s) (\<lambda>_ s'. inv s' \<and> same_pool s s' \<and> kv_kept s s' \<and>
     pins_of s' = pins_of s \<and> (\<forall>j b d. mapped s' j b d \<longleftrightarrow> mapped s j b d \<and> \<not> (j = i \<and> b \<in> (fst \<circ> snd) ` set ds)))"
  using assms
proof (induction ds arbitrary: s)
  case (Cons x ds)
  obtain d sb tier where x: "x = (d, sb, tier)" by (cases x)
  obtain l where l: "map_of (layers s) i = Some l" "sb \<notin> set (pinned_super_blocks l)"
    using Cons.prems(2) by (auto simp: pins_of_def)
  have at: "map_of (expert_at_super_block l) sb = Some d" using Cons.prems(4) mapped_self [OF l(1)] by (auto simp: x)
  show ?case
    unfolding x for_each.simps prod.case post_rbind
  proof (rule runs_to_mono [OF drop_layer_mapping_ok [OF Cons.prems(1) l at]])
    fix u s1 assume s1: "inv s1 \<and> same_pool s s1 \<and> kv_kept s s1 \<and> hash_at s1 = hash_at s \<and>
      (\<forall>j b e. mapped s1 j b e \<longleftrightarrow> mapped s j b e \<and> \<not> (j = i \<and> b = sb)) \<and> pins_of s1 = pins_of s"
    have m1: "mapped s1 j b e \<longleftrightarrow> mapped s j b e \<and> \<not> (j = i \<and> b = sb)" for j b e using s1 by blast
    have nsb: "sb \<notin> (fst \<circ> snd) ` set ds" and ds: "\<forall>(d, b, _) \<in> set ds. mapped s i b d"
      using Cons.prems(3,4) by (simp_all add: x)
    have "\<forall>(d, b, _) \<in> set ds. mapped s1 i b d"
    proof (clarify)
      fix d' b' t' assume b': "(d', b', t') \<in> set ds"
      then have "b' \<noteq> sb" using nsb by force
      with b' ds show "mapped s1 i b' d'" unfolding m1 by blast
    qed
    moreover have "length (blocks s1) = length (blocks s)" using s1 by (simp add: same_pool_def)
    ultimately show "runs_to (for_each (\<lambda>(_, sb, _). drop_layer_mapping i sb) ds s1) (\<lambda>_ s'. inv s' \<and> same_pool s s' \<and> kv_kept s s' \<and>
       pins_of s' = pins_of s \<and> (\<forall>j b e. mapped s' j b e \<longleftrightarrow> mapped s j b e \<and> \<not> (j = i \<and> b \<in> (fst \<circ> snd) ` set ((d, sb, tier) # ds))))"
      using s1 Cons.prems(2,3) same_pool_trans kv_kept_trans
      by (intro runs_to_mono [OF Cons.IH]) (auto simp: x)
  qed
qed simp

lemma same_directory_pins: "layer_ok now l \<Longrightarrow> same_directory now l (l\<lparr>pinned_super_blocks := P\<rparr>)"
  by (simp add: same_directory_def layer_ok_def)

lemma clear_pins_ok:
  assumes J: "inv s" and l: "map_of (layers s) i = Some l"
  shows "inv (clear_pins i s)" "same_pool s (clear_pins i s)" "kv_kept s (clear_pins i s)"
    "mapped (clear_pins i s) = mapped s" "pins_of (clear_pins i s) = (pins_of s)(i \<mapsto> [])"
proof -
  have c: "clear_pins i s = put_layer i (l\<lparr>pinned_super_blocks := []\<rparr>) s" using l by (simp add: clear_pins_def)
  have "layer_ok (step s) l" using manager_syncedD(9) [OF J] l unfolding layers_ok_def by blast
  note p = put_layer_ok [OF J l same_directory_pins [OF this, of "[]"]]
  show "inv (clear_pins i s)" "same_pool s (clear_pins i s)" "kv_kept s (clear_pins i s)" "mapped (clear_pins i s) = mapped s"
    using p unfolding c by simp_all
  show "pins_of (clear_pins i s) = (pins_of s)(i \<mapsto> [])" unfolding c by (simp add: fun_eq_iff pins_of_def)
qed

text \<open>After a failed load the layer has no pins and no mapping it did not have before.\<close>

definition unwound :: "nat \<Rightarrow> unified_manager \<Rightarrow> unified_manager \<Rightarrow> bool" where
  "unwound i s s' \<longleftrightarrow> inv s' \<and> same_pool s s' \<and> kv_kept s s' \<and> pins_of s' = (pins_of s)(i \<mapsto> []) \<and>
     (\<forall>b d. mapped s' i b d \<longrightarrow> mapped s i b d) \<and> (\<forall>j b d. j \<noteq> i \<longrightarrow> mapped s' j b d = mapped s j b d)"

lemma unwind_ok:
  assumes c: "claiming i needed s0 ms (s, ds)"
  shows "runs_to (unwind i ds s) (\<lambda>_ s'. unwound i s0 s')"
proof -
  note C = claimingD [OF c]
  obtain l where l: "map_of (layers s) i = Some l" using C(8) by (auto simp: pins_of_def)
  note cp = clear_pins_ok [OF C(1) l]
  have "\<forall>(d, b, _) \<in> set ds. mapped (clear_pins i s) i b d" using C(13) by (auto simp: cp(4))
  note drop = drop_all_ok [OF cp(1) _ C(12) this]
  have len: "length (blocks s) = length (blocks s0)" "length (blocks (clear_pins i s)) = length (blocks s)"
    using C(2) cp(2) by (simp_all add: same_pool_def)
  show ?thesis
  proof (rule unwind_clear)
    show "map_of (layers s) i \<noteq> None" using l by simp
    have "pins_of (clear_pins i s) i = Some []" by (simp add: cp(5))
    from drop [OF this] show "runs_to (for_each (\<lambda>(_, sb, _). drop_layer_mapping i sb) ds (clear_pins i s)) (\<lambda>_ s'. unwound i s0 s')"
    proof (rule runs_to_mono)
      fix u s' assume s': "inv s' \<and> same_pool (clear_pins i s) s' \<and> kv_kept (clear_pins i s) s' \<and>
        pins_of s' = pins_of (clear_pins i s) \<and>
        (\<forall>j b d. mapped s' j b d \<longleftrightarrow> mapped (clear_pins i s) j b d \<and> \<not> (j = i \<and> b \<in> (fst \<circ> snd) ` set ds))"
      have "same_pool s0 s'" using same_pool_trans [OF same_pool_trans [OF C(2) cp(2)]] s' by blast
      moreover have "kv_kept s s'" using kv_kept_trans [OF cp(3) _ len(2)] s' by blast
      then have "kv_kept s0 s'" using kv_kept_trans [OF C(3) _ len(1)] by blast
      moreover have "pins_of s' = pins_of (clear_pins i s)" using s' by blast
      then have "pins_of s' = (pins_of s0)(i \<mapsto> [])" using C(11) unfolding cp(5) by auto
      moreover have m': "mapped s' j b d \<longleftrightarrow> mapped s j b d \<and> \<not> (j = i \<and> b \<in> (fst \<circ> snd) ` set ds)" for j b d
        using s' unfolding cp(4) by blast
      have "mapped s0 i b d" if "mapped s' i b d" for b d using that C(14) unfolding m' by blast
      moreover have "mapped s' j b d = mapped s0 j b d" if "j \<noteq> i" for j b d using that C(10) unfolding m' by blast
      moreover have "inv s'" using s' by blast
      ultimately show "unwound i s0 s'" unfolding unwound_def by blast
    qed
  qed
qed

section \<open>ensure_loaded\<close>

lemma hits_fold_ok:
  assumes "layer_ok now l" "\<forall>(e, sb) \<in> set hs. map_of (expert_at_super_block l) sb = Some e"
  shows "same_directory now l (fold (\<lambda>(e, sb) l. bump_expert e now (pin sb l)) hs l) \<and>
     set (pinned_super_blocks (fold (\<lambda>(e, sb) l. bump_expert e now (pin sb l)) hs l)) = snd ` set hs \<union> set (pinned_super_blocks l)"
  using assms
proof (induction hs arbitrary: l)
  case Nil
  then show ?case by (simp add: same_directory_def)
next
  case (Cons x hs)
  obtain e sb where x: "x = (e, sb)" by (cases x)
  let ?l = "bump_expert e now (pin sb l)"
  have ok: "layer_ok now (pin sb l)" using Cons.prems(1) by simp
  note b = layer_ok_bump [OF ok, of e]
  note f = same_layer_fields [OF b(2)]
  have d: "same_directory now l ?l" using b f by (simp add: same_directory_def)
  have p: "set (pinned_super_blocks ?l) = insert sb (set (pinned_super_blocks l))" using f(8) by simp
  have "\<forall>(e, sb) \<in> set hs. map_of (expert_at_super_block ?l) sb = Some e" using Cons.prems(2) b(3) by (simp add: x)
  from Cons.IH [OF b(1) this] d p show ?case by (auto simp: x same_directory_def)
qed

text \<open>The layer after the hits: pinned and bumped, counters updated.\<close>

definition after_hits :: "nat list \<Rightarrow> int \<Rightarrow> unified_layer \<Rightarrow> unified_layer" where
  "after_hits needed now l =
     hit_all (filter (has_expert l) needed) now
       (l\<lparr>ever_activated := fold set_add needed (ever_activated l),
          hits := hits l + length (filter (has_expert l) needed),
          misses := misses l + length (filter (\<lambda>e. \<not> has_expert l e) needed)\<rparr>)"

lemma after_hits_ok:
  assumes ok: "layer_ok now l"
  shows "same_directory now l (after_hits needed now l)"
    "set (pinned_super_blocks (after_hits needed now l)) =
       {sb. \<exists>e \<in> set needed. map_of (expert_at_super_block l) sb = Some e} \<union> set (pinned_super_blocks l)"
proof -
  define l1 where "l1 = l\<lparr>ever_activated := fold set_add needed (ever_activated l),
          hits := hits l + length (filter (has_expert l) needed),
          misses := misses l + length (filter (\<lambda>e. \<not> has_expert l e) needed)\<rparr>"
  have l1: "layer_ok now l1" "expert_at_super_block l1 = expert_at_super_block l" "super_block_at_expert l1 = super_block_at_expert l"
    "pinned_super_blocks l1 = pinned_super_blocks l" using ok by (simp_all add: l1_def layer_ok_def)
  let ?hs = "map (\<lambda>e. (e, the (map_of (super_block_at_expert l1) e))) (filter (has_expert l) needed)"
  have at: "map_of (expert_at_super_block l) sb = Some e \<longleftrightarrow> map_of (super_block_at_expert l) e = Some sb" for e sb
    using experts.inverse [OF ok] .
  have hs: "\<forall>(e, sb) \<in> set ?hs. map_of (expert_at_super_block l1) sb = Some e"
    unfolding l1 at by (auto simp: has_expert_def simp del: map_of_eq_Some_iff)
  have run: "after_hits needed now l = fold (\<lambda>(e, sb) l. bump_expert e now (pin sb l)) ?hs l1"
    by (simp add: after_hits_def hit_all_def l1_def)
  have sn: "snd ` set ?hs = {sb. \<exists>e \<in> set needed. map_of (expert_at_super_block l) sb = Some e}"
    unfolding l1 at by (auto simp: has_expert_def image_iff simp del: map_of_eq_Some_iff) (metis option.sel)
  have "same_directory now l1 l' \<Longrightarrow> same_directory now l l'" for l' by (simp add: same_directory_def l1_def)
  with hits_fold_ok [OF l1(1) hs] sn l1(4) show "same_directory now l (after_hits needed now l)"
    "set (pinned_super_blocks (after_hits needed now l)) =
       {sb. \<exists>e \<in> set needed. map_of (expert_at_super_block l) sb = Some e} \<union> set (pinned_super_blocks l)"
    unfolding run by simp_all
qed

lemma ensure_loaded_run:
  assumes "map_of (layers s) i = Some l"
  shows "ensure_loaded i needed s =
     (case for_each (claim_miss i needed) (filter (\<lambda>e. \<not> has_expert l e) needed) (put_layer i (after_hits needed (step s) l) s, []) of
        Inr (_, (s2, _)) \<Rightarrow> return () s2
      | Inl (e, (s2, ds)) \<Rightarrow> rbind (unwind i ds s2) (\<lambda>_. raise e))"
  using assms by (simp add: ensure_loaded_def after_hits_def Let_def)

lemma start_claiming:
  assumes J: "inv s" and w: "whole_super_blocks s" and l: "map_of (layers s) i = Some l" "pinned_super_blocks l = []"
    and n: "distinct needed" "\<forall>e \<in> set needed. e < num_experts l"
  shows "claiming i needed s (filter (\<lambda>e. \<not> has_expert l e) needed) (put_layer i (after_hits needed (step s) l) s, [])"
proof -
  let ?l = "after_hits needed (step s) l" and ?ms = "filter (\<lambda>e. \<not> has_expert l e) needed"
  let ?s = "put_layer i ?l s"
  have ok: "layer_ok (step s) l" using manager_syncedD(9) [OF J] l unfolding layers_ok_def by blast
  note h = after_hits_ok [OF ok, of needed]
  have pin: "set (pinned_super_blocks ?l) = {sb. \<exists>e \<in> set needed. map_of (expert_at_super_block l) sb = Some e}"
    using h(2) l(2) by simp
  then have "\<forall>sb \<in> set (pinned_super_blocks ?l). map_of (expert_at_super_block l) sb \<noteq> None" by auto
  note p' = put_layer_ok [OF J l(1) h(1) this]
  have m: "mapped s i sb e \<longleftrightarrow> map_of (expert_at_super_block l) sb = Some e" for sb e using mapped_self [OF l(1)] .
  have ne: "num_experts ?l = num_experts l" using h(1) by (simp add: same_directory_def)
  have res: "\<exists>sb \<in> set (pinned_super_blocks ?l). mapped s i sb e" if "e \<in> set needed - set ?ms" for e
  proof -
    have "has_expert l e" using that by auto
    then obtain sb where "map_of (super_block_at_expert l) e = Some sb" unfolding has_expert_def by blast
    then have "map_of (expert_at_super_block l) sb = Some e" using experts.inverse [OF ok] by blast
    then show ?thesis unfolding pin m using that by blast
  qed
  have none: "\<not> mapped s i sb e" if "e \<in> set ?ms" for e sb
    using that experts.inverse [OF ok] unfolding m by (auto simp: has_expert_def simp del: map_of_eq_Some_iff)
  show ?thesis
    unfolding claiming_def Let_def fst_conv snd_conv p'(4)
  proof (intro conjI)
    show "whole_super_blocks ?s" using w same_pool_views(4) [OF p'(2)] by simp
    show "\<exists>n. experts_of ?s i = Some n \<and> (\<forall>e \<in> set needed. e < n)" using n(2) ne by (simp add: experts_of_def)
    show "\<exists>P. pins_of ?s i = Some P \<and> (\<forall>e \<in> set needed - set ?ms. \<exists>sb \<in> set P. mapped s i sb e) \<and>
       (\<forall>sb \<in> set P. \<exists>e \<in> set needed. mapped s i sb e)"
      by (intro exI [of _ "pinned_super_blocks ?l"] conjI ballI) (use res pin m in \<open>auto simp: pins_of_def\<close>)
    show "\<forall>j. j \<noteq> i \<longrightarrow> pins_of ?s j = pins_of s j" by (simp add: pins_of_def)
  qed (use p' n none in auto)
qed

text \<open>What \<open>ensure_loaded\<close> promises.\<close>

definition loaded :: "nat \<Rightarrow> nat list \<Rightarrow> unified_manager \<Rightarrow> unified_manager \<Rightarrow> bool" where
  "loaded i needed s s' \<longleftrightarrow> inv s' \<and> same_pool s s' \<and> kv_kept s s' \<and>
     (\<exists>l. map_of (layers s') i = Some l \<and>
        set (pinned_super_blocks l) = {sb. \<exists>e \<in> set needed. map_of (expert_at_super_block l) sb = Some e} \<and>
        (\<forall>e \<in> set needed. \<exists>sb. map_of (expert_at_super_block l) sb = Some e)) \<and>
     (\<forall>j b d. j \<noteq> i \<longrightarrow> mapped s' j b d = mapped s j b d) \<and> (\<forall>j. j \<noteq> i \<longrightarrow> pins_of s' j = pins_of s j)"

lemma claiming_loaded:
  assumes "claiming i needed s0 [] (s, ds)"
  shows "loaded i needed s0 s"
proof -
  note C = claimingD [OF assms]
  obtain l where l: "map_of (layers s) i = Some l" using C(8) by (auto simp: pins_of_def)
  have ok: "layer_ok (step s) l" using manager_syncedD(9) [OF C(1)] l unfolding layers_ok_def by blast
  have m: "mapped s i sb e \<longleftrightarrow> map_of (expert_at_super_block l) sb = Some e" for sb e using mapped_self [OF l] .
  have P: "\<forall>e \<in> set needed. \<exists>sb \<in> set (pinned_super_blocks l). map_of (expert_at_super_block l) sb = Some e"
    "\<forall>sb \<in> set (pinned_super_blocks l). \<exists>e \<in> set needed. map_of (expert_at_super_block l) sb = Some e"
    using C(8) l unfolding m by (auto simp: pins_of_def simp del: map_of_eq_Some_iff)
  have "sb \<in> set (pinned_super_blocks l)" if "e \<in> set needed" "map_of (expert_at_super_block l) sb = Some e" for e sb
    using that P(1) experts.inverse [OF ok] by (metis option.inject)
  with P have "set (pinned_super_blocks l) = {sb. \<exists>e \<in> set needed. map_of (expert_at_super_block l) sb = Some e}" by blast
  with l P(1) C(1-3,10,11) show ?thesis unfolding loaded_def by blast
qed

lemma ensure_loaded_ok:
  assumes J: "inv s" and w: "whole_super_blocks s" and l: "map_of (layers s) i = Some l" "pinned_super_blocks l = []"
    and n: "distinct needed" "\<forall>e \<in> set needed. e < num_experts l"
  shows "post (ensure_loaded i needed s) (\<lambda>_ s'. loaded i needed s s')
     (\<lambda>err s'. err = RuntimeError ''pool exhausted while resolving expert miss'' \<and> unwound i s s' \<and>
        card (usable_super_blocks s) < length needed)"
proof -
  note start = start_claiming [OF assms]
  let ?run = "for_each (claim_miss i needed) (filter (\<lambda>e. \<not> has_expert l e) needed) (put_layer i (after_hits needed (step s) l) s, [])"
  note all = claim_misses_ok [OF start]
  show ?thesis
  proof (cases ?run)
    case (Inr r)
    obtain u s2 ds where r: "r = (u, (s2, ds))" by (metis prod.exhaust)
    have "claiming i needed s [] (s2, ds)" using all unfolding Inr r by simp
    from claiming_loaded [OF this] show ?thesis
      unfolding ensure_loaded_run [OF l(1)] Inr r by simp
  next
    case (Inl r)
    obtain err s2 ds where r: "r = (err, (s2, ds))" by (metis prod.exhaust)
    obtain e ms where c: "err = RuntimeError ''pool exhausted while resolving expert miss''"
      "claiming i needed s (e # ms) (s2, ds)" "exhausted i needed s2" using all unfolding Inl r by auto
    have "card (usable_super_blocks s) < length needed"
      using claiming_not_exhausted [OF c(2) n(1)] c(3) by linarith
    then show ?thesis
      unfolding ensure_loaded_run [OF l(1)] Inl r sum.case prod.case post_rbind post_raise
      using post_mono [OF unwind_ok [OF c(2)]] c(1) by fastforce
  qed
qed

end
