(* ===== verification/Pool_Machine.thy ===== *)
theory Pool_Machine
  imports Expert_Loading
begin

text \<open>
  The unified pool as a state machine: construction, warm-up, the operations of the block
  pool and of the forward pass as the steps of a relation, and the invariant in every
  reachable state.
\<close>

section \<open>Construction\<close>

lemma block_pool_extend_fields [simp]:
  "base (block_pool.extend bp m) = bp" "block_pool.more (block_pool.extend bp m) = m"
  for bp :: block_pool
  by (cases bp; simp add: block_pool.defs)+

lemma fresh_pool_free:
  assumes "pool_inv {} bp" "\<forall>i < length (blocks bp). hash_at bp i = None"
  shows "cached_free bp = {}"
  using assms by (auto simp: cached_free_def pool_inv_def queue_ok_def)

lemma manager_init_ok:
  assumes bp: "pool_inv {} bp" "\<forall>i < length (blocks bp). hash_at bp i = None"
    and m: "0 < f" "0 < page" "dict_wf bufs" "\<forall>buf \<in> snd ` set bufs. length buf = num_gpu_blocks bp * page"
  shows "\<exists>s. manager_init bp f page bufs relocate score = Inr s \<and> inv s \<and> unpinned s \<and> base s = bp \<and> layers s = [] \<and>
     super_block_holder s = [] \<and> pages_per_super_block s = f \<and> page_size_bytes s = page \<and> kv_pool_buffers s = bufs \<and>
     num_super_blocks s = num_gpu_blocks bp div f"
proof -
  define s :: unified_manager where "s = block_pool.extend bp (unified_manager.fields f page bufs (num_gpu_blocks bp div f) [] [] 0
                  relocate 0 lru_empty score)"
  have run: "manager_init bp f page bufs relocate score = Inr s"
    using m by (auto simp: manager_init_def s_def)
  have f: "base s = bp" "pages_per_super_block s = f" "page_size_bytes s = page" "kv_pool_buffers s = bufs"
    "num_super_blocks s = num_gpu_blocks bp div f" "layers s = []" "super_block_holder s = []" "prefix_lru s = lru_empty" "step s = 0"
    unfolding s_def by (cases bp; simp add: block_pool.defs unified_manager.defs)+
  have "base s = base bp" using f(1) by (cases bp) (simp add: block_pool.truncate_def)
  note bv = base_views [OF this]
  have n: "num_gpu_blocks bp = length (blocks bp)" using bp(1) by (simp add: pool_inv_def ids_ok_def)
  have cf: "cached_free s = {}" using fresh_pool_free [OF bp] bv(5) by simp
  have "manager_view (length (blocks s)) {} s"
    using m n bv(6) by (simp add: manager_view_def geometry_ok_def f lru_ok_def recency_ordered_def layers_ok_def
        holders_ok_def bytes_ok_def mapped_def holders_of_def)
  moreover have "held_pages s = {}" by (simp add: held_pages_def f)
  ultimately have "inv s" using bp(1) by (simp add: synced_def listens_def cf bv(4))
  with run f show ?thesis by (auto simp: unpinned_def)
qed

text \<open>A freshly built layer has an empty directory and slots of whole super-blocks.\<close>

lemma unified_layer_init_ok:
  assumes "unified_layer_init idx ne w13 w2 buf page slot n13 n2 elem = Inr l"
  shows "layer_ok now l" "expert_at_super_block l = []" "pinned_super_blocks l = []" "layer_idx l = idx" "num_experts l = ne"
    "expert_slot_bytes l = layer_pages_per_super_block l * page" "w13_bytes l + w2_bytes l = expert_slot_bytes l"
    "cpu_w13_bytes l = w13" "cpu_w2_bytes l = w2" "w13_bytes l = n13" "w2_bytes l = n2" "0 < page"
    "\<forall>i < ne. super_block_id_at l ! i = UNLOADED"
  using assms by (auto simp: unified_layer_init_def Let_def layer_ok_def split: if_splits)

lemma register_layer_ok:
  assumes J: "inv s" and l: "layer_ok (step s) l" "expert_at_super_block l = []" "pinned_super_blocks l = []" "shape_ok s l"
    and new: "map_of (layers s) (layer_idx l) = None" "map_of (kv_pool_buffers s) (layer_idx l) \<noteq> None"
    and geo: "layer_pages_per_super_block l = pages_per_super_block s" "layer_num_super_blocks l = num_super_blocks s"
  shows "runs_to (register_layer l s) (\<lambda>_ s'. inv s' \<and> s' = put_layer (layer_idx l) l s \<and> (unpinned s \<longrightarrow> unpinned s') \<and>
     mapped s' = mapped s)"
proof -
  note D = manager_syncedD [OF J]
  let ?i = "layer_idx l"
  let ?s = "put_layer ?i l s"
  have run: "register_layer l s = Inr ((), ?s)"
    using new geo by (simp add: register_layer_def assert_that_def return_def map_of_eq_None_iff)
  have m: "mapped ?s = mapped s" using new(1) l(2) by (auto simp: fun_eq_iff mapped_def)
  have g: "map_of (layers ?s) j = (if j = ?i then Some l else map_of (layers s) j)" for j by simp
  have shape: "shape_ok ?s = shape_ok s" by (simp add: fun_eq_iff shape_ok_def)
  have "layers_ok ?s"
    unfolding layers_ok_def shape g
  proof (intro allI impI)
    fix j k assume k: "(if j = ?i then Some l else map_of (layers s) j) = Some k"
    show "layer_idx k = j \<and> layer_ok (step ?s) k \<and> shape_ok s k \<and> map_of (kv_pool_buffers ?s) j \<noteq> None \<and>
       (\<forall>sb \<in> set (pinned_super_blocks k). map_of (expert_at_super_block k) sb \<noteq> None)"
    proof (cases "j = ?i")
      case True
      with k l new(2) show ?thesis by simp
    next
      case False
      with k have "map_of (layers s) j = Some k" by simp
      with D(9) show ?thesis unfolding layers_ok_def put_layer_fields by blast
    qed
  qed
  moreover have "bytes_ok ?s"
    unfolding bytes_ok_def g
  proof (intro allI impI)
    fix j k buf b e
    assume k: "(if j = ?i then Some l else map_of (layers s) j) = Some k" "map_of (kv_pool_buffers ?s) j = Some buf"
      "map_of (expert_at_super_block k) b = Some e"
    then have "map_of (layers s) j = Some k" using l(2) by (cases "j = ?i") auto
    with k D(11) show "pool_w13_row k buf b = cpu_w13_bytes k ! e \<and> pool_w2_row k buf b = cpu_w2_bytes k ! e"
      unfolding bytes_ok_def put_layer_fields by blast
  qed
  moreover have "holders_ok (holder_sets ?s) ?s" using D(10) unfolding holders_ok_def m by simp
  moreover have "geometry_ok (length (blocks s)) ?s" using D(13) unfolding geometry_ok_def by simp
  moreover have "lru_ok (cached_free s) ?s" using D(12) by (simp add: lru_ok_def)
  ultimately have "manager_view (length (blocks s)) (cached_free s) ?s" by (simp add: manager_view_def)
  from synced_base_view [OF J _ this] have "manager_synced (length (blocks s)) {} ?s" by simp
  moreover have "length (blocks ?s) = length (blocks s)" by (rule base_views(6)) simp
  moreover have "unpinned ?s" if "unpinned s"
    using that l(3) update_values [of ?i l "layers s"] unfolding unpinned_def put_layer_fields by blast
  ultimately show ?thesis using run m by simp
qed

section \<open>Warm-up\<close>

lemma warm_layer_load:
  assumes "map_of (layers s) i = Some l"
  shows "warm_layer e sb i s = load_into (\<lambda>l. l) i e sb s"
proof (cases "assign sb e (step s) l")
  case (Inl r)
  then show ?thesis using assms by (cases r) (simp add: warm_layer_def load_into_def on_layer_def)
next
  case (Inr r)
  obtain u l' where r: "r = (u, l')" by (cases r)
  have "map_of (layers (add_holder i sb (put_layer i l' s))) i = Some l'" by (simp add: add_holder_def put_layer_def)
  then show ?thesis
    using assms Inr r put_layer_same [of "add_holder i sb (put_layer i l' s)" i l']
    by (simp add: warm_layer_def load_into_def on_layer_def)
qed

text \<open>Nothing is in the pool yet.\<close>

definition fresh :: "unified_manager \<Rightarrow> bool" where
  "fresh s \<longleftrightarrow> inv s \<and> unpinned s \<and> (\<forall>i b e. \<not> mapped s i b e) \<and>
     (\<forall>p. 0 < p \<and> p < length (blocks s) \<longrightarrow> ref_at s p = 0 \<and> hash_at s p = None)"

text \<open>The experts below \<open>k\<close> are loaded in every layer, expert \<open>k\<close> in the layers \<open>D\<close>.\<close>

definition warming :: "unified_manager \<Rightarrow> nat \<Rightarrow> nat set \<Rightarrow> unified_manager \<Rightarrow> bool" where
  "warming s0 k D s \<longleftrightarrow> inv s \<and> same_pool s0 s \<and> hash_at s = hash_at s0 \<and> pins_of s = pins_of s0 \<and>
     (\<forall>j b d. mapped s j b d \<longleftrightarrow> b = d + 1 \<and> j \<in> fst ` set (layers s0) \<and> (d < k \<or> d = k \<and> j \<in> D))"

lemma warm_layer_ok:
  assumes w: "warming s0 k D s" and f: "fresh s0" and k: "k + 1 < num_super_blocks s0"
    and i: "map_of (layers s0) i = Some l0" "k < num_experts l0" "i \<notin> D"
  shows "runs_to (warm_layer k (k + 1) i s) (\<lambda>_ s'. warming s0 k (insert i D) s')"
proof -
  have J: "inv s" and sp: "same_pool s0 s" and h: "hash_at s = hash_at s0" and ps: "pins_of s = pins_of s0"
    and m: "\<And>j b d. mapped s j b d \<longleftrightarrow> b = d + 1 \<and> j \<in> fst ` set (layers s0) \<and> (d < k \<or> d = k \<and> j \<in> D)"
    using w by (simp_all add: warming_def)
  have F: "fresh s0" by (rule f)
  have "experts_of s i = Some (num_experts l0)" using sp i(1) by (simp add: same_pool_def experts_of_def)
  then obtain l where l: "map_of (layers s) i = Some l" "num_experts l = num_experts l0" by (auto simp: experts_of_def)
  have ok: "layer_ok (step s) l" using manager_syncedD(9) [OF J] l(1) unfolding layers_ok_def by blast
  have at: "map_of (expert_at_super_block l) b = Some d \<longleftrightarrow> mapped s i b d" for b d using mapped_self [OF l(1)] by simp
  have ns: "k + 1 < num_super_blocks s" "pages_of s = pages_of s0" using k sp same_pool_views(1) [OF sp] by (simp_all add: same_pool_def)
  have "p \<in> free_set s \<and> hash_at s p = None" if p: "p \<in> set (pages_of s (k + 1))" for p
  proof -
    have lt: "p < length (blocks s)" using pages_in_pool [OF J ns(1) p] .
    have "0 < pages_per_super_block s" using manager_syncedD(8) [OF J] .
    then have "0 < p" using p by (auto simp: pages_of_def)
    moreover have "length (blocks s) = length (blocks s0)" "ref_at s = ref_at s0" using sp by (simp_all add: same_pool_def)
    ultimately have "ref_at s p = 0" "hash_at s p = None" using F lt h by (simp_all add: fresh_def)
    with lt \<open>0 < p\<close> manager_syncedD(5) [OF J] show ?thesis by (auto simp: queue_ok_def)
  qed
  moreover have "\<not> mapped s i (k + 1) d" for d using m i(3) by auto
  ultimately have r: "ready_for i (k + 1) s" using ns by (simp add: ready_for_def)
  have "map_of (super_block_at_expert l) k = None"
  proof (rule ccontr)
    assume "map_of (super_block_at_expert l) k \<noteq> None"
    then obtain b where "mapped s i b k" using experts.inverse [OF ok] at by blast
    then show False using m i(3) by auto
  qed
  from load_into_ok [OF J r l(1) _ this, of "\<lambda>l. l"] i(2) l(2) have
    "runs_to (load_into (\<lambda>l. l) i k (k + 1) s) (\<lambda>_ s'. inv s' \<and> same_pool s s' \<and> kv_kept s s' \<and> hash_at s' = hash_at s \<and>
     (\<forall>j b d. mapped s' j b d \<longleftrightarrow> mapped s j b d \<or> j = i \<and> b = k + 1 \<and> d = k) \<and>
     (\<forall>j. pins_of s' j = (if j = i then Some (pinned_super_blocks l) else pins_of s j)))" by simp
  then show ?thesis
    unfolding warm_layer_load [OF l(1)]
  proof (rule runs_to_mono)
    fix u s' assume s': "inv s' \<and> same_pool s s' \<and> kv_kept s s' \<and> hash_at s' = hash_at s \<and>
     (\<forall>j b d. mapped s' j b d \<longleftrightarrow> mapped s j b d \<or> j = i \<and> b = k + 1 \<and> d = k) \<and>
     (\<forall>j. pins_of s' j = (if j = i then Some (pinned_super_blocks l) else pins_of s j))"
    have "i \<in> fst ` set (layers s0)" using i(1) map_of_keys [of i "layers s0"] by simp
    then have "mapped s' j b d \<longleftrightarrow> b = d + 1 \<and> j \<in> fst ` set (layers s0) \<and> (d < k \<or> d = k \<and> j \<in> insert i D)" for j b d
      using s' m by auto
    moreover have "pins_of s i = Some (pinned_super_blocks l)" using l(1) by (simp add: pins_of_def)
    then have "pins_of s' = pins_of s0" using s' ps by (intro ext) (metis)
    moreover have "same_pool s0 s'" using same_pool_trans [OF sp] s' by blast
    ultimately show "warming s0 k (insert i D) s'" using s' h unfolding warming_def by simp
  qed
qed

lemma warm_layers_ok:
  assumes "warming s0 k D s" "fresh s0" "k + 1 < num_super_blocks s0" "distinct is" "set is \<inter> D = {}"
    and "\<forall>i \<in> set is. \<exists>l. map_of (layers s0) i = Some l \<and> k < num_experts l"
  shows "runs_to (for_each (warm_layer k (k + 1)) is s) (\<lambda>_ s'. warming s0 k (D \<union> set is) s')"
  using assms
proof (induction "is" arbitrary: D s)
  case (Cons i "is")
  then obtain l where l: "map_of (layers s0) i = Some l" "k < num_experts l" by auto
  have "warming s0 k (insert i D) s1 \<Longrightarrow> runs_to (for_each (warm_layer k (k + 1)) is s1) (\<lambda>_ s'. warming s0 k (D \<union> set (i # is)) s')" for s1
    using Cons.IH [of "insert i D" s1] Cons.prems by simp
  moreover have "i \<notin> D" using Cons.prems(5) by simp
  ultimately show ?case
    unfolding for_each.simps post_rbind
    by (intro runs_to_mono [OF warm_layer_ok [OF Cons.prems(1-3) l]])
qed simp

lemma pages_unhashed_run:
  assumes "\<forall>p \<in> set ps. p < length (blocks s) \<and> hash_at s p = None"
  shows "pages_unhashed ps s = Inr ((), s)"
  using assms by (induction ps) (auto simp: get_block_def return_def assert_that_def hash_at_def)

lemma warming_next: "warming s0 k (fst ` set (layers s0)) s \<Longrightarrow> warming s0 (Suc k) {} s"
  unfolding warming_def by (auto simp: less_Suc_eq)

lemma warm_expert_ok:
  assumes w: "warming s0 k {} s" and f: "fresh s0" and k: "k + 1 < num_super_blocks s0"
    and n: "\<forall>l \<in> snd ` set (layers s0). k < num_experts l"
  shows "runs_to (warm_expert (dict_keys (layers s0)) k s) (\<lambda>_ s'. warming s0 (Suc k) {} s')"
proof -
  have J: "inv s" and sp: "same_pool s0 s" and h: "hash_at s = hash_at s0" using w by (simp_all add: warming_def)
  have len: "length (blocks s) = length (blocks s0)" "k + 1 < num_super_blocks s" using sp k by (simp_all add: same_pool_def)
  have J0: "inv s0" using f by (simp add: fresh_def)
  have "\<forall>p \<in> set (pages_of s (k + 1)). p < length (blocks s) \<and> hash_at s p = None"
  proof
    fix p assume p: "p \<in> set (pages_of s (k + 1))"
    have "0 < pages_per_super_block s" using manager_syncedD(8) [OF J] .
    then have "0 < p" using p by (auto simp: pages_of_def)
    with pages_in_pool [OF J len(2) p] f h len(1) show "p < length (blocks s) \<and> hash_at s p = None" by (simp add: fresh_def)
  qed
  note pages = pages_unhashed_run [OF this]
  have wf: "distinct (dict_keys (layers s0))" using manager_syncedD(14) [OF J0] .
  have "\<exists>l. map_of (layers s0) i = Some l \<and> k < num_experts l" if "i \<in> set (dict_keys (layers s0))" for i
  proof -
    obtain l where "map_of (layers s0) i = Some l" using \<open>i \<in> set (dict_keys (layers s0))\<close> map_of_keys [of i "layers s0"] by auto
    moreover from this have "l \<in> snd ` set (layers s0)" by (metis image_eqI map_of_SomeD snd_conv)
    ultimately show ?thesis using n by blast
  qed
  with warm_layers_ok [OF w f k wf] have "runs_to (for_each (warm_layer k (k + 1)) (dict_keys (layers s0)) s)
      (\<lambda>_ s'. warming s0 k (fst ` set (layers s0)) s')" by simp
  then have "runs_to (for_each (warm_layer k (k + 1)) (dict_keys (layers s0)) s) (\<lambda>_ s'. warming s0 (Suc k) {} s')"
    by (rule runs_to_mono) (rule warming_next)
  then show ?thesis unfolding warm_expert_def pages rbind_simps .
qed

lemma warm_experts_ok:
  assumes "warming s0 k {} s" "fresh s0" "k + n < num_super_blocks s0" "\<forall>l \<in> snd ` set (layers s0). k + n \<le> num_experts l"
  shows "runs_to (for_each (warm_expert (dict_keys (layers s0))) [k..<k + n] s) (\<lambda>_ s'. warming s0 (k + n) {} s')"
  using assms
proof (induction n arbitrary: k s)
  case (Suc n)
  have n: "\<forall>l \<in> snd ` set (layers s0). k < num_experts l" using Suc.prems(4) by auto
  have rest: "runs_to (for_each (warm_expert (dict_keys (layers s0))) [Suc k..<Suc k + n] s1) (\<lambda>_ s'. warming s0 (Suc k + n) {} s')"
    if "warming s0 (Suc k) {} s1" for s1
    using Suc.IH [OF that Suc.prems(2)] Suc.prems(3,4) by auto
  have "[k..<k + Suc n] = k # [Suc k..<Suc k + n]" by (simp add: upt_conv_Cons)
  then show ?case
    using warm_expert_ok [OF Suc.prems(1,2) _ n] Suc.prems(3) rest
    by (auto simp del: upt_Suc simp: post_rbind elim!: runs_to_mono)
qed simp

lemma warm_check_pairs_run:
  assumes "\<forall>(e, sb) \<in> set ps. pool_w13_row l buf sb = cpu_w13_bytes l ! e \<and> pool_w2_row l buf sb = cpu_w2_bytes l ! e"
  shows "warm_check_pairs l buf ps s = Inr ((), s)"
  using assms by (induction ps) (auto simp: return_def)

lemma warm_check_layer_run:
  assumes J: "inv s" and l: "map_of (layers s) i = Some l"
  shows "warm_check_layer i s = Inr ((), s)"
proof -
  note D = manager_syncedD [OF J]
  have ok: "layer_ok (step s) l" "map_of (kv_pool_buffers s) i \<noteq> None" using D(9) l unfolding layers_ok_def by blast+
  then obtain buf where buf: "map_of (kv_pool_buffers s) i = Some buf" by blast
  have "pool_w13_row l buf sb = cpu_w13_bytes l ! e \<and> pool_w2_row l buf sb = cpu_w2_bytes l ! e"
    if "(e, sb) \<in> set (super_block_at_expert l)" for e sb
  proof -
    have "map_of (super_block_at_expert l) e = Some sb" using that ok(1) by (simp add: layer_ok_def)
    then have "map_of (expert_at_super_block l) sb = Some e" using experts.inverse [OF ok(1)] by blast
    with D(11) l buf show ?thesis unfolding bytes_ok_def by blast
  qed
  then show ?thesis using warm_check_pairs_run [of "super_block_at_expert l" l buf s] by (auto simp: warm_check_layer_def l buf)
qed

text \<open>
  The warm-up of a fresh pool puts expert \<open>e\<close> of every layer at super-block \<open>e + 1\<close>, and its
  own check of the bytes passes.
\<close>

lemma warm_up_ok:
  assumes f: "fresh s" and n: "\<forall>l \<in> snd ` set (layers s). k \<le> num_experts l" and k: "k < num_super_blocks s"
  shows "runs_to (warm_up k s) (\<lambda>_ s'. warming s k {} s')"
proof -
  have J: "inv s" using f by (simp add: fresh_def)
  have w0: "warming s 0 {} s" using f J by (simp add: warming_def fresh_def)
  show ?thesis
  proof (cases "k = 0 \<or> layers s = []")
    case True
    then have "warming s k {} s" using w0 f by (auto simp: warming_def fresh_def mapped_def)
    with True n k show ?thesis by (auto simp: warm_up_def post_rbind post_assert)
  next
    case False
    let ?is = "dict_keys (layers s)"
    have run: "warm_up k s = rbind (for_each (warm_expert ?is) [0..<k] s) (\<lambda>_. for_each warm_check_layer ?is)"
      using False n k by (simp add: warm_up_def assert_that_def return_def Let_def)
    have loop: "runs_to (for_each (warm_expert ?is) [0..<k] s) (\<lambda>_ s'. warming s k {} s')"
      using warm_experts_ok [OF w0 f, of k] n k by simp
    show ?thesis
      unfolding run post_rbind
    proof (rule runs_to_mono [OF loop])
      fix u s1 assume w: "warming s k {} s1"
      have J1: "inv s1" and "same_pool s s1" using w unfolding warming_def by blast+
      then have keys: "dict_keys (layers s1) = ?is" by (simp add: same_pool_def)
      have "for_each warm_check_layer js s1 = Inr ((), s1)" if "set js \<subseteq> fst ` set (layers s1)" for js
        using that
      proof (induction js)
        case (Cons j js)
        then obtain l where "map_of (layers s1) j = Some l" using map_of_keys [of j "layers s1"] by auto
        with Cons warm_check_layer_run [OF J1] show ?case by simp
      qed (simp add: return_def)
      moreover have "set ?is \<subseteq> fst ` set (layers s1)" using arg_cong [OF keys, of set] by simp
      ultimately show "runs_to (for_each warm_check_layer ?is s1) (\<lambda>_ s'. warming s k {} s')" using w by simp
    qed
  qed
qed

section \<open>The end of a forward pass\<close>

lemma release_pinned_ok:
  assumes J: "inv s" and l: "map_of (layers s) i = Some l"
  shows "runs_to (release_pinned i c s) (\<lambda>_ s'. inv s' \<and> same_pool s s' \<and> kv_kept s s' \<and> mapped s' = mapped s \<and>
     pins_of s' = (pins_of s)(i \<mapsto> []))"
proof -
  let ?l = "l\<lparr>pinned_super_blocks := [], forward_count := (if c then forward_count l + 1 else forward_count l)\<rparr>"
  have "layer_ok (step s) l" using manager_syncedD(9) [OF J] l unfolding layers_ok_def by blast
  then have "same_directory (step s) l ?l" by (simp add: same_directory_def layer_ok_def)
  note p = put_layer_ok [OF J l this, simplified]
  have "release_pinned i c s = Inr ((), put_layer i ?l s)" using l by (simp add: release_pinned_def on_layer_def return_def)
  moreover have "pins_of (put_layer i ?l s) = (pins_of s)(i \<mapsto> [])" by (simp add: fun_eq_iff pins_of_def)
  ultimately show ?thesis using p by simp
qed

lemma end_forward_step_ok:
  assumes J: "inv s"
  shows "inv (end_forward_step s)" "kv_kept s (end_forward_step s)" "unpinned (end_forward_step s) = unpinned s"
    "mapped (end_forward_step s) = mapped s"
proof -
  note D = manager_syncedD [OF J]
  let ?s = "end_forward_step s"
  have f: "layers ?s = layers s" "super_block_holder ?s = super_block_holder s" "kv_pool_buffers ?s = kv_pool_buffers s"
    "pages_per_super_block ?s = pages_per_super_block s" "page_size_bytes ?s = page_size_bytes s"
    "num_super_blocks ?s = num_super_blocks s" "step ?s = step s + 1" "prefix_lru ?s = prefix_lru s"
    by (simp_all add: end_forward_step_def)
  have b: "base ?s = base s" by (simp add: end_forward_step_def base_eq_iff)
  show m: "mapped ?s = mapped s" by (simp add: fun_eq_iff mapped_def f)
  have "step s \<le> step ?s" unfolding f(7) by linarith
  then have "layer_ok (step s) k \<Longrightarrow> layer_ok (step ?s) k" for k by (rule experts.later [rotated])
  moreover have "shape_ok ?s = shape_ok s" by (simp add: fun_eq_iff shape_ok_def f)
  ultimately have "layers_ok ?s" using D(9) unfolding layers_ok_def f(1,3) by auto
  moreover have "holders_of ?s = holders_of s" by (simp add: fun_eq_iff holders_of_def f)
  then have "holders_ok (holder_sets ?s) ?s" using D(10) unfolding holders_ok_def m f(2,6) by simp
  moreover have "lru_ok (cached_free s) ?s" using D(12) unfolding lru_ok_def f(7,8) by (fastforce simp: recency_ordered_def)
  moreover have "geometry_ok (length (blocks s)) ?s" using D(13) unfolding geometry_ok_def f by simp
  moreover have "bytes_ok ?s" using D(11) unfolding bytes_ok_def f by simp
  ultimately have "manager_view (length (blocks s)) (cached_free s) ?s" by (simp add: manager_view_def)
  moreover have "held_pages ?s \<subseteq> held_pages s" by (simp add: held_pages_def pages_of_def f)
  ultimately have "manager_synced (length (blocks s)) {} ?s" by (intro synced_base_view [OF J b])
  then show "inv ?s" unfolding base_views(6) [OF b] .
  show "kv_kept s ?s" by (rule kv_kept_base [OF b f(3,5)])
  show "unpinned ?s = unpinned s" by (simp add: unpinned_def f)
qed

section \<open>Writes of the attention kernel\<close>

text \<open>The attention kernel of layer \<open>i\<close> writes one page that a request holds.\<close>

definition kv_write :: "nat \<Rightarrow> nat \<Rightarrow> byte list \<Rightarrow> unified_manager \<Rightarrow> unified_manager" where
  "kv_write i p xs s =
     (case map_of (kv_pool_buffers s) i of
        None \<Rightarrow> s
      | Some buf \<Rightarrow> s\<lparr>kv_pool_buffers := AList.update i (write_at (p * page_size_bytes s) xs buf) (kv_pool_buffers s)\<rparr>)"

lemma kv_write_ok:
  assumes J: "inv s" and p: "p < length (blocks s)" "0 < ref_at s p" "0 < p" and xs: "length xs = page_size_bytes s"
  shows "inv (kv_write i p xs s)" "unpinned (kv_write i p xs s) = unpinned s" "mapped (kv_write i p xs s) = mapped s"
    "blocks (kv_write i p xs s) = blocks s" "pages_per_super_block (kv_write i p xs s) = pages_per_super_block s"
proof -
  note D = manager_syncedD [OF J]
  let ?s = "kv_write i p xs s" and ?n = "length (blocks s)" and ?page = "page_size_bytes s" and ?F = "pages_per_super_block s"
  have r: "rebuffered s ?s"
  proof (cases "map_of (kv_pool_buffers s) i")
    case (Some buf)
    then have "dict_keys (AList.update i v (kv_pool_buffers s)) = dict_keys (kv_pool_buffers s)" for v
      using map_of_keys [of i "kv_pool_buffers s"] by (simp add: update_keys)
    with Some show ?thesis unfolding kv_write_def Some option.case rebuffered_def by simp
  qed (simp add: kv_write_def)
  note f = rebuffered_fields [OF r]
  have buf: "buf' = (if j = i then write_at (p * ?page) xs buf else buf)"
    if "map_of (kv_pool_buffers s) j = Some buf" "map_of (kv_pool_buffers ?s) j = Some buf'" for j buf buf'
  proof (cases "map_of (kv_pool_buffers s) i")
    case None
    then have "?s = s" by (simp add: kv_write_def)
    with that None show ?thesis by auto
  next
    case (Some b)
    then have "map_of (kv_pool_buffers ?s) = (map_of (kv_pool_buffers s))(i \<mapsto> write_at (p * ?page) xs b)"
      by (simp add: kv_write_def del: map_of_eq_Some_iff)
    with that Some show ?thesis by (auto split: if_splits)
  qed
  have dom: "map_of (kv_pool_buffers s) j \<noteq> None" if "map_of (kv_pool_buffers ?s) j = Some b" for j b
    using that f(12) unfolding map_of_keys [symmetric] by (metis map_of_keys option.distinct(1) set_map)
  have fits: "p * ?page + length xs \<le> ?n * ?page" using page_fits [OF p(1), of ?page] xs by simp
  have "manager_view ?n (cached_free s) ?s"
  proof (rule rebuffered_view [OF D(2) r])
    show "\<forall>j b. map_of (kv_pool_buffers ?s) j = Some b \<longrightarrow> length b = ?n * ?page"
    proof (intro allI impI)
      fix j b assume b: "map_of (kv_pool_buffers ?s) j = Some b"
      then obtain a where a: "map_of (kv_pool_buffers s) j = Some a" using dom by blast
      with buf [OF a b] buffer_length [OF D(13) a] fits show "length b = ?n * ?page" by auto
    qed
    show "\<forall>j a b sb e. map_of (kv_pool_buffers s) j = Some a \<longrightarrow> map_of (kv_pool_buffers ?s) j = Some b \<longrightarrow>
       mapped s j sb e \<longrightarrow> read_at (sb * (?F * ?page)) (?F * ?page) b = read_at (sb * (?F * ?page)) (?F * ?page) a"
    proof (intro allI impI)
      fix j a b sb e
      assume a: "map_of (kv_pool_buffers s) j = Some a" and b: "map_of (kv_pool_buffers ?s) j = Some b" and m: "mapped s j sb e"
      have len: "length a = ?n * ?page" using buffer_length [OF D(13) a] .
      have "sb < ?n div ?F" using mapped_held(3) [OF D(10) m] D(13) by (simp add: geometry_ok_def)
      note sf = slot_fits [OF this, of ?page]
      have "p \<notin> held_pages s" using D(3) p(2) free_page [OF D(5)] by fastforce
      then have "p div ?F \<noteq> sb" using mapped_held(1) [OF D(10) m] held_iff [OF D(8)] by (auto simp: super_block_of_page_def)
      from slot_apart [OF D(8) this, of ?page] sf fits len xs
      have "read_at (sb * (?F * ?page)) (?F * ?page) (write_at (p * ?page) xs a) = read_at (sb * (?F * ?page)) (?F * ?page) a"
        by (intro read_write_apart) auto
      with buf [OF a b] show "read_at (sb * (?F * ?page)) (?F * ?page) b = read_at (sb * (?F * ?page)) (?F * ?page) a" by simp
    qed
  qed
  moreover have "held_pages ?s \<subseteq> held_pages s" by (simp add: held_pages_def pages_of_def f)
  ultimately have "manager_synced ?n {} ?s" by (intro synced_base_view [OF J f(1)])
  then show "inv ?s" unfolding base_views(6) [OF f(1)] .
  show "unpinned ?s = unpinned s" "mapped ?s = mapped s" by (simp_all add: unpinned_def fun_eq_iff mapped_def f)
  show "blocks ?s = blocks s" using f(1) unfolding base_eq_iff by blast
  show "pages_per_super_block ?s = pages_per_super_block s" by (rule f(4))
qed

section \<open>The machine\<close>

text \<open>
  One step of the engine. The block pool's clients keep to their contract: blocks are touched
  only when in use or found in the cache, freed only by a holder, and cached only when full,
  in use and not yet cached. KV allocation happens between forward passes, when nothing is pinned.

  \<open>reset_prefix_cache\<close> clears the hashes but does not tell the manager, whose recency list keeps the cleared pages.
  A reset that is refused changes nothing and is always a step; a reset that succeeds is a step only while the recency list
  is empty. The restriction is exact: \<open>reset_keeps_inv_iff\<close> below shows that from any state that satisfies the invariant a
  successful reset leads to a state that satisfies it if and only if the recency list was empty.
\<close>

inductive pool_step :: "unified_manager \<Rightarrow> unified_manager \<Rightarrow> bool" where
  allocate: "unpinned s \<Longrightarrow> get_new_blocks manager_callbacks n s = Inr (bs, s') \<Longrightarrow> pool_step s s'"
| touch: "\<forall>b \<in> set bs. b < length (blocks s) \<and> (b = 0 \<or> 0 < ref_at s b \<or> hash_at s b \<noteq> None) \<Longrightarrow>
     touch manager_callbacks bs s = Inr ((), s') \<Longrightarrow> pool_step s s'"
| free: "may_free bs s \<Longrightarrow> free_blocks manager_callbacks bs s = Inr ((), s') \<Longrightarrow> pool_step s s'"
| cache: "enable_caching s \<Longrightarrow> 0 \<le> gid \<Longrightarrow> gid < 2 ^ 32 \<Longrightarrow>
     \<forall>b \<in> set (take (nf - nc) (drop nc blks)). b < length (blocks s) \<and> (b \<noteq> 0 \<longrightarrow> 0 < ref_at s b \<and> hash_at s b = None) \<Longrightarrow>
     distinct (filter (\<lambda>b. b \<noteq> 0) blks) \<Longrightarrow> nc < nf \<Longrightarrow> nf \<le> length blks \<Longrightarrow> nf \<le> length (block_hashes r) \<Longrightarrow>
     nf \<le> length (group_hashes (hash_block_size s) bs r) \<Longrightarrow>
     cache_full_blocks sha r blks nc nf bs gid s = Inr (r', s') \<Longrightarrow> pool_step s s'"
| evict: "\<forall>b \<in> set bs. b < length (blocks s) \<Longrightarrow> evict_blocks manager_callbacks bs s = Inr ((), s') \<Longrightarrow> pool_step s s'"
| reset: "reset_prefix_cache s = (ok, s') \<Longrightarrow> (ok \<longrightarrow> lru_items (prefix_lru s) = []) \<Longrightarrow> pool_step s s'"
| events: "take_events s = (evs, s') \<Longrightarrow> pool_step s s'"
| kernel: "p < length (blocks s) \<Longrightarrow> 0 < ref_at s p \<Longrightarrow> 0 < p \<Longrightarrow> length xs = page_size_bytes s \<Longrightarrow>
     pool_step s (kv_write i p xs s)"
| load: "map_of (layers s) i = Some l \<Longrightarrow> pinned_super_blocks l = [] \<Longrightarrow> distinct needed \<Longrightarrow>
     \<forall>e \<in> set needed. e < num_experts l \<Longrightarrow> ensure_loaded i needed s = Inr ((), s') \<Longrightarrow> pool_step s s'"
| load_fails: "map_of (layers s) i = Some l \<Longrightarrow> pinned_super_blocks l = [] \<Longrightarrow> distinct needed \<Longrightarrow>
     \<forall>e \<in> set needed. e < num_experts l \<Longrightarrow> ensure_loaded i needed s = Inl (err, s') \<Longrightarrow> pool_step s s'"
| release: "map_of (layers s) i = Some l \<Longrightarrow> release_pinned i c s = Inr ((), s') \<Longrightarrow> pool_step s s'"
| finish: "pool_step s (end_forward_step s)"

text \<open>What holds in every reachable state.\<close>

definition engine_inv :: "unified_manager \<Rightarrow> bool" where
  "engine_inv s \<longleftrightarrow> inv s \<and> whole_super_blocks s"

lemma engine_invI:
  assumes "engine_inv s" "manager_synced (length (blocks s)) {} s'" "length (blocks s') = length (blocks s)" "frozen s' = frozen s"
  shows "engine_inv s'"
  using assms by (simp add: engine_inv_def whole_super_blocks_def frozen_def)

lemma engine_inv_same_pool:
  assumes "engine_inv s" "inv s'" "same_pool s s'"
  shows "engine_inv s'"
  using assms same_pool_views(4) by (auto simp: engine_inv_def)

text \<open>Updates of the pool that keep its counts and its queue and leave the manager alone.\<close>

lemma engine_inv_same_more:
  assumes J: "engine_inv s" and m: "block_pool.more s' = block_pool.more s" and p: "pool_inv {} s'"
    and f: "length (blocks s') = length (blocks s)" "free_set s' = free_set s"
    and h: "\<And>i. i < length (blocks s) \<Longrightarrow> hash_at s' i = hash_at s i \<or> hash_at s' i = None"
  shows "engine_inv s' \<longleftrightarrow> lru_ok (cached_free s') s"
proof -
  note D = manager_syncedD [OF J [unfolded engine_inv_def, THEN conjunct1]]
  note v = view_more [OF m]
  have w: "whole_super_blocks s'" using J by (simp add: engine_inv_def whole_super_blocks_def v f)
  have "\<And>i. i \<in> free_set s \<Longrightarrow> i < length (blocks s)" using free_page [OF D(5)] by blast
  then have "held_pages s' \<subseteq> {p \<in> free_set s'. hash_at s' p = None}" unfolding v(2) f(2) using D(3) h by fastforce
  then have "engine_inv s' \<longleftrightarrow> manager_view (length (blocks s)) (cached_free s') s'"
    using p w f by (simp add: engine_inv_def synced_def listens_def)
  also have "\<dots> \<longleftrightarrow> lru_ok (cached_free s') s"
    unfolding v(1) using D(2) by (simp add: manager_view_def)
  finally show ?thesis .
qed

lemma reset_fields:
  assumes "reset_prefix_cache s = (True, s')"
  shows "block_pool.more s' = block_pool.more s" "length (blocks s') = length (blocks s)" "free_block_queue s' = free_block_queue s"
    "enable_caching s' = enable_caching s" "hash_block_size s' = hash_block_size s"
    "i < length (blocks s) \<Longrightarrow> ref_at s' i = ref_at s i" "i < length (blocks s) \<Longrightarrow> hash_at s' i = None"
  using assms by (auto simp: reset_prefix_cache_def Let_def ref_at_def hash_at_def split: if_splits)

lemma reset_keeps_inv_iff:
  assumes J: "engine_inv s" and run: "reset_prefix_cache s = (True, s')"
  shows "engine_inv s' \<longleftrightarrow> lru_items (prefix_lru s) = []"
proof -
  note D = manager_syncedD [OF J [unfolded engine_inv_def, THEN conjunct1]]
  note f = reset_fields [OF run]
  have p: "pool_inv {} s'" "\<forall>i < length (blocks s). hash_at s' i = None"
    using reset_prefix_cache_ok(2) [OF D(1) run] by simp_all
  have fs: "free_set s' = free_set s" by (simp add: free_set_def f)
  have "cached_free s' = {}" using p(2) free_page [OF D(5)] by (auto simp: cached_free_def fs)
  then have "engine_inv s' \<longleftrightarrow> lru_ok {} s" using engine_inv_same_more [OF J f(1) p(1) f(2) fs] p(2) by auto
  then show ?thesis using D(12) by (auto simp: lru_ok_def recency_ordered_def)
qed

lemma take_events_fields:
  assumes "take_events s = (evs, s')"
  shows "block_pool.more s' = block_pool.more s" "blocks s' = blocks s" "free_block_queue s' = free_block_queue s"
    "enable_caching s' = enable_caching s" "hash_block_size s' = hash_block_size s" "ref_at s' = ref_at s" "hash_at s' = hash_at s"
    "pool_inv fl s' = pool_inv fl s"
proof -
  have "s' = s \<or> s' = s\<lparr>kv_event_queue := []\<rparr>" using assms by (auto simp: take_events_def split: if_splits)
  then show "block_pool.more s' = block_pool.more s" "blocks s' = blocks s" "free_block_queue s' = free_block_queue s"
    "enable_caching s' = enable_caching s" "hash_block_size s' = hash_block_size s"
    "ref_at s' = ref_at s" "hash_at s' = hash_at s" "pool_inv fl s' = pool_inv fl s"
    by (elim disjE; simp add: ref_at_def hash_at_def fun_eq_iff pool_inv_def queue_ok_def cache_ok_def ids_ok_def free_set_def)+
qed

lemma take_events_inv:
  assumes J: "engine_inv s" and run: "take_events s = (evs, s')"
  shows "engine_inv s'"
proof -
  note D = manager_syncedD [OF J [unfolded engine_inv_def, THEN conjunct1]]
  note f = take_events_fields [OF run]
  have fs: "free_set s' = free_set s" "cached_free s' = cached_free s" by (simp_all add: free_set_def cached_free_def f)
  from engine_inv_same_more [OF J f(1) _ _ fs(1)] D(1,12) show ?thesis by (simp add: f fs(2))
qed

lemma pool_step_inv:
  assumes "pool_step s s'" "engine_inv s"
  shows "engine_inv s'"
  using assms
proof (induction rule: pool_step.induct)
  case (allocate s n bs s')
  have "int n \<le> get_num_free_blocks s" using allocate(2) by (auto simp: get_new_blocks_def raise_def split: if_splits)
  from manager_get_new_blocks [of "length (blocks s)" s n] this allocate show ?case
    by (intro engine_invI [OF allocate(3)]) (auto simp: engine_inv_def claimed_def)
next
  case (touch bs s s')
  from manager_touch [of "length (blocks s)" s bs] touch show ?case
    by (intro engine_invI [OF touch(3)]) (auto simp: engine_inv_def rereffed_def)
next
  case (free bs s s')
  from manager_free_blocks [of "length (blocks s)" s bs] free show ?case
    by (intro engine_invI [OF free(3)]) (auto simp: engine_inv_def rereffed_def)
next
  case (cache s gid nf nc blks r bs sha r' s')
  have "manager_synced (length (blocks s)) {} s" using cache(11) by (simp add: engine_inv_def)
  from manager_cache_full_blocks [OF this cache(1-9), of sha] cache(10) show ?case
    by (intro engine_invI [OF cache(11)]) auto
next
  case (evict bs s s')
  from manager_evict_blocks [of "length (blocks s)" s bs] evict show ?case
    by (intro engine_invI [OF evict(3)]) (auto simp: engine_inv_def)
next
  case (reset s ok s')
  show ?case
  proof (cases ok)
    case True
    with reset reset_keeps_inv_iff [of s s'] show ?thesis by simp
  next
    case False
    have "pool_inv {} s" using reset(3) by (simp add: engine_inv_def synced_def listens_def)
    from reset_prefix_cache_ok(3) [OF this reset(1) False] reset(3) show ?thesis by simp
  qed
next
  case (events s evs s')
  then show ?case by (rule take_events_inv [rotated])
next
  case (kernel p s xs i)
  then have "inv s" by (simp add: engine_inv_def)
  from kv_write_ok [OF this kernel(1-4), of i] kernel show ?case by (simp add: engine_inv_def whole_super_blocks_def)
next
  case (load s i l needed s')
  then have "inv s" "whole_super_blocks s" by (simp_all add: engine_inv_def)
  from ensure_loaded_ok [OF this load(1-4)] load(5) have "loaded i needed s s'" by simp
  then show ?case by (intro engine_inv_same_pool [OF load(6)]) (auto simp: loaded_def)
next
  case (load_fails s i l needed err s')
  then have "inv s" "whole_super_blocks s" by (simp_all add: engine_inv_def)
  from ensure_loaded_ok [OF this load_fails(1-4)] load_fails(5) have "unwound i s s'" by simp
  then show ?case by (intro engine_inv_same_pool [OF load_fails(6)]) (auto simp: unwound_def)
next
  case (release s i l c s')
  then have "inv s" by (simp add: engine_inv_def)
  from release_pinned_ok [OF this release(1), of c] release(2) show ?case
    by (intro engine_inv_same_pool [OF release(3)]) auto
next
  case (finish s)
  then have "inv s" by (simp add: engine_inv_def)
  from end_forward_step_ok(1) [OF this] finish show ?case
    by (simp add: engine_inv_def whole_super_blocks_def) (simp add: end_forward_step_def)
qed

text \<open>Runs of the engine from a constructed and warmed-up pool.\<close>

inductive reachable :: "unified_manager \<Rightarrow> unified_manager \<Rightarrow> bool" for s0 where
  start: "reachable s0 s0"
| step: "reachable s0 s \<Longrightarrow> pool_step s s' \<Longrightarrow> reachable s0 s'"

lemma reachable_inv: "reachable s0 s \<Longrightarrow> engine_inv s0 \<Longrightarrow> engine_inv s"
  by (induction rule: reachable.induct) (auto intro: pool_step_inv)

lemma warming_unpinned:
  assumes "fresh s" "warming s k {} s'"
  shows "unpinned s'"
proof -
  have w: "inv s'" "pins_of s' = pins_of s" using assms(2) by (simp_all add: warming_def)
  show "unpinned s'"
    unfolding unpinned_def
  proof
    fix l assume "l \<in> snd ` set (layers s')"
    then obtain i where "(i, l) \<in> set (layers s')" by auto
    with manager_syncedD(14) [OF w(1)] have i: "map_of (layers s') i = Some l" by simp
    then have "pins_of s' i = Some (pinned_super_blocks l)" by (simp add: pins_of_def)
    then have "pins_of s i = Some (pinned_super_blocks l)" unfolding w(2) .
    then obtain l0 where l0: "map_of (layers s) i = Some l0" "pinned_super_blocks l0 = pinned_super_blocks l"
      by (auto simp: pins_of_def)
    then have "l0 \<in> snd ` set (layers s)" by (metis image_eqI map_of_SomeD snd_conv)
    moreover have "unpinned s" using assms(1) by (simp add: fresh_def)
    ultimately show "pinned_super_blocks l = []" using l0(2) unfolding unpinned_def by metis
  qed
qed

lemma warmed_inv:
  assumes "fresh s" "whole_super_blocks s" "warming s k {} s'"
  shows "engine_inv s'"
proof -
  have w: "inv s'" "same_pool s s'" using assms(3) by (simp_all add: warming_def)
  have "engine_inv s" using assms(1,2) by (simp add: engine_inv_def fresh_def)
  from engine_inv_same_pool [OF this w] show ?thesis .
qed

text \<open>Every state the engine reaches after the warm-up of a freshly built pool.\<close>

lemma engine_run:
  assumes "fresh s0" "whole_super_blocks s0" "\<forall>l \<in> snd ` set (layers s0). k \<le> num_experts l" "k < num_super_blocks s0"
    and "warm_up k s0 = Inr ((), s1)" "reachable s1 s"
  shows "inv s" "whole_super_blocks s"
proof -
  have "warming s0 k {} s1" using warm_up_ok [OF assms(1,3,4)] unfolding assms(5) by simp
  from reachable_inv [OF assms(6) warmed_inv [OF assms(1,2) this]] show "inv s" "whole_super_blocks s"
    by (simp_all add: engine_inv_def)
qed

end
