(* ===== verification/Pool_Example.thy ===== *)
theory Pool_Example
  imports Pool_Machine
begin

text \<open>
  A small pool on which the theorems are exercised: eight pages of one byte, two pages per
  super-block, one layer with two experts. The states follow a short run of the engine:
  construction, warm-up of expert 0, three pages allocated, cached and freed.
\<close>

section \<open>The states\<close>

definition final :: "('s, 'a) res \<Rightarrow> 's" where
  "final r = (case r of Inl (_, s) \<Rightarrow> s | Inr (_, s) \<Rightarrow> s)"

definition outcome :: "('s, 'a) res \<Rightarrow> error + 'a" where
  "outcome r = (case r of Inl (e, _) \<Rightarrow> Inl e | Inr (a, _) \<Rightarrow> Inr a)"

lemma final_simps [simp]: "final (Inl (e, s)) = s" "final (Inr (a, s)) = s"
  by (simp_all add: final_def)

lemma outcome_run: "outcome r = Inr a \<Longrightarrow> r = Inr (a, final r)"
  by (auto simp: outcome_def final_def split: sum.splits)

definition demo_layer :: unified_layer where
  "demo_layer = projr (unified_layer_init 0 2 [[1], [2]] [[3], [4]] 8 1 2 1 1 1)"

definition demo_blocks :: block_pool where
  "demo_blocks = projr (block_pool_init 8 True 16 False False)"

definition demo_built :: unified_manager where
  "demo_built = projr (manager_init demo_blocks 2 1 [(0, replicate 8 0)] True True)"

definition demo_fresh :: unified_manager where
  "demo_fresh = final (register_layer demo_layer demo_built)"

definition demo_warm :: unified_manager where
  "demo_warm = final (warm_up 1 demo_fresh)"

definition demo_request :: request where
  "demo_request = (text_request [])\<lparr>block_hashes := [[1], [2], [3]]\<rparr>"

definition demo_live :: unified_manager where
  "demo_live = final (get_new_blocks manager_callbacks 3 demo_warm)"

definition demo_cached :: unified_manager where
  "demo_cached = final (rbind (cache_full_blocks id demo_request [1, 4, 5] 0 3 16 0 demo_live) (\<lambda>_.
     free_blocks manager_callbacks [5, 4, 1]))"

text \<open>Every page outside the expert's super-block is in use.\<close>

definition demo_full :: unified_manager where
  "demo_full = final (get_new_blocks manager_callbacks 5 demo_warm)"

section \<open>They are reachable\<close>

lemma demo_layer_init: "unified_layer_init 0 2 [[1], [2]] [[3], [4]] 8 1 2 1 1 1 = Inr demo_layer"
  by code_simp

lemma demo_built_ok: "inv demo_built" "unpinned demo_built" "base demo_built = demo_blocks" "layers demo_built = []"
  "pages_per_super_block demo_built = 2" "page_size_bytes demo_built = 1" "num_super_blocks demo_built = 4"
  "kv_pool_buffers demo_built = [(0, replicate 8 0)]" "step demo_built = 0"
proof -
  obtain bp where bp: "block_pool_init 8 True 16 False False = Inr bp" "pool_inv {} bp" "length (blocks bp) = 8"
    "\<forall>i<8. ref_at bp i = 0 \<and> hash_at bp i = None"
    using block_pool_init_ok [of 8 True 16 False False] by auto
  then have b: "bp = demo_blocks" by (simp add: demo_blocks_def)
  have n: "num_gpu_blocks demo_blocks = 8" by code_simp
  obtain s where s: "manager_init demo_blocks 2 1 [(0, replicate 8 0)] True True = Inr s" "inv s" "unpinned s" "base s = demo_blocks"
    "layers s = []" "pages_per_super_block s = 2" "page_size_bytes s = 1" "kv_pool_buffers s = [(0, replicate 8 0)]"
    "num_super_blocks s = 8 div 2"
    using manager_init_ok [of bp 2 1 "[(0, replicate 8 0)]" True True] bp(2,3,4) n unfolding b by auto
  then have e: "s = demo_built" by (simp add: demo_built_def)
  from s show "inv demo_built" "unpinned demo_built" "base demo_built = demo_blocks" "layers demo_built = []"
    "pages_per_super_block demo_built = 2" "page_size_bytes demo_built = 1" "num_super_blocks demo_built = 4"
    "kv_pool_buffers demo_built = [(0, replicate 8 0)]" unfolding e by simp_all
  show "step demo_built = 0" by code_simp
qed

lemma demo_layer_ok: "layer_ok 0 demo_layer" "expert_at_super_block demo_layer = []" "pinned_super_blocks demo_layer = []"
  "shape_ok demo_built demo_layer"
proof -
  note ok = unified_layer_init_ok [OF demo_layer_init]
  from ok show "layer_ok 0 demo_layer" "expert_at_super_block demo_layer = []" "pinned_super_blocks demo_layer = []" by blast+
  have "expert_slot_bytes demo_layer = 2" by code_simp
  moreover have "[[1], [2]] ! e = [[1 :: byte], [2]] ! e \<and> length ([[1 :: byte], [2]] ! e) = 1 \<and> length ([[3 :: byte], [4]] ! e) = 1"
    if "e < 2" for e :: nat
    using that by (cases e) auto
  ultimately show "shape_ok demo_built demo_layer" using ok by (simp add: shape_ok_def demo_built_ok)
qed

lemma demo_fresh_ok: "fresh demo_fresh" "whole_super_blocks demo_fresh" "num_super_blocks demo_fresh = 4"
  "layers demo_fresh = [(0, demo_layer)]"
proof -
  have idx: "layer_idx demo_layer = 0" "layer_pages_per_super_block demo_layer = 2" "layer_num_super_blocks demo_layer = 4" by code_simp+
  have "runs_to (register_layer demo_layer demo_built) (\<lambda>_ s'. inv s' \<and> s' = put_layer (layer_idx demo_layer) demo_layer demo_built \<and>
      (unpinned demo_built \<longrightarrow> unpinned s') \<and> mapped s' = mapped demo_built)"
    by (rule register_layer_ok) (simp_all add: demo_built_ok demo_layer_ok idx)
  then obtain s where s: "register_layer demo_layer demo_built = Inr ((), s)" "inv s" "s = put_layer 0 demo_layer demo_built"
    "unpinned s" "mapped s = mapped demo_built" by (auto simp: demo_built_ok idx elim!: runs_toE)
  then have e: "s = demo_fresh" by (simp add: demo_fresh_def)
  have d: "demo_fresh = put_layer 0 demo_layer demo_built" using s(3) unfolding e .
  show "layers demo_fresh = [(0, demo_layer)]" unfolding d by (simp add: put_layer_def demo_built_ok(4))
  show "num_super_blocks demo_fresh = 4" unfolding d by (simp add: put_layer_def demo_built_ok(7))
  have b: "map ref_cnt (blocks demo_fresh) = replicate 8 0 \<and> map block_hash (blocks demo_fresh) = replicate 8 None" by code_simp
  then have len: "length (blocks demo_fresh) = 8" by (metis length_map length_replicate)
  have "ref_at demo_fresh p = map ref_cnt (blocks demo_fresh) ! p \<and> hash_at demo_fresh p = map block_hash (blocks demo_fresh) ! p"
    if "p < 8" for p using that len by (simp add: ref_at_def hash_at_def)
  then have "ref_at demo_fresh p = 0 \<and> hash_at demo_fresh p = None" if "p < 8" for p using that b by simp
  moreover have "\<not> mapped demo_fresh i b d" for i b d using s(5) unfolding e by (simp add: mapped_def demo_built_ok)
  ultimately show "fresh demo_fresh" using s(2,4) len unfolding e fresh_def by simp
  have "pages_per_super_block demo_fresh = 2" unfolding d by (simp add: demo_built_ok(5) put_layer_def)
  then show "whole_super_blocks demo_fresh" using len by (simp add: whole_super_blocks_def)
qed

lemma demo_warm_ok: "warm_up 1 demo_fresh = Inr ((), demo_warm)" "engine_inv demo_warm" "unpinned demo_warm"
proof -
  have "num_experts demo_layer = 2" by code_simp
  then have "runs_to (warm_up 1 demo_fresh) (\<lambda>_ s'. warming demo_fresh 1 {} s')"
    using warm_up_ok [OF demo_fresh_ok(1), of 1] by (simp add: demo_fresh_ok)
  then obtain s where s: "warm_up 1 demo_fresh = Inr ((), s)" "warming demo_fresh 1 {} s" by (auto elim: runs_toE)
  then have e: "s = demo_warm" by (simp add: demo_warm_def)
  from s(1) show "warm_up 1 demo_fresh = Inr ((), demo_warm)" unfolding e .
  from warmed_inv [OF demo_fresh_ok(1,2) s(2)] warming_unpinned [OF demo_fresh_ok(1) s(2)] show "engine_inv demo_warm" "unpinned demo_warm" unfolding e by simp_all
qed

lemma demo_live_run: "get_new_blocks manager_callbacks 3 demo_warm = Inr ([1, 4, 5], demo_live)"
  unfolding demo_live_def by (rule outcome_run) code_simp

lemma demo_cached_run:
  "cache_full_blocks id demo_request [1, 4, 5] 0 3 16 0 demo_live =
     Inr (demo_request, final (cache_full_blocks id demo_request [1, 4, 5] 0 3 16 0 demo_live))"
  "free_blocks manager_callbacks [5, 4, 1] (final (cache_full_blocks id demo_request [1, 4, 5] 0 3 16 0 demo_live)) =
     Inr ((), demo_cached)"
proof -
  show 1: "cache_full_blocks id demo_request [1, 4, 5] 0 3 16 0 demo_live =
     Inr (demo_request, final (cache_full_blocks id demo_request [1, 4, 5] 0 3 16 0 demo_live))"
    by (rule outcome_run) code_simp
  have "outcome (free_blocks manager_callbacks [5, 4, 1] (final (cache_full_blocks id demo_request [1, 4, 5] 0 3 16 0 demo_live))) = Inr ()"
    by code_simp
  moreover have "demo_cached = final (free_blocks manager_callbacks [5, 4, 1] (final (cache_full_blocks id demo_request [1, 4, 5] 0 3 16 0 demo_live)))"
    unfolding demo_cached_def by (subst 1) simp
  ultimately show "free_blocks manager_callbacks [5, 4, 1] (final (cache_full_blocks id demo_request [1, 4, 5] 0 3 16 0 demo_live)) =
     Inr ((), demo_cached)" by (metis outcome_run)
qed

lemma at_views: "ref_at s p = ref_cnt (blocks s ! p)" "hash_at s p = block_hash (blocks s ! p)"
  by (simp_all add: ref_at_def hash_at_def)

lemma demo_reachable: "reachable demo_warm demo_live" "reachable demo_warm demo_cached"
proof -
  show live: "reachable demo_warm demo_live"
    using pool_step.allocate [OF demo_warm_ok(3) demo_live_run] by (rule reachable.step [OF reachable.start])
  let ?s = "final (cache_full_blocks id demo_request [1, 4, 5] 0 3 16 0 demo_live)"
  have "pool_step demo_live ?s"
    by (rule pool_step.cache [OF _ _ _ _ _ _ _ _ _ demo_cached_run(1)]) (simp_all, code_simp+)
  moreover have "pool_step ?s demo_cached"
    by (rule pool_step.free [OF _ demo_cached_run(2)]) code_simp
  ultimately show "reachable demo_warm demo_cached" using live by (blast intro: reachable.step)
qed

lemma demo_full_run: "get_new_blocks manager_callbacks 5 demo_warm = Inr ([1, 4, 5, 6, 7], demo_full)"
  unfolding demo_full_def by (rule outcome_run) code_simp

lemma demo_inv: "engine_inv demo_live" "engine_inv demo_cached" "engine_inv demo_full"
  using reachable_inv [OF demo_reachable(1) demo_warm_ok(2)] reachable_inv [OF demo_reachable(2) demo_warm_ok(2)]
    pool_step_inv [OF pool_step.allocate [OF demo_warm_ok(3) demo_full_run] demo_warm_ok(2)] by blast+

lemma demo_lookup: "map_of (layers demo_cached) 0 = Some (the (map_of (layers demo_cached) 0))"
  "pinned_super_blocks (the (map_of (layers demo_cached) 0)) = []" "num_experts (the (map_of (layers demo_cached) 0)) = 2"
  "map_of (layers demo_full) 0 = Some (the (map_of (layers demo_full) 0))"
  "pinned_super_blocks (the (map_of (layers demo_full) 0)) = []" "num_experts (the (map_of (layers demo_full) 0)) = 2"
  by code_simp+

lemma demo_vacatable: "vacatable 2 demo_cached" "vacatable 3 demo_cached"
  by code_simp+

lemma demo_full_load: "ensure_loaded 0 [0, 1] demo_full =
    Inl (RuntimeError ''pool exhausted while resolving expert miss'', final (ensure_loaded 0 [0, 1] demo_full))"
proof -
  have "outcome (ensure_loaded 0 [0, 1] demo_full) = Inl (RuntimeError ''pool exhausted while resolving expert miss'')" by code_simp
  then show ?thesis by (auto simp: outcome_def final_def split: sum.splits)
qed

end
