(* ===== verification/Expert_Kernel.thy ===== *)
theory Expert_Kernel
  imports Pool_Prelude
begin

text \<open>
  What both expert-offload paths of \<open>FusedMoE\<close> share: the fused kernel, which is code of a
  quantisation method and a parameter here, and the contract of a store of expert weights.
  A store loads the experts a batch needs and gives each a row of the weight tensors that the
  kernel is handed instead of the full ones; the forward pass rewrites the expert ids to rows.
\<close>

section \<open>The kernel\<close>

text \<open>
  \<open>quant_method.apply\<close>: the rows of the two weight tensors by id, and the ids of the experts of
  the tokens, flattened. The hidden states and routing weights are fixed.
\<close>

type_synonym 'r kernel = "(int \<Rightarrow> byte list) \<Rightarrow> (int \<Rightarrow> byte list) \<Rightarrow> int list \<Rightarrow> error + 'r"

text \<open>What the forward pass relies on: the kernel uses an id only to pick a weight row.\<close>

definition reads_rows_by_id :: "'r kernel \<Rightarrow> bool" where
  "reads_rows_by_id apply \<longleftrightarrow> (\<forall>w13 w2 ids w13' w2' ids'.
     map w13 ids = map w13' ids' \<and> map w2 ids = map w2' ids' \<longrightarrow> apply w13 w2 ids = apply w13' w2' ids')"

text \<open>\<open>topk_ids.unique().tolist()\<close>: sorted and without duplicates.\<close>

definition unique_ids :: "nat list \<Rightarrow> nat list" where
  "unique_ids ids = sort (remdups ids)"

lemma unique_ids [simp]: "set (unique_ids ids) = set ids" "distinct (unique_ids ids)"
  by (simp_all add: unique_ids_def)

text \<open>\<open>table[topk_ids]\<close>.\<close>

definition gather :: "int list \<Rightarrow> nat list \<Rightarrow> error + int list" where
  "gather table ids = (if \<forall>e \<in> set ids. e < length table then Inr (map ((!) table) ids) else Inl IndexError)"

section \<open>Stores of expert weights\<close>

text \<open>
  \<open>valid needed s\<close> is what a caller guarantees. A load that returns has put every needed expert
  behind its row, and it returns when the store has room for all of them.
\<close>

locale expert_store =
  fixes valid :: "nat list \<Rightarrow> 's \<Rightarrow> bool"
    and capacity :: "'s \<Rightarrow> nat"
    and load :: "nat list \<Rightarrow> 's \<Rightarrow> ('s, unit) res"
    and table :: "'s \<Rightarrow> int list"
    and view13 view2 :: "'s \<Rightarrow> int \<Rightarrow> byte list"
    and cpu13 cpu2 :: "'s \<Rightarrow> nat \<Rightarrow> byte list"
  assumes load_rows: "valid needed s \<Longrightarrow> post (load needed s) (\<lambda>_ s'. \<forall>e \<in> set needed. e < length (table s') \<and>
       view13 s' (table s' ! e) = cpu13 s e \<and> view2 s' (table s' ! e) = cpu2 s e) (\<lambda>_ _. True)"
    and load_fits: "valid needed s \<Longrightarrow> length needed \<le> capacity s \<Longrightarrow> runs_to (load needed s) (\<lambda>_ _. True)"
begin

text \<open>The kernel on the full weights with the expert ids the router chose.\<close>

definition on_full_weights :: "'r kernel \<Rightarrow> nat list \<Rightarrow> 's \<Rightarrow> error + 'r" where
  "on_full_weights apply ids s = apply (\<lambda>e. cpu13 s (nat e)) (\<lambda>e. cpu2 s (nat e)) (map int ids)"

text \<open>The kernel on the rewritten ids and the store's rows computes what it computes on the full weights.\<close>

lemma load_then_kernel:
  assumes "valid (unique_ids ids) s" "reads_rows_by_id apply" "load (unique_ids ids) s = Inr (u, s')"
  shows "\<exists>rows. gather (table s') ids = Inr rows \<and> apply (view13 s') (view2 s') rows = on_full_weights apply ids s"
proof -
  have a: "\<forall>e \<in> set (unique_ids ids). e < length (table s') \<and>
       view13 s' (table s' ! e) = cpu13 s e \<and> view2 s' (table s' ! e) = cpu2 s e"
    using load_rows [OF assms(1)] unfolding assms(3) by simp
  then have "gather (table s') ids = Inr (map ((!) (table s')) ids)" by (simp add: gather_def)
  moreover have "apply (view13 s') (view2 s') (map ((!) (table s')) ids) = on_full_weights apply ids s"
  proof -
    have "map (view13 s') (map ((!) (table s')) ids) = map (\<lambda>e. cpu13 s (nat e)) (map int ids)"
      "map (view2 s') (map ((!) (table s')) ids) = map (\<lambda>e. cpu2 s (nat e)) (map int ids)"
      using a by simp_all
    with assms(2) show ?thesis unfolding reads_rows_by_id_def on_full_weights_def by blast
  qed
  ultimately show ?thesis by blast
qed

lemma fitting_batch_loads:
  assumes "valid (unique_ids ids) s" "card (set ids) \<le> capacity s"
  shows "\<exists>s'. load (unique_ids ids) s = Inr ((), s')"
proof -
  have "length (unique_ids ids) = card (set ids)" using distinct_card [OF unique_ids(2), of ids] by simp
  with load_fits [OF assms(1)] assms(2) show ?thesis by (auto elim: runs_toE)
qed

end

end
