(* ===== verification/Expert_Cache.thy ===== *)
theory Expert_Cache
  imports Expert_Kernel
begin

text \<open>
  \<open>vllm/model_executor/layers/fused_moe/expert_cache.py\<close>: the fixed-size LRU cache of expert
  weights that the unified pool replaces, and the forward pass through it in
  \<open>fused_moe/layer.py\<close>. Weights are rows of bytes; copies on the transfer stream are done
  when the method returns, as the compute stream waits for them. Trace output is left out.
\<close>

section \<open>State and operations\<close>

record expert_cache =
  cache_size :: nat
  cache_num_experts :: nat
  cpu_w13 :: "byte list list"
  cpu_w2 :: "byte list list"
  cache_w13 :: "byte list list"
  cache_w2 :: "byte list list"
  expert_to_slot :: "(nat, nat) dict"
  lru_order :: "nat list"
  slot_of_expert :: "int list"
  cache_hits :: nat
  cache_misses :: nat

text \<open>\<open>slot_of_expert[e] = v\<close>.\<close>

definition set_slot :: "nat \<Rightarrow> int \<Rightarrow> expert_cache \<Rightarrow> (expert_cache, unit) res" where
  "set_slot e v c =
     (if e < length (slot_of_expert c) then return () (c\<lparr>slot_of_expert := (slot_of_expert c)[e := v]\<rparr>) else raise IndexError c)"

text \<open>\<open>cache_w13[slot].copy_(cpu_w13[e])\<close> and the same for \<open>w2\<close>.\<close>

definition copy_expert :: "nat \<Rightarrow> nat \<Rightarrow> expert_cache \<Rightarrow> (expert_cache, unit) res" where
  "copy_expert e slot c =
     (if e < length (cpu_w13 c) \<and> slot < length (cache_w13 c) \<and> e < length (cpu_w2 c) \<and> slot < length (cache_w2 c)
      then return () (c\<lparr>cache_w13 := (cache_w13 c)[slot := cpu_w13 c ! e], cache_w2 := (cache_w2 c)[slot := cpu_w2 c ! e]\<rparr>)
      else raise IndexError c)"

definition warm_slot :: "nat \<Rightarrow> expert_cache \<Rightarrow> (expert_cache, unit) res" where
  "warm_slot slot c =
     rbind (copy_expert slot slot c) (\<lambda>_ c.
       set_slot slot (int slot) (c\<lparr>expert_to_slot := AList.update slot slot (expert_to_slot c),
                                  lru_order := set_add slot (lru_order c)\<rparr>))"

definition warm_cache :: "expert_cache \<Rightarrow> (expert_cache, unit) res" where
  "warm_cache c = for_each warm_slot [0..<cache_size c] c"

text \<open>\<open>__init__\<close>: \<open>raw13\<close> and \<open>raw2\<close> are what \<open>torch.empty\<close> returns, rows of unspecified bytes.\<close>

definition expert_cache_init ::
  "nat \<Rightarrow> byte list list \<Rightarrow> byte list list \<Rightarrow> byte list list \<Rightarrow> byte list list \<Rightarrow> (expert_cache, unit) res" where
  "expert_cache_init n w13 w2 raw13 raw2 =
     (let c = \<lparr>cache_size = n, cache_num_experts = length w13, cpu_w13 = w13, cpu_w2 = w2, cache_w13 = raw13, cache_w2 = raw2,
               expert_to_slot = [], lru_order = [], slot_of_expert = replicate (length w13) (- 1), cache_hits = 0, cache_misses = 0\<rparr>
      in rbind (assert_that (n \<le> length w13) ''cache_size must be <= num_experts'' c) (\<lambda>_. warm_cache))"

text \<open>
  The assignment loop of \<open>ensure_experts_loaded\<close>: \<open>cands\<close> is the iterator over eviction
  candidates, \<open>acc\<close> the copies to do.
\<close>

fun assign_loop :: "nat list \<Rightarrow> nat list \<Rightarrow> (nat \<times> nat) list \<Rightarrow> expert_cache \<Rightarrow> (expert_cache, (nat \<times> nat) list) res" where
  "assign_loop [] cands acc c = return acc c"
| "assign_loop (e # es) [] acc c = raise StopIteration c"
| "assign_loop (e # es) (v # vs) acc c =
     (case map_of (expert_to_slot c) v of
        None \<Rightarrow> raise KeyError c
      | Some slot \<Rightarrow>
          (let c1 = c\<lparr>expert_to_slot := AList.delete v (expert_to_slot c)\<rparr>
           in if v \<notin> set (lru_order c1) then raise KeyError c1
              else rbind (set_slot v (- 1) (c1\<lparr>lru_order := removeAll v (lru_order c1)\<rparr>)) (\<lambda>_ c2.
                   rbind (set_slot e (int slot) (c2\<lparr>expert_to_slot := AList.update e slot (expert_to_slot c2),
                                                    lru_order := set_add e (lru_order c2)\<rparr>)) (\<lambda>_.
                     assign_loop es vs (acc @ [(e, slot)])))))"

definition ensure_experts_loaded :: "nat list \<Rightarrow> expert_cache \<Rightarrow> (expert_cache, unit) res" where
  "ensure_experts_loaded needed c =
     (let hit = filter (\<lambda>e. e \<in> fst ` set (expert_to_slot c)) needed;
          missing = filter (\<lambda>e. e \<notin> fst ` set (expert_to_slot c)) needed;
          c1 = c\<lparr>cache_hits := cache_hits c + length hit, cache_misses := cache_misses c + length missing\<rparr>
      in if missing = [] then return () c1
         else rbind (assign_loop missing (filter (\<lambda>e. e \<notin> set needed) (lru_order c1)) [] c1) (\<lambda>copies.
                for_each (\<lambda>(e, slot). copy_expert e slot) copies))"

definition mark_one :: "nat \<Rightarrow> expert_cache \<Rightarrow> (expert_cache, unit) res" where
  "mark_one e c =
     (if e \<in> set (lru_order c) then return () (c\<lparr>lru_order := removeAll e (lru_order c) @ [e]\<rparr>) else raise KeyError c)"

definition mark_recently_used :: "nat list \<Rightarrow> expert_cache \<Rightarrow> (expert_cache, unit) res" where
  "mark_recently_used es c = for_each mark_one es c"

text \<open>The rows the kernel is handed; an id outside the cache is not given a meaning.\<close>

definition cache_row13 :: "expert_cache \<Rightarrow> int \<Rightarrow> byte list" where
  "cache_row13 c i = cache_w13 c ! nat i"

definition cache_row2 :: "expert_cache \<Rightarrow> int \<Rightarrow> byte list" where
  "cache_row2 c i = cache_w2 c ! nat i"

text \<open>\<open>_forward_with_expert_cache\<close>, with the router's choice as \<open>topk_ids\<close>.\<close>

definition forward_with_expert_cache :: "'r kernel \<Rightarrow> nat list \<Rightarrow> expert_cache \<Rightarrow> (expert_cache, 'r) res" where
  "forward_with_expert_cache apply topk_ids c =
     rbind (ensure_experts_loaded (unique_ids topk_ids) c) (\<lambda>_ c.
       case gather (slot_of_expert c) topk_ids of
         Inl e \<Rightarrow> raise e c
       | Inr remapped \<Rightarrow>
           (case apply (cache_row13 c) (cache_row2 c) remapped of
              Inl e \<Rightarrow> raise e c
            | Inr result \<Rightarrow> rbind (mark_recently_used (unique_ids topk_ids) c) (\<lambda>_. return result)))"

section \<open>The invariant\<close>

text \<open>The directory: every slot holds one expert, and the dictionary, the order and the table agree.\<close>

definition slots_ok :: "expert_cache \<Rightarrow> bool" where
  "slots_ok c \<longleftrightarrow> length (cpu_w13 c) = cache_num_experts c \<and> length (cpu_w2 c) = cache_num_experts c \<and>
     length (cache_w13 c) = cache_size c \<and> length (cache_w2 c) = cache_size c \<and>
     dict_wf (expert_to_slot c) \<and> (\<forall>e s. map_of (expert_to_slot c) e = Some s \<longrightarrow> s < cache_size c) \<and>
     (\<forall>e e' s. map_of (expert_to_slot c) e = Some s \<and> map_of (expert_to_slot c) e' = Some s \<longrightarrow> e = e') \<and>
     distinct (lru_order c) \<and> length (lru_order c) \<le> cache_size c \<and> set (lru_order c) = fst ` set (expert_to_slot c) \<and>
     length (slot_of_expert c) = cache_num_experts c \<and> (\<forall>e \<in> set (lru_order c). e < cache_num_experts c) \<and>
     (\<forall>e < cache_num_experts c. slot_of_expert c ! e = (case map_of (expert_to_slot c) e of Some s \<Rightarrow> int s | None \<Rightarrow> - 1))"

text \<open>The slots of resident experts hold their weights, except for the experts \<open>X\<close> still to be copied.\<close>

definition rows_ok :: "nat set \<Rightarrow> expert_cache \<Rightarrow> bool" where
  "rows_ok X c \<longleftrightarrow> (\<forall>e s. map_of (expert_to_slot c) e = Some s \<and> e \<notin> X \<longrightarrow>
     cache_w13 c ! s = cpu_w13 c ! e \<and> cache_w2 c ! s = cpu_w2 c ! e)"

definition cache_inv :: "expert_cache \<Rightarrow> bool" where
  "cache_inv c \<longleftrightarrow> slots_ok c \<and> rows_ok {} c \<and> length (lru_order c) = cache_size c"

text \<open>What no operation changes.\<close>

definition same_weights :: "expert_cache \<Rightarrow> expert_cache \<Rightarrow> bool" where
  "same_weights c c' \<longleftrightarrow> cpu_w13 c' = cpu_w13 c \<and> cpu_w2 c' = cpu_w2 c \<and> cache_num_experts c' = cache_num_experts c \<and>
     cache_size c' = cache_size c"

lemma same_weights_refl [simp]: "same_weights c c"
  by (simp add: same_weights_def)

lemma same_weights_trans: "same_weights c c' \<Longrightarrow> same_weights c' c'' \<Longrightarrow> same_weights c c''"
  by (simp add: same_weights_def)

text \<open>Giving an unused slot to an absent expert.\<close>

definition put_expert :: "nat \<Rightarrow> nat \<Rightarrow> expert_cache \<Rightarrow> expert_cache" where
  "put_expert e slot c = c\<lparr>expert_to_slot := AList.update e slot (expert_to_slot c), lru_order := lru_order c @ [e],
     slot_of_expert := (slot_of_expert c)[e := int slot]\<rparr>"

lemma slots_ok_put:
  assumes ok: "slots_ok c" and e: "e \<notin> set (lru_order c)" "e < cache_num_experts c"
    and s: "slot < cache_size c" "\<forall>e'. map_of (expert_to_slot c) e' \<noteq> Some slot" "length (lru_order c) < cache_size c"
  shows "slots_ok (put_expert e slot c)"
proof -
  have d: "map_of (AList.update e slot (expert_to_slot c)) = (map_of (expert_to_slot c))(e \<mapsto> slot)" by (rule map_of_update)
  have "fst ` set (AList.update e slot (expert_to_slot c)) = insert e (fst ` set (expert_to_slot c))" by (rule dict_keys_update)
  with ok e s show ?thesis
    unfolding slots_ok_def put_expert_def by (auto simp: d nth_list_update simp del: map_of_eq_Some_iff split: if_splits)
qed

text \<open>Taking the slot of a resident expert.\<close>

definition drop_slot :: "nat \<Rightarrow> expert_cache \<Rightarrow> expert_cache" where
  "drop_slot v c = c\<lparr>expert_to_slot := AList.delete v (expert_to_slot c), lru_order := removeAll v (lru_order c),
     slot_of_expert := (slot_of_expert c)[v := - 1]\<rparr>"

lemma slots_ok_drop:
  assumes ok: "slots_ok c" and v: "map_of (expert_to_slot c) v = Some slot"
  shows "slots_ok (drop_slot v c)" "\<forall>e. map_of (expert_to_slot (drop_slot v c)) e \<noteq> Some slot"
    "length (lru_order (drop_slot v c)) < cache_size c" "v \<in> set (lru_order c)" "v < cache_num_experts c" "slot < cache_size c"
proof -
  have d: "map_of (AList.delete v (expert_to_slot c)) = (map_of (expert_to_slot c))(v := None)" by (rule map_of_delete)
  have k: "fst ` set (AList.delete v (expert_to_slot c)) = fst ` set (expert_to_slot c) - {v}" by (rule dict_keys_delete)
  show m: "v \<in> set (lru_order c)" "v < cache_num_experts c" "slot < cache_size c"
    using ok v map_of_keys [of v "expert_to_slot c"] by (auto simp: slots_ok_def simp del: map_of_eq_Some_iff)
  have len: "length (removeAll v (lru_order c)) < length (lru_order c)" using m(1) by (rule length_removeAll_less)
  with ok k d show "slots_ok (drop_slot v c)"
    unfolding slots_ok_def drop_slot_def
    by (auto simp: d k nth_list_update distinct_removeAll simp del: map_of_eq_Some_iff split: if_splits)
  show "\<forall>e. map_of (expert_to_slot (drop_slot v c)) e \<noteq> Some slot"
    using ok v by (auto simp: drop_slot_def d slots_ok_def simp del: map_of_eq_Some_iff)
  show "length (lru_order (drop_slot v c)) < cache_size c" using ok len by (simp add: drop_slot_def slots_ok_def)
qed

section \<open>Loading\<close>

text \<open>One round of the assignment loop.\<close>

lemma assign_loop_step:
  assumes ok: "slots_ok c" and v: "map_of (expert_to_slot c) v = Some slot" and e: "e \<notin> set (lru_order c)" "e < cache_num_experts c"
  shows "assign_loop (e # es) (v # vs) acc c = assign_loop es vs (acc @ [(e, slot)]) (put_expert e slot (drop_slot v c))"
proof -
  note d = slots_ok_drop [OF ok v]
  have len: "length (slot_of_expert c) = cache_num_experts c" using ok by (simp add: slots_ok_def)
  have "e \<notin> set (removeAll v (lru_order c))" using e by auto
  then show ?thesis
    using v d(4,5) e len by (simp add: set_slot_def return_def put_expert_def drop_slot_def set_add_def Let_def del: map_of_eq_Some_iff)
qed

lemma put_drop_fields:
  "map_of (expert_to_slot (put_expert e s (drop_slot v c))) = (map_of (expert_to_slot c))(v := None, e \<mapsto> s)"
  "lru_order (put_expert e s (drop_slot v c)) = removeAll v (lru_order c) @ [e]"
  "same_weights c (put_expert e s (drop_slot v c))"
  "cache_w13 (put_expert e s (drop_slot v c)) = cache_w13 c" "cache_w2 (put_expert e s (drop_slot v c)) = cache_w2 c"
  "cache_num_experts (put_expert e s (drop_slot v c)) = cache_num_experts c"
  "cpu_w13 (put_expert e s (drop_slot v c)) = cpu_w13 c" "cpu_w2 (put_expert e s (drop_slot v c)) = cpu_w2 c"
  by (simp_all add: put_expert_def drop_slot_def same_weights_def)

lemma assign_loop_ok:
  assumes "slots_ok c" "rows_ok (fst ` set acc) c" "\<forall>(e, s) \<in> set acc. map_of (expert_to_slot c) e = Some s"
    and "distinct es" "set es \<inter> set (lru_order c) = {}" "\<forall>e \<in> set es. e < cache_num_experts c"
    and "distinct vs" "set vs \<subseteq> set (lru_order c)" "set vs \<inter> fst ` set acc = {}" "length es \<le> length vs"
  shows "runs_to (assign_loop es vs acc c) (\<lambda>acc' c'. slots_ok c' \<and> same_weights c c' \<and> rows_ok (fst ` set acc') c' \<and>
     (\<forall>(e, s) \<in> set acc'. map_of (expert_to_slot c') e = Some s) \<and>
     lru_order c' = filter (\<lambda>e. e \<notin> set (take (length es) vs)) (lru_order c) @ es)"
  using assms
proof (induction es arbitrary: vs acc c)
  case (Cons e es)
  then obtain v vs' where vs: "vs = v # vs'" by (cases vs) auto
  have "v \<in> fst ` set (expert_to_slot c)" using Cons.prems(1,8) vs by (auto simp: slots_ok_def)
  then obtain slot where v: "map_of (expert_to_slot c) v = Some slot" using map_of_keys [of v "expert_to_slot c"] by auto
  have e: "e \<notin> set (lru_order c)" "e < cache_num_experts c" using Cons.prems(5,6) by auto
  let ?c = "put_expert e slot (drop_slot v c)"
  note d = slots_ok_drop [OF Cons.prems(1) v]
  note f = put_drop_fields [where e = e and s = slot and v = v and c = c]
  have ok: "slots_ok ?c"
    by (rule slots_ok_put [OF d(1)]) (use e d in \<open>auto simp: drop_slot_def\<close>)
  have ne: "v \<noteq> e" using d(4) e by auto
  have rows: "rows_ok (fst ` set (acc @ [(e, slot)])) ?c"
    using Cons.prems(2) unfolding rows_ok_def f by (auto simp del: map_of_eq_Some_iff split: if_splits)
  have acc: "\<forall>(e', s) \<in> set (acc @ [(e, slot)]). map_of (expert_to_slot ?c) e' = Some s"
  proof (clarify)
    fix e' s assume m: "(e', s) \<in> set (acc @ [(e, slot)])"
    show "map_of (expert_to_slot ?c) e' = Some s"
    proof (cases "(e', s) = (e, slot)")
      case False
      with m have a: "(e', s) \<in> set acc" by auto
      then have "map_of (expert_to_slot c) e' = Some s" using Cons.prems(3) by blast
      moreover have "e' \<noteq> v" using a Cons.prems(9) vs by force
      moreover have "e' \<noteq> e"
      proof
        assume "e' = e"
        with \<open>map_of (expert_to_slot c) e' = Some s\<close> have "e \<in> set (lru_order c)"
          using Cons.prems(1) map_of_keys [of e "expert_to_slot c"] by (auto simp: slots_ok_def simp del: map_of_eq_Some_iff)
        with e show False by simp
      qed
      ultimately show ?thesis unfolding f by simp
    qed (simp add: f)
  qed
  have r: "runs_to (assign_loop es vs' (acc @ [(e, slot)]) ?c) (\<lambda>acc' c'. slots_ok c' \<and> same_weights ?c c' \<and> rows_ok (fst ` set acc') c' \<and>
     (\<forall>(e, s) \<in> set acc'. map_of (expert_to_slot c') e = Some s) \<and>
     lru_order c' = filter (\<lambda>e. e \<notin> set (take (length es) vs')) (lru_order ?c) @ es)"
  proof (rule Cons.IH [OF ok rows acc])
    show "distinct es" "\<forall>e \<in> set es. e < cache_num_experts ?c" "distinct vs'" "length es \<le> length vs'"
      "set es \<inter> set (lru_order ?c) = {}"
      using Cons.prems vs by (auto simp: f)
    show "set vs' \<subseteq> set (lru_order ?c)" using Cons.prems(7,8) vs by (auto simp: f)
    show "set vs' \<inter> fst ` set (acc @ [(e, slot)]) = {}" using Cons.prems(8,9) vs e by auto
  qed
  have "filter (\<lambda>x. x \<notin> set (take (length es) vs')) (lru_order ?c) @ es =
      filter (\<lambda>x. x \<notin> set (take (length (e # es)) vs)) (lru_order c) @ e # es"
  proof -
    have "e \<notin> set (take (length es) vs')" using Cons.prems(8) vs e in_set_takeD by fastforce
    moreover have "filter (\<lambda>x. x \<notin> set (take (length es) vs')) (removeAll v (lru_order c)) =
        filter (\<lambda>x. x \<notin> insert v (set (take (length es) vs'))) (lru_order c)"
      by (simp add: removeAll_filter_not_eq, intro filter_cong) auto
    ultimately show ?thesis by (simp add: f vs)
  qed
  with r f(3) show ?case
    unfolding vs assign_loop_step [OF Cons.prems(1) v e] by (auto elim!: runs_to_mono intro: same_weights_trans)
qed simp

lemma copy_all_ok:
  assumes "slots_ok c" "rows_ok (fst ` set cs) c" "\<forall>(e, s) \<in> set cs. map_of (expert_to_slot c) e = Some s"
  shows "runs_to (for_each (\<lambda>(e, slot). copy_expert e slot) cs c) (\<lambda>_ c'. slots_ok c' \<and> rows_ok {} c' \<and> same_weights c c' \<and>
     expert_to_slot c' = expert_to_slot c \<and> lru_order c' = lru_order c)"
  using assms
proof (induction cs arbitrary: c)
  case (Cons p cs)
  obtain e s where p: "p = (e, s)" by fastforce
  have m: "map_of (expert_to_slot c) e = Some s" using Cons.prems(3) p by simp
  note d = slots_ok_drop [OF Cons.prems(1) m]
  let ?c = "c\<lparr>cache_w13 := (cache_w13 c)[s := cpu_w13 c ! e], cache_w2 := (cache_w2 c)[s := cpu_w2 c ! e]\<rparr>"
  have run: "copy_expert e s c = Inr ((), ?c)"
    using Cons.prems(1) d(5,6) by (simp add: copy_expert_def slots_ok_def return_def)
  have len: "s < length (cache_w13 c)" "s < length (cache_w2 c)" using Cons.prems(1) d(6) by (simp_all add: slots_ok_def)
  have inj: "e' = e" if "map_of (expert_to_slot c) e' = Some s" for e'
    using Cons.prems(1) m that unfolding slots_ok_def by blast
  have ok: "slots_ok ?c" using Cons.prems(1) by (simp add: slots_ok_def)
  have "rows_ok (fst ` set cs) ?c"
    unfolding rows_ok_def
  proof (intro allI impI)
    fix e' s' assume a: "map_of (expert_to_slot ?c) e' = Some s' \<and> e' \<notin> fst ` set cs"
    show "cache_w13 ?c ! s' = cpu_w13 ?c ! e' \<and> cache_w2 ?c ! s' = cpu_w2 ?c ! e'"
    proof (cases "e' = e")
      case True
      with a m len show ?thesis by simp
    next
      case False
      then have "s' \<noteq> s" using a inj by auto
      with a False Cons.prems(2) p show ?thesis by (auto simp: rows_ok_def)
    qed
  qed
  from Cons.IH [OF ok this] Cons.prems(3) show ?case
    by (auto simp: p post_rbind run same_weights_def elim!: runs_to_mono)
qed simp

text \<open>There are enough candidates exactly because the needed experts fit the cache.\<close>

lemma length_filter_split: "length (filter P xs) + length (filter (\<lambda>x. \<not> P x) xs) = length xs"
  by (rule sum_length_filter_compl)

lemma length_filter_mem:
  assumes "distinct xs"
  shows "length (filter (\<lambda>x. x \<in> A) xs) = card (set xs \<inter> A)"
proof -
  have "set (filter (\<lambda>x. x \<in> A) xs) = set xs \<inter> A" by auto
  with distinct_card [OF distinct_filter [OF assms]] show ?thesis by metis
qed

lemma enough_candidates:
  assumes "distinct lru" "distinct needed" "length needed \<le> length lru"
  shows "length (filter (\<lambda>e. e \<notin> set lru) needed) \<le> length (filter (\<lambda>e. e \<notin> set needed) lru)"
proof -
  have "length (filter (\<lambda>e. e \<in> set lru) needed) = length (filter (\<lambda>e. e \<in> set needed) lru)"
    unfolding length_filter_mem [OF assms(1)] length_filter_mem [OF assms(2)] by (simp add: Int_commute)
  with length_filter_split [of "\<lambda>e. e \<in> set lru" needed] length_filter_split [of "\<lambda>e. e \<in> set needed" lru] assms(3)
  show ?thesis by linarith
qed

lemma length_removed:
  assumes "distinct xs" "distinct ys" "set ys \<subseteq> set xs"
  shows "length (filter (\<lambda>x. x \<notin> set ys) xs) + length ys = length xs"
proof -
  have "length (filter (\<lambda>x. x \<in> set ys) xs) = card (set xs \<inter> set ys)" by (rule length_filter_mem [OF assms(1)])
  also have "\<dots> = length ys" using assms(2,3) by (simp add: distinct_card inf.absorb2)
  finally show ?thesis using length_filter_split [of "\<lambda>x. x \<in> set ys" xs] by linarith
qed

definition evictions :: "nat list \<Rightarrow> expert_cache \<Rightarrow> nat list" where
  "evictions needed c = take (length (filter (\<lambda>e. e \<notin> set (lru_order c)) needed)) (filter (\<lambda>e. e \<notin> set needed) (lru_order c))"

definition cache_loaded :: "nat list \<Rightarrow> expert_cache \<Rightarrow> expert_cache \<Rightarrow> bool" where
  "cache_loaded needed c c' \<longleftrightarrow> cache_inv c' \<and> same_weights c c' \<and>
     lru_order c' = filter (\<lambda>e. e \<notin> set (evictions needed c)) (lru_order c) @ filter (\<lambda>e. e \<notin> set (lru_order c)) needed"

lemma ensure_experts_loaded_ok:
  assumes inv: "cache_inv c" and n: "distinct needed" "\<forall>e \<in> set needed. e < cache_num_experts c" "length needed \<le> cache_size c"
  shows "runs_to (ensure_experts_loaded needed c) (\<lambda>_ c'. cache_loaded needed c c')"
proof -
  have ok: "slots_ok c" and rows: "rows_ok {} c" and len: "length (lru_order c) = cache_size c" using inv by (simp_all add: cache_inv_def)
  have dl: "distinct (lru_order c)" and keys: "fst ` set (expert_to_slot c) = set (lru_order c)" using ok by (simp_all add: slots_ok_def)
  let ?m = "filter (\<lambda>e. e \<notin> set (lru_order c)) needed" and ?v = "filter (\<lambda>e. e \<notin> set needed) (lru_order c)"
  let ?c1 = "c\<lparr>cache_hits := cache_hits c + length (filter (\<lambda>e. e \<in> set (lru_order c)) needed), cache_misses := cache_misses c + length ?m\<rparr>"
  have le: "length ?m \<le> length ?v" using enough_candidates [OF dl n(1)] n(3) len by simp
  have ok1: "slots_ok ?c1" "rows_ok (fst ` set []) ?c1" using ok rows by (simp_all add: slots_ok_def rows_ok_def)
  have w1: "same_weights c ?c1" by (simp add: same_weights_def)
  have run: "ensure_experts_loaded needed c = (if ?m = [] then return () ?c1
      else rbind (assign_loop ?m ?v [] ?c1) (\<lambda>copies. for_each (\<lambda>(e, slot). copy_expert e slot) copies))"
    unfolding ensure_experts_loaded_def Let_def keys by simp
  show ?thesis
  proof (cases "?m = []")
    case True
    then have "cache_loaded needed c ?c1"
      using inv w1 by (simp add: cache_loaded_def cache_inv_def evictions_def slots_ok_def rows_ok_def)
    then show ?thesis unfolding run using True by simp
  next
    case False
    have "runs_to (assign_loop ?m ?v [] ?c1) (\<lambda>acc' c'. slots_ok c' \<and> same_weights ?c1 c' \<and> rows_ok (fst ` set acc') c' \<and>
       (\<forall>(e, s) \<in> set acc'. map_of (expert_to_slot c') e = Some s) \<and>
       lru_order c' = filter (\<lambda>e. e \<notin> set (take (length ?m) ?v)) (lru_order ?c1) @ ?m)"
      by (rule assign_loop_ok [OF ok1]) (use n dl le in auto)
    then have "runs_to (rbind (assign_loop ?m ?v [] ?c1) (\<lambda>copies. for_each (\<lambda>(e, slot). copy_expert e slot) copies))
      (\<lambda>_ c'. cache_loaded needed c c')"
      unfolding post_rbind
    proof (rule runs_to_mono)
      fix cs c2 assume a: "slots_ok c2 \<and> same_weights ?c1 c2 \<and> rows_ok (fst ` set cs) c2 \<and>
        (\<forall>(e, s) \<in> set cs. map_of (expert_to_slot c2) e = Some s) \<and>
        lru_order c2 = filter (\<lambda>e. e \<notin> set (take (length ?m) ?v)) (lru_order ?c1) @ ?m"
      then have a': "slots_ok c2" "rows_ok (fst ` set cs) c2" "\<forall>(e, s) \<in> set cs. map_of (expert_to_slot c2) e = Some s"
        "same_weights ?c1 c2" and l2: "lru_order c2 = filter (\<lambda>e. e \<notin> set (evictions needed c)) (lru_order c) @ ?m"
        by (simp_all add: evictions_def)
      have "distinct (evictions needed c)" "set (evictions needed c) \<subseteq> set (lru_order c)" "length (evictions needed c) = length ?m"
        using dl le by (auto simp: evictions_def dest: in_set_takeD)
      with length_removed [OF dl, of "evictions needed c"] have "length (lru_order c2) = cache_size c2"
        using len l2 same_weights_trans [OF w1 a'(4)] by (simp add: same_weights_def)
      then show "runs_to (for_each (\<lambda>(e, slot). copy_expert e slot) cs c2) (\<lambda>_ c'. cache_loaded needed c c')"
        using same_weights_trans [OF w1 a'(4)] l2
        by (intro runs_to_mono [OF copy_all_ok [OF a'(1-3)]]) (auto simp: cache_loaded_def cache_inv_def same_weights_def)
    qed
    with False show ?thesis unfolding run by simp
  qed
qed

lemma loaded_resident: "cache_loaded needed c c' \<Longrightarrow> set needed \<subseteq> set (lru_order c')"
  unfolding cache_loaded_def by (auto simp: evictions_def dest: in_set_takeD)

lemma resident_rows:
  assumes "cache_inv c" "e \<in> set (lru_order c)"
  shows "e < length (slot_of_expert c) \<and> (\<exists>s < cache_size c. slot_of_expert c ! e = int s \<and> map_of (expert_to_slot c) e = Some s) \<and>
     cache_row13 c (slot_of_expert c ! e) = cpu_w13 c ! e \<and> cache_row2 c (slot_of_expert c ! e) = cpu_w2 c ! e"
proof -
  have ok: "slots_ok c" and rows: "rows_ok {} c" using assms(1) by (simp_all add: cache_inv_def)
  have "e \<in> fst ` set (expert_to_slot c)" using assms(2) ok by (simp add: slots_ok_def)
  then obtain s where s: "map_of (expert_to_slot c) e = Some s" using map_of_keys [of e "expert_to_slot c"] by auto
  note d = slots_ok_drop [OF ok s]
  have "slot_of_expert c ! e = int s" "length (slot_of_expert c) = cache_num_experts c"
    using ok s d(5) by (simp_all add: slots_ok_def del: map_of_eq_Some_iff)
  with s rows d(5,6) show ?thesis unfolding rows_ok_def cache_row13_def cache_row2_def by auto
qed

section \<open>Construction and use\<close>

lemma mark_recently_used_ok:
  assumes "cache_inv c" "set es \<subseteq> set (lru_order c)" "distinct es"
  shows "runs_to (mark_recently_used es c) (\<lambda>_ c'. cache_inv c' \<and> same_weights c c' \<and> slot_of_expert c' = slot_of_expert c \<and>
     lru_order c' = filter (\<lambda>e. e \<notin> set es) (lru_order c) @ es)"
  unfolding mark_recently_used_def using assms
proof (induction es arbitrary: c)
  case (Cons e es)
  have e: "e \<in> set (lru_order c)" using Cons.prems(2) by simp
  let ?c = "c\<lparr>lru_order := removeAll e (lru_order c) @ [e]\<rparr>"
  have run: "mark_one e c = Inr ((), ?c)" using e by (simp add: mark_one_def return_def)
  have dist: "distinct (lru_order c)" using Cons.prems(1) by (simp add: cache_inv_def slots_ok_def)
  have "length (removeAll e (lru_order c)) + 1 = length (lru_order c)"
    using length_removed [OF dist, of "[e]"] e by (simp add: removeAll_filter_not_eq eq_commute)
  moreover have "insert e (set (lru_order c) - {e}) = set (lru_order c)" using e by auto
  ultimately have inv: "cache_inv ?c"
    using Cons.prems(1) dist by (auto simp: cache_inv_def slots_ok_def rows_ok_def distinct_removeAll simp del: map_of_eq_Some_iff)
  have "filter (\<lambda>x. x \<notin> set es) (removeAll e (lru_order c)) = filter (\<lambda>x. x \<notin> insert e (set es)) (lru_order c)"
    by (simp add: removeAll_filter_not_eq, intro filter_cong) auto
  moreover have "runs_to (for_each mark_one es ?c) (\<lambda>_ c'. cache_inv c' \<and> same_weights ?c c' \<and> slot_of_expert c' = slot_of_expert ?c \<and>
     lru_order c' = filter (\<lambda>e. e \<notin> set es) (lru_order ?c) @ es)"
    using Cons.prems(2,3) by (intro Cons.IH [OF inv]) auto
  ultimately show ?case
    using Cons.prems(3) by (auto simp: post_rbind run same_weights_def elim!: runs_to_mono)
qed simp

lemma warm_cache_ok:
  assumes "slots_ok c" "rows_ok {} c" "lru_order c = [0..<k]" "k + n \<le> cache_size c" "cache_size c \<le> cache_num_experts c"
    and "\<forall>e. map_of (expert_to_slot c) e = (if e < k then Some e else None)"
  shows "runs_to (for_each warm_slot [k..<k + n] c) (\<lambda>_ c'. slots_ok c' \<and> rows_ok {} c' \<and> same_weights c c' \<and> lru_order c' = [0..<k + n])"
  using assms
proof (induction n arbitrary: k c)
  case (Suc n)
  let ?c1 = "c\<lparr>cache_w13 := (cache_w13 c)[k := cpu_w13 c ! k], cache_w2 := (cache_w2 c)[k := cpu_w2 c ! k]\<rparr>"
  have len: "length (slot_of_expert c) = cache_num_experts c" "length (cpu_w13 c) = cache_num_experts c" "length (cpu_w2 c) = cache_num_experts c"
    "length (cache_w13 c) = cache_size c" "length (cache_w2 c) = cache_size c" using Suc.prems(1) by (simp_all add: slots_ok_def)
  have run: "warm_slot k c = Inr ((), put_expert k k ?c1)"
    using Suc.prems(3-5) len by (simp add: warm_slot_def copy_expert_def set_slot_def put_expert_def return_def set_add_def)
  have "slots_ok ?c1" using Suc.prems(1) by (simp add: slots_ok_def)
  then have ok: "slots_ok (put_expert k k ?c1)"
    using Suc.prems(3-6) by (intro slots_ok_put) (auto split: if_splits)
  have rows: "rows_ok {} (put_expert k k ?c1)"
    using Suc.prems(2,4,6) len by (auto simp: rows_ok_def put_expert_def nth_list_update split: if_splits)
  have "runs_to (for_each warm_slot [Suc k..<Suc k + n] (put_expert k k ?c1)) (\<lambda>_ c'. slots_ok c' \<and> rows_ok {} c' \<and>
      same_weights (put_expert k k ?c1) c' \<and> lru_order c' = [0..<Suc k + n])"
    using Suc.prems(3-6) by (intro Suc.IH [OF ok rows]) (auto simp: put_expert_def)
  moreover have "[k..<k + Suc n] = k # [Suc k..<Suc k + n]" by (simp add: upt_conv_Cons)
  ultimately show ?case
    by (auto simp: post_rbind run same_weights_def put_expert_def simp del: upt_Suc elim!: runs_to_mono)
qed simp

lemma expert_cache_init_ok:
  assumes "n \<le> length w13" "length w2 = length w13" "length raw13 = n" "length raw2 = n"
  shows "runs_to (expert_cache_init n w13 w2 raw13 raw2) (\<lambda>_ c. cache_inv c \<and> cache_size c = n \<and> cache_num_experts c = length w13 \<and>
     lru_order c = [0..<n] \<and> cpu_w13 c = w13 \<and> cpu_w2 c = w2)"
proof -
  let ?c = "\<lparr>cache_size = n, cache_num_experts = length w13, cpu_w13 = w13, cpu_w2 = w2, cache_w13 = raw13, cache_w2 = raw2,
     expert_to_slot = [], lru_order = [], slot_of_expert = replicate (length w13) (- 1), cache_hits = 0, cache_misses = 0\<rparr>"
  have "runs_to (for_each warm_slot [0..<0 + n] ?c) (\<lambda>_ c'. slots_ok c' \<and> rows_ok {} c' \<and> same_weights ?c c' \<and> lru_order c' = [0..<0 + n])"
    using assms by (intro warm_cache_ok) (simp_all add: slots_ok_def rows_ok_def)
  with assms(1) show ?thesis
    unfolding expert_cache_init_def Let_def warm_cache_def assert_that_def return_def
    by (simp add: post_rbind) (auto simp: cache_inv_def same_weights_def elim!: runs_to_mono)
qed

text \<open>With more needed experts than slots the iterator over the candidates runs dry.\<close>

lemma assign_loop_length: "assign_loop es vs acc c = Inr (a, c') \<Longrightarrow> length es \<le> length vs"
  by (induction es vs acc c arbitrary: a c' rule: assign_loop.induct)
    (auto simp: raise_def Let_def split: option.splits if_splits)

lemma assign_loop_dry:
  assumes "slots_ok c" "distinct es" "set es \<inter> set (lru_order c) = {}" "\<forall>e \<in> set es. e < cache_num_experts c"
    and "distinct vs" "set vs \<subseteq> set (lru_order c)" "length vs < length es"
  shows "\<exists>c'. assign_loop es vs acc c = Inl (StopIteration, c') \<and> slots_ok c' \<and> same_weights c c' \<and>
     cache_w13 c' = cache_w13 c \<and> cache_w2 c' = cache_w2 c \<and>
     (\<forall>j < length vs. map_of (expert_to_slot c') (es ! j) = map_of (expert_to_slot c) (vs ! j)) \<and>
     (\<forall>x. x \<notin> set es \<and> x \<notin> set vs \<longrightarrow> map_of (expert_to_slot c') x = map_of (expert_to_slot c) x)"
  using assms
proof (induction vs arbitrary: es acc c)
  case Nil
  then obtain e es' where "es = e # es'" by (cases es) auto
  with Nil(1) show ?case by (simp add: raise_def)
next
  case (Cons v vs)
  then obtain e es' where es: "es = e # es'" by (cases es) auto
  have "v \<in> fst ` set (expert_to_slot c)" using Cons.prems(1,6) by (auto simp: slots_ok_def)
  then obtain slot where v: "map_of (expert_to_slot c) v = Some slot" using map_of_keys [of v "expert_to_slot c"] by auto
  have e: "e \<notin> set (lru_order c)" "e < cache_num_experts c" using Cons.prems(3,4) es by auto
  let ?c = "put_expert e slot (drop_slot v c)"
  note d = slots_ok_drop [OF Cons.prems(1) v]
  note f = put_drop_fields [where e = e and s = slot and v = v and c = c]
  have ok: "slots_ok ?c" by (rule slots_ok_put [OF d(1)]) (use e d in \<open>auto simp: drop_slot_def\<close>)
  have pre: "distinct es'" "set es' \<inter> set (lru_order ?c) = {}" "\<forall>e \<in> set es'. e < cache_num_experts ?c" "distinct vs"
    "set vs \<subseteq> set (lru_order ?c)" "length vs < length es'" using Cons.prems es by (auto simp: f)
  obtain c' where c': "assign_loop es' vs (acc @ [(e, slot)]) ?c = Inl (StopIteration, c')" "slots_ok c'" "same_weights ?c c'"
    "cache_w13 c' = cache_w13 ?c" "cache_w2 c' = cache_w2 ?c"
    "\<And>j. j < length vs \<Longrightarrow> map_of (expert_to_slot c') (es' ! j) = map_of (expert_to_slot ?c) (vs ! j)"
    "\<And>x. x \<notin> set es' \<Longrightarrow> x \<notin> set vs \<Longrightarrow> map_of (expert_to_slot c') x = map_of (expert_to_slot ?c) x"
    using Cons.IH [OF ok pre] by blast
  have ev: "e \<notin> set vs" "e \<notin> set es'" using Cons.prems(2,6) e(1) es by auto
  have "map_of (expert_to_slot c') (es ! j) = map_of (expert_to_slot c) ((v # vs) ! j)" if j: "j < length (v # vs)" for j
  proof (cases j)
    case 0
    then show ?thesis using c'(7) [OF ev(2,1)] v by (simp add: es f(1) del: map_of_eq_Some_iff)
  next
    case (Suc i)
    with j have i: "vs ! i \<in> set vs" "i < length vs" by simp_all
    then have "vs ! i \<noteq> v" "vs ! i \<noteq> e" using Cons.prems(5) ev by auto
    with c'(6) [OF i(2)] Suc show ?thesis by (simp add: es f(1))
  qed
  moreover have "map_of (expert_to_slot c') x = map_of (expert_to_slot c) x" if "x \<notin> set es \<and> x \<notin> set (v # vs)" for x
    using c'(7) [of x] that by (simp add: es f(1))
  ultimately show ?case
    unfolding es assign_loop_step [OF Cons.prems(1) v e]
    using c'(1-5) same_weights_trans [OF f(3) c'(3)] f(4,5) by (intro exI [of _ c']) (simp add: es)
qed

text \<open>The experts a batch misses, and those it may evict, least recently used first.\<close>

definition batch_misses :: "nat list \<Rightarrow> expert_cache \<Rightarrow> nat list" where
  "batch_misses needed c = filter (\<lambda>e. e \<notin> set (lru_order c)) needed"

definition batch_victims :: "nat list \<Rightarrow> expert_cache \<Rightarrow> nat list" where
  "batch_victims needed c = filter (\<lambda>e. e \<notin> set needed) (lru_order c)"

lemma oversized_batch_stops:
  assumes inv: "cache_inv c" and n: "distinct needed" "\<forall>e \<in> set needed. e < cache_num_experts c" "cache_size c < length needed"
  shows "\<exists>c'. ensure_experts_loaded needed c = Inl (StopIteration, c') \<and> slots_ok c' \<and> same_weights c c' \<and>
     cache_w13 c' = cache_w13 c \<and> cache_w2 c' = cache_w2 c \<and>
     (\<forall>j < length (batch_victims needed c). map_of (expert_to_slot c') (batch_misses needed c ! j) =
        map_of (expert_to_slot c) (batch_victims needed c ! j))"
proof -
  have ok: "slots_ok c" and len: "length (lru_order c) = cache_size c" using inv by (simp_all add: cache_inv_def)
  have dl: "distinct (lru_order c)" and keys: "fst ` set (expert_to_slot c) = set (lru_order c)" using ok by (simp_all add: slots_ok_def)
  let ?m = "filter (\<lambda>e. e \<notin> set (lru_order c)) needed" and ?v = "filter (\<lambda>e. e \<notin> set needed) (lru_order c)"
  let ?c1 = "c\<lparr>cache_hits := cache_hits c + length (filter (\<lambda>e. e \<in> set (lru_order c)) needed), cache_misses := cache_misses c + length ?m\<rparr>"
  have "length (filter (\<lambda>e. e \<in> set (lru_order c)) needed) = length (filter (\<lambda>e. e \<in> set needed) (lru_order c))"
    unfolding length_filter_mem [OF dl] length_filter_mem [OF n(1)] by (simp add: Int_commute)
  with length_filter_split [of "\<lambda>e. e \<in> set (lru_order c)" needed] length_filter_split [of "\<lambda>e. e \<in> set needed" "lru_order c"] n(3) len
  have lt: "length ?v < length ?m" by linarith
  then have ne: "?m \<noteq> []" by auto
  have ok1: "slots_ok ?c1" using ok by (simp add: slots_ok_def)
  have pre: "distinct ?m" "set ?m \<inter> set (lru_order ?c1) = {}" "\<forall>e \<in> set ?m. e < cache_num_experts ?c1" "distinct ?v"
    "set ?v \<subseteq> set (lru_order ?c1)" using n dl by auto
  from assign_loop_dry [OF ok1 pre lt, of "[]"] obtain c' where c': "assign_loop ?m ?v [] ?c1 = Inl (StopIteration, c')" "slots_ok c'"
    "same_weights ?c1 c'" "cache_w13 c' = cache_w13 ?c1" "cache_w2 c' = cache_w2 ?c1"
    "\<forall>j < length ?v. map_of (expert_to_slot c') (?m ! j) = map_of (expert_to_slot ?c1) (?v ! j)" by blast
  have "ensure_experts_loaded needed c = Inl (StopIteration, c')"
    unfolding ensure_experts_loaded_def Let_def keys using ne c'(1) by simp
  with c' show ?thesis unfolding batch_misses_def batch_victims_def by (intro exI [of _ c']) (simp add: same_weights_def)
qed

lemma oversized_batch_raises:
  assumes "cache_inv c" "distinct needed" "\<forall>e \<in> set needed. e < cache_num_experts c" "cache_size c < length needed"
  shows "post (ensure_experts_loaded needed c) (\<lambda>_ _. False) (\<lambda>_ _. True)"
  using oversized_batch_stops [OF assms] by auto

definition cache_valid :: "nat list \<Rightarrow> expert_cache \<Rightarrow> bool" where
  "cache_valid needed c \<longleftrightarrow> cache_inv c \<and> distinct needed \<and> (\<forall>e \<in> set needed. e < cache_num_experts c)"

interpretation cache_store: expert_store cache_valid cache_size ensure_experts_loaded slot_of_expert cache_row13 cache_row2
  "\<lambda>c e. cpu_w13 c ! e" "\<lambda>c e. cpu_w2 c ! e"
proof
  fix needed c assume v: "cache_valid needed c"
  show "post (ensure_experts_loaded needed c) (\<lambda>_ c'. \<forall>e \<in> set needed. e < length (slot_of_expert c') \<and>
     cache_row13 c' (slot_of_expert c' ! e) = cpu_w13 c ! e \<and> cache_row2 c' (slot_of_expert c' ! e) = cpu_w2 c ! e) (\<lambda>_ _. True)"
  proof (cases "length needed \<le> cache_size c")
    case False
    with v oversized_batch_raises [of c needed] show ?thesis by (auto simp: cache_valid_def elim!: post_mono)
  next
    case True
    then have "runs_to (ensure_experts_loaded needed c) (\<lambda>_ c'. cache_loaded needed c c')"
      using v by (intro ensure_experts_loaded_ok) (auto simp: cache_valid_def)
    then show ?thesis
    proof (rule post_mono)
      fix u c' assume l: "cache_loaded needed c c'"
      then have "cache_inv c'" "cpu_w13 c' = cpu_w13 c" "cpu_w2 c' = cpu_w2 c" by (simp_all add: cache_loaded_def same_weights_def)
      with resident_rows [of c'] loaded_resident [OF l] show "\<forall>e \<in> set needed. e < length (slot_of_expert c') \<and>
         cache_row13 c' (slot_of_expert c' ! e) = cpu_w13 c ! e \<and> cache_row2 c' (slot_of_expert c' ! e) = cpu_w2 c ! e" by auto
    qed simp
  qed
  show "length needed \<le> cache_size c \<Longrightarrow> runs_to (ensure_experts_loaded needed c) (\<lambda>_ _. True)"
    using v by (intro runs_to_mono [OF ensure_experts_loaded_ok [of c needed]]) (auto simp: cache_valid_def)
qed

section \<open>Properties\<close>

text \<open>Loading through the fixed-size cache: if the needed experts fit, they are all resident afterwards with the right
  bytes behind the slot table, and the experts given up are the least recently used ones that are not needed.\<close>

theorem expert_cache_loads_and_evicts_lru:
  assumes "cache_inv c" "distinct needed" "\<forall>e \<in> set needed. e < cache_num_experts c" "length needed \<le> cache_size c"
  shows "runs_to (ensure_experts_loaded needed c) (\<lambda>_ c'. cache_inv c' \<and>
     (\<forall>e \<in> set needed. \<exists>s < cache_size c'. slot_of_expert c' ! e = int s \<and> cache_w13 c' ! s = cpu_w13 c ! e \<and> cache_w2 c' ! s = cpu_w2 c ! e) \<and>
     (let missing = filter (\<lambda>e. e \<notin> set (lru_order c)) needed;
          given_up = take (length missing) (filter (\<lambda>e. e \<notin> set needed) (lru_order c))
      in lru_order c' = filter (\<lambda>e. e \<notin> set given_up) (lru_order c) @ missing))"
proof (rule runs_to_mono [OF ensure_experts_loaded_ok [OF assms]])
  fix u c' assume l: "cache_loaded needed c c'"
  then have c': "cache_inv c'" "cpu_w13 c' = cpu_w13 c" "cpu_w2 c' = cpu_w2 c" by (simp_all add: cache_loaded_def same_weights_def)
  have "\<exists>s < cache_size c'. slot_of_expert c' ! e = int s \<and> cache_w13 c' ! s = cpu_w13 c ! e \<and> cache_w2 c' ! s = cpu_w2 c ! e"
    if e: "e \<in> set needed" for e
  proof -
    have "e \<in> set (lru_order c')" using loaded_resident [OF l] e by blast
    from resident_rows [OF c'(1) this] c'(2,3) obtain s where "s < cache_size c'" "slot_of_expert c' ! e = int s"
      "cache_row13 c' (slot_of_expert c' ! e) = cpu_w13 c ! e" "cache_row2 c' (slot_of_expert c' ! e) = cpu_w2 c ! e" by auto
    then show ?thesis by (auto simp: cache_row13_def cache_row2_def)
  qed
  with l c'(1) show "cache_inv c' \<and>
     (\<forall>e \<in> set needed. \<exists>s < cache_size c'. slot_of_expert c' ! e = int s \<and> cache_w13 c' ! s = cpu_w13 c ! e \<and> cache_w2 c' ! s = cpu_w2 c ! e) \<and>
     (let missing = filter (\<lambda>e. e \<notin> set (lru_order c)) needed;
          given_up = take (length missing) (filter (\<lambda>e. e \<notin> set needed) (lru_order c))
      in lru_order c' = filter (\<lambda>e. e \<notin> set given_up) (lru_order c) @ missing)"
    by (simp add: Let_def cache_loaded_def evictions_def)
qed

text \<open>A cache with two slots for three experts.\<close>

definition demo_cache :: expert_cache where
  "demo_cache = (case expert_cache_init 2 [[1], [2], [3]] [[4], [5], [6]] [[0], [0]] [[0], [0]] of Inl (_, c) \<Rightarrow> c | Inr (_, c) \<Rightarrow> c)"

lemma demo_cache_ok: "cache_inv demo_cache" "cache_size demo_cache = 2" "cache_num_experts demo_cache = 3" "lru_order demo_cache = [0, 1]"
  "cpu_w13 demo_cache = [[1], [2], [3]]" "cpu_w2 demo_cache = [[4], [5], [6]]"
proof -
  have "runs_to (expert_cache_init 2 [[1], [2], [3]] [[4], [5], [6]] [[0], [0]] [[0], [0]]) (\<lambda>_ c. cache_inv c \<and> cache_size c = 2 \<and>
      cache_num_experts c = 3 \<and> lru_order c = [0, 1] \<and> cpu_w13 c = [[1], [2], [3]] \<and> cpu_w2 c = [[4], [5], [6]])"
    using expert_cache_init_ok [of 2 "[[1], [2], [3]]" "[[4], [5], [6]]" "[[0], [0]]" "[[0], [0]]"] by (simp add: eval_nat_numeral)
  then show "cache_inv demo_cache" "cache_size demo_cache = 2" "cache_num_experts demo_cache = 3" "lru_order demo_cache = [0, 1]"
    "cpu_w13 demo_cache = [[1], [2], [3]]" "cpu_w2 demo_cache = [[4], [5], [6]]"
    by (auto simp: demo_cache_def elim!: runs_toE)
qed

theorem expert_cache_loads_and_evicts_lru_witness:
  "runs_to (ensure_experts_loaded [2, 1] demo_cache) (\<lambda>_ c'. cache_inv c' \<and> lru_order c' = [1, 2])"
  using expert_cache_loads_and_evicts_lru [OF demo_cache_ok(1), of "[2, 1]"] by (auto simp: demo_cache_ok elim!: runs_to_mono)

lemma forward_with_expert_cache_ok:
  assumes "cache_inv c" "\<forall>e \<in> set ids. e < cache_num_experts c" "card (set ids) \<le> cache_size c" "reads_rows_by_id apply"
  shows "post (forward_with_expert_cache apply ids c)
     (\<lambda>r c'. apply (\<lambda>e. cpu_w13 c ! nat e) (\<lambda>e. cpu_w2 c ! nat e) (map int ids) = Inr r \<and> cache_inv c' \<and> same_weights c c' \<and>
        set ids \<subseteq> set (lru_order c'))
     (\<lambda>err c'. apply (\<lambda>e. cpu_w13 c ! nat e) (\<lambda>e. cpu_w2 c ! nat e) (map int ids) = Inl err \<and> cache_inv c' \<and> same_weights c c')"
proof -
  have len: "length (unique_ids ids) = card (set ids)" using distinct_card [OF unique_ids(2), of ids] by simp
  have valid: "cache_valid (unique_ids ids) c" using assms(1,2) by (simp add: cache_valid_def)
  have load: "runs_to (ensure_experts_loaded (unique_ids ids) c) (\<lambda>_ c'. cache_loaded (unique_ids ids) c c')"
    using assms(1-3) len by (intro ensure_experts_loaded_ok) auto
  then obtain c' where run: "ensure_experts_loaded (unique_ids ids) c = Inr ((), c')" and l: "cache_loaded (unique_ids ids) c c'"
    by (auto elim!: runs_toE)
  let ?k = "apply (\<lambda>e. cpu_w13 c ! nat e) (\<lambda>e. cpu_w2 c ! nat e) (map int ids)"
  obtain rows where g: "gather (slot_of_expert c') ids = Inr rows" and k: "apply (cache_row13 c') (cache_row2 c') rows = ?k"
    using cache_store.load_then_kernel [OF valid assms(4) run] unfolding cache_store.on_full_weights_def by blast
  have c': "cache_inv c'" "same_weights c c'" using l by (simp_all add: cache_loaded_def)
  have mark: "runs_to (mark_recently_used (unique_ids ids) c') (\<lambda>_ c2. cache_inv c2 \<and> same_weights c' c2 \<and> slot_of_expert c2 = slot_of_expert c' \<and>
      lru_order c2 = filter (\<lambda>e. e \<notin> set (unique_ids ids)) (lru_order c') @ unique_ids ids)"
    using loaded_resident [OF l] by (intro mark_recently_used_ok [OF c'(1)]) simp_all
  show ?thesis
  proof (cases ?k)
    case (Inl e)
    then show ?thesis using c' by (simp add: forward_with_expert_cache_def run g k)
  next
    case (Inr r)
    then show ?thesis
      using c'(2) mark by (auto simp: forward_with_expert_cache_def run g k post_rbind elim!: post_mono intro: same_weights_trans)
  qed
qed

text \<open>C36. The forward pass through the expert cache computes what the kernel computes on the full weights with the original
  expert ids, errors included, and keeps the cache consistent, provided the batch routes to no more experts
  than the cache has slots and the kernel uses ids only to pick rows.\<close>

theorem expert_cache_forward_correct:
  assumes "cache_inv c" "\<forall>e \<in> set ids. e < cache_num_experts c" "card (set ids) \<le> cache_size c" "reads_rows_by_id apply"
  shows "post (forward_with_expert_cache apply ids c)
     (\<lambda>r c'. apply (\<lambda>e. cpu_w13 c ! nat e) (\<lambda>e. cpu_w2 c ! nat e) (map int ids) = Inr r \<and> cache_inv c' \<and> same_weights c c' \<and>
        set ids \<subseteq> set (lru_order c'))
     (\<lambda>err c'. apply (\<lambda>e. cpu_w13 c ! nat e) (\<lambda>e. cpu_w2 c ! nat e) (map int ids) = Inl err \<and> cache_inv c' \<and> same_weights c c')"
  by (rule forward_with_expert_cache_ok [OF assms])

theorem expert_cache_forward_correct_witness:
  "post (forward_with_expert_cache (\<lambda>w13 w2 ids. Inr (map w13 ids, map w2 ids)) [2, 0, 2] demo_cache)
     (\<lambda>r c'. r = ([[3], [1], [3]], [[6], [4], [6]]) \<and> cache_inv c') (\<lambda>err c'. False)"
proof -
  have k: "reads_rows_by_id (\<lambda>w13 w2 ids. Inr (map w13 ids, map w2 ids))" by (simp add: reads_rows_by_id_def)
  have "card (set [2, 0, 2 :: nat]) \<le> cache_size demo_cache" "\<forall>e \<in> set [2, 0, 2]. e < cache_num_experts demo_cache"
    by (simp_all add: demo_cache_ok card_insert_if)
  from expert_cache_forward_correct [OF demo_cache_ok(1) this(2,1) k] show ?thesis
    by (rule post_mono) (auto simp: demo_cache_ok)
qed

text \<open>C37. A batch that needs more experts than the cache has slots raises \<open>StopIteration\<close> after the slot table was rewritten and before any weight was
  copied: every expert that had been given a slot by then, that is, as many of the missing ones as there were experts to
  evict, is in the table with the slot of the expert it replaced, and that slot still holds the weights of the replaced expert.
  A later batch that needs it counts it as resident.\<close>

theorem oversized_batch_corrupts_cache:
  assumes "cache_inv c" "distinct needed" "\<forall>e \<in> set needed. e < cache_num_experts c" "cache_size c < length needed"
  shows "\<exists>c'. ensure_experts_loaded needed c = Inl (StopIteration, c') \<and>
     (\<forall>j < length (batch_victims needed c).
        batch_misses needed c ! j \<in> fst ` set (expert_to_slot c') \<and>
        cache_row13 c' (slot_of_expert c' ! (batch_misses needed c ! j)) = cpu_w13 c ! (batch_victims needed c ! j) \<and>
        cache_row2 c' (slot_of_expert c' ! (batch_misses needed c ! j)) = cpu_w2 c ! (batch_victims needed c ! j))"
proof -
  obtain c' where c': "ensure_experts_loaded needed c = Inl (StopIteration, c')" "slots_ok c'" "same_weights c c'"
    "cache_w13 c' = cache_w13 c" "cache_w2 c' = cache_w2 c"
    "\<And>j. j < length (batch_victims needed c) \<Longrightarrow> map_of (expert_to_slot c') (batch_misses needed c ! j) =
        map_of (expert_to_slot c) (batch_victims needed c ! j)" using oversized_batch_stops [OF assms] by blast
  have "batch_misses needed c ! j \<in> fst ` set (expert_to_slot c') \<and>
        cache_row13 c' (slot_of_expert c' ! (batch_misses needed c ! j)) = cpu_w13 c ! (batch_victims needed c ! j) \<and>
        cache_row2 c' (slot_of_expert c' ! (batch_misses needed c ! j)) = cpu_w2 c ! (batch_victims needed c ! j)"
    if j: "j < length (batch_victims needed c)" for j
  proof -
    let ?v = "batch_victims needed c ! j" and ?e = "batch_misses needed c ! j"
    have "?v \<in> set (lru_order c)" using nth_mem [OF j] by (simp add: batch_victims_def)
    from resident_rows [OF assms(1) this] obtain s where s: "map_of (expert_to_slot c) ?v = Some s" "slot_of_expert c ! ?v = int s"
      "cache_row13 c (int s) = cpu_w13 c ! ?v" "cache_row2 c (int s) = cpu_w2 c ! ?v" by auto
    have e: "map_of (expert_to_slot c') ?e = Some s" using c'(6) [OF j] s(1) by simp
    from slots_ok_drop(5) [OF c'(2) e] have "slot_of_expert c' ! ?e = int s"
      using c'(2) e by (simp add: slots_ok_def del: map_of_eq_Some_iff)
    with s(3,4) c'(4,5) e show ?thesis by (simp add: map_of_keys cache_row13_def cache_row2_def del: map_of_eq_Some_iff)
  qed
  with c'(1) show ?thesis by blast
qed

definition demo_one_slot :: expert_cache where
  "demo_one_slot = (case expert_cache_init 1 [[1], [2], [3]] [[4], [5], [6]] [[0]] [[0]] of Inl (_, c) \<Rightarrow> c | Inr (_, c) \<Rightarrow> c)"

theorem oversized_batch_corrupts_cache_witness:
  "\<exists>c'. ensure_experts_loaded [1, 2] demo_one_slot = Inl (StopIteration, c') \<and> 1 \<in> fst ` set (expert_to_slot c') \<and>
     cache_row13 c' (slot_of_expert c' ! 1) = [1] \<and> cpu_w13 demo_one_slot ! 1 = [2]"
proof -
  have c: "cache_inv demo_one_slot" "cache_size demo_one_slot = 1" "cache_num_experts demo_one_slot = 3" "lru_order demo_one_slot = [0]"
    "cpu_w13 demo_one_slot = [[1], [2], [3]]"
    using expert_cache_init_ok [of 1 "[[1], [2], [3]]" "[[4], [5], [6]]" "[[0]]" "[[0]]"]
    by (auto simp: demo_one_slot_def elim!: runs_toE)
  then have "batch_victims [1, 2] demo_one_slot = [0]" "batch_misses [1, 2] demo_one_slot = [1, 2]"
    by (simp_all add: batch_victims_def batch_misses_def)
  with oversized_batch_corrupts_cache [OF c(1), of "[1, 2]"] c show ?thesis by auto
qed

end
