(* ===== verification/Pool_Forward.thy ===== *)
theory Pool_Forward
  imports Pool_Example Expert_Cache
begin

text \<open>
  The forward pass of a MoE layer through the unified pool:
  \<open>FusedMoE._forward_with_unified_pool\<close> of \<open>fused_moe/layer.py\<close>. The pool is a store of
  expert weights like the fixed-size cache, so the contract of a store carries the argument;
  the two offload paths compute the same result.
\<close>

section \<open>The forward pass\<close>

text \<open>Row \<open>i\<close> of the strided views; a negative id is not given a meaning.\<close>

definition pool_row13 :: "unified_layer \<Rightarrow> byte list \<Rightarrow> int \<Rightarrow> byte list" where
  "pool_row13 l buf i = pool_w13_row l buf (nat i)"

definition pool_row2 :: "unified_layer \<Rightarrow> byte list \<Rightarrow> int \<Rightarrow> byte list" where
  "pool_row2 l buf i = pool_w2_row l buf (nat i)"

text \<open>\<open>VLLM_UNIFIED_POOL_PARANOID\<close>: every row the kernel will read is compared with the CPU weights.\<close>

fun paranoid_check :: "unified_layer \<Rightarrow> byte list \<Rightarrow> int list \<Rightarrow> error + unit" where
  "paranoid_check l buf [] = Inr ()"
| "paranoid_check l buf (sb # sbs) =
     (case (if sb < 0 then None else map_of (expert_at_super_block l) (nat sb)) of
        None \<Rightarrow> Inl (RuntimeError ''kernel will read a super-block but no expert is mapped there'')
      | Some e \<Rightarrow>
          if pool_row13 l buf sb \<noteq> cpu_w13_bytes l ! e then Inl (RuntimeError ''pool_w13_view does not match cpu_w13'')
          else if pool_row2 l buf sb \<noteq> cpu_w2_bytes l ! e then Inl (RuntimeError ''pool_w2_view does not match cpu_w2'')
          else paranoid_check l buf sbs)"

text \<open>The \<open>try\<close> block: load, remap, check, run the kernel on the views.\<close>

definition pool_forward_body ::
  "bool \<Rightarrow> 'r kernel \<Rightarrow> nat \<Rightarrow> nat list \<Rightarrow> unified_manager \<Rightarrow> (unified_manager, 'r) res" where
  "pool_forward_body paranoid apply i topk_ids s =
     rbind (ensure_loaded i (unique_ids topk_ids) s) (\<lambda>_ s.
       case (map_of (layers s) i, map_of (kv_pool_buffers s) i) of
         (Some l, Some buf) \<Rightarrow>
           (case gather (super_block_id_at l) topk_ids of
              Inl e \<Rightarrow> raise e s
            | Inr remapped \<Rightarrow>
                (case (if paranoid \<and> layer_idx l = 0 \<and> forward_count l = 0
                       then paranoid_check l buf (sort (remdups remapped)) else Inr ()) of
                   Inl e \<Rightarrow> raise e s
                 | Inr _ \<Rightarrow>
                     (case apply (pool_row13 l buf) (pool_row2 l buf) remapped of
                        Inl e \<Rightarrow> raise e s
                      | Inr result \<Rightarrow> return result s)))
       | _ \<Rightarrow> raise KeyError s)"

text \<open>With its \<open>finally\<close> clause.\<close>

definition forward_with_unified_pool ::
  "bool \<Rightarrow> 'r kernel \<Rightarrow> nat \<Rightarrow> nat list \<Rightarrow> unified_manager \<Rightarrow> (unified_manager, 'r) res" where
  "forward_with_unified_pool paranoid apply i topk_ids s =
     (case pool_forward_body paranoid apply i topk_ids s of
        Inl (e, s1) \<Rightarrow> rbind (release_pinned i False s1) (\<lambda>_. raise e)
      | Inr (result, s1) \<Rightarrow> rbind (release_pinned i True s1) (\<lambda>_ s2. return result (end_forward_step s2)))"

section \<open>The pool as a store of expert weights\<close>

definition layer_of :: "nat \<Rightarrow> unified_manager \<Rightarrow> unified_layer" where
  "layer_of i s = the (map_of (layers s) i)"

definition buffer_of :: "nat \<Rightarrow> unified_manager \<Rightarrow> byte list" where
  "buffer_of i s = the (map_of (kv_pool_buffers s) i)"

definition pool_valid :: "nat \<Rightarrow> nat list \<Rightarrow> unified_manager \<Rightarrow> bool" where
  "pool_valid i needed s \<longleftrightarrow> engine_inv s \<and> distinct needed \<and>
     (\<exists>l. map_of (layers s) i = Some l \<and> pinned_super_blocks l = [] \<and> (\<forall>e \<in> set needed. e < num_experts l))"

text \<open>What a load leaves behind, in terms of the rows the kernel reads.\<close>

lemma loaded_layer:
  assumes s: "map_of (layers s) i = Some l" and L: "loaded i needed s s'"
  obtains l' buf where "map_of (layers s') i = Some l'" "map_of (kv_pool_buffers s') i = Some buf"
    "layer_ok (step s') l'" "cpu_w13_bytes l' = cpu_w13_bytes l" "cpu_w2_bytes l' = cpu_w2_bytes l" "num_experts l' = num_experts l"
    "\<forall>e \<in> set needed. \<exists>sb. map_of (expert_at_super_block l') sb = Some e \<and> super_block_id_at l' ! e = int sb"
    "\<forall>sb e. map_of (expert_at_super_block l') sb = Some e \<longrightarrow>
       pool_w13_row l' buf sb = cpu_w13_bytes l ! e \<and> pool_w2_row l' buf sb = cpu_w2_bytes l ! e"
proof -
  have J: "inv s'" and sp: "same_pool s s'" using L by (simp_all add: loaded_def)
  obtain l' where l': "map_of (layers s') i = Some l'" "\<forall>e \<in> set needed. \<exists>sb. map_of (expert_at_super_block l') sb = Some e"
    using L unfolding loaded_def by blast
  note D = manager_syncedD [OF J]
  have ok: "layer_ok (step s') l'" "map_of (kv_pool_buffers s') i \<noteq> None" using D(9) l'(1) unfolding layers_ok_def by blast+
  then obtain buf where buf: "map_of (kv_pool_buffers s') i = Some buf" by blast
  have "weights_of s' i = weights_of s i" "experts_of s' i = experts_of s i" using sp by (simp_all add: same_pool_def)
  then have w: "cpu_w13_bytes l' = cpu_w13_bytes l" "cpu_w2_bytes l' = cpu_w2_bytes l" "num_experts l' = num_experts l"
    using s l'(1) by (simp_all add: weights_of_def experts_of_def)
  have "super_block_id_at l' ! e = int sb" if e: "map_of (expert_at_super_block l') sb = Some e" for sb e
  proof -
    have m: "map_of (super_block_at_expert l') e = Some sb" using experts.inverse [OF ok(1)] e by blast
    from experts.row_home [OF ok(1) experts.bounded [OF ok(1) m]] show ?thesis unfolding m by simp
  qed
  with l'(2) have at: "\<forall>e \<in> set needed. \<exists>sb. map_of (expert_at_super_block l') sb = Some e \<and> super_block_id_at l' ! e = int sb" by blast
  have "\<forall>sb e. map_of (expert_at_super_block l') sb = Some e \<longrightarrow>
       pool_w13_row l' buf sb = cpu_w13_bytes l' ! e \<and> pool_w2_row l' buf sb = cpu_w2_bytes l' ! e"
    using D(11) l'(1) buf unfolding bytes_ok_def by blast
  then show thesis unfolding w(1,2) by (rule that [OF l'(1) buf ok(1) w at])
qed

lemma pool_load:
  assumes "pool_valid i needed s"
  shows "post (ensure_loaded i needed s) (\<lambda>_ s'. loaded i needed s s')
     (\<lambda>err s'. err = RuntimeError ''pool exhausted while resolving expert miss'' \<and> unwound i s s' \<and>
        card (usable_super_blocks s) < length needed)"
  using assms unfolding pool_valid_def engine_inv_def by (blast intro: ensure_loaded_ok)

interpretation pool_store: expert_store "pool_valid i" "\<lambda>s. card (usable_super_blocks s)" "ensure_loaded i"
  "\<lambda>s. super_block_id_at (layer_of i s)" "\<lambda>s. pool_row13 (layer_of i s) (buffer_of i s)" "\<lambda>s. pool_row2 (layer_of i s) (buffer_of i s)"
  "\<lambda>s e. cpu_w13_bytes (layer_of i s) ! e" "\<lambda>s e. cpu_w2_bytes (layer_of i s) ! e"
  for i
proof
  fix needed s assume v: "pool_valid i needed s"
  then obtain l where l: "map_of (layers s) i = Some l" "\<forall>e \<in> set needed. e < num_experts l" by (auto simp: pool_valid_def)
  show "post (ensure_loaded i needed s) (\<lambda>_ s'. \<forall>e \<in> set needed. e < length (super_block_id_at (layer_of i s')) \<and>
     pool_row13 (layer_of i s') (buffer_of i s') (super_block_id_at (layer_of i s') ! e) = cpu_w13_bytes (layer_of i s) ! e \<and>
     pool_row2 (layer_of i s') (buffer_of i s') (super_block_id_at (layer_of i s') ! e) = cpu_w2_bytes (layer_of i s) ! e) (\<lambda>_ _. True)"
  proof (rule post_mono [OF pool_load [OF v]])
    fix u s' assume L: "loaded i needed s s'"
    obtain l' buf where l': "map_of (layers s') i = Some l'" "map_of (kv_pool_buffers s') i = Some buf"
      and ok: "layer_ok (step s') l'" "cpu_w13_bytes l' = cpu_w13_bytes l" "cpu_w2_bytes l' = cpu_w2_bytes l" "num_experts l' = num_experts l"
      and at: "\<forall>e \<in> set needed. \<exists>sb. map_of (expert_at_super_block l') sb = Some e \<and> super_block_id_at l' ! e = int sb"
      and rows: "\<forall>sb e. map_of (expert_at_super_block l') sb = Some e \<longrightarrow>
         pool_w13_row l' buf sb = cpu_w13_bytes l ! e \<and> pool_w2_row l' buf sb = cpu_w2_bytes l ! e"
      by (rule loaded_layer [OF l(1) L])
    have f: "layer_of i s' = l'" "buffer_of i s' = buf" "layer_of i s = l" using l(1) l' by (simp_all add: layer_of_def buffer_of_def)
    show "\<forall>e \<in> set needed. e < length (super_block_id_at (layer_of i s')) \<and>
       pool_row13 (layer_of i s') (buffer_of i s') (super_block_id_at (layer_of i s') ! e) = cpu_w13_bytes (layer_of i s) ! e \<and>
       pool_row2 (layer_of i s') (buffer_of i s') (super_block_id_at (layer_of i s') ! e) = cpu_w2_bytes (layer_of i s) ! e"
    proof
      fix e assume e: "e \<in> set needed"
      then obtain sb where sb: "map_of (expert_at_super_block l') sb = Some e" "super_block_id_at l' ! e = int sb" using at by blast
      have "e < length (super_block_id_at l')" using ok(1,4) l(2) e by (simp add: layer_ok_def)
      with sb rows show "e < length (super_block_id_at (layer_of i s')) \<and>
         pool_row13 (layer_of i s') (buffer_of i s') (super_block_id_at (layer_of i s') ! e) = cpu_w13_bytes (layer_of i s) ! e \<and>
         pool_row2 (layer_of i s') (buffer_of i s') (super_block_id_at (layer_of i s') ! e) = cpu_w2_bytes (layer_of i s) ! e"
        unfolding f pool_row13_def pool_row2_def sb(2) by simp
    qed
  qed simp
  show "length needed \<le> card (usable_super_blocks s) \<Longrightarrow> runs_to (ensure_loaded i needed s) (\<lambda>_ _. True)"
    using post_mono [OF pool_load [OF v], of "\<lambda>_ _. True" "\<lambda>_ _. False"] by auto
qed

text \<open>The self-check never fails.\<close>

lemma paranoid_check_ok:
  assumes "\<forall>i \<in> set rows. \<exists>sb e. i = int sb \<and> map_of (expert_at_super_block l) sb = Some e \<and>
     pool_w13_row l buf sb = cpu_w13_bytes l ! e \<and> pool_w2_row l buf sb = cpu_w2_bytes l ! e"
  shows "paranoid_check l buf rows = Inr ()"
  using assms by (induction rows) (auto simp: pool_row13_def pool_row2_def simp del: map_of_eq_Some_iff)

text \<open>The \<open>try\<close> block: the load decides between the pool-exhausted error and the kernel's own outcome.\<close>

lemma pool_forward_body_ok:
  assumes v: "pool_valid i (unique_ids ids) s" and k: "reads_rows_by_id apply"
  defines "direct \<equiv> pool_store.on_full_weights i apply ids s"
  shows "post (pool_forward_body paranoid apply i ids s)
     (\<lambda>r s'. direct = Inr r \<and> loaded i (unique_ids ids) s s')
     (\<lambda>err s'. direct = Inl err \<and> loaded i (unique_ids ids) s s' \<or>
        err = RuntimeError ''pool exhausted while resolving expert miss'' \<and> unwound i s s' \<and>
        card (usable_super_blocks s) < card (set ids))"
proof (cases "ensure_loaded i (unique_ids ids) s")
  case (Inl r)
  obtain err s' where r: "r = (err, s')" by (cases r)
  have "length (unique_ids ids) = card (set ids)" using distinct_card [OF unique_ids(2), of ids] by simp
  with pool_load [OF v] show ?thesis unfolding pool_forward_body_def Inl r rbind_simps post_simps by simp
next
  case (Inr r)
  obtain s' where run: "ensure_loaded i (unique_ids ids) s = Inr ((), s')" using Inr by (cases r) simp
  have L: "loaded i (unique_ids ids) s s'" using pool_load [OF v] unfolding run by simp
  obtain l where l: "map_of (layers s) i = Some l" using v by (auto simp: pool_valid_def)
  obtain l' buf where l': "map_of (layers s') i = Some l'" "map_of (kv_pool_buffers s') i = Some buf"
    and ok: "layer_ok (step s') l'" "cpu_w13_bytes l' = cpu_w13_bytes l" "cpu_w2_bytes l' = cpu_w2_bytes l" "num_experts l' = num_experts l"
    and at: "\<forall>e \<in> set (unique_ids ids). \<exists>sb. map_of (expert_at_super_block l') sb = Some e \<and> super_block_id_at l' ! e = int sb"
    and rows: "\<forall>sb e. map_of (expert_at_super_block l') sb = Some e \<longrightarrow>
       pool_w13_row l' buf sb = cpu_w13_bytes l ! e \<and> pool_w2_row l' buf sb = cpu_w2_bytes l ! e"
    by (rule loaded_layer [OF l L])
  have f: "layer_of i s' = l'" "buffer_of i s' = buf" using l' by (simp_all add: layer_of_def buffer_of_def)
  obtain remapped where g: "gather (super_block_id_at l') ids = Inr remapped"
    and a: "apply (pool_row13 l' buf) (pool_row2 l' buf) remapped = direct"
    using pool_store.load_then_kernel [OF v k run] unfolding f direct_def by blast
  have rm: "remapped = map ((!) (super_block_id_at l')) ids" using g by (simp add: gather_def split: if_splits)
  have "\<forall>r \<in> set (sort (remdups remapped)). \<exists>sb e. r = int sb \<and> map_of (expert_at_super_block l') sb = Some e \<and>
     pool_w13_row l' buf sb = cpu_w13_bytes l' ! e \<and> pool_w2_row l' buf sb = cpu_w2_bytes l' ! e"
    unfolding ok(2,3) rm using at rows by fastforce
  note pc = paranoid_check_ok [OF this]
  have "pool_forward_body paranoid apply i ids s = (case direct of Inl e \<Rightarrow> raise e s' | Inr result \<Rightarrow> return result s')"
    unfolding pool_forward_body_def run rbind_simps l' prod.case option.case g sum.case pc a by simp
  then show ?thesis using L by (simp split: sum.split)
qed

section \<open>Properties\<close>

lemma end_forward_step_frame: "whole_super_blocks (end_forward_step s) = whole_super_blocks s" "pins_of (end_forward_step s) = pins_of s"
  "step (end_forward_step s) = step s + 1" "weights_of (end_forward_step s) = weights_of s"
  "blocks (end_forward_step s) = blocks s" "ref_at (end_forward_step s) = ref_at s"
  "enable_caching (end_forward_step s) = enable_caching s" "hash_block_size (end_forward_step s) = hash_block_size s"
  by (simp_all add: end_forward_step_def whole_super_blocks_def pins_of_def weights_of_def ref_at_def fun_eq_iff)

text \<open>The \<open>finally\<close> clause after a load or an unwound one.\<close>

lemma release_after:
  assumes e: "engine_inv s" and p: "pins_of s i = Some []"
    and s1: "inv s1" "same_pool s s1" "kv_kept s s1" "map_of (layers s1) i = Some l1" "\<forall>j. j \<noteq> i \<longrightarrow> pins_of s1 j = pins_of s j"
  shows "runs_to (release_pinned i c s1) (\<lambda>_ s2. engine_inv s2 \<and> same_pool s s2 \<and> kv_kept s s2 \<and> pins_of s2 = pins_of s)"
proof (rule runs_to_mono [OF release_pinned_ok [OF s1(1,4)]])
  fix u s2 assume a: "inv s2 \<and> same_pool s1 s2 \<and> kv_kept s1 s2 \<and> mapped s2 = mapped s1 \<and> pins_of s2 = (pins_of s1)(i \<mapsto> [])"
  have sp: "same_pool s s2" using same_pool_trans [OF s1(2)] a by blast
  have "pins_of s2 = pins_of s" using a s1(5) p by (auto simp: fun_eq_iff)
  moreover have "engine_inv s2" using engine_inv_same_pool [OF e _ sp] a by blast
  ultimately show "engine_inv s2 \<and> same_pool s s2 \<and> kv_kept s s2 \<and> pins_of s2 = pins_of s"
    using sp kv_kept_trans [OF s1(3), of s2] a s1(2) by (simp add: same_pool_def)
qed

lemma same_pool_layer:
  assumes "same_pool s s'" "map_of (layers s) i = Some l"
  obtains l' where "map_of (layers s') i = Some l'"
proof -
  have "experts_of s' i = experts_of s i" using assms(1) by (simp add: same_pool_def)
  then show thesis using assms(2) that by (auto simp: experts_of_def)
qed

text \<open>What a forward pass leaves as it was.\<close>

definition forward_kept :: "unified_manager \<Rightarrow> unified_manager \<Rightarrow> bool" where
  "forward_kept s s' \<longleftrightarrow> engine_inv s' \<and> kv_kept s s' \<and> pins_of s' = pins_of s \<and> weights_of s' = weights_of s \<and>
     length (blocks s') = length (blocks s) \<and> ref_at s' = ref_at s \<and> enable_caching s' = enable_caching s \<and>
     hash_block_size s' = hash_block_size s"

lemma forward_with_unified_pool_ok:
  assumes "engine_inv s" "map_of (layers s) i = Some l" "pinned_super_blocks l = []" "\<forall>e \<in> set ids. e < num_experts l"
    and "reads_rows_by_id apply"
  defines "direct \<equiv> apply (\<lambda>e. cpu_w13_bytes l ! nat e) (\<lambda>e. cpu_w2_bytes l ! nat e) (map int ids)"
  shows "post (forward_with_unified_pool paranoid apply i ids s)
     (\<lambda>r s'. direct = Inr r \<and> step s' = step s + 1 \<and> forward_kept s s')
     (\<lambda>err s'. (direct = Inl err \<or>
          err = RuntimeError ''pool exhausted while resolving expert miss'' \<and> card (usable_super_blocks s) < card (set ids)) \<and>
        step s' = step s \<and> forward_kept s s')"
proof -
  let ?short = "\<lambda>err. err = RuntimeError ''pool exhausted while resolving expert miss'' \<and> card (usable_super_blocks s) < card (set ids)"
  have v: "pool_valid i (unique_ids ids) s" using assms(1-4) by (auto simp: pool_valid_def)
  have p: "pins_of s i = Some []" using assms(2,3) by (simp add: pins_of_def)
  have d: "pool_store.on_full_weights i apply ids s = direct"
    unfolding direct_def pool_store.on_full_weights_def using assms(2) by (simp add: layer_of_def)
  have after: "runs_to (release_pinned i c s1) (\<lambda>_ s2. engine_inv s2 \<and> same_pool s s2 \<and> kv_kept s s2 \<and> pins_of s2 = pins_of s)"
    if s1: "loaded i (unique_ids ids) s s1 \<or> unwound i s s1" for c s1
  proof -
    have b: "inv s1" "same_pool s s1" "kv_kept s s1" "\<forall>j. j \<noteq> i \<longrightarrow> pins_of s1 j = pins_of s j"
      using s1 by (auto simp: loaded_def unwound_def)
    obtain l1 where "map_of (layers s1) i = Some l1" using same_pool_layer [OF b(2) assms(2)] .
    from release_after [OF assms(1) p b(1-3) this b(4)] show ?thesis .
  qed
  note body = pool_forward_body_ok [OF v assms(5), of paranoid, unfolded d]
  have fin: "step s2 = step s \<and> weights_of s2 = weights_of s \<and> length (blocks s2) = length (blocks s) \<and> ref_at s2 = ref_at s \<and>
    enable_caching s2 = enable_caching s \<and> hash_block_size s2 = hash_block_size s" if "same_pool s s2" for s2
    using that by (simp add: same_pool_def)
  show ?thesis
  proof (cases "pool_forward_body paranoid apply i ids s")
    case (Inl r)
    obtain err s1 where r: "r = (err, s1)" by (cases r)
    have o: "direct = Inl err \<or> ?short err" and s1: "loaded i (unique_ids ids) s s1 \<or> unwound i s s1"
      using body unfolding Inl r post_simps by blast+
    have "runs_to (release_pinned i False s1) (\<lambda>_ s2. (direct = Inl err \<or> ?short err) \<and> step s2 = step s \<and> forward_kept s s2)"
      unfolding forward_kept_def by (rule runs_to_mono [OF after [OF s1]]) (use o fin in blast)
    then show ?thesis
      unfolding forward_with_unified_pool_def Inl r sum.case prod.case post_rbind post_raise by (rule post_mono) auto
  next
    case (Inr r)
    obtain a s1 where r: "r = (a, s1)" by (cases r)
    have o: "direct = Inr a" and s1: "loaded i (unique_ids ids) s s1 \<or> unwound i s s1"
      using body unfolding Inr r post_simps by blast+
    have "runs_to (release_pinned i True s1) (\<lambda>_ s2. direct = Inr a \<and> step (end_forward_step s2) = step s + 1 \<and> forward_kept s (end_forward_step s2))"
    proof (rule runs_to_mono [OF after [OF s1]])
      fix u s2 assume a2: "engine_inv s2 \<and> same_pool s s2 \<and> kv_kept s s2 \<and> pins_of s2 = pins_of s"
      then have J: "inv s2" "whole_super_blocks s2" by (simp_all add: engine_inv_def)
      have len: "length (blocks s2) = length (blocks s)" using a2 by (simp add: same_pool_def)
      have "engine_inv (end_forward_step s2)"
        using end_forward_step_ok(1) [OF J(1)] J(2) by (simp add: engine_inv_def end_forward_step_frame)
      moreover have "kv_kept s (end_forward_step s2)"
        using kv_kept_trans [OF _ end_forward_step_ok(2) [OF J(1)] len] a2 by blast
      ultimately show "direct = Inr a \<and> step (end_forward_step s2) = step s + 1 \<and> forward_kept s (end_forward_step s2)"
        using o a2 fin [of s2] by (simp add: end_forward_step_frame forward_kept_def)
    qed
    then show ?thesis
      unfolding forward_with_unified_pool_def Inr r sum.case prod.case post_rbind post_return by (rule post_mono) auto
  qed
qed

text \<open>C38. The forward pass through the unified pool computes what the kernel computes on the full weights with the router's
  expert ids. It fails only with the kernel's own error or, when fewer super-blocks are free of request pages than
  experts are needed, with the pool-exhausted error. Either way the pool's invariant holds afterwards, KV data in use
  is untouched and no super-block stays pinned; the step counter advances exactly on success. The built-in
  self-check never fails.\<close>

theorem pool_forward_correct:
  assumes "engine_inv s" "map_of (layers s) i = Some l" "pinned_super_blocks l = []" "\<forall>e \<in> set ids. e < num_experts l"
    and "reads_rows_by_id apply"
  shows "post (forward_with_unified_pool paranoid apply i ids s)
     (\<lambda>r s'. apply (\<lambda>e. cpu_w13_bytes l ! nat e) (\<lambda>e. cpu_w2_bytes l ! nat e) (map int ids) = Inr r \<and> step s' = step s + 1 \<and>
        engine_inv s' \<and> kv_kept s s' \<and> pins_of s' = pins_of s \<and> weights_of s' = weights_of s)
     (\<lambda>err s'. (apply (\<lambda>e. cpu_w13_bytes l ! nat e) (\<lambda>e. cpu_w2_bytes l ! nat e) (map int ids) = Inl err \<or>
          err = RuntimeError ''pool exhausted while resolving expert miss'' \<and> card (usable_super_blocks s) < card (set ids)) \<and>
        step s' = step s \<and> engine_inv s' \<and> kv_kept s s' \<and> pins_of s' = pins_of s \<and> weights_of s' = weights_of s)"
  by (rule post_mono [OF forward_with_unified_pool_ok [OF assms, of paranoid]]) (simp_all add: forward_kept_def)

text \<open>A kernel that returns the rows it reads, on the cached demonstration pool.\<close>

definition read_rows :: "(byte list list \<times> byte list list) kernel" where
  "read_rows w13 w2 ids = Inr (map w13 ids, map w2 ids)"

lemma read_rows_by_id: "reads_rows_by_id read_rows"
  by (simp add: reads_rows_by_id_def read_rows_def)

lemma demo_weights: "cpu_w13_bytes (the (map_of (layers demo_cached) 0)) = [[1], [2]]"
  "cpu_w2_bytes (the (map_of (layers demo_cached) 0)) = [[3], [4]]"
  by code_simp+

lemma demo_usable: "2 \<le> card (usable_super_blocks demo_cached)"
proof -
  have "{2, 3} \<subseteq> usable_super_blocks demo_cached" using demo_vacatable by (auto simp: usable_super_blocks_def vacatable_def)
  from card_mono [OF finite_usable this] show ?thesis by simp
qed

theorem pool_forward_correct_witness:
  "runs_to (forward_with_unified_pool True read_rows 0 [1, 0, 1] demo_cached)
     (\<lambda>r s'. r = ([[2], [1], [2]], [[4], [3], [4]]) \<and> engine_inv s' \<and> step s' = step demo_cached + 1)"
proof -
  have "\<forall>e \<in> set [1, 0, 1]. e < num_experts (the (map_of (layers demo_cached) 0))" by (simp add: demo_lookup(3))
  from pool_forward_correct [OF demo_inv(2) demo_lookup(1,2) this read_rows_by_id, of True] show ?thesis
    by (rule post_mono) (use demo_usable in \<open>auto simp: read_rows_def demo_weights card_insert_if\<close>)
qed

text \<open>C39. The two offload paths are interchangeable: for the same weights and the same routing, a forward pass through the unified
  pool and one through the fixed-size expert cache have the same outcome, a result or the kernel's error, as long as the
  needed experts fit both.\<close>

theorem offload_paths_agree:
  assumes "engine_inv s" "map_of (layers s) i = Some l" "pinned_super_blocks l = []" "\<forall>e \<in> set ids. e < num_experts l"
    and "cache_inv c" "cpu_w13 c = cpu_w13_bytes l" "cpu_w2 c = cpu_w2_bytes l" "cache_num_experts c = num_experts l"
    and "card (set ids) \<le> card (usable_super_blocks s)" "card (set ids) \<le> cache_size c" "reads_rows_by_id apply"
  shows "outcome (forward_with_unified_pool paranoid apply i ids s) = outcome (forward_with_expert_cache apply ids c)"
proof -
  let ?direct = "apply (\<lambda>e. cpu_w13_bytes l ! nat e) (\<lambda>e. cpu_w2_bytes l ! nat e) (map int ids)"
  have both: "outcome r = ?direct" if "post r (\<lambda>a _. ?direct = Inr a) (\<lambda>e _. ?direct = Inl e)" for r :: "('s, _) res"
    using that by (auto simp: post_def outcome_def split: sum.splits)
  have "post (forward_with_unified_pool paranoid apply i ids s) (\<lambda>a _. ?direct = Inr a) (\<lambda>e _. ?direct = Inl e)"
    by (rule post_mono [OF forward_with_unified_pool_ok [OF assms(1-4,11)]]) (use assms(9) in auto)
  moreover have "\<forall>e \<in> set ids. e < cache_num_experts c" using assms(4,8) by simp
  then have "post (forward_with_expert_cache apply ids c) (\<lambda>a _. ?direct = Inr a) (\<lambda>e _. ?direct = Inl e)"
    by (rule post_mono [OF forward_with_expert_cache_ok [OF assms(5) _ assms(10,11)]]) (simp_all add: assms(6,7))
  ultimately show ?thesis using both both by metis
qed

theorem offload_paths_agree_witness:
  "outcome (forward_with_unified_pool False read_rows 0 [1, 0, 1] demo_cached) =
   outcome (forward_with_expert_cache read_rows [1, 0, 1] (final (expert_cache_init 2 [[1], [2]] [[3], [4]] [[0], [0]] [[0], [0]])))"
proof -
  obtain c where c: "expert_cache_init 2 [[1], [2]] [[3], [4]] [[0], [0]] [[0], [0]] = Inr ((), c)" "cache_inv c" "cache_size c = 2"
    "cache_num_experts c = 2" "cpu_w13 c = [[1], [2]]" "cpu_w2 c = [[3], [4]]"
    using expert_cache_init_ok [of 2 "[[1], [2]]" "[[3], [4]]" "[[0], [0]]" "[[0], [0]]"] by (auto elim!: runs_toE)
  show ?thesis
    unfolding c(1) final_simps
    by (rule offload_paths_agree [OF demo_inv(2) demo_lookup(1,2) _ c(2)])
      (use demo_usable in \<open>simp_all add: demo_lookup(3) demo_weights c card_insert_if read_rows_by_id\<close>)
qed

end
