(* ===== verification/Pool_Setup.thy ===== *)
theory Pool_Setup
  imports Complex_Main Pool_Forward
begin

text \<open>
  How the unified pool is put together: \<open>OffloadConfig.validate_offload_config\<close>
  (\<open>config/offload.py\<close>), \<open>extract_layer_index\<close> (\<open>models/utils.py\<close>), \<open>move_experts_to_cpu\<close>
  (\<open>unified_pool.py\<close>), \<open>FusedMoE.unified_pool_stage1\<close> (\<open>fused_moe/layer.py\<close>) and the two
  stages of \<open>GPUModelRunner\<close> (\<open>v1/worker/gpu_model_runner.py\<close>).

  A weight tensor is the list of its byte rows, one per expert. The attention backends' cache
  shapes and the KV cache specs of the model are inputs. Log output is left out.
\<close>

section \<open>Configuration\<close>

datatype offload_backend = Auto | Uva | Prefetch

record offload_config =
  offload_backend_of :: offload_backend
  cpu_offload_gb :: rat
  offload_group_size :: nat
  offload_num_in_group :: nat
  offload_prefetch_step :: nat
  expert_offload :: bool
  expert_cache_size :: nat
  expert_unified_pool :: bool
  expert_pool_page_tokens :: nat

text \<open>The list holds the warnings issued, by the backend whose settings are ignored.\<close>

definition validate_offload_config :: "offload_config \<Rightarrow> error + string list" where
  "validate_offload_config c =
     (if (offload_backend_of c = Prefetch \<or> offload_group_size c > 0) \<and> offload_num_in_group c > offload_group_size c
      then Inl (ValueError ''offload_num_in_group must be <= offload_group_size'')
      else if (offload_backend_of c = Prefetch \<or> offload_group_size c > 0) \<and> offload_prefetch_step c < 1
      then Inl (ValueError ''offload_prefetch_step must be >= 1'')
      else if expert_unified_pool c \<and> \<not> expert_offload c
      then Inl (ValueError ''--expert-unified-pool requires --expert-offload.'')
      else if expert_unified_pool c \<and> expert_pool_page_tokens c mod 16 \<noteq> 0
      then Inl (ValueError ''--expert-pool-page-tokens must be a multiple of 16'')
      else Inr (if offload_backend_of c = Uva \<and> offload_group_size c > 0 then [''prefetch'']
                else if offload_backend_of c = Prefetch \<and> cpu_offload_gb c > 0 then [''uva'']
                else if offload_backend_of c = Auto \<and> cpu_offload_gb c > 0 \<and> offload_group_size c > 0 then [''uva'']
                else []))"

section \<open>Layer names\<close>

text \<open>\<open>str.split(".")\<close>.\<close>

fun split_on :: "char \<Rightarrow> string \<Rightarrow> string list" where
  "split_on d [] = [[]]"
| "split_on d (c # cs) =
     (if c = d then [] # split_on d cs
      else case split_on d cs of w # ws \<Rightarrow> (c # w) # ws | [] \<Rightarrow> [[c]])"

text \<open>
  \<open>int(s)\<close> on ASCII text: blanks around, a sign, and digits in groups joined by single underscores;
  \<open>None\<close> is the \<open>ValueError\<close>.
\<close>

definition is_blank :: "char \<Rightarrow> bool" where
  "is_blank c \<longleftrightarrow> of_char c \<in> {9, 10, 11, 12, 13, 28, 29, 30, 31, 32 :: nat}"

definition strip :: "string \<Rightarrow> string" where
  "strip s = rev (dropWhile is_blank (rev (dropWhile is_blank s)))"

definition is_digit :: "char \<Rightarrow> bool" where
  "is_digit c \<longleftrightarrow> 48 \<le> (of_char c :: nat) \<and> (of_char c :: nat) \<le> 57"

fun digits_value :: "nat \<Rightarrow> bool \<Rightarrow> string \<Rightarrow> nat option" where
  "digits_value acc digit [] = (if digit then Some acc else None)"
| "digits_value acc digit (c # cs) =
     (if is_digit c then digits_value (10 * acc + (of_char c - 48)) True cs
      else if c = CHR ''_'' \<and> digit then digits_value acc False cs
      else None)"

definition python_int :: "string \<Rightarrow> int option" where
  "python_int s =
     (case strip s of
        [] \<Rightarrow> None
      | c # cs \<Rightarrow> if c = CHR ''+'' then map_option int (digits_value 0 False cs)
                else if c = CHR ''-'' then map_option (\<lambda>n. - int n) (digits_value 0 False cs)
                else map_option int (digits_value 0 False (c # cs)))"

fun has_infix :: "string \<Rightarrow> string \<Rightarrow> bool" where
  "has_infix w [] = (w = [])"
| "has_infix w (c # cs) = (take (length w) (c # cs) = w \<or> has_infix w cs)"

definition extract_layer_index :: "string \<Rightarrow> nat \<Rightarrow> error + int" where
  "extract_layer_index layer_name num_attn_module =
     (let int_vals = List.map_filter python_int (split_on CHR ''.'' layer_name)
      in if num_attn_module = 1 \<or> \<not> has_infix ''attn'' layer_name
         then if length int_vals = 1 then Inr (int_vals ! 0)
              else Inl (AssertionError ''layer name should only contain one integer'')
         else if length int_vals > 2 then Inl (AssertionError ''layer name should contain most two integers'')
         else if length int_vals = 2 then Inr (int_vals ! 0 * int num_attn_module + int_vals ! 1)
         else if int_vals = [] then Inl IndexError
         else Inr (int_vals ! 0))"

section \<open>The MoE layers at stage 1\<close>

record tensor =
  t_rows :: "byte list list"
  element_size :: nat
  is_cuda :: bool
  is_pinned :: bool

definition cpu_pinned :: "tensor \<Rightarrow> tensor" where
  "cpu_pinned t =
     (let t1 = (if is_cuda t then t\<lparr>is_cuda := False, is_pinned := False\<rparr> else t)
      in if is_pinned t1 then t1 else t1\<lparr>is_pinned := True\<rparr>)"

definition move_experts_to_cpu :: "tensor \<Rightarrow> tensor \<Rightarrow> tensor \<times> tensor" where
  "move_experts_to_cpu w13 w2 = (cpu_pinned w13, cpu_pinned w2)"

text \<open>The part of \<open>FusedMoE\<close> the pool uses; \<open>None\<close> is an attribute that does not exist yet.\<close>

record moe_module =
  moe_layer_name :: string
  w13_weight :: "tensor option"
  w2_weight :: "tensor option"
  unified_pool_cpu :: "(tensor \<times> tensor) option"

record moe_meta =
  meta_layer_idx :: int
  meta_num_experts :: nat
  meta_w13_bytes :: nat
  meta_w2_bytes :: nat
  meta_slot_bytes :: nat

text \<open>\<open>t.element_size() * t[0].numel()\<close>.\<close>

definition row_bytes :: "tensor \<Rightarrow> error + nat" where
  "row_bytes t = (case t_rows t of [] \<Rightarrow> Inl IndexError | r # _ \<Rightarrow> Inr (length r))"

definition moe_stage1 :: "moe_module \<Rightarrow> (moe_module, moe_meta) res" where
  "moe_stage1 m =
     (case (w13_weight m, w2_weight m) of
        (Some w13, Some w2) \<Rightarrow>
          (let (cpu13, cpu2) = move_experts_to_cpu w13 w2;
               m1 = m\<lparr>w13_weight := Some cpu13, w2_weight := Some cpu2, unified_pool_cpu := Some (cpu13, cpu2)\<rparr>
           in case row_bytes cpu13 of
                Inl e \<Rightarrow> raise e m1
              | Inr n13 \<Rightarrow> (case row_bytes cpu2 of
                  Inl e \<Rightarrow> raise e m1
                | Inr n2 \<Rightarrow> (case extract_layer_index (moe_layer_name m) 1 of
                    Inl e \<Rightarrow> raise e m1
                  | Inr idx \<Rightarrow> return \<lparr>meta_layer_idx = idx, meta_num_experts = length (t_rows cpu13), meta_w13_bytes = n13,
                                       meta_w2_bytes = n2, meta_slot_bytes = n13 + n2\<rparr> m1)))
      | _ \<Rightarrow> raise (RuntimeError ''FusedMoE has no w13_weight/w2_weight at unified-pool Stage 1'') m)"

text \<open>\<open>_maybe_init_expert_cache\<close>: \<open>raw13\<close> and \<open>raw2\<close> give the unspecified rows of fresh tensors.\<close>

definition maybe_init_expert_cache ::
  "offload_config \<Rightarrow> (nat \<Rightarrow> byte list list) \<Rightarrow> (nat \<Rightarrow> byte list list) \<Rightarrow>
     moe_module \<times> expert_cache option \<Rightarrow> error + moe_module \<times> expert_cache option" where
  "maybe_init_expert_cache c raw13 raw2 mc =
     (let (m, cache) = mc; size = (if expert_offload c then expert_cache_size c else 0)
      in if cache \<noteq> None \<or> size \<le> 0 then Inr mc
         else if expert_offload c \<and> expert_unified_pool c then Inr mc
         else case (w13_weight m, w2_weight m) of
                (Some w13, Some w2) \<Rightarrow>
                  (let (cpu13, cpu2) = move_experts_to_cpu w13 w2; n = min size (length (t_rows cpu13))
                   in case expert_cache_init n (t_rows cpu13) (t_rows cpu2) (raw13 n) (raw2 n) of
                        Inl (e, _) \<Rightarrow> Inl e
                      | Inr (_, ec) \<Rightarrow> Inr (m\<lparr>w13_weight := Some cpu13, w2_weight := Some cpu2\<rparr>, Some ec))
              | _ \<Rightarrow> Inr mc)"

section \<open>Stage 1 of the model runner\<close>

record runner_config =
  tensor_parallel_size :: nat
  pipeline_parallel_size :: nat
  enable_prefix_caching :: bool
  enforce_eager :: bool
  max_num_batched_tokens :: nat
  async_scheduling :: bool
  offload :: offload_config

text \<open>
  An entry of \<open>static_forward_context\<close>: an attention layer with its backend's cache shape for
  \<open>num_blocks block_size num_kv_heads head_size\<close>, or something else.
\<close>

datatype ctx_layer = AttentionLayer "nat \<Rightarrow> nat \<Rightarrow> nat \<Rightarrow> nat \<Rightarrow> nat list" | OtherLayer

text \<open>A KV cache spec: the class, whether it derives from \<open>AttentionSpec\<close>, and the fields read here.\<close>

record kv_spec =
  spec_class :: string
  is_attention_spec :: bool
  num_kv_heads :: nat
  head_size :: nat
  dtype_size :: nat

datatype model_module = FusedMoE moe_module | OtherModule

record runner =
  model_modules :: "model_module list"
  block_size :: nat
  user_specified_block_size :: bool
  pool_moe_modules :: "moe_module list"
  pool_metas :: "moe_meta list"
  pool_slot_bytes :: nat
  pool_page_bytes :: nat
  pool_pages_per_super_block :: nat
  pool_w13_bytes :: nat
  pool_w2_bytes :: nat
  raw_kv_tensors :: "(string, byte list) dict"

fun assert_kv_layout :: "(string, ctx_layer) dict \<Rightarrow> error + unit" where
  "assert_kv_layout [] = Inr ()"
| "assert_kv_layout ((name, OtherLayer) # ls) = assert_kv_layout ls"
| "assert_kv_layout ((name, AttentionLayer shape) # ls) =
     (case shape 99 16 1 1 of
        [] \<Rightarrow> Inl IndexError
      | n # _ \<Rightarrow> if n \<noteq> 99 then Inl (ValueError ''--expert-unified-pool requires K and V contiguous per block'') else Inr ())"

definition check_runner_config :: "runner_config \<Rightarrow> error + unit" where
  "check_runner_config c =
     (if tensor_parallel_size c \<noteq> 1 then Inl (ValueError ''--expert-unified-pool requires --tensor-parallel-size=1'')
      else if pipeline_parallel_size c \<noteq> 1 then Inl (ValueError ''--expert-unified-pool requires --pipeline-parallel-size=1'')
      else if \<not> enable_prefix_caching c then Inl (ValueError ''--expert-unified-pool requires --enable-prefix-caching.'')
      else if \<not> enforce_eager c then Inl (ValueError ''--expert-unified-pool requires --enforce-eager.'')
      else if max_num_batched_tokens c \<noteq> 1 then Inl (ValueError ''--expert-unified-pool requires --max-num-batched-tokens=1'')
      else if async_scheduling c then Inl (ValueError ''--expert-unified-pool requires async_scheduling=False.'')
      else Inr ())"

text \<open>The loop over \<open>model.modules()\<close>, on the modules themselves.\<close>

fun stage1_modules :: "model_module list \<Rightarrow> (model_module list, (moe_module \<times> moe_meta) list) res" where
  "stage1_modules [] = return [] []"
| "stage1_modules (OtherModule # ms) =
     (case stage1_modules ms of Inl (e, ms') \<Rightarrow> Inl (e, OtherModule # ms') | Inr (xs, ms') \<Rightarrow> Inr (xs, OtherModule # ms'))"
| "stage1_modules (FusedMoE m # ms) =
     (case moe_stage1 m of
        Inl (e, m') \<Rightarrow> Inl (e, FusedMoE m' # ms)
      | Inr (meta, m') \<Rightarrow>
          (case stage1_modules ms of
             Inl (e, ms') \<Rightarrow> Inl (e, FusedMoE m' # ms')
           | Inr (xs, ms') \<Rightarrow> Inr ((m', meta) # xs, FusedMoE m' # ms')))"

text \<open>The KV specs are all of one attention class; the result is the first.\<close>

fun check_specs :: "kv_spec \<Rightarrow> (string, kv_spec) dict \<Rightarrow> error + unit" where
  "check_specs sample [] = Inr ()"
| "check_specs sample ((name, sp) # specs) =
     (if \<not> is_attention_spec sp then Inl (ValueError ''--expert-unified-pool requires uniform attention KV cache'')
      else if spec_class sp \<noteq> spec_class sample
      then Inl (ValueError ''--expert-unified-pool requires uniform KV cache specs across layers'')
      else check_specs sample specs)"

definition uniform_spec :: "(string, kv_spec) dict \<Rightarrow> error + kv_spec" where
  "uniform_spec specs =
     (case specs of
        [] \<Rightarrow> Inl (ValueError ''--expert-unified-pool: model has no KV cache layers.'')
      | (_, sample) # _ \<Rightarrow>
          if \<not> is_attention_spec sample
          then Inl (ValueError ''--expert-unified-pool: only models with AttentionSpec KV cache layers are supported'')
          else (case check_specs sample specs of Inl e \<Rightarrow> Inl e | Inr _ \<Rightarrow> Inr sample))"

text \<open>The page and super-block sizes: bytes of a page and pages of a super-block.\<close>

definition page_geometry :: "nat \<Rightarrow> kv_spec \<Rightarrow> nat \<Rightarrow> error + nat \<times> nat" where
  "page_geometry slot_bytes spec page_tokens =
     (let bytes_per_token = 2 * num_kv_heads spec * head_size spec * dtype_size spec;
          page_size_bytes = page_tokens * bytes_per_token
      in if bytes_per_token = 0 then Inl ZeroDivisionError
         else if slot_bytes mod bytes_per_token \<noteq> 0
         then Inl (ValueError ''--expert-unified-pool: expert slot size is not a multiple of KV bytes-per-token'')
         else if page_tokens mod 16 \<noteq> 0
         then Inl (ValueError ''--expert-pool-page-tokens is not a multiple of the kernel block size'')
         else if page_size_bytes = 0 then Inl ZeroDivisionError
         else if slot_bytes mod page_size_bytes \<noteq> 0
         then Inl (ValueError ''--expert-unified-pool: expert slot size is not a multiple of the page size'')
         else Inr (page_size_bytes, slot_bytes div page_size_bytes))"

text \<open>The second half of stage 1, with the MoE layers found: one slot size, the page size, and the results.\<close>

definition stage1_sizes :: "runner_config \<Rightarrow> (string, kv_spec) dict \<Rightarrow> (moe_module \<times> moe_meta) list \<Rightarrow> runner \<Rightarrow> (runner, unit) res" where
  "stage1_sizes c kv_specs found r =
     (case map snd found of
        [] \<Rightarrow> raise (ValueError ''--expert-unified-pool was set, but the model has no FusedMoE modules.'') r
      | first # others \<Rightarrow>
          if \<exists>meta \<in> set others. meta_slot_bytes meta \<noteq> meta_slot_bytes first
          then raise (ValueError ''All FusedMoE layers must have identical expert-slot byte sizes'') r
          else (case uniform_spec kv_specs of
             Inl e \<Rightarrow> raise e r
           | Inr spec \<Rightarrow>
          (case page_geometry (meta_slot_bytes first) spec (expert_pool_page_tokens (offload c)) of
             Inl e \<Rightarrow> raise e r
           | Inr (page, f) \<Rightarrow>
               return () (r\<lparr>block_size := expert_pool_page_tokens (offload c), user_specified_block_size := True,
                 pool_moe_modules := map fst found, pool_metas := map snd found, pool_slot_bytes := meta_slot_bytes first,
                 pool_page_bytes := page, pool_pages_per_super_block := f,
                 pool_w13_bytes := meta_w13_bytes first, pool_w2_bytes := meta_w2_bytes first, raw_kv_tensors := []\<rparr>))))"

definition unified_pool_stage1 ::
  "runner_config \<Rightarrow> (string, ctx_layer) dict \<Rightarrow> (string, kv_spec) dict \<Rightarrow> runner \<Rightarrow> (runner, unit) res" where
  "unified_pool_stage1 c ctx kv_specs r =
     (case check_runner_config c of
        Inl e \<Rightarrow> raise e r
      | Inr _ \<Rightarrow>
     (case assert_kv_layout ctx of
        Inl e \<Rightarrow> raise e r
      | Inr _ \<Rightarrow>
     (case stage1_modules (model_modules r) of
        Inl (e, ms) \<Rightarrow> raise e (r\<lparr>model_modules := ms\<rparr>)
      | Inr (found, ms) \<Rightarrow> stage1_sizes c kv_specs found (r\<lparr>model_modules := ms\<rparr>))))"

definition unified_pool_capture_raw_kv :: "(string, byte list) dict \<Rightarrow> runner \<Rightarrow> runner" where
  "unified_pool_capture_raw_kv raw r = r\<lparr>raw_kv_tensors := raw\<rparr>"

section \<open>Stage 2\<close>

text \<open>The raw KV byte tensors by attention layer index; their dtype is \<open>int8\<close>.\<close>

fun attn_layers :: "(string, byte list) dict \<Rightarrow> (string, ctx_layer) dict \<Rightarrow> (int, byte list) dict \<Rightarrow> error + (int, byte list) dict" where
  "attn_layers raw [] acc = Inr acc"
| "attn_layers raw ((name, OtherLayer) # ls) acc = attn_layers raw ls acc"
| "attn_layers raw ((name, AttentionLayer _) # ls) acc =
     (case map_of raw name of
        None \<Rightarrow> attn_layers raw ls acc
      | Some buf \<Rightarrow>
          (case extract_layer_index name 1 of
             Inl e \<Rightarrow> Inl e
           | Inr idx \<Rightarrow> attn_layers raw ls (AList.update idx buf acc)))"

definition pool_buffers :: "nat \<Rightarrow> (int, byte list) dict \<Rightarrow> error + (int, byte list) dict" where
  "pool_buffers required bufs =
     (if \<exists>buf \<in> snd ` set bufs. length buf < required then Inl (RuntimeError ''KV byte tensor size < num_gpu_blocks * page_size_bytes'')
      else Inr (map (\<lambda>(i, buf). (i, take required buf)) bufs))"

text \<open>One round of the loop that builds, registers and attaches the layers.\<close>

definition build_layer :: "runner \<Rightarrow> (int, byte list) dict \<Rightarrow> moe_module \<times> moe_meta \<Rightarrow> unified_manager \<Rightarrow> (unified_manager, unit) res" where
  "build_layer r bufs mm s =
     (let (m, meta) = mm
      in case map_of bufs (meta_layer_idx meta) of
           None \<Rightarrow> raise (RuntimeError ''UnifiedPool: no attention KV tensor found for FusedMoE'') s
         | Some buf \<Rightarrow>
             (case unified_pool_cpu m of
                None \<Rightarrow> raise AttributeError s
              | Some (cpu13, cpu2) \<Rightarrow>
                  (case unified_layer_init (nat (meta_layer_idx meta)) (meta_num_experts meta) (t_rows cpu13) (t_rows cpu2) (length buf)
                          (pool_page_bytes r) (pool_slot_bytes r) (pool_w13_bytes r) (pool_w2_bytes r) (element_size cpu13) of
                     Inl e \<Rightarrow> raise e s
                   | Inr l \<Rightarrow> register_layer l s)))"

definition setup_unified_pool ::
  "offload_config \<Rightarrow> (string, ctx_layer) dict \<Rightarrow> bool \<Rightarrow> bool \<Rightarrow> runner \<Rightarrow> block_pool \<Rightarrow> error + nat \<times> unified_manager" where
  "setup_unified_pool c ctx relocate score_oldest r bp =
     (if pool_moe_modules r = [] then Inl (RuntimeError ''setup_unified_pool called before Stage 1 ran.'')
      else if raw_kv_tensors r = [] then Inl (RuntimeError ''setup_unified_pool called before KV cache tensors were allocated.'')
      else case attn_layers (raw_kv_tensors r) ctx [] of
        Inl e \<Rightarrow> Inl e
      | Inr attn \<Rightarrow>
     (case pool_buffers (num_gpu_blocks bp * pool_page_bytes r) attn of
        Inl e \<Rightarrow> Inl e
      | Inr bufs \<Rightarrow>
     (case manager_init bp (pool_pages_per_super_block r) (pool_page_bytes r) (map (\<lambda>(i, buf). (nat i, buf)) bufs) relocate score_oldest of
        Inl e \<Rightarrow> Inl e
      | Inr s0 \<Rightarrow>
     (case for_each (build_layer r bufs) (zip (pool_moe_modules r) (pool_metas r)) s0 of
        Inl (e, _) \<Rightarrow> Inl e
      | Inr (_, s1) \<Rightarrow>
          if int (expert_cache_size c) > int (num_gpu_blocks bp div pool_pages_per_super_block r) - 1
          then Inl (RuntimeError ''UnifiedPool: warm-up requires more super-blocks than are available'')
          else (case warm_up (expert_cache_size c) s1 of
                  Inl (e, _) \<Rightarrow> Inl e
                | Inr (_, s2) \<Rightarrow> Inr (num_gpu_blocks bp, s2))))))"

section \<open>What stage 1 establishes\<close>

lemma cpu_pinned_rows [simp]: "t_rows (cpu_pinned t) = t_rows t" "element_size (cpu_pinned t) = element_size t"
  "is_pinned (cpu_pinned t)" "is_cuda (cpu_pinned t) = False"
  by (simp_all add: cpu_pinned_def Let_def)

text \<open>A layer after its stage 1: the CPU copies hold the loaded weights and the metadata describes them.\<close>

definition staged :: "moe_module \<Rightarrow> moe_module \<times> moe_meta \<Rightarrow> bool" where
  "staged m0 mm \<longleftrightarrow> (\<exists>w13 w2. w13_weight m0 = Some w13 \<and> w2_weight m0 = Some w2 \<and> t_rows w13 \<noteq> [] \<and> t_rows w2 \<noteq> [] \<and>
     unified_pool_cpu (fst mm) = Some (cpu_pinned w13, cpu_pinned w2) \<and>
     extract_layer_index (moe_layer_name m0) 1 = Inr (meta_layer_idx (snd mm)) \<and> meta_num_experts (snd mm) = length (t_rows w13) \<and>
     meta_w13_bytes (snd mm) = length (hd (t_rows w13)) \<and> meta_w2_bytes (snd mm) = length (hd (t_rows w2)) \<and>
     meta_slot_bytes (snd mm) = meta_w13_bytes (snd mm) + meta_w2_bytes (snd mm))"

lemma moe_stage1_ok: "moe_stage1 m = Inr (meta, m') \<Longrightarrow> staged m (m', meta)"
  by (auto simp: moe_stage1_def staged_def row_bytes_def Let_def move_experts_to_cpu_def raise_def return_def split: option.splits sum.splits list.splits)

fun moe_layers :: "model_module list \<Rightarrow> moe_module list" where
  "moe_layers [] = []"
| "moe_layers (OtherModule # ms) = moe_layers ms"
| "moe_layers (FusedMoE m # ms) = m # moe_layers ms"

lemma stage1_modules_ok: "stage1_modules ms = Inr (found, ms') \<Longrightarrow> list_all2 staged (moe_layers ms) found"
  by (induction ms arbitrary: found ms' rule: stage1_modules.induct)
    (auto simp: return_def moe_stage1_ok split: sum.splits)

text \<open>The sizes that stage 2 relies on.\<close>

definition sized :: "runner \<Rightarrow> bool" where
  "sized r \<longleftrightarrow> 0 < pool_page_bytes r \<and> pool_slot_bytes r = pool_pages_per_super_block r * pool_page_bytes r \<and>
     pool_w13_bytes r + pool_w2_bytes r = pool_slot_bytes r \<and> block_size r mod 16 = 0"

lemma page_geometry_ok:
  assumes "page_geometry slot spec tokens = Inr (page, f)"
  shows "0 < page" "slot = f * page" "tokens mod 16 = 0" "page = tokens * (2 * num_kv_heads spec * head_size spec * dtype_size spec)"
  using assms by (auto simp: page_geometry_def Let_def split: if_splits)

lemma stage1_sizes_ok:
  assumes "stage1_sizes c specs found r = Inr ((), r')"
  obtains first others spec page f where "map snd found = first # others"
    "\<forall>meta \<in> set others. meta_slot_bytes meta = meta_slot_bytes first"
    "page_geometry (meta_slot_bytes first) spec (expert_pool_page_tokens (offload c)) = Inr (page, f)"
    "r' = r\<lparr>block_size := expert_pool_page_tokens (offload c), user_specified_block_size := True,
             pool_moe_modules := map fst found, pool_metas := map snd found, pool_slot_bytes := meta_slot_bytes first,
             pool_page_bytes := page, pool_pages_per_super_block := f,
             pool_w13_bytes := meta_w13_bytes first, pool_w2_bytes := meta_w2_bytes first, raw_kv_tensors := []\<rparr>"
proof (cases "map snd found")
  case Nil
  with assms show thesis by (simp add: stage1_sizes_def raise_def)
next
  case (Cons first others)
  show thesis
  proof (cases "uniform_spec specs")
    case (Inl e)
    with assms Cons show thesis by (simp add: stage1_sizes_def raise_def split: if_splits)
  next
    case (Inr spec)
    show thesis
    proof (cases "page_geometry (meta_slot_bytes first) spec (expert_pool_page_tokens (offload c))")
      case (Inl e)
      with assms Cons Inr show thesis by (simp add: stage1_sizes_def raise_def split: if_splits)
    next
      case pg: (Inr p)
      obtain page f where "p = (page, f)" by (cases p)
      with assms Cons Inr pg that [OF Cons, of spec page f] show thesis
        by (simp add: stage1_sizes_def raise_def return_def split: if_splits)
    qed
  qed
qed

lemma stage1_ok:
  assumes "unified_pool_stage1 c ctx specs r = Inr ((), r')"
  obtains found first where "list_all2 staged (moe_layers (model_modules r)) found" "sized r'"
    "pool_moe_modules r' = map fst found" "pool_metas r' = map snd found" "first \<in> set (map snd found)"
    "pool_w13_bytes r' = meta_w13_bytes first" "pool_w2_bytes r' = meta_w2_bytes first"
    "\<forall>meta \<in> set (map snd found). meta_slot_bytes meta = pool_slot_bytes r'" "block_size r' = expert_pool_page_tokens (offload c)"
proof -
  obtain found ms where f: "stage1_modules (model_modules r) = Inr (found, ms)" "stage1_sizes c specs found (r\<lparr>model_modules := ms\<rparr>) = Inr ((), r')"
    using assms by (auto simp: unified_pool_stage1_def raise_def split: sum.splits)
  obtain first others spec page g where fo: "map snd found = first # others"
    and same: "\<forall>meta \<in> set others. meta_slot_bytes meta = meta_slot_bytes first"
    and g: "page_geometry (meta_slot_bytes first) spec (expert_pool_page_tokens (offload c)) = Inr (page, g)"
    and r': "r' = r\<lparr>model_modules := ms, block_size := expert_pool_page_tokens (offload c), user_specified_block_size := True,
             pool_moe_modules := map fst found, pool_metas := map snd found, pool_slot_bytes := meta_slot_bytes first,
             pool_page_bytes := page, pool_pages_per_super_block := g,
             pool_w13_bytes := meta_w13_bytes first, pool_w2_bytes := meta_w2_bytes first, raw_kv_tensors := []\<rparr>"
    by (rule stage1_sizes_ok [OF f(2)])
  have all: "list_all2 staged (moe_layers (model_modules r)) found" by (rule stage1_modules_ok [OF f(1)])
  have "first \<in> set (map snd found)" unfolding fo by simp
  then obtain k where k: "k < length found" "snd (found ! k) = first" unfolding in_set_conv_nth by auto
  with list_all2_nthD2 [OF all k(1)] have "meta_slot_bytes first = meta_w13_bytes first + meta_w2_bytes first" by (auto simp: staged_def)
  with page_geometry_ok [OF g] have "sized r'" unfolding r' sized_def by simp
  show thesis
  proof (rule that [OF all \<open>sized r'\<close>, of first])
    show "first \<in> set (map snd found)" unfolding fo by simp
    show "\<forall>meta \<in> set (map snd found). meta_slot_bytes meta = pool_slot_bytes r'" unfolding fo r' using same by simp
  qed (simp_all add: r')
qed

section \<open>What stage 2 establishes\<close>

text \<open>
  The tensors of the model are rectangular with one row per expert, and every layer splits an
  expert's bytes alike between the two tensors. (Stage 1 compares only the sums.)
\<close>

definition weights_fit :: "nat \<Rightarrow> nat \<Rightarrow> moe_module list \<Rightarrow> bool" where
  "weights_fit a b ms \<longleftrightarrow> (\<forall>m \<in> set ms. \<forall>w13 w2. w13_weight m = Some w13 \<and> w2_weight m = Some w2 \<longrightarrow>
     length (t_rows w2) = length (t_rows w13) \<and> (\<forall>row \<in> set (t_rows w13). length row = a) \<and> (\<forall>row \<in> set (t_rows w2). length row = b))"

definition nonneg_layers :: "(string, ctx_layer) dict \<Rightarrow> bool" where
  "nonneg_layers ctx \<longleftrightarrow> (\<forall>name \<in> fst ` set ctx. \<forall>i. extract_layer_index name 1 = Inr i \<longrightarrow> 0 \<le> i)"

lemma attn_layers_ok:
  assumes "attn_layers raw ctx acc = Inr attn" "nonneg_layers ctx" "dict_wf acc" "\<forall>i \<in> fst ` set acc. 0 \<le> i"
  shows "dict_wf attn \<and> (\<forall>i \<in> fst ` set attn. 0 \<le> i)"
  using assms
proof (induction raw ctx acc rule: attn_layers.induct)
  case (3 raw name shape ls acc)
  have nl: "nonneg_layers ls" using 3(4) by (simp add: nonneg_layers_def)
  show ?case
  proof (cases "map_of raw name")
    case None
    with 3 nl show ?thesis by simp
  next
    case (Some buf)
    with 3(3) obtain idx where i: "extract_layer_index name 1 = Inr idx" "attn_layers raw ls (AList.update idx buf acc) = Inr attn"
      by (auto split: sum.splits)
    have "0 \<le> idx" using 3(4) i(1) by (simp add: nonneg_layers_def)
    with 3(2) [OF Some i(1) i(2) nl] 3(5,6) show ?thesis by simp
  qed
qed (auto simp: nonneg_layers_def)

lemma pool_buffers_ok:
  assumes "pool_buffers required attn = Inr bufs" "dict_wf attn" "\<forall>i \<in> fst ` set attn. 0 \<le> i"
  shows "dict_wf (map (\<lambda>(i, buf). (nat i, buf)) bufs)" "\<forall>buf \<in> snd ` set (map (\<lambda>(i, buf). (nat i, buf)) bufs). length buf = required"
    "map_of bufs i = Some buf \<Longrightarrow> map_of (map (\<lambda>(i, buf). (nat i, buf)) bufs) (nat i) = Some buf \<and> length buf = required"
proof -
  have b: "bufs = map (\<lambda>(i, buf). (i, take required buf)) attn" "\<forall>buf \<in> snd ` set attn. required \<le> length buf"
    using assms(1) by (auto simp: pool_buffers_def split: if_splits)
  have keys: "map fst bufs = map fst attn" by (simp add: b(1) case_prod_beta')
  have "inj_on nat (fst ` set attn)" by (rule inj_onI) (use assms(3) eq_nat_nat_iff in blast)
  then have "distinct (map nat (map fst attn))" using assms(2) by (simp add: distinct_map comp_inj_on)
  moreover have "map fst (map (\<lambda>(i, buf). (nat i, buf)) bufs) = map nat (map fst bufs)" by (simp add: case_prod_beta')
  ultimately show wf: "dict_wf (map (\<lambda>(i, buf). (nat i, buf)) bufs)" using keys by simp
  show len: "\<forall>buf \<in> snd ` set (map (\<lambda>(i, buf). (nat i, buf)) bufs). length buf = required"
  proof
    fix buf assume "buf \<in> snd ` set (map (\<lambda>(i, buf). (nat i, buf)) bufs)"
    then obtain x where "x \<in> snd ` set attn" "buf = take required x" by (force simp: b(1))
    moreover from this b(2) have "required \<le> length x" by blast
    ultimately show "length buf = required" by simp
  qed
  show "map_of (map (\<lambda>(i, buf). (nat i, buf)) bufs) (nat i) = Some buf \<and> length buf = required" if "map_of bufs i = Some buf"
  proof -
    have "(i, buf) \<in> set bufs" using that by (rule map_of_SomeD)
    then have "(nat i, buf) \<in> set (map (\<lambda>(i, buf). (nat i, buf)) bufs)" by force
    with wf len show ?thesis by (metis map_of_is_SomeI image_eqI snd_conv)
  qed
qed

text \<open>While the layers are built.\<close>

definition building :: "runner \<Rightarrow> block_pool \<Rightarrow> (int, byte list) dict \<Rightarrow> unified_manager \<Rightarrow> bool" where
  "building r bp bufs s \<longleftrightarrow> inv s \<and> unpinned s \<and> (\<forall>i b e. \<not> mapped s i b e) \<and> base s = bp \<and>
     kv_pool_buffers s = map (\<lambda>(i, buf). (nat i, buf)) bufs \<and> page_size_bytes s = pool_page_bytes r \<and>
     pages_per_super_block s = pool_pages_per_super_block r"

lemma build_layer_ok:
  assumes B: "building r bp bufs s" and st: "staged m0 mm" and fit: "weights_fit (pool_w13_bytes r) (pool_w2_bytes r) [m0]"
    and buf: "\<And>i buf. map_of bufs i = Some buf \<Longrightarrow> map_of (map (\<lambda>(i, buf). (nat i, buf)) bufs) (nat i) = Some buf"
    and run: "build_layer r bufs mm s = Inr ((), s')"
  shows "building r bp bufs s' \<and> (\<forall>j. j \<noteq> nat (meta_layer_idx (snd mm)) \<longrightarrow> map_of (layers s') j = map_of (layers s) j) \<and>
     map_of (layers s) (nat (meta_layer_idx (snd mm))) = None \<and>
     (\<exists>w13 w2. w13_weight m0 = Some w13 \<and> w2_weight m0 = Some w2 \<and>
        weights_of s' (nat (meta_layer_idx (snd mm))) = Some (t_rows w13, t_rows w2))"
proof -
  obtain w13 w2 where w: "w13_weight m0 = Some w13" "w2_weight m0 = Some w2" "unified_pool_cpu (fst mm) = Some (cpu_pinned w13, cpu_pinned w2)"
    "meta_num_experts (snd mm) = length (t_rows w13)" using st by (auto simp: staged_def)
  let ?i = "nat (meta_layer_idx (snd mm))"
  obtain b l where b: "map_of bufs (meta_layer_idx (snd mm)) = Some b"
    and l: "unified_layer_init ?i (length (t_rows w13)) (t_rows w13) (t_rows w2) (length b) (pool_page_bytes r) (pool_slot_bytes r)
        (pool_w13_bytes r) (pool_w2_bytes r) (element_size w13) = Inr l"
    and reg: "register_layer l s = Inr ((), s')"
    using run w by (cases mm) (auto simp: build_layer_def raise_def split: option.splits sum.splits)
  note L = unified_layer_init_ok [OF l]
  have a: "layer_idx l \<notin> fst ` set (layers s)" "layer_pages_per_super_block l = pages_per_super_block s"
    "layer_num_super_blocks l = num_super_blocks s"
    using reg by (auto simp: register_layer_def assert_that_def raise_def return_def split: if_splits)
  have J: "inv s" and f: "unpinned s" "\<forall>i b e. \<not> mapped s i b e" "base s = bp" "kv_pool_buffers s = map (\<lambda>(i, buf). (nat i, buf)) bufs"
    "page_size_bytes s = pool_page_bytes r" "pages_per_super_block s = pool_pages_per_super_block r"
    using B by (simp_all add: building_def)
  have rows: "length (t_rows w2) = length (t_rows w13)" "\<forall>row \<in> set (t_rows w13). length row = pool_w13_bytes r"
    "\<forall>row \<in> set (t_rows w2). length row = pool_w2_bytes r" using fit w(1,2) unfolding weights_fit_def by auto
  have shape: "shape_ok s l"
    using L(5-12) a(2) rows f(5) by (simp add: shape_ok_def)
  have none: "map_of (layers s) (layer_idx l) = None" using a(1) by (simp add: map_of_eq_None_iff)
  have some: "map_of (kv_pool_buffers s) (layer_idx l) \<noteq> None" using buf [OF b] unfolding f(4) L(4) by simp
  note reg' = register_layer_ok [OF J L(1-3) shape none some a(2,3), unfolded reg post_simps L(4)]
  then have s': "inv s'" "s' = put_layer ?i l s" "unpinned s'" "mapped s' = mapped s" using f(1) by blast+
  have "building r bp bufs s'" using s'(1,3,4) f by (simp add: building_def s'(2))
  moreover have "weights_of s' ?i = Some (t_rows w13, t_rows w2)" using L(8,9) by (simp add: weights_of_def s'(2))
  ultimately show ?thesis using none w(1,2) L(4) by (auto simp: s'(2))
qed

abbreviation slot_of :: "moe_module \<times> moe_meta \<Rightarrow> nat" where
  "slot_of mm \<equiv> nat (meta_layer_idx (snd mm))"

definition serves :: "unified_manager \<Rightarrow> moe_module \<Rightarrow> moe_module \<times> moe_meta \<Rightarrow> bool" where
  "serves s m0 mm \<longleftrightarrow> (\<exists>w13 w2. w13_weight m0 = Some w13 \<and> w2_weight m0 = Some w2 \<and>
     extract_layer_index (moe_layer_name m0) 1 = Inr (meta_layer_idx (snd mm)) \<and> weights_of s (slot_of mm) = Some (t_rows w13, t_rows w2))"

lemma build_all_ok:
  assumes "list_all2 staged ms mms" "building r bp bufs s" "weights_fit (pool_w13_bytes r) (pool_w2_bytes r) ms"
    and buf: "\<And>i buf. map_of bufs i = Some buf \<Longrightarrow> map_of (map (\<lambda>(i, buf). (nat i, buf)) bufs) (nat i) = Some buf"
    and "for_each (build_layer r bufs) mms s = Inr ((), s')"
  shows "building r bp bufs s' \<and> (\<forall>mm \<in> set mms. map_of (layers s) (slot_of mm) = None) \<and>
     (\<forall>j. j \<notin> slot_of ` set mms \<longrightarrow> map_of (layers s') j = map_of (layers s) j) \<and> list_all2 (serves s') ms mms"
  using assms(1,2,3,5)
proof (induction ms mms arbitrary: s rule: list_all2_induct)
  case Nil
  then show ?case by (simp add: return_def)
next
  case (Cons m ms mm mms)
  obtain s1 where s1: "build_layer r bufs mm s = Inr ((), s1)" "for_each (build_layer r bufs) mms s1 = Inr ((), s')"
    using Cons.prems(3) by auto
  have fit: "weights_fit (pool_w13_bytes r) (pool_w2_bytes r) [m]" "weights_fit (pool_w13_bytes r) (pool_w2_bytes r) ms"
    using Cons.prems(2) by (simp_all add: weights_fit_def)
  have b: "building r bp bufs s1" "\<forall>j. j \<noteq> slot_of mm \<longrightarrow> map_of (layers s1) j = map_of (layers s) j"
    "map_of (layers s) (slot_of mm) = None"
    and "\<exists>w13 w2. w13_weight m = Some w13 \<and> w2_weight m = Some w2 \<and> weights_of s1 (slot_of mm) = Some (t_rows w13, t_rows w2)"
    using build_layer_ok [OF Cons.prems(1) Cons.hyps(1) fit(1) buf s1(1)] by blast+
  then obtain w13 w2 where w: "w13_weight m = Some w13" "w2_weight m = Some w2" "weights_of s1 (slot_of mm) = Some (t_rows w13, t_rows w2)"
    by blast
  note ih = Cons.IH [OF b(1) fit(2) s1(2)]
  have some: "map_of (layers s1) (slot_of mm) \<noteq> None" using w(3) by (auto simp: weights_of_def)
  then have new: "slot_of mm \<notin> slot_of ` set mms" using ih by fastforce
  then have "weights_of s' (slot_of mm) = Some (t_rows w13, t_rows w2)" using ih w(3) by (simp add: weights_of_def)
  moreover have "extract_layer_index (moe_layer_name m) 1 = Inr (meta_layer_idx (snd mm))" using Cons.hyps(1) by (auto simp: staged_def)
  ultimately have "serves s' m mm" using w(1,2) by (simp add: serves_def)
  moreover have "map_of (layers s) (slot_of x) = None" if "x \<in> set (mm # mms)" for x
  proof (cases "x = mm")
    case False
    with that have x: "x \<in> set mms" by simp
    then have "slot_of x \<noteq> slot_of mm" using new by (metis imageI)
    then have "map_of (layers s1) (slot_of x) = map_of (layers s) (slot_of x)" using b(2) by blast
    moreover have "map_of (layers s1) (slot_of x) = None" using ih x by blast
    ultimately show ?thesis by simp
  qed (use b(3) in simp)
  moreover have "map_of (layers s') j = map_of (layers s) j" if "j \<notin> slot_of ` set (mm # mms)" for j
    using that ih b(2) by simp
  ultimately show ?case using ih by simp
qed

lemma weights_fit_split:
  assumes "weights_fit a b ms" "staged m mm" "m \<in> set ms"
  shows "meta_w13_bytes (snd mm) = a" "meta_w2_bytes (snd mm) = b"
proof -
  obtain w13 w2 where w: "w13_weight m = Some w13" "w2_weight m = Some w2" "t_rows w13 \<noteq> []" "t_rows w2 \<noteq> []"
    "meta_w13_bytes (snd mm) = length (hd (t_rows w13))" "meta_w2_bytes (snd mm) = length (hd (t_rows w2))"
    using assms(2) by (auto simp: staged_def)
  have "\<forall>row \<in> set (t_rows w13). length row = a" "\<forall>row \<in> set (t_rows w2). length row = b"
    using assms(1,3) w(1,2) unfolding weights_fit_def by blast+
  then show "meta_w13_bytes (snd mm) = a" "meta_w2_bytes (snd mm) = b" using w(3-6) by simp_all
qed

text \<open>The state after the layers are built is fresh.\<close>

lemma building_fresh:
  assumes B: "building r bp bufs s" and bp: "\<forall>p < length (blocks bp). ref_at bp p = 0 \<and> hash_at bp p = None"
  shows "fresh s"
proof -
  have "base s = bp" using B by (simp add: building_def)
  then have "base s = base bp" by (cases bp) (simp add: block_pool.truncate_def)
  note bv = base_views [OF this]
  show ?thesis using B bp bv by (simp add: fresh_def building_def)
qed

text \<open>The runs of stage 2 that return.\<close>

lemma setup_run:
  assumes "setup_unified_pool c ctx relocate score r bp = Inr (n', s)"
  obtains attn bufs s0 s1 where "attn_layers (raw_kv_tensors r) ctx [] = Inr attn"
    "pool_buffers (num_gpu_blocks bp * pool_page_bytes r) attn = Inr bufs"
    "manager_init bp (pool_pages_per_super_block r) (pool_page_bytes r) (map (\<lambda>(i, buf). (nat i, buf)) bufs) relocate score = Inr s0"
    "for_each (build_layer r bufs) (zip (pool_moe_modules r) (pool_metas r)) s0 = Inr ((), s1)"
    "int (expert_cache_size c) \<le> int (num_gpu_blocks bp div pool_pages_per_super_block r) - 1"
    "warm_up (expert_cache_size c) s1 = Inr ((), s)" "n' = num_gpu_blocks bp"
  using assms unfolding setup_unified_pool_def by (auto split: if_splits sum.splits)

lemma warm_up_experts: "warm_up k s = Inr ((), s') \<Longrightarrow> \<forall>l \<in> snd ` set (layers s). k \<le> num_experts l"
  by (auto simp: warm_up_def assert_that_def raise_def return_def split: if_splits)

lemma setup_built:
  assumes staged: "list_all2 staged ms (zip (pool_moe_modules r) (pool_metas r))" and fit: "weights_fit (pool_w13_bytes r) (pool_w2_bytes r) ms"
    and nn: "nonneg_layers ctx" and bp: "pool_inv {} bp" "\<forall>p < length (blocks bp). ref_at bp p = 0 \<and> hash_at bp p = None"
    and run: "setup_unified_pool c ctx relocate score r bp = Inr (n', s)"
  shows "\<exists>s1. fresh s1 \<and> warming s1 (expert_cache_size c) {} s \<and> list_all2 (serves s1) ms (zip (pool_moe_modules r) (pool_metas r)) \<and>
     pages_per_super_block s1 = pool_pages_per_super_block r \<and> page_size_bytes s1 = pool_page_bytes r \<and> length (blocks s1) = length (blocks bp) \<and>
     n' = num_gpu_blocks bp"
proof -
  obtain attn bufs s0 s1 where attn: "attn_layers (raw_kv_tensors r) ctx [] = Inr attn"
    and bufs: "pool_buffers (num_gpu_blocks bp * pool_page_bytes r) attn = Inr bufs"
    and s0: "manager_init bp (pool_pages_per_super_block r) (pool_page_bytes r) (map (\<lambda>(i, buf). (nat i, buf)) bufs) relocate score = Inr s0"
    and s1: "for_each (build_layer r bufs) (zip (pool_moe_modules r) (pool_metas r)) s0 = Inr ((), s1)"
    and avail: "int (expert_cache_size c) \<le> int (num_gpu_blocks bp div pool_pages_per_super_block r) - 1"
    and warm: "warm_up (expert_cache_size c) s1 = Inr ((), s)" and n': "n' = num_gpu_blocks bp"
    by (rule setup_run [OF run])
  have "dict_wf attn \<and> (\<forall>i \<in> fst ` set attn. 0 \<le> i)" using attn_layers_ok [OF attn nn] by simp
  then have "dict_wf attn" "\<forall>i \<in> fst ` set attn. 0 \<le> i" by blast+
  note pb = pool_buffers_ok [OF bufs this]
  have pos: "0 < pool_pages_per_super_block r" "0 < pool_page_bytes r" using s0 by (auto simp: manager_init_def split: if_splits)
  have "building r bp bufs s0"
    using manager_init_ok [OF bp(1) _ pos pb(1,2), of relocate score] bp(2) s0 by (auto simp: building_def mapped_def)
  with build_all_ok [OF staged _ fit _ s1] pb(3)
  have B: "building r bp bufs s1" and sv: "list_all2 (serves s1) ms (zip (pool_moe_modules r) (pool_metas r))" by blast+
  have fr: "fresh s1" by (rule building_fresh [OF B bp(2)])
  have b: "pages_per_super_block s1 = pool_pages_per_super_block r" "page_size_bytes s1 = pool_page_bytes r" "inv s1" "base s1 = bp"
    using B by (simp_all add: building_def)
  have "base s1 = base bp" using b(4) by (cases bp) (simp add: block_pool.truncate_def)
  then have len: "length (blocks s1) = length (blocks bp)" by (rule base_views(6))
  have "num_super_blocks s1 = length (blocks s1) div pages_per_super_block s1" using manager_syncedD(13) [OF b(3)] by (simp add: geometry_ok_def)
  moreover have "num_gpu_blocks bp = length (blocks bp)" using bp(1) by (simp add: pool_inv_def ids_ok_def)
  ultimately have "expert_cache_size c < num_super_blocks s1" using avail len b(1) by simp
  from warm_up_ok [OF fr warm_up_experts [OF warm] this] have "warming s1 (expert_cache_size c) {} s" unfolding warm by simp
  with fr sv b len n' show ?thesis by blast
qed

section \<open>Properties\<close>

text \<open>C40. Start-up builds a sound pool. If both stages return on a newly constructed block pool, and the weight tensors are
  rectangular with the same split in every layer, then the pool's invariant holds with nothing pinned, exactly the first
  \<open>expert_cache_size\<close> experts of every MoE layer are resident, expert \<open>e\<close> at super-block \<open>e + 1\<close>, every MoE layer of
  the model is served from its own loaded weights, pages are a multiple of sixteen tokens that fill a super-block
  exactly, and when the block count is a multiple of the super-block size the engine's invariant holds.\<close>

theorem pool_setup_correct:
  assumes stage1: "unified_pool_stage1 c ctx specs r = Inr ((), r1)"
    and model: "weights_fit a b (moe_layers (model_modules r))" "nonneg_layers ctx"
    and bp: "0 < n" "block_pool_init n caching hbs events use_int = Inr bp"
    and stage2: "setup_unified_pool (offload c) ctx relocate score (unified_pool_capture_raw_kv raw r1) bp = Inr (n', s)"
  shows "inv s \<and> unpinned s \<and> n' = n \<and> (pages_per_super_block s dvd n \<longrightarrow> engine_inv s) \<and>
     block_size r1 mod 16 = 0 \<and> a + b = pages_per_super_block s * page_size_bytes s \<and>
     (\<forall>i j e. mapped s i j e \<longleftrightarrow> i \<in> fst ` set (layers s) \<and> e < expert_cache_size (offload c) \<and> j = e + 1) \<and>
     (\<forall>m \<in> set (moe_layers (model_modules r)). \<exists>w13 w2 i. w13_weight m = Some w13 \<and> w2_weight m = Some w2 \<and>
        extract_layer_index (moe_layer_name m) 1 = Inr i \<and> weights_of s (nat i) = Some (t_rows w13, t_rows w2))"
proof -
  let ?r = "unified_pool_capture_raw_kv raw r1" and ?k = "expert_cache_size (offload c)" and ?ms = "moe_layers (model_modules r)"
  obtain found first where found: "list_all2 staged ?ms found" and sz: "sized r1"
    and pool: "pool_moe_modules r1 = map fst found" "pool_metas r1 = map snd found"
    and first: "first \<in> set (map snd found)" "pool_w13_bytes r1 = meta_w13_bytes first" "pool_w2_bytes r1 = meta_w2_bytes first"
    and "\<forall>meta \<in> set (map snd found). meta_slot_bytes meta = pool_slot_bytes r1" "block_size r1 = expert_pool_page_tokens (offload c)"
    by (rule stage1_ok [OF stage1])
  obtain j where j: "j < length found" "snd (found ! j) = first" using first(1) unfolding in_set_conv_nth by auto
  have ab: "pool_w13_bytes r1 = a" "pool_w2_bytes r1 = b"
    using weights_fit_split [OF model(1) list_all2_nthD2 [OF found j(1)]] j first list_all2_lengthD [OF found] by simp_all
  have f: "zip (pool_moe_modules ?r) (pool_metas ?r) = found" "pool_page_bytes ?r = pool_page_bytes r1"
    "pool_pages_per_super_block ?r = pool_pages_per_super_block r1" "pool_w13_bytes ?r = a" "pool_w2_bytes ?r = b"
    using pool ab by (simp_all add: unified_pool_capture_raw_kv_def zip_map_fst_snd)
  have bpi: "pool_inv {} bp" "length (blocks bp) = n" "\<forall>i<n. ref_at bp i = 0 \<and> hash_at bp i = None"
    using block_pool_init_ok [OF bp(1), of caching hbs events use_int] bp(2) by auto
  obtain s1 where fr: "fresh s1" and w: "warming s1 ?k {} s" and sv: "list_all2 (serves s1) ?ms found"
    and g: "pages_per_super_block s1 = pool_pages_per_super_block r1" "page_size_bytes s1 = pool_page_bytes r1" "length (blocks s1) = n"
      "n' = num_gpu_blocks bp"
    using setup_built [OF _ _ model(2) bpi(1) _ stage2, of ?ms] found model(1) bpi(2,3) unfolding f by auto
  have w': "inv s" "same_pool s1 s" using w by (simp_all add: warming_def)
  have sp: "pages_per_super_block s = pages_per_super_block s1" "page_size_bytes s = page_size_bytes s1"
    "dict_keys (layers s) = dict_keys (layers s1)" "weights_of s = weights_of s1" using w'(2) by (simp_all add: same_pool_def)
  have "engine_inv s" if "pages_per_super_block s dvd n"
    using warmed_inv [OF fr _ w] that sp(1) g(3) by (simp add: whole_super_blocks_def)
  moreover have "mapped s i j e \<longleftrightarrow> i \<in> fst ` set (layers s) \<and> e < ?k \<and> j = e + 1" for i j e
    using w arg_cong [OF sp(3), of set] by (auto simp: warming_def)
  moreover have "\<exists>w13 w2 i. w13_weight m = Some w13 \<and> w2_weight m = Some w2 \<and> extract_layer_index (moe_layer_name m) 1 = Inr i \<and>
      weights_of s (nat i) = Some (t_rows w13, t_rows w2)" if m: "m \<in> set ?ms" for m
  proof -
    obtain k where "k < length ?ms" "?ms ! k = m" using m by (auto simp: in_set_conv_nth)
    with list_all2_nthD [OF sv, of k] show ?thesis unfolding sp(4) serves_def by auto
  qed
  moreover have "a + b = pages_per_super_block s * page_size_bytes s" "block_size r1 mod 16 = 0"
    using sz ab sp(1,2) g(1,2) by (simp_all add: sized_def)
  moreover have "n' = n" using g(4) bpi(1,2) by (simp add: pool_inv_def ids_ok_def)
  ultimately show ?thesis using w'(1) warming_unpinned [OF fr w] by blast
qed

text \<open>A model with one MoE layer of two experts: 64 bytes per expert, pages of 16 tokens of 2 bytes, four blocks.\<close>

definition demo_config :: runner_config where
  "demo_config = \<lparr>tensor_parallel_size = 1, pipeline_parallel_size = 1, enable_prefix_caching = True, enforce_eager = True,
     max_num_batched_tokens = 1, async_scheduling = False,
     offload = \<lparr>offload_backend_of = Auto, cpu_offload_gb = 0, offload_group_size = 0, offload_num_in_group = 1,
       offload_prefetch_step = 1, expert_offload = True, expert_cache_size = 1, expert_unified_pool = True, expert_pool_page_tokens = 16\<rparr>\<rparr>"

definition demo_weights_of :: "byte \<Rightarrow> tensor" where
  "demo_weights_of x = \<lparr>t_rows = [replicate 32 x, replicate 32 (x + 1)], element_size = 2, is_cuda = True, is_pinned = False\<rparr>"

definition demo_moe :: moe_module where
  "demo_moe = \<lparr>moe_layer_name = ''model.layers.0.mlp.experts'', w13_weight = Some (demo_weights_of 1), w2_weight = Some (demo_weights_of 3),
     unified_pool_cpu = None\<rparr>"

definition demo_runner :: runner where
  "demo_runner = \<lparr>model_modules = [OtherModule, FusedMoE demo_moe], block_size = 16, user_specified_block_size = False,
     pool_moe_modules = [], pool_metas = [], pool_slot_bytes = 0, pool_page_bytes = 0, pool_pages_per_super_block = 0,
     pool_w13_bytes = 0, pool_w2_bytes = 0, raw_kv_tensors = []\<rparr>"

definition demo_ctx :: "(string, ctx_layer) dict" where
  "demo_ctx = [(''model.layers.0.mlp.experts'', OtherLayer),
     (''model.layers.0.self_attn.attn'', AttentionLayer (\<lambda>num_blocks block_size heads size. [num_blocks, 2, block_size, heads, size]))]"

definition demo_specs :: "(string, kv_spec) dict" where
  "demo_specs = [(''model.layers.0.self_attn.attn'',
     \<lparr>spec_class = ''FullAttentionSpec'', is_attention_spec = True, num_kv_heads = 1, head_size = 1, dtype_size = 1\<rparr>)]"

definition demo_staged :: runner where
  "demo_staged = final (unified_pool_stage1 demo_config demo_ctx demo_specs demo_runner)"

definition demo_setup :: "error + nat \<times> unified_manager" where
  "demo_setup = setup_unified_pool (offload demo_config) demo_ctx True True
     (unified_pool_capture_raw_kv [(''model.layers.0.self_attn.attn'', replicate 128 0)] demo_staged) (projr (block_pool_init 4 True 16 False False))"

lemma demo_stage1: "unified_pool_stage1 demo_config demo_ctx demo_specs demo_runner = Inr ((), demo_staged)"
  unfolding demo_staged_def by (rule outcome_run) code_simp

lemma demo_names: "extract_layer_index ''model.layers.0.mlp.experts'' 1 = Inr 0" "extract_layer_index ''model.layers.0.self_attn.attn'' 1 = Inr 0"
  by code_simp+

lemma demo_setup_runs: "isl demo_setup = False"
  by code_simp

theorem pool_setup_correct_witness:
  "case demo_setup of Inl _ \<Rightarrow> False
   | Inr (n, s) \<Rightarrow> n = 4 \<and> inv s \<and> mapped s 0 1 0 \<and> \<not> mapped s 0 2 1 \<and> weights_of s 0 = Some (t_rows (demo_weights_of 1), t_rows (demo_weights_of 3))"
proof (cases demo_setup)
  case (Inl e)
  have False using demo_setup_runs unfolding Inl by simp
  then show ?thesis ..
next
  case (Inr ns)
  obtain n s where ns: "ns = (n, s)" by (cases ns)
  obtain bp where bp: "block_pool_init 4 True 16 False False = Inr bp" using block_pool_init_ok [of 4 True 16 False False] by auto
  have layers: "moe_layers (model_modules demo_runner) = [demo_moe]" by (simp add: demo_runner_def)
  have fit: "weights_fit 32 32 (moe_layers (model_modules demo_runner))"
    unfolding layers by (simp add: weights_fit_def demo_moe_def demo_weights_of_def)
  have nn: "nonneg_layers demo_ctx"
    using demo_names by (auto simp: nonneg_layers_def demo_ctx_def)
  have run: "setup_unified_pool (offload demo_config) demo_ctx True True
     (unified_pool_capture_raw_kv [(''model.layers.0.self_attn.attn'', replicate 128 0)] demo_staged) bp = Inr (n, s)"
    using Inr bp unfolding ns demo_setup_def by simp
  note ok = pool_setup_correct [OF demo_stage1 fit nn _ bp run]
  have k: "expert_cache_size (offload demo_config) = 1" by (simp add: demo_config_def)
  have w: "weights_of s 0 = Some (t_rows (demo_weights_of 1), t_rows (demo_weights_of 3))"
    using ok demo_names(1) unfolding layers by (simp add: demo_moe_def)
  then have "map_of (layers s) 0 \<noteq> None" by (auto simp: weights_of_def)
  then have "0 \<in> fst ` set (layers s)" unfolding map_of_keys .
  with ok w show ?thesis unfolding Inr ns k by simp
qed

end
