(* ===== verification/KV_Groups.thy ===== *)
theory KV_Groups
  imports Pool_Listener
begin

text \<open>
  \<open>vllm/v1/core/single_type_kv_cache_manager.py\<close>: the managers that keep, per KV cache group,
  the blocks of every request. The base class with the full, sliding-window and chunked-local
  attention managers; they differ in the tokens they skip and in the search for a cached
  prefix. Mamba, cross and sink attention are left out.

  A manager works on the block pool it was given, so an operation transforms the pair of the
  manager and the pool. \<open>cbs\<close> are the callbacks registered with the pool. An access
  \<open>req_to_blocks[r]\<close> inserts an empty list when the request is new, as \<open>defaultdict\<close> does.
\<close>

section \<open>State\<close>

datatype attn_kind = FullAttention | SlidingWindow int | ChunkedLocal int

record kv_group =
  kv_block_size :: int
  kv_kind :: attn_kind
  spec_is_full :: bool
  kv_caching :: bool
  kv_group_id :: int
  req_to_blocks :: "(string, nat list) dict"
  num_cached_block :: "(string, nat) dict"
  new_block_ids :: "nat list"

text \<open>\<open>spec_is_full\<close> is \<open>type(kv_cache_spec) is FullAttentionSpec\<close>, which subclasses do not satisfy.\<close>

definition kv_group_init :: "int \<Rightarrow> attn_kind \<Rightarrow> bool \<Rightarrow> bool \<Rightarrow> int \<Rightarrow> int \<Rightarrow> int \<Rightarrow> kv_group" where
  "kv_group_init spec_block_size kind full caching gid dcp pcp =
     \<lparr>kv_block_size = (if dcp * pcp > 1 then spec_block_size * (dcp * pcp) else spec_block_size), kv_kind = kind, spec_is_full = full,
      kv_caching = caching, kv_group_id = gid, req_to_blocks = [], num_cached_block = [], new_block_ids = []\<rparr>"

type_synonym ('g, 'm) kv_state = "'g kv_group_scheme \<times> 'm block_pool_scheme"

definition on_pool :: "('m block_pool_scheme \<Rightarrow> ('m block_pool_scheme, 'a) res) \<Rightarrow> ('g, 'm) kv_state \<Rightarrow> (('g, 'm) kv_state, 'a) res" where
  "on_pool f = on_part snd (\<lambda>s x. (fst x, s)) f"

definition blocks_of :: "string \<Rightarrow> 'g kv_group_scheme \<Rightarrow> nat list" where
  "blocks_of r g = (case map_of (req_to_blocks g) r of None \<Rightarrow> [] | Some bs \<Rightarrow> bs)"

definition put_blocks :: "string \<Rightarrow> nat list \<Rightarrow> 'g kv_group_scheme \<Rightarrow> 'g kv_group_scheme" where
  "put_blocks r bs g = g\<lparr>req_to_blocks := AList.update r bs (req_to_blocks g)\<rparr>"

section \<open>Allocation\<close>

definition get_num_skipped_tokens :: "attn_kind \<Rightarrow> int \<Rightarrow> int" where
  "get_num_skipped_tokens kind n =
     (case kind of FullAttention \<Rightarrow> 0 | SlidingWindow w \<Rightarrow> max 0 (n - w + 1) | ChunkedLocal c \<Rightarrow> n div c * c)"

definition get_num_evictable_blocks :: "nat list \<Rightarrow> 'm block_pool_scheme \<Rightarrow> nat" where
  "get_num_evictable_blocks bs s = length (filter (\<lambda>b. ref_cnt (blocks s ! b) = 0 \<and> \<not> is_null (blocks s ! b)) bs)"

definition get_num_blocks_to_allocate :: "string \<Rightarrow> int \<Rightarrow> nat list \<Rightarrow> int \<Rightarrow> ('g, 'm) kv_state \<Rightarrow> error + int" where
  "get_num_blocks_to_allocate r num_toks new_computed total_computed x =
     (let (g, s) = x;
          required = cdiv num_toks (kv_block_size g);
          num_req_blocks = int (length (blocks_of r g))
      in if r \<in> fst ` set (num_cached_block g)
         then if new_computed \<noteq> [] then Inl (AssertionError ''len(new_computed_blocks) == 0'')
              else Inr (max (required - num_req_blocks) 0)
         else (let skipped_blocks = get_num_skipped_tokens (kv_kind g) total_computed div kv_block_size g;
                   local = int (length new_computed) + num_req_blocks;
                   new_blocks = max (required - max skipped_blocks local) 0;
                   skipped_new = max 0 (skipped_blocks - num_req_blocks)
               in Inr (new_blocks + int (get_num_evictable_blocks (drop (nat skipped_new) new_computed) s))))"

text \<open>
  The count of blocks asked for is never negative when the computed blocks are those of the computed tokens, as
  \<open>allocate_slots\<close> documents; it is a natural number here.
\<close>

definition allocate_new_computed_blocks ::
  "('m block_pool_scheme) pool_callbacks \<Rightarrow> string \<Rightarrow> nat list \<Rightarrow> int \<Rightarrow> int \<Rightarrow> ('g, 'm) kv_state \<Rightarrow> (('g, 'm) kv_state, unit) res" where
  "allocate_new_computed_blocks cbs r new_computed num_local num_external x =
     (let g = fst x
      in if r \<in> fst ` set (num_cached_block g) then assert_that (new_computed = []) ''len(new_computed_blocks) == 0'' x
         else (let req_blocks = blocks_of r g;
                   total = num_local + num_external;
                   skipped_tokens = get_num_skipped_tokens (kv_kind g) total;
                   skipped_blocks = skipped_tokens div kv_block_size g;
                   hits = (if skipped_blocks > 0 then drop (nat skipped_blocks) new_computed else new_computed);
                   external = (if skipped_blocks > 0 then min (total - skipped_tokens) num_external else num_external)
               in rbind (assert_that (req_blocks = []) ''len(req_blocks) == 0'' (put_blocks r req_blocks g, snd x)) (\<lambda>_ x.
                  rbind (if kv_caching g then on_pool (touch cbs hits) x
                         else assert_that (hits = []) ''Computed blocks should be empty when prefix caching is disabled'' x) (\<lambda>_ (g, s).
                    (let bs = replicate (nat skipped_blocks) (null_block s) @ hits;
                         g1 = (put_blocks r bs g)\<lparr>num_cached_block := AList.update r (length bs) (num_cached_block g)\<rparr>
                     in if external > 0
                        then rbind (on_pool (get_new_blocks cbs (nat (cdiv total (kv_block_size g) - int (length bs)))) (g1, s)) (\<lambda>new (g, s).
                               return () ((put_blocks r (bs @ new) g)\<lparr>new_block_ids := new_block_ids g @ (if spec_is_full g then new else [])\<rparr>, s))
                        else return () (g1, s))))))"

definition allocate_new_blocks ::
  "('m block_pool_scheme) pool_callbacks \<Rightarrow> string \<Rightarrow> int \<Rightarrow> ('g, 'm) kv_state \<Rightarrow> (('g, 'm) kv_state, nat list) res" where
  "allocate_new_blocks cbs r num_toks x =
     (let g = fst x; req_blocks = blocks_of r g; g0 = put_blocks r req_blocks g;
          num_new = cdiv num_toks (kv_block_size g) - int (length req_blocks)
      in if num_new \<le> 0 then return [] (g0, snd x)
         else rbind (on_pool (get_new_blocks cbs (nat num_new)) (g0, snd x)) (\<lambda>new (g, s).
                return new ((put_blocks r (req_blocks @ new) g)\<lparr>new_block_ids := new_block_ids g @ (if spec_is_full g then new else [])\<rparr>, s)))"

definition take_new_block_ids :: "'g kv_group_scheme \<Rightarrow> nat list \<times> 'g kv_group_scheme" where
  "take_new_block_ids g = (new_block_ids g, g\<lparr>new_block_ids := []\<rparr>)"

section \<open>Caching and release\<close>

definition cache_blocks :: "(bytes \<Rightarrow> bytes) \<Rightarrow> request \<Rightarrow> int \<Rightarrow> ('g, 'm) kv_state \<Rightarrow> (('g, 'm) kv_state, request) res" where
  "cache_blocks sha r num_toks x =
     (let g = fst x; rid = request_id r;
          num_cached = (case map_of (num_cached_block g) rid of None \<Rightarrow> 0 | Some n \<Rightarrow> n);
          num_full = num_toks div kv_block_size g
      in if int num_cached \<ge> num_full then return r x
         else rbind (on_pool (cache_full_blocks sha r (blocks_of rid g) num_cached (nat num_full) (kv_block_size g) (kv_group_id g))
                       (put_blocks rid (blocks_of rid g) g, snd x)) (\<lambda>r' (g, s).
                return r' (g\<lparr>num_cached_block := AList.update rid (nat num_full) (num_cached_block g)\<rparr>, s)))"

definition kv_free :: "('m block_pool_scheme) pool_callbacks \<Rightarrow> string \<Rightarrow> ('g, 'm) kv_state \<Rightarrow> (('g, 'm) kv_state, unit) res" where
  "kv_free cbs r x =
     rbind (on_pool (free_blocks cbs (rev (blocks_of r (fst x)))) ((fst x)\<lparr>req_to_blocks := AList.delete r (req_to_blocks (fst x))\<rparr>, snd x)) (\<lambda>_ (g, s).
       return () (g\<lparr>num_cached_block := AList.delete r (num_cached_block g)\<rparr>, s))"

text \<open>The loop that replaces skipped blocks, from index \<open>i - 1\<close> down, until it meets a null block.\<close>

fun skip_loop :: "nat \<Rightarrow> nat \<Rightarrow> nat list \<Rightarrow> nat list \<Rightarrow> nat list \<times> nat list" where
  "skip_loop null 0 bs removed = (bs, removed)"
| "skip_loop null (Suc i) bs removed =
     (if bs ! i = null then (bs, removed) else skip_loop null i (bs[i := null]) (removed @ [bs ! i]))"

definition remove_skipped_blocks :: "('m block_pool_scheme) pool_callbacks \<Rightarrow> string \<Rightarrow> int \<Rightarrow> ('g, 'm) kv_state \<Rightarrow> (('g, 'm) kv_state, unit) res" where
  "remove_skipped_blocks cbs r total_computed x =
     (let g = fst x; skipped_tokens = get_num_skipped_tokens (kv_kind g) total_computed
      in if skipped_tokens \<le> 0 then return () x
         else (let bs = blocks_of r g;
                   n = min (skipped_tokens div kv_block_size g) (int (length bs));
                   (bs', removed) = skip_loop (null_block (snd x)) (nat n) bs []
               in on_pool (free_blocks cbs removed) (put_blocks r bs' g, snd x)))"

fun common_prefix_loop :: "nat list \<Rightarrow> nat \<Rightarrow> 'm block_pool_scheme \<Rightarrow> nat" where
  "common_prefix_loop [] n s = 0"
| "common_prefix_loop (b # bs) n s = (if ref_cnt (blocks s ! b) = int n then Suc (common_prefix_loop bs n s) else 0)"

definition get_num_common_prefix_blocks :: "string \<Rightarrow> ('g, 'm) kv_state \<Rightarrow> nat" where
  "get_num_common_prefix_blocks r x =
     (case kv_kind (fst x) of
        FullAttention \<Rightarrow> common_prefix_loop (blocks_of r (fst x)) (length (req_to_blocks (put_blocks r (blocks_of r (fst x)) (fst x)))) (snd x)
      | _ \<Rightarrow> 0)"

section \<open>The longest cached prefix\<close>

text \<open>
  The searches for one group \<open>gid\<close>. The first one reads the cache hit by hit; \<open>pop_aligned\<close> is the loop that
  drops blocks until the length in tokens is a multiple of the alignment.
\<close>

fun full_hits :: "bytes list \<Rightarrow> int \<Rightarrow> 'm block_pool_scheme \<Rightarrow> error + nat list" where
  "full_hits [] gid s = Inr []"
| "full_hits (h # hs) gid s =
     (case get_cached_block h [gid] s of
        Inl e \<Rightarrow> Inl e
      | Inr None \<Rightarrow> Inr []
      | Inr (Some cached) \<Rightarrow> (case full_hits hs gid s of Inl e \<Rightarrow> Inl e | Inr bs \<Rightarrow> Inr (cached @ bs)))"

function pop_aligned :: "int \<Rightarrow> int \<Rightarrow> nat list \<Rightarrow> nat list" where
  "pop_aligned block_size alignment bs =
     (if block_size \<noteq> alignment \<and> int (length bs) * block_size mod alignment \<noteq> 0 \<and> bs \<noteq> []
      then pop_aligned block_size alignment (butlast bs) else bs)"
  by auto
termination by (relation "measure (\<lambda>(_, _, bs). length bs)") auto

declare pop_aligned.simps [simp del]

definition drop_last :: "bool \<Rightarrow> nat list \<Rightarrow> nat list" where
  "drop_last use_eagle bs = (if use_eagle \<and> bs \<noteq> [] then butlast bs else bs)"

definition full_find_longest_cache_hit :: "bytes list \<Rightarrow> int \<Rightarrow> int \<Rightarrow> int \<Rightarrow> bool \<Rightarrow> int \<Rightarrow> 'm block_pool_scheme \<Rightarrow> error + nat list" where
  "full_find_longest_cache_hit hashes max_length gid block_size use_eagle alignment s =
     (if max_length div block_size < 0 then Inl (ValueError ''Stop argument for islice() must be None or an integer: 0 <= x <= sys.maxsize.'')
      else case full_hits (take (nat (max_length div block_size)) hashes) gid s of
        Inl e \<Rightarrow> Inl e
      | Inr bs \<Rightarrow> Inr (pop_aligned block_size alignment (drop_last use_eagle bs)))"

text \<open>
  Sliding window: from the right, \<open>n\<close> the blocks not yet looked at and \<open>contiguous\<close> the hits just seen; the result says
  whether a run of \<open>want\<close> hits was found.
\<close>

fun window_loop :: "bytes list \<Rightarrow> int \<Rightarrow> int \<Rightarrow> int \<Rightarrow> int \<Rightarrow> nat \<Rightarrow> nat \<Rightarrow> nat list \<Rightarrow> 'm block_pool_scheme \<Rightarrow> error + bool \<times> nat \<times> nat list" where
  "window_loop hashes gid block_size alignment want 0 contiguous computed s = Inr (False, contiguous, computed)"
| "window_loop hashes gid block_size alignment want (Suc i) contiguous computed s =
     (if \<not> i < length hashes then Inl IndexError
      else case get_cached_block (hashes ! i) [gid] s of
        Inl e \<Rightarrow> Inl e
      | Inr None \<Rightarrow> window_loop hashes gid block_size alignment want i 0 computed s
      | Inr (Some cached) \<Rightarrow>
          if contiguous = 0 \<and> block_size \<noteq> alignment \<and> (int i + 1) * block_size mod alignment \<noteq> 0
          then window_loop hashes gid block_size alignment want i contiguous computed s
          else (let computed' = computed[i := hd cached]
                in if int (Suc contiguous) \<ge> want then Inr (True, Suc contiguous, take (i + Suc contiguous) computed')
                   else window_loop hashes gid block_size alignment want i (Suc contiguous) computed' s))"

definition window_find_longest_cache_hit ::
  "bytes list \<Rightarrow> int \<Rightarrow> int \<Rightarrow> int \<Rightarrow> int \<Rightarrow> bool \<Rightarrow> int \<Rightarrow> int \<Rightarrow> int \<Rightarrow> 'm block_pool_scheme \<Rightarrow> error + nat list" where
  "window_find_longest_cache_hit hashes max_length gid block_size window use_eagle alignment dcp pcp s =
     (if dcp \<noteq> 1 then Inl (AssertionError ''DCP not support sliding window attn now.'')
      else if pcp \<noteq> 1 then Inl (AssertionError ''PCP not support sliding window attn now.'')
      else let want = cdiv (window - 1) block_size + (if use_eagle then 1 else 0);
          n = nat (max_length div block_size)
      in case window_loop hashes gid block_size alignment want n 0 (replicate n (null_block s)) s of
           Inl e \<Rightarrow> Inl e
         | Inr (found, contiguous, computed) \<Rightarrow>
             (let bs = (if found then computed else pop_aligned block_size alignment (take contiguous computed))
              in if use_eagle \<and> bs \<noteq> [] \<and> block_size \<noteq> alignment
                 then Inl (AssertionError ''aligned_length is not compatible with eagle now'')
                 else Inr (drop_last use_eagle bs)))"

text \<open>Chunked local attention: the blocks before the current chunk count as computed, the rest is read from the cache.\<close>

fun chunk_hits :: "bytes list \<Rightarrow> int \<Rightarrow> nat \<Rightarrow> nat \<Rightarrow> 'm block_pool_scheme \<Rightarrow> error + nat list" where
  "chunk_hits hashes gid i 0 s = Inr []"
| "chunk_hits hashes gid i (Suc n) s =
     (if \<not> i < length hashes then Inl IndexError
      else case get_cached_block (hashes ! i) [gid] s of
        Inl e \<Rightarrow> Inl e
      | Inr None \<Rightarrow> Inr []
      | Inr (Some cached) \<Rightarrow> (case chunk_hits hashes gid (Suc i) n s of Inl e \<Rightarrow> Inl e | Inr bs \<Rightarrow> Inr (cached @ bs)))"

definition chunked_find_longest_cache_hit ::
  "bytes list \<Rightarrow> int \<Rightarrow> int \<Rightarrow> int \<Rightarrow> int \<Rightarrow> bool \<Rightarrow> int \<Rightarrow> int \<Rightarrow> int \<Rightarrow> 'm block_pool_scheme \<Rightarrow> error + nat list" where
  "chunked_find_longest_cache_hit hashes max_length gid block_size chunk use_eagle alignment dcp pcp s =
     (if use_eagle then Inl (AssertionError ''Hybrid KV cache is not supported for eagle + chunked local attention.'')
      else if dcp \<noteq> 1 then Inl (AssertionError ''DCP not support chunked local attn now.'')
      else if pcp \<noteq> 1 then Inl (AssertionError ''PCP not support chunked local attn now.'')
      else if block_size \<noteq> alignment then Inl (AssertionError ''KV cache groups with different block sizes are not compatible with chunked local attention now'')
      else (let max_blocks = nat (max_length div block_size);
                start = nat ((if max_length > 0 then max_length div chunk * chunk else 0) div block_size)
            in case chunk_hits hashes gid start (max_blocks - start) s of
                 Inl e \<Rightarrow> Inl e
               | Inr bs \<Rightarrow> Inr (replicate start (null_block s) @ bs)))"

end
