(* ===== verification/KV_Manager.thy ===== *)
theory KV_Manager
  imports KV_Groups
begin

text \<open>
  \<open>vllm/v1/core/kv_cache_manager.py\<close> on the \<open>UnitaryKVCacheCoordinator\<close> of
  \<open>kv_cache_coordinator.py\<close>: the KV cache manager of a model with one KV cache group, which is
  what the unified pool requires. The coordinator's methods are then those of its only group.
  Statistics are left out.
\<close>

record kv_cache_manager = kv_group +
  max_model_len :: int
  use_eagle :: bool
  dcp_world_size :: int
  pcp_world_size :: int

type_synonym 'm kvm_state = "kv_cache_manager \<times> 'm block_pool_scheme"

text \<open>
  Construction. Without prefix caching the coordinator is \<open>KVCacheCoordinatorNoPrefixCache\<close>, which has no check of the
  hash block size.
\<close>

definition kv_cache_manager_init ::
  "int \<Rightarrow> attn_kind \<Rightarrow> bool \<Rightarrow> nat \<Rightarrow> int \<Rightarrow> int \<Rightarrow> bool \<Rightarrow> bool \<Rightarrow> bool \<Rightarrow> bool \<Rightarrow> int \<Rightarrow> int \<Rightarrow> error + kv_cache_manager \<times> block_pool" where
  "kv_cache_manager_init spec_block_size kind full num_blocks max_len hash_bs caching eagle events use_int dcp pcp =
     (case block_pool_init num_blocks caching hash_bs events use_int of
        Inl e \<Rightarrow> Inl e
      | Inr pool \<Rightarrow>
          (let g = kv_group_init spec_block_size kind full caching 0 dcp pcp;
               bs = spec_block_size * (if dcp > 1 then dcp else 1) * (if pcp > 1 then pcp else 1)
           in if caching \<and> hash_bs \<noteq> bs
              then Inl (AssertionError ''UnitaryKVCacheCoordinator assumes hash_block_size == block_size'')
              else Inr (kv_group.extend g (kv_cache_manager.fields max_len eagle dcp pcp), pool)))"

text \<open>
  \<open>find_longest_cache_hit\<close> of the coordinator without prefix caching and of the \<open>UnitaryKVCacheCoordinator\<close>,
  where the alignment is the block size.
\<close>

definition find_longest_cache_hit :: "bytes list \<Rightarrow> int \<Rightarrow> 'm kvm_state \<Rightarrow> error + nat list \<times> int" where
  "find_longest_cache_hit hashes max_hit x =
     (let (g, s) = x; bs = kv_block_size g
      in if \<not> kv_caching g then Inr ([], 0)
         else case (case kv_kind g of
                 FullAttention \<Rightarrow> full_find_longest_cache_hit hashes max_hit 0 bs (use_eagle g) bs s
               | SlidingWindow w \<Rightarrow> window_find_longest_cache_hit hashes max_hit 0 bs w (use_eagle g) bs (dcp_world_size g) (pcp_world_size g) s
               | ChunkedLocal c \<Rightarrow> chunked_find_longest_cache_hit hashes max_hit 0 bs c (use_eagle g) bs (dcp_world_size g) (pcp_world_size g) s) of
           Inl e \<Rightarrow> Inl e
         | Inr hits \<Rightarrow> Inr (hits, int (length hits) * bs))"

text \<open>
  \<open>None\<close> is the shared empty \<open>KVCacheBlocks\<close> object, by whose identity \<open>allocate_slots\<close> knows that there are no hits.
\<close>

definition create_kv_cache_blocks :: "nat list \<Rightarrow> nat list option" where
  "create_kv_cache_blocks bs = (if bs = [] then None else Some bs)"

definition get_computed_blocks :: "request \<Rightarrow> 'm kvm_state \<Rightarrow> error + nat list option \<times> int" where
  "get_computed_blocks r x =
     (if \<not> kv_caching (fst x) \<or> skip_reading_prefix_cache r then Inr (None, 0)
      else case find_longest_cache_hit (block_hashes r) (num_tokens r - 1) x of
             Inl e \<Rightarrow> Inl e
           | Inr (hits, n) \<Rightarrow> Inr (create_kv_cache_blocks hits, n))"

definition allocate_slots ::
  "('m block_pool_scheme) pool_callbacks \<Rightarrow> (bytes \<Rightarrow> bytes) \<Rightarrow> request \<Rightarrow> int \<Rightarrow> int \<Rightarrow> nat list option \<Rightarrow> int \<Rightarrow> int \<Rightarrow> bool \<Rightarrow>
     'm kvm_state \<Rightarrow> ('m kvm_state, request \<times> nat list option option) res" where
  "allocate_slots cbs sha r num_new num_new_computed new_computed num_lookahead num_external delay x =
     (if num_new = 0 \<and> num_external = 0
      then raise (ValueError ''num_new_tokens must be greater than 0 when there are no external computed tokens'') x
      else
        (let rid = request_id r;
             hits = (case new_computed of None \<Rightarrow> [] | Some bs \<Rightarrow> bs);
             num_local = num_computed_tokens r + num_new_computed;
             total_computed = min (num_local + num_external) (max_model_len (fst x));
             main_model = total_computed + num_new;
             need_slot = min (main_model + num_lookahead) (max_model_len (fst x))
         in rbind (remove_skipped_blocks cbs rid total_computed x) (\<lambda>_ x.
              case get_num_blocks_to_allocate rid need_slot hits (num_local + num_external) x of
                Inl e \<Rightarrow> raise e x
              | Inr needed \<Rightarrow>
                  if needed > get_num_free_blocks (snd x) then return (r, None) x
                  else rbind (if new_computed \<noteq> None \<or> num_external > 0
                              then allocate_new_computed_blocks cbs rid hits num_local num_external x
                              else return () x) (\<lambda>_ x.
                       rbind (allocate_new_blocks cbs rid need_slot x) (\<lambda>new x.
                         if \<not> kv_caching (fst x) \<or> delay then return (r, Some (create_kv_cache_blocks new)) x
                         else rbind (cache_blocks sha r (min (total_computed + num_new) (num_tokens r)) x) (\<lambda>r' x.
                                return (r', Some (create_kv_cache_blocks new)) x))))))"

definition manager_cache_blocks :: "(bytes \<Rightarrow> bytes) \<Rightarrow> request \<Rightarrow> int \<Rightarrow> 'm kvm_state \<Rightarrow> ('m kvm_state, request) res" where
  "manager_cache_blocks sha r num_computed x =
     (if kv_caching (fst x) then cache_blocks sha r num_computed x else return r x)"

text \<open>The coordinator without prefix caching shares nothing.\<close>

definition manager_num_common_prefix_blocks :: "string \<Rightarrow> 'm kvm_state \<Rightarrow> nat" where
  "manager_num_common_prefix_blocks r x = (if kv_caching (fst x) then get_num_common_prefix_blocks r x else 0)"

definition get_blocks :: "string \<Rightarrow> 'm kvm_state \<Rightarrow> nat list option" where
  "get_blocks r x = create_kv_cache_blocks (blocks_of r (fst x))"

section \<open>Calls handed through to the group and the pool\<close>

definition manager_remove_skipped_blocks ::
  "('m block_pool_scheme) pool_callbacks \<Rightarrow> string \<Rightarrow> int \<Rightarrow> 'm kvm_state \<Rightarrow> ('m kvm_state, unit) res" where
  "manager_remove_skipped_blocks cbs rid total_computed x = remove_skipped_blocks cbs rid total_computed x"

text \<open>Python iterates over the set of block ids in some order, here the order of the list.\<close>

definition manager_evict_blocks_by_id ::
  "('m block_pool_scheme) pool_callbacks \<Rightarrow> nat list \<Rightarrow> 'm kvm_state \<Rightarrow> ('m kvm_state, unit) res" where
  "manager_evict_blocks_by_id cbs ids x = on_pool (evict_blocks cbs ids) x"

definition manager_reset_prefix_cache :: "'m kvm_state \<Rightarrow> bool \<times> 'm kvm_state" where
  "manager_reset_prefix_cache x = (case reset_prefix_cache (snd x) of (ok, s) \<Rightarrow> (ok, (fst x, s)))"

definition manager_take_events :: "'m kvm_state \<Rightarrow> kv_event list \<times> 'm kvm_state" where
  "manager_take_events x = (case take_events (snd x) of (evs, s) \<Rightarrow> (evs, (fst x, s)))"

definition manager_take_new_block_ids :: "'m kvm_state \<Rightarrow> nat list \<times> 'm kvm_state" where
  "manager_take_new_block_ids x = (case take_new_block_ids (fst x) of (ids, g) \<Rightarrow> (ids, (g, snd x)))"

end
