(* ===== verification/KV_Accounting.thy ===== *)
theory KV_Accounting
  imports KV_Manager
begin

text \<open>
  What the KV cache manager relies on and what it promises. The locale \<open>kv_pool\<close> is the contract of
  the block pool with whatever callbacks are registered; inside it, every operation of the
  manager is shown to keep the accounts: each block's reference count is the number of
  requests that hold it, no request holds a block twice, and the blocks a request has not cached
  yet are its own and carry no hash.
\<close>

section \<open>The accounts\<close>

definition cached_count :: "'g kv_group_scheme \<Rightarrow> string \<Rightarrow> nat" where
  "cached_count g r = (case map_of (num_cached_block g) r of None \<Rightarrow> 0 | Some n \<Rightarrow> n)"

text \<open>How often the requests hold block \<open>b\<close>.\<close>

definition holders :: "'g kv_group_scheme \<Rightarrow> nat \<Rightarrow> nat" where
  "holders g b = sum_list (map (\<lambda>(r, bs). count_list bs b) (req_to_blocks g))"

definition blocks_ok :: "nat \<Rightarrow> nat list \<Rightarrow> bool" where
  "blocks_ok n bs \<longleftrightarrow> (\<forall>b \<in> set bs. b < n) \<and> distinct (filter (\<lambda>b. b \<noteq> 0) bs)"

definition own_blocks :: "'m block_pool_scheme \<Rightarrow> nat list \<Rightarrow> bool" where
  "own_blocks s bs \<longleftrightarrow> (\<forall>b \<in> set bs. b \<noteq> 0 \<longrightarrow> hash_at s b = None \<and> ref_at s b = 1)"

definition config_ok :: "'g kv_group_scheme \<Rightarrow> 'm block_pool_scheme \<Rightarrow> bool" where
  "config_ok g s \<longleftrightarrow> 0 < kv_block_size g \<and> 0 \<le> kv_group_id g \<and> kv_group_id g < 2 ^ 32 \<and> kv_caching g = enable_caching s \<and>
     (kv_caching g \<longrightarrow> hash_block_size s = kv_block_size g) \<and>
     (case kv_kind g of FullAttention \<Rightarrow> True | SlidingWindow w \<Rightarrow> 0 < w | ChunkedLocal c \<Rightarrow> 0 < c)"

definition accounts :: "('g, 'm) kv_state \<Rightarrow> bool" where
  "accounts x \<longleftrightarrow> (let (g, s) = x in config_ok g s \<and> dict_wf (req_to_blocks g) \<and> dict_wf (num_cached_block g) \<and>
     (\<forall>r. blocks_ok (length (blocks s)) (blocks_of r g) \<and> own_blocks s (drop (cached_count g r) (blocks_of r g))) \<and>
     (\<forall>b. 0 < b \<and> b < length (blocks s) \<longrightarrow> ref_at s b = int (holders g b)))"

lemma accountsD:
  assumes "accounts (g, s)"
  shows "config_ok g s" "dict_wf (req_to_blocks g)" "dict_wf (num_cached_block g)" "blocks_ok (length (blocks s)) (blocks_of r g)"
    "own_blocks s (drop (cached_count g r) (blocks_of r g))" "0 < b \<Longrightarrow> b < length (blocks s) \<Longrightarrow> ref_at s b = int (holders g b)"
  using assms by (simp_all add: accounts_def)

section \<open>Counting\<close>

lemma blocks_of_put [simp]: "blocks_of r' (put_blocks r bs g) = (if r' = r then bs else blocks_of r' g)"
  by (simp add: blocks_of_def put_blocks_def)

lemma put_blocks_fields [simp]: "kv_block_size (put_blocks r bs g) = kv_block_size g" "kv_kind (put_blocks r bs g) = kv_kind g"
  "kv_caching (put_blocks r bs g) = kv_caching g" "kv_group_id (put_blocks r bs g) = kv_group_id g"
  "num_cached_block (put_blocks r bs g) = num_cached_block g" "cached_count (put_blocks r bs g) = cached_count g"
  "dict_wf (req_to_blocks g) \<Longrightarrow> dict_wf (req_to_blocks (put_blocks r bs g))"
  "spec_is_full (put_blocks r bs g) = spec_is_full g" "config_ok (put_blocks r bs g) = config_ok g"
  by (simp_all add: put_blocks_def cached_count_def config_ok_def fun_eq_iff)

lemma holders_split:
  assumes "dict_wf d" "map_of d r = Some bs"
  shows "sum_list (map (\<lambda>(r, bs). count_list bs b) d) = count_list bs b + sum_list (map (\<lambda>(r, bs). count_list bs b) (AList.delete r d))"
  using assms
proof (induction d)
  case (Cons x d)
  show ?case
  proof (cases "fst x = r")
    case True
    with Cons.prems have "AList.delete r d = d" by (intro delete_id) simp
    with True Cons.prems show ?thesis by (cases x) (simp add: AList.delete_eq)
  next
    case False
    with Cons show ?thesis by (cases x) (simp add: AList.delete_eq)
  qed
qed simp

lemma holders_delete:
  assumes "dict_wf (req_to_blocks g)"
  shows "holders g b = count_list (blocks_of r g) b + holders (g\<lparr>req_to_blocks := AList.delete r (req_to_blocks g)\<rparr>) b"
proof (cases "map_of (req_to_blocks g) r")
  case None
  then have "AList.delete r (req_to_blocks g) = req_to_blocks g" by (intro delete_id) (simp add: map_of_eq_None_iff)
  with None show ?thesis by (simp add: blocks_of_def holders_def)
next
  case (Some bs)
  with holders_split [OF assms Some] show ?thesis by (simp add: blocks_of_def holders_def)
qed

lemma holders_put:
  assumes "dict_wf (req_to_blocks g)"
  shows "holders (put_blocks r bs g) b + count_list (blocks_of r g) b = holders g b + count_list bs b"
proof -
  have "AList.delete r (AList.update r bs (req_to_blocks g)) = AList.delete r (req_to_blocks g)" by (rule delete_update_same)
  then have "holders (put_blocks r bs g) b = count_list bs b + holders (g\<lparr>req_to_blocks := AList.delete r (req_to_blocks g)\<rparr>) b"
    using holders_delete [of "put_blocks r bs g" b r] assms by (simp add: put_blocks_def blocks_of_def)
  with holders_delete [OF assms, of b r] show ?thesis by simp
qed

lemma count_le_holders: "dict_wf (req_to_blocks g) \<Longrightarrow> count_list (blocks_of r g) b \<le> holders g b"
  using holders_delete [of g b r] by simp

lemma two_holders:
  assumes "dict_wf (req_to_blocks g)" "r \<noteq> r'"
  shows "count_list (blocks_of r g) b + count_list (blocks_of r' g) b \<le> holders g b"
proof -
  let ?g = "g\<lparr>req_to_blocks := AList.delete r (req_to_blocks g)\<rparr>"
  have "blocks_of r' ?g = blocks_of r' g" using assms(2) by (simp add: blocks_of_def)
  moreover have "count_list (blocks_of r' ?g) b \<le> holders ?g b" using assms(1) by (intro count_le_holders) simp
  ultimately show ?thesis using holders_delete [OF assms(1), of b r] by simp
qed

lemma count_pos: "b \<in> set bs \<Longrightarrow> 0 < count_list bs b"
  using count_list_0_iff [of bs b] by simp

lemma count_not_mem: "count_list bs b = 0 \<longleftrightarrow> b \<notin> set bs"
  by (rule count_list_0_iff)

lemma distinct_blocks_iff: "distinct (filter (\<lambda>b. b \<noteq> 0) bs) \<longleftrightarrow> (\<forall>b. b \<noteq> 0 \<longrightarrow> count_list bs b \<le> 1)" for bs :: "nat list"
proof (induction bs)
  case (Cons a bs)
  show ?case
  proof (cases "a = 0")
    case False
    have "(\<forall>b. b \<noteq> 0 \<longrightarrow> count_list (a # bs) b \<le> 1) \<longleftrightarrow> a \<notin> set bs \<and> (\<forall>b. b \<noteq> 0 \<longrightarrow> count_list bs b \<le> 1)"
      using False count_list_0_iff [of bs a] by (auto simp: le_Suc_eq)
    with Cons False show ?thesis by simp
  qed (use Cons in auto)
qed simp

lemma blocks_ok_iff: "blocks_ok n bs \<longleftrightarrow> (\<forall>b \<in> set bs. b < n) \<and> (\<forall>b. b \<noteq> 0 \<longrightarrow> count_list bs b \<le> 1)"
  unfolding blocks_ok_def distinct_blocks_iff ..

text \<open>Nobody else holds a block of one's own.\<close>

lemma own_block_elsewhere:
  assumes a: "accounts (g, s)" and b: "b \<in> set (drop (cached_count g r) (blocks_of r g))" "b \<noteq> 0" and r: "r' \<noteq> r"
  shows "b \<notin> set (blocks_of r' g)"
proof
  assume "b \<in> set (blocks_of r' g)"
  then have "0 < count_list (blocks_of r' g) b" by (rule count_pos)
  moreover have "b \<in> set (blocks_of r g)" using b(1) by (rule in_set_dropD)
  then have "0 < count_list (blocks_of r g) b" by (rule count_pos)
  ultimately have "2 \<le> holders g b" using two_holders [OF accountsD(2) [OF a] r, of b] by linarith
  moreover have "b < length (blocks s)" using \<open>b \<in> set (blocks_of r g)\<close> accountsD(4) [OF a] by (simp add: blocks_ok_def)
  then have "ref_at s b = int (holders g b)" using accountsD(6) [OF a] b(2) by simp
  moreover have "ref_at s b = 1" using accountsD(5) [OF a] b by (simp add: own_blocks_def)
  ultimately show False by simp
qed

lemma held_ref_pos:
  assumes a: "accounts (g, s)" and b: "b \<in> set (blocks_of r g)" "b \<noteq> 0"
  shows "0 < ref_at s b" "b < length (blocks s)"
proof -
  show l: "b < length (blocks s)" using b(1) accountsD(4) [OF a] by (simp add: blocks_ok_def)
  have "0 < count_list (blocks_of r g) b" using b(1) by (rule count_pos)
  with count_le_holders [OF accountsD(2) [OF a], of r b] accountsD(6) [OF a _ l] b(2) show "0 < ref_at s b" by simp
qed

section \<open>The contract of the pool\<close>

locale kv_pool =
  fixes cbs :: "('m block_pool_scheme) pool_callbacks" and ok :: "'m block_pool_scheme \<Rightarrow> bool"
  assumes sound: "ok s \<Longrightarrow> pool_inv {} s"
    and allocates: "ok s \<Longrightarrow> int k \<le> get_num_free_blocks s \<Longrightarrow> runs_to (get_new_blocks cbs k s) (\<lambda>ret s'. ok s' \<and> distinct ret \<and>
       length ret = k \<and> set ret \<subseteq> free_set s \<and> claimed (set ret) s s')"
    and touches: "ok s \<Longrightarrow> \<forall>b \<in> set bs. b < length (blocks s) \<and> (b = 0 \<or> 0 < ref_at s b \<or> hash_at s b \<noteq> None) \<Longrightarrow>
       runs_to (touch cbs bs s) (\<lambda>_ s'. ok s' \<and> rereffed (\<lambda>i. ref_at s i + int (count_list bs i)) s s')"
    and frees: "ok s \<Longrightarrow> may_free bs s \<Longrightarrow> runs_to (free_blocks cbs bs s) (\<lambda>_ s'. ok s' \<and> rereffed (\<lambda>i. ref_at s i - int (count_list bs i)) s s')"
    and caches: "ok s \<Longrightarrow> enable_caching s \<Longrightarrow> 0 \<le> gid \<Longrightarrow> gid < 2 ^ 32 \<Longrightarrow>
       \<forall>b \<in> set (take (nf - nc) (drop nc blks)). b < length (blocks s) \<and> (b \<noteq> 0 \<longrightarrow> 0 < ref_at s b \<and> hash_at s b = None) \<Longrightarrow>
       distinct (filter (\<lambda>b. b \<noteq> 0) blks) \<Longrightarrow> nc < nf \<Longrightarrow> nf \<le> length blks \<Longrightarrow> nf \<le> length (block_hashes r) \<Longrightarrow>
       nf \<le> length (group_hashes (hash_block_size s) bsz r) \<Longrightarrow>
       runs_to (cache_full_blocks sha r blks nc nf bsz gid s) (\<lambda>_ s'. ok s' \<and> ref_at s' = ref_at s \<and> length (blocks s') = length (blocks s) \<and>
         enable_caching s' = enable_caching s \<and> hash_block_size s' = hash_block_size s \<and>
         (\<forall>b. b \<notin> set (take (nf - nc) (drop nc blks)) \<longrightarrow> hash_at s' b = hash_at s b))"
begin

lemma null_is_zero: "ok s \<Longrightarrow> null_block s = 0"
  using sound by (simp add: pool_inv_def ids_ok_def)

lemma free_is_unreferenced: "ok s \<Longrightarrow> b \<in> free_set s \<longleftrightarrow> 0 < b \<and> b < length (blocks s) \<and> ref_at s b = 0"
  using sound by (auto simp: pool_inv_def queue_ok_def)

text \<open>The free count is the number of unreferenced blocks.\<close>

lemma free_count: "ok s \<Longrightarrow> get_num_free_blocks s = int (card {b. 0 < b \<and> b < length (blocks s) \<and> ref_at s b = 0})"
proof -
  assume s: "ok s"
  have w: "fq_wf (free_block_queue s)" using sound [OF s] by (simp add: pool_inv_def queue_ok_def)
  have "get_num_free_blocks s = int (length (free_ids (free_block_queue s)))" unfolding get_num_free_blocks_def using fq.num_ids [OF w] by simp
  also have "length (free_ids (free_block_queue s)) = card (free_set s)" unfolding free_set_def using fq.ids_distinct [OF w] by (rule distinct_card [symmetric])
  also have "free_set s = {b. 0 < b \<and> b < length (blocks s) \<and> ref_at s b = 0}" using free_is_unreferenced [OF s] by blast
  finally show ?thesis .
qed

text \<open>Giving references back: \<open>bs'\<close> is what the request keeps of its blocks.\<close>

lemma release_ok:
  assumes s: "ok s" and a: "accounts (g, s)" and n: "0 < length (blocks s)"
    and gone: "\<forall>b \<in> set gone. b \<noteq> 0 \<and> b \<in> set (blocks_of r g)" "distinct gone"
    and keep: "\<forall>b. b \<noteq> 0 \<longrightarrow> count_list bs' b + count_list gone b = count_list (blocks_of r g) b"
      "set (drop (cached_count g r) bs') \<subseteq> insert 0 (set (drop (cached_count g r) (blocks_of r g)))"
  shows "runs_to (free_blocks cbs gone s) (\<lambda>_ s'. ok s' \<and> accounts (put_blocks r bs' g, s') \<and>
     rereffed (\<lambda>i. ref_at s i - int (count_list gone i)) s s')"
proof -
  note D = accountsD [OF a]
  have may: "may_free gone s" unfolding may_free_def using gone held_ref_pos [OF a] by auto
  show ?thesis
  proof (rule runs_to_mono [OF frees [OF s may]])
    fix u s' assume s': "ok s' \<and> rereffed (\<lambda>i. ref_at s i - int (count_list gone i)) s s'"
    then have f: "\<And>i. ref_at s' i = ref_at s i - int (count_list gone i)" "hash_at s' = hash_at s" "length (blocks s') = length (blocks s)"
      "enable_caching s' = enable_caching s" "hash_block_size s' = hash_block_size s" by (simp_all add: rereffed_def)
    have le: "count_list (blocks_of r g) b \<le> 1" if "b \<noteq> 0" for b using D(4) [of r] that by (simp add: blocks_ok_iff)
    have cnt: "count_list bs' b \<le> 1 \<and> (b \<in> set bs' \<longrightarrow> b \<in> set (blocks_of r g) \<and> b \<notin> set gone)" if "b \<noteq> 0" for b
      using keep(1) [rule_format, OF that] le [OF that] count_pos [of b bs'] count_pos [of b gone] count_not_mem [of "blocks_of r g" b]
      by fastforce
    have "blocks_ok (length (blocks s)) bs'"
      unfolding blocks_ok_iff
    proof (intro conjI ballI)
      fix b assume "b \<in> set bs'"
      then show "b < length (blocks s)" using cnt [of b] D(4) [of r] n by (cases "b = 0") (auto simp: blocks_ok_iff)
    qed (use cnt in blast)
    then have "\<forall>r'. blocks_ok (length (blocks s')) (blocks_of r' (put_blocks r bs' g))" using D(4) unfolding f(3) by simp
    moreover have "own_blocks s' (drop (cached_count g r') (if r' = r then bs' else blocks_of r' g))" for r'
      unfolding own_blocks_def
    proof (intro ballI impI)
      fix b assume b: "b \<in> set (drop (cached_count g r') (if r' = r then bs' else blocks_of r' g))" "b \<noteq> 0"
      have "b \<in> set (drop (cached_count g r') (blocks_of r' g)) \<and> b \<notin> set gone"
      proof (cases "r' = r")
        case True
        with b keep(2) cnt [OF b(2)] in_set_dropD [of b "cached_count g r" bs'] show ?thesis by auto
      next
        case False
        with b own_block_elsewhere [OF a, of b r' r] gone(1) show ?thesis by auto
      qed
      with D(5) [of r'] b(2) f(1) [of b] f(2) count_not_mem [of gone b] show "hash_at s' b = None \<and> ref_at s' b = 1"
        unfolding own_blocks_def by simp
    qed
    moreover have "ref_at s' b = int (holders (put_blocks r bs' g) b)" if b: "0 < b" "b < length (blocks s')" for b
      using holders_put [OF D(2), of r bs' b] keep(1) [rule_format, of b] D(6) [of b] b unfolding f(1,3) by simp
    moreover have "config_ok (put_blocks r bs' g) s'" using D(1) f(4,5) by (simp add: config_ok_def)
    ultimately show "ok s' \<and> accounts (put_blocks r bs' g, s') \<and> rereffed (\<lambda>i. ref_at s i - int (count_list gone i)) s s'"
      using s' D(2,3) by (simp add: accounts_def)
  qed
qed

lemma pool_nonempty: "ok s \<Longrightarrow> 0 < length (blocks s)"
  using sound by (simp add: pool_inv_def ids_ok_def)

text \<open>\<open>free\<close>: the request's references are given back, null blocks included.\<close>

lemma kv_free_ok:
  assumes s: "ok s" and a: "accounts (g, s)"
  shows "runs_to (kv_free cbs r (g, s)) (\<lambda>_ (g', s'). ok s' \<and> accounts (g', s') \<and>
     (\<forall>r'. blocks_of r' g' = (if r' = r then [] else blocks_of r' g)) \<and>
     (\<forall>b. b \<noteq> 0 \<longrightarrow> ref_at s' b = ref_at s b - int (count_list (blocks_of r g) b)) \<and> hash_at s' = hash_at s \<and>
     length (blocks s') = length (blocks s))"
proof -
  note D = accountsD [OF a]
  let ?bs = "rev (blocks_of r g)" and ?g = "g\<lparr>req_to_blocks := AList.delete r (req_to_blocks g)\<rparr>"
  have cnt: "count_list ?bs b = count_list (blocks_of r g) b" for b by simp
  have may: "may_free ?bs s"
    unfolding may_free_def distinct_blocks_iff cnt using D(4) [of r] held_ref_pos [OF a, of _ r] by (auto simp: blocks_ok_iff)
  have "runs_to (free_blocks cbs ?bs s) (\<lambda>_ s'. ok s' \<and> rereffed (\<lambda>i. ref_at s i - int (count_list ?bs i)) s s')" by (rule frees [OF s may])
  then have "runs_to (free_blocks cbs ?bs s) (\<lambda>_ s'. ok s' \<and> accounts (?g\<lparr>num_cached_block := AList.delete r (num_cached_block g)\<rparr>, s') \<and>
     (\<forall>b. b \<noteq> 0 \<longrightarrow> ref_at s' b = ref_at s b - int (count_list (blocks_of r g) b)) \<and> hash_at s' = hash_at s \<and>
     length (blocks s') = length (blocks s))"
  proof (rule runs_to_mono)
    fix u s' assume s': "ok s' \<and> rereffed (\<lambda>i. ref_at s i - int (count_list ?bs i)) s s'"
    let ?g' = "?g\<lparr>num_cached_block := AList.delete r (num_cached_block g)\<rparr>"
    have f: "\<And>i. ref_at s' i = ref_at s i - int (count_list (blocks_of r g) i)" "hash_at s' = hash_at s" "length (blocks s') = length (blocks s)"
      "enable_caching s' = enable_caching s" "hash_block_size s' = hash_block_size s" using s' by (simp_all add: rereffed_def)
    have bo: "blocks_of r' ?g' = (if r' = r then [] else blocks_of r' g)" for r' by (simp add: blocks_of_def)
    have cc: "r' \<noteq> r \<Longrightarrow> cached_count ?g' r' = cached_count g r'" for r' by (simp add: cached_count_def)
    have h: "holders ?g' b = holders ?g b" for b by (simp add: holders_def)
    have "own_blocks s' (drop (cached_count ?g' r') (blocks_of r' ?g'))" for r'
    proof (cases "r' = r")
      case False
      have "hash_at s' b = None \<and> ref_at s' b = 1" if b: "b \<in> set (drop (cached_count g r') (blocks_of r' g))" "b \<noteq> 0" for b
        using D(5) [of r'] own_block_elsewhere [OF a b, of r] False b f(2) f(1) [of b] count_not_mem [of "blocks_of r g" b]
        by (auto simp: own_blocks_def)
      with False show ?thesis by (simp add: own_blocks_def bo cc)
    qed (simp add: own_blocks_def bo)
    moreover have "\<forall>r'. blocks_ok (length (blocks s')) (blocks_of r' ?g')" unfolding bo f(3) using D(4) by (simp add: blocks_ok_def)
    moreover have "ref_at s' b = int (holders ?g' b)" if "0 < b" "b < length (blocks s')" for b
      using D(6) [of b] holders_delete [OF D(2), of b r] that unfolding h f(1,3) by simp
    moreover have "config_ok ?g' s'" using D(1) f(4,5) by (simp add: config_ok_def)
    ultimately have "accounts (?g', s')" using D(2,3) by (simp add: accounts_def)
    with s' f show "ok s' \<and> accounts (?g', s') \<and>
      (\<forall>b. b \<noteq> 0 \<longrightarrow> ref_at s' b = ref_at s b - int (count_list (blocks_of r g) b)) \<and> hash_at s' = hash_at s \<and> length (blocks s') = length (blocks s)" by simp
  qed
  then show ?thesis
    by (auto simp: kv_free_def on_pool_def post_rbind post_on_part blocks_of_def elim!: runs_to_mono)
qed

end

text \<open>The loop of \<open>remove_skipped_blocks\<close>, and what it keeps of the request's blocks.\<close>

lemma skip_loop_spec:
  assumes "skip_loop null i bs removed = (bs', removed')" "i \<le> length bs"
  shows "\<exists>k \<le> i. bs' = take k bs @ replicate (i - k) null @ drop i bs \<and> removed' = removed @ rev (take (i - k) (drop k bs)) \<and>
     null \<notin> set (take (i - k) (drop k bs))"
  using assms
proof (induction null i bs removed rule: skip_loop.induct)
  case (1 null bs removed)
  then show ?case by auto
next
  case (2 null i bs removed)
  show ?case
  proof (cases "bs ! i = null")
    case True
    with 2(2) show ?thesis by (intro exI [of _ "Suc i"]) auto
  next
    case False
    with 2(2,3) obtain k where k: "k \<le> i" "bs' = take k (bs[i := null]) @ replicate (i - k) null @ drop i (bs[i := null])"
      "removed' = (removed @ [bs ! i]) @ rev (take (i - k) (drop k (bs[i := null])))" "null \<notin> set (take (i - k) (drop k (bs[i := null])))"
      using 2(1) by auto
    have same: "take (i - k) (drop k (bs[i := null])) = take (i - k) (drop k bs)" "take k (bs[i := null]) = take k bs"
      using k(1) by (simp_all add: drop_update_swap take_update_swap list_update_beyond)
    have split: "take (Suc i - k) (drop k bs) = take (i - k) (drop k bs) @ [bs ! i]"
      using k(1) 2(3) by (simp add: Suc_diff_le take_Suc_conv_app_nth)
    have "drop i (bs[i := null]) = null # drop (Suc i) bs" using 2(3) by (simp add: Cons_nth_drop_Suc [symmetric] drop_update_swap)
    moreover have "replicate (i - k) null @ null # drop (Suc i) bs = replicate (Suc i - k) null @ drop (Suc i) bs"
      using k(1) by (simp add: Suc_diff_le replicate_app_Cons_same)
    ultimately show ?thesis using k False unfolding same by (intro exI [of _ k]) (simp add: split)
  qed
qed

lemma skipped_parts:
  fixes bs :: "nat list"
  assumes "k \<le> i" "i \<le> length bs"
  defines "bs' \<equiv> take k bs @ replicate (i - k) 0 @ drop i bs" and "gone \<equiv> take (i - k) (drop k bs)"
  shows "length bs' = length bs" "\<forall>b. b \<noteq> 0 \<longrightarrow> count_list bs' b + count_list (rev gone) b = count_list bs b"
    "set (drop c bs') \<subseteq> insert 0 (set (drop c bs))" "set gone \<subseteq> set bs"
proof -
  have d: "bs = take k bs @ gone @ drop i bs"
    unfolding gone_def using assms(1) by (metis append.assoc append_take_drop_id drop_drop le_add_diff_inverse2)
  show len: "length bs' = length bs" using assms(1,2) by (simp add: bs'_def)
  have "count_list (replicate m 0) b = 0" if "b \<noteq> 0" for m and b :: nat using that by (induction m) auto
  then show "\<forall>b. b \<noteq> 0 \<longrightarrow> count_list bs' b + count_list (rev gone) b = count_list bs b"
    by (subst d) (simp add: bs'_def)
  show "set gone \<subseteq> set bs" unfolding gone_def by (auto dest: in_set_takeD in_set_dropD)
  show "set (drop c bs') \<subseteq> insert 0 (set (drop c bs))"
  proof
    fix b assume "b \<in> set (drop c bs')"
    then obtain j where "j < length (drop c bs')" "drop c bs' ! j = b" unfolding in_set_conv_nth by blast
    then have j: "c + j < length bs'" "bs' ! (c + j) = b" by simp_all
    have nth: "bs' ! m = (if m < k \<or> i \<le> m then bs ! m else 0)" if "m < length bs" for m
      using that assms(1,2) by (auto simp: bs'_def nth_append)
    show "b \<in> insert 0 (set (drop c bs))"
    proof (cases "c + j < k \<or> i \<le> c + j")
      case True
      then have "bs ! (c + j) = b" using j nth len by simp
      then show ?thesis using j(1) len by (auto simp: in_set_conv_nth intro!: disjI2 exI [of _ j])
    next
      case False
      then show ?thesis using j nth len by simp
    qed
  qed
qed

text \<open>An operation for request \<open>r\<close> leaves the configuration and the blocks of the others alone.\<close>

definition others_kept :: "string \<Rightarrow> 'g kv_group_scheme \<Rightarrow> 'g kv_group_scheme \<Rightarrow> bool" where
  "others_kept r g g' \<longleftrightarrow> kv_block_size g' = kv_block_size g \<and> kv_kind g' = kv_kind g \<and> kv_caching g' = kv_caching g \<and>
     kv_group.more g' = kv_group.more g \<and> (\<forall>r'. r' \<noteq> r \<longrightarrow> blocks_of r' g' = blocks_of r' g)"

lemma others_kept_put [simp]: "others_kept r g (put_blocks r bs g)" "others_kept r g ((put_blocks r bs g)\<lparr>new_block_ids := ids\<rparr>)"
  "others_kept r g ((put_blocks r bs g)\<lparr>num_cached_block := d\<rparr>)" "others_kept r g g"
  by (simp_all add: others_kept_def put_blocks_def blocks_of_def)

lemma others_kept_trans: "others_kept r g g1 \<Longrightarrow> others_kept r g1 g2 \<Longrightarrow> others_kept r g g2"
  by (simp add: others_kept_def)

lemma others_keptD: "others_kept r g g' \<Longrightarrow> kv_block_size g' = kv_block_size g \<and> kv_kind g' = kv_kind g \<and> kv_caching g' = kv_caching g \<and>
    kv_group.more g' = kv_group.more g"
  by (simp add: others_kept_def)

lemma blocks_of_fields [simp]: "blocks_of r (g\<lparr>new_block_ids := ids\<rparr>) = blocks_of r g" "blocks_of r (g\<lparr>num_cached_block := d\<rparr>) = blocks_of r g"
  by (simp_all add: blocks_of_def)

lemma put_put [simp]: "put_blocks r bs (put_blocks r bs' g) = put_blocks r bs g"
  "put_blocks r bs (g\<lparr>num_cached_block := d\<rparr>) = (put_blocks r bs g)\<lparr>num_cached_block := d\<rparr>"
  by (simp_all add: put_blocks_def)

text \<open>Hits of a new request: cached blocks, each once.\<close>

definition valid_hits :: "nat list \<Rightarrow> 'm block_pool_scheme \<Rightarrow> bool" where
  "valid_hits hits s \<longleftrightarrow> blocks_ok (length (blocks s)) hits \<and> (\<forall>b \<in> set hits. b \<noteq> 0 \<longrightarrow> hash_at s b \<noteq> None)"

lemma valid_hits_drop: "valid_hits hits s \<Longrightarrow> valid_hits (drop k hits) s"
proof -
  assume h: "valid_hits hits s"
  have "count_list (drop k hits) b \<le> count_list hits b" for b
    by (metis append_take_drop_id count_list_append le_add2)
  then have "\<forall>b. b \<noteq> 0 \<longrightarrow> count_list (drop k hits) b \<le> 1" using h by (auto simp: valid_hits_def blocks_ok_iff intro: order_trans)
  with h show ?thesis by (auto simp: valid_hits_def blocks_ok_iff dest: in_set_dropD)
qed

context kv_pool
begin

lemma remove_skipped_blocks_ok:
  assumes s: "ok s" and a: "accounts (g, s)"
  shows "runs_to (remove_skipped_blocks cbs r toks (g, s)) (\<lambda>_ (g', s'). ok s' \<and> accounts (g', s') \<and>
     (\<exists>bs. g' = (if get_num_skipped_tokens (kv_kind g) toks \<le> 0 then g else put_blocks r bs g) \<and> length bs = length (blocks_of r g)) \<and>
     length (blocks s') = length (blocks s) \<and> hash_at s' = hash_at s \<and> (blocks_of r g = [] \<longrightarrow> ref_at s' = ref_at s))"
proof (cases "get_num_skipped_tokens (kv_kind g) toks \<le> 0")
  case True
  with s a show ?thesis by (auto simp: remove_skipped_blocks_def intro: exI [of _ "blocks_of r g"])
next
  case False
  let ?bs = "blocks_of r g" and ?t = "get_num_skipped_tokens (kv_kind g) toks"
  define i where "i = nat (min (?t div kv_block_size g) (int (length ?bs)))"
  have i: "i \<le> length ?bs" by (simp add: i_def)
  obtain bs' gone where sl: "skip_loop 0 i ?bs [] = (bs', gone)" by (cases "skip_loop 0 i ?bs []")
  obtain k where k: "k \<le> i" "bs' = take k ?bs @ replicate (i - k) 0 @ drop i ?bs" "gone = rev (take (i - k) (drop k ?bs))"
    "0 \<notin> set (take (i - k) (drop k ?bs))" using skip_loop_spec [OF sl i] by auto
  note p = skipped_parts [OF k(1) i, folded k(2,3)]
  have nz: "\<forall>b \<in> set gone. b \<noteq> 0" unfolding k(3) using k(4) by (metis set_rev)
  have "count_list gone b \<le> 1" if b: "b \<noteq> 0" for b
    using p(2) [rule_format, OF b] accountsD(4) [OF a, of r] b by (auto simp: blocks_ok_iff k(3) dest: spec [of _ b])
  then have "distinct (filter (\<lambda>b. b \<noteq> 0) gone)" unfolding distinct_blocks_iff by blast
  then have dg: "distinct gone" unfolding filter_True [OF nz] .
  have "runs_to (free_blocks cbs gone s) (\<lambda>_ s'. ok s' \<and> accounts (put_blocks r bs' g, s') \<and>
     rereffed (\<lambda>i. ref_at s i - int (count_list gone i)) s s')"
    by (rule release_ok [OF s a pool_nonempty [OF s] _ dg]) (use p nz k(3) in auto)
  moreover have "remove_skipped_blocks cbs r toks (g, s) = on_pool (free_blocks cbs gone) (put_blocks r bs' g, s)"
    using False sl null_is_zero [OF s] by (simp add: remove_skipped_blocks_def i_def Let_def)
  moreover have "blocks_of r g = [] \<Longrightarrow> gone = []" using i by (simp add: k(3))
  ultimately show ?thesis
    using False p(1) by (auto simp: on_pool_def post_on_part rereffed_def elim!: runs_to_mono)
qed

text \<open>New blocks for a request.\<close>

lemma grow_ok:
  assumes s: "ok s" and a: "accounts (g, s)" and k: "int k \<le> get_num_free_blocks s"
  shows "runs_to (get_new_blocks cbs k s) (\<lambda>new s'. ok s' \<and> length new = k \<and>
     (\<forall>ids. accounts ((put_blocks r (blocks_of r g @ new) g)\<lparr>new_block_ids := ids\<rparr>, s')) \<and>
     get_num_free_blocks s' = get_num_free_blocks s - int k)"
proof (rule runs_to_mono [OF allocates [OF s k]])
  note D = accountsD [OF a]
  fix new s' assume "ok s' \<and> distinct new \<and> length new = k \<and> set new \<subseteq> free_set s \<and> claimed (set new) s s'"
  then have s': "ok s'" and d: "distinct new" "length new = k" and sub: "set new \<subseteq> free_set s"
    and f: "\<And>i. ref_at s' i = (if i \<in> set new then 1 else ref_at s i)" "\<And>i. hash_at s' i = (if i \<in> set new then None else hash_at s i)"
      "length (blocks s') = length (blocks s)" "enable_caching s' = enable_caching s" "hash_block_size s' = hash_block_size s"
    by (simp_all add: claimed_def)
  have new: "0 < b \<and> b < length (blocks s) \<and> ref_at s b = 0" if "b \<in> set new" for b
    using free_is_unreferenced [OF s] sub that by blast
  have none: "b \<notin> set (blocks_of r' g)" if "b \<in> set new" for b r'
    using held_ref_pos(1) [OF a, of b r'] new [OF that] by auto
  have zero: "holders g b = 0" if "b \<in> set new" for b using D(6) [of b] new [OF that] by simp
  let ?g = "put_blocks r (blocks_of r g @ new) g"
  have "blocks_ok (length (blocks s)) (blocks_of r g @ new)"
    using D(4) [of r] new none d(1) by (auto simp: blocks_ok_def)
  then have "\<forall>r'. blocks_ok (length (blocks s')) (blocks_of r' ?g)" using D(4) unfolding f(3) by simp
  moreover have "own_blocks s' (drop (cached_count g r') (blocks_of r' ?g))" for r'
    unfolding own_blocks_def
  proof (intro ballI impI)
    fix b assume b: "b \<in> set (drop (cached_count g r') (blocks_of r' ?g))" "b \<noteq> 0"
    have "b \<in> set (drop (cached_count g r') (blocks_of r' g)) \<or> b \<in> set new"
      using b(1) by (auto split: if_splits dest: in_set_dropD)
    with D(5) [of r'] b(2) f(1,2) show "hash_at s' b = None \<and> ref_at s' b = 1" by (auto simp: own_blocks_def)
  qed
  moreover have "ref_at s' b = int (holders ?g b)" if b: "0 < b" "b < length (blocks s')" for b
    using holders_put [OF D(2), of r "blocks_of r g @ new" b] D(6) [of b] b zero [of b] f(1) [of b] count_list_distinct [OF d(1), of b]
    unfolding f(3) by (auto split: if_splits)
  moreover have "config_ok ?g s'" using D(1) f(4,5) by (simp add: config_ok_def)
  ultimately have acc: "accounts (?g, s')" using D(2,3) by (simp add: accounts_def)
  have "accounts (?g\<lparr>new_block_ids := ids\<rparr>, s')" for ids
    using acc unfolding accounts_def config_ok_def blocks_of_def cached_count_def holders_def by simp
  moreover have "{b. 0 < b \<and> b < length (blocks s') \<and> ref_at s' b = 0} = {b. 0 < b \<and> b < length (blocks s) \<and> ref_at s b = 0} - set new"
    unfolding f(1,3) by auto
  then have "get_num_free_blocks s' = get_num_free_blocks s - int k"
  proof -
    have sb: "set new \<subseteq> {b. 0 < b \<and> b < length (blocks s) \<and> ref_at s b = 0}" using new by blast
    have "card (set new) = k" using d by (simp add: distinct_card)
    with card_Diff_subset [OF finite_set sb] card_mono [OF _ sb]
      \<open>{b. 0 < b \<and> b < length (blocks s') \<and> ref_at s' b = 0} = _\<close> show ?thesis unfolding free_count [OF s] free_count [OF s'] by simp
  qed
  ultimately show "ok s' \<and> length new = k \<and> (\<forall>ids. accounts (?g\<lparr>new_block_ids := ids\<rparr>, s')) \<and>
     get_num_free_blocks s' = get_num_free_blocks s - int k" using s' d(2) by blast
qed

lemma evictable_count:
  assumes s: "ok s" and h: "valid_hits hits s"
  shows "get_num_evictable_blocks hits s = card {b \<in> set hits. b \<noteq> 0 \<and> ref_at s b = 0}"
proof -
  have null: "is_null (blocks s ! b) \<longleftrightarrow> b = 0" if "b \<in> set hits" for b
    using sound [OF s] h that by (simp add: pool_inv_def ids_ok_def valid_hits_def blocks_ok_def)
  have "filter (\<lambda>b. ref_cnt (blocks s ! b) = 0 \<and> \<not> is_null (blocks s ! b)) hits = filter (\<lambda>b. ref_at s b = 0) (filter (\<lambda>b. b \<noteq> 0) hits)"
    using null by (auto simp: ref_at_def intro!: filter_cong)
  moreover have "distinct (filter (\<lambda>b. ref_at s b = 0) (filter (\<lambda>b. b \<noteq> 0) hits))"
    using h unfolding valid_hits_def blocks_ok_def by (blast intro: distinct_filter)
  ultimately show ?thesis
    using distinct_card [of "filter (\<lambda>b. ref_at s b = 0) (filter (\<lambda>b. b \<noteq> 0) hits)"]
    by (simp add: get_num_evictable_blocks_def)
qed

lemma adopt_ok:
  assumes s: "ok s" and a: "accounts (g, s)" and new: "blocks_of r g = []" and h: "valid_hits hits s"
  shows "runs_to (touch cbs hits s) (\<lambda>_ s'. ok s' \<and>
     accounts ((put_blocks r (replicate k 0 @ hits) g)\<lparr>num_cached_block := AList.update r (k + length hits) (num_cached_block g)\<rparr>, s') \<and>
     get_num_free_blocks s' = get_num_free_blocks s - int (get_num_evictable_blocks hits s))"
proof -
  note D = accountsD [OF a]
  have pre: "\<forall>b \<in> set hits. b < length (blocks s) \<and> (b = 0 \<or> 0 < ref_at s b \<or> hash_at s b \<noteq> None)"
    using h by (auto simp: valid_hits_def blocks_ok_def)
  show ?thesis
  proof (rule runs_to_mono [OF touches [OF s pre]])
    fix u s' assume t: "ok s' \<and> rereffed (\<lambda>i. ref_at s i + int (count_list hits i)) s s'"
    then have s': "ok s'" and f: "\<And>i. ref_at s' i = ref_at s i + int (count_list hits i)" "hash_at s' = hash_at s" "length (blocks s') = length (blocks s)"
      "enable_caching s' = enable_caching s" "hash_block_size s' = hash_block_size s" by (simp_all add: rereffed_def)
    let ?bs = "replicate k 0 @ hits"
    let ?g = "(put_blocks r ?bs g)\<lparr>num_cached_block := AList.update r (k + length hits) (num_cached_block g)\<rparr>"
    have bo: "blocks_of r' ?g = (if r' = r then ?bs else blocks_of r' g)" for r' by (simp add: put_blocks_def blocks_of_def)
    have cc: "cached_count ?g r' = (if r' = r then k + length hits else cached_count g r')" for r' by (simp add: cached_count_def put_blocks_def)
    have cnt0: "count_list (replicate k 0) b = 0" if "b \<noteq> 0" for b :: nat using that by (induction k) auto
    have n: "0 < length (blocks s)" by (rule pool_nonempty [OF s])
    have "blocks_ok (length (blocks s)) ?bs"
      using h n unfolding valid_hits_def blocks_ok_def by auto
    then have "\<forall>r'. blocks_ok (length (blocks s')) (blocks_of r' ?g)" using D(4) unfolding bo f(3) by simp
    moreover have "own_blocks s' (drop (cached_count ?g r') (blocks_of r' ?g))" for r'
    proof (cases "r' = r")
      case False
      have "hash_at s' b = None \<and> ref_at s' b = 1" if b: "b \<in> set (drop (cached_count g r') (blocks_of r' g))" "b \<noteq> 0" for b
      proof -
        have o: "hash_at s b = None \<and> ref_at s b = 1" using D(5) [of r'] b by (simp add: own_blocks_def)
        then have "b \<notin> set hits" using h b(2) by (auto simp: valid_hits_def)
        with o show ?thesis using f(1) [of b] f(2) count_not_mem [of hits b] by simp
      qed
      with False show ?thesis by (simp add: bo cc own_blocks_def)
    qed (simp add: bo cc own_blocks_def)
    moreover have "ref_at s' b = int (holders ?g b)" if b: "0 < b" "b < length (blocks s')" for b
    proof -
      have "holders ?g b = holders (put_blocks r ?bs g) b" by (simp add: holders_def)
      with holders_put [OF D(2), of r ?bs b] cnt0 [of b] D(6) [of b] b new show ?thesis unfolding f(1,3) by simp
    qed
    moreover have "config_ok ?g s'" using D(1) f(4,5) by (simp add: config_ok_def put_blocks_def)
    ultimately have acc: "accounts (?g, s')" using D(2,3) by (simp add: accounts_def)
    let ?U = "\<lambda>s. {b. 0 < b \<and> b < length (blocks s) \<and> ref_at s b = 0}" and ?E = "{b \<in> set hits. b \<noteq> 0 \<and> ref_at s b = 0}"
    have nn: "0 \<le> ref_at s b" if "0 < b" "b < length (blocks s)" for b using D(6) [OF that] by simp
    have "b \<in> ?U s' \<longleftrightarrow> b \<in> ?U s - ?E" for b
      using nn [of b] count_not_mem [of hits b] f(1) [of b] f(3) by auto
    then have "?U s' = ?U s - ?E" by blast
    moreover have "?E \<subseteq> ?U s" using h by (auto simp: valid_hits_def blocks_ok_def)
    ultimately have "get_num_free_blocks s' = get_num_free_blocks s - int (card ?E)"
      unfolding free_count [OF s] free_count [OF s'] using card_Diff_subset [of ?E "?U s"] card_mono [of "?U s" ?E] by simp
    then show "ok s' \<and> accounts (?g, s') \<and> get_num_free_blocks s' = get_num_free_blocks s - int (get_num_evictable_blocks hits s)"
      using s' acc evictable_count [OF s h] by simp
  qed
qed

text \<open>Caching the full blocks of a request.\<close>

lemma cache_blocks_ok:
  assumes s: "ok s" and a: "accounts (g, s)" and c: "kv_caching g"
    and len: "toks div kv_block_size g \<le> int (length (blocks_of (request_id r) g))" "toks div kv_block_size g \<le> int (length (block_hashes r))"
  shows "runs_to (cache_blocks sha r toks (g, s)) (\<lambda>_ (g', s'). ok s' \<and> accounts (g', s') \<and>
     blocks_of (request_id r) g' = blocks_of (request_id r) g \<and> others_kept (request_id r) g g' \<and>
     toks div kv_block_size g \<le> int (cached_count g' (request_id r)))"
proof -
  note D = accountsD [OF a]
  let ?r = "request_id r" and ?size = "kv_block_size g"
  let ?bs = "blocks_of ?r g" and ?nc = "cached_count g ?r" and ?nf = "nat (toks div ?size)"
  have nc: "(case map_of (num_cached_block g) ?r of None \<Rightarrow> 0 | Some n \<Rightarrow> n) = ?nc" by (simp add: cached_count_def)
  show ?thesis
  proof (cases "int ?nc \<ge> toks div ?size")
    case True
    with s a show ?thesis by (simp add: cache_blocks_def nc Let_def)
  next
    case False
    have conf: "enable_caching s" "hash_block_size s = ?size" "0 \<le> kv_group_id g" "kv_group_id g < 2 ^ 32"
      using D(1) c by (simp_all add: config_ok_def)
    let ?new = "take (?nf - ?nc) (drop ?nc ?bs)"
    have own: "b < length (blocks s) \<and> (b \<noteq> 0 \<longrightarrow> 0 < ref_at s b \<and> hash_at s b = None)" if b: "b \<in> set ?new" for b
    proof -
      have "b \<in> set (drop ?nc ?bs)" using b by (rule in_set_takeD)
      with D(5) [of ?r] D(4) [of ?r] show ?thesis by (auto simp: own_blocks_def blocks_ok_def dest: in_set_dropD)
    qed
    have d: "distinct (filter (\<lambda>b. b \<noteq> 0) ?bs)" using D(4) by (simp add: blocks_ok_def)
    have n: "?nc < ?nf" "?nf \<le> length ?bs" "?nf \<le> length (block_hashes r)" using False len by auto
    then have n': "?nf \<le> length (group_hashes (hash_block_size s) ?size r)" by (simp add: group_hashes_def conf(2))
    let ?g = "(put_blocks ?r ?bs g)\<lparr>num_cached_block := AList.update ?r ?nf (num_cached_block g)\<rparr>"
    have "runs_to (cache_full_blocks sha r ?bs ?nc ?nf ?size (kv_group_id g) s) (\<lambda>_ s'. ok s' \<and> accounts (?g, s'))"
    proof (rule runs_to_mono [OF caches [OF s conf(1,3,4) _ d n n']])
      show "\<forall>b \<in> set ?new. b < length (blocks s) \<and> (b \<noteq> 0 \<longrightarrow> 0 < ref_at s b \<and> hash_at s b = None)" using own by blast
      fix u s' assume t: "ok s' \<and> ref_at s' = ref_at s \<and> length (blocks s') = length (blocks s) \<and> enable_caching s' = enable_caching s \<and>
        hash_block_size s' = hash_block_size s \<and> (\<forall>b. b \<notin> set ?new \<longrightarrow> hash_at s' b = hash_at s b)"
      have bo: "blocks_of r' ?g = blocks_of r' g" for r' by (simp add: put_blocks_def blocks_of_def)
      have cc: "cached_count ?g r' = (if r' = ?r then ?nf else cached_count g r')" for r' by (simp add: cached_count_def put_blocks_def)
      have "own_blocks s' (drop (cached_count ?g r') (blocks_of r' g))" for r'
        unfolding own_blocks_def
      proof (intro ballI impI)
        fix b assume b: "b \<in> set (drop (cached_count ?g r') (blocks_of r' g))" "b \<noteq> 0"
        have b': "b \<in> set (drop (cached_count g r') (blocks_of r' g))"
        proof (cases "r' = ?r")
          case True
          with b(1) n(1) show ?thesis using set_drop_subset_set_drop [of ?nc ?nf ?bs] by (auto simp: cc)
        qed (use b(1) in \<open>simp add: cc\<close>)
        have "b \<notin> set ?new"
        proof (cases "r' = ?r")
          case False
          with own_block_elsewhere [OF a b' b(2), of ?r] show ?thesis by (auto dest: in_set_takeD in_set_dropD)
        next
          case True
          have "b \<in> set (drop ?nf ?bs)" using b(1) True by (simp add: cc)
          moreover have "?bs = take ?nc ?bs @ ?new @ drop ?nf ?bs"
            using n(1) by (metis append_assoc append_take_drop_id drop_drop le_add_diff_inverse2 less_imp_le_nat)
          then have "count_list ?bs b = count_list (take ?nc ?bs) b + count_list ?new b + count_list (drop ?nf ?bs) b"
            by (metis add.assoc count_list_append)
          moreover have "count_list ?bs b \<le> 1" using D(4) [of ?r] b(2) unfolding blocks_ok_iff by blast
          ultimately have "count_list ?new b = 0" using count_pos [of b "drop ?nf ?bs"] by linarith
          then show ?thesis unfolding count_not_mem .
        qed
        with t D(5) [of r'] b' b(2) show "hash_at s' b = None \<and> ref_at s' b = 1" by (simp add: own_blocks_def)
      qed
      moreover have "holders ?g b = holders g b" for b
        using holders_put [OF D(2), of ?r ?bs b] by (simp add: holders_def)
      moreover have "config_ok ?g s'" using D(1) t by (simp add: config_ok_def put_blocks_def)
      moreover have "blocks_ok (length (blocks s')) (blocks_of r' g)" for r' using D(4) [of r'] t by simp
      moreover have "ref_at s' b = int (holders g b)" if "0 < b" "b < length (blocks s')" for b using D(6) [of b] that t by simp
      moreover have "dict_wf (req_to_blocks ?g)" "dict_wf (num_cached_block ?g)" using D(2,3) by (simp_all add: put_blocks_def)
      ultimately show "ok s' \<and> accounts (?g, s')" using t unfolding accounts_def Let_def prod.case bo by simp
    qed
    moreover have "cache_blocks sha r toks (g, s) =
      rbind (on_pool (cache_full_blocks sha r ?bs ?nc ?nf ?size (kv_group_id g)) (put_blocks ?r ?bs g, s)) (\<lambda>r' (g, s).
        return r' (g\<lparr>num_cached_block := AList.update ?r ?nf (num_cached_block g)\<rparr>, s))"
      unfolding cache_blocks_def Let_def fst_conv snd_conv nc using False by simp
    moreover have "blocks_of ?r ?g = ?bs" "cached_count ?g ?r = ?nf" by (simp_all add: blocks_of_def put_blocks_def cached_count_def)
    moreover have "toks div ?size \<le> int ?nf" by simp
    ultimately show ?thesis
      by (simp add: on_pool_def post_rbind post_on_part del: blocks_of_put)
  qed
qed

lemma accounts_put_same: "accounts (g, s) \<Longrightarrow> accounts (put_blocks r (blocks_of r g) g, s)"
proof -
  assume a: "accounts (g, s)"
  have "blocks_of r' (put_blocks r (blocks_of r g) g) = blocks_of r' g" for r' by simp
  moreover have "holders (put_blocks r (blocks_of r g) g) b = holders g b" for b using holders_put [OF accountsD(2) [OF a], of r "blocks_of r g" b] by simp
  ultimately show ?thesis using accountsD [OF a] unfolding accounts_def Let_def prod.case by (simp del: blocks_of_put)
qed

lemma allocate_new_blocks_ok:
  assumes s: "ok s" and a: "accounts (g, s)" and k: "cdiv toks (kv_block_size g) - int (length (blocks_of r g)) \<le> get_num_free_blocks s"
  shows "runs_to (allocate_new_blocks cbs r toks (g, s)) (\<lambda>new (g', s'). ok s' \<and> accounts (g', s') \<and> others_kept r g g' \<and>
     num_cached_block g' = num_cached_block g \<and>
     blocks_of r g' = blocks_of r g @ new \<and> int (length new) = max 0 (cdiv toks (kv_block_size g) - int (length (blocks_of r g))) \<and>
     get_num_free_blocks s' = get_num_free_blocks s - int (length new))"
proof (cases "cdiv toks (kv_block_size g) - int (length (blocks_of r g)) \<le> 0")
  case True
  with s accounts_put_same [OF a, of r] show ?thesis by (simp add: allocate_new_blocks_def Let_def)
next
  case False
  let ?n = "nat (cdiv toks (kv_block_size g) - int (length (blocks_of r g)))"
  have n: "int ?n \<le> get_num_free_blocks s" using k False by simp
  have "allocate_new_blocks cbs r toks (g, s) =
    rbind (on_pool (get_new_blocks cbs ?n) (put_blocks r (blocks_of r g) g, s)) (\<lambda>new (g', s).
      return new ((put_blocks r (blocks_of r g @ new) g')\<lparr>new_block_ids := new_block_ids g' @ (if spec_is_full g' then new else [])\<rparr>, s))"
    using False by (simp add: allocate_new_blocks_def Let_def)
  moreover have "runs_to (get_new_blocks cbs ?n s) (\<lambda>new s'. ok s' \<and> length new = ?n \<and>
     (\<forall>ids. accounts ((put_blocks r (blocks_of r g @ new) g)\<lparr>new_block_ids := ids\<rparr>, s')) \<and>
     get_num_free_blocks s' = get_num_free_blocks s - int ?n)" by (rule grow_ok [OF s a n])
  ultimately show ?thesis
    using False by (simp add: on_pool_def post_rbind post_on_part del: of_nat_nat) (erule runs_to_mono, simp)
qed

text \<open>
  Computed blocks of a new request. \<open>K\<close> leading blocks lie outside the attention window; the
  request starts with as many null blocks, the remaining hits and blocks for the external tokens.
\<close>

lemma allocate_new_computed_blocks_ok:
  assumes s: "ok s" and a: "accounts (g, s)" and new: "r \<notin> fst ` set (num_cached_block g)" "blocks_of r g = []"
    and h: "valid_hits hits s" "\<not> kv_caching g \<Longrightarrow> hits = []"
    and K: "int K = get_num_skipped_tokens (kv_kind g) (local + ext) div kv_block_size g"
    and room: "int (get_num_evictable_blocks (drop K hits) s) + max 0 (cdiv (local + ext) (kv_block_size g) - int (max K (length hits))) \<le> get_num_free_blocks s"
  shows "runs_to (allocate_new_computed_blocks cbs r hits local ext (g, s)) (\<lambda>_ (g', s'). ok s' \<and> accounts (g', s') \<and> others_kept r g g' \<and>
     (\<exists>more. blocks_of r g' = replicate K 0 @ drop K hits @ more \<and>
        int (length more) \<le> max 0 (cdiv (local + ext) (kv_block_size g) - int (max K (length hits))) \<and>
        get_num_free_blocks s' = get_num_free_blocks s - int (get_num_evictable_blocks (drop K hits) s) - int (length more)))"
proof -
  let ?hits = "drop K hits" and ?bs = "replicate K 0 @ drop K hits" and ?size = "kv_block_size g"
  let ?e = "if int K > 0 then min (local + ext - get_num_skipped_tokens (kv_kind g) (local + ext)) ext else ext"
  let ?g1 = "(put_blocks r ?bs g)\<lparr>num_cached_block := AList.update r (length ?bs) (num_cached_block g)\<rparr>"
  let ?n = "nat (cdiv (local + ext) ?size - int (length ?bs))"
  let ?E = "int (get_num_evictable_blocks ?hits s)"
  have len: "length ?bs = max K (length hits)" by simp
  have n: "int ?n = max 0 (cdiv (local + ext) ?size - int (max K (length hits)))" unfolding len by simp
  have "runs_to (touch cbs ?hits s) (\<lambda>_ s'. ok s' \<and> accounts (?g1, s') \<and> get_num_free_blocks s' = get_num_free_blocks s - ?E)"
    using adopt_ok [OF s a new(2) valid_hits_drop [OF h(1)], of K K] by simp
  then have stage: "runs_to (if kv_caching g then on_pool (touch cbs ?hits) (put_blocks r [] g, s)
      else assert_that (?hits = []) msg (put_blocks r [] g, s)) (\<lambda>_ (g', s'). g' = put_blocks r [] g \<and> ok s' \<and> accounts (?g1, s') \<and>
      get_num_free_blocks s' = get_num_free_blocks s - ?E)" for msg
    using h(2) by (cases "kv_caching g") (simp_all add: on_pool_def post_on_part touch_def assert_that_def)
  have grow: "runs_to (get_new_blocks cbs ?n s1) (\<lambda>new s'. ok s' \<and> length new = ?n \<and>
      (\<forall>ids. accounts ((put_blocks r (blocks_of r ?g1 @ new) ?g1)\<lparr>new_block_ids := ids\<rparr>, s')) \<and>
      get_num_free_blocks s' = get_num_free_blocks s1 - int ?n)"
    if "ok s1" "accounts (?g1, s1)" "get_num_free_blocks s1 = get_num_free_blocks s - ?E" for s1
    by (rule grow_ok [OF that(1,2)]) (use that(3) room n in linarith)
  have hits: "(if int K > 0 then drop K hits else hits) = ?hits" by simp
  have n0: "null_block s1 = 0" if "ok s1" for s1 using null_is_zero that .
  define e where "e = ?e"
  have len': "nat (int K) = K" by simp
  show ?thesis
    unfolding allocate_new_computed_blocks_def Let_def fst_conv snd_conv new(2) K [symmetric] hits e_def [symmetric] post_rbind
      if_not_P [OF new(1)] post_assert if_P [OF refl] len'
    apply (rule runs_to_mono [OF stage])
    apply (cases "0 < e")
    subgoal
      apply (clarsimp simp only: post_rbind on_pool_def post_on_part n0 put_put put_blocks_fields if_True snd_conv fst_conv split: prod.splits)
      apply (rule runs_to_mono, rule grow, assumption, assumption, assumption)
      using n by (auto simp: others_kept_def blocks_of_def put_blocks_def)
    subgoal by (auto simp: n0)
    done
qed

end

end
