(* ===== verification/KV_Slots.thy ===== *)
theory KV_Slots
  imports KV_Accounting
begin

text \<open>
  \<open>allocate_slots\<close> of the KV cache manager, as the scheduler calls it, keeps the accounts of the pool
  and either gives the request blocks for all the tokens it asked for or refuses, and it refuses
  only when the free blocks cannot serve the missing blocks and the hits to revive.
\<close>

section \<open>Ceiling division\<close>

lemma floor_le: "0 < b \<Longrightarrow> a div b * b \<le> a" for a b :: int
  using pos_mod_sign [of b a] div_mult_mod_eq [of a b] by linarith

lemma cdiv_alt: "cdiv a b = - ((- a) div b)"
  by (simp add: cdiv_def div_minus_right)

lemma cdiv_mono: "0 < b \<Longrightarrow> a \<le> a' \<Longrightarrow> cdiv a b \<le> cdiv a' b"
  unfolding cdiv_alt by (simp add: zdiv_mono1)

lemma cdiv_upper: "0 < b \<Longrightarrow> a \<le> b * cdiv a b"
  using floor_le [of b "- a"] unfolding cdiv_alt mult_minus_right by (simp add: mult.commute)

lemma div_le_cdiv: "0 < b \<Longrightarrow> a div b \<le> cdiv a b"
  using cdiv_upper [of b a] pos_mod_sign [of b a] mult_div_mod_eq [of b a] mult_le_cancel_left_pos [of b "a div b" "cdiv a b"] by linarith

section \<open>A call of the scheduler\<close>

text \<open>The tokens for which the request needs slots, and the blocks that lie outside its attention window.\<close>

definition slots_needed :: "request \<Rightarrow> int \<Rightarrow> int \<Rightarrow> int \<Rightarrow> int \<Rightarrow> kv_cache_manager \<Rightarrow> int" where
  "slots_needed r num_new num_new_computed num_lookahead num_external g =
     min (min (num_computed_tokens r + num_new_computed + num_external) (max_model_len g) + num_new + num_lookahead) (max_model_len g)"

definition blocks_skipped :: "int \<Rightarrow> 'g kv_group_scheme \<Rightarrow> nat" where
  "blocks_skipped toks g = nat (get_num_skipped_tokens (kv_kind g) toks div kv_block_size g)"

definition hits_of :: "nat list option \<Rightarrow> nat list" where
  "hits_of c = (case c of None \<Rightarrow> [] | Some bs \<Rightarrow> bs)"

text \<open>
  How the scheduler calls: hits and external tokens only for a request that has no blocks yet, the computed tokens covered by
  blocks, nothing beyond the model's length, and a hash for every full block of tokens.
\<close>

definition schedulable :: "request \<Rightarrow> int \<Rightarrow> int \<Rightarrow> nat list option \<Rightarrow> int \<Rightarrow> int \<Rightarrow> 'm kvm_state \<Rightarrow> bool" where
  "schedulable r num_new num_new_computed new_computed num_lookahead num_external x \<longleftrightarrow>
     (let (g, s) = x; rid = request_id r; size = kv_block_size g; hits = hits_of new_computed
      in 0 \<le> num_new \<and> 0 \<le> num_lookahead \<and> 0 \<le> num_external \<and> (num_new \<noteq> 0 \<or> num_external \<noteq> 0) \<and>
         valid_hits hits s \<and> (\<not> kv_caching g \<longrightarrow> hits = []) \<and> num_new_computed = size * int (length hits) \<and>
         0 \<le> num_computed_tokens r \<and> num_computed_tokens r \<le> size * int (length (blocks_of rid g)) \<and>
         num_computed_tokens r + num_new_computed + num_external \<le> max_model_len g \<and> num_tokens r \<le> max_model_len g \<and>
         (kv_caching g \<longrightarrow> num_tokens r div size \<le> int (length (block_hashes r))) \<and>
         (new_computed \<noteq> None \<or> 0 < num_external \<longrightarrow> rid \<notin> fst ` set (num_cached_block g) \<and> blocks_of rid g = []))"

lemma skipped_le:
  assumes "case kind of FullAttention \<Rightarrow> True | SlidingWindow w \<Rightarrow> 0 < w | ChunkedLocal c \<Rightarrow> 0 < c" "0 \<le> n"
  shows "0 \<le> get_num_skipped_tokens kind n" "get_num_skipped_tokens kind n \<le> n"
  using assms by (auto simp: get_num_skipped_tokens_def pos_imp_zdiv_nonneg_iff floor_le split: attn_kind.splits)

lemma blocks_skipped_int:
  assumes "config_ok g s" "0 \<le> n"
  shows "int (blocks_skipped n g) = get_num_skipped_tokens (kv_kind g) n div kv_block_size g" "int (blocks_skipped n g) * kv_block_size g \<le> n"
proof -
  have b: "0 < kv_block_size g" using assms(1) by (simp add: config_ok_def)
  have k: "0 \<le> get_num_skipped_tokens (kv_kind g) n" "get_num_skipped_tokens (kv_kind g) n \<le> n"
    using assms skipped_le [of "kv_kind g" n] by (simp_all add: config_ok_def)
  show e: "int (blocks_skipped n g) = get_num_skipped_tokens (kv_kind g) n div kv_block_size g"
    unfolding blocks_skipped_def using k(1) b by (simp add: pos_imp_zdiv_nonneg_iff)
  show "int (blocks_skipped n g) * kv_block_size g \<le> n"
    unfolding e using k(2) floor_le [OF b, of "get_num_skipped_tokens (kv_kind g) n"] by linarith
qed

text \<open>The count \<open>allocate_slots\<close> compares with the free blocks, for both kinds of request.\<close>

lemma demand_running:
  assumes c: "config_ok g s" and n: "0 \<le> n" "n \<le> kv_block_size g * int (length (blocks_of r g))"
  shows "get_num_blocks_to_allocate r toks [] n (g, s) = Inr (max (cdiv toks (kv_block_size g) - int (length (blocks_of r g))) 0)"
proof -
  have b: "0 < kv_block_size g" using c by (simp add: config_ok_def)
  have "int (blocks_skipped n g) * kv_block_size g \<le> int (length (blocks_of r g)) * kv_block_size g"
    using blocks_skipped_int(2) [OF c n(1)] n(2) by (simp add: mult.commute)
  then have "get_num_skipped_tokens (kv_kind g) n div kv_block_size g \<le> int (length (blocks_of r g))"
    using b blocks_skipped_int(1) [OF c n(1)] by simp
  then show ?thesis by (simp add: get_num_blocks_to_allocate_def get_num_evictable_blocks_def Let_def max_absorb2)
qed

lemma demand_new:
  assumes c: "config_ok g s" and n: "0 \<le> n" and new: "r \<notin> fst ` set (num_cached_block g)" "blocks_of r g = []"
  defines "K \<equiv> blocks_skipped n g"
  shows "get_num_blocks_to_allocate r toks hits n (g, s) =
     Inr (max (cdiv toks (kv_block_size g) - int (max K (length hits))) 0 + int (get_num_evictable_blocks (drop K hits) s))"
  using new blocks_skipped_int(1) [OF c n, symmetric] by (simp add: get_num_blocks_to_allocate_def Let_def K_def [symmetric] of_nat_max)

text \<open>
  What \<open>allocate_slots\<close> promises for request \<open>r\<close>: with \<open>Some\<close>, slots for \<open>need\<close> tokens, the hits
  inside the attention window first; with \<open>None\<close>, that there was no room.
\<close>

definition slots_result ::
  "request \<Rightarrow> int \<Rightarrow> nat list \<Rightarrow> nat \<Rightarrow> 'm kvm_state \<Rightarrow> nat list option option \<Rightarrow> 'm kvm_state \<Rightarrow> bool" where
  "slots_result r need hits K x res x' \<longleftrightarrow>
     (let (g, s) = x; (g', s') = x'; rid = request_id r
      in others_kept rid g g' \<and>
         (case res of
            Some _ \<Rightarrow> need \<le> kv_block_size g * int (length (blocks_of rid g')) \<and>
              (hits \<noteq> [] \<longrightarrow> (\<exists>more. blocks_of rid g' = replicate K 0 @ drop K hits @ more))
          | None \<Rightarrow> length (blocks_of rid g') = length (blocks_of rid g) \<and>
              get_num_free_blocks s' < max 0 (cdiv need (kv_block_size g) - int (length (blocks_of rid g)) - int (length hits)) +
                int (get_num_evictable_blocks hits s)))"

text \<open>The end of \<open>allocate_slots\<close>: the new blocks, then the full blocks go to the cache; before it the check of the free blocks.\<close>

definition finish_slots ::
  "('m block_pool_scheme) pool_callbacks \<Rightarrow> (bytes \<Rightarrow> bytes) \<Rightarrow> request \<Rightarrow> int \<Rightarrow> int \<Rightarrow> bool \<Rightarrow> 'm kvm_state \<Rightarrow> ('m kvm_state, request \<times> nat list option option) res" where
  "finish_slots cbs sha r need toks delay x =
     rbind (allocate_new_blocks cbs (request_id r) need x) (\<lambda>new x.
       if \<not> kv_caching (fst x) \<or> delay then return (r, Some (create_kv_cache_blocks new)) x
       else rbind (cache_blocks sha r toks x) (\<lambda>r' x. return (r', Some (create_kv_cache_blocks new)) x))"

definition reserve_slots where
  "reserve_slots cbs sha r need toks c num_local ext delay x =
     (case get_num_blocks_to_allocate (request_id r) need (hits_of c) (num_local + ext) x of
        Inl e \<Rightarrow> raise e x
      | Inr needed \<Rightarrow>
          if needed > get_num_free_blocks (snd x) then return (r, None) x
          else rbind (if c \<noteq> None \<or> ext > 0 then allocate_new_computed_blocks cbs (request_id r) (hits_of c) num_local ext x else return () x)
                 (\<lambda>_. finish_slots cbs sha r need toks delay))"

lemma evictable_drop_le: "get_num_evictable_blocks (drop k hits) s \<le> get_num_evictable_blocks hits s"
proof -
  have "get_num_evictable_blocks hits s = get_num_evictable_blocks (take k hits @ drop k hits) s" by simp
  also have "\<dots> = get_num_evictable_blocks (take k hits) s + get_num_evictable_blocks (drop k hits) s"
    unfolding get_num_evictable_blocks_def filter_append length_append ..
  finally show ?thesis by simp
qed

context kv_pool
begin

lemma free_nonneg: "ok s \<Longrightarrow> 0 \<le> get_num_free_blocks s"
  by (simp add: free_count)

lemma finish_slots_ok:
  fixes g :: kv_cache_manager
  assumes s: "ok s" and a: "accounts (g, s)"
    and room: "cdiv need (kv_block_size g) - int (length (blocks_of (request_id r) g)) \<le> get_num_free_blocks s"
    and toks: "toks \<le> need" "kv_caching g \<Longrightarrow> toks div kv_block_size g \<le> int (length (block_hashes r))"
  shows "runs_to (finish_slots cbs sha r need toks delay (g, s))
     (\<lambda>(r', res) (g', s'). res \<noteq> None \<and> ok s' \<and> accounts (g', s') \<and> others_kept (request_id r) g g' \<and>
        need \<le> kv_block_size g * int (length (blocks_of (request_id r) g')) \<and> (\<exists>new. blocks_of (request_id r) g' = blocks_of (request_id r) g @ new))"
  unfolding finish_slots_def post_rbind [of "allocate_new_blocks cbs (request_id r) need (g, s)"]
proof (rule runs_to_mono [OF allocate_new_blocks_ok [OF s a room]])
  fix new x assume "case x of (g', s') \<Rightarrow> ok s' \<and> accounts (g', s') \<and> others_kept (request_id r) g g' \<and> num_cached_block g' = num_cached_block g \<and>
     blocks_of (request_id r) g' = blocks_of (request_id r) g @ new \<and>
     int (length new) = max 0 (cdiv need (kv_block_size g) - int (length (blocks_of (request_id r) g))) \<and>
     get_num_free_blocks s' = get_num_free_blocks s - int (length new)"
  then obtain g1 s1 where x: "x = (g1, s1)" and s1: "ok s1" "accounts (g1, s1)" and g1: "others_kept (request_id r) g g1"
    "blocks_of (request_id r) g1 = blocks_of (request_id r) g @ new"
    and n: "int (length new) = max 0 (cdiv need (kv_block_size g) - int (length (blocks_of (request_id r) g)))" by auto
  note same = others_keptD [OF g1(1)]
  have b: "0 < kv_block_size g" using accountsD(1) [OF a] by (simp add: config_ok_def)
  have len: "cdiv need (kv_block_size g) \<le> int (length (blocks_of (request_id r) g1))" using n unfolding g1(2) by simp
  with b have "kv_block_size g * cdiv need (kv_block_size g) \<le> kv_block_size g * int (length (blocks_of (request_id r) g1))" by simp
  then have enough: "need \<le> kv_block_size g * int (length (blocks_of (request_id r) g1))" using cdiv_upper [OF b, of need] by linarith
  show "runs_to (if \<not> kv_caching (fst x) \<or> delay then return (r, Some (create_kv_cache_blocks new)) x
      else rbind (cache_blocks sha r toks x) (\<lambda>r' x. return (r', Some (create_kv_cache_blocks new)) x))
     (\<lambda>(r', res) (g', s'). res \<noteq> None \<and> ok s' \<and> accounts (g', s') \<and> others_kept (request_id r) g g' \<and>
        need \<le> kv_block_size g * int (length (blocks_of (request_id r) g')) \<and> (\<exists>new. blocks_of (request_id r) g' = blocks_of (request_id r) g @ new))"
  proof (cases "\<not> kv_caching g1 \<or> delay")
    case True
    with s1 g1 enough show ?thesis by (auto simp: x)
  next
    case False
    have "toks div kv_block_size g \<le> cdiv need (kv_block_size g)"
      using div_le_cdiv [OF b, of toks] cdiv_mono [OF b toks(1)] by linarith
    with len have l: "toks div kv_block_size g1 \<le> int (length (blocks_of (request_id r) g1))" using same by simp
    have "toks div kv_block_size g1 \<le> int (length (block_hashes r))" using toks(2) False same by simp
    with False s1 l have "runs_to (cache_blocks sha r toks (g1, s1)) (\<lambda>_ (g', s'). ok s' \<and> accounts (g', s') \<and>
       blocks_of (request_id r) g' = blocks_of (request_id r) g1 \<and> others_kept (request_id r) g1 g' \<and>
       toks div kv_block_size g1 \<le> int (cached_count g' (request_id r)))" by (intro cache_blocks_ok) simp_all
    with False show ?thesis
      unfolding x using g1 enough by (auto simp: post_rbind elim!: runs_to_mono intro: others_kept_trans)
  qed
qed

text \<open>After the skipped blocks are given back: the check of the free blocks and the allocation.\<close>

lemma reserve_slots_new:
  fixes g :: kv_cache_manager
  assumes s: "ok s" and a: "accounts (g, s)" and new: "request_id r \<notin> fst ` set (num_cached_block g)" "blocks_of (request_id r) g = []"
    and h: "valid_hits hits s" "\<not> kv_caching g \<Longrightarrow> hits = []"
    and n: "0 \<le> local + ext" "local + ext \<le> need"
    and toks: "toks \<le> need" "kv_caching g \<Longrightarrow> toks div kv_block_size g \<le> int (length (block_hashes r))"
    and needed: "get_num_blocks_to_allocate (request_id r) need hits (local + ext) (g, s) = Inr needed" "needed \<le> get_num_free_blocks s"
  shows "runs_to (rbind (allocate_new_computed_blocks cbs (request_id r) hits local ext (g, s)) (\<lambda>_. finish_slots cbs sha r need toks delay))
     (\<lambda>(r', res) (g', s'). res \<noteq> None \<and> ok s' \<and> accounts (g', s') \<and> others_kept (request_id r) g g' \<and>
        need \<le> kv_block_size g * int (length (blocks_of (request_id r) g')) \<and>
        (\<exists>more. blocks_of (request_id r) g' = replicate (blocks_skipped (local + ext) g) 0 @ drop (blocks_skipped (local + ext) g) hits @ more))"
proof -
  let ?K = "blocks_skipped (local + ext) g" and ?rid = "request_id r" and ?size = "kv_block_size g"
  let ?E = "int (get_num_evictable_blocks (drop ?K hits) s)" and ?m = "int (max ?K (length hits))"
  have conf: "config_ok g s" by (rule accountsD(1) [OF a])
  then have b: "0 < ?size" by (simp add: config_ok_def)
  have d: "needed = max (cdiv need ?size - ?m) 0 + ?E" using demand_new [OF conf n(1) new, of need hits] needed(1) by simp
  have le: "cdiv (local + ext) ?size \<le> cdiv need ?size" by (rule cdiv_mono [OF b n(2)])
  have room: "?E + max 0 (cdiv (local + ext) ?size - ?m) \<le> get_num_free_blocks s" using needed(2) le d by linarith
  note alloc = allocate_new_computed_blocks_ok [OF s a new h blocks_skipped_int(1) [OF conf n(1)] room]
  show ?thesis
    unfolding post_rbind [of "allocate_new_computed_blocks cbs ?rid hits local ext (g, s)"]
  proof (rule runs_to_mono [OF alloc], assumption)
    fix u x assume "case x of (g', s') \<Rightarrow> ok s' \<and> accounts (g', s') \<and> others_kept ?rid g g' \<and>
      (\<exists>more. blocks_of ?rid g' = replicate ?K 0 @ drop ?K hits @ more \<and> int (length more) \<le> max 0 (cdiv (local + ext) ?size - ?m) \<and>
         get_num_free_blocks s' = get_num_free_blocks s - ?E - int (length more))"
    then obtain g1 s1 more where x: "x = (g1, s1)" and s1: "ok s1" "accounts (g1, s1)" and o: "others_kept ?rid g g1"
      and bs: "blocks_of ?rid g1 = replicate ?K 0 @ drop ?K hits @ more" and f: "get_num_free_blocks s1 = get_num_free_blocks s - ?E - int (length more)"
      by auto
    note same = others_keptD [OF o]
    have len: "int (length (blocks_of ?rid g1)) = ?m + int (length more)" unfolding bs by simp
    have "cdiv need ?size - ?m \<le> get_num_free_blocks s - ?E" using needed(2) d by linarith
    then have room1: "cdiv need (kv_block_size g1) - int (length (blocks_of ?rid g1)) \<le> get_num_free_blocks s1"
      using len f same by simp
    have t: "kv_caching g1 \<Longrightarrow> toks div kv_block_size g1 \<le> int (length (block_hashes r))" using toks(2) same by simp
    show "runs_to (finish_slots cbs sha r need toks delay x)
     (\<lambda>(r', res) (g', s'). res \<noteq> None \<and> ok s' \<and> accounts (g', s') \<and> others_kept ?rid g g' \<and>
        need \<le> ?size * int (length (blocks_of ?rid g')) \<and> (\<exists>more. blocks_of ?rid g' = replicate ?K 0 @ drop ?K hits @ more))"
      unfolding x
      by (rule runs_to_mono [OF finish_slots_ok [OF s1 room1 toks(1) t]]) (use o same bs in \<open>auto intro: others_kept_trans\<close>)
  qed
qed

text \<open>Both kinds of request, once the skipped blocks are given back.\<close>

lemma reserve_new_ok:
  fixes g :: kv_cache_manager
  assumes s: "ok s" and a: "accounts (g, s)" and c: "c \<noteq> None \<or> 0 < ext"
    and new: "request_id r \<notin> fst ` set (num_cached_block g)" "blocks_of (request_id r) g = []"
    and h: "valid_hits (hits_of c) s" "\<not> kv_caching g \<Longrightarrow> hits_of c = []"
    and n: "0 \<le> local + ext" "local + ext \<le> need"
    and toks: "toks \<le> need" "kv_caching g \<Longrightarrow> toks div kv_block_size g \<le> int (length (block_hashes r))"
  shows "runs_to (reserve_slots cbs sha r need toks c local ext delay (g, s)) (\<lambda>(r', res) (g', s').
     ok s' \<and> accounts (g', s') \<and> slots_result r need (hits_of c) (blocks_skipped (local + ext) g) (g, s) res (g', s'))"
proof -
  let ?rid = "request_id r" and ?size = "kv_block_size g" and ?hits = "hits_of c" and ?K = "blocks_skipped (local + ext) g"
  obtain needed where nd: "get_num_blocks_to_allocate ?rid need ?hits (local + ext) (g, s) = Inr needed"
    "needed = max (cdiv need ?size - int (max ?K (length ?hits))) 0 + int (get_num_evictable_blocks (drop ?K ?hits) s)"
    using demand_new [OF accountsD(1) [OF a] n(1) new, of need ?hits] by simp
  show ?thesis
  proof (cases "needed > get_num_free_blocks s")
    case False
    note R = reserve_slots_new [OF s a new h n toks nd(1) leI [OF False]]
    show ?thesis
      unfolding reserve_slots_def snd_conv nd(1) sum.case if_P [OF c] if_not_P [OF False]
      by (rule runs_to_mono [OF R]) (auto simp: slots_result_def)
  next
    case True
    have "needed \<le> max 0 (cdiv need ?size - int (length ?hits)) + int (get_num_evictable_blocks ?hits s)"
      using nd(2) evictable_drop_le [of ?K ?hits s] by linarith
    with True s a new show ?thesis by (simp add: reserve_slots_def nd(1) slots_result_def)
  qed
qed

lemma reserve_running_ok:
  fixes g :: kv_cache_manager
  assumes s: "ok s" and a: "accounts (g, s)" and n: "0 \<le> local" "local \<le> kv_block_size g * int (length (blocks_of (request_id r) g))"
    and toks: "toks \<le> need" "kv_caching g \<Longrightarrow> toks div kv_block_size g \<le> int (length (block_hashes r))"
  shows "runs_to (reserve_slots cbs sha r need toks None local 0 delay (g, s)) (\<lambda>(r', res) (g', s').
     ok s' \<and> accounts (g', s') \<and> slots_result r need [] K (g, s) res (g', s'))"
proof -
  let ?rid = "request_id r" and ?size = "kv_block_size g"
  define needed where "needed = max (cdiv need ?size - int (length (blocks_of ?rid g))) 0"
  have nd: "get_num_blocks_to_allocate ?rid need (hits_of None) (local + 0) (g, s) = Inr needed"
    using demand_running [OF accountsD(1) [OF a] n, of need] by (simp add: needed_def hits_of_def)
  show ?thesis
  proof (cases "needed > get_num_free_blocks s")
    case True
    then have "get_num_free_blocks s < max 0 (cdiv need ?size - int (length (blocks_of ?rid g)))" by (simp add: needed_def)
    then show ?thesis
      unfolding reserve_slots_def snd_conv nd sum.case if_P [OF True] post_return
      using s a by (simp add: slots_result_def Let_def get_num_evictable_blocks_def)
  next
    case False
    have "cdiv need ?size - int (length (blocks_of ?rid g)) \<le> get_num_free_blocks s" using False by (simp add: needed_def)
    note R = finish_slots_ok [OF s a this toks]
    have "\<not> (None \<noteq> None \<or> (0 :: int) < 0)" by simp
    show ?thesis
      unfolding reserve_slots_def snd_conv nd sum.case if_not_P [OF False] if_not_P [OF \<open>\<not> (None \<noteq> None \<or> (0 :: int) < 0)\<close>]
        post_rbind [of "return () (g, s)"] post_return
      by (rule runs_to_mono [OF R]) (auto simp: slots_result_def)
  qed
qed

text \<open>What the removal of skipped blocks does not change.\<close>

lemma slots_result_frame:
  assumes "slots_result r need bs K (g1, s1) res x'" "others_kept (request_id r) g g1"
    "length (blocks_of (request_id r) g1) = length (blocks_of (request_id r) g)"
    "get_num_evictable_blocks bs s1 = get_num_evictable_blocks bs s"
  shows "slots_result r need bs K (g, s) res x'"
  using assms others_kept_trans [OF assms(2)] others_keptD [OF assms(2)]
  by (cases x'; cases res) (auto simp: slots_result_def Let_def)

lemma allocate_slots_ok:
  assumes s: "ok s" and a: "accounts (g, s)" and sched: "schedulable r num_new num_new_computed c look ext (g, s)"
  defines "n \<equiv> num_computed_tokens r + num_new_computed + ext"
    and "need \<equiv> slots_needed r num_new num_new_computed look ext g"
  shows "runs_to (allocate_slots cbs sha r num_new num_new_computed c look ext delay (g, s)) (\<lambda>(r', res) (g', s').
     ok s' \<and> accounts (g', s') \<and> slots_result r need (hits_of c) (blocks_skipped n g) (g, s) res (g', s'))"
proof -
  let ?rid = "request_id r" and ?size = "kv_block_size g" and ?hits = "hits_of c" and ?K = "blocks_skipped n g"
  let ?toks = "min (n + num_new) (num_tokens r)" and ?local = "num_computed_tokens r + num_new_computed"
  have q: "0 \<le> num_new" "0 \<le> look" "0 \<le> ext" "num_new \<noteq> 0 \<or> ext \<noteq> 0" "valid_hits ?hits s" "\<not> kv_caching g \<Longrightarrow> ?hits = []"
    "num_new_computed = ?size * int (length ?hits)" "0 \<le> num_computed_tokens r" "num_computed_tokens r \<le> ?size * int (length (blocks_of ?rid g))"
    "n \<le> max_model_len g" "num_tokens r \<le> max_model_len g" "kv_caching g \<Longrightarrow> num_tokens r div ?size \<le> int (length (block_hashes r))"
    and new: "c \<noteq> None \<or> 0 < ext \<Longrightarrow> ?rid \<notin> fst ` set (num_cached_block g) \<and> blocks_of ?rid g = []"
    using sched by (auto simp: schedulable_def Let_def n_def)
  have b: "0 < ?size" using accountsD(1) [OF a] by (simp add: config_ok_def)
  have n0: "0 \<le> n" using q(3,8) b by (simp add: n_def q(7))
  have need: "need = min (n + num_new + look) (max_model_len g)" using q(10) by (simp add: need_def slots_needed_def n_def)
  have le: "n \<le> need" "?toks \<le> need" using q(1,2,10,11) unfolding need by linarith+
  have th: "?toks div ?size \<le> int (length (block_hashes r))" if "kv_caching g"
    using zdiv_mono1 [of ?toks "num_tokens r" ?size] b q(12) [OF that] by linarith
  have "\<not> (num_new = 0 \<and> ext = 0)" using q(4) by blast
  then have run: "allocate_slots cbs sha r num_new num_new_computed c look ext delay (g, s) =
     rbind (remove_skipped_blocks cbs ?rid n (g, s)) (\<lambda>_. reserve_slots cbs sha r need ?toks c ?local ext delay)"
    unfolding allocate_slots_def Let_def hits_of_def [symmetric] fst_conv n_def [symmetric] min_absorb1 [OF q(10)] need [symmetric]
      reserve_slots_def [abs_def] finish_slots_def [abs_def] by (simp only: if_False)
  show ?thesis
    unfolding run post_rbind [of "remove_skipped_blocks cbs ?rid n (g, s)"]
  proof (rule runs_to_mono [OF remove_skipped_blocks_ok [OF s a]])
    fix u x assume "case x of (g', s') \<Rightarrow> ok s' \<and> accounts (g', s') \<and>
      (\<exists>bs. g' = (if get_num_skipped_tokens (kv_kind g) n \<le> 0 then g else put_blocks ?rid bs g) \<and> length bs = length (blocks_of ?rid g)) \<and>
      length (blocks s') = length (blocks s) \<and> hash_at s' = hash_at s \<and> (blocks_of ?rid g = [] \<longrightarrow> ref_at s' = ref_at s)"
    then obtain g1 s1 bs where x: "x = (g1, s1)" and s1: "ok s1" "accounts (g1, s1)"
      and g1: "g1 = (if get_num_skipped_tokens (kv_kind g) n \<le> 0 then g else put_blocks ?rid bs g)" "length bs = length (blocks_of ?rid g)"
      and f: "length (blocks s1) = length (blocks s)" "hash_at s1 = hash_at s" "blocks_of ?rid g = [] \<Longrightarrow> ref_at s1 = ref_at s" by auto
    have o: "others_kept ?rid g g1" "num_cached_block g1 = num_cached_block g" "length (blocks_of ?rid g1) = length (blocks_of ?rid g)"
      using g1 by simp_all
    note same = others_keptD [OF o(1)]
    have hv: "valid_hits ?hits s1" using q(5) f(1,2) by (simp add: valid_hits_def)
    have th': "kv_caching g1 \<Longrightarrow> ?toks div kv_block_size g1 \<le> int (length (block_hashes r))" using th same by simp
    have K: "blocks_skipped n g1 = ?K" using same by (simp add: blocks_skipped_def)
    have "runs_to (reserve_slots cbs sha r need ?toks c ?local ext delay (g1, s1)) (\<lambda>(r', res) (g', s').
       ok s' \<and> accounts (g', s') \<and> slots_result r need ?hits ?K (g1, s1) res (g', s'))"
    proof (cases "c \<noteq> None \<or> 0 < ext")
      case True
      have fresh: "?rid \<notin> fst ` set (num_cached_block g1)" "blocks_of ?rid g1 = []" using new [OF True] o(2,3) by auto
      have hc: "\<not> kv_caching g1 \<Longrightarrow> ?hits = []" using q(6) same by simp
      show ?thesis using reserve_new_ok [OF s1 True fresh hv, of ?local need ?toks sha delay, folded n_def, OF hc n0 le th'] unfolding K .
    next
      case False
      then have c: "c = None" "ext = 0" "num_new_computed = 0" using q(3,7) by (simp_all add: hits_of_def)
      have "num_computed_tokens r \<le> kv_block_size g1 * int (length (blocks_of ?rid g1))" using q(9) o(3) same by simp
      from reserve_running_ok [OF s1 q(8) this le(2) th'] show ?thesis by (simp add: c hits_of_def)
    qed
    moreover have "get_num_evictable_blocks ?hits s1 = get_num_evictable_blocks ?hits s"
    proof (cases "?hits = []")
      case False
      then have "c \<noteq> None" by (cases c) (simp_all add: hits_of_def)
      then show ?thesis using evictable_count [OF s q(5)] evictable_count [OF s1(1) hv] f(3) new by simp
    qed (simp add: get_num_evictable_blocks_def)
    ultimately show "runs_to (reserve_slots cbs sha r need ?toks c ?local ext delay x) (\<lambda>(r', res) (g', s').
       ok s' \<and> accounts (g', s') \<and> slots_result r need ?hits ?K (g, s) res (g', s'))"
      unfolding x using slots_result_frame [OF _ o(1,3)] by (auto elim!: runs_to_mono)
  qed
qed

end

end
