(* ===== verification/KV_Prefix.thy ===== *)
theory KV_Prefix
  imports KV_Slots
begin

text \<open>
  The search for a cached prefix. For each kind of attention the blocks returned are the longest prefix of
  the request whose KV data, as far as the attention still reads it, is in the cache.
\<close>

section \<open>Lookups\<close>

text \<open>Block \<open>b\<close> is cached under hash \<open>h\<close> of group \<open>gid\<close>.\<close>

definition cached_as :: "int \<Rightarrow> 'm block_pool_scheme \<Rightarrow> bytes \<Rightarrow> nat \<Rightarrow> bool" where
  "cached_as gid s h b \<longleftrightarrow> b < length (blocks s) \<and> (\<exists>key. hash_at s b = Some key \<and> make_block_hash_with_group_id h gid = Inr key)"

definition in_cache :: "int \<Rightarrow> 'm block_pool_scheme \<Rightarrow> bytes \<Rightarrow> bool" where
  "in_cache gid s h \<longleftrightarrow> (\<exists>b. cached_as gid s h b)"

lemma get_cached_block_spec:
  assumes c: "cache_ok s" and g: "0 \<le> gid" "gid < 2 ^ 32"
  obtains (hit) b where "get_cached_block h [gid] s = Inr (Some [b])" "cached_as gid s h b" "in_cache gid s h"
  | (miss) "get_cached_block h [gid] s = Inr None" "\<not> in_cache gid s h"
proof -
  obtain key where key: "make_block_hash_with_group_id h gid = Inr key" using unpack_pack [OF g, of h] by auto
  let ?m = "cached_block_hash_to_block s"
  have wf: "bmap_wf ?m" and ids: "set (bmap_ids ?m key) = {i. i < length (blocks s) \<and> hash_at s i = Some key}"
    using c by (simp_all add: cache_ok_def)
  have as: "cached_as gid s h b \<longleftrightarrow> b \<in> set (bmap_ids ?m key)" for b unfolding cached_as_def ids key by auto
  show thesis
  proof (cases "bmap_ids ?m key")
    case Nil
    with miss bmap.get_one_ids [OF wf, of key] key as show thesis by (simp add: get_cached_block_def in_cache_def)
  next
    case (Cons b bs)
    with hit [of b] bmap.get_one_ids [OF wf, of key] key as show thesis by (auto simp: get_cached_block_def in_cache_def)
  qed
qed

lemma cached_as_inj:
  assumes "0 \<le> gid" "gid < 2 ^ 32" "cached_as gid s h b" "cached_as gid s h' b"
  shows "h = h'"
  using assms unpack_pack [OF assms(1,2), of h] unpack_pack [OF assms(1,2), of h'] by (auto simp: cached_as_def)

section \<open>Full and chunked local attention\<close>

text \<open>The run of hits from position \<open>i\<close> on.\<close>

lemma full_hits_spec:
  assumes "cache_ok s" "0 \<le> gid" "gid < 2 ^ 32"
  shows "\<exists>bs. full_hits hs gid s = Inr bs \<and> list_all2 (cached_as gid s) (takeWhile (in_cache gid s) hs) bs"
proof (induction hs)
  case (Cons h hs)
  then obtain bs where bs: "full_hits hs gid s = Inr bs" "list_all2 (cached_as gid s) (takeWhile (in_cache gid s) hs) bs" by blast
  show ?case by (rule get_cached_block_spec [OF assms, of h]) (use bs in simp_all)
qed simp

lemma chunk_hits_spec:
  assumes "cache_ok s" "0 \<le> gid" "gid < 2 ^ 32" "i + n \<le> length hs"
  shows "\<exists>bs. chunk_hits hs gid i n s = Inr bs \<and> list_all2 (cached_as gid s) (takeWhile (in_cache gid s) (take n (drop i hs))) bs"
  using assms(4)
proof (induction n arbitrary: i)
  case (Suc n)
  obtain bs where bs: "chunk_hits hs gid (Suc i) n s = Inr bs"
    "list_all2 (cached_as gid s) (takeWhile (in_cache gid s) (take n (drop (Suc i) hs))) bs" using Suc.IH [of "Suc i"] Suc.prems by auto
  have i: "i < length hs" "take (Suc n) (drop i hs) = hs ! i # take n (drop (Suc i) hs)"
    using Suc.prems by (simp_all add: Cons_nth_drop_Suc [symmetric])
  show ?case unfolding i(2) by (rule get_cached_block_spec [OF assms(1-3), of "hs ! i"]) (use bs i(1) in simp_all)
qed simp

section \<open>Sliding windows\<close>

text \<open>Blocks \<open>lo\<close> to \<open>L - 1\<close> of \<open>bs\<close> hold the data of the hashes there, the ones before are null.\<close>

definition holds_from :: "int \<Rightarrow> 'm block_pool_scheme \<Rightarrow> bytes list \<Rightarrow> nat \<Rightarrow> nat list \<Rightarrow> bool" where
  "holds_from gid s hs lo bs \<longleftrightarrow> (\<forall>j < length bs. if j < lo then bs ! j = 0 else cached_as gid s (hs ! j) (bs ! j))"

lemma holds_from_in_cache: "holds_from gid s hs lo bs \<Longrightarrow> lo \<le> j \<Longrightarrow> j < length bs \<Longrightarrow> in_cache gid s (hs ! j)"
  unfolding holds_from_def in_cache_def using leD by metis

text \<open>
  The loop from the right. With \<open>i\<close> blocks left and a run of \<open>c\<close> hits behind them, no prefix longer than \<open>i + c\<close> has its last
  \<open>w\<close> blocks in the cache.
\<close>

lemma window_loop_spec:
  assumes g: "cache_ok s" "0 \<le> gid" "gid < 2 ^ 32" and n: "i + c \<le> n" "n \<le> length hs" "length computed = n"
    and w: "w = nat (max 1 want)" "c < w"
    and run: "\<forall>j. i \<le> j \<and> j < i + c \<longrightarrow> cached_as gid s (hs ! j) (computed ! j)" and null: "\<forall>j < i. computed ! j = 0"
    and no: "\<forall>L \<le> n. i + c < L \<longrightarrow> (\<exists>j. L - w \<le> j \<and> j < L \<and> \<not> in_cache gid s (hs ! j))"
  shows "\<exists>found c' comp bs. window_loop hs gid bsz bsz want i c computed s = Inr (found, c', comp) \<and>
     bs = (if found then comp else take c' comp) \<and> length bs \<le> n \<and> holds_from gid s hs (length bs - w) bs \<and>
     (\<forall>L \<le> n. length bs < L \<longrightarrow> (\<exists>j. L - w \<le> j \<and> j < L \<and> \<not> in_cache gid s (hs ! j)))"
  using n w run null no
proof (induction i arbitrary: c computed)
  case 0
  then have "holds_from gid s hs (c - w) (take c computed)" by (simp add: holds_from_def)
  with 0 show ?case by (intro exI [of _ False] exI [of _ c] exI [of _ computed] exI [of _ "take c computed"]) (simp add: min_absorb2)
next
  case (Suc i)
  have i: "i < length hs" "i < length computed" using Suc.prems by simp_all
  show ?case
  proof (cases rule: get_cached_block_spec [OF g, of "hs ! i"])
    case (1 b)
    let ?comp = "computed[i := b]"
    have run: "cached_as gid s (hs ! j) (?comp ! j)" if "i \<le> j" "j < i + Suc c" for j
      using that 1(2) i Suc.prems(6) by (cases "j = i") simp_all
    have null: "\<forall>j < i. ?comp ! j = 0" using Suc.prems(7) by simp
    have step: "window_loop hs gid bsz bsz want (Suc i) c computed s =
      (if int (Suc c) \<ge> want then Inr (True, Suc c, take (i + Suc c) ?comp) else window_loop hs gid bsz bsz want i (Suc c) ?comp s)"
      using i(1) 1(1) by (simp add: Let_def)
    show ?thesis
    proof (cases "int (Suc c) \<ge> want")
      case True
      then have sw: "Suc c = w" using Suc.prems(4,5) by simp
      let ?bs = "take (i + Suc c) ?comp"
      have len: "length ?bs = i + Suc c" using Suc.prems(1,3) by simp
      have "holds_from gid s hs (length ?bs - w) ?bs"
        unfolding holds_from_def len using sw run null by (auto simp: not_less)
      moreover have "\<forall>L \<le> n. length ?bs < L \<longrightarrow> (\<exists>j. L - w \<le> j \<and> j < L \<and> \<not> in_cache gid s (hs ! j))"
        using Suc.prems(8) unfolding len by simp
      moreover have "length ?bs \<le> n" unfolding len using Suc.prems(1) by simp
      ultimately show ?thesis using True step by (intro exI [of _ True] exI [of _ "Suc c"] exI [of _ ?bs] exI [of _ ?bs]) simp
    next
      case False
      then have "Suc c < w" using Suc.prems(4,5) by linarith
      then show ?thesis
        unfolding step if_not_P [OF False] using Suc.prems run null by (intro Suc.IH) auto
    qed
  next
    case 2
    have no: "\<exists>j. L - w \<le> j \<and> j < L \<and> \<not> in_cache gid s (hs ! j)" if L: "L \<le> n" "i < L" for L
    proof (cases "Suc i + c < L")
      case True
      with Suc.prems(8) L show ?thesis by blast
    next
      case False
      with L Suc.prems(5) 2(2) show ?thesis by (intro exI [of _ i]) auto
    qed
    have step: "window_loop hs gid bsz bsz want (Suc i) c computed s = window_loop hs gid bsz bsz want i 0 computed s"
      using i(1) 2(1) by simp
    show ?thesis unfolding step using Suc.prems no by (intro Suc.IH) auto
  qed
qed

section \<open>The longest reusable prefix\<close>

lemma distinct_filter_nth:
  assumes "\<And>i j. i < length xs \<Longrightarrow> j < length xs \<Longrightarrow> xs ! i = xs ! j \<Longrightarrow> P (xs ! i) \<Longrightarrow> i = j"
  shows "distinct (filter P xs)"
  using assms
proof (induction xs)
  case (Cons x xs)
  have "i = j" if "i < length xs" "j < length xs" "xs ! i = xs ! j" "P (xs ! i)" for i j
    using Cons.prems [of "Suc i" "Suc j"] that by simp
  then have d: "distinct (filter P xs)" by (rule Cons.IH)
  have "x \<notin> set xs" if "P x"
  proof
    assume "x \<in> set xs"
    then obtain j where "j < length xs" "xs ! j = x" by (auto simp: in_set_conv_nth)
    then show False using Cons.prems [of 0 "Suc j"] that by simp
  qed
  with d show ?case by simp
qed simp

text \<open>
  The reference: the first block the attention still reads when the request resumes after \<open>L\<close> blocks. Chunked local attention
  takes the chunk of the last token into account, a window its last blocks and one more for eagle.
\<close>

definition needed_from :: "attn_kind \<Rightarrow> int \<Rightarrow> bool \<Rightarrow> int \<Rightarrow> nat \<Rightarrow> nat" where
  "needed_from kind bsz eagle max_length L =
     (case kind of
        FullAttention \<Rightarrow> 0
      | SlidingWindow w \<Rightarrow> L - nat (max 1 (cdiv (w - 1) bsz + (if eagle then 1 else 0)))
      | ChunkedLocal c \<Rightarrow> nat ((if max_length > 0 then max_length div c * c else 0) div bsz))"

definition reusable :: "attn_kind \<Rightarrow> int \<Rightarrow> bool \<Rightarrow> int \<Rightarrow> 'm block_pool_scheme \<Rightarrow> bytes list \<Rightarrow> nat \<Rightarrow> bool" where
  "reusable kind bsz eagle max_length s hs L \<longleftrightarrow> L \<le> nat (max_length div bsz) \<and>
     (\<forall>j. needed_from kind bsz eagle max_length L \<le> j \<and> j < L \<longrightarrow> in_cache 0 s (hs ! j))"

lemma pop_aligned_same [simp]: "pop_aligned bsz bsz bs = bs"
  by (simp add: pop_aligned.simps)

lemma takeWhile_run:
  fixes P n hs
  defines "m \<equiv> length (takeWhile P (take n hs))"
  assumes "n \<le> length hs" "list_all2 Q (takeWhile P (take n hs)) bs"
  shows "length bs = m" "m \<le> n" "\<forall>j < m. P (hs ! j) \<and> Q (hs ! j) (bs ! j)" "m < n \<Longrightarrow> \<not> P (hs ! m)"
proof -
  show "length bs = m" using assms(3) by (simp add: m_def list_all2_lengthD)
  have "m \<le> length (take n hs)" unfolding m_def by (rule length_takeWhile_le)
  then show mn: "m \<le> n" by simp
  show "\<forall>j < m. P (hs ! j) \<and> Q (hs ! j) (bs ! j)"
  proof (intro allI impI)
    fix j assume j: "j < m"
    have e: "takeWhile P (take n hs) ! j = hs ! j" using j mn takeWhile_nth [of j P "take n hs"] by (simp add: m_def)
    moreover have "P (takeWhile P (take n hs) ! j)" using j nth_mem [of j "takeWhile P (take n hs)"] set_takeWhileD by (fastforce simp: m_def)
    moreover have "Q (takeWhile P (take n hs) ! j) (bs ! j)" using list_all2_nthD [OF assms(3)] j by (simp add: m_def)
    ultimately show "P (hs ! j) \<and> Q (hs ! j) (bs ! j)" by simp
  qed
  assume "m < n"
  then have "m < length (take n hs)" using assms(2) by simp
  from nth_length_takeWhile [OF this [unfolded m_def]] \<open>m < n\<close> show "\<not> P (hs ! m)" by (simp add: m_def)
qed

lemma full_longest:
  assumes g: "cache_ok s" and n: "nat (max_length div bsz) \<le> length hs" and pos: "0 \<le> max_length" "0 < bsz"
  shows "\<exists>bs. full_find_longest_cache_hit hs max_length 0 bsz eagle bsz s = Inr (drop_last eagle bs) \<and>
     holds_from 0 s hs (needed_from FullAttention bsz eagle max_length (length bs)) bs \<and>
     reusable FullAttention bsz eagle max_length s hs (length bs) \<and> (\<forall>L. length bs < L \<longrightarrow> \<not> reusable FullAttention bsz eagle max_length s hs L)"
proof -
  let ?n = "nat (max_length div bsz)"
  obtain bs where bs: "full_hits (take ?n hs) 0 s = Inr bs" "list_all2 (cached_as 0 s) (takeWhile (in_cache 0 s) (take ?n hs)) bs"
    using full_hits_spec [OF g, of 0 "take ?n hs"] by auto
  note r = takeWhile_run [OF n bs(2)]
  have "\<not> reusable FullAttention bsz eagle max_length s hs L" if "length bs < L" for L
    using r(1,4) that by (auto simp: reusable_def needed_from_def)
  moreover have "\<not> max_length div bsz < 0" using pos by (simp add: pos_imp_zdiv_nonneg_iff not_less)
  ultimately show ?thesis
    using bs(1) r(1-3) by (intro exI [of _ bs]) (auto simp: full_find_longest_cache_hit_def reusable_def needed_from_def holds_from_def)
qed

lemma window_longest:
  assumes g: "cache_ok s" "null_block s = 0" and n: "nat (max_length div bsz) \<le> length hs"
  shows "\<exists>bs. window_find_longest_cache_hit hs max_length 0 bsz w eagle bsz 1 1 s = Inr (drop_last eagle bs) \<and>
     holds_from 0 s hs (needed_from (SlidingWindow w) bsz eagle max_length (length bs)) bs \<and>
     reusable (SlidingWindow w) bsz eagle max_length s hs (length bs) \<and> (\<forall>L. length bs < L \<longrightarrow> \<not> reusable (SlidingWindow w) bsz eagle max_length s hs L)"
proof -
  let ?n = "nat (max_length div bsz)" and ?want = "cdiv (w - 1) bsz + (if eagle then 1 else 0)"
  let ?w = "nat (max 1 ?want)"
  have "\<exists>found c comp bs. window_loop hs 0 bsz bsz ?want ?n 0 (replicate ?n 0) s = Inr (found, c, comp) \<and>
     bs = (if found then comp else take c comp) \<and> length bs \<le> ?n \<and> holds_from 0 s hs (length bs - ?w) bs \<and>
     (\<forall>L \<le> ?n. length bs < L \<longrightarrow> (\<exists>j. L - ?w \<le> j \<and> j < L \<and> \<not> in_cache 0 s (hs ! j)))"
    by (rule window_loop_spec [OF g(1) _ _ _ n _ refl]) auto
  then obtain found c comp bs where l: "window_loop hs 0 bsz bsz ?want ?n 0 (replicate ?n 0) s = Inr (found, c, comp)"
    "bs = (if found then comp else take c comp)" "length bs \<le> ?n" "holds_from 0 s hs (length bs - ?w) bs"
    "\<forall>L \<le> ?n. length bs < L \<longrightarrow> (\<exists>j. L - ?w \<le> j \<and> j < L \<and> \<not> in_cache 0 s (hs ! j))"
    by blast
  have "reusable (SlidingWindow w) bsz eagle max_length s hs (length bs)"
    using l(3) holds_from_in_cache [OF l(4)] by (simp add: reusable_def needed_from_def)
  moreover have "\<not> reusable (SlidingWindow w) bsz eagle max_length s hs L" if "length bs < L" for L
    using l(5) that unfolding reusable_def needed_from_def attn_kind.case by blast
  moreover have "window_find_longest_cache_hit hs max_length 0 bsz w eagle bsz 1 1 s = Inr (drop_last eagle bs)"
    using l(1,2) g(2) by (simp add: window_find_longest_cache_hit_def Let_def)
  ultimately show ?thesis using l(4) by (intro exI [of _ bs]) (simp add: needed_from_def)
qed

lemma chunked_longest:
  assumes g: "cache_ok s" "null_block s = 0" and n: "nat (max_length div bsz) \<le> length hs" and pos: "0 < c" "0 < bsz"
  shows "\<exists>bs. chunked_find_longest_cache_hit hs max_length 0 bsz c False bsz 1 1 s = Inr bs \<and>
     holds_from 0 s hs (needed_from (ChunkedLocal c) bsz False max_length (length bs)) bs \<and>
     reusable (ChunkedLocal c) bsz False max_length s hs (length bs) \<and> (\<forall>L. length bs < L \<longrightarrow> \<not> reusable (ChunkedLocal c) bsz False max_length s hs L)"
proof -
  let ?n = "nat (max_length div bsz)"
  define lo where "lo = nat ((if max_length > 0 then max_length div c * c else 0) div bsz)"
  have lo: "lo \<le> ?n"
    unfolding lo_def using floor_le [OF pos(1), of max_length] pos(2) by (auto intro!: nat_mono zdiv_mono1 simp: pos_imp_zdiv_nonneg_iff)
  obtain bs where bs: "chunk_hits hs 0 lo (?n - lo) s = Inr bs"
    "list_all2 (cached_as 0 s) (takeWhile (in_cache 0 s) (take (?n - lo) (drop lo hs))) bs"
    using chunk_hits_spec [OF g(1), of 0 lo "?n - lo" hs] lo n by auto
  have "?n - lo \<le> length (drop lo hs)" using n by simp
  note r = takeWhile_run [OF this bs(2)]
  let ?bs = "replicate lo 0 @ bs"
  have nf: "needed_from (ChunkedLocal c) bsz False max_length L = lo" for L by (simp add: needed_from_def lo_def)
  have "cached_as 0 s (hs ! j) (bs ! (j - lo))" if j: "lo \<le> j" "j < lo + length bs" for j
  proof -
    have "drop lo hs ! (j - lo) = hs ! j" using j(1) lo n by simp
    moreover have "j - lo < length bs" using j by simp
    ultimately show ?thesis using r(1,3) by metis
  qed
  then have h: "holds_from 0 s hs lo ?bs" by (simp add: holds_from_def nth_append)
  have "reusable (ChunkedLocal c) bsz False max_length s hs (length ?bs)"
    using holds_from_in_cache [OF h] r(2) lo unfolding reusable_def nf r(1) [symmetric] by simp
  moreover have "\<not> reusable (ChunkedLocal c) bsz False max_length s hs L" if L: "length ?bs < L" for L
  proof
    assume u: "reusable (ChunkedLocal c) bsz False max_length s hs L"
    then have "L \<le> ?n" unfolding reusable_def by blast
    then have "length bs < ?n - lo" using L by simp
    then have "\<not> in_cache 0 s (hs ! (lo + length bs))" using r(1,4) n by simp
    with u L show False unfolding reusable_def nf by simp
  qed
  moreover have "chunked_find_longest_cache_hit hs max_length 0 bsz c False bsz 1 1 s = Inr ?bs"
    using bs(1) g(2) by (simp add: chunked_find_longest_cache_hit_def Let_def lo_def)
  ultimately show ?thesis using h by (intro exI [of _ ?bs]) (simp add: nf)
qed

text \<open>The blocks found are what \<open>allocate_slots\<close> may be given: cached, each of them once.\<close>

lemma holds_from_valid:
  assumes h: "holds_from 0 s hs lo bs" and n: "length bs \<le> length hs" "distinct hs" and z: "0 < length (blocks s)"
  shows "valid_hits bs s"
proof -
  have b: "b < length (blocks s) \<and> (b \<noteq> 0 \<longrightarrow> hash_at s b \<noteq> None)" if "b \<in> set bs" for b
    using that h z by (fastforce simp: in_set_conv_nth holds_from_def cached_as_def split: if_splits)
  have "i = j" if ij: "i < length bs" "j < length bs" "bs ! i = bs ! j" "bs ! i \<noteq> 0" for i j
  proof -
    have "cached_as 0 s (hs ! i) (bs ! i)" "cached_as 0 s (hs ! j) (bs ! i)" using h ij by (auto simp: holds_from_def split: if_splits)
    then have "hs ! i = hs ! j" using cached_as_inj [of 0 s "hs ! i" "bs ! i" "hs ! j"] by simp
    then show ?thesis using n ij(1,2) by (simp add: nth_eq_iff_index_eq)
  qed
  then have "distinct (filter (\<lambda>b. b \<noteq> 0) bs)" by (rule distinct_filter_nth)
  with b show ?thesis by (auto simp: valid_hits_def blocks_ok_def)
qed

text \<open>What the manager hands to the scheduler for a new request.\<close>

definition search_ok :: "request \<Rightarrow> 'm kvm_state \<Rightarrow> bool" where
  "search_ok r x \<longleftrightarrow> (let (g, s) = x in pool_inv {} s \<and> config_ok g s \<and> kv_caching g \<and> \<not> skip_reading_prefix_cache r \<and> 0 < num_tokens r \<and>
     (num_tokens r - 1) div kv_block_size g \<le> int (length (block_hashes r)) \<and>
     (case kv_kind g of FullAttention \<Rightarrow> True
        | SlidingWindow _ \<Rightarrow> dcp_world_size g = 1 \<and> pcp_world_size g = 1
        | ChunkedLocal _ \<Rightarrow> \<not> use_eagle g \<and> dcp_world_size g = 1 \<and> pcp_world_size g = 1))"

lemma get_computed_blocks_longest:
  assumes ok: "search_ok r (g, s)"
  defines "fits \<equiv> reusable (kv_kind g) (kv_block_size g) (use_eagle g) (num_tokens r - 1) s (block_hashes r)"
  shows "\<exists>bs. get_computed_blocks r (g, s) =
       Inr (create_kv_cache_blocks (drop_last (use_eagle g) bs), int (length (drop_last (use_eagle g) bs)) * kv_block_size g) \<and>
     holds_from 0 s (block_hashes r) (needed_from (kv_kind g) (kv_block_size g) (use_eagle g) (num_tokens r - 1) (length bs)) bs \<and>
     fits (length bs) \<and> (\<forall>L. length bs < L \<longrightarrow> \<not> fits L)"
proof -
  let ?bsz = "kv_block_size g" and ?max = "num_tokens r - 1" and ?hs = "block_hashes r"
  have s: "cache_ok s" "null_block s = 0" using ok by (simp_all add: search_ok_def pool_inv_def ids_ok_def)
  have q: "0 < ?bsz" "0 \<le> ?max" "nat (?max div ?bsz) \<le> length ?hs" "kv_caching g" "\<not> skip_reading_prefix_cache r"
    "case kv_kind g of FullAttention \<Rightarrow> True | SlidingWindow w \<Rightarrow> 0 < w | ChunkedLocal c \<Rightarrow> 0 < c"
    using ok unfolding search_ok_def config_ok_def Let_def prod.case nat_le_iff by auto
  show ?thesis
  proof (cases "kv_kind g")
    case FullAttention
    from full_longest [OF s(1) q(3,2,1), of "use_eagle g"] FullAttention q(4,5) show ?thesis
      by (auto simp: get_computed_blocks_def find_longest_cache_hit_def fits_def)
  next
    case (SlidingWindow w)
    with ok have "dcp_world_size g = 1" "pcp_world_size g = 1" by (simp_all add: search_ok_def)
    with window_longest [OF s q(3), of w "use_eagle g"] SlidingWindow q(4,5) show ?thesis
      by (auto simp: get_computed_blocks_def find_longest_cache_hit_def fits_def)
  next
    case (ChunkedLocal c)
    with ok q(6) have "0 < c" "\<not> use_eagle g" "dcp_world_size g = 1" "pcp_world_size g = 1" by (simp_all add: search_ok_def)
    with chunked_longest [OF s q(3) \<open>0 < c\<close> q(1)] ChunkedLocal q(4,5) show ?thesis
      by (auto simp: get_computed_blocks_def find_longest_cache_hit_def fits_def drop_last_def)
  qed
qed

end
