(* ===== verification/KV_Serving.thy ===== *)
theory KV_Serving
  imports Pool_Setup KV_Prefix
begin

text \<open>
  The KV cache manager on the unified pool, composed with the forward passes that take pages for
  experts: every pool operation the manager performs is a step of the pool's machine, and the accounts
  of the manager survive everything the engine does between two scheduler calls.
\<close>

section \<open>The pool behind the manager\<close>

text \<open>A pool with well-behaved listeners keeps the contract the KV cache manager relies on.\<close>

sublocale pool_listener < kv: kv_pool cbs "\<lambda>s. synced L held {} s \<and> ready s"
proof (unfold_locales, goal_cases)
  case (1 s)
  then show ?case by (simp add: synced_def listens_def)
next
  case (2 s k)
  then show ?case by (auto intro: runs_to_mono [OF get_new_blocks_ok])
next
  case (3 s bs)
  then show ?case by (auto intro: runs_to_mono [OF touch_ok])
next
  case (4 s bs)
  then show ?case by (auto intro: runs_to_mono [OF free_blocks_ok])
next
  case (5 s gid nf nc blks r bsz sha)
  from cache_full_blocks_ok [OF conjunct1 [OF 5(1)] 5(2-10), of sha] 5(1) show ?case
    by (auto elim!: runs_to_mono)
qed

text \<open>
  The unified pool: besides the contract, its end state is one the pool's machine reaches from the start state.
\<close>

interpretation unified: kv_pool manager_callbacks "\<lambda>s. engine_inv s \<and> unpinned s \<and> reachable s0 s" for s0
proof (unfold_locales, goal_cases)
  case (1 s)
  then show ?case by (simp add: engine_inv_def synced_def listens_def)
next
  case (2 s k)
  then have J: "manager_synced (length (blocks s)) {} s" "unpinned s" by (simp_all add: engine_inv_def)
  show ?case
  proof (rule runs_to_mono [OF manager_get_new_blocks [OF J 2(2)]])
    fix ret s' assume run: "get_new_blocks manager_callbacks k s = Inr (ret, s')"
      and s': "manager_synced (length (blocks s)) {} s' \<and> unpinned s' \<and> distinct ret \<and> length ret = k \<and> set ret \<subseteq> free_set s \<and>
        claimed (set ret) s s' \<and> frozen s' = frozen s"
    have "pool_step s s'" using J(2) run by (rule pool_step.allocate)
    with 2(1) s' show "(engine_inv s' \<and> unpinned s' \<and> reachable s0 s') \<and> distinct ret \<and> length ret = k \<and> set ret \<subseteq> free_set s \<and> claimed (set ret) s s'"
      using pool_step_inv reachable.step by blast
  qed
next
  case (3 s bs)
  then have J: "manager_synced (length (blocks s)) {} s" by (simp add: engine_inv_def)
  show ?case
  proof (rule runs_to_mono [OF manager_touch [OF J 3(2)]])
    fix u s' assume run: "touch manager_callbacks bs s = Inr (u, s')"
      and s': "manager_synced (length (blocks s)) {} s' \<and> rereffed (\<lambda>i. ref_at s i + int (count_list bs i)) s s' \<and> unpinned s' = unpinned s \<and> frozen s' = frozen s"
    have "pool_step s s'" using 3(2) run by (intro pool_step.touch) auto
    with 3(1) s' show "(engine_inv s' \<and> unpinned s' \<and> reachable s0 s') \<and> rereffed (\<lambda>i. ref_at s i + int (count_list bs i)) s s'"
      using pool_step_inv reachable.step by blast
  qed
next
  case (4 s bs)
  then have J: "manager_synced (length (blocks s)) {} s" by (simp add: engine_inv_def)
  show ?case
  proof (rule runs_to_mono [OF manager_free_blocks [OF J 4(2)]])
    fix u s' assume run: "free_blocks manager_callbacks bs s = Inr (u, s')"
      and s': "manager_synced (length (blocks s)) {} s' \<and> rereffed (\<lambda>i. ref_at s i - int (count_list bs i)) s s' \<and>
        free_ids (free_block_queue s') = free_ids (free_block_queue s) @ last_refs bs s \<and> unpinned s' = unpinned s \<and> frozen s' = frozen s"
    have "pool_step s s'" using 4(2) run by (intro pool_step.free) auto
    with 4(1) s' show "(engine_inv s' \<and> unpinned s' \<and> reachable s0 s') \<and> rereffed (\<lambda>i. ref_at s i - int (count_list bs i)) s s'"
      using pool_step_inv reachable.step by blast
  qed
next
  case (5 s gid nf nc blks r bsz sha)
  then have J: "manager_synced (length (blocks s)) {} s" by (simp add: engine_inv_def)
  show ?case
  proof (rule runs_to_mono [OF manager_cache_full_blocks [OF J 5(2-10), of sha]], goal_cases)
    case (1 r' s')
    have "pool_step s s'" using 5(2-10) 1(1) by (rule pool_step.cache)
    with 5(1) have "engine_inv s' \<and> reachable s0 s'" using pool_step_inv reachable.step by blast
    moreover have "unpinned s'" using 1(2) 5(1) by metis
    ultimately show ?case using 1(2) by metis
  qed
qed

section \<open>Serving\<close>

text \<open>
  The engine while it serves: slots for a request, a finished or preempted request, caching after a delayed transfer, blocks
  that fell out of the attention window, eviction of cached blocks by their ids, a reset of the prefix cache, draining the events
  and the new block ids, the kernels' writes to a request's pages and the forward pass of a layer, whether or not it fails.
  \<open>kern\<close> is the fused kernel. As in the pool's machine, a successful reset is a step only while the recency list of the
  unified pool is empty.
\<close>

inductive serve_step :: "'a kernel \<Rightarrow> kv_cache_manager \<times> unified_manager \<Rightarrow> kv_cache_manager \<times> unified_manager \<Rightarrow> bool" for kern where
  slots: "schedulable r num_new num_new_computed c look ext x \<Longrightarrow>
     allocate_slots manager_callbacks sha r num_new num_new_computed c look ext delay x = Inr (out, x') \<Longrightarrow> serve_step kern x x'"
| finish: "kv_free manager_callbacks rid x = Inr ((), x') \<Longrightarrow> serve_step kern x x'"
| cache: "toks div kv_block_size (fst x) \<le> int (length (blocks_of (request_id r) (fst x))) \<Longrightarrow>
     toks div kv_block_size (fst x) \<le> int (length (block_hashes r)) \<Longrightarrow>
     manager_cache_blocks sha r toks x = Inr (r', x') \<Longrightarrow> serve_step kern x x'"
| skipped: "manager_remove_skipped_blocks manager_callbacks rid toks x = Inr ((), x') \<Longrightarrow> serve_step kern x x'"
| evict: "\<forall>b \<in> set ids. b < length (blocks (snd x)) \<Longrightarrow>
     manager_evict_blocks_by_id manager_callbacks ids x = Inr ((), x') \<Longrightarrow> serve_step kern x x'"
| reset: "manager_reset_prefix_cache x = (ok, x') \<Longrightarrow> (ok \<longrightarrow> lru_items (prefix_lru (snd x)) = []) \<Longrightarrow> serve_step kern x x'"
| events: "manager_take_events x = (evs, x') \<Longrightarrow> serve_step kern x x'"
| new_ids: "manager_take_new_block_ids x = (ids, x') \<Longrightarrow> serve_step kern x x'"
| kernel: "b \<in> set (blocks_of rid g) \<Longrightarrow> b \<noteq> 0 \<Longrightarrow> length xs = page_size_bytes s \<Longrightarrow> serve_step kern (g, s) (g, kv_write i b xs s)"
| forward: "map_of (layers s) i = Some l \<Longrightarrow> \<forall>e \<in> set ids. e < num_experts l \<Longrightarrow>
     forward_with_unified_pool paranoid kern i ids s = Inr (res, s') \<Longrightarrow> serve_step kern (g, s) (g, s')"
| forward_fails: "map_of (layers s) i = Some l \<Longrightarrow> \<forall>e \<in> set ids. e < num_experts l \<Longrightarrow>
     forward_with_unified_pool paranoid kern i ids s = Inl (err, s') \<Longrightarrow> serve_step kern (g, s) (g, s')"

inductive serves :: "'a kernel \<Rightarrow> kv_cache_manager \<times> unified_manager \<Rightarrow> kv_cache_manager \<times> unified_manager \<Rightarrow> bool" for kern x0 where
  start: "serves kern x0 x0"
| step: "serves kern x0 x \<Longrightarrow> serve_step kern x x' \<Longrightarrow> serves kern x0 x'"

definition serving :: "kv_cache_manager \<times> unified_manager \<Rightarrow> bool" where
  "serving x \<longleftrightarrow> engine_inv (snd x) \<and> unpinned (snd x) \<and> accounts x"

text \<open>The accounts depend on the counts, and on the hashes of the pages in use only, which may be lost.\<close>

lemma accounts_frame:
  assumes a: "accounts (g, s)" and f: "length (blocks s') = length (blocks s)" "enable_caching s' = enable_caching s"
      "hash_block_size s' = hash_block_size s"
    and r: "\<And>p. p < length (blocks s) \<Longrightarrow> ref_at s' p = ref_at s p"
    and h: "\<And>p. p < length (blocks s) \<Longrightarrow> 0 < ref_at s p \<Longrightarrow> hash_at s' p = hash_at s p \<or> hash_at s' p = None"
  shows "accounts (g, s')"
proof -
  note D = accountsD [OF a]
  have "own_blocks s' (drop (cached_count g r) (blocks_of r g))" for r
    unfolding own_blocks_def
  proof (intro ballI impI)
    fix b assume b: "b \<in> set (drop (cached_count g r) (blocks_of r g))" "b \<noteq> 0"
    then have "hash_at s b = None" "ref_at s b = 1" "b < length (blocks s)"
      using D(5) [of r] held_ref_pos(2) [OF a in_set_dropD] by (auto simp: own_blocks_def)
    with h [of b] r [of b] show "hash_at s' b = None \<and> ref_at s' b = 1" by auto
  qed
  with D f r show ?thesis by (simp add: accounts_def config_ok_def)
qed

lemma unpinned_by_pins: "dict_wf (layers s) \<Longrightarrow> unpinned s \<longleftrightarrow> (\<forall>i ps. pins_of s i = Some ps \<longrightarrow> ps = [])"
  by (fastforce simp: unpinned_def pins_of_def)

lemma forward_serving:
  assumes x: "serving (g, s)" and k: "forward_kept s s'"
  shows "serving (g, s')"
proof -
  have s: "engine_inv s" "unpinned s" "accounts (g, s)" using x by (simp_all add: serving_def)
  have e: "engine_inv s'" using k by (simp add: forward_kept_def)
  have wf: "dict_wf (layers s)" "dict_wf (layers s')" using s(1) e by (auto simp: engine_inv_def intro: manager_syncedD(14))
  have "unpinned s'" using s(2) k unfolding unpinned_by_pins [OF wf(1)] unpinned_by_pins [OF wf(2)] forward_kept_def by simp
  moreover have "accounts (g, s')"
    by (rule accounts_frame [OF s(3)]) (use k in \<open>simp_all add: forward_kept_def kv_kept_def\<close>)
  ultimately show ?thesis using e by (simp add: serving_def)
qed

text \<open>The pool's own calls: hashes are lost, counts and pins stay.\<close>

lemma pool_call_serving:
  assumes x: "serving (g, s)" and st: "pool_step s s'" and f: "unpinned s' = unpinned s" "length (blocks s') = length (blocks s)"
      "enable_caching s' = enable_caching s" "hash_block_size s' = hash_block_size s"
    and r: "\<And>p. p < length (blocks s) \<Longrightarrow> ref_at s' p = ref_at s p"
    and h: "\<And>p. p < length (blocks s) \<Longrightarrow> hash_at s' p = hash_at s p \<or> hash_at s' p = None"
  shows "serving (g, s')"
proof -
  have s: "engine_inv s" "unpinned s" "accounts (g, s)" using x by (simp_all add: serving_def)
  have "accounts (g, s')" by (rule accounts_frame [OF s(3) f(2-4) r h])
  with s(2) f(1) pool_step_inv [OF st s(1)] show ?thesis by (simp add: serving_def)
qed

lemma evict_serving:
  assumes x: "serving x" and b: "\<forall>b \<in> set ids. b < length (blocks (snd x))"
    and run: "manager_evict_blocks_by_id manager_callbacks ids x = Inr ((), x')"
  shows "serving x'"
proof -
  obtain g s where e: "x = (g, s)" by (cases x)
  obtain s' where s': "evict_blocks manager_callbacks ids s = Inr ((), s')" "x' = (g, s')"
    using run by (auto simp: e manager_evict_blocks_by_id_def on_pool_def on_part_def split: sum.splits)
  have J: "manager_synced (length (blocks s)) {} s" using x by (simp add: e serving_def engine_inv_def)
  have b': "\<forall>b \<in> set ids. b < length (blocks s)" using b by (simp add: e)
  have q: "ref_at s' = ref_at s" "hash_at s' = (\<lambda>i. if i \<in> set ids then None else hash_at s i)" "length (blocks s') = length (blocks s)"
    "unpinned s' = unpinned s" "enable_caching s' = enable_caching s" "hash_block_size s' = hash_block_size s"
    using manager_evict_blocks [OF J b'] unfolding s'(1) by simp_all
  show ?thesis
    unfolding s'(2) by (rule pool_call_serving [OF x [unfolded e] pool_step.evict [OF b' s'(1)]]) (simp_all add: q)
qed

lemma reset_serving:
  assumes x: "serving x" and run: "manager_reset_prefix_cache x = (ok, x')" and e: "ok \<longrightarrow> lru_items (prefix_lru (snd x)) = []"
  shows "serving x'"
proof -
  obtain g s s' where s': "x = (g, s)" "reset_prefix_cache s = (ok, s')" "x' = (g, s')"
    using run by (cases x) (auto simp: manager_reset_prefix_cache_def split: prod.splits)
  show ?thesis
  proof (cases ok)
    case True
    note f = reset_fields [OF s'(2) [unfolded eq_True [THEN iffD2, OF True]]]
    have "pool_step s s'" using pool_step.reset [OF s'(2)] e by (simp add: s'(1))
    from pool_call_serving [OF x [unfolded s'(1)] this view_more(3) [OF f(1)] f(2,4,5)] f(6,7) show ?thesis unfolding s'(3) by simp
  next
    case False
    have "pool_inv {} s" using x by (simp add: s' serving_def engine_inv_def synced_def listens_def)
    from reset_prefix_cache_ok(3) [OF this s'(2) False] x show ?thesis by (simp add: s')
  qed
qed

lemma take_events_serving:
  assumes x: "serving x" and run: "manager_take_events x = (evs, x')"
  shows "serving x'"
proof -
  obtain g s s' where s': "x = (g, s)" "take_events s = (evs, s')" "x' = (g, s')"
    using run by (cases x) (auto simp: manager_take_events_def split: prod.splits)
  note f = take_events_fields [OF s'(2)]
  show ?thesis
    unfolding s'(3) by (rule pool_call_serving [OF x [unfolded s'(1)] pool_step.events [OF s'(2)] view_more(3) [OF f(1)]]) (simp_all add: f(2,4-7))
qed

lemma serve_step_serving:
  assumes "serve_step kern x x'" "reads_rows_by_id kern" "serving x"
  shows "serving x'"
  using assms
proof (induction rule: serve_step.induct)
  case (slots r num_new num_new_computed c look ext x sha delay out x')
  obtain g s where x: "x = (g, s)" by (cases x)
  have s: "engine_inv s \<and> unpinned s \<and> reachable s s" "accounts (g, s)" using slots(4) by (simp_all add: serving_def x reachable.start)
  from unified.allocate_slots_ok [OF s slots(1) [unfolded x], of sha delay] slots(2) show ?case
    by (auto simp: x serving_def split: prod.splits)
next
  case (finish rid x x')
  obtain g s where x: "x = (g, s)" by (cases x)
  have s: "engine_inv s \<and> unpinned s \<and> reachable s s" "accounts (g, s)" using finish(3) by (simp_all add: serving_def x reachable.start)
  from unified.kv_free_ok [OF s, of rid] finish(1) show ?case by (auto simp: x serving_def)
next
  case (cache toks x r sha r' x')
  obtain g s where x: "x = (g, s)" by (cases x)
  have s: "engine_inv s \<and> unpinned s \<and> reachable s s" "accounts (g, s)" using cache(5) by (simp_all add: serving_def x reachable.start)
  from unified.cache_blocks_ok [OF s, of toks r sha] cache(1-3,5) show ?case
    by (auto simp: x serving_def manager_cache_blocks_def return_def split: if_splits)
next
  case (skipped rid toks x x')
  obtain g s where x: "x = (g, s)" by (cases x)
  have s: "engine_inv s \<and> unpinned s \<and> reachable s s" "accounts (g, s)" using skipped(3) by (simp_all add: serving_def x reachable.start)
  from unified.remove_skipped_blocks_ok [OF s, of rid toks] skipped(1) show ?case
    by (auto simp: x serving_def manager_remove_skipped_blocks_def)
next
  case (evict ids x x')
  from evict_serving [OF evict(4,1,2)] show ?case .
next
  case (reset x ok x')
  from reset_serving [OF reset(4,1,2)] show ?case .
next
  case (events x evs x')
  from take_events_serving [OF events(3,1)] show ?case .
next
  case (new_ids x ids x')
  then show ?case by (cases x) (auto simp: manager_take_new_block_ids_def take_new_block_ids_def serving_def accounts_def Let_def
      config_ok_def blocks_of_def cached_count_def holders_def)
next
  case (kernel b rid g xs s i)
  have s: "engine_inv s" "unpinned s" "accounts (g, s)" using kernel(5) by (simp_all add: serving_def)
  note p = held_ref_pos [OF s(3) kernel(1,2)]
  have J: "inv s" using s(1) by (simp add: engine_inv_def)
  have w: "engine_inv (kv_write i b xs s)" using pool_step_inv [OF pool_step.kernel s(1)] p kernel(2,3) by simp
  have f: "blocks (kv_write i b xs s) = blocks s" "enable_caching (kv_write i b xs s) = enable_caching s"
    "hash_block_size (kv_write i b xs s) = hash_block_size s" by (simp_all add: kv_write_def split: option.splits)
  have "accounts (g, kv_write i b xs s)" by (rule accounts_frame [OF s(3)]) (simp_all add: f ref_at_def hash_at_def fun_eq_iff)
  with w kv_write_ok(2) [OF J p(2,1) _ kernel(3)] kernel(2) s(2) show ?case by (simp add: serving_def)
next
  case (forward s i l ids paranoid res s' g)
  have l: "engine_inv s" "pinned_super_blocks l = []" using forward(1,5) by (auto simp: serving_def unpinned_def dest!: map_of_SomeD)
  from forward_with_unified_pool_ok [OF l(1) forward(1) l(2) forward(2,4), of paranoid] forward(3) have "forward_kept s s'" by simp
  with forward(5) show ?case by (rule forward_serving)
next
  case (forward_fails s i l ids paranoid err s' g)
  have l: "engine_inv s" "pinned_super_blocks l = []" using forward_fails(1,5) by (auto simp: serving_def unpinned_def dest!: map_of_SomeD)
  from forward_with_unified_pool_ok [OF l(1) forward_fails(1) l(2) forward_fails(2,4), of paranoid] forward_fails(3) have "forward_kept s s'" by simp
  with forward_fails(5) show ?case by (rule forward_serving)
qed

lemma serves_serving: "serves kern x0 x \<Longrightarrow> reads_rows_by_id kern \<Longrightarrow> serving x0 \<Longrightarrow> serving x"
  by (induction rule: serves.induct) (auto intro: serve_step_serving)

section \<open>From the start of the engine\<close>

text \<open>The warmed-up pool and a manager that has no request yet.\<close>

definition started :: "nat \<Rightarrow> unified_manager \<Rightarrow> kv_cache_manager \<times> unified_manager \<Rightarrow> bool" where
  "started k s0 x \<longleftrightarrow> fresh s0 \<and> whole_super_blocks s0 \<and> (\<forall>l \<in> snd ` set (layers s0). k \<le> num_experts l) \<and> k < num_super_blocks s0 \<and>
     warm_up k s0 = Inr ((), snd x) \<and> req_to_blocks (fst x) = [] \<and> num_cached_block (fst x) = [] \<and> config_ok (fst x) (snd x)"

lemma started_serving:
  assumes "started k s0 (g, s)"
  shows "serving (g, s)"
proof -
  have q: "fresh s0" "whole_super_blocks s0" "\<forall>l \<in> snd ` set (layers s0). k \<le> num_experts l" "k < num_super_blocks s0"
    "warm_up k s0 = Inr ((), s)" "req_to_blocks g = []" "num_cached_block g = []" "config_ok g s"
    using assms by (simp_all add: started_def)
  have w: "warming s0 k {} s" using warm_up_ok [OF q(1,3,4)] unfolding q(5) by simp
  then have "length (blocks s) = length (blocks s0)" "ref_at s = ref_at s0" by (simp_all add: warming_def same_pool_def)
  then have "ref_at s b = 0" if "0 < b" "b < length (blocks s)" for b using q(1) that by (simp add: fresh_def)
  then have "accounts (g, s)" using q(6-8) by (simp add: accounts_def blocks_of_def holders_def own_blocks_def blocks_ok_def)
  with warmed_inv [OF q(1,2) w] warming_unpinned [OF q(1) w] show ?thesis by (simp add: serving_def)
qed

lemma served_state:
  assumes "started k s0 x0" "reads_rows_by_id kern" "serves kern x0 x"
  shows "serving x"
  using serves_serving [OF assms(3,2)] started_serving [of k s0 "fst x0" "snd x0"] assms(1) by simp

lemma mapped_page_free:
  assumes "engine_inv s" "mapped s i sb e" "p \<in> set (pages_of s sb)"
  shows "ref_at s p = 0"
proof -
  note D = manager_syncedD [OF assms(1) [unfolded engine_inv_def, THEN conjunct1]]
  have "p \<in> held_pages s" using mapped_held(1) [OF D(10) assms(2)] assms(3) by (auto simp: held_pages_def)
  then have "p \<in> free_set s" using D(3) by blast
  with free_page [OF D(5)] show ?thesis by blast
qed

text \<open>
  A run on the small pool: a manager with blocks of 16 tokens, and request \<open>a\<close> of 40 tokens that takes three blocks, the first two
  of which go into the prefix cache.
\<close>

definition demo_manager :: kv_cache_manager where
  "demo_manager = fst (projr (kv_cache_manager_init 16 FullAttention True 8 64 16 True False False False 1 1))"

definition demo_prompt :: "string \<Rightarrow> nat \<Rightarrow> int \<Rightarrow> request" where
  "demo_prompt rid n done = (text_request (map int [0..<n]))\<lparr>request_id := rid, block_hashes := take (n div 16) [[1], [2], [3]], num_computed_tokens := done\<rparr>"

definition demo_served :: "kv_cache_manager \<times> unified_manager" where
  "demo_served = final (allocate_slots manager_callbacks id (demo_prompt ''a'' 40 0) 40 0 None 0 0 False (demo_manager, demo_warm))"

lemma demo_started: "started 1 demo_fresh (demo_manager, demo_warm)"
proof -
  have "num_experts demo_layer = 2" by code_simp
  moreover have "req_to_blocks demo_manager = []" "num_cached_block demo_manager = []" "config_ok demo_manager demo_warm" by code_simp+
  ultimately show ?thesis using demo_fresh_ok demo_warm_ok by (simp add: started_def)
qed

lemma demo_served_run: "allocate_slots manager_callbacks id (demo_prompt ''a'' 40 0) 40 0 None 0 0 False (demo_manager, demo_warm) =
    Inr ((demo_prompt ''a'' 40 0, Some (Some [1, 4, 5])), demo_served)"
  unfolding demo_served_def by (rule outcome_run) code_simp

lemma demo_serves: "serves read_rows (demo_manager, demo_warm) (fst demo_served, snd demo_served)"
proof -
  have "schedulable (demo_prompt ''a'' 40 0) 40 0 None 0 0 (demo_manager, demo_warm)" by code_simp
  from serves.step [OF serves.start serve_step.slots [OF this demo_served_run]] show ?thesis unfolding prod.collapse .
qed

lemma demo_served_blocks: "blocks_of ''a'' (fst demo_served) = [1, 4, 5]" "cached_count (fst demo_served) ''a'' = 2"
  by code_simp+

text \<open>C10. While the engine serves requests on the unified pool, whatever the interleaving of the calls of \<open>serve_step\<close> (slots, release, caching,
  skipped blocks, eviction by id, events, kernel writes and forward passes; the prefix cache is reset only while no cached prefix is
  evictable), a block in a request's table is in use exactly as often as requests list it, it is listed once, no expert of any layer lies
  on its page, and a block the request has not put into the prefix cache is in no other request's table.\<close>

theorem served_blocks_are_safe:
  assumes "started k s0 x0" "reads_rows_by_id kern" "serves kern x0 (g, s)" "b \<in> set (blocks_of r g)" "b \<noteq> 0"
  shows "ref_at s b = int (holders g b) \<and> 0 < ref_at s b \<and> count_list (blocks_of r g) b = 1 \<and>
     (\<forall>i sb e. mapped s i sb e \<longrightarrow> b \<notin> set (pages_of s sb)) \<and>
     (b \<in> set (drop (cached_count g r) (blocks_of r g)) \<longrightarrow> (\<forall>r'. r' \<noteq> r \<longrightarrow> b \<notin> set (blocks_of r' g)))"
proof -
  have s: "engine_inv s" "accounts (g, s)" using served_state [OF assms(1-3)] by (simp_all add: serving_def)
  note p = held_ref_pos [OF s(2) assms(4,5)]
  have "ref_at s b = int (holders g b)" using accountsD(6) [OF s(2)] p(2) assms(5) by simp
  moreover have "count_list (blocks_of r g) b = 1"
    using accountsD(4) [OF s(2), of r] assms(5) count_pos [OF assms(4)] by (auto simp: blocks_ok_iff dest!: spec [of _ b])
  moreover have "b \<notin> set (pages_of s sb)" if "mapped s i sb e" for i sb e using mapped_page_free [OF s(1) that] p(1) by fastforce
  ultimately show ?thesis using p(1) own_block_elsewhere [OF s(2) _ assms(5)] by blast
qed

theorem served_blocks_are_safe_witness:
  "ref_at (snd demo_served) 5 = 1 \<and> (\<nexists>i sb e. mapped (snd demo_served) i sb e \<and> 5 \<in> set (pages_of (snd demo_served) sb)) \<and>
   5 \<notin> set (blocks_of ''b'' (fst demo_served))"
proof -
  have "holders (fst demo_served) 5 = 1" by code_simp
  with served_blocks_are_safe [OF demo_started read_rows_by_id demo_serves, of 5 "''a''"] show ?thesis
    by (auto simp: demo_served_blocks)
qed

text \<open>Every request finished.\<close>

lemma free_all_ok:
  assumes "serving (g, s)"
  shows "runs_to (for_each (kv_free manager_callbacks) rs (g, s)) (\<lambda>_ (g', s'). serving (g', s') \<and>
     (\<forall>r. blocks_of r g' = (if r \<in> set rs then [] else blocks_of r g)) \<and> length (blocks s') = length (blocks s))"
  using assms
proof (induction rs arbitrary: g s)
  case (Cons r rs)
  have s: "engine_inv s \<and> unpinned s \<and> reachable s s" "accounts (g, s)" using Cons.prems by (simp_all add: serving_def reachable.start)
  show ?case
    unfolding for_each.simps post_rbind
  proof (rule runs_to_mono [OF unified.kv_free_ok [OF s, of r]])
    fix u and x :: "kv_cache_manager \<times> unified_manager"
    assume x: "case x of (g', s') \<Rightarrow> (engine_inv s' \<and> unpinned s' \<and> reachable s s') \<and> accounts (g', s') \<and>
      (\<forall>r'. blocks_of r' g' = (if r' = r then [] else blocks_of r' g)) \<and>
      (\<forall>b. b \<noteq> 0 \<longrightarrow> ref_at s' b = ref_at s b - int (count_list (blocks_of r g) b)) \<and> hash_at s' = hash_at s \<and> length (blocks s') = length (blocks s)"
    obtain g1 s1 where e: "x = (g1, s1)" by (cases x)
    from x have s1: "serving (g1, s1)" "\<forall>r'. blocks_of r' g1 = (if r' = r then [] else blocks_of r' g)" "length (blocks s1) = length (blocks s)"
      by (simp_all add: e serving_def)
    show "runs_to (for_each (kv_free manager_callbacks) rs x) (\<lambda>_ (g', s'). serving (g', s') \<and>
      (\<forall>r'. blocks_of r' g' = (if r' \<in> set (r # rs) then [] else blocks_of r' g)) \<and> length (blocks s') = length (blocks s))"
      unfolding e by (rule runs_to_mono [OF Cons.IH [OF s1(1)]]) (use s1(2,3) in auto)
  qed
qed simp

lemma no_holders:
  assumes "dict_wf (req_to_blocks g)" "\<forall>r. blocks_of r g = []"
  shows "holders g b = 0"
proof -
  have "bs = []" if "(r, bs) \<in> set (req_to_blocks g)" for r bs
    using assms(2) [rule_format, of r] that assms(1) by (simp add: blocks_of_def)
  then show ?thesis by (force simp: holders_def)
qed

text \<open>C13. No block leaks: from any state the engine reaches while serving by the calls of \<open>serve_step\<close>, freeing every request that holds blocks succeeds and leaves
  all blocks but the null block free, however requests shared prefixes, slid their windows or lost cached blocks to experts.\<close>

theorem no_block_leaks:
  assumes "started k s0 x0" "reads_rows_by_id kern" "serves kern x0 (g, s)"
  shows "runs_to (for_each (kv_free manager_callbacks) (dict_keys (req_to_blocks g)) (g, s)) (\<lambda>_ (g', s').
     (\<forall>r. blocks_of r g' = []) \<and> length (blocks s') = length (blocks s) \<and> get_num_free_blocks s' = int (length (blocks s')) - 1)"
proof (rule runs_to_mono [OF free_all_ok [OF served_state [OF assms]]])
  fix u x assume "case x of (g', s') \<Rightarrow> serving (g', s') \<and>
    (\<forall>r. blocks_of r g' = (if r \<in> set (dict_keys (req_to_blocks g)) then [] else blocks_of r g)) \<and> length (blocks s') = length (blocks s)"
  then obtain g' s' where x: "x = (g', s')" and s': "engine_inv s'" "unpinned s'" "accounts (g', s')"
    and bo: "\<And>r. blocks_of r g' = (if r \<in> fst ` set (req_to_blocks g) then [] else blocks_of r g)" and len: "length (blocks s') = length (blocks s)"
    by (cases x) (auto simp: serving_def)
  have none: "\<forall>r. blocks_of r g' = []" unfolding bo by (force simp: blocks_of_def split: option.splits dest!: map_of_SomeD)
  have ref: "ref_at s' b = 0" if "0 < b" "b < length (blocks s')" for b
    using accountsD(6) [OF s'(3) that] no_holders [OF accountsD(2) [OF s'(3)] none] by simp
  have "{b. 0 < b \<and> b < length (blocks s') \<and> ref_at s' b = 0} = {1..<length (blocks s')}" using ref by auto
  then have "get_num_free_blocks s' = int (length (blocks s')) - 1"
    using unified.free_count [of s' s'] unified.pool_nonempty [of s' s'] s' by (simp add: reachable.start of_nat_diff Suc_leI)
  with none len show "case x of (g', s') \<Rightarrow> (\<forall>r. blocks_of r g' = []) \<and> length (blocks s') = length (blocks s) \<and>
    get_num_free_blocks s' = int (length (blocks s')) - 1" by (simp add: x)
qed

theorem no_block_leaks_witness:
  "runs_to (for_each (kv_free manager_callbacks) [''a''] demo_served) (\<lambda>_ (g, s). get_num_free_blocks s = 7)"
proof -
  have "dict_keys (req_to_blocks (fst demo_served)) = [''a'']" "length (blocks (snd demo_served)) = 8" by code_simp+
  with no_block_leaks [OF demo_started read_rows_by_id demo_serves] show ?thesis by (auto elim!: runs_to_mono)
qed

section \<open>Scheduling\<close>

text \<open>C11. In any state the engine reaches while serving by the calls of \<open>serve_step\<close>, a scheduler call that respects the scheduler's
  conventions never raises. It either gives the request slots for every token it
  needs, the cached prefix inside the attention window first, or returns None, and that only when the free blocks are fewer than
  the blocks still missing plus the hits that would have to be revived. Other requests keep their blocks, the accounts stay balanced, and
  every effect on the pool is a sequence of steps of the pool's machine.\<close>

theorem slots_granted_or_no_room:
  assumes "started k s0 x0" "reads_rows_by_id kern" "serves kern x0 (g, s)"
    and "schedulable r num_new num_new_computed c look ext (g, s)"
  shows "runs_to (allocate_slots manager_callbacks sha r num_new num_new_computed c look ext delay (g, s)) (\<lambda>(r', res) x'.
     slots_result r (slots_needed r num_new num_new_computed look ext g) (hits_of c)
       (blocks_skipped (num_computed_tokens r + num_new_computed + ext) g) (g, s) res x' \<and>
     accounts x' \<and> reachable s (snd x'))"
proof -
  have s: "engine_inv s \<and> unpinned s \<and> reachable s s" "accounts (g, s)"
    using served_state [OF assms(1-3)] by (simp_all add: serving_def reachable.start)
  show ?thesis by (rule runs_to_mono [OF unified.allocate_slots_ok [OF s assms(4)]]) auto
qed

lemma slots_enough:
  "slots_result r need bs K x res x' \<Longrightarrow> res = None \<or> need \<le> kv_block_size (fst x) * int (length (blocks_of (request_id r) (fst x')))"
  by (cases x; cases x'; cases res) (simp_all add: slots_result_def Let_def)

theorem slots_granted_or_no_room_witness:
  "runs_to (allocate_slots manager_callbacks id (demo_prompt ''a'' 49 40) 9 0 None 0 0 False demo_served) (\<lambda>(r', res) x'.
     accounts x' \<and> reachable (snd demo_served) (snd x') \<and> (res = None \<or> 49 \<le> 16 * int (length (blocks_of ''a'' (fst x')))))"
proof -
  have "schedulable (demo_prompt ''a'' 49 40) 9 0 None 0 0 (fst demo_served, snd demo_served)"
    "slots_needed (demo_prompt ''a'' 49 40) 9 0 0 0 (fst demo_served) = 49" "kv_block_size (fst demo_served) = 16"
    "request_id (demo_prompt ''a'' 49 40) = ''a''" by code_simp+
  note f = this
  show ?thesis
    by (rule runs_to_mono [OF slots_granted_or_no_room [OF demo_started read_rows_by_id demo_serves f(1), of id False, unfolded prod.collapse]])
      (use f in \<open>auto dest!: slots_enough\<close>)
qed

text \<open>Dropping the last block for eagle keeps a valid prefix.\<close>

lemma drop_last_take: "\<exists>m. drop_last eagle bs = take m bs \<and> length (drop_last eagle bs) \<le> length bs"
  by (auto simp: drop_last_def butlast_conv_take intro: exI [of _ "length bs"])

lemma holds_from_take: "holds_from gid s hs lo bs \<Longrightarrow> holds_from gid s hs lo (take m bs)"
  by (simp add: holds_from_def)

text \<open>C12. The prefix handed to a new request is the longest one that can be reused: for full, sliding-window and chunked local
  attention, every block the attention still reads is one cached under the request's hash at that position, the blocks before them are
  null blocks, and no longer prefix has all the blocks it needs in the cache. With eagle the last block of that prefix
  is recomputed.\<close>

theorem longest_prefix_reused:
  assumes "search_ok r (g, s)"
  shows "\<exists>bs. get_computed_blocks r (g, s) =
       Inr (create_kv_cache_blocks (drop_last (use_eagle g) bs), int (length (drop_last (use_eagle g) bs)) * kv_block_size g) \<and>
     holds_from 0 s (block_hashes r) (needed_from (kv_kind g) (kv_block_size g) (use_eagle g) (num_tokens r - 1) (length bs)) bs \<and>
     reusable (kv_kind g) (kv_block_size g) (use_eagle g) (num_tokens r - 1) s (block_hashes r) (length bs) \<and>
     (\<forall>L. length bs < L \<longrightarrow> \<not> reusable (kv_kind g) (kv_block_size g) (use_eagle g) (num_tokens r - 1) s (block_hashes r) L)"
  using get_computed_blocks_longest [OF assms] .

lemma demo_search: "search_ok (demo_prompt ''b'' 40 0) (fst demo_served, snd demo_served)"
proof -
  have "pool_inv {} (snd demo_served)"
    using served_state [OF demo_started read_rows_by_id demo_serves] manager_syncedD(1) by (auto simp: serving_def engine_inv_def)
  moreover have "config_ok (fst demo_served) (snd demo_served)" "kv_caching (fst demo_served)" "kv_kind (fst demo_served) = FullAttention"
    "\<not> skip_reading_prefix_cache (demo_prompt ''b'' 40 0)" "num_tokens (demo_prompt ''b'' 40 0) = 40" "kv_block_size (fst demo_served) = 16"
    "length (block_hashes (demo_prompt ''b'' 40 0)) = 2" by code_simp+
  ultimately show ?thesis unfolding search_ok_def Let_def prod.case by simp
qed

theorem longest_prefix_reused_witness:
  "get_computed_blocks (demo_prompt ''b'' 40 0) demo_served = Inr (Some [1, 4], 32) \<and>
   reusable FullAttention 16 False 39 (snd demo_served) [[1], [2]] 2 \<and> \<not> reusable FullAttention 16 False 39 (snd demo_served) [[1], [2]] 3"
proof -
  have c: "get_computed_blocks (demo_prompt ''b'' 40 0) demo_served = Inr (Some [1, 4], 32)" by code_simp
  have f: "use_eagle (fst demo_served) = False" "kv_kind (fst demo_served) = FullAttention" "num_tokens (demo_prompt ''b'' 40 0) = 40"
    "kv_block_size (fst demo_served) = 16" "block_hashes (demo_prompt ''b'' 40 0) = [[1], [2]]" by code_simp+
  have "drop_last False bs = bs" for bs by (simp add: drop_last_def)
  moreover have "create_kv_cache_blocks bs = Some [1, 4] \<longleftrightarrow> bs = [1, 4]" for bs by (auto simp: create_kv_cache_blocks_def)
  ultimately show ?thesis using c longest_prefix_reused [OF demo_search] unfolding f by auto
qed

text \<open>What the search returns is what \<open>allocate_slots\<close> expects of a new request.\<close>

lemma search_schedulable:
  assumes ok: "search_ok r (g, s)" and h: "distinct (block_hashes r)" "num_tokens r div kv_block_size g \<le> int (length (block_hashes r))"
    and new: "request_id r \<notin> fst ` set (num_cached_block g)" "blocks_of (request_id r) g = []" "num_computed_tokens r = 0"
    and n: "0 < num_new" "0 \<le> look" "num_tokens r \<le> max_model_len g"
  shows "\<exists>c m. get_computed_blocks r (g, s) = Inr (c, m) \<and> schedulable r num_new m c look 0 (g, s)"
proof -
  let ?bsz = "kv_block_size g" and ?hs = "block_hashes r"
  obtain bs where bs: "get_computed_blocks r (g, s) =
       Inr (create_kv_cache_blocks (drop_last (use_eagle g) bs), int (length (drop_last (use_eagle g) bs)) * ?bsz)"
     "holds_from 0 s ?hs (needed_from (kv_kind g) ?bsz (use_eagle g) (num_tokens r - 1) (length bs)) bs"
     "reusable (kv_kind g) ?bsz (use_eagle g) (num_tokens r - 1) s ?hs (length bs)"
    using get_computed_blocks_longest [OF ok] by blast
  define hits where "hits = drop_last (use_eagle g) bs"
  obtain m where m: "hits = take m bs" "length hits \<le> length bs" using drop_last_take [of "use_eagle g" bs] unfolding hits_def by blast
  have q: "0 < ?bsz" "0 < num_tokens r" "(num_tokens r - 1) div ?bsz \<le> int (length ?hs)" "kv_caching g" "0 < length (blocks s)"
    using ok by (auto simp: search_ok_def config_ok_def pool_inv_def ids_ok_def)
  have len: "int (length bs) \<le> (num_tokens r - 1) div ?bsz" using bs(3) q(1,2) by (simp add: reusable_def le_nat_iff pos_imp_zdiv_nonneg_iff)
  have "valid_hits hits s"
    unfolding m(1) by (rule holds_from_valid [OF holds_from_take [OF bs(2)] _ h(1) q(5)]) (use len q(3) in simp)
  moreover have "hits_of (create_kv_cache_blocks hits) = hits" by (simp add: hits_of_def create_kv_cache_blocks_def)
  moreover have "int (length hits) * ?bsz \<le> (num_tokens r - 1) div ?bsz * ?bsz" using m(2) len q(1) by (intro mult_right_mono) linarith+
  then have "int (length hits) * ?bsz \<le> num_tokens r - 1" using floor_le [OF q(1), of "num_tokens r - 1"] by linarith
  ultimately have "schedulable r num_new (int (length hits) * ?bsz) (create_kv_cache_blocks hits) look 0 (g, s)"
    using h(2) new n q(1,4) by (simp add: schedulable_def Let_def mult.commute)
  with bs(1) show ?thesis unfolding hits_def by blast
qed

text \<open>Admission of a new request: the search for a cached prefix followed by the allocation with what it found never raises in any
  state the engine reaches, when the request's block hashes are pairwise different; either the request holds slots for its tokens, with the
  reused prefix in front, or there was no room.\<close>

theorem new_request_admitted:
  assumes "started k s0 x0" "reads_rows_by_id kern" "serves kern x0 (g, s)"
    and "search_ok r (g, s)" "distinct (block_hashes r)" "num_tokens r div kv_block_size g \<le> int (length (block_hashes r))"
    and "request_id r \<notin> fst ` set (num_cached_block g)" "blocks_of (request_id r) g = []" "num_computed_tokens r = 0"
    and "0 < num_new" "0 \<le> look" "num_tokens r \<le> max_model_len g"
  shows "\<exists>c m. get_computed_blocks r (g, s) = Inr (c, m) \<and>
     runs_to (allocate_slots manager_callbacks sha r num_new m c look 0 delay (g, s)) (\<lambda>(r', res) x'.
       slots_result r (slots_needed r num_new m look 0 g) (hits_of c) (blocks_skipped m g) (g, s) res x' \<and> accounts x')"
proof -
  have s: "engine_inv s \<and> unpinned s \<and> reachable s s" "accounts (g, s)"
    using served_state [OF assms(1-3)] by (simp_all add: serving_def reachable.start)
  obtain c m where c: "get_computed_blocks r (g, s) = Inr (c, m)" "schedulable r num_new m c look 0 (g, s)"
    using search_schedulable [OF assms(4-)] by blast
  have "num_computed_tokens r + m + 0 = m" using assms(9) by simp
  from unified.allocate_slots_ok [OF s c(2), of sha delay, unfolded this] c(1) show ?thesis
    by (intro exI [of _ c] exI [of _ m]) (auto elim!: runs_to_mono)
qed

theorem new_request_admitted_witness:
  "runs_to (allocate_slots manager_callbacks id (demo_prompt ''b'' 40 0) 8 32 (Some [1, 4]) 0 0 False demo_served) (\<lambda>(r', res) x'.
     accounts x' \<and> (res = None \<or> 40 \<le> 16 * int (length (blocks_of ''b'' (fst x')))))"
proof -
  have c: "get_computed_blocks (demo_prompt ''b'' 40 0) demo_served = Inr (Some [1, 4], 32)" by code_simp
  have f: "distinct (block_hashes (demo_prompt ''b'' 40 0))"
    "num_tokens (demo_prompt ''b'' 40 0) div kv_block_size (fst demo_served) \<le> int (length (block_hashes (demo_prompt ''b'' 40 0)))"
    "request_id (demo_prompt ''b'' 40 0) \<notin> fst ` set (num_cached_block (fst demo_served))"
    "blocks_of (request_id (demo_prompt ''b'' 40 0)) (fst demo_served) = []" "num_computed_tokens (demo_prompt ''b'' 40 0) = 0"
    "num_tokens (demo_prompt ''b'' 40 0) \<le> max_model_len (fst demo_served)" by code_simp+
  have need: "slots_needed (demo_prompt ''b'' 40 0) 8 32 0 0 (fst demo_served) = 40" "kv_block_size (fst demo_served) = 16"
    "request_id (demo_prompt ''b'' 40 0) = ''b''" by code_simp+
  have "runs_to (allocate_slots manager_callbacks id (demo_prompt ''b'' 40 0) 8 32 (Some [1, 4]) 0 0 False demo_served) (\<lambda>(r', res) x'.
      slots_result (demo_prompt ''b'' 40 0) 40 (hits_of (Some [1, 4])) (blocks_skipped 32 (fst demo_served)) demo_served res x' \<and> accounts x')"
    using new_request_admitted [OF demo_started read_rows_by_id demo_serves demo_search f(1-5) _ _ f(6), of 8 0 id False] c need(1) by auto
  then show ?thesis by (rule runs_to_mono) (use need in \<open>auto dest!: slots_enough\<close>)
qed

end
