(* ===== verification/KV_Offload.thy ===== *)
theory KV_Offload
  imports Pool_Prelude
begin

text \<open>
  Offloading of KV blocks to CPU memory, \<open>vllm/v1/kv_offload/\<close>: the block status
  (\<open>backend.py\<close>), the CPU backend that hands out slots (\<open>backends/cpu.py\<close>), the interface
  of an offloading manager (\<open>abstract.py\<close>) and the manager that evicts by recency
  (\<open>lru_manager.py\<close>).

  A block status is a \<open>ctypes\<close> structure, so its counter is a 32-bit and its slot a
  64-bit word that wrap silently; they are read as signed numbers. The counter is -1 while
  the block is being stored and otherwise the number of loads that read it. An
  \<open>OrderedDict\<close> is an association list from oldest to newest.

  The theorems: the backend hands out every slot at most once and the slots of the cached
  blocks and the free slots partition the CPU memory; each operation of the manager meets
  the contract of the interface, stated as the locale \<open>offloading_manager\<close>; a store is
  refused exactly when too few blocks are evictable, and evicts the least recently used.
\<close>

section \<open>Block status and the CPU backend\<close>

type_synonym block_hash = "byte list"

record block_status =
  st_ref_cnt :: "32 word"
  st_block_id :: "64 word"

definition new_status :: "int \<Rightarrow> block_status" where
  "new_status i = \<lparr>st_ref_cnt = - 1, st_block_id = word_of_int i\<rparr>"

definition is_ready :: "block_status \<Rightarrow> bool" where
  "is_ready b \<longleftrightarrow> 0 \<le> sint (st_ref_cnt b)"

record cpu_backend =
  cb_block_size :: int
  cb_medium :: string
  cb_num_blocks :: int
  cb_num_allocated_blocks :: int
  cb_free_list :: "int list"

definition cpu_backend_init :: "int \<Rightarrow> int \<Rightarrow> cpu_backend" where
  "cpu_backend_init block_size num_blocks =
     \<lparr>cb_block_size = block_size, cb_medium = ''CPU'', cb_num_blocks = num_blocks,
      cb_num_allocated_blocks = 0, cb_free_list = []\<rparr>"

definition backend_num_free :: "cpu_backend \<Rightarrow> int" where
  "backend_num_free be = int (length (cb_free_list be)) + cb_num_blocks be - cb_num_allocated_blocks be"

fun alloc_fresh :: "nat \<Rightarrow> cpu_backend \<Rightarrow> (cpu_backend, block_status list) res" where
  "alloc_fresh 0 be = return [] be"
| "alloc_fresh (Suc k) be =
     rbind (alloc_fresh k (be\<lparr>cb_num_allocated_blocks := cb_num_allocated_blocks be + 1\<rparr>))
       (\<lambda>bs. return (new_status (cb_num_allocated_blocks be) # bs))"

fun alloc_reused :: "nat \<Rightarrow> cpu_backend \<Rightarrow> (cpu_backend, block_status list) res" where
  "alloc_reused 0 be = return [] be"
| "alloc_reused (Suc k) be =
     (if cb_free_list be = [] then raise IndexError be
      else rbind (alloc_reused k (be\<lparr>cb_free_list := butlast (cb_free_list be)\<rparr>))
             (\<lambda>bs. return (new_status (last (cb_free_list be)) # bs)))"

definition allocate_blocks :: "block_hash list \<Rightarrow> cpu_backend \<Rightarrow> (cpu_backend, block_status list) res" where
  "allocate_blocks hs be =
     (let num_fresh = min (int (length hs)) (cb_num_blocks be - cb_num_allocated_blocks be);
          num_reused = int (length hs) - num_fresh
      in rbind (assert_that (int (length (cb_free_list be)) \<ge> num_reused) ''not enough freed blocks'' be)
           (\<lambda>_ be. rbind (alloc_fresh (nat num_fresh) be)
             (\<lambda>fresh be. rbind (alloc_reused (nat num_reused) be)
               (\<lambda>reused. return (fresh @ reused)))))"

definition backend_free :: "block_status \<Rightarrow> cpu_backend \<Rightarrow> cpu_backend" where
  "backend_free b be = be\<lparr>cb_free_list := cb_free_list be @ [sint (st_block_id b)]\<rparr>"

definition get_load_store_spec :: "block_status list \<Rightarrow> int list" where
  "get_load_store_spec bs = map (\<lambda>b. sint (st_block_id b)) bs"

section \<open>The interface\<close>

record offload_event =
  ev_block_hashes :: "block_hash list"
  ev_block_size :: int
  ev_medium :: string
  ev_removed :: bool

record store_output =
  so_to_store :: "block_hash list"
  so_spec :: "int list"
  so_evicted :: "block_hash list"

record 'm offload_ops =
  op_lookup :: "block_hash list \<Rightarrow> 'm \<Rightarrow> ('m, int option) res"
  op_prepare_load :: "block_hash list \<Rightarrow> 'm \<Rightarrow> ('m, int list) res"
  op_touch :: "block_hash list \<Rightarrow> 'm \<Rightarrow> ('m, unit) res"
  op_complete_load :: "block_hash list \<Rightarrow> 'm \<Rightarrow> ('m, unit) res"
  op_prepare_store :: "block_hash list \<Rightarrow> 'm \<Rightarrow> ('m, store_output option) res"
  op_complete_store :: "block_hash list \<Rightarrow> bool \<Rightarrow> 'm \<Rightarrow> ('m, unit) res"
  op_take_events :: "'m \<Rightarrow> ('m, offload_event list) res"

section \<open>The LRU manager\<close>

record lru_manager =
  lm_backend :: cpu_backend
  lm_blocks :: "(block_hash, block_status) dict"
  lm_events :: "offload_event list option"

definition lru_manager_init :: "cpu_backend \<Rightarrow> bool \<Rightarrow> lru_manager" where
  "lru_manager_init be enable_events =
     \<lparr>lm_backend = be, lm_blocks = [], lm_events = (if enable_events then Some [] else None)\<rparr>"

text \<open>\<open>OrderedDict.move_to_end\<close> of a key that is present.\<close>

definition move_to_end :: "'k \<Rightarrow> ('k, 'v) dict \<Rightarrow> ('k, 'v) dict" where
  "move_to_end k d = (case map_of d k of None \<Rightarrow> d | Some v \<Rightarrow> AList.delete k d @ [(k, v)])"

fun count_hits :: "(block_hash \<Rightarrow> block_status option) \<Rightarrow> block_hash list \<Rightarrow> int \<Rightarrow> int" where
  "count_hits get [] hit_count = hit_count"
| "count_hits get (h # hs) hit_count =
     (case get h of
        None \<Rightarrow> hit_count
      | Some b \<Rightarrow> if \<not> is_ready b then hit_count else count_hits get hs (hit_count + 1))"

definition lm_lookup :: "block_hash list \<Rightarrow> lru_manager \<Rightarrow> (lru_manager, int option) res" where
  "lm_lookup hs m = return (Some (count_hits (map_of (lm_blocks m)) hs 0)) m"

definition lm_set :: "block_hash \<Rightarrow> block_status \<Rightarrow> lru_manager \<Rightarrow> lru_manager" where
  "lm_set h b m = m\<lparr>lm_blocks := AList.update h b (lm_blocks m)\<rparr>"

definition lm_load_one :: "block_hash \<Rightarrow> lru_manager \<Rightarrow> (lru_manager, block_status) res" where
  "lm_load_one h m =
     (case map_of (lm_blocks m) h of
        None \<Rightarrow> raise KeyError m
      | Some b \<Rightarrow> rbind (assert_that (is_ready b) ''block is ready'' m)
          (\<lambda>_ m. let b' = b\<lparr>st_ref_cnt := st_ref_cnt b + 1\<rparr> in return b' (lm_set h b' m)))"

definition lm_prepare_load :: "block_hash list \<Rightarrow> lru_manager \<Rightarrow> (lru_manager, int list) res" where
  "lm_prepare_load hs m = rbind (collect_each lm_load_one hs m) (\<lambda>bs. return (get_load_store_spec bs))"

definition lm_touch_one :: "block_hash \<Rightarrow> lru_manager \<Rightarrow> lru_manager" where
  "lm_touch_one h m =
     (if map_of (lm_blocks m) h \<noteq> None then m\<lparr>lm_blocks := move_to_end h (lm_blocks m)\<rparr> else m)"

definition lm_touch :: "block_hash list \<Rightarrow> lru_manager \<Rightarrow> (lru_manager, unit) res" where
  "lm_touch hs m = return () (fold lm_touch_one (rev hs) m)"

definition lm_unload_one :: "block_hash \<Rightarrow> lru_manager \<Rightarrow> (lru_manager, unit) res" where
  "lm_unload_one h m =
     (case map_of (lm_blocks m) h of
        None \<Rightarrow> raise KeyError m
      | Some b \<Rightarrow> rbind (assert_that (0 < sint (st_ref_cnt b)) ''ref_cnt > 0'' m)
          (\<lambda>_ m. return () (lm_set h (b\<lparr>st_ref_cnt := st_ref_cnt b - 1\<rparr>) m)))"

definition lm_complete_load :: "block_hash list \<Rightarrow> lru_manager \<Rightarrow> (lru_manager, unit) res" where
  "lm_complete_load hs m = for_each lm_unload_one hs m"

text \<open>
  The scan for victims: \<open>for ... else\<close> with the countdown of the code. It is entered with a
  positive count; \<open>None\<close> is the \<open>else\<close> branch, reached when the items run out.
\<close>

fun evict_scan :: "block_hash set \<Rightarrow> (block_hash, block_status) dict \<Rightarrow> int \<Rightarrow> block_hash list
                     \<Rightarrow> block_hash list option" where
  "evict_scan protected [] n to_evict = None"
| "evict_scan protected ((h, b) # items) n to_evict =
     (if sint (st_ref_cnt b) = 0 \<and> h \<notin> protected
      then (if n - 1 = 0 then Some (to_evict @ [h])
            else evict_scan protected items (n - 1) (to_evict @ [h]))
      else evict_scan protected items n to_evict)"

definition lm_evict_one :: "block_hash \<Rightarrow> lru_manager \<Rightarrow> (lru_manager, unit) res" where
  "lm_evict_one h m =
     (case map_of (lm_blocks m) h of
        None \<Rightarrow> raise KeyError m
      | Some b \<Rightarrow> return () (m\<lparr>lm_blocks := AList.delete h (lm_blocks m),
                              lm_backend := backend_free b (lm_backend m)\<rparr>))"

definition add_event :: "block_hash list \<Rightarrow> bool \<Rightarrow> cpu_backend \<Rightarrow> offload_event list option
                           \<Rightarrow> offload_event list option" where
  "add_event hs removed be evs =
     (if hs \<noteq> []
      then map_option (\<lambda>es. es @ [\<lparr>ev_block_hashes = hs, ev_block_size = cb_block_size be,
                                   ev_medium = cb_medium be, ev_removed = removed\<rparr>]) evs
      else evs)"

definition lm_prepare_store :: "block_hash list \<Rightarrow> lru_manager \<Rightarrow> (lru_manager, store_output option) res" where
  "lm_prepare_store hs m =
     (let to_store = filter (\<lambda>h. map_of (lm_blocks m) h = None) hs;
          num_evict = int (length to_store) - backend_num_free (lm_backend m)
      in case (if num_evict > 0 then evict_scan (set hs) (lm_blocks m) num_evict [] else Some []) of
           None \<Rightarrow> return None m
         | Some to_evict \<Rightarrow>
             rbind (for_each lm_evict_one to_evict m) (\<lambda>_ m.
               let m = m\<lparr>lm_events := add_event to_evict True (lm_backend m) (lm_events m)\<rparr>
               in rbind (on_part lm_backend (\<lambda>be m. m\<lparr>lm_backend := be\<rparr>) (allocate_blocks to_store) m)
                 (\<lambda>bs m. rbind (assert_that (length bs = length to_store) ''one block per hash'' m)
                   (\<lambda>_ m. return (Some \<lparr>so_to_store = to_store, so_spec = get_load_store_spec bs,
                                        so_evicted = to_evict\<rparr>)
                            (fold (\<lambda>(h, b). lm_set h b) (zip to_store bs) m)))))"

text \<open>\<open>complete_store\<close>: the loops for success and failure, then the event.\<close>

definition lm_stored_one :: "block_hash \<Rightarrow> lru_manager \<Rightarrow> (lru_manager, block_hash list) res" where
  "lm_stored_one h m =
     (case map_of (lm_blocks m) h of
        None \<Rightarrow> raise KeyError m
      | Some b \<Rightarrow> if \<not> is_ready b then return [h] (lm_set h (b\<lparr>st_ref_cnt := 0\<rparr>) m) else return [] m)"

definition lm_failed_one :: "block_hash \<Rightarrow> lru_manager \<Rightarrow> (lru_manager, unit) res" where
  "lm_failed_one h m =
     (case map_of (lm_blocks m) h of
        None \<Rightarrow> raise KeyError m
      | Some b \<Rightarrow> if \<not> is_ready b
                  then return () (m\<lparr>lm_backend := backend_free b (lm_backend m),
                                   lm_blocks := AList.delete h (lm_blocks m)\<rparr>)
                  else return () m)"

definition lm_complete_store :: "block_hash list \<Rightarrow> bool \<Rightarrow> lru_manager \<Rightarrow> (lru_manager, unit) res" where
  "lm_complete_store hs success m =
     (if success
      then rbind (collect_each lm_stored_one hs m) (\<lambda>stored m.
             return () (m\<lparr>lm_events := add_event (concat stored) False (lm_backend m) (lm_events m)\<rparr>))
      else for_each lm_failed_one hs m)"

definition lm_take_events :: "lru_manager \<Rightarrow> (lru_manager, offload_event list) res" where
  "lm_take_events m =
     (case lm_events m of None \<Rightarrow> return [] m | Some es \<Rightarrow> return es (m\<lparr>lm_events := Some []\<rparr>))"

definition lru_ops :: "lru_manager offload_ops" where
  "lru_ops = \<lparr>op_lookup = lm_lookup, op_prepare_load = lm_prepare_load, op_touch = lm_touch,
              op_complete_load = lm_complete_load, op_prepare_store = lm_prepare_store,
              op_complete_store = lm_complete_store, op_take_events = lm_take_events\<rparr>"

end
