(* ===== verification/KV_Offload_ARC.thy ===== *)
theory KV_Offload_ARC
  imports Complex_Main KV_Offload
begin

text \<open>
  The ARC manager, \<open>vllm/v1/kv_offload/arc_manager.py\<close>: recent blocks in \<open>t1\<close>, blocks
  touched again in \<open>t2\<close>, the ghost lists \<open>b1\<close> and \<open>b2\<close> of hashes evicted from them, and
  a target size for \<open>t1\<close> that adapts to hits in the ghost lists.

  The target is a Python float. It is modelled as the rational number the float denotes;
  \<open>float_round\<close> rounds a result to 53 significant bits, ties to even, as IEEE 754 does.
  The values stay between 0 and the capacity, so neither overflow nor underflow occurs.
\<close>

section \<open>Floats\<close>

fun bit_length :: "nat \<Rightarrow> nat" where
  "bit_length n = (if n = 0 then 0 else Suc (bit_length (n div 2)))"

declare bit_length.simps [simp del]

definition binary_exponent :: "rat \<Rightarrow> int" where
  "binary_exponent x =
     (let (n, d) = quotient_of x; e = int (bit_length (nat n)) - int (bit_length (nat d))
      in if x < 2 powi e then e - 1 else e)"

definition round_half_even :: "rat \<Rightarrow> int" where
  "round_half_even x =
     (let k = \<lfloor>x\<rfloor>; r = x - of_int k in if r < 1 / 2 \<or> (r = 1 / 2 \<and> even k) then k else k + 1)"

definition float_round :: "rat \<Rightarrow> rat" where
  "float_round x =
     (if x = 0 then 0
      else let ulp = 2 powi (binary_exponent \<bar>x\<bar> - 52)
           in sgn x * of_int (round_half_even (\<bar>x\<bar> / ulp)) * ulp)"

text \<open>\<open>int(x)\<close> truncates.\<close>

definition float_to_int :: "rat \<Rightarrow> int" where
  "float_to_int x = (if 0 \<le> x then \<lfloor>x\<rfloor> else \<lceil>x\<rceil>)"

section \<open>The manager\<close>

record arc_manager =
  am_backend :: cpu_backend
  am_target_t1_size :: rat
  am_t1 :: "(block_hash, block_status) dict"
  am_t2 :: "(block_hash, block_status) dict"
  am_b1 :: "(block_hash, unit) dict"
  am_b2 :: "(block_hash, unit) dict"
  am_events :: "offload_event list option"
  am_cache_capacity :: int

definition arc_manager_init :: "cpu_backend \<Rightarrow> bool \<Rightarrow> arc_manager" where
  "arc_manager_init be enable_events =
     \<lparr>am_backend = be, am_target_t1_size = 0, am_t1 = [], am_t2 = [], am_b1 = [], am_b2 = [],
      am_events = (if enable_events then Some [] else None), am_cache_capacity = backend_num_free be\<rparr>"

text \<open>\<open>self.t1.get(h) or self.t2.get(h)\<close>, and writing to the object it returned.\<close>

definition arc_get :: "arc_manager \<Rightarrow> block_hash \<Rightarrow> block_status option" where
  "arc_get m h = (case map_of (am_t1 m) h of Some b \<Rightarrow> Some b | None \<Rightarrow> map_of (am_t2 m) h)"

definition arc_set :: "block_hash \<Rightarrow> block_status \<Rightarrow> arc_manager \<Rightarrow> arc_manager" where
  "arc_set h b m =
     (if map_of (am_t1 m) h \<noteq> None then m\<lparr>am_t1 := AList.update h b (am_t1 m)\<rparr>
      else m\<lparr>am_t2 := AList.update h b (am_t2 m)\<rparr>)"

definition arc_lookup :: "block_hash list \<Rightarrow> arc_manager \<Rightarrow> (arc_manager, int option) res" where
  "arc_lookup hs m = return (Some (count_hits (arc_get m) hs 0)) m"

definition arc_load_one :: "block_hash \<Rightarrow> arc_manager \<Rightarrow> (arc_manager, block_status) res" where
  "arc_load_one h m =
     (case arc_get m h of
        None \<Rightarrow> raise (AssertionError ''not found in cache'') m
      | Some b \<Rightarrow> rbind (assert_that (is_ready b) ''not ready for reading'' m)
          (\<lambda>_ m. let b' = b\<lparr>st_ref_cnt := st_ref_cnt b + 1\<rparr> in return b' (arc_set h b' m)))"

definition arc_prepare_load :: "block_hash list \<Rightarrow> arc_manager \<Rightarrow> (arc_manager, int list) res" where
  "arc_prepare_load hs m = rbind (collect_each arc_load_one hs m) (\<lambda>bs. return (get_load_store_spec bs))"

definition arc_touch_one :: "block_hash \<Rightarrow> arc_manager \<Rightarrow> arc_manager" where
  "arc_touch_one h m =
     (case map_of (am_t1 m) h of
        Some b \<Rightarrow>
          let t1 = AList.delete h (am_t1 m)
          in if \<not> is_ready b then m\<lparr>am_t1 := AList.update h b t1\<rparr>
             else m\<lparr>am_t1 := t1, am_t2 := AList.update h b (am_t2 m)\<rparr>
      | None \<Rightarrow>
          if map_of (am_t2 m) h \<noteq> None then m\<lparr>am_t2 := move_to_end h (am_t2 m)\<rparr>
          else if map_of (am_b1 m) h \<noteq> None then
            let delta = max 1 (float_round (of_nat (length (am_b2 m)) / of_nat (length (am_b1 m))))
            in m\<lparr>am_target_t1_size := min (float_round (am_target_t1_size m + delta)) (of_int (am_cache_capacity m)),
                 am_b1 := move_to_end h (am_b1 m)\<rparr>
          else if map_of (am_b2 m) h \<noteq> None then
            let delta = max 1 (float_round (of_nat (length (am_b1 m)) / of_nat (length (am_b2 m))))
            in m\<lparr>am_target_t1_size := max (float_round (am_target_t1_size m - delta)) 0,
                 am_b2 := move_to_end h (am_b2 m)\<rparr>
          else m)"

definition arc_touch :: "block_hash list \<Rightarrow> arc_manager \<Rightarrow> (arc_manager, unit) res" where
  "arc_touch hs m = return () (fold arc_touch_one (rev hs) m)"

definition arc_unload_one :: "block_hash \<Rightarrow> arc_manager \<Rightarrow> (arc_manager, unit) res" where
  "arc_unload_one h m =
     (case arc_get m h of
        None \<Rightarrow> raise (AssertionError ''not found'') m
      | Some b \<Rightarrow> rbind (assert_that (0 < sint (st_ref_cnt b)) ''ref_cnt is already 0'' m)
          (\<lambda>_ m. return () (arc_set h (b\<lparr>st_ref_cnt := st_ref_cnt b - 1\<rparr>) m)))"

definition arc_complete_load :: "block_hash list \<Rightarrow> arc_manager \<Rightarrow> (arc_manager, unit) res" where
  "arc_complete_load hs m = for_each arc_unload_one hs m"

text \<open>The oldest evictable entry of a table.\<close>

definition oldest_idle :: "block_hash set \<Rightarrow> (block_hash, block_status) dict \<Rightarrow> (block_hash \<times> block_status) option" where
  "oldest_idle protected t = find (\<lambda>(h, b). sint (st_ref_cnt b) = 0 \<and> h \<notin> protected) t"

text \<open>
  The \<open>while\<close> loop over \<open>num_blocks_to_evict\<close>, with the hashes evicted; \<open>None\<close> is the
  early \<open>return None\<close>, which leaves what was already evicted evicted.
\<close>

fun arc_evict :: "nat \<Rightarrow> block_hash set \<Rightarrow> block_hash list \<Rightarrow> arc_manager \<Rightarrow> block_hash list option \<times> arc_manager" where
  "arc_evict 0 protected to_evict m = (Some to_evict, m)"
| "arc_evict (Suc n) protected to_evict m =
     (case (if int (length (am_t1 m)) \<ge> float_to_int (am_target_t1_size m)
            then oldest_idle protected (am_t1 m) else None) of
        Some (h, b) \<Rightarrow>
          arc_evict n protected (to_evict @ [h])
            (m\<lparr>am_t1 := AList.delete h (am_t1 m), am_b1 := AList.update h () (am_b1 m),
               am_backend := backend_free b (am_backend m)\<rparr>)
      | None \<Rightarrow>
          (case oldest_idle protected (am_t2 m) of
             None \<Rightarrow> (None, m)
           | Some (h, b) \<Rightarrow>
               arc_evict n protected (to_evict @ [h])
                 (m\<lparr>am_t2 := AList.delete h (am_t2 m), am_b2 := AList.update h () (am_b2 m),
                    am_backend := backend_free b (am_backend m)\<rparr>)))"

definition trim_ghosts :: "arc_manager \<Rightarrow> arc_manager" where
  "trim_ghosts m =
     m\<lparr>am_b1 := drop (nat (int (length (am_b1 m)) - am_cache_capacity m)) (am_b1 m),
       am_b2 := drop (nat (int (length (am_b2 m)) - am_cache_capacity m)) (am_b2 m)\<rparr>"

definition arc_insert :: "block_hash \<Rightarrow> block_status \<Rightarrow> arc_manager \<Rightarrow> arc_manager" where
  "arc_insert h b m =
     m\<lparr>am_t1 := AList.update h b (am_t1 m), am_b1 := AList.delete h (am_b1 m), am_b2 := AList.delete h (am_b2 m)\<rparr>"

definition arc_prepare_store :: "block_hash list \<Rightarrow> arc_manager \<Rightarrow> (arc_manager, store_output option) res" where
  "arc_prepare_store hs m =
     (let to_store = filter (\<lambda>h. map_of (am_t1 m) h = None \<and> map_of (am_t2 m) h = None) hs
      in if to_store = []
         then return (Some \<lparr>so_to_store = [], so_spec = get_load_store_spec [], so_evicted = []\<rparr>) m
         else
           (case arc_evict (nat (int (length to_store) - backend_num_free (am_backend m))) (set hs) [] m of
              (None, m) \<Rightarrow> return None m
            | (Some to_evict, m) \<Rightarrow>
                let m = trim_ghosts m;
                    m = m\<lparr>am_events := add_event to_evict True (am_backend m) (am_events m)\<rparr>
                in rbind (on_part am_backend (\<lambda>be m. m\<lparr>am_backend := be\<rparr>) (allocate_blocks to_store) m)
                  (\<lambda>bs m. rbind (assert_that (length bs = length to_store) ''unexpected number of blocks'' m)
                    (\<lambda>_ m. return (Some \<lparr>so_to_store = to_store, so_spec = get_load_store_spec bs,
                                         so_evicted = to_evict\<rparr>)
                             (fold (\<lambda>(h, b). arc_insert h b) (zip to_store bs) m)))))"

definition arc_stored_one :: "block_hash \<Rightarrow> arc_manager \<Rightarrow> (arc_manager, block_hash list) res" where
  "arc_stored_one h m =
     (case arc_get m h of
        None \<Rightarrow> return [] m
      | Some b \<Rightarrow> if \<not> is_ready b then return [h] (arc_set h (b\<lparr>st_ref_cnt := 0\<rparr>) m) else return [] m)"

definition arc_failed_one :: "block_hash \<Rightarrow> arc_manager \<Rightarrow> (arc_manager, unit) res" where
  "arc_failed_one h m =
     (let (popped, m) =
        (case map_of (am_t1 m) h of
           Some b \<Rightarrow> (Some b, m\<lparr>am_t1 := AList.delete h (am_t1 m)\<rparr>)
         | None \<Rightarrow>
             (case map_of (am_t2 m) h of
                Some b \<Rightarrow> (Some b, m\<lparr>am_t2 := AList.delete h (am_t2 m)\<rparr>)
              | None \<Rightarrow> (None, m)))
      in case popped of
           None \<Rightarrow> return () m
         | Some b \<Rightarrow> if \<not> is_ready b then return () (m\<lparr>am_backend := backend_free b (am_backend m)\<rparr>)
                     else return () m)"

definition arc_complete_store :: "block_hash list \<Rightarrow> bool \<Rightarrow> arc_manager \<Rightarrow> (arc_manager, unit) res" where
  "arc_complete_store hs success m =
     (if success
      then rbind (collect_each arc_stored_one hs m) (\<lambda>stored m.
             return () (m\<lparr>am_events := add_event (concat stored) False (am_backend m) (am_events m)\<rparr>))
      else for_each arc_failed_one hs m)"

definition arc_take_events :: "arc_manager \<Rightarrow> (arc_manager, offload_event list) res" where
  "arc_take_events m =
     (case am_events m of None \<Rightarrow> return [] m | Some es \<Rightarrow> return es (m\<lparr>am_events := Some []\<rparr>))"

definition arc_ops :: "arc_manager offload_ops" where
  "arc_ops = \<lparr>op_lookup = arc_lookup, op_prepare_load = arc_prepare_load, op_touch = arc_touch,
              op_complete_load = arc_complete_load, op_prepare_store = arc_prepare_store,
              op_complete_store = arc_complete_store, op_take_events = arc_take_events\<rparr>"

end
