(* ===== verification/Offload_Contract.thy ===== *)
theory Offload_Contract
  imports KV_Offload "HOL-Library.Multiset"
begin

text \<open>
  The contract of an offloading manager (\<open>vllm/v1/kv_offload/abstract.py\<close>) as the locale
  \<open>offloading_manager\<close>, and what a client that keeps to it gets.

  A manager is seen through the map from hashes to block states and its backend. The slots
  of the cached blocks are a bijection onto the slots that are not free, so no slot has two
  blocks and none is lost. \<open>transfer_step\<close> is the client: loads and stores in flight, with
  workers that write the CPU memory at any moment in between. The lemma \<open>loads_read_data\<close>
  says that a load reads exactly what was stored under its hashes, whatever is evicted and
  stored meanwhile; it is proved once and holds for every manager that meets the contract.
\<close>

section \<open>Slots\<close>

type_synonym view = "block_hash \<Rightarrow> block_status option"

definition slot :: "block_status \<Rightarrow> int" where
  "slot b = sint (st_block_id b)"

definition refs :: "block_status \<Rightarrow> int" where
  "refs b = sint (st_ref_cnt b)"

definition free_slots :: "cpu_backend \<Rightarrow> int set" where
  "free_slots be = set (cb_free_list be) \<union> {cb_num_allocated_blocks be..<cb_num_blocks be}"

definition backend_wf :: "cpu_backend \<Rightarrow> bool" where
  "backend_wf be \<longleftrightarrow>
     0 \<le> cb_num_allocated_blocks be \<and> cb_num_allocated_blocks be \<le> cb_num_blocks be \<and>
     cb_num_blocks be \<le> 2 ^ 63 \<and> distinct (cb_free_list be) \<and>
     set (cb_free_list be) \<subseteq> {0..<cb_num_allocated_blocks be}"

definition used_slots :: "cpu_backend \<Rightarrow> int set" where
  "used_slots be = {0..<cb_num_blocks be} - free_slots be"

definition owns :: "cpu_backend \<Rightarrow> view \<Rightarrow> bool" where
  "owns be v \<longleftrightarrow> backend_wf be \<and> finite (dom v) \<and> bij_betw (\<lambda>h. slot (the (v h))) (dom v) (used_slots be)"

definition ready :: "view \<Rightarrow> block_hash \<Rightarrow> bool" where
  "ready v h \<longleftrightarrow> (\<exists>b. v h = Some b \<and> 0 \<le> refs b)"

definition evictable :: "view \<Rightarrow> block_hash set" where
  "evictable v = {h. \<exists>b. v h = Some b \<and> refs b = 0}"

definition add_refs :: "int \<Rightarrow> block_status \<Rightarrow> block_status" where
  "add_refs n b = b\<lparr>st_ref_cnt := st_ref_cnt b + of_int n\<rparr>"

definition mark_ready :: "block_status \<Rightarrow> block_status" where
  "mark_ready b = (if is_ready b then b else b\<lparr>st_ref_cnt := 0\<rparr>)"

text \<open>What \<open>prepare_store\<close> promises, on both outcomes.\<close>

definition store_contract :: "cpu_backend \<Rightarrow> view \<Rightarrow> block_hash list \<Rightarrow> store_output option \<Rightarrow> view \<Rightarrow> bool" where
  "store_contract be v hs res v' \<longleftrightarrow>
     (case res of
        None \<Rightarrow> (\<exists>E. E \<subseteq> evictable v - set hs \<and> v' = v |` (- E))
      | Some out \<Rightarrow>
          so_to_store out = filter (\<lambda>h. v h = None) hs \<and>
          set (so_evicted out) \<subseteq> evictable v - set hs \<and> distinct (so_evicted out) \<and>
          int (length (so_evicted out)) = max 0 (int (length (so_to_store out)) - backend_num_free be) \<and>
          (\<exists>bs. length bs = length (so_to_store out) \<and> (\<forall>b\<in>set bs. refs b = - 1) \<and>
                so_spec out = map slot bs \<and>
                v' = (v |` (- set (so_evicted out))) ++ map_of (zip (so_to_store out) bs)))"

lemma is_ready_refs: "is_ready b \<longleftrightarrow> 0 \<le> refs b"
  by (simp add: is_ready_def refs_def)

lemma status_parts [simp]:
  "slot (b\<lparr>st_ref_cnt := r\<rparr>) = slot b" "refs (b\<lparr>st_ref_cnt := r\<rparr>) = sint r"
  "slot (add_refs n b) = slot b" "slot (mark_ready b) = slot b"
  by (simp_all add: slot_def refs_def add_refs_def mark_ready_def)

lemma refs_bounds: "- (2 ^ 31) \<le> refs b" "refs b < 2 ^ 31"
  using sint_greater_eq [of "st_ref_cnt b"] sint_lt [of "st_ref_cnt b"] by (simp_all add: refs_def)

lemma refs_add_refs:
  assumes "- (2 ^ 31) \<le> refs b + n" "refs b + n < 2 ^ 31"
  shows "refs (add_refs n b) = refs b + n"
proof -
  have eq: "st_ref_cnt b + of_int n = word_of_int (refs b + n)"
    by (simp add: refs_def)
  have "refs (add_refs n b) = sint (word_of_int (refs b + n) :: 32 word)"
    unfolding eq [symmetric] by (simp add: refs_def add_refs_def)
  also have "\<dots> = signed_take_bit 31 (refs b + n)"
    by (simp only: signed_of_int) simp
  finally have "refs (add_refs n b) = signed_take_bit 31 (refs b + n)" .
  then show ?thesis using assms by (simp add: signed_take_bit_int_eq_self)
qed

lemma add_refs_add: "add_refs n (add_refs k b) = add_refs (k + n) b"
  by (simp add: add_refs_def add.assoc)

lemma add_refs_0 [simp]: "add_refs 0 b = b"
  by (simp add: add_refs_def)

lemma new_status_parts:
  assumes "0 \<le> i" "i < 2 ^ 63"
  shows "refs (new_status i) = - 1" "slot (new_status i) = i" "\<not> is_ready (new_status i)"
  using assms by (simp_all add: new_status_def refs_def slot_def is_ready_def signed_of_int
      signed_take_bit_int_eq_self)

lemma refs_mark_ready: "refs (mark_ready b) = max 0 (refs b)"
  by (simp add: mark_ready_def is_ready_refs)

section \<open>The backend\<close>

lemma alloc_fresh_eq:
  "alloc_fresh k be =
     return (map new_status [cb_num_allocated_blocks be..cb_num_allocated_blocks be + int k - 1])
       (be\<lparr>cb_num_allocated_blocks := cb_num_allocated_blocks be + int k\<rparr>)"
proof (induction k arbitrary: be)
  case (Suc k)
  have "[cb_num_allocated_blocks be..cb_num_allocated_blocks be + int (Suc k) - 1] =
      cb_num_allocated_blocks be # [cb_num_allocated_blocks be + 1..cb_num_allocated_blocks be + int (Suc k) - 1]"
    by (subst upto.simps) simp
  then show ?case by (simp add: Suc return_def algebra_simps)
qed (simp add: return_def)

lemma alloc_reused_eq:
  "k \<le> length (cb_free_list be) \<Longrightarrow>
     alloc_reused k be =
       return (map new_status (take k (rev (cb_free_list be))))
         (be\<lparr>cb_free_list := take (length (cb_free_list be) - k) (cb_free_list be)\<rparr>)"
proof (induction k arbitrary: be)
  case (Suc k)
  then obtain xs x where l: "cb_free_list be = xs @ [x]" by (cases "cb_free_list be" rule: rev_cases) auto
  have "k \<le> length (cb_free_list (be\<lparr>cb_free_list := xs\<rparr>))" using Suc.prems l by simp
  from Suc.IH [OF this] l show ?case by (simp add: return_def)
qed (simp add: return_def)

lemma free_slots_bound: "backend_wf be \<Longrightarrow> free_slots be \<subseteq> {0..<cb_num_blocks be}"
  by (force simp: backend_wf_def free_slots_def)

lemma card_free_slots: "backend_wf be \<Longrightarrow> int (card (free_slots be)) = backend_num_free be"
proof -
  assume wf: "backend_wf be"
  have "card (free_slots be) = length (cb_free_list be) + nat (cb_num_blocks be - cb_num_allocated_blocks be)"
    unfolding free_slots_def using wf
    by (subst card_Un_disjoint) (force simp: backend_wf_def distinct_card)+
  then show ?thesis using wf by (simp add: backend_num_free_def backend_wf_def)
qed

text \<open>Allocation takes distinct free slots and leaves the others free.\<close>

lemma allocate_takes_free:
  assumes wf: "backend_wf be" and room: "int (length hs) \<le> backend_num_free be"
  shows "runs_to (allocate_blocks hs be) (\<lambda>bs be'.
    \<exists>ids. bs = map new_status ids \<and> length ids = length hs \<and> distinct ids \<and> set ids \<subseteq> free_slots be \<and>
      backend_wf be' \<and> free_slots be' = free_slots be - set ids \<and>
      cb_num_blocks be' = cb_num_blocks be \<and> cb_block_size be' = cb_block_size be \<and>
      cb_medium be' = cb_medium be)"
proof -
  define a n l where "a = cb_num_allocated_blocks be" and "n = cb_num_blocks be" and "l = cb_free_list be"
  define f where "f = nat (min (int (length hs)) (n - a))"
  define r where "r = length hs - f"
  have an: "0 \<le> a" "a \<le> n" "distinct l" "set l \<subseteq> {0..<a}" "n \<le> 2 ^ 63"
    using wf by (auto simp: backend_wf_def a_def n_def l_def)
  have fr: "f \<le> length hs" "int f \<le> n - a" "int (length hs) - min (int (length hs)) (n - a) = int r"
    using an by (auto simp: f_def r_def)
  have r: "r \<le> length l"
    using room an unfolding backend_num_free_def a_def [symmetric] n_def [symmetric] l_def [symmetric]
    by (auto simp: r_def f_def)
  define ids where "ids = [a..a + int f - 1] @ take r (rev l)"
  define be' where "be' = be\<lparr>cb_num_allocated_blocks := a + int f, cb_free_list := take (length l - r) l\<rparr>"
  have run: "allocate_blocks hs be = return (map new_status ids) be'"
    using r unfolding allocate_blocks_def Let_def f_def [symmetric] n_def [symmetric] a_def [symmetric]
      l_def [symmetric] fr(3)
    by (simp add: alloc_fresh_eq alloc_reused_eq assert_that_def return_def ids_def be'_def a_def l_def
        flip: f_def)
  have taken: "set (take r (rev l)) = set l - set (take (length l - r) l)"
    and dt: "distinct (take r (rev l))"
  proof -
    have "l = take (length l - r) l @ rev (take r (rev l))"
      using r by (simp add: rev_take)
    with an(3) have "distinct (take (length l - r) l @ rev (take r (rev l)))" and
      "set l = set (take (length l - r) l) \<union> set (take r (rev l))"
      by (metis, metis set_append set_rev)
    then show "set (take r (rev l)) = set l - set (take (length l - r) l)" "distinct (take r (rev l))" by auto
  qed
  have sub: "set (take (length l - r) l) \<subseteq> set l" by (rule set_take_subset)
  have all_fresh: "0 < r \<Longrightarrow> a + int f = n" using fr an by (auto simp: f_def r_def)
  have ids: "set ids = {a..<a + int f} \<union> (set l - set (take (length l - r) l))"
    by (auto simp: ids_def taken)
  have "distinct ids" using an taken dt by (auto simp: ids_def)
  moreover have "length ids = length hs" using fr r by (simp add: ids_def r_def)
  moreover have "set ids \<subseteq> free_slots be" using fr by (auto simp: ids free_slots_def a_def n_def l_def)
  moreover have "backend_wf be'" using an fr sub by (auto simp: be'_def backend_wf_def n_def [symmetric])
  moreover have "free_slots be' = free_slots be - set ids"
    using an fr sub unfolding ids free_slots_def by (force simp: be'_def a_def l_def n_def)
  ultimately show ?thesis unfolding run by (auto simp: be'_def)
qed

lemma owns_slot_used: "owns be v \<Longrightarrow> v h = Some b \<Longrightarrow> slot b \<in> used_slots be"
  unfolding owns_def bij_betw_def by force

lemma owns_slot_inj: "owns be v \<Longrightarrow> v h = Some b \<Longrightarrow> v k = Some c \<Longrightarrow> slot b = slot c \<Longrightarrow> h = k"
  unfolding owns_def bij_betw_def inj_on_def by (metis domI option.sel)

lemma owns_num_free:
  assumes "owns be v"
  shows "backend_num_free be = cb_num_blocks be - int (card (dom v))"
proof -
  have wf: "backend_wf be" using assms by (simp add: owns_def)
  have "card (used_slots be) = card (dom v)"
    using assms bij_betw_same_card by (fastforce simp: owns_def)
  moreover have "card (used_slots be) = nat (cb_num_blocks be) - card (free_slots be)"
    unfolding used_slots_def using free_slots_bound [OF wf] by (simp add: card_Diff_subset finite_subset)
  moreover have "card (free_slots be) \<le> nat (cb_num_blocks be)"
    using card_mono [OF _ free_slots_bound [OF wf]] by simp
  moreover have "0 \<le> cb_num_blocks be" using wf by (simp add: backend_wf_def)
  ultimately show ?thesis using card_free_slots [OF wf] by linarith
qed

text \<open>One block more or less.\<close>

lemma slots_add:
  assumes "bij_betw (\<lambda>h. slot (the (v h))) (dom v) U" "v h = None" "slot b \<notin> U"
  shows "bij_betw (\<lambda>k. slot (the ((v(h \<mapsto> b)) k))) (dom (v(h \<mapsto> b))) (insert (slot b) U)"
proof -
  let ?f = "\<lambda>k. slot (the ((v(h \<mapsto> b)) k))"
  have "bij_betw ?f (dom v) U"
    using assms(2) by (subst bij_betw_cong [OF _, of _ _ "\<lambda>h. slot (the (v h))"]) (auto simp: assms(1))
  then have "bij_betw ?f (dom v \<union> {h}) (U \<union> {?f h})"
    using assms(2,3) by (intro notIn_Un_bij_betw) (auto simp: domIff)
  then show ?thesis by (simp add: insert_commute)
qed

lemma slots_add_list:
  assumes "bij_betw (\<lambda>h. slot (the (v h))) (dom v) U" "length hs = length bs" "distinct hs"
    "\<forall>h\<in>set hs. v h = None" "distinct (map slot bs)" "slot ` set bs \<inter> U = {}"
  shows "bij_betw (\<lambda>h. slot (the ((v ++ map_of (zip hs bs)) h))) (dom (v ++ map_of (zip hs bs)))
           (slot ` set bs \<union> U)"
  using assms(2,1,3-)
proof (induction hs bs arbitrary: v U rule: list_induct2)
  case (Cons h hs b bs)
  have eq: "v ++ map_of (zip (h # hs) (b # bs)) = v(h \<mapsto> b) ++ map_of (zip hs bs)"
    using Cons.hyps Cons.prems(2) by (auto simp: map_add_def fun_eq_iff dest: map_of_SomeD in_set_zipE
        split: option.splits)
  have "bij_betw (\<lambda>k. slot (the ((v(h \<mapsto> b) ++ map_of (zip hs bs)) k)))
      (dom (v(h \<mapsto> b) ++ map_of (zip hs bs))) (slot ` set bs \<union> insert (slot b) U)"
  proof (rule Cons.IH)
    show "bij_betw (\<lambda>k. slot (the ((v(h \<mapsto> b)) k))) (dom (v(h \<mapsto> b))) (insert (slot b) U)"
      using Cons.prems by (intro slots_add) auto
  qed (use Cons.prems in auto)
  then show ?case unfolding eq by (simp add: insert_commute)
qed simp

lemma owns_allocate:
  assumes "owns be v" "distinct hs" "\<forall>h\<in>set hs. v h = None" "int (length hs) \<le> backend_num_free be"
  shows "runs_to (allocate_blocks hs be) (\<lambda>bs be'.
    length bs = length hs \<and> (\<forall>b\<in>set bs. refs b = - 1) \<and> owns be' (v ++ map_of (zip hs bs)) \<and>
    cb_num_blocks be' = cb_num_blocks be)"
proof -
  have wf: "backend_wf be" and fin: "finite (dom v)"
    and bij: "bij_betw (\<lambda>h. slot (the (v h))) (dom v) (used_slots be)"
    using assms(1) by (auto simp: owns_def)
  show ?thesis
  proof (rule runs_to_mono [OF allocate_takes_free [OF wf assms(4)]])
    fix bs be'
    assume "\<exists>ids. bs = map new_status ids \<and> length ids = length hs \<and> distinct ids \<and> set ids \<subseteq> free_slots be \<and>
      backend_wf be' \<and> free_slots be' = free_slots be - set ids \<and>
      cb_num_blocks be' = cb_num_blocks be \<and> cb_block_size be' = cb_block_size be \<and>
      cb_medium be' = cb_medium be"
    then obtain ids where bs: "bs = map new_status ids" and len: "length ids = length hs"
      and d: "distinct ids" and free: "set ids \<subseteq> free_slots be" and wf': "backend_wf be'"
      and fs: "free_slots be' = free_slots be - set ids" and nb: "cb_num_blocks be' = cb_num_blocks be"
      by blast
    have range: "i \<in> set ids \<Longrightarrow> 0 \<le> i \<and> i < 2 ^ 63" for i
      using free free_slots_bound [OF wf] wf by (force simp: backend_wf_def)
    have sl: "map slot bs = ids" unfolding bs using range by (auto simp: new_status_parts intro: map_idI)
    have refs: "\<forall>b\<in>set bs. refs b = - 1" unfolding bs using range by (auto simp: new_status_parts)
    have ss: "slot ` set bs = set ids" unfolding sl [symmetric] by simp
    have used: "set ids \<union> used_slots be = used_slots be'"
      using free free_slots_bound [OF wf] unfolding used_slots_def fs nb by blast
    have "bij_betw (\<lambda>h. slot (the ((v ++ map_of (zip hs bs)) h))) (dom (v ++ map_of (zip hs bs)))
        (slot ` set bs \<union> used_slots be)"
    proof (rule slots_add_list [OF bij])
      show "length hs = length bs" using len by (simp add: bs)
      show "slot ` set bs \<inter> used_slots be = {}" using free by (auto simp: ss used_slots_def)
    qed (use assms(2,3) d in \<open>auto simp: sl\<close>)
    then have "owns be' (v ++ map_of (zip hs bs))"
      using wf' fin unfolding ss used by (simp add: owns_def finite_dom_map_of)
    then show "length bs = length hs \<and> (\<forall>b\<in>set bs. refs b = - 1) \<and> owns be' (v ++ map_of (zip hs bs)) \<and>
      cb_num_blocks be' = cb_num_blocks be"
      using refs nb len by (simp add: bs)
  qed
qed

lemma owns_free:
  assumes "owns be v" "v h = Some b"
  shows "owns (backend_free b be) (v(h := None))" "backend_num_free (backend_free b be) = backend_num_free be + 1"
    "cb_num_blocks (backend_free b be) = cb_num_blocks be"
proof -
  have used: "slot b \<in> used_slots be" by (rule owns_slot_used [OF assms])
  have wf: "backend_wf (backend_free b be)"
    using assms(1) used by (auto simp: owns_def backend_wf_def backend_free_def used_slots_def free_slots_def slot_def)
  have bij: "bij_betw (\<lambda>h. slot (the (v h))) (dom v - {h}) (used_slots be - {slot (the (v h))})"
    using assms used by (intro bij_betw_DiffI) (auto simp: owns_def)
  have "used_slots (backend_free b be) = used_slots be - {slot (the (v h))}"
    using assms(2) by (auto simp: used_slots_def free_slots_def backend_free_def slot_def)
  moreover have "bij_betw (\<lambda>k. slot (the ((v(h := None)) k))) (dom v - {h}) (used_slots be - {slot (the (v h))})"
    using bij by (rule bij_betw_cong [THEN iffD1, rotated]) auto
  ultimately show "owns (backend_free b be) (v(h := None))"
    using assms(1) wf by (simp add: owns_def)
qed (simp_all add: backend_num_free_def backend_free_def)

text \<open>A change of counters only.\<close>

lemma owns_same_slots:
  assumes "owns be v" "dom v' = dom v" "\<And>h b. v' h = Some b \<Longrightarrow> \<exists>c. v h = Some c \<and> slot b = slot c"
  shows "owns be v'"
proof -
  have "slot (the (v' h)) = slot (the (v h))" if "h \<in> dom v" for h
    using that assms(2,3) by (metis domD option.sel)
  then have "bij_betw (\<lambda>h. slot (the (v' h))) (dom v) (used_slots be) =
      bij_betw (\<lambda>h. slot (the (v h))) (dom v) (used_slots be)"
    by (intro bij_betw_cong)
  then show ?thesis using assms(1,2) by (simp add: owns_def)
qed

section \<open>The contract\<close>

locale offloading_manager =
  fixes ops :: "'m offload_ops" and ok :: "'m \<Rightarrow> bool" and view :: "'m \<Rightarrow> view" and be :: "'m \<Rightarrow> cpu_backend"
  assumes ok_owns: "ok m \<Longrightarrow> owns (be m) (view m)"
    and lookup_law: "ok m \<Longrightarrow> runs_to (op_lookup ops hs m) (\<lambda>n m'. ok m' \<and> view m' = view m \<and> be m' = be m \<and>
          n = Some (int (length (takeWhile (ready (view m)) hs))))"
    and prepare_load_law: "\<lbrakk>ok m; \<forall>h\<in>set hs. ready (view m) h;
          \<forall>h\<in>set hs. refs (the (view m h)) + int (count_list hs h) < 2 ^ 31\<rbrakk> \<Longrightarrow>
          runs_to (op_prepare_load ops hs m) (\<lambda>ids m'. ok m' \<and> be m' = be m \<and>
            ids = map (\<lambda>h. slot (the (view m h))) hs \<and>
            view m' = (\<lambda>h. map_option (add_refs (int (count_list hs h))) (view m h)))"
    and touch_law: "ok m \<Longrightarrow> runs_to (op_touch ops hs m) (\<lambda>_ m'. ok m' \<and> view m' = view m \<and> be m' = be m)"
    and complete_load_law: "\<lbrakk>ok m; \<forall>h\<in>set hs. \<exists>b. view m h = Some b \<and> int (count_list hs h) \<le> refs b\<rbrakk> \<Longrightarrow>
          runs_to (op_complete_load ops hs m) (\<lambda>_ m'. ok m' \<and> be m' = be m \<and>
            view m' = (\<lambda>h. map_option (add_refs (- int (count_list hs h))) (view m h)))"
    and prepare_store_law: "\<lbrakk>ok m; distinct hs\<rbrakk> \<Longrightarrow>
          runs_to (op_prepare_store ops hs m) (\<lambda>res m'. ok m' \<and> cb_num_blocks (be m') = cb_num_blocks (be m) \<and>
            (\<exists>hs'. set hs' \<subseteq> set hs \<and> distinct hs' \<and> store_contract (be m) (view m) hs' res (view m')))"
    and store_done_law: "\<lbrakk>ok m; \<forall>h\<in>set hs. view m h \<noteq> None\<rbrakk> \<Longrightarrow>
          runs_to (op_complete_store ops hs True m) (\<lambda>_ m'. ok m' \<and> be m' = be m \<and>
            view m' = (\<lambda>h. if h \<in> set hs then map_option mark_ready (view m h) else view m h))"
    and store_failed_law: "\<lbrakk>ok m; distinct hs; \<forall>h\<in>set hs. \<exists>b. view m h = Some b \<and> refs b < 0\<rbrakk> \<Longrightarrow>
          runs_to (op_complete_store ops hs False m) (\<lambda>_ m'. ok m' \<and> cb_num_blocks (be m') = cb_num_blocks (be m) \<and>
            view m' = view m |` (- set hs))"
    and take_events_law: "ok m \<Longrightarrow> runs_to (op_take_events ops m) (\<lambda>_ m'. ok m' \<and> view m' = view m \<and> be m' = be m)"

section \<open>Transfers in flight\<close>

record ('m, 'd) transfers =
  tr_manager :: 'm
  tr_loads :: "(block_hash \<times> int) list list"
  tr_stores :: "(block_hash \<times> int) list list"
  tr_memory :: "int \<Rightarrow> 'd"

inductive transfer_step :: "'m offload_ops \<Rightarrow> ('m \<Rightarrow> view) \<Rightarrow> (block_hash \<Rightarrow> 'd) \<Rightarrow>
    ('m, 'd) transfers \<Rightarrow> ('m, 'd) transfers \<Rightarrow> bool" for ops view data where
  look: "op_lookup ops hs (tr_manager w) = Inr (n, m) \<Longrightarrow> transfer_step ops view data w (w\<lparr>tr_manager := m\<rparr>)"
| touch: "op_touch ops hs (tr_manager w) = Inr (u, m) \<Longrightarrow> transfer_step ops view data w (w\<lparr>tr_manager := m\<rparr>)"
| events: "op_take_events ops (tr_manager w) = Inr (es, m) \<Longrightarrow> transfer_step ops view data w (w\<lparr>tr_manager := m\<rparr>)"
| load: "\<forall>h\<in>set hs. ready (view (tr_manager w)) h \<Longrightarrow>
    length (concat (tr_loads w)) + length hs < 2 ^ 31 \<Longrightarrow>
    op_prepare_load ops hs (tr_manager w) = Inr (ids, m) \<Longrightarrow>
    transfer_step ops view data w (w\<lparr>tr_manager := m, tr_loads := tr_loads w @ [zip hs ids]\<rparr>)"
| load_done: "tr_loads w = xs @ t # ys \<Longrightarrow> mset hs = mset (map fst t) \<Longrightarrow>
    op_complete_load ops hs (tr_manager w) = Inr (u, m) \<Longrightarrow>
    transfer_step ops view data w (w\<lparr>tr_manager := m, tr_loads := xs @ ys\<rparr>)"
| refused: "distinct hs \<Longrightarrow> op_prepare_store ops hs (tr_manager w) = Inr (None, m) \<Longrightarrow>
    transfer_step ops view data w (w\<lparr>tr_manager := m\<rparr>)"
| store: "distinct hs \<Longrightarrow> op_prepare_store ops hs (tr_manager w) = Inr (Some out, m) \<Longrightarrow>
    transfer_step ops view data w
      (w\<lparr>tr_manager := m, tr_stores := tr_stores w @ [zip (so_to_store out) (so_spec out)]\<rparr>)"
| worker_writes: "t \<in> set (tr_stores w) \<Longrightarrow> (h, i) \<in> set t \<Longrightarrow>
    transfer_step ops view data w (w\<lparr>tr_memory := (tr_memory w)(i := d)\<rparr>)"
| store_done: "tr_stores w = xs @ t # ys \<Longrightarrow> mset hs = mset (map fst t) \<Longrightarrow>
    \<forall>(h, i)\<in>set t. tr_memory w i = data h \<Longrightarrow>
    op_complete_store ops hs True (tr_manager w) = Inr (u, m) \<Longrightarrow>
    transfer_step ops view data w (w\<lparr>tr_manager := m, tr_stores := xs @ ys\<rparr>)"
| store_failed: "tr_stores w = xs @ t # ys \<Longrightarrow> mset hs = mset (map fst t) \<Longrightarrow>
    op_complete_store ops hs False (tr_manager w) = Inr (u, m) \<Longrightarrow>
    transfer_step ops view data w (w\<lparr>tr_manager := m, tr_stores := xs @ ys\<rparr>)"

text \<open>
  The invariant of the client: a readable block is counted once per load in flight and its
  slot holds its data; the transfers name the slots of their blocks; the blocks not yet
  readable are exactly those of the stores in flight, each in one of them.
\<close>

definition in_step :: "view \<Rightarrow> (block_hash \<Rightarrow> 'd) \<Rightarrow> (int \<Rightarrow> 'd) \<Rightarrow> (block_hash \<times> int) list \<Rightarrow>
    (block_hash \<times> int) list \<Rightarrow> bool" where
  "in_step v data mem L S \<longleftrightarrow>
     (\<forall>h b. v h = Some b \<longrightarrow> 0 \<le> refs b \<longrightarrow> refs b = int (count_list (map fst L) h) \<and> mem (slot b) = data h) \<and>
     (\<forall>h i. (h, i) \<in> set L \<longrightarrow> (\<exists>b. v h = Some b \<and> 0 \<le> refs b \<and> slot b = i)) \<and>
     (\<forall>h i. (h, i) \<in> set S \<longrightarrow> (\<exists>b. v h = Some b \<and> refs b < 0 \<and> slot b = i)) \<and>
     (\<forall>h b. v h = Some b \<longrightarrow> refs b < 0 \<longrightarrow> h \<in> fst ` set S) \<and>
     distinct (map fst S) \<and> length L < 2 ^ 31"

definition transfers_ok :: "('m \<Rightarrow> bool) \<Rightarrow> ('m \<Rightarrow> view) \<Rightarrow> (block_hash \<Rightarrow> 'd) \<Rightarrow> ('m, 'd) transfers \<Rightarrow> bool" where
  "transfers_ok ok view data w \<longleftrightarrow>
     ok (tr_manager w) \<and>
     in_step (view (tr_manager w)) data (tr_memory w) (concat (tr_loads w)) (concat (tr_stores w))"

lemma in_stepD:
  assumes "in_step v data mem L S"
  shows "v h = Some b \<Longrightarrow> 0 \<le> refs b \<Longrightarrow> refs b = int (count_list (map fst L) h) \<and> mem (slot b) = data h"
    "(h, i) \<in> set L \<Longrightarrow> \<exists>b. v h = Some b \<and> 0 \<le> refs b \<and> slot b = i"
    "(h, i) \<in> set S \<Longrightarrow> \<exists>b. v h = Some b \<and> refs b < 0 \<and> slot b = i"
    "v h = Some b \<Longrightarrow> refs b < 0 \<Longrightarrow> h \<in> fst ` set S"
    "distinct (map fst S)" "length L < 2 ^ 31"
  using assms unfolding in_step_def by blast+

lemma in_stepI:
  assumes "\<And>h b. v h = Some b \<Longrightarrow> 0 \<le> refs b \<Longrightarrow> refs b = int (count_list (map fst L) h)"
    "\<And>h b. v h = Some b \<Longrightarrow> 0 \<le> refs b \<Longrightarrow> mem (slot b) = data h"
    "\<And>h i. (h, i) \<in> set L \<Longrightarrow> \<exists>b. v h = Some b \<and> 0 \<le> refs b \<and> slot b = i"
    "\<And>h i. (h, i) \<in> set S \<Longrightarrow> \<exists>b. v h = Some b \<and> refs b < 0 \<and> slot b = i"
    "\<And>h b. v h = Some b \<Longrightarrow> refs b < 0 \<Longrightarrow> h \<in> fst ` set S"
    "distinct (map fst S)" "length L < 2 ^ 31"
  shows "in_step v data mem L S"
  using assms unfolding in_step_def by blast

lemma runs_to_returns: "runs_to r Q \<Longrightarrow> \<exists>a s. r = Inr (a, s)"
  by (auto elim: runs_toE)

lemma count_list_le_length: "count_list xs x \<le> length xs"
  by (induction xs) auto

lemma in_step_load:
  assumes c: "in_step v data mem L S" and r: "\<forall>h\<in>set hs. ready v h" and len: "length L + length hs < 2 ^ 31"
  shows "in_step (\<lambda>h. map_option (add_refs (int (count_list hs h))) (v h)) data mem
    (L @ zip hs (map (\<lambda>h. slot (the (v h))) hs)) S"
proof -
  have cnt: "refs (add_refs (int (count_list hs h)) b) = refs b + int (count_list hs h)" if "v h = Some b" for h b
  proof (rule refs_add_refs)
    show "- (2 ^ 31) \<le> refs b + int (count_list hs h)" using refs_bounds(1) [of b] by simp
    have "int (count_list (map fst L) h) + int (count_list hs h) < 2 ^ 31"
      using len count_list_le_length [of "map fst L" h] count_list_le_length [of hs h] by simp
    moreover have "refs b \<le> int (count_list (map fst L) h)"
      using in_stepD(1) [OF c that] by (cases "0 \<le> refs b") auto
    ultimately show "refs b + int (count_list hs h) < 2 ^ 31" by linarith
  qed
  have fresh: "count_list hs h = 0" if "v h = Some b" "refs b < 0" for h b
    using r that by (auto simp: ready_def count_list_0_iff)
  have keys: "map fst (zip hs (map (\<lambda>h. slot (the (v h))) hs)) = hs" by simp
  show ?thesis
  proof (rule in_stepI)
    fix h b'
    assume "map_option (add_refs (int (count_list hs h))) (v h) = Some b'" "0 \<le> refs b'"
    then obtain b where b: "v h = Some b" "b' = add_refs (int (count_list hs h)) b" by auto
    have "0 \<le> refs b" using fresh [OF b(1)] cnt [OF b(1)] \<open>0 \<le> refs b'\<close> b(2) by (cases "refs b < 0") auto
    with in_stepD(1) [OF c b(1)] show "refs b' = int (count_list (map fst (L @ zip hs (map (\<lambda>h. slot (the (v h))) hs))) h)"
      "mem (slot b') = data h"
      using cnt [OF b(1)] b(2) by (simp_all add: keys)
  next
    fix h i
    assume "(h, i) \<in> set (L @ zip hs (map (\<lambda>h. slot (the (v h))) hs))"
    then consider "(h, i) \<in> set L" | "h \<in> set hs" "i = slot (the (v h))"
      by (auto simp: in_set_zip)
    then have "\<exists>b. v h = Some b \<and> 0 \<le> refs b \<and> slot b = i"
      by cases (use in_stepD(2) [OF c] r in \<open>auto simp: ready_def\<close>)
    then show "\<exists>b. map_option (add_refs (int (count_list hs h))) (v h) = Some b \<and> 0 \<le> refs b \<and> slot b = i"
      using cnt by auto
  next
    fix h i
    assume "(h, i) \<in> set S"
    then show "\<exists>b. map_option (add_refs (int (count_list hs h))) (v h) = Some b \<and> refs b < 0 \<and> slot b = i"
      using in_stepD(3) [OF c] fresh by fastforce
  next
    fix h b'
    assume "map_option (add_refs (int (count_list hs h))) (v h) = Some b'" "refs b' < 0"
    then obtain b where "v h = Some b" "refs b < 0" using cnt by fastforce
    then show "h \<in> fst ` set S" by (rule in_stepD(4) [OF c])
  qed (use in_stepD(5) [OF c] len in auto)
qed

lemma load_room:
  assumes c: "in_step v data mem L S" and r: "\<forall>h\<in>set hs. ready v h" and len: "length L + length hs < 2 ^ 31"
  shows "\<forall>h\<in>set hs. refs (the (v h)) + int (count_list hs h) < 2 ^ 31"
proof
  fix h assume "h \<in> set hs"
  with r obtain b where b: "v h = Some b" "0 \<le> refs b" by (auto simp: ready_def)
  have "refs b = int (count_list (map fst L) h)" using in_stepD(1) [OF c b] by blast
  then show "refs (the (v h)) + int (count_list hs h) < 2 ^ 31"
    using len b count_list_le_length [of "map fst L" h] count_list_le_length [of hs h] by simp
qed

lemma in_step_unload:
  assumes c: "in_step v data mem (X @ T @ Y) S" and m: "mset hs = mset (map fst T)"
  shows "\<forall>h\<in>set hs. \<exists>b. v h = Some b \<and> int (count_list hs h) \<le> refs b"
    and "in_step (\<lambda>h. map_option (add_refs (- int (count_list hs h))) (v h)) data mem (X @ Y) S"
proof -
  have hs: "count_list hs h = count_list (map fst T) h" for h
    using m by (metis count_mset)
  have sets: "set hs = fst ` set T" using m by (metis list.set_map set_mset_mset)
  have le: "int (count_list hs h) \<le> refs b" if "v h = Some b" "0 \<le> refs b" for h b
    using in_stepD(1) [OF c that] by (simp add: hs)
  have cnt: "refs (add_refs (- int (count_list hs h)) b) = refs b - int (count_list hs h)"
    if "v h = Some b" "0 \<le> refs b" for h b
    using le [OF that] that(2) refs_bounds(2) [of b] by (subst refs_add_refs) auto
  show loaded: "\<forall>h\<in>set hs. \<exists>b. v h = Some b \<and> int (count_list hs h) \<le> refs b"
    unfolding sets using in_stepD(2) [OF c] le by fastforce
  have none: "count_list hs h = 0" if "v h = Some b" "refs b < 0" for h b
    using loaded that by (fastforce simp: count_list_0_iff)
  have kept: "0 \<le> refs b" if "v h = Some b" "0 \<le> refs (add_refs (- int (count_list hs h)) b)" for h b
    using that none [OF that(1)] by (cases "refs b < 0") auto
  show "in_step (\<lambda>h. map_option (add_refs (- int (count_list hs h))) (v h)) data mem (X @ Y) S"
  proof (rule in_stepI)
    fix h b'
    assume "map_option (add_refs (- int (count_list hs h))) (v h) = Some b'" "0 \<le> refs b'"
    then obtain b where b: "v h = Some b" "b' = add_refs (- int (count_list hs h)) b" "0 \<le> refs b"
      using kept by auto
    with in_stepD(1) [OF c b(1,3)] show "refs b' = int (count_list (map fst (X @ Y)) h)" "mem (slot b') = data h"
      using cnt [OF b(1,3)] by (simp_all add: hs)
  next
    fix h i
    assume "(h, i) \<in> set (X @ Y)"
    then obtain b where b: "v h = Some b" "0 \<le> refs b" "slot b = i" using in_stepD(2) [OF c] by fastforce
    then show "\<exists>b. map_option (add_refs (- int (count_list hs h))) (v h) = Some b \<and> 0 \<le> refs b \<and> slot b = i"
      using cnt [OF b(1,2)] le [OF b(1,2)] by simp
  next
    fix h i
    assume "(h, i) \<in> set S"
    then show "\<exists>b. map_option (add_refs (- int (count_list hs h))) (v h) = Some b \<and> refs b < 0 \<and> slot b = i"
      using in_stepD(3) [OF c] none by fastforce
  next
    fix h b'
    assume "map_option (add_refs (- int (count_list hs h))) (v h) = Some b'" "refs b' < 0"
    then obtain b where b: "v h = Some b" "b' = add_refs (- int (count_list hs h)) b" by auto
    with \<open>refs b' < 0\<close> have "refs b < 0" using cnt [OF b(1)] le [OF b(1)] by (cases "0 \<le> refs b") auto
    then show "h \<in> fst ` set S" by (rule in_stepD(4) [OF c b(1)])
  qed (use in_stepD(5,6) [OF c] in auto)
qed

lemma in_step_evict:
  assumes c: "in_step v data mem L S" and E: "E \<subseteq> evictable v"
  shows "in_step (v |` (- E)) data mem L S"
proof (rule in_stepI)
  have gone: "\<exists>b. v h = Some b \<and> refs b = 0 \<and> h \<notin> fst ` set L" if in_E: "h \<in> E" for h
  proof -
    obtain b where b: "v h = Some b" "refs b = 0" using in_E E by (auto simp: evictable_def)
    with in_stepD(1) [OF c b(1)] show ?thesis by (auto simp: count_list_0_iff)
  qed
  show "\<exists>b. (v |` (- E)) h = Some b \<and> 0 \<le> refs b \<and> slot b = i" if "(h, i) \<in> set L" for h i
    using in_stepD(2) [OF c that] gone [of h] that by (force simp: restrict_map_def)
  show "\<exists>b. (v |` (- E)) h = Some b \<and> refs b < 0 \<and> slot b = i" if "(h, i) \<in> set S" for h i
    using in_stepD(3) [OF c that] gone [of h] by (force simp: restrict_map_def)
qed (use in_stepD [OF c] in \<open>auto simp: restrict_map_def split: if_splits\<close>)

lemma in_step_store:
  assumes c: "in_step v data mem L S" and d: "distinct hs" "\<forall>h\<in>set hs. v h = None"
    and bs: "length bs = length hs" "\<forall>b\<in>set bs. refs b = - 1"
  shows "in_step (v ++ map_of (zip hs bs)) data mem L (S @ zip hs (map slot bs))"
proof -
  let ?v = "v ++ map_of (zip hs bs)"
  have new: "\<exists>b. ?v h = Some b \<and> refs b < 0 \<and> slot b = i" if "(h, i) \<in> set (zip hs (map slot bs))" for h i
  proof -
    obtain k where k: "k < length hs" "h = hs ! k" "i = slot (bs ! k)" "k < length bs"
      using \<open>(h, i) \<in> set (zip hs (map slot bs))\<close> by (auto simp: in_set_zip)
    then have "map_of (zip hs bs) h = Some (bs ! k)"
      using d(1) bs(1) by (simp add: map_of_zip_nth)
    then show ?thesis using k bs(2) by (simp add: map_add_def)
  qed
  have old: "?v h = v h" if "h \<notin> set hs" for h
    using that bs(1) by (simp add: map_add_def map_of_eq_None_iff split: option.split) (metis map_of_zip_is_None bs(1) option.distinct(1))
  have inh: "h \<notin> set hs" if "v h = Some b" for h b using d(2) that by auto
  have added: "\<exists>i. (h, i) \<in> set (zip hs (map slot bs))" if "h \<in> set hs" for h
    using that bs(1) by (metis in_set_impl_in_set_zip1 length_map surj_pair fst_conv set_zip_leftD)
  show ?thesis
  proof (rule in_stepI)
    fix h b assume *: "?v h = Some b" "0 \<le> refs b"
    have "h \<notin> set hs" using added [of h] new [of h] * by force
    with old * have "v h = Some b" by simp
    with in_stepD(1) [OF c] * show "refs b = int (count_list (map fst L) h)" "mem (slot b) = data h" by auto
  next
    fix h b assume *: "?v h = Some b" "refs b < 0"
    show "h \<in> fst ` set (S @ zip hs (map slot bs))"
      using * old [of h] added [of h] in_stepD(4) [OF c, of h b] by (cases "h \<in> set hs") force+
  next
    fix h i assume "(h, i) \<in> set L"
    then show "\<exists>b. ?v h = Some b \<and> 0 \<le> refs b \<and> slot b = i" using in_stepD(2) [OF c] old inh by metis
  next
    fix h i assume "(h, i) \<in> set (S @ zip hs (map slot bs))"
    then show "\<exists>b. ?v h = Some b \<and> refs b < 0 \<and> slot b = i" using new in_stepD(3) [OF c] old inh by (metis Un_iff set_append)
  next
    have "fst ` set S \<inter> set hs = {}" using in_stepD(3) [OF c] inh by fastforce
    then show "distinct (map fst (S @ zip hs (map slot bs)))" using in_stepD(5) [OF c] d(1) bs(1) by simp
  qed (rule in_stepD(6) [OF c])
qed

lemma in_step_write:
  assumes c: "in_step v data mem L S" and o: "owns be v" and "(h, i) \<in> set S"
  shows "in_step v data (mem(i := d)) L S"
proof (rule in_stepI)
  obtain b where b: "v h = Some b" "refs b < 0" "slot b = i" using in_stepD(3) [OF c assms(3)] by blast
  show "(mem(i := d)) (slot b') = data k" if "v k = Some b'" "0 \<le> refs b'" for k b'
  proof -
    have "slot b' \<noteq> i"
    proof
      assume "slot b' = i"
      with b(3) have "k = h" by (intro owns_slot_inj [OF o that(1) b(1)]) simp
      with that b show False by simp
    qed
    then show ?thesis using in_stepD(1) [OF c that] by simp
  qed
qed (use in_stepD(1) [OF c] in blast, use in_stepD(2-6) [OF c] in auto)

lemma in_step_done:
  assumes c: "in_step v data mem L (X @ T @ Y)" and m: "mset hs = mset (map fst T)"
    and w: "\<forall>(h, i)\<in>set T. mem i = data h"
  shows "in_step (\<lambda>h. if h \<in> set hs then map_option mark_ready (v h) else v h) data mem L (X @ Y)"
proof -
  let ?v = "\<lambda>h. if h \<in> set hs then map_option mark_ready (v h) else v h"
  have sets: "set hs = fst ` set T" using m by (metis list.set_map set_mset_mset)
  have dis: "fst ` set X \<inter> set hs = {}" "fst ` set Y \<inter> set hs = {}" "distinct (map fst (X @ Y))"
    using in_stepD(5) [OF c] unfolding sets by auto
  have T: "\<exists>b i. v h = Some b \<and> refs b < 0 \<and> slot b = i \<and> (h, i) \<in> set T" if "h \<in> set hs" for h
    using that in_stepD(3) [OF c] unfolding sets by fastforce
  have notL: "h \<notin> fst ` set L" if "h \<in> set hs" for h
    using T [OF that] in_stepD(2) [OF c] by fastforce
  show ?thesis
  proof (rule in_stepI)
    fix h b assume *: "?v h = Some b" "0 \<le> refs b"
    show "refs b = int (count_list (map fst L) h)"
      using * T [of h] notL [of h] in_stepD(1) [OF c, of h b]
      by (cases "h \<in> set hs") (auto simp: refs_mark_ready count_list_0_iff)
    show "mem (slot b) = data h"
      using * T [of h] w in_stepD(1) [OF c, of h b] by (cases "h \<in> set hs") force+
  next
    fix h i assume "(h, i) \<in> set L"
    then show "\<exists>b. ?v h = Some b \<and> 0 \<le> refs b \<and> slot b = i" using in_stepD(2) [OF c] notL by force
  next
    fix h i assume "(h, i) \<in> set (X @ Y)"
    then have "h \<notin> set hs" "\<exists>b. v h = Some b \<and> refs b < 0 \<and> slot b = i" using dis in_stepD(3) [OF c] by force+
    then show "\<exists>b. ?v h = Some b \<and> refs b < 0 \<and> slot b = i" by simp
  next
    fix h b assume *: "?v h = Some b" "refs b < 0"
    have "h \<notin> set hs"
    proof
      assume "h \<in> set hs"
      with * obtain b' where "b = mark_ready b'" by (auto split: if_splits)
      with *(2) show False by (simp add: refs_mark_ready)
    qed
    with * in_stepD(4) [OF c, of h b] show "h \<in> fst ` set (X @ Y)" unfolding sets by auto
  qed (use dis in_stepD(6) [OF c] in auto)
qed

lemma in_step_failed:
  assumes c: "in_step v data mem L (X @ T @ Y)" and m: "mset hs = mset (map fst T)"
  shows "distinct hs" "\<forall>h\<in>set hs. \<exists>b. v h = Some b \<and> refs b < 0" "in_step (v |` (- set hs)) data mem L (X @ Y)"
proof -
  have sets: "set hs = fst ` set T" using m by (metis list.set_map set_mset_mset)
  have dis: "fst ` set X \<inter> set hs = {}" "fst ` set Y \<inter> set hs = {}" "distinct (map fst (X @ Y))" "distinct (map fst T)"
    using in_stepD(5) [OF c] unfolding sets by auto
  from dis(4) m show "distinct hs" by (metis mset_eq_imp_distinct_iff)
  show storing: "\<forall>h\<in>set hs. \<exists>b. v h = Some b \<and> refs b < 0"
    using in_stepD(3) [OF c] unfolding sets by fastforce
  show "in_step (v |` (- set hs)) data mem L (X @ Y)"
  proof (rule in_stepI)
    fix h i assume "(h, i) \<in> set L"
    then show "\<exists>b. (v |` (- set hs)) h = Some b \<and> 0 \<le> refs b \<and> slot b = i"
      using in_stepD(2) [OF c] storing by (force simp: restrict_map_def)
  next
    fix h i assume "(h, i) \<in> set (X @ Y)"
    then have "h \<notin> set hs" "\<exists>b. v h = Some b \<and> refs b < 0 \<and> slot b = i" using dis in_stepD(3) [OF c] by force+
    then show "\<exists>b. (v |` (- set hs)) h = Some b \<and> refs b < 0 \<and> slot b = i" by simp
  next
    fix h b assume "(v |` (- set hs)) h = Some b" "refs b < 0"
    then show "h \<in> fst ` set (X @ Y)" using in_stepD(4) [OF c, of h b] unfolding sets
      by (auto simp: restrict_map_def split: if_splits)
  qed (use dis in_stepD(1,6) [OF c] in \<open>auto simp: restrict_map_def split: if_splits\<close>)
qed

section \<open>What the client gets\<close>

context offloading_manager
begin

lemma in_step_prepared:
  assumes "store_contract b (view m) hs' res v'" "distinct hs'"
    and c: "in_step (view m) data mem L S"
  shows "in_step v' data mem L (S @ (case res of None \<Rightarrow> [] | Some out \<Rightarrow> zip (so_to_store out) (so_spec out)))"
proof (cases res)
  case None
  with assms(1) obtain E where "E \<subseteq> evictable (view m)" "v' = view m |` (- E)"
    unfolding store_contract_def by auto
  with in_step_evict [OF c] None show ?thesis by simp
next
  case (Some out)
  from assms(1) obtain bs where s: "so_to_store out = filter (\<lambda>h. view m h = None) hs'"
    "set (so_evicted out) \<subseteq> evictable (view m)"
    "length bs = length (so_to_store out)" "\<forall>b\<in>set bs. refs b = - 1" "so_spec out = map slot bs"
    "v' = (view m |` (- set (so_evicted out))) ++ map_of (zip (so_to_store out) bs)"
    unfolding store_contract_def Some option.case by blast
  have "distinct (so_to_store out)" "\<forall>h\<in>set (so_to_store out). (view m |` (- set (so_evicted out))) h = None"
    using assms(2) by (auto simp: s(1) restrict_map_def)
  from in_step_store [OF in_step_evict [OF c s(2)] this s(3,4)] show ?thesis
    by (simp add: Some s(5,6))
qed

lemma transfer_step_keeps:
  assumes "transfer_step ops view data w w'" "transfers_ok ok view data w"
  shows "transfers_ok ok view data w'"
  using assms
proof (induction rule: transfer_step.induct)
  case (look hs w n m)
  then show ?case using postD [OF lookup_law look(1)] by (auto simp: transfers_ok_def)
next
  case (touch hs w u m)
  then show ?case using postD [OF touch_law touch(1)] by (auto simp: transfers_ok_def)
next
  case (events w es m)
  then show ?case using postD [OF take_events_law events(1)] by (auto simp: transfers_ok_def)
next
  case (load hs w ids m)
  then have k: "ok (tr_manager w)"
    and c: "in_step (view (tr_manager w)) data (tr_memory w) (concat (tr_loads w)) (concat (tr_stores w))"
    by (auto simp: transfers_ok_def)
  from postD [OF prepare_load_law [OF k load(1) load_room [OF c load(1,2)]] load(3)]
  have "ok m" "ids = map (\<lambda>h. slot (the (view (tr_manager w) h))) hs"
    "view m = (\<lambda>h. map_option (add_refs (int (count_list hs h))) (view (tr_manager w) h))" by auto
  with in_step_load [OF c load(1,2)] show ?case by (simp add: transfers_ok_def)
next
  case (load_done w xs t ys hs u m)
  then have k: "ok (tr_manager w)"
    and c: "in_step (view (tr_manager w)) data (tr_memory w) (concat xs @ t @ concat ys) (concat (tr_stores w))"
    by (auto simp: transfers_ok_def)
  from postD [OF complete_load_law [OF k in_step_unload(1) [OF c load_done(2)]] load_done(3)]
  have "ok m" "view m = (\<lambda>h. map_option (add_refs (- int (count_list hs h))) (view (tr_manager w) h))" by auto
  with in_step_unload(2) [OF c load_done(2)] show ?case by (simp add: transfers_ok_def)
next
  case (refused hs w m)
  from refused have k: "ok (tr_manager w)" by (simp add: transfers_ok_def)
  from postD [OF prepare_store_law [OF k refused(1)] refused(2)] obtain hs' where
    "ok m" "distinct hs'" "store_contract (be (tr_manager w)) (view (tr_manager w)) hs' None (view m)" by blast
  with in_step_prepared refused(3) show ?case by (fastforce simp: transfers_ok_def)
next
  case (store hs w out m)
  from store have k: "ok (tr_manager w)" by (simp add: transfers_ok_def)
  from postD [OF prepare_store_law [OF k store(1)] store(2)] obtain hs' where
    "ok m" "distinct hs'" "store_contract (be (tr_manager w)) (view (tr_manager w)) hs' (Some out) (view m)" by blast
  with in_step_prepared store(3) show ?case by (fastforce simp: transfers_ok_def)
next
  case (worker_writes t w h i d)
  then show ?case using in_step_write [OF _ ok_owns, of "tr_manager w"] by (fastforce simp: transfers_ok_def)
next
  case (store_done w xs t ys hs u m)
  then have k: "ok (tr_manager w)"
    and c: "in_step (view (tr_manager w)) data (tr_memory w) (concat (tr_loads w)) (concat xs @ t @ concat ys)"
    by (auto simp: transfers_ok_def)
  have "\<forall>h\<in>set hs. view (tr_manager w) h \<noteq> None" using in_step_failed(2) [OF c store_done(2)] by fastforce
  from postD [OF store_done_law [OF k this] store_done(4)]
  have "ok m" "view m = (\<lambda>h. if h \<in> set hs then map_option mark_ready (view (tr_manager w) h) else view (tr_manager w) h)" by auto
  with in_step_done [OF c store_done(2,3)] show ?case by (simp add: transfers_ok_def)
next
  case (store_failed w xs t ys hs u m)
  then have k: "ok (tr_manager w)"
    and c: "in_step (view (tr_manager w)) data (tr_memory w) (concat (tr_loads w)) (concat xs @ t @ concat ys)"
    by (auto simp: transfers_ok_def)
  note f = in_step_failed [OF c store_failed(2)]
  from postD [OF store_failed_law [OF k f(1,2)] store_failed(3)]
  have "ok m" "view m = view (tr_manager w) |` (- set hs)" by auto
  with f(3) show ?case by (simp add: transfers_ok_def)
qed

lemma transfers_keep:
  assumes "(transfer_step ops view data)\<^sup>*\<^sup>* w w'" "transfers_ok ok view data w"
  shows "transfers_ok ok view data w'"
  using assms by (induction rule: rtranclp_induct) (auto intro: transfer_step_keeps)

lemma fresh_transfers_ok:
  assumes "ok m" "view m = Map.empty"
  shows "transfers_ok ok view data \<lparr>tr_manager = m, tr_loads = [], tr_stores = [], tr_memory = mem\<rparr>"
  using assms by (simp add: transfers_ok_def in_step_def)

text \<open>
  A load in flight reads the data of its hashes, and no store in flight writes to its slots
  or to those of another store.
\<close>

lemma loads_read_data:
  assumes "transfers_ok ok view data w"
  shows "(h, i) \<in> set (concat (tr_loads w)) \<Longrightarrow> tr_memory w i = data h"
    and "(h, i) \<in> set (concat (tr_loads w)) \<Longrightarrow> (k, j) \<in> set (concat (tr_stores w)) \<Longrightarrow> i \<noteq> j"
    and "distinct (map snd (concat (tr_stores w)))"
proof -
  let ?v = "view (tr_manager w)"
  have k: "owns (be (tr_manager w)) ?v"
    and c: "in_step ?v data (tr_memory w) (concat (tr_loads w)) (concat (tr_stores w))"
    using assms ok_owns by (auto simp: transfers_ok_def)
  show "tr_memory w i = data h" if "(h, i) \<in> set (concat (tr_loads w))"
    using in_stepD(2) [OF c that] in_stepD(1) [OF c] by blast
  show "i \<noteq> j" if l: "(h, i) \<in> set (concat (tr_loads w))" and s: "(k, j) \<in> set (concat (tr_stores w))"
  proof -
    obtain b b' where "?v h = Some b" "0 \<le> refs b" "slot b = i" "?v k = Some b'" "refs b' < 0" "slot b' = j"
      using in_stepD(2) [OF c l] in_stepD(3) [OF c s] by blast
    then show ?thesis using owns_slot_inj [OF k, of h b k b'] by (metis not_le option.inject)
  qed
  have "distinct (map snd S)" if "set S \<subseteq> set (concat (tr_stores w))" "distinct (map fst S)" for S
    using that
  proof (induction S)
    case (Cons x S)
    have "snd x \<noteq> snd y" if "y \<in> set S" for y
    proof -
      have "fst x \<noteq> fst y" using Cons.prems(2) that by force
      moreover have "(fst x, snd x) \<in> set (concat (tr_stores w))" "(fst y, snd y) \<in> set (concat (tr_stores w))"
        using Cons.prems(1) that unfolding prod.collapse by auto
      then obtain b b' where "?v (fst x) = Some b" "slot b = snd x" "?v (fst y) = Some b'" "slot b' = snd y"
        using in_stepD(3) [OF c] by meson
      ultimately show ?thesis using owns_slot_inj [OF k] by metis
    qed
    with Cons show ?case by auto
  qed simp
  from this [of "concat (tr_stores w)"] in_stepD(5) [OF c]
  show "distinct (map snd (concat (tr_stores w)))" by simp
qed

text \<open>
  Every slot is free or belongs to one cached block; when no transfer is in flight every
  cached block is readable and idle.
\<close>

lemma slots_conserved:
  assumes "transfers_ok ok view data w"
  shows "backend_num_free (be (tr_manager w)) = cb_num_blocks (be (tr_manager w)) - int (card (dom (view (tr_manager w))))"
    and "tr_loads w = [] \<Longrightarrow> tr_stores w = [] \<Longrightarrow> evictable (view (tr_manager w)) = dom (view (tr_manager w))"
proof -
  have k: "owns (be (tr_manager w)) (view (tr_manager w))"
    and c: "in_step (view (tr_manager w)) data (tr_memory w) (concat (tr_loads w)) (concat (tr_stores w))"
    using assms ok_owns by (auto simp: transfers_ok_def)
  show "backend_num_free (be (tr_manager w)) = cb_num_blocks (be (tr_manager w)) - int (card (dom (view (tr_manager w))))"
    by (rule owns_num_free [OF k])
  show "evictable (view (tr_manager w)) = dom (view (tr_manager w))" if "tr_loads w = []" "tr_stores w = []"
  proof -
    have "refs b = 0" if "view (tr_manager w) h = Some b" for h b
      using in_stepD(1) [OF c that] in_stepD(4) [OF c that] \<open>tr_loads w = []\<close> \<open>tr_stores w = []\<close>
      by (cases "0 \<le> refs b") auto
    then show ?thesis by (auto simp: evictable_def)
  qed
qed

text \<open>No call that a client may make raises.\<close>

lemma calls_return:
  assumes "transfers_ok ok view data w"
  defines "m \<equiv> tr_manager w"
  shows "\<exists>r m'. op_lookup ops hs m = Inr (r, m')" "\<exists>r m'. op_touch ops hs m = Inr (r, m')"
    "\<forall>h\<in>set hs. ready (view m) h \<Longrightarrow> length (concat (tr_loads w)) + length hs < 2 ^ 31 \<Longrightarrow>
       \<exists>r m'. op_prepare_load ops hs m = Inr (r, m')"
    "t \<in> set (tr_loads w) \<Longrightarrow> \<exists>r m'. op_complete_load ops (map fst t) m = Inr (r, m')"
    "distinct hs \<Longrightarrow> \<exists>r m'. op_prepare_store ops hs m = Inr (r, m')"
    "t \<in> set (tr_stores w) \<Longrightarrow> \<exists>r m'. op_complete_store ops (map fst t) success m = Inr (r, m')"
proof -
  have k: "ok m" and c: "in_step (view m) data (tr_memory w) (concat (tr_loads w)) (concat (tr_stores w))"
    using assms by (auto simp: transfers_ok_def)
  show "\<exists>r m'. op_lookup ops hs m = Inr (r, m')" "\<exists>r m'. op_touch ops hs m = Inr (r, m')"
    by (rule runs_to_returns [OF lookup_law [OF k]], rule runs_to_returns [OF touch_law [OF k]])
  show "\<exists>r m'. op_prepare_store ops hs m = Inr (r, m')" if "distinct hs"
    by (rule runs_to_returns [OF prepare_store_law [OF k that]])
  show "\<exists>r m'. op_prepare_load ops hs m = Inr (r, m')"
    if rd: "\<forall>h\<in>set hs. ready (view m) h" and len: "length (concat (tr_loads w)) + length hs < 2 ^ 31"
    by (rule runs_to_returns [OF prepare_load_law [OF k rd load_room [OF c rd len]]])
  show "\<exists>r m'. op_complete_load ops (map fst t) m = Inr (r, m')" if tin: "t \<in> set (tr_loads w)"
  proof -
    obtain xs ys where "tr_loads w = xs @ t # ys" using tin by (meson split_list)
    then have "in_step (view m) data (tr_memory w) (concat xs @ t @ concat ys) (concat (tr_stores w))" using c by simp
    from runs_to_returns [OF complete_load_law [OF k in_step_unload(1) [OF this refl]]] show ?thesis .
  qed
  show "\<exists>r m'. op_complete_store ops (map fst t) success m = Inr (r, m')" if tin: "t \<in> set (tr_stores w)"
  proof -
    obtain xs ys where "tr_stores w = xs @ t # ys" using tin by (meson split_list)
    then have "in_step (view m) data (tr_memory w) (concat (tr_loads w)) (concat xs @ t @ concat ys)" using c by simp
    note f = in_step_failed [OF this refl]
    have "\<forall>h\<in>set (map fst t). view m h \<noteq> None" using f(2) by fastforce
    from runs_to_returns [OF store_done_law [OF k this]] runs_to_returns [OF store_failed_law [OF k f(1,2)]]
    show ?thesis by (cases success) simp_all
  qed
qed

end

end
