(* ===== verification/Offload_LRU.thy ===== *)
theory Offload_LRU
  imports Offload_Contract
begin

text \<open>
  The LRU manager meets the contract. The locale \<open>block_table\<close> lifts what happens to one
  block to the loops of \<open>prepare_load\<close>, \<open>complete_load\<close> and \<open>complete_store\<close>; the
  two managers of \<open>vllm/v1/kv_offload\<close> interpret it with the bodies of their loops.

  The properties proved here: a load reads what was stored; a store is refused, with nothing
  changed, exactly when too few unprotected blocks are idle, and otherwise the least recently
  used of them make room.
\<close>

section \<open>From one block to a list\<close>

locale block_table =
  fixes ok :: "'m \<Rightarrow> bool" and view :: "'m \<Rightarrow> view" and be :: "'m \<Rightarrow> cpu_backend"
    and load1 :: "block_hash \<Rightarrow> 'm \<Rightarrow> ('m, block_status) res" and unload1 :: "block_hash \<Rightarrow> 'm \<Rightarrow> ('m, unit) res"
    and stored1 :: "block_hash \<Rightarrow> 'm \<Rightarrow> ('m, block_hash list) res" and failed1 :: "block_hash \<Rightarrow> 'm \<Rightarrow> ('m, unit) res"
  assumes load1_law: "\<lbrakk>ok m; view m h = Some b; 0 \<le> refs b\<rbrakk> \<Longrightarrow> runs_to (load1 h m)
      (\<lambda>b' m'. ok m' \<and> be m' = be m \<and> view m' = (view m)(h \<mapsto> add_refs 1 b) \<and> slot b' = slot b)"
    and unload1_law: "\<lbrakk>ok m; view m h = Some b; 0 < refs b\<rbrakk> \<Longrightarrow> runs_to (unload1 h m)
      (\<lambda>_ m'. ok m' \<and> be m' = be m \<and> view m' = (view m)(h \<mapsto> add_refs (- 1) b))"
    and stored1_law: "\<lbrakk>ok m; view m h = Some b\<rbrakk> \<Longrightarrow> runs_to (stored1 h m)
      (\<lambda>_ m'. ok m' \<and> be m' = be m \<and> view m' = (view m)(h \<mapsto> mark_ready b))"
    and failed1_law: "\<lbrakk>ok m; view m h = Some b; refs b < 0\<rbrakk> \<Longrightarrow> runs_to (failed1 h m)
      (\<lambda>_ m'. ok m' \<and> cb_num_blocks (be m') = cb_num_blocks (be m) \<and> view m' = (view m)(h := None))"
begin

lemma load_list:
  assumes "ok m" "\<forall>h\<in>set hs. ready (view m) h"
    "\<forall>h\<in>set hs. refs (the (view m h)) + int (count_list hs h) < 2 ^ 31"
  shows "runs_to (collect_each load1 hs m) (\<lambda>bs m'. ok m' \<and> be m' = be m \<and>
    map slot bs = map (\<lambda>h. slot (the (view m h))) hs \<and>
    view m' = (\<lambda>h. map_option (add_refs (int (count_list hs h))) (view m h)))"
  using assms
proof (induction hs arbitrary: m)
  case Nil
  then show ?case by (simp add: option.map_ident cong: option.map_cong)
next
  case (Cons h hs)
  obtain b where b: "view m h = Some b" "0 \<le> refs b" using Cons.prems(2) by (auto simp: ready_def)
  have up: "refs (add_refs 1 b) = refs b + 1"
    using Cons.prems(3) b refs_bounds(1) [of b] by (subst refs_add_refs) auto
  show ?case
    unfolding collect_each.simps post_rbind
  proof (rule runs_to_mono [OF load1_law [OF Cons.prems(1) b]])
    fix b' m' assume m': "ok m' \<and> be m' = be m \<and> view m' = (view m)(h \<mapsto> add_refs 1 b) \<and> slot b' = slot b"
    then have v: "view m' = (view m)(h \<mapsto> add_refs 1 b)" and bm: "be m' = be m" "slot b' = slot b" by blast+
    have pre: "\<forall>k\<in>set hs. ready (view m') k"
      using Cons.prems(2) b(2) up by (auto simp: v ready_def)
    have room: "\<forall>k\<in>set hs. refs (the (view m' k)) + int (count_list hs k) < 2 ^ 31"
    proof
      fix k assume "k \<in> set hs"
      with Cons.prems(3) have "refs (the (view m k)) + int (count_list (h # hs) k) < 2 ^ 31" by (metis list.set_intros(2))
      then show "refs (the (view m' k)) + int (count_list hs k) < 2 ^ 31"
        using b(1) up by (cases "k = h") (auto simp: v)
    qed
    have step: "(\<lambda>k. map_option (add_refs (int (count_list hs k))) (view m' k)) =
        (\<lambda>k. map_option (add_refs (int (count_list (h # hs) k))) (view m k))"
      using b(1) by (auto simp: v add_refs_add)
    have same: "slot (the (view m' k)) = slot (the (view m k))" for k
      using b(1) by (simp add: v)
    show "runs_to (collect_each load1 hs m') (\<lambda>ys s'. runs_to (return (b' # ys) s') (\<lambda>bs m'. ok m' \<and> be m' = be m \<and>
      map slot bs = map (\<lambda>h. slot (the (view m h))) (h # hs) \<and>
      view m' = (\<lambda>k. map_option (add_refs (int (count_list (h # hs) k))) (view m k))))"
      unfolding step [symmetric]
      by (rule runs_to_mono [OF Cons.IH [OF conjunct1 [OF m'] pre room]]) (use bm b(1) in \<open>auto simp: same\<close>)
  qed
qed

lemma unload_list:
  assumes "ok m" "\<forall>h\<in>set hs. \<exists>b. view m h = Some b \<and> int (count_list hs h) \<le> refs b"
  shows "runs_to (for_each unload1 hs m) (\<lambda>_ m'. ok m' \<and> be m' = be m \<and>
    view m' = (\<lambda>h. map_option (add_refs (- int (count_list hs h))) (view m h)))"
  using assms
proof (induction hs arbitrary: m)
  case Nil
  then show ?case by (simp add: option.map_ident cong: option.map_cong)
next
  case (Cons h hs)
  obtain b where b: "view m h = Some b" "int (count_list hs h) + 1 \<le> refs b"
    using Cons.prems(2) by fastforce
  have down: "refs (add_refs (- 1) b) = refs b - 1"
    using b(2) refs_bounds(2) [of b] by (subst refs_add_refs) auto
  have pos: "0 < refs b" using b(2) by linarith
  show ?case
    unfolding for_each.simps post_rbind
  proof (rule runs_to_mono [OF unload1_law [OF Cons.prems(1) b(1) pos]])
    fix u m' assume m': "ok m' \<and> be m' = be m \<and> view m' = (view m)(h \<mapsto> add_refs (- 1) b)"
    then have v: "view m' = (view m)(h \<mapsto> add_refs (- 1) b)" and bm: "be m' = be m" by blast+
    have pre: "\<forall>k\<in>set hs. \<exists>b. view m' k = Some b \<and> int (count_list hs k) \<le> refs b"
    proof
      fix k assume "k \<in> set hs"
      with Cons.prems(2) obtain c where "view m k = Some c" "int (count_list (h # hs) k) \<le> refs c"
        by (metis list.set_intros(2))
      then show "\<exists>b. view m' k = Some b \<and> int (count_list hs k) \<le> refs b"
        using b down by (cases "k = h") (auto simp: v)
    qed
    have step: "(\<lambda>k. map_option (add_refs (- int (count_list hs k))) (view m' k)) =
        (\<lambda>k. map_option (add_refs (- int (count_list (h # hs) k))) (view m k))"
      using b(1) by (auto simp: v add_refs_add)
    show "runs_to (for_each unload1 hs m') (\<lambda>_ m'. ok m' \<and> be m' = be m \<and>
      view m' = (\<lambda>k. map_option (add_refs (- int (count_list (h # hs) k))) (view m k)))"
      unfolding step [symmetric]
      by (rule runs_to_mono [OF Cons.IH [OF conjunct1 [OF m'] pre]]) (use bm in auto)
  qed
qed

lemma mark_ready_twice: "mark_ready (mark_ready b) = mark_ready b"
  by (simp add: mark_ready_def is_ready_def)

lemma stored_list:
  assumes "ok m" "\<forall>h\<in>set hs. view m h \<noteq> None"
  shows "runs_to (collect_each stored1 hs m) (\<lambda>_ m'. ok m' \<and> be m' = be m \<and>
    view m' = (\<lambda>h. if h \<in> set hs then map_option mark_ready (view m h) else view m h))"
  using assms
proof (induction hs arbitrary: m)
  case (Cons h hs)
  obtain b where b: "view m h = Some b" using Cons.prems(2) by auto
  show ?case
    unfolding collect_each.simps post_rbind
  proof (rule runs_to_mono [OF stored1_law [OF Cons.prems(1) b]])
    fix x m' assume m': "ok m' \<and> be m' = be m \<and> view m' = (view m)(h \<mapsto> mark_ready b)"
    then have v: "view m' = (view m)(h \<mapsto> mark_ready b)" and bm: "be m' = be m" by blast+
    have pre: "\<forall>k\<in>set hs. view m' k \<noteq> None" using Cons.prems(2) by (simp add: v)
    have step: "(\<lambda>k. if k \<in> set hs then map_option mark_ready (view m' k) else view m' k) =
        (\<lambda>k. if k \<in> set (h # hs) then map_option mark_ready (view m k) else view m k)"
      using b by (auto simp: v mark_ready_twice)
    show "runs_to (collect_each stored1 hs m') (\<lambda>ys s'. runs_to (return (x # ys) s') (\<lambda>_ m'. ok m' \<and> be m' = be m \<and>
      view m' = (\<lambda>k. if k \<in> set (h # hs) then map_option mark_ready (view m k) else view m k)))"
      unfolding step [symmetric]
      by (rule runs_to_mono [OF Cons.IH [OF conjunct1 [OF m'] pre]]) (use bm in auto)
  qed
qed simp

lemma failed_list:
  assumes "ok m" "distinct hs" "\<forall>h\<in>set hs. \<exists>b. view m h = Some b \<and> refs b < 0"
  shows "runs_to (for_each failed1 hs m) (\<lambda>_ m'. ok m' \<and> cb_num_blocks (be m') = cb_num_blocks (be m) \<and>
    view m' = view m |` (- set hs))"
  using assms
proof (induction hs arbitrary: m)
  case (Cons h hs)
  obtain b where b: "view m h = Some b" "refs b < 0" using Cons.prems(3) by auto
  show ?case
    unfolding for_each.simps post_rbind
  proof (rule runs_to_mono [OF failed1_law [OF Cons.prems(1) b]])
    fix u m' assume m': "ok m' \<and> cb_num_blocks (be m') = cb_num_blocks (be m) \<and> view m' = (view m)(h := None)"
    then have v: "view m' = (view m)(h := None)" and bm: "cb_num_blocks (be m') = cb_num_blocks (be m)" by blast+
    have pre: "distinct hs" "\<forall>k\<in>set hs. \<exists>b. view m' k = Some b \<and> refs b < 0"
      using Cons.prems(2,3) by (auto simp: v)
    have step: "view m' |` (- set hs) = view m |` (- set (h # hs))"
      by (auto simp: v restrict_map_def)
    show "runs_to (for_each failed1 hs m') (\<lambda>_ m'. ok m' \<and> cb_num_blocks (be m') = cb_num_blocks (be m) \<and>
      view m' = view m |` (- set (h # hs)))"
      unfolding step [symmetric]
      by (rule runs_to_mono [OF Cons.IH [OF conjunct1 [OF m'] pre]]) (use bm in auto)
  qed
qed (simp add: restrict_map_def)

end

section \<open>The LRU manager block by block\<close>

definition lru_view :: "lru_manager \<Rightarrow> view" where
  "lru_view m = map_of (lm_blocks m)"

definition lru_blocks_ok :: "lru_manager \<Rightarrow> bool" where
  "lru_blocks_ok m \<longleftrightarrow> dict_wf (lm_blocks m) \<and> owns (lm_backend m) (lru_view m)"

lemma owns_counter:
  assumes "owns be v" "v h = Some b" "slot c = slot b"
  shows "owns be (v(h \<mapsto> c))"
  by (rule owns_same_slots [OF assms(1)]) (use assms(2,3) in \<open>auto split: if_splits\<close>)

lemma count_hits_eq: "count_hits v hs n = n + int (length (takeWhile (ready v) hs))"
  by (induction hs arbitrary: n) (auto simp: ready_def is_ready_refs split: option.split)

interpretation lru_table: block_table lru_blocks_ok lru_view lm_backend lm_load_one lm_unload_one lm_stored_one lm_failed_one
proof
  fix m h b
  assume a: "lru_blocks_ok m" "lru_view m h = Some b"
  then have g: "map_of (lm_blocks m) h = Some b" and w: "dict_wf (lm_blocks m)"
    and o: "owns (lm_backend m) (map_of (lm_blocks m))"
    by (auto simp: lru_blocks_ok_def lru_view_def)
  have keep: "lru_blocks_ok (lm_set h c m)" if "slot c = slot b" for c
    using w owns_counter [OF o g that] by (simp add: lru_blocks_ok_def lru_view_def lm_set_def)
  show "runs_to (lm_load_one h m) (\<lambda>b' m'. lru_blocks_ok m' \<and> lm_backend m' = lm_backend m \<and>
      lru_view m' = (lru_view m)(h \<mapsto> add_refs 1 b) \<and> slot b' = slot b)" if "0 \<le> refs b"
    using that g keep by (simp add: lm_load_one_def is_ready_refs res_simps Let_def add_refs_def)
      (simp add: lru_view_def lm_set_def)
  show "runs_to (lm_unload_one h m) (\<lambda>_ m'. lru_blocks_ok m' \<and> lm_backend m' = lm_backend m \<and>
      lru_view m' = (lru_view m)(h \<mapsto> add_refs (- 1) b))" if "0 < refs b"
    using that g keep by (simp add: lm_unload_one_def refs_def res_simps add_refs_def)
      (simp add: lru_view_def lm_set_def)
  show "runs_to (lm_stored_one h m) (\<lambda>_ m'. lru_blocks_ok m' \<and> lm_backend m' = lm_backend m \<and>
      lru_view m' = (lru_view m)(h \<mapsto> mark_ready b))"
    using g keep a by (auto simp: lm_stored_one_def mark_ready_def lru_view_def lm_set_def)
  show "runs_to (lm_failed_one h m) (\<lambda>_ m'. lru_blocks_ok m' \<and> cb_num_blocks (lm_backend m') = cb_num_blocks (lm_backend m) \<and>
      lru_view m' = (lru_view m)(h := None))" if "refs b < 0"
    using that g w owns_free [OF o g] by (simp add: lm_failed_one_def is_ready_refs lru_blocks_ok_def lru_view_def)
qed

section \<open>Making room\<close>

definition idle_blocks :: "block_hash set \<Rightarrow> (block_hash, block_status) dict \<Rightarrow> block_hash list" where
  "idle_blocks protected d = map fst (filter (\<lambda>(h, b). refs b = 0 \<and> h \<notin> protected) d)"

lemma evict_scan_eq:
  "0 < n \<Longrightarrow> evict_scan protected d n acc =
     (if n \<le> int (length (idle_blocks protected d)) then Some (acc @ take (nat n) (idle_blocks protected d)) else None)"
proof (induction protected d n acc rule: evict_scan.induct)
  case (2 protected h b d n acc)
  show ?case
  proof (cases "refs b = 0 \<and> h \<notin> protected")
    case idle: True
    show ?thesis
    proof (cases "n = 1")
      case False
      then have "nat n = Suc (nat (n - 1))" "0 < n - 1" using 2(3) by auto
      then show ?thesis using idle 2(1) False by (auto simp: idle_blocks_def refs_def)
    qed (use idle in \<open>simp add: idle_blocks_def refs_def\<close>)
  qed (use 2(2,3) in \<open>auto simp: idle_blocks_def refs_def\<close>)
qed (simp add: idle_blocks_def)

lemma idle_blocks_set: "dict_wf d \<Longrightarrow> set (idle_blocks protected d) = evictable (map_of d) - protected"
  by (force simp: idle_blocks_def evictable_def)

lemma idle_blocks_distinct: "dict_wf d \<Longrightarrow> distinct (idle_blocks protected d)"
  by (simp add: idle_blocks_def distinct_map_filter)

lemma evict_list:
  assumes "lru_blocks_ok m" "distinct ev" "set ev \<subseteq> dom (lru_view m)"
  shows "runs_to (for_each lm_evict_one ev m) (\<lambda>_ m'. lru_blocks_ok m' \<and> lru_view m' = lru_view m |` (- set ev) \<and>
    backend_num_free (lm_backend m') = backend_num_free (lm_backend m) + int (length ev) \<and>
    cb_num_blocks (lm_backend m') = cb_num_blocks (lm_backend m) \<and>
    lm_blocks m' = filter (\<lambda>(h, b). h \<notin> set ev) (lm_blocks m) \<and> lm_events m' = lm_events m \<and>
    add_event es removed (lm_backend m') = add_event es removed (lm_backend m))"
  using assms
proof (induction ev arbitrary: m)
  case Nil
  then show ?case by (simp add: case_prod_unfold)
next
  case (Cons h ev)
  obtain b where b: "map_of (lm_blocks m) h = Some b" using Cons.prems(3) by (auto simp: lru_view_def)
  define m' where "m' = m\<lparr>lm_blocks := AList.delete h (lm_blocks m), lm_backend := backend_free b (lm_backend m)\<rparr>"
  have o: "owns (lm_backend m) (map_of (lm_blocks m))" using Cons.prems(1) by (simp add: lru_blocks_ok_def lru_view_def)
  have ok: "lru_blocks_ok m'" using Cons.prems(1) owns_free(1) [OF o b]
    by (simp add: lru_blocks_ok_def lru_view_def m'_def)
  have v: "lru_view m' = (lru_view m)(h := None)" by (simp add: lru_view_def m'_def)
  have sub: "set ev \<subseteq> dom (lru_view m')" "distinct ev" using Cons.prems(2,3) by (auto simp: v)
  have nums: "backend_num_free (lm_backend m') = backend_num_free (lm_backend m) + 1"
    "cb_num_blocks (lm_backend m') = cb_num_blocks (lm_backend m)"
    using owns_free(2,3) [OF o b] by (simp_all add: m'_def)
  have step: "lru_view m' |` (- set ev) = lru_view m |` (- set (h # ev))"
    by (auto simp: v restrict_map_def)
  have fil: "filter (\<lambda>(h, b). h \<notin> set ev) (lm_blocks m') = filter (\<lambda>(k, b). k \<notin> set (h # ev)) (lm_blocks m)"
    by (auto simp: m'_def AList.delete_eq case_prod_unfold intro: filter_cong)
  have evs: "lm_events m' = lm_events m" "add_event es removed (lm_backend m') = add_event es removed (lm_backend m)"
    by (auto simp: m'_def add_event_def backend_free_def fun_eq_iff)
  have run: "lm_evict_one h m = return () m'" using b by (simp add: lm_evict_one_def m'_def)
  show ?case
    unfolding for_each.simps post_rbind run post_return
    by (rule runs_to_mono [OF Cons.IH [OF ok sub(2,1)]]) (use nums in \<open>simp add: step fil evs\<close>)
qed

lemma fold_lm_set:
  assumes "length bs = length hs" "distinct hs" "\<forall>h\<in>set hs. h \<notin> fst ` set (lm_blocks m)"
  shows "fold (\<lambda>(h, b). lm_set h b) (zip hs bs) m = m\<lparr>lm_blocks := lm_blocks m @ zip hs bs\<rparr>"
  using assms
proof (induction hs bs arbitrary: m rule: list_induct2')
  case (4 h hs b bs)
  let ?m = "lm_set h b m"
  have m: "lm_blocks ?m = lm_blocks m @ [(h, b)]" using 4(4) by (simp add: lm_set_def update_fresh)
  have "fold (\<lambda>(h, b). lm_set h b) (zip hs bs) ?m = ?m\<lparr>lm_blocks := lm_blocks ?m @ zip hs bs\<rparr>"
    by (rule 4(1)) (use 4(2-4) in \<open>auto simp: m\<close>)
  then show ?case by (simp add: m) (simp add: lm_set_def)
qed auto

text \<open>\<open>prepare_store\<close> in full: the outcome, the victims and the order of the table.\<close>

lemma lru_prepare_store:
  assumes "lru_blocks_ok m" "distinct hs"
  defines "idle \<equiv> idle_blocks (set hs) (lm_blocks m)"
    and "new \<equiv> filter (\<lambda>h. lru_view m h = None) hs"
    and "need \<equiv> int (length (filter (\<lambda>h. lru_view m h = None) hs)) - backend_num_free (lm_backend m)"
  shows "runs_to (lm_prepare_store hs m) (\<lambda>res m'.
    if need \<le> int (length idle)
    then \<exists>bs. lru_blocks_ok m' \<and> length bs = length new \<and> (\<forall>b\<in>set bs. refs b = - 1) \<and>
      res = Some \<lparr>so_to_store = new, so_spec = map slot bs, so_evicted = take (nat need) idle\<rparr> \<and>
      lm_blocks m' = filter (\<lambda>(h, b). h \<notin> set (take (nat need) idle)) (lm_blocks m) @ zip new bs \<and>
      cb_num_blocks (lm_backend m') = cb_num_blocks (lm_backend m) \<and>
      lm_events m' = add_event (take (nat need) idle) True (lm_backend m) (lm_events m)
    else res = None \<and> m' = m)"
proof -
  define ev where "ev = take (nat need) idle"
  have w: "dict_wf (lm_blocks m)" and o: "owns (lm_backend m) (lru_view m)" using assms(1) by (auto simp: lru_blocks_ok_def)
  have scan: "(if need > 0 then evict_scan (set hs) (lm_blocks m) need [] else Some []) =
      (if need \<le> int (length idle) then Some ev else None)"
    by (simp add: evict_scan_eq ev_def flip: idle_def)
  have need_eq: "int (length new) - backend_num_free (lm_backend m) = need" by (simp add: need_def new_def)
  have def_eq: "lm_prepare_store hs m = (case (if need \<le> int (length idle) then Some ev else None) of
      None \<Rightarrow> return None m
    | Some to_evict \<Rightarrow> rbind (for_each lm_evict_one to_evict m) (\<lambda>_ m.
        let m = m\<lparr>lm_events := add_event to_evict True (lm_backend m) (lm_events m)\<rparr>
        in rbind (on_part lm_backend (\<lambda>be m. m\<lparr>lm_backend := be\<rparr>) (allocate_blocks new) m)
          (\<lambda>bs m. rbind (assert_that (length bs = length new) ''one block per hash'' m)
            (\<lambda>_ m. return (Some \<lparr>so_to_store = new, so_spec = get_load_store_spec bs, so_evicted = to_evict\<rparr>)
              (fold (\<lambda>(h, b). lm_set h b) (zip new bs) m)))))"
    unfolding lm_prepare_store_def Let_def lru_view_def [symmetric] new_def [symmetric] need_eq scan by (rule refl)
  show ?thesis
  proof (cases "need \<le> int (length idle)")
    case False
    then show ?thesis unfolding def_eq by simp
  next
    case True
    have evd: "distinct ev" "set ev \<subseteq> set idle" using idle_blocks_distinct [OF w]
      by (auto simp: ev_def idle_def dest: in_set_takeD)
    have evs: "set ev \<subseteq> dom (lru_view m)" using evd(2) idle_blocks_set [OF w]
      by (auto simp: idle_def lru_view_def evictable_def)
    have lev: "int (length ev) = max 0 need" using True by (simp add: ev_def)
    note evict = evict_list [OF assms(1) evd(1) evs, of ev True]
    show ?thesis
      unfolding def_eq if_P [OF True] option.case post_rbind ev_def [symmetric]
    proof (rule runs_to_mono [OF evict], goal_cases)
      case (1 u m1)
      then have ok1: "lru_blocks_ok m1" and v1: "lru_view m1 = lru_view m |` (- set ev)"
        and n1: "backend_num_free (lm_backend m1) = backend_num_free (lm_backend m) + int (length ev)"
        and c1: "cb_num_blocks (lm_backend m1) = cb_num_blocks (lm_backend m)"
        and b1: "lm_blocks m1 = filter (\<lambda>(h, b). h \<notin> set ev) (lm_blocks m)"
        and e1: "add_event ev True (lm_backend m1) (lm_events m1) = add_event ev True (lm_backend m) (lm_events m)"
        by auto
      have o1: "owns (lm_backend m1) (lru_view m1)" and w1: "dict_wf (lm_blocks m1)" using ok1 by (auto simp: lru_blocks_ok_def)
      have dn: "distinct new" "\<forall>h\<in>set new. lru_view m1 h = None"
        using assms(2) by (auto simp: new_def v1 restrict_map_def)
      have room: "int (length new) \<le> backend_num_free (lm_backend m1)"
        using lev n1 by (simp add: need_def new_def)
      show ?case
        unfolding Let_def e1 post_rbind post_on_part
      proof (simp, rule runs_to_mono [OF owns_allocate [OF o1 dn room]], goal_cases)
        case (1 bs be')
        then have bs: "length bs = length new" "\<forall>b\<in>set bs. refs b = - 1"
          and o2: "owns be' (lru_view m1 ++ map_of (zip new bs))"
          and c2: "cb_num_blocks be' = cb_num_blocks (lm_backend m1)" by auto
        have nk: "\<forall>h\<in>set new. h \<notin> fst ` set (lm_blocks m1)"
          using dn(2) by (auto simp: lru_view_def map_of_eq_None_iff)
        let ?m = "m1\<lparr>lm_events := add_event ev True (lm_backend m) (lm_events m), lm_backend := be'\<rparr>"
        have fold: "fold (\<lambda>(h, b). lm_set h b) (zip new bs) ?m = ?m\<lparr>lm_blocks := lm_blocks m1 @ zip new bs\<rparr>"
          using fold_lm_set [of bs new ?m] bs(1) dn(1) nk by simp
        have un: "map_of (zip new bs) ++ lru_view m1 = lru_view m1 ++ map_of (zip new bs)"
          using dn(2) bs(1) by (intro map_add_comm) (auto simp: dom_def dest: map_of_SomeD in_set_zipE)
        have "lru_blocks_ok (?m\<lparr>lm_blocks := lm_blocks m1 @ zip new bs\<rparr>)"
          using o2 w1 nk dn(1) bs(1) un by (auto simp: lru_blocks_ok_def lru_view_def map_of_append in_set_zip)
        then show ?case
          using bs c1 c2 by (simp add: post_assert fold b1 get_load_store_spec_def slot_def [abs_def])
            (intro exI [of _ bs], simp)
      qed
    qed
  qed
qed

section \<open>The contract is met\<close>

lemma map_of_drop_keys: "map_of (filter (\<lambda>(k, v). k \<notin> A) d) = map_of d |` (- A)"
  by (induction d) (auto simp: fun_eq_iff restrict_map_def)

lemma lru_store_contract:
  assumes "lru_blocks_ok m" "distinct hs"
  shows "runs_to (lm_prepare_store hs m) (\<lambda>res m'. lru_blocks_ok m' \<and>
    cb_num_blocks (lm_backend m') = cb_num_blocks (lm_backend m) \<and>
    store_contract (lm_backend m) (lru_view m) hs res (lru_view m'))"
proof -
  define idle where "idle = idle_blocks (set hs) (lm_blocks m)"
  define new where "new = filter (\<lambda>h. lru_view m h = None) hs"
  define need where "need = int (length new) - backend_num_free (lm_backend m)"
  define ev where "ev = take (nat need) idle"
  have w: "dict_wf (lm_blocks m)" using assms(1) by (simp add: lru_blocks_ok_def)
  have evd: "distinct ev" "set ev \<subseteq> evictable (lru_view m) - set hs"
    using idle_blocks_distinct [OF w] idle_blocks_set [OF w]
    by (auto simp: ev_def idle_def lru_view_def dest!: in_set_takeD)
  have len: "need \<le> int (length idle) \<Longrightarrow> int (length ev) = max 0 need" by (simp add: ev_def)
  have view: "map_of (filter (\<lambda>(h, b). h \<notin> set ev) (lm_blocks m) @ zip new bs) =
      (lru_view m |` (- set ev)) ++ map_of (zip new bs)" if "length bs = length new" for bs
  proof -
    have r: "map_of (filter (\<lambda>(h, b). h \<notin> set ev) (lm_blocks m)) = lru_view m |` (- set ev)"
      by (simp add: lru_view_def map_of_drop_keys)
    show ?thesis unfolding map_of_append r
      by (intro map_add_comm) (auto simp: dom_def new_def restrict_map_def dest!: map_of_SomeD set_zip_leftD)
  qed
  show ?thesis
    using lru_prepare_store [OF assms, folded new_def, folded idle_def need_def, folded ev_def]
  proof (rule runs_to_mono)
    fix res m'
    assume *: "if need \<le> int (length idle)
      then \<exists>bs. lru_blocks_ok m' \<and> length bs = length new \<and> (\<forall>b\<in>set bs. refs b = - 1) \<and>
        res = Some \<lparr>so_to_store = new, so_spec = map slot bs, so_evicted = ev\<rparr> \<and>
        lm_blocks m' = filter (\<lambda>(h, b). h \<notin> set ev) (lm_blocks m) @ zip new bs \<and>
        cb_num_blocks (lm_backend m') = cb_num_blocks (lm_backend m) \<and>
        lm_events m' = add_event ev True (lm_backend m) (lm_events m)
      else res = None \<and> m' = m"
    show "lru_blocks_ok m' \<and> cb_num_blocks (lm_backend m') = cb_num_blocks (lm_backend m) \<and>
      store_contract (lm_backend m) (lru_view m) hs res (lru_view m')"
    proof (cases "need \<le> int (length idle)")
      case True
      with * obtain bs where bs: "lru_blocks_ok m'" "length bs = length new" "\<forall>b\<in>set bs. refs b = - 1"
        "res = Some \<lparr>so_to_store = new, so_spec = map slot bs, so_evicted = ev\<rparr>"
        "lm_blocks m' = filter (\<lambda>(h, b). h \<notin> set ev) (lm_blocks m) @ zip new bs"
        "cb_num_blocks (lm_backend m') = cb_num_blocks (lm_backend m)" by auto
      have "lru_view m' = (lru_view m |` (- set ev)) ++ map_of (zip new bs)"
        using view [OF bs(2)] by (simp add: lru_view_def bs(5))
      then have "store_contract (lm_backend m) (lru_view m) hs res (lru_view m')"
        unfolding store_contract_def bs(4) option.case
        using evd len [OF True] bs(2,3) by (intro conjI exI [of _ bs]) (simp_all add: new_def need_def)
      with bs show ?thesis by simp
    next
      case False
      with * have "res = None" "m' = m" by auto
      moreover have "store_contract (lm_backend m) (lru_view m) hs None (lru_view m)"
        unfolding store_contract_def option.case by (rule exI [of _ "{}"]) (simp add: restrict_map_def)
      ultimately show ?thesis using assms(1) by simp
    qed
  qed
qed

lemma move_to_end_get [simp]: "map_of (move_to_end k d) = map_of d"
proof (cases "map_of d k")
  case (Some v)
  then show ?thesis by (auto simp: move_to_end_def map_add_def fun_eq_iff split: option.split)
qed (simp add: move_to_end_def)

lemma move_to_end_wf [simp]: "dict_wf d \<Longrightarrow> dict_wf (move_to_end k d)"
  by (simp add: move_to_end_def split: option.split)

lemma move_to_end_keys [simp]: "fst ` set (move_to_end k d) = fst ` set d"
  by (metis dom_map_of_conv_image_fst move_to_end_get)

lemma lm_touch_keeps:
  assumes "lru_blocks_ok m"
  shows "lru_blocks_ok (fold lm_touch_one hs m) \<and> lru_view (fold lm_touch_one hs m) = lru_view m \<and>
    lm_backend (fold lm_touch_one hs m) = lm_backend m"
  using assms
proof (induction hs arbitrary: m)
  case (Cons h hs)
  have one: "lru_blocks_ok (lm_touch_one h m) \<and> lru_view (lm_touch_one h m) = lru_view m \<and>
      lm_backend (lm_touch_one h m) = lm_backend m"
    using Cons.prems by (simp add: lm_touch_one_def lru_blocks_ok_def lru_view_def)
  with Cons.IH [of "lm_touch_one h m"] show ?case by simp
qed simp

interpretation lru: offloading_manager lru_ops lru_blocks_ok lru_view lm_backend
proof
  fix m :: lru_manager and hs
  assume ok: "lru_blocks_ok m"
  show "owns (lm_backend m) (lru_view m)" using ok by (simp add: lru_blocks_ok_def)
  show "runs_to (op_lookup lru_ops hs m) (\<lambda>n m'. lru_blocks_ok m' \<and> lru_view m' = lru_view m \<and> lm_backend m' = lm_backend m \<and>
      n = Some (int (length (takeWhile (ready (lru_view m)) hs))))"
    using ok by (simp add: lru_ops_def lm_lookup_def count_hits_eq lru_view_def)
  show "runs_to (op_touch lru_ops hs m) (\<lambda>_ m'. lru_blocks_ok m' \<and> lru_view m' = lru_view m \<and> lm_backend m' = lm_backend m)"
    using lm_touch_keeps [OF ok] by (simp add: lru_ops_def lm_touch_def)
  show "runs_to (op_take_events lru_ops m) (\<lambda>_ m'. lru_blocks_ok m' \<and> lru_view m' = lru_view m \<and> lm_backend m' = lm_backend m)"
    using ok by (simp add: lru_ops_def lm_take_events_def lru_blocks_ok_def lru_view_def split: option.split)
  show "runs_to (op_prepare_load lru_ops hs m) (\<lambda>ids m'. lru_blocks_ok m' \<and> lm_backend m' = lm_backend m \<and>
      ids = map (\<lambda>h. slot (the (lru_view m h))) hs \<and>
      lru_view m' = (\<lambda>h. map_option (add_refs (int (count_list hs h))) (lru_view m h)))"
    if "\<forall>h\<in>set hs. ready (lru_view m) h" "\<forall>h\<in>set hs. refs (the (lru_view m h)) + int (count_list hs h) < 2 ^ 31"
    using lru_table.load_list [OF ok that]
    by (simp add: lru_ops_def lm_prepare_load_def post_rbind get_load_store_spec_def flip: slot_def)
  show "runs_to (op_complete_load lru_ops hs m) (\<lambda>_ m'. lru_blocks_ok m' \<and> lm_backend m' = lm_backend m \<and>
      lru_view m' = (\<lambda>h. map_option (add_refs (- int (count_list hs h))) (lru_view m h)))"
    if "\<forall>h\<in>set hs. \<exists>b. lru_view m h = Some b \<and> int (count_list hs h) \<le> refs b"
    using lru_table.unload_list [OF ok that] by (simp add: lru_ops_def lm_complete_load_def)
  show "runs_to (op_prepare_store lru_ops hs m) (\<lambda>res m'. lru_blocks_ok m' \<and>
      cb_num_blocks (lm_backend m') = cb_num_blocks (lm_backend m) \<and>
      (\<exists>hs'. set hs' \<subseteq> set hs \<and> distinct hs' \<and> store_contract (lm_backend m) (lru_view m) hs' res (lru_view m')))"
    if "distinct hs"
    by (simp add: lru_ops_def, rule runs_to_mono [OF lru_store_contract [OF ok that]]) (use that in blast)
  show "runs_to (op_complete_store lru_ops hs True m) (\<lambda>_ m'. lru_blocks_ok m' \<and> lm_backend m' = lm_backend m \<and>
      lru_view m' = (\<lambda>h. if h \<in> set hs then map_option mark_ready (lru_view m h) else lru_view m h))"
    if "\<forall>h\<in>set hs. lru_view m h \<noteq> None"
    using lru_table.stored_list [OF ok that]
    by (simp add: lru_ops_def lm_complete_store_def post_rbind lru_blocks_ok_def lru_view_def)
  show "runs_to (op_complete_store lru_ops hs False m) (\<lambda>_ m'. lru_blocks_ok m' \<and>
      cb_num_blocks (lm_backend m') = cb_num_blocks (lm_backend m) \<and> lru_view m' = lru_view m |` (- set hs))"
    if "distinct hs" "\<forall>h\<in>set hs. \<exists>b. lru_view m h = Some b \<and> refs b < 0"
    using lru_table.failed_list [OF ok that] by (simp add: lru_ops_def lm_complete_store_def)
qed

lemma backend_init_owns: "0 \<le> n \<Longrightarrow> n \<le> 2 ^ 63 \<Longrightarrow> owns (cpu_backend_init bs n) Map.empty"
  by (auto simp: owns_def backend_wf_def cpu_backend_init_def used_slots_def free_slots_def bij_betw_def)

lemma lru_init_ok:
  "0 \<le> n \<Longrightarrow> n \<le> 2 ^ 63 \<Longrightarrow> lru_blocks_ok (lru_manager_init (cpu_backend_init bs n) ev)"
  "lru_view (lru_manager_init be ev) = Map.empty"
  using backend_init_owns by (simp_all add: lru_blocks_ok_def lru_view_def lru_manager_init_def)

end
