(* ===== verification/Offload_ARC.thy ===== *)
theory Offload_ARC
  imports KV_Offload_ARC Offload_LRU
begin

text \<open>
  The ARC manager meets the same contract as the LRU manager, so a load reads what was
  stored; its four lists stay disjoint and its target stays between 0 and the capacity.
  The concrete runs at the end show where it departs from the interface: a store can be
  refused although an idle block could make room, and reporting a failed store of a block
  that is readable drops the block without freeing its slot.
\<close>

section \<open>Invariant\<close>

definition arc_lists :: "arc_manager \<Rightarrow> block_hash list" where
  "arc_lists m = map fst (am_t1 m) @ map fst (am_t2 m) @ map fst (am_b1 m) @ map fst (am_b2 m)"

definition arc_ok :: "arc_manager \<Rightarrow> bool" where
  "arc_ok m \<longleftrightarrow> distinct (arc_lists m) \<and> owns (am_backend m) (arc_get m) \<and>
     0 \<le> am_target_t1_size m \<and> am_target_t1_size m \<le> of_int (am_cache_capacity m) \<and>
     am_cache_capacity m \<le> 2 ^ 53"

lemma arc_get_eq: "arc_get m = map_of (am_t2 m) ++ map_of (am_t1 m)"
  by (auto simp: arc_get_def map_add_def fun_eq_iff split: option.split)

lemma round_half_even_nonneg: "0 \<le> x \<Longrightarrow> 0 \<le> round_half_even x"
  by (simp add: round_half_even_def Let_def)

lemma float_round_nonneg: "0 \<le> x \<Longrightarrow> 0 \<le> float_round x"
  by (simp add: float_round_def Let_def round_half_even_nonneg)

lemma float_round_nonpos: "x \<le> 0 \<Longrightarrow> float_round x \<le> 0"
proof (cases "x = 0")
  case False
  assume "x \<le> 0"
  with False have "sgn x = - 1" by simp
  moreover have "0 \<le> round_half_even (\<bar>x\<bar> / 2 powi (binary_exponent \<bar>x\<bar> - 52))"
    by (simp add: round_half_even_nonneg)
  ultimately show ?thesis using False by (simp add: float_round_def Let_def del: abs_of_nonpos)
qed (simp add: float_round_def)

lemma bit_length_bounds: "0 < n \<Longrightarrow> 2 ^ (bit_length n - 1) \<le> n \<and> n < 2 ^ bit_length n"
proof (induction n rule: bit_length.induct)
  case (1 n)
  show ?case
  proof (cases "n div 2 = 0")
    case True
    then have "n = 1" using 1(2) by auto
    then show ?thesis by (simp add: bit_length.simps)
  next
    case False
    with 1 have ih: "2 ^ (bit_length (n div 2) - 1) \<le> n div 2" "n div 2 < 2 ^ bit_length (n div 2)" by auto
    have "bit_length (n div 2) \<noteq> 0" using False by (subst bit_length.simps) auto
    then obtain k where k: "bit_length (n div 2) = Suc k" using not0_implies_Suc by blast
    have "bit_length n = Suc (Suc k)" using 1(2) k by (subst bit_length.simps) simp
    then show ?thesis using ih k by (simp, linarith)
  qed
qed

lemma binary_exponent_le: "0 < x \<Longrightarrow> 2 powi binary_exponent x \<le> x"
proof -
  assume x: "0 < x"
  obtain n d where nd: "quotient_of x = (n, d)" by fastforce
  have d: "0 < d" using quotient_of_denom_pos [OF nd] .
  have xe: "x = of_int n / of_int d" using quotient_of_div [OF nd] .
  have n: "0 < n" using x d unfolding xe by (simp add: zero_less_divide_iff)
  define a b where "a = bit_length (nat n) - 1" and "b = bit_length (nat d)"
  have "2 ^ a \<le> nat n" "nat d < 2 ^ b"
    using bit_length_bounds [of "nat n"] bit_length_bounds [of "nat d"] n d by (auto simp: a_def b_def)
  then have "(2 :: rat) ^ a \<le> of_nat (nat n)" "of_nat (nat d) \<le> (2 :: rat) ^ b"
    by (metis of_nat_le_iff of_nat_numeral of_nat_power, metis of_nat_le_iff of_nat_numeral of_nat_power less_imp_le)
  then have le: "(2 :: rat) ^ a \<le> of_int n" "of_int d \<le> (2 :: rat) ^ b" using n d by simp_all
  have "bit_length (nat n) \<noteq> 0" using n by (subst bit_length.simps) simp
  then have la: "bit_length (nat n) = Suc a" by (simp add: a_def)
  have "(2 :: rat) powi (int a - int b) = 2 ^ a / 2 ^ b" by (simp add: power_int_diff)
  also have "\<dots> \<le> of_int n / of_int d" using le d n by (intro frac_le) auto
  finally have low: "2 powi (int a - int b) \<le> x" unfolding xe .
  show ?thesis
    using low by (simp add: binary_exponent_def nd la b_def Let_def)
qed

lemma round_half_even_upper: "of_int (round_half_even x) \<le> x + 1 / 2"
proof -
  have *: "of_int \<lfloor>x\<rfloor> \<le> x" by simp
  show ?thesis
  proof (cases "x - of_int \<lfloor>x\<rfloor> < 1 / 2 \<or> (x - of_int \<lfloor>x\<rfloor> = 1 / 2 \<and> even \<lfloor>x\<rfloor>)")
    case True
    then have "round_half_even x = \<lfloor>x\<rfloor>" by (simp add: round_half_even_def Let_def)
    with * show ?thesis by linarith
  next
    case False
    then have "round_half_even x = \<lfloor>x\<rfloor> + 1" unfolding round_half_even_def Let_def by (rule if_not_P)
    then have "of_int (round_half_even x) = of_int \<lfloor>x\<rfloor> + (1 :: rat)" by simp
    moreover have "1 / 2 \<le> x - of_int \<lfloor>x\<rfloor>" using False by linarith
    ultimately show ?thesis by linarith
  qed
qed

lemma binary_exponent_small:
  assumes "0 < x" "x < 2 ^ 53"
  shows "binary_exponent x \<le> 52"
proof (rule ccontr)
  assume "\<not> binary_exponent x \<le> 52"
  then have "(2 :: rat) powi 53 \<le> 2 powi binary_exponent x" by (intro power_int_increasing) auto
  with binary_exponent_le [OF assms(1)] assms(2) show False by simp
qed

text \<open>Integers below \<open>2\<^sup>53\<close> are floats.\<close>

lemma round_half_even_int: "round_half_even (of_int k) = k"
  by (simp add: round_half_even_def)

lemma float_round_int:
  assumes "\<bar>n\<bar> < 2 ^ 53"
  shows "float_round (of_int n) = of_int n"
proof (cases "n = 0")
  case False
  define x :: rat where "x = of_int \<bar>n\<bar>"
  have x: "0 < x" "x < 2 ^ 53" unfolding x_def using False assms by (simp, metis of_int_less_iff of_int_numeral of_int_power)
  define k where "k = nat (52 - binary_exponent x)"
  have k: "binary_exponent x - 52 = - int k" using binary_exponent_small [OF x] by (simp add: k_def)
  have "x / 2 powi (binary_exponent x - 52) = of_int (\<bar>n\<bar> * 2 ^ k)"
    unfolding k by (simp add: x_def power_int_minus field_simps)
  then have "round_half_even (x / 2 powi (binary_exponent x - 52)) = \<bar>n\<bar> * 2 ^ k"
    by (simp only: round_half_even_int)
  moreover have "(of_int (\<bar>n\<bar> * 2 ^ k) :: rat) * 2 powi (binary_exponent x - 52) = x"
    unfolding k by (simp add: x_def power_int_minus field_simps)
  moreover have "float_round (of_int n) = sgn (of_int n) *
      (of_int (round_half_even (x / 2 powi (binary_exponent x - 52))) * 2 powi (binary_exponent x - 52))"
    using False by (simp add: float_round_def Let_def x_def mult.assoc)
  ultimately have "float_round (of_int n) = sgn (of_int n) * x" by simp
  then show ?thesis by (simp add: x_def sgn_mult_abs)
qed (simp add: float_round_def)

lemma float_round_code [code]:
  "float_round x =
     (if x = of_int \<lfloor>x\<rfloor> \<and> \<bar>\<lfloor>x\<rfloor>\<bar> < 2 ^ 53 then x
      else let ulp = 2 powi (binary_exponent \<bar>x\<bar> - 52)
           in sgn x * of_int (round_half_even (\<bar>x\<bar> / ulp)) * ulp)"
proof (cases "x = of_int \<lfloor>x\<rfloor> \<and> \<bar>\<lfloor>x\<rfloor>\<bar> < 2 ^ 53")
  case True
  then show ?thesis using float_round_int [of "\<lfloor>x\<rfloor>"] by simp
next
  case False
  then have "x \<noteq> 0" by auto
  with False show ?thesis unfolding if_not_P [OF False] by (simp add: float_round_def)
qed

text \<open>Below \<open>2\<^sup>53\<close> the distance between floats is at most 1.\<close>

lemma float_round_upper:
  assumes "0 < x" "x < 2 ^ 53"
  shows "float_round x \<le> x + 1 / 2"
proof -
  define u :: rat where "u = 2 powi (binary_exponent x - 52)"
  have u: "0 < u" by (simp add: u_def)
  have "binary_exponent x \<le> 52" by (rule binary_exponent_small [OF assms])
  then have "u \<le> 2 powi 0" unfolding u_def by (intro power_int_increasing) auto
  then have u1: "u \<le> 1" by simp
  have "float_round x = of_int (round_half_even (x / u)) * u"
    using assms(1) by (simp add: float_round_def u_def Let_def)
  also have "\<dots> \<le> (x / u + 1 / 2) * u" using u round_half_even_upper by (intro mult_right_mono) auto
  also have "\<dots> = x + u / 2" using u by (simp add: field_simps)
  also have "\<dots> \<le> x + 1 / 2" using u1 by simp
  finally show ?thesis .
qed

lemma arc_set_get:
  "arc_get m h = Some b \<Longrightarrow> arc_get (arc_set h c m) = (arc_get m)(h \<mapsto> c)"
  by (auto simp: arc_get_def arc_set_def fun_eq_iff split: option.splits)

lemma update_keys_present: "k \<in> set (map fst d) \<Longrightarrow> map fst (AList.update k v d) = map fst d"
  by (induction d) auto

lemma arc_set_lists: "arc_get m h = Some b \<Longrightarrow> arc_lists (arc_set h c m) = arc_lists m"
  by (auto simp: arc_get_def arc_set_def arc_lists_def split: option.splits
      dest!: map_of_SomeD intro!: update_keys_present)
    (metis fst_conv image_eqI list.set_map map_of_SomeD)+

lemma arc_set_rest [simp]:
  "am_backend (arc_set h c m) = am_backend m" "am_target_t1_size (arc_set h c m) = am_target_t1_size m"
  "am_cache_capacity (arc_set h c m) = am_cache_capacity m"
  by (simp_all add: arc_set_def)

lemma arc_okD:
  assumes "arc_ok m"
  shows "distinct (arc_lists m)" "owns (am_backend m) (arc_get m)" "0 \<le> am_target_t1_size m"
    "am_target_t1_size m \<le> of_int (am_cache_capacity m)"
    "dict_wf (am_t1 m)" "dict_wf (am_t2 m)" "dict_wf (am_b1 m)" "dict_wf (am_b2 m)" "am_cache_capacity m \<le> 2 ^ 53"
  using assms by (auto simp: arc_ok_def arc_lists_def)

lemma arc_get_cases:
  assumes "arc_ok m" "arc_get m h = Some b"
  obtains (t1) "map_of (am_t1 m) h = Some b" "map_of (am_t2 m) h = None"
    | (t2) "map_of (am_t1 m) h = None" "map_of (am_t2 m) h = Some b"
proof (cases "map_of (am_t1 m) h")
  case None
  with assms(2) show ?thesis by (intro t2) (simp_all add: arc_get_def)
next
  case (Some c)
  then have "h \<in> fst ` set (am_t1 m)" by (simp add: map_of_keys)
  then have "map_of (am_t2 m) h = None"
    using arc_okD(1) [OF assms(1)] by (auto simp: map_of_eq_None_iff arc_lists_def)
  with Some assms(2) show ?thesis by (intro t1) (simp_all add: arc_get_def)
qed

text \<open>Removing a cached block gives its slot back.\<close>

lemma arc_drop:
  assumes "arc_ok m" "arc_get m h = Some b"
  shows "owns (backend_free b (am_backend m)) ((arc_get m)(h := None))"
  using owns_free(1) [OF arc_okD(2) [OF assms(1)] assms(2)] .

interpretation arc_table: block_table arc_ok arc_get am_backend arc_load_one arc_unload_one arc_stored_one arc_failed_one
proof
  fix m h b
  assume ok: "arc_ok m" and g: "arc_get m h = Some b"
  have keep: "arc_ok (arc_set h c m)" if "slot c = slot b" for c
    using ok owns_counter [OF arc_okD(2) [OF ok] g that] by (simp add: arc_ok_def arc_set_get [OF g] arc_set_lists [OF g])
  show "runs_to (arc_load_one h m) (\<lambda>b' m'. arc_ok m' \<and> am_backend m' = am_backend m \<and>
      arc_get m' = (arc_get m)(h \<mapsto> add_refs 1 b) \<and> slot b' = slot b)" if "0 \<le> refs b"
    using that g keep by (simp add: arc_load_one_def is_ready_refs res_simps Let_def add_refs_def arc_set_get [OF g])
  show "runs_to (arc_unload_one h m) (\<lambda>_ m'. arc_ok m' \<and> am_backend m' = am_backend m \<and>
      arc_get m' = (arc_get m)(h \<mapsto> add_refs (- 1) b))" if "0 < refs b"
    using that g keep by (simp add: arc_unload_one_def refs_def res_simps add_refs_def arc_set_get [OF g])
  show "runs_to (arc_stored_one h m) (\<lambda>_ m'. arc_ok m' \<and> am_backend m' = am_backend m \<and>
      arc_get m' = (arc_get m)(h \<mapsto> mark_ready b))"
    using g keep ok by (auto simp: arc_stored_one_def mark_ready_def arc_set_get [OF g])
  show "runs_to (arc_failed_one h m) (\<lambda>_ m'. arc_ok m' \<and> cb_num_blocks (am_backend m') = cb_num_blocks (am_backend m) \<and>
      arc_get m' = (arc_get m)(h := None))" if "refs b < 0"
  proof -
    have nb: "cb_num_blocks (backend_free b (am_backend m)) = cb_num_blocks (am_backend m)"
      by (simp add: backend_free_def)
    show ?thesis
      using ok g
    proof (cases rule: arc_get_cases)
      case t1
      let ?m = "m\<lparr>am_t1 := AList.delete h (am_t1 m), am_backend := backend_free b (am_backend m)\<rparr>"
      have get: "arc_get ?m = (arc_get m)(h := None)"
        using t1 by (auto simp: arc_get_eq map_add_def fun_eq_iff split: option.split)
      have "arc_ok ?m"
        using ok arc_drop [OF ok g] arc_okD(1) [OF ok] by (auto simp: arc_ok_def get arc_lists_def)
      then show ?thesis using that t1 get nb by (simp add: arc_failed_one_def is_ready_refs)
    next
      case t2
      let ?m = "m\<lparr>am_t2 := AList.delete h (am_t2 m), am_backend := backend_free b (am_backend m)\<rparr>"
      have get: "arc_get ?m = (arc_get m)(h := None)"
        using t2 by (auto simp: arc_get_eq map_add_def fun_eq_iff split: option.split)
      have "arc_ok ?m"
        using ok arc_drop [OF ok g] arc_okD(1) [OF ok] by (auto simp: arc_ok_def get arc_lists_def)
      then show ?thesis using that t2 get nb by (simp add: arc_failed_one_def is_ready_refs)
    qed
  qed
qed

section \<open>Touch\<close>

lemma arc_touch_target:
  fixes target delta :: rat and capacity :: int
  assumes "0 \<le> target" "target \<le> of_int capacity" "capacity \<le> 2 ^ 53" "1 \<le> delta"
  shows "0 \<le> float_round (target + delta)" "float_round (target - delta) \<le> of_int capacity"
proof -
  show "0 \<le> float_round (target + delta)" using assms by (intro float_round_nonneg) auto
  have c: "(of_int capacity :: rat) \<le> 2 ^ 53" using assms(3) by (metis of_int_le_iff of_int_numeral of_int_power)
  show "float_round (target - delta) \<le> of_int capacity"
  proof (cases "0 < target - delta")
    case True
    moreover have "target - delta < 2 ^ 53" using c assms by linarith
    ultimately have "float_round (target - delta) \<le> target - delta + 1 / 2" by (rule float_round_upper)
    also have "\<dots> \<le> of_int capacity" using assms by linarith
    finally show ?thesis .
  next
    case False
    then have "float_round (target - delta) \<le> 0" by (intro float_round_nonpos) simp
    also have "\<dots> \<le> of_int capacity" using assms by linarith
    finally show ?thesis .
  qed
qed

lemma arc_touch_one_keeps:
  assumes ok: "arc_ok m"
  shows "arc_ok (arc_touch_one h m) \<and> arc_get (arc_touch_one h m) = arc_get m \<and>
    am_backend (arc_touch_one h m) = am_backend m"
proof (cases "map_of (am_t1 m) h")
  case (Some b)
  then have in1: "h \<in> fst ` set (am_t1 m)" by (simp add: map_of_keys)
  then have out: "h \<notin> fst ` set (am_t2 m)" "h \<notin> fst ` set (am_b1 m)" "h \<notin> fst ` set (am_b2 m)"
    using arc_okD(1) [OF ok] by (auto simp: arc_lists_def)
  have "map_of (am_t2 m) h = None" using out(1) by (simp add: map_of_eq_None_iff)
  then have get: "arc_get (arc_touch_one h m) = arc_get m"
    using Some by (auto simp: arc_touch_one_def arc_get_eq map_add_def fun_eq_iff Let_def split: option.split)
  have "distinct (arc_lists (arc_touch_one h m))"
    using arc_okD(1) [OF ok] Some out by (auto simp: arc_touch_one_def arc_lists_def Let_def)
  then show ?thesis using ok get Some by (simp add: arc_ok_def arc_touch_one_def Let_def)
next
  case None
  have get: "arc_get (arc_touch_one h m) = arc_get m"
    using None by (simp add: arc_touch_one_def arc_get_eq Let_def)
  have "distinct (arc_lists (arc_touch_one h m))"
    using arc_okD(1) [OF ok] None by (simp add: arc_touch_one_def arc_lists_def Let_def)
  moreover have "0 \<le> am_target_t1_size (arc_touch_one h m) \<and>
      am_target_t1_size (arc_touch_one h m) \<le> of_int (am_cache_capacity m)"
    using None arc_okD(3,4) [OF ok] arc_touch_target [OF arc_okD(3,4,9) [OF ok], OF max.cobounded1]
    by (simp add: arc_touch_one_def Let_def)
  moreover have rest: "am_backend (arc_touch_one h m) = am_backend m"
    "am_cache_capacity (arc_touch_one h m) = am_cache_capacity m"
    using None by (simp_all add: arc_touch_one_def Let_def)
  ultimately show ?thesis
    unfolding arc_ok_def get rest using arc_okD(2,9) [OF ok] by blast
qed

lemma arc_touch_keeps:
  "arc_ok m \<Longrightarrow> arc_ok (fold arc_touch_one hs m) \<and> arc_get (fold arc_touch_one hs m) = arc_get m \<and>
     am_backend (fold arc_touch_one hs m) = am_backend m"
  by (induction hs arbitrary: m) (simp_all add: arc_touch_one_keeps)

section \<open>Making room\<close>

lemma oldest_idle_SomeD:
  "oldest_idle protected t = Some (h, b) \<Longrightarrow> (h, b) \<in> set t \<and> refs b = 0 \<and> h \<notin> protected"
  by (auto simp: oldest_idle_def find_Some_iff refs_def) (metis nth_mem)

text \<open>One eviction, from either list.\<close>

definition arc_drop_t1 :: "block_hash \<Rightarrow> block_status \<Rightarrow> arc_manager \<Rightarrow> arc_manager" where
  "arc_drop_t1 h b m = m\<lparr>am_t1 := AList.delete h (am_t1 m), am_b1 := AList.update h () (am_b1 m),
                         am_backend := backend_free b (am_backend m)\<rparr>"

definition arc_drop_t2 :: "block_hash \<Rightarrow> block_status \<Rightarrow> arc_manager \<Rightarrow> arc_manager" where
  "arc_drop_t2 h b m = m\<lparr>am_t2 := AList.delete h (am_t2 m), am_b2 := AList.update h () (am_b2 m),
                         am_backend := backend_free b (am_backend m)\<rparr>"

definition evicts :: "block_hash \<Rightarrow> block_status \<Rightarrow> arc_manager \<Rightarrow> arc_manager \<Rightarrow> bool" where
  "evicts h b m m' \<longleftrightarrow> arc_ok m' \<and> arc_get m h = Some b \<and> arc_get m' = (arc_get m)(h := None) \<and>
     am_backend m' = backend_free b (am_backend m) \<and> am_events m' = am_events m \<and>
     am_cache_capacity m' = am_cache_capacity m"

lemma arc_drop_t1_evicts:
  assumes ok: "arc_ok m" and h: "(h, b) \<in> set (am_t1 m)"
  shows "evicts h b m (arc_drop_t1 h b m)"
proof -
  have g: "map_of (am_t1 m) h = Some b" using arc_okD(5) [OF ok] h by simp
  have k: "h \<in> fst ` set (am_t1 m)" using h by force
  then have out: "h \<notin> fst ` set (am_t2 m)" "h \<notin> fst ` set (am_b1 m)" "h \<notin> fst ` set (am_b2 m)"
    using arc_okD(1) [OF ok] by (auto simp: arc_lists_def)
  have n2: "map_of (am_t2 m) h = None" using out(1) by (simp add: map_of_eq_None_iff)
  have get: "arc_get (arc_drop_t1 h b m) = (arc_get m)(h := None)"
    using n2 by (auto simp: arc_drop_t1_def arc_get_eq map_add_def fun_eq_iff split: option.split)
  have gh: "arc_get m h = Some b" using g by (simp add: arc_get_def)
  have "distinct (arc_lists (arc_drop_t1 h b m))"
    using arc_okD(1) [OF ok] k out by (auto simp: arc_drop_t1_def arc_lists_def)
  then have "arc_ok (arc_drop_t1 h b m)"
    using ok arc_drop [OF ok gh] unfolding arc_ok_def get by (simp add: arc_drop_t1_def)
  with get gh show ?thesis unfolding evicts_def by (simp add: arc_drop_t1_def)
qed

lemma arc_drop_t2_evicts:
  assumes ok: "arc_ok m" and h: "(h, b) \<in> set (am_t2 m)"
  shows "evicts h b m (arc_drop_t2 h b m)"
proof -
  have g: "map_of (am_t2 m) h = Some b" using arc_okD(6) [OF ok] h by simp
  have k: "h \<in> fst ` set (am_t2 m)" using h by force
  then have out: "h \<notin> fst ` set (am_t1 m)" "h \<notin> fst ` set (am_b1 m)" "h \<notin> fst ` set (am_b2 m)"
    using arc_okD(1) [OF ok] by (auto simp: arc_lists_def)
  have n1: "map_of (am_t1 m) h = None" using out(1) by (simp add: map_of_eq_None_iff)
  have get: "arc_get (arc_drop_t2 h b m) = (arc_get m)(h := None)"
    using n1 by (auto simp: arc_drop_t2_def arc_get_eq map_add_def fun_eq_iff split: option.split)
  have gh: "arc_get m h = Some b" using g n1 by (simp add: arc_get_def)
  have "distinct (arc_lists (arc_drop_t2 h b m))"
    using arc_okD(1) [OF ok] k out by (auto simp: arc_drop_t2_def arc_lists_def)
  then have "arc_ok (arc_drop_t2 h b m)"
    using ok arc_drop [OF ok gh] unfolding arc_ok_def get by (simp add: arc_drop_t2_def)
  with get gh show ?thesis unfolding evicts_def by (simp add: arc_drop_t2_def)
qed

text \<open>A round of the loop evicts an idle, unprotected block or gives up.\<close>

lemma arc_evict_round:
  assumes "arc_ok m"
  shows "arc_evict (Suc n) protected acc m = (None, m) \<or>
    (\<exists>h b m'. arc_evict (Suc n) protected acc m = arc_evict n protected (acc @ [h]) m' \<and>
       evicts h b m m' \<and> refs b = 0 \<and> h \<notin> protected)"
proof (cases "if int (length (am_t1 m)) \<ge> float_to_int (am_target_t1_size m) then oldest_idle protected (am_t1 m) else None")
  case None
  show ?thesis
  proof (cases "oldest_idle protected (am_t2 m)")
    case None': None
    show ?thesis using None None' by simp
  next
    case (Some hb)
    obtain h b where hb: "hb = (h, b)" by fastforce
    have s: "(h, b) \<in> set (am_t2 m)" "refs b = 0" "h \<notin> protected"
      using oldest_idle_SomeD [of protected "am_t2 m" h b] Some hb by auto
    have "arc_evict (Suc n) protected acc m = arc_evict n protected (acc @ [h]) (arc_drop_t2 h b m)"
      using None Some hb by (simp add: arc_drop_t2_def)
    with arc_drop_t2_evicts [OF assms s(1)] s show ?thesis by blast
  qed
next
  case (Some hb)
  obtain h b where hb: "hb = (h, b)" by fastforce
  have "oldest_idle protected (am_t1 m) = Some (h, b)" using Some hb by (simp split: if_splits)
  then have s: "(h, b) \<in> set (am_t1 m)" "refs b = 0" "h \<notin> protected"
    using oldest_idle_SomeD by auto
  have "arc_evict (Suc n) protected acc m = arc_evict n protected (acc @ [h]) (arc_drop_t1 h b m)"
    using Some hb by (simp add: arc_drop_t1_def)
  with arc_drop_t1_evicts [OF assms s(1)] s show ?thesis by blast
qed

lemma arc_evict_spec:
  assumes "arc_ok m" "arc_evict n protected acc m = (res, m')"
  shows "\<exists>ev. distinct ev \<and> set ev \<subseteq> evictable (arc_get m) - protected \<and> arc_ok m' \<and>
    arc_get m' = arc_get m |` (- set ev) \<and>
    backend_num_free (am_backend m') = backend_num_free (am_backend m) + int (length ev) \<and>
    cb_num_blocks (am_backend m') = cb_num_blocks (am_backend m) \<and>
    (res = None \<or> res = Some (acc @ ev) \<and> length ev = n)"
  using assms
proof (induction n arbitrary: acc m)
  case 0
  then show ?case by (intro exI [of _ "[]"]) (auto simp: restrict_map_def)
next
  case (Suc n)
  consider "arc_evict (Suc n) protected acc m = (None, m)"
    | h b m1 where "arc_evict (Suc n) protected acc m = arc_evict n protected (acc @ [h]) m1"
      "evicts h b m m1" "refs b = 0" "h \<notin> protected"
    using arc_evict_round [OF Suc.prems(1), of n protected acc] by blast
  then show ?case
  proof cases
    case 1
    with Suc.prems show ?thesis by (intro exI [of _ "[]"]) (auto simp: restrict_map_def)
  next
    case (2 h b m1)
    then have g: "arc_get m h = Some b" and ok1: "arc_ok m1" and v1: "arc_get m1 = (arc_get m)(h := None)"
      and b1: "am_backend m1 = backend_free b (am_backend m)" by (auto simp: evicts_def)
    from Suc.IH [OF ok1 Suc.prems(2) [unfolded 2(1)]] obtain ev where
      ev: "distinct ev" "set ev \<subseteq> evictable (arc_get m1) - protected" "arc_ok m'"
        "arc_get m' = arc_get m1 |` (- set ev)"
        "backend_num_free (am_backend m') = backend_num_free (am_backend m1) + int (length ev)"
        "cb_num_blocks (am_backend m') = cb_num_blocks (am_backend m1)"
        "res = None \<or> res = Some ((acc @ [h]) @ ev) \<and> length ev = n" by blast
    have "h \<notin> set ev" "set ev \<subseteq> evictable (arc_get m)" using ev(2) by (auto simp: v1 evictable_def split: if_splits)
    moreover have "h \<in> evictable (arc_get m)" using g 2(3) by (simp add: evictable_def)
    moreover have "arc_get m' = arc_get m |` (- set (h # ev))"
      unfolding ev(4) v1 by (auto simp: restrict_map_def)
    ultimately show ?thesis
      using ev(1-3,5-7) 2(4) owns_free(2,3) [OF arc_okD(2) [OF Suc.prems(1)] g]
      by (intro exI [of _ "h # ev"]) (auto simp: b1)
  qed
qed

lemma trim_ghosts_keeps:
  assumes "arc_ok m"
  shows "arc_ok (trim_ghosts m)" "arc_get (trim_ghosts m) = arc_get m"
    "am_backend (trim_ghosts m) = am_backend m" "am_cache_capacity (trim_ghosts m) = am_cache_capacity m"
    "int (length (am_b1 (trim_ghosts m))) \<le> am_cache_capacity m"
    "int (length (am_b2 (trim_ghosts m))) \<le> am_cache_capacity m"
proof -
  have cut: "distinct (ws @ xs @ drop i ys @ drop j zs)" if "distinct (ws @ xs @ ys @ zs)" for ws xs ys zs :: "block_hash list" and i j
    using that by (auto dest: in_set_dropD)
  show get: "arc_get (trim_ghosts m) = arc_get m" by (simp add: trim_ghosts_def arc_get_eq)
  have "distinct (arc_lists (trim_ghosts m))"
    using cut [OF arc_okD(1) [OF assms, unfolded arc_lists_def]]
    by (simp add: trim_ghosts_def arc_lists_def drop_map del: distinct_append)
  then show "arc_ok (trim_ghosts m)" using assms unfolding arc_ok_def get by (simp add: trim_ghosts_def)
  have "0 \<le> am_cache_capacity m" using arc_okD(3,4) [OF assms] by linarith
  then show "int (length (am_b1 (trim_ghosts m))) \<le> am_cache_capacity m"
    "int (length (am_b2 (trim_ghosts m))) \<le> am_cache_capacity m"
    by (simp_all add: trim_ghosts_def)
qed (simp_all add: trim_ghosts_def)

lemma arc_insert_lists:
  assumes "distinct (arc_lists m)" "arc_get m h = None"
  shows "distinct (arc_lists (arc_insert h b m))" "arc_get (arc_insert h b m) = (arc_get m)(h \<mapsto> b)"
proof -
  have n: "map_of (am_t1 m) h = None" "map_of (am_t2 m) h = None"
    using assms(2) by (auto simp: arc_get_def split: option.splits)
  then have "h \<notin> fst ` set (am_t1 m)" "h \<notin> fst ` set (am_t2 m)" by (simp_all add: map_of_eq_None_iff)
  with assms(1) show "distinct (arc_lists (arc_insert h b m))"
    by (auto simp: arc_lists_def arc_insert_def update_fresh)
  show "arc_get (arc_insert h b m) = (arc_get m)(h \<mapsto> b)"
    by (auto simp: arc_get_eq arc_insert_def map_add_def fun_eq_iff split: option.split)
qed

lemma arc_insert_fold:
  assumes "length bs = length hs" "distinct hs" "\<forall>h\<in>set hs. arc_get m h = None" "distinct (arc_lists m)"
  shows "let m' = fold (\<lambda>(h, b). arc_insert h b) (zip hs bs) m in
    distinct (arc_lists m') \<and> arc_get m' = arc_get m ++ map_of (zip hs bs) \<and>
    am_backend m' = am_backend m \<and> am_target_t1_size m' = am_target_t1_size m \<and>
    am_cache_capacity m' = am_cache_capacity m \<and>
    length (am_b1 m') \<le> length (am_b1 m) \<and> length (am_b2 m') \<le> length (am_b2 m)"
  using assms
proof (induction hs bs arbitrary: m rule: list_induct2')
  case (4 h hs b bs)
  let ?m = "arc_insert h b m"
  note one = arc_insert_lists [OF 4(5), of h b]
  have n: "arc_get m h = None" using 4(4) by simp
  have get: "arc_get ?m = (arc_get m)(h \<mapsto> b)" by (rule one(2) [OF n])
  have "\<forall>k\<in>set hs. arc_get ?m k = None" using 4(3,4) by (auto simp: get)
  with 4(1) [of ?m] 4(2,3) one(1) [OF n]
  have ih: "let m' = fold (\<lambda>(h, b). arc_insert h b) (zip hs bs) ?m in
    distinct (arc_lists m') \<and> arc_get m' = arc_get ?m ++ map_of (zip hs bs) \<and>
    am_backend m' = am_backend ?m \<and> am_target_t1_size m' = am_target_t1_size ?m \<and>
    am_cache_capacity m' = am_cache_capacity ?m \<and>
    length (am_b1 m') \<le> length (am_b1 ?m) \<and> length (am_b2 m') \<le> length (am_b2 ?m)" by simp
  have eq: "arc_get ?m ++ map_of (zip hs bs) = arc_get m ++ map_of (zip (h # hs) (b # bs))"
    unfolding get using 4(3)
    by (auto simp: map_add_def fun_eq_iff split: option.split dest!: map_of_SomeD set_zip_leftD)
  have len: "length (am_b1 ?m) \<le> length (am_b1 m)" "length (am_b2 ?m) \<le> length (am_b2 m)"
    by (simp_all add: arc_insert_def length_delete_le)
  have rest: "am_backend ?m = am_backend m" "am_target_t1_size ?m = am_target_t1_size m"
    "am_cache_capacity ?m = am_cache_capacity m" by (simp_all add: arc_insert_def)
  show ?case
    using ih len unfolding Let_def eq rest by (simp del: map_of.simps)
qed auto

lemma arc_store_contract:
  assumes ok: "arc_ok m" and d: "distinct hs"
  shows "runs_to (arc_prepare_store hs m) (\<lambda>res m'. arc_ok m' \<and>
    cb_num_blocks (am_backend m') = cb_num_blocks (am_backend m) \<and>
    store_contract (am_backend m) (arc_get m) hs res (arc_get m') \<and>
    (res = None \<or> so_to_store (the res) = [] \<or>
      int (length (am_b1 m')) \<le> am_cache_capacity m' \<and> int (length (am_b2 m')) \<le> am_cache_capacity m'))"
proof -
  define new where "new = filter (\<lambda>h. arc_get m h = None) hs"
  have new_eq: "filter (\<lambda>h. map_of (am_t1 m) h = None \<and> map_of (am_t2 m) h = None) hs = new"
    unfolding new_def by (intro filter_cong) (auto simp: arc_get_def split: option.splits)
  define n where "n = nat (int (length new) - backend_num_free (am_backend m))"
  show ?thesis
  proof (cases "new = []")
    case True
    have "owns (am_backend m) (arc_get m)" by (rule arc_okD(2) [OF ok])
    then have "0 \<le> backend_num_free (am_backend m)"
      using card_free_slots [of "am_backend m"] by (simp add: owns_def)
    then have "store_contract (am_backend m) (arc_get m) hs (Some \<lparr>so_to_store = [], so_spec = [], so_evicted = []\<rparr>) (arc_get m)"
      using True by (simp add: store_contract_def new_def restrict_map_def)
    then show ?thesis using True ok by (simp add: arc_prepare_store_def new_eq get_load_store_spec_def)
  next
    case False
    obtain r m1 where run: "arc_evict n (set hs) [] m = (r, m1)" by fastforce
    from arc_evict_spec [OF ok run] obtain ev where
      ev: "distinct ev" "set ev \<subseteq> evictable (arc_get m) - set hs" and ok1: "arc_ok m1"
      and v1: "arc_get m1 = arc_get m |` (- set ev)"
      and f1: "backend_num_free (am_backend m1) = backend_num_free (am_backend m) + int (length ev)"
      and c1: "cb_num_blocks (am_backend m1) = cb_num_blocks (am_backend m)"
      and res: "r = None \<or> r = Some ([] @ ev) \<and> length ev = n" by blast
    show ?thesis
    proof (cases r)
      case None
      have "store_contract (am_backend m) (arc_get m) hs None (arc_get m1)"
        unfolding store_contract_def option.case using ev(2) v1 by blast
      then show ?thesis
        using False ok1 c1 run None by (simp add: arc_prepare_store_def new_eq Let_def n_def [symmetric])
    next
      case (Some ev')
      with res have r: "r = Some ev" and len: "length ev = n" by auto
      define m2 where "m2 = (trim_ghosts m1)\<lparr>am_events := add_event ev True (am_backend (trim_ghosts m1)) (am_events (trim_ghosts m1))\<rparr>"
      have ok2: "arc_ok m2" and v2: "arc_get m2 = arc_get m |` (- set ev)" and b2: "am_backend m2 = am_backend m1"
        and g2: "int (length (am_b1 m2)) \<le> am_cache_capacity m2" "int (length (am_b2 m2)) \<le> am_cache_capacity m2"
        using trim_ghosts_keeps [OF ok1] v1 by (auto simp: m2_def arc_ok_def arc_lists_def arc_get_eq)
      have dn: "distinct new" "\<forall>h\<in>set new. arc_get m2 h = None"
        using d by (auto simp: new_def v2 restrict_map_def)
      have room: "int (length new) \<le> backend_num_free (am_backend m2)"
        using f1 len by (simp add: b2 n_def)
      have def_eq: "arc_prepare_store hs m =
          rbind (on_part am_backend (\<lambda>be m. m\<lparr>am_backend := be\<rparr>) (allocate_blocks new) m2)
            (\<lambda>bs m. rbind (assert_that (length bs = length new) ''unexpected number of blocks'' m)
              (\<lambda>_ m. return (Some \<lparr>so_to_store = new, so_spec = get_load_store_spec bs, so_evicted = ev\<rparr>)
                (fold (\<lambda>(h, b). arc_insert h b) (zip new bs) m)))"
        unfolding arc_prepare_store_def new_eq Let_def if_not_P [OF False] n_def [symmetric] run r
        by (simp add: m2_def)
      show ?thesis
        unfolding def_eq post_rbind post_on_part
      proof (rule runs_to_mono [OF owns_allocate [OF arc_okD(2) [OF ok2] dn room]], goal_cases)
        case (1 bs be')
        then have bs: "length bs = length new" "\<forall>b\<in>set bs. refs b = - 1"
          and o': "owns be' (arc_get m2 ++ map_of (zip new bs))"
          and c': "cb_num_blocks be' = cb_num_blocks (am_backend m2)" by auto
        let ?m = "m2\<lparr>am_backend := be'\<rparr>"
        define m' where "m' = fold (\<lambda>(h, b). arc_insert h b) (zip new bs) ?m"
        have same: "arc_get ?m = arc_get m2" "arc_lists ?m = arc_lists m2"
          by (simp_all add: arc_get_eq arc_lists_def)
        have ins: "distinct (arc_lists m')" "arc_get m' = arc_get m2 ++ map_of (zip new bs)" "am_backend m' = be'"
          "am_target_t1_size m' = am_target_t1_size m2" "am_cache_capacity m' = am_cache_capacity m2"
          "length (am_b1 m') \<le> length (am_b1 m2)" "length (am_b2 m') \<le> length (am_b2 m2)"
          using arc_insert_fold [of bs new ?m] bs(1) dn arc_okD(1) [OF ok2]
          unfolding Let_def m'_def [symmetric] same by auto
        have ok': "arc_ok m'" unfolding arc_ok_def ins(2-5) using ins(1) o' arc_okD(3,4,9) [OF ok2] by blast
        have "int (length ev) = max 0 (int (length new) - backend_num_free (am_backend m))"
          using len by (simp add: n_def)
        then have "store_contract (am_backend m) (arc_get m) hs
            (Some \<lparr>so_to_store = new, so_spec = map slot bs, so_evicted = ev\<rparr>) (arc_get m')"
          unfolding store_contract_def option.case ins(2) v2
          using ev bs by (intro conjI exI [of _ bs]) (simp_all add: new_def)
        moreover have "int (length (am_b1 m')) \<le> am_cache_capacity m'" "int (length (am_b2 m')) \<le> am_cache_capacity m'"
          using ins(5-7) g2 by linarith+
        ultimately show ?case
          using ok' bs(1) c' c1 by (simp add: post_assert m'_def [symmetric] ins(3) b2 get_load_store_spec_def slot_def [abs_def])
      qed
    qed
  qed
qed

section \<open>The contract is met\<close>

interpretation arc: offloading_manager arc_ops arc_ok arc_get am_backend
proof
  fix m :: arc_manager and hs
  assume ok: "arc_ok m"
  show "owns (am_backend m) (arc_get m)" by (rule arc_okD(2) [OF ok])
  show "runs_to (op_lookup arc_ops hs m) (\<lambda>n m'. arc_ok m' \<and> arc_get m' = arc_get m \<and> am_backend m' = am_backend m \<and>
      n = Some (int (length (takeWhile (ready (arc_get m)) hs))))"
    using ok by (simp add: arc_ops_def arc_lookup_def count_hits_eq)
  show "runs_to (op_touch arc_ops hs m) (\<lambda>_ m'. arc_ok m' \<and> arc_get m' = arc_get m \<and> am_backend m' = am_backend m)"
    using arc_touch_keeps [OF ok] by (simp add: arc_ops_def arc_touch_def)
  show "runs_to (op_take_events arc_ops m) (\<lambda>_ m'. arc_ok m' \<and> arc_get m' = arc_get m \<and> am_backend m' = am_backend m)"
    using ok by (simp add: arc_ops_def arc_take_events_def arc_ok_def arc_get_eq arc_lists_def split: option.split)
  show "runs_to (op_prepare_load arc_ops hs m) (\<lambda>ids m'. arc_ok m' \<and> am_backend m' = am_backend m \<and>
      ids = map (\<lambda>h. slot (the (arc_get m h))) hs \<and>
      arc_get m' = (\<lambda>h. map_option (add_refs (int (count_list hs h))) (arc_get m h)))"
    if "\<forall>h\<in>set hs. ready (arc_get m) h" "\<forall>h\<in>set hs. refs (the (arc_get m h)) + int (count_list hs h) < 2 ^ 31"
    using arc_table.load_list [OF ok that]
    by (simp add: arc_ops_def arc_prepare_load_def post_rbind get_load_store_spec_def flip: slot_def)
  show "runs_to (op_complete_load arc_ops hs m) (\<lambda>_ m'. arc_ok m' \<and> am_backend m' = am_backend m \<and>
      arc_get m' = (\<lambda>h. map_option (add_refs (- int (count_list hs h))) (arc_get m h)))"
    if "\<forall>h\<in>set hs. \<exists>b. arc_get m h = Some b \<and> int (count_list hs h) \<le> refs b"
    using arc_table.unload_list [OF ok that] by (simp add: arc_ops_def arc_complete_load_def)
  show "runs_to (op_prepare_store arc_ops hs m) (\<lambda>res m'. arc_ok m' \<and>
      cb_num_blocks (am_backend m') = cb_num_blocks (am_backend m) \<and>
      (\<exists>hs'. set hs' \<subseteq> set hs \<and> distinct hs' \<and> store_contract (am_backend m) (arc_get m) hs' res (arc_get m')))"
    if "distinct hs"
    by (simp add: arc_ops_def, rule runs_to_mono [OF arc_store_contract [OF ok that]]) (use that in blast)
  show "runs_to (op_complete_store arc_ops hs True m) (\<lambda>_ m'. arc_ok m' \<and> am_backend m' = am_backend m \<and>
      arc_get m' = (\<lambda>h. if h \<in> set hs then map_option mark_ready (arc_get m h) else arc_get m h))"
    if "\<forall>h\<in>set hs. arc_get m h \<noteq> None"
    using arc_table.stored_list [OF ok that]
    by (simp add: arc_ops_def arc_complete_store_def post_rbind arc_ok_def arc_get_eq arc_lists_def)
  show "runs_to (op_complete_store arc_ops hs False m) (\<lambda>_ m'. arc_ok m' \<and>
      cb_num_blocks (am_backend m') = cb_num_blocks (am_backend m) \<and> arc_get m' = arc_get m |` (- set hs))"
    if "distinct hs" "\<forall>h\<in>set hs. \<exists>b. arc_get m h = Some b \<and> refs b < 0"
    using arc_table.failed_list [OF ok that] by (simp add: arc_ops_def arc_complete_store_def)
qed

lemma arc_init_ok:
  "0 \<le> n \<Longrightarrow> n \<le> 2 ^ 53 \<Longrightarrow> arc_ok (arc_manager_init (cpu_backend_init bs n) ev)"
  "arc_get (arc_manager_init be ev) = Map.empty"
proof -
  show get: "arc_get (arc_manager_init be ev) = Map.empty" for be by (simp add: arc_get_eq arc_manager_init_def)
  assume "0 \<le> n" "n \<le> 2 ^ 53"
  then have "owns (cpu_backend_init bs n) Map.empty" by (intro backend_init_owns) auto
  then show "arc_ok (arc_manager_init (cpu_backend_init bs n) ev)"
    using \<open>0 \<le> n\<close> \<open>n \<le> 2 ^ 53\<close> unfolding arc_ok_def get
    by (simp add: arc_manager_init_def arc_lists_def backend_num_free_def cpu_backend_init_def)
qed

end
