(* ===== verification/Offload_Reuse.thy ===== *)
theory Offload_Reuse
  imports Offload_ARC
begin

text \<open>
  The decorator \<open>FilterReusedOffloadingManager\<close> of \<open>vllm/v1/kv_offload/reuse_manager.py\<close>
  and the choice of a manager by \<open>CPUOffloadingSpec\<close> (\<open>cpu.py\<close>).

  The decorator wraps any manager, so its operations take those of the backing manager as
  an argument, and \<open>sum_ops\<close> is the dynamic dispatch between two classes of managers. Both
  preserve the contract of \<open>Offload_Contract\<close>: the sublocales below carry every lemma
  proved there to the manager that \<open>get_manager\<close> returns, whichever it is.
\<close>

section \<open>The decorator\<close>

record 'm reuse_filter =
  rf_backing :: 'm
  rf_store_threshold :: int
  rf_max_tracker_size :: int
  rf_counts :: "(block_hash, int) dict"

definition reuse_filter_init :: "'m \<Rightarrow> int \<Rightarrow> int \<Rightarrow> error + 'm reuse_filter" where
  "reuse_filter_init backing store_threshold max_tracker_size =
     (if store_threshold < 2 then Inl (ValueError ''store_threshold must be >= 2'')
      else if max_tracker_size < 1 then Inl (ValueError ''max_tracker_size must be >= 1'')
      else Inr \<lparr>rf_backing = backing, rf_store_threshold = store_threshold,
                rf_max_tracker_size = max_tracker_size, rf_counts = []\<rparr>)"

definition count_seen :: "int \<Rightarrow> block_hash \<Rightarrow> (block_hash, int) dict \<Rightarrow> (block_hash, int) dict" where
  "count_seen max_size h counts =
     (case map_of counts h of
        Some c \<Rightarrow> AList.update h (c + 1) (move_to_end h counts)
      | None \<Rightarrow> AList.update h 1 (if int (length counts) \<ge> max_size then tl counts else counts))"

definition on_backing :: "('m \<Rightarrow> ('m, 'a) res) \<Rightarrow> 'm reuse_filter \<Rightarrow> ('m reuse_filter, 'a) res" where
  "on_backing f = on_part rf_backing (\<lambda>m r. r\<lparr>rf_backing := m\<rparr>) f"

definition filter_lookup :: "'m offload_ops \<Rightarrow> block_hash list \<Rightarrow> 'm reuse_filter \<Rightarrow> ('m reuse_filter, int option) res" where
  "filter_lookup ops hs r =
     on_backing (op_lookup ops hs) (r\<lparr>rf_counts := fold (count_seen (rf_max_tracker_size r)) hs (rf_counts r)\<rparr>)"

definition eligible :: "'m reuse_filter \<Rightarrow> block_hash list \<Rightarrow> block_hash list" where
  "eligible r hs =
     filter (\<lambda>h. (case map_of (rf_counts r) h of Some c \<Rightarrow> c | None \<Rightarrow> 0) \<ge> rf_store_threshold r) hs"

definition filter_prepare_store :: "'m offload_ops \<Rightarrow> block_hash list \<Rightarrow> 'm reuse_filter
    \<Rightarrow> ('m reuse_filter, store_output option) res" where
  "filter_prepare_store ops hs r = on_backing (op_prepare_store ops (eligible r hs)) r"

definition filter_ops :: "'m offload_ops \<Rightarrow> 'm reuse_filter offload_ops" where
  "filter_ops ops =
     \<lparr>op_lookup = filter_lookup ops,
      op_prepare_load = (\<lambda>hs. on_backing (op_prepare_load ops hs)),
      op_touch = (\<lambda>hs. on_backing (op_touch ops hs)),
      op_complete_load = (\<lambda>hs. on_backing (op_complete_load ops hs)),
      op_prepare_store = filter_prepare_store ops,
      op_complete_store = (\<lambda>hs success. on_backing (op_complete_store ops hs success)),
      op_take_events = on_backing (op_take_events ops)\<rparr>"

text \<open>Dispatch on the class of the manager.\<close>

definition on_left :: "('a \<Rightarrow> ('a, 'r) res) \<Rightarrow> 'a \<Rightarrow> ('a + 'b, 'r) res" where
  "on_left f x = (case f x of Inl (e, x') \<Rightarrow> Inl (e, Inl x') | Inr (r, x') \<Rightarrow> Inr (r, Inl x'))"

definition on_right :: "('b \<Rightarrow> ('b, 'r) res) \<Rightarrow> 'b \<Rightarrow> ('a + 'b, 'r) res" where
  "on_right f x = (case f x of Inl (e, x') \<Rightarrow> Inl (e, Inr x') | Inr (r, x') \<Rightarrow> Inr (r, Inr x'))"

definition dispatch :: "('a \<Rightarrow> ('a, 'r) res) \<Rightarrow> ('b \<Rightarrow> ('b, 'r) res) \<Rightarrow> 'a + 'b \<Rightarrow> ('a + 'b, 'r) res" where
  "dispatch f g m = (case m of Inl x \<Rightarrow> on_left f x | Inr y \<Rightarrow> on_right g y)"

definition sum_ops :: "'a offload_ops \<Rightarrow> 'b offload_ops \<Rightarrow> ('a + 'b) offload_ops" where
  "sum_ops a b =
     \<lparr>op_lookup = (\<lambda>hs. dispatch (op_lookup a hs) (op_lookup b hs)),
      op_prepare_load = (\<lambda>hs. dispatch (op_prepare_load a hs) (op_prepare_load b hs)),
      op_touch = (\<lambda>hs. dispatch (op_touch a hs) (op_touch b hs)),
      op_complete_load = (\<lambda>hs. dispatch (op_complete_load a hs) (op_complete_load b hs)),
      op_prepare_store = (\<lambda>hs. dispatch (op_prepare_store a hs) (op_prepare_store b hs)),
      op_complete_store = (\<lambda>hs success. dispatch (op_complete_store a hs success) (op_complete_store b hs success)),
      op_take_events = dispatch (op_take_events a) (op_take_events b)\<rparr>"

section \<open>The manager of the configuration\<close>

type_synonym base_manager = "lru_manager + arc_manager"
type_synonym cpu_manager = "base_manager + base_manager reuse_filter"

definition base_ops :: "base_manager offload_ops" where
  "base_ops = sum_ops lru_ops arc_ops"

definition cpu_ops :: "cpu_manager offload_ops" where
  "cpu_ops = sum_ops base_ops (filter_ops base_ops)"

record cpu_offload_config =
  oc_cpu_bytes_to_use :: int
  oc_page_sizes :: "int list"
  oc_num_kv_cache_tensors :: int
  oc_world_size :: int
  oc_block_size_factor :: int
  oc_gpu_block_size :: "int list"
  oc_eviction_policy :: string
  oc_store_threshold :: int
  oc_max_tracker_size :: int
  oc_enable_events :: bool

definition cpu_num_blocks :: "cpu_offload_config \<Rightarrow> error + int" where
  "cpu_num_blocks cfg =
     (if oc_cpu_bytes_to_use cfg = 0 then Inl (Exception ''cpu_bytes_to_use must be specified'')
      else if length (remdups (oc_page_sizes cfg)) \<noteq> 1 then Inl (AssertionError ''one page size'')
      else let kv_bytes_per_block = hd (oc_page_sizes cfg) * oc_num_kv_cache_tensors cfg * oc_world_size cfg;
               kv_bytes_per_offloaded_block = kv_bytes_per_block * oc_block_size_factor cfg
           in Inr (if kv_bytes_per_offloaded_block > 0
                   then oc_cpu_bytes_to_use cfg div kv_bytes_per_offloaded_block else 0))"

definition get_manager :: "cpu_offload_config \<Rightarrow> int \<Rightarrow> error + cpu_manager" where
  "get_manager cfg num_blocks =
     (if length (oc_gpu_block_size cfg) \<noteq> 1 then Inl (AssertionError ''one block size'')
      else
        let backend = cpu_backend_init (hd (oc_gpu_block_size cfg) * oc_block_size_factor cfg) num_blocks
        in case (if oc_eviction_policy cfg = ''lru'' then Some (Inl (lru_manager_init backend (oc_enable_events cfg)))
                 else if oc_eviction_policy cfg = ''arc'' then Some (Inr (arc_manager_init backend (oc_enable_events cfg)))
                 else None) of
             None \<Rightarrow> Inl (ValueError ''Unknown eviction policy'')
           | Some m \<Rightarrow>
               if oc_store_threshold cfg \<ge> 2
               then map_sum id Inr (reuse_filter_init m (oc_store_threshold cfg) (oc_max_tracker_size cfg))
               else Inr (Inl m))"

section \<open>The decorator keeps the contract\<close>

locale reuse_filtered = offloading_manager

sublocale reuse_filtered < filtered: offloading_manager "filter_ops ops" "\<lambda>r. ok (rf_backing r)"
    "\<lambda>r. view (rf_backing r)" "\<lambda>r. be (rf_backing r)"
proof
  fix r :: "'a reuse_filter" and hs
  assume k: "ok (rf_backing r)"
  show "owns (be (rf_backing r)) (view (rf_backing r))" by (rule ok_owns [OF k])
  show "runs_to (op_lookup (filter_ops ops) hs r) (\<lambda>n r'. ok (rf_backing r') \<and> view (rf_backing r') = view (rf_backing r) \<and>
      be (rf_backing r') = be (rf_backing r) \<and> n = Some (int (length (takeWhile (ready (view (rf_backing r))) hs))))"
    using lookup_law [OF k] by (simp add: filter_ops_def filter_lookup_def on_backing_def post_on_part)
  show "runs_to (op_touch (filter_ops ops) hs r) (\<lambda>_ r'. ok (rf_backing r') \<and> view (rf_backing r') = view (rf_backing r) \<and>
      be (rf_backing r') = be (rf_backing r))"
    using touch_law [OF k] by (simp add: filter_ops_def on_backing_def post_on_part)
  show "runs_to (op_take_events (filter_ops ops) r) (\<lambda>_ r'. ok (rf_backing r') \<and> view (rf_backing r') = view (rf_backing r) \<and>
      be (rf_backing r') = be (rf_backing r))"
    using take_events_law [OF k] by (simp add: filter_ops_def on_backing_def post_on_part)
  show "runs_to (op_prepare_load (filter_ops ops) hs r) (\<lambda>ids r'. ok (rf_backing r') \<and> be (rf_backing r') = be (rf_backing r) \<and>
      ids = map (\<lambda>h. slot (the (view (rf_backing r) h))) hs \<and>
      view (rf_backing r') = (\<lambda>h. map_option (add_refs (int (count_list hs h))) (view (rf_backing r) h)))"
    if "\<forall>h\<in>set hs. ready (view (rf_backing r)) h"
      "\<forall>h\<in>set hs. refs (the (view (rf_backing r) h)) + int (count_list hs h) < 2 ^ 31"
    using prepare_load_law [OF k that] by (simp add: filter_ops_def on_backing_def post_on_part)
  show "runs_to (op_complete_load (filter_ops ops) hs r) (\<lambda>_ r'. ok (rf_backing r') \<and> be (rf_backing r') = be (rf_backing r) \<and>
      view (rf_backing r') = (\<lambda>h. map_option (add_refs (- int (count_list hs h))) (view (rf_backing r) h)))"
    if "\<forall>h\<in>set hs. \<exists>b. view (rf_backing r) h = Some b \<and> int (count_list hs h) \<le> refs b"
    using complete_load_law [OF k that] by (simp add: filter_ops_def on_backing_def post_on_part)
  show "runs_to (op_prepare_store (filter_ops ops) hs r) (\<lambda>res r'. ok (rf_backing r') \<and>
      cb_num_blocks (be (rf_backing r')) = cb_num_blocks (be (rf_backing r)) \<and>
      (\<exists>hs'. set hs' \<subseteq> set hs \<and> distinct hs' \<and>
        store_contract (be (rf_backing r)) (view (rf_backing r)) hs' res (view (rf_backing r'))))"
    if "distinct hs"
  proof -
    have sub: "set (eligible r hs) \<subseteq> set hs" "distinct (eligible r hs)" using that by (auto simp: eligible_def)
    show ?thesis
      unfolding filter_ops_def filter_prepare_store_def on_backing_def offload_ops.simps post_on_part
      by (rule runs_to_mono [OF prepare_store_law [OF k sub(2)]]) (use sub(1) in \<open>simp; blast\<close>)
  qed
  show "runs_to (op_complete_store (filter_ops ops) hs True r) (\<lambda>_ r'. ok (rf_backing r') \<and>
      be (rf_backing r') = be (rf_backing r) \<and> view (rf_backing r') =
        (\<lambda>h. if h \<in> set hs then map_option mark_ready (view (rf_backing r) h) else view (rf_backing r) h))"
    if "\<forall>h\<in>set hs. view (rf_backing r) h \<noteq> None"
    using store_done_law [OF k that] by (simp add: filter_ops_def on_backing_def post_on_part)
  show "runs_to (op_complete_store (filter_ops ops) hs False r) (\<lambda>_ r'. ok (rf_backing r') \<and>
      cb_num_blocks (be (rf_backing r')) = cb_num_blocks (be (rf_backing r)) \<and>
      view (rf_backing r') = view (rf_backing r) |` (- set hs))"
    if "distinct hs" "\<forall>h\<in>set hs. \<exists>b. view (rf_backing r) h = Some b \<and> refs b < 0"
    using store_failed_law [OF k that] by (simp add: filter_ops_def on_backing_def post_on_part)
qed

section \<open>Dispatch keeps the contract\<close>

lemma post_dispatch [simp]:
  "post (dispatch f g (Inl x)) Q E = post (f x) (\<lambda>r x'. Q r (Inl x')) (\<lambda>e x'. E e (Inl x'))"
  "post (dispatch f g (Inr y)) Q E = post (g y) (\<lambda>r y'. Q r (Inr y')) (\<lambda>e y'. E e (Inr y'))"
  by (auto simp: dispatch_def on_left_def on_right_def post_def split: sum.splits)

locale two_managers =
  left: offloading_manager opsa oka viewa bea + right: offloading_manager opsb okb viewb beb
  for opsa :: "'a offload_ops" and oka viewa bea and opsb :: "'b offload_ops" and okb viewb beb

sublocale two_managers < both: offloading_manager "sum_ops opsa opsb" "case_sum oka okb" "case_sum viewa viewb" "case_sum bea beb"
proof
  fix m :: "'a + 'b" and hs
  assume k: "case_sum oka okb m"
  note laws = left.lookup_law right.lookup_law left.touch_law right.touch_law left.take_events_law right.take_events_law
    left.prepare_load_law right.prepare_load_law left.complete_load_law right.complete_load_law
    left.prepare_store_law right.prepare_store_law left.store_done_law right.store_done_law
    left.store_failed_law right.store_failed_law left.ok_owns right.ok_owns
  show "owns (case_sum bea beb m) (case_sum viewa viewb m)" using k by (cases m) (auto intro: laws)
  show "runs_to (op_lookup (sum_ops opsa opsb) hs m) (\<lambda>n m'. case_sum oka okb m' \<and> case_sum viewa viewb m' = case_sum viewa viewb m \<and>
      case_sum bea beb m' = case_sum bea beb m \<and> n = Some (int (length (takeWhile (ready (case_sum viewa viewb m)) hs))))"
    using k by (cases m) (simp_all add: sum_ops_def laws)
  show "runs_to (op_touch (sum_ops opsa opsb) hs m) (\<lambda>_ m'. case_sum oka okb m' \<and> case_sum viewa viewb m' = case_sum viewa viewb m \<and>
      case_sum bea beb m' = case_sum bea beb m)"
    using k by (cases m) (simp_all add: sum_ops_def laws)
  show "runs_to (op_take_events (sum_ops opsa opsb) m) (\<lambda>_ m'. case_sum oka okb m' \<and> case_sum viewa viewb m' = case_sum viewa viewb m \<and>
      case_sum bea beb m' = case_sum bea beb m)"
    using k by (cases m) (simp_all add: sum_ops_def laws)
  show "runs_to (op_prepare_load (sum_ops opsa opsb) hs m) (\<lambda>ids m'. case_sum oka okb m' \<and> case_sum bea beb m' = case_sum bea beb m \<and>
      ids = map (\<lambda>h. slot (the (case_sum viewa viewb m h))) hs \<and>
      case_sum viewa viewb m' = (\<lambda>h. map_option (add_refs (int (count_list hs h))) (case_sum viewa viewb m h)))"
    if "\<forall>h\<in>set hs. ready (case_sum viewa viewb m) h"
      "\<forall>h\<in>set hs. refs (the (case_sum viewa viewb m h)) + int (count_list hs h) < 2 ^ 31"
    using k that by (cases m) (simp_all add: sum_ops_def laws)
  show "runs_to (op_complete_load (sum_ops opsa opsb) hs m) (\<lambda>_ m'. case_sum oka okb m' \<and> case_sum bea beb m' = case_sum bea beb m \<and>
      case_sum viewa viewb m' = (\<lambda>h. map_option (add_refs (- int (count_list hs h))) (case_sum viewa viewb m h)))"
    if "\<forall>h\<in>set hs. \<exists>b. case_sum viewa viewb m h = Some b \<and> int (count_list hs h) \<le> refs b"
    using k that by (cases m) (simp_all add: sum_ops_def laws)
  show "runs_to (op_prepare_store (sum_ops opsa opsb) hs m) (\<lambda>res m'. case_sum oka okb m' \<and>
      cb_num_blocks (case_sum bea beb m') = cb_num_blocks (case_sum bea beb m) \<and>
      (\<exists>hs'. set hs' \<subseteq> set hs \<and> distinct hs' \<and>
        store_contract (case_sum bea beb m) (case_sum viewa viewb m) hs' res (case_sum viewa viewb m')))"
    if "distinct hs"
    using k that by (cases m) (simp_all add: sum_ops_def laws)
  show "runs_to (op_complete_store (sum_ops opsa opsb) hs True m) (\<lambda>_ m'. case_sum oka okb m' \<and>
      case_sum bea beb m' = case_sum bea beb m \<and> case_sum viewa viewb m' =
        (\<lambda>h. if h \<in> set hs then map_option mark_ready (case_sum viewa viewb m h) else case_sum viewa viewb m h))"
    if "\<forall>h\<in>set hs. case_sum viewa viewb m h \<noteq> None"
    using k that by (cases m) (simp_all add: sum_ops_def laws cong del: if_weak_cong)
  show "runs_to (op_complete_store (sum_ops opsa opsb) hs False m) (\<lambda>_ m'. case_sum oka okb m' \<and>
      cb_num_blocks (case_sum bea beb m') = cb_num_blocks (case_sum bea beb m) \<and>
      case_sum viewa viewb m' = case_sum viewa viewb m |` (- set hs))"
    if "distinct hs" "\<forall>h\<in>set hs. \<exists>b. case_sum viewa viewb m h = Some b \<and> refs b < 0"
    using k that by (cases m) (simp_all add: sum_ops_def laws)
qed

section \<open>The managers of the configuration\<close>

definition base_ok :: "base_manager \<Rightarrow> bool" where
  "base_ok = case_sum lru_blocks_ok arc_ok"

definition base_view :: "base_manager \<Rightarrow> view" where
  "base_view = case_sum lru_view arc_get"

definition base_backend :: "base_manager \<Rightarrow> cpu_backend" where
  "base_backend = case_sum lm_backend am_backend"

definition cpu_ok :: "cpu_manager \<Rightarrow> bool" where
  "cpu_ok = case_sum base_ok (\<lambda>r. base_ok (rf_backing r))"

definition cpu_view :: "cpu_manager \<Rightarrow> view" where
  "cpu_view = case_sum base_view (\<lambda>r. base_view (rf_backing r))"

definition cpu_backend_of :: "cpu_manager \<Rightarrow> cpu_backend" where
  "cpu_backend_of = case_sum base_backend (\<lambda>r. base_backend (rf_backing r))"

interpretation lru_or_arc: two_managers lru_ops lru_blocks_ok lru_view lm_backend arc_ops arc_ok arc_get am_backend
  by unfold_locales

interpretation base: reuse_filtered base_ops base_ok base_view base_backend
  unfolding base_ops_def base_ok_def base_view_def base_backend_def reuse_filtered_def
  by (rule lru_or_arc.both.offloading_manager_axioms)

interpretation plain_or_filtered: two_managers base_ops base_ok base_view base_backend "filter_ops base_ops"
    "\<lambda>r. base_ok (rf_backing r)" "\<lambda>r. base_view (rf_backing r)" "\<lambda>r. base_backend (rf_backing r)"
  by unfold_locales

interpretation cpu: offloading_manager cpu_ops cpu_ok cpu_view cpu_backend_of
  unfolding cpu_ops_def cpu_ok_def cpu_view_def cpu_backend_of_def
  by (rule plain_or_filtered.both.offloading_manager_axioms)

lemma get_manager_ok:
  assumes "get_manager cfg n = Inr m" "0 \<le> n" "n \<le> 2 ^ 53"
  shows "cpu_ok m" "cpu_view m = Map.empty" "cb_num_blocks (cpu_backend_of m) = n"
proof -
  have l: "lru_blocks_ok (lru_manager_init (cpu_backend_init bs n) ev)" "arc_ok (arc_manager_init (cpu_backend_init bs n) ev)"
    "lru_view (lru_manager_init be ev) = Map.empty" "arc_get (arc_manager_init be ev) = Map.empty"
    for bs ev be using assms(2,3) lru_init_ok arc_init_ok by (auto simp: lru_init_ok arc_init_ok)
  have b: "lm_backend (lru_manager_init be ev) = be" "am_backend (arc_manager_init be ev) = be"
    "cb_num_blocks (cpu_backend_init bs n) = n" for be ev bs
    by (simp_all add: lru_manager_init_def arc_manager_init_def cpu_backend_init_def)
  have "cpu_ok m \<and> cpu_view m = Map.empty \<and> cb_num_blocks (cpu_backend_of m) = n"
    using assms(1) l b
    by (auto simp: get_manager_def Let_def reuse_filter_init_def cpu_ok_def cpu_view_def cpu_backend_of_def
        base_ok_def base_view_def base_backend_def split: if_splits)
  then show "cpu_ok m" "cpu_view m = Map.empty" "cb_num_blocks (cpu_backend_of m) = n" by auto
qed

section \<open>The reuse filter\<close>

definition counted :: "int \<Rightarrow> block_hash list \<Rightarrow> (block_hash, int) dict \<Rightarrow> bool" where
  "counted mx hist d \<longleftrightarrow> dict_wf d \<and> int (length d) \<le> mx \<and>
     (\<forall>h c. map_of d h = Some c \<longrightarrow> 1 \<le> c \<and> c \<le> int (count_list hist h)) \<and>
     (int (card (set hist)) \<le> mx \<longrightarrow> (\<forall>h\<in>set hist. map_of d h = Some (int (count_list hist h))))"

lemma map_of_tl: "dict_wf d \<Longrightarrow> map_of (tl d) k = Some c \<Longrightarrow> map_of d k = Some c"
proof (cases d)
  case (Cons a l)
  assume w: "dict_wf d" and k: "map_of (tl d) k = Some c"
  then have "k \<in> fst ` set l" by (simp add: Cons map_of_keys)
  moreover from w have "fst a \<notin> fst ` set l" by (simp add: Cons)
  ultimately have "k \<noteq> fst a" by blast
  with k show ?thesis by (simp add: Cons)
qed simp

lemma counted_step:
  assumes c: "counted mx hist d" and mx: "1 \<le> mx"
  shows "counted mx (hist @ [h]) (count_seen mx h d)"
proof (cases "map_of d h")
  case (Some n)
  define e where "e = AList.update h (n + 1) (move_to_end h d)"
  have w: "dict_wf d" and len: "int (length d) \<le> mx" and n: "1 \<le> n" "n \<le> int (count_list hist h)"
    and low: "\<And>k c. map_of d k = Some c \<Longrightarrow> 1 \<le> c \<and> c \<le> int (count_list hist k)"
    and exact: "int (card (set hist)) \<le> mx \<Longrightarrow> \<forall>k\<in>set hist. map_of d k = Some (int (count_list hist k))"
    using c Some unfolding counted_def by auto
  have hk: "h \<in> fst ` set d" using Some by (simp add: map_of_keys)
  have seen: "count_seen mx h d = e" using Some by (simp add: count_seen_def e_def)
  have "length e = length (move_to_end h d)"
    using hk update_keys_present [of h "move_to_end h d" "n + 1"] unfolding e_def by (metis length_map list.set_map move_to_end_keys)
  also have "\<dots> = length d" using Some length_delete_present [OF w hk] by (simp add: move_to_end_def)
  finally have le: "length e = length d" .
  have "h \<in> set hist" using n count_list_0_iff [of hist h] by fastforce
  then have sets: "set (hist @ [h]) = set hist" by auto
  have get: "map_of e = (map_of d)(h \<mapsto> n + 1)" by (simp add: e_def)
  show ?thesis
    unfolding counted_def seen sets
  proof (intro conjI allI impI ballI)
    show "dict_wf e" using w by (simp add: e_def)
    show "int (length e) \<le> mx" using le len by simp
    fix k c' assume "map_of e k = Some c'"
    then show "1 \<le> c'" "c' \<le> int (count_list (hist @ [h]) k)"
      using low [of k c'] n by (auto simp: get split: if_splits)
  next
    fix k assume "int (card (set hist)) \<le> mx" "k \<in> set hist"
    then have "map_of d k = Some (int (count_list hist k))" using exact by blast
    then show "map_of e k = Some (int (count_list (hist @ [h]) k))" using Some by (auto simp: get)
  qed
next
  case None
  define e where "e = (if int (length d) \<ge> mx then tl d else d)"
  have seen: "count_seen mx h d = AList.update h 1 e" using None by (simp add: count_seen_def e_def)
  have e: "dict_wf e" "int (length e) < mx" "\<And>k c. map_of e k = Some c \<Longrightarrow> map_of d k = Some c"
  proof -
    have w: "dict_wf d" "int (length d) \<le> mx" using c by (simp_all add: counted_def)
    then show "dict_wf e" "int (length e) < mx" using mx by (auto simp: e_def distinct_tl map_tl)
    show "\<And>k c. map_of e k = Some c \<Longrightarrow> map_of d k = Some c" using map_of_tl [OF w(1)] by (auto simp only: e_def split: if_splits)
  qed
  have he: "map_of e h = None" using e(3) None by (metis not_None_eq)
  then have len: "int (length (AList.update h 1 e)) \<le> mx"
    using e(2) by (simp add: length_update_fresh map_of_eq_None_iff)
  have exact: "\<forall>k\<in>set (hist @ [h]). map_of (AList.update h 1 e) k = Some (int (count_list (hist @ [h]) k))"
    if small: "int (card (set (hist @ [h]))) \<le> mx"
  proof -
    have "card (set hist) \<le> card (set (hist @ [h]))" by (rule card_mono) auto
    then have all: "\<forall>k\<in>set hist. map_of d k = Some (int (count_list hist k))" using small c by (simp add: counted_def)
    then have new: "h \<notin> set hist" using None by force
    have "fst ` set d \<subseteq> set hist"
    proof
      fix k assume "k \<in> fst ` set d"
      then obtain c' where "map_of d k = Some c'" by (auto simp: map_of_keys)
      with c have "1 \<le> int (count_list hist k)" by (fastforce simp: counted_def)
      then have "count_list hist k \<noteq> 0" by linarith
      then show "k \<in> set hist" by (simp add: count_list_0_iff)
    qed
    then have "length d \<le> card (set hist)"
      using c by (metis List.finite_set card_mono counted_def distinct_card length_map list.set_map)
    with small new have "int (length d) < mx" by simp
    then have "e = d" by (simp add: e_def)
    then show ?thesis using all new by (auto simp: count_list_0_iff)
  qed
  show ?thesis
    unfolding counted_def seen
  proof (intro conjI allI impI)
    fix k c' assume *: "map_of (AList.update h 1 e) k = Some c'"
    show "1 \<le> c'" "c' \<le> int (count_list (hist @ [h]) k)"
      using * e(3) [of k] c by (auto simp: counted_def split: if_splits)
  qed (use e(1) len exact in auto)
qed

lemma counted_fold: "counted mx hist d \<Longrightarrow> 1 \<le> mx \<Longrightarrow> counted mx (hist @ hs) (fold (count_seen mx) hs d)"
proof (induction hs arbitrary: hist d)
  case (Cons h hs)
  from Cons.IH [OF counted_step [OF Cons.prems] Cons.prems(2)] show ?case by simp
qed simp

text \<open>What the filter lets through after any sequence of lookups.\<close>

lemma filter_lookups:
  assumes "collect_each (filter_lookup ops) hss r = Inr (ns, r')" "counted (rf_max_tracker_size r) hist (rf_counts r)"
    "1 \<le> rf_max_tracker_size r"
  shows "counted (rf_max_tracker_size r) (hist @ concat hss) (rf_counts r') \<and>
    rf_max_tracker_size r' = rf_max_tracker_size r \<and> rf_store_threshold r' = rf_store_threshold r"
  using assms
proof (induction hss arbitrary: hist r ns)
  case (Cons hs hss)
  from Cons.prems(1) obtain n r1 ns' where one: "filter_lookup ops hs r = Inr (n, r1)"
    and rest: "collect_each (filter_lookup ops) hss r1 = Inr (ns', r')"
    by (auto simp: return_def)
  from one have r1: "rf_counts r1 = fold (count_seen (rf_max_tracker_size r)) hs (rf_counts r)"
    "rf_max_tracker_size r1 = rf_max_tracker_size r" "rf_store_threshold r1 = rf_store_threshold r"
    by (auto simp: filter_lookup_def on_backing_def on_part_def split: sum.splits)
  have "counted (rf_max_tracker_size r1) (hist @ hs) (rf_counts r1)"
    using counted_fold [OF Cons.prems(2,3)] by (simp add: r1)
  from Cons.IH [OF rest this] Cons.prems(3) show ?case by (simp add: r1)
qed (simp add: return_def)

lemma reuse_filter_passes:
  assumes "reuse_filter_init backing threshold mx = Inr r" "collect_each (filter_lookup ops) hss r = Inr (ns, r')"
  shows "\<forall>h\<in>set (eligible r' hs). threshold \<le> int (count_list (concat hss) h)"
    "int (card (set (concat hss))) \<le> mx \<Longrightarrow> eligible r' hs = filter (\<lambda>h. threshold \<le> int (count_list (concat hss) h)) hs"
    "int (length (rf_counts r')) \<le> mx"
proof -
  have r: "rf_store_threshold r = threshold" "rf_max_tracker_size r = mx" "rf_counts r = []" "2 \<le> threshold" "1 \<le> mx"
    using assms(1) by (auto simp: reuse_filter_init_def split: if_splits)
  have "counted (rf_max_tracker_size r) [] (rf_counts r)" using r by (simp add: counted_def)
  from filter_lookups [OF assms(2) this] r(2,5)
  have c: "counted mx (concat hss) (rf_counts r')" and th: "rf_store_threshold r' = threshold"
    by (simp_all add: r(1,2))
  show "\<forall>h\<in>set (eligible r' hs). threshold \<le> int (count_list (concat hss) h)"
    using c r(4) by (fastforce simp: eligible_def th counted_def split: option.splits)
  show "int (length (rf_counts r')) \<le> mx" using c by (simp add: counted_def)
  show "eligible r' hs = filter (\<lambda>h. threshold \<le> int (count_list (concat hss) h)) hs" if small: "int (card (set (concat hss))) \<le> mx"
  proof -
    have "(case map_of (rf_counts r') h of Some c \<Rightarrow> c | None \<Rightarrow> 0) = int (count_list (concat hss) h)" for h
    proof (cases "h \<in> set (concat hss)")
      case True
      then show ?thesis using c small unfolding counted_def by (simp only: option.case)
    next
      case False
      then have "map_of (rf_counts r') h = None"
        using c count_list_0_iff [of "concat hss" h] unfolding counted_def by (cases "map_of (rf_counts r') h") force+
      with False show ?thesis by (simp add: count_list_0_iff)
    qed
    then show ?thesis by (simp add: eligible_def th)
  qed
qed

end
