(* ===== verification/Offload_Serving.thy ===== *)
theory Offload_Serving
  imports Offload_Reuse
begin

text \<open>
  The properties of KV offloading as a whole: whatever manager \<open>get_manager\<close> returns,
  under any interleaving of lookups, touches, loads, stores, worker writes and completions.
\<close>

section \<open>A concrete run\<close>

definition start_transfers :: "'m \<Rightarrow> (int \<Rightarrow> 'd) \<Rightarrow> ('m, 'd) transfers" where
  "start_transfers m mem = \<lparr>tr_manager = m, tr_loads = [], tr_stores = [], tr_memory = mem\<rparr>"

definition offload_demo_config :: "string \<Rightarrow> int \<Rightarrow> cpu_offload_config" where
  "offload_demo_config policy threshold =
     \<lparr>oc_cpu_bytes_to_use = 4096, oc_page_sizes = [1024], oc_num_kv_cache_tensors = 2, oc_world_size = 1,
      oc_block_size_factor = 1, oc_gpu_block_size = [16], oc_eviction_policy = policy,
      oc_store_threshold = threshold, oc_max_tracker_size = 8, oc_enable_events = True\<rparr>"

lemma demo_num_blocks: "cpu_num_blocks (offload_demo_config policy threshold) = Inr 2"
  by (simp add: cpu_num_blocks_def offload_demo_config_def)

definition offload_demo_manager :: "string \<Rightarrow> int \<Rightarrow> cpu_manager" where
  "offload_demo_manager policy threshold = projr (get_manager (offload_demo_config policy threshold) 2)"

definition returns :: "('m, 'r) res \<Rightarrow> bool" where
  "returns x \<longleftrightarrow> (\<exists>r m. x = Inr (r, m))"

definition after :: "('m, 'r) res \<Rightarrow> 'm" where
  "after r = (case r of Inl (e, m) \<Rightarrow> m | Inr (x, m) \<Rightarrow> m)"

definition demo_data :: "block_hash \<Rightarrow> int list" where
  "demo_data h = map uint h"

text \<open>
  Two blocks of memory, LRU. Blocks 1 and 2 are stored; a load of block 2 starts; storing
  block 3 evicts block 1 and its worker begins to overwrite slot 0 while the load runs.
\<close>

definition demo_m1 :: cpu_manager where "demo_m1 = after (op_prepare_store cpu_ops [[1], [2]] (offload_demo_manager ''lru'' 0))"
definition demo_m2 :: cpu_manager where "demo_m2 = after (op_complete_store cpu_ops [[1], [2]] True demo_m1)"
definition demo_m3 :: cpu_manager where "demo_m3 = after (op_prepare_load cpu_ops [[2]] demo_m2)"
definition demo_m4 :: cpu_manager where "demo_m4 = after (op_prepare_store cpu_ops [[3]] demo_m3)"

definition demo_world :: "(cpu_manager, int list) transfers" where
  "demo_world = \<lparr>tr_manager = demo_m4, tr_loads = [[([2], 1)]], tr_stores = [[([3], 0)]],
                 tr_memory = ((\<lambda>_. [])(0 := [1], 1 := [2]))(0 := [7])\<rparr>"

lemma demo_calls:
  "op_prepare_store cpu_ops [[1], [2]] (offload_demo_manager ''lru'' 0) =
     Inr (Some \<lparr>so_to_store = [[1], [2]], so_spec = [0, 1], so_evicted = []\<rparr>, demo_m1)"
  "op_complete_store cpu_ops [[1], [2]] True demo_m1 = Inr ((), demo_m2)"
  "op_prepare_load cpu_ops [[2]] demo_m2 = Inr ([1], demo_m3)"
  "op_prepare_store cpu_ops [[3]] demo_m3 = Inr (Some \<lparr>so_to_store = [[3]], so_spec = [0], so_evicted = [[1]]\<rparr>, demo_m4)"
  by code_simp+

lemma demo_ready: "ready (cpu_view demo_m2) [2]"
proof -
  have "map_option refs (cpu_view demo_m2 [2]) = Some 0" by code_simp
  then show ?thesis by (auto simp: ready_def)
qed

lemma demo_run:
  "(transfer_step cpu_ops cpu_view demo_data)\<^sup>*\<^sup>* (start_transfers (offload_demo_manager ''lru'' 0) (\<lambda>_. [])) demo_world"
proof -
  let ?step = "transfer_step cpu_ops cpu_view demo_data"
  define w0 where "w0 = start_transfers (offload_demo_manager ''lru'' 0) (\<lambda>_. [] :: int list)"
  define w1 where "w1 = w0\<lparr>tr_manager := demo_m1, tr_stores := [[([1], 0), ([2], 1)]]\<rparr>"
  define w2 where "w2 = w1\<lparr>tr_memory := (tr_memory w1)(0 := [1])\<rparr>"
  define w3 where "w3 = w2\<lparr>tr_memory := (tr_memory w2)(1 := [2])\<rparr>"
  define w4 where "w4 = w3\<lparr>tr_manager := demo_m2, tr_stores := []\<rparr>"
  define w5 where "w5 = w4\<lparr>tr_manager := demo_m3, tr_loads := [[([2], 1)]]\<rparr>"
  define w6 where "w6 = w5\<lparr>tr_manager := demo_m4, tr_stores := [[([3], 0)]]\<rparr>"
  note ws = w0_def w1_def w2_def w3_def w4_def w5_def w6_def start_transfers_def
  have "?step w0 w1"
    using transfer_step.store [of "[[1], [2]]" cpu_ops w0 "\<lparr>so_to_store = [[1], [2]], so_spec = [0, 1], so_evicted = []\<rparr>"
        demo_m1 cpu_view demo_data]
    by (simp add: ws demo_calls(1))
  moreover have "?step w1 w2" unfolding w2_def by (rule transfer_step.worker_writes [of "[([1], 0), ([2], 1)]" _ "[1]"]) (simp_all add: ws)
  moreover have "?step w2 w3" unfolding w3_def by (rule transfer_step.worker_writes [of "[([1], 0), ([2], 1)]" _ "[2]"]) (simp_all add: ws)
  moreover have "?step w3 w4" unfolding w4_def
    using transfer_step.store_done [of w3 "[]" "[([1], 0), ([2], 1)]" "[]" "[[1], [2]]" demo_data cpu_ops "()" demo_m2 cpu_view]
    by (simp add: ws demo_calls(2) demo_data_def)
  moreover have "?step w4 w5" unfolding w5_def
    using transfer_step.load [of "[[2]]" cpu_view w4 cpu_ops "[1]" demo_m3 demo_data] demo_ready
    by (simp add: ws demo_calls(3))
  moreover have "?step w5 w6" unfolding w6_def
    using transfer_step.store [of "[[3]]" cpu_ops w5 "\<lparr>so_to_store = [[3]], so_spec = [0], so_evicted = [[1]]\<rparr>"
        demo_m4 cpu_view demo_data]
    by (simp add: ws demo_calls(4))
  moreover have "?step w6 demo_world"
    using transfer_step.worker_writes [of "[([3], 0)]" w6 "[3]" 0 cpu_ops cpu_view demo_data "[7]"]
    by (simp add: ws demo_world_def)
  ultimately show ?thesis unfolding w0_def [symmetric] by (meson converse_rtranclp_into_rtranclp rtranclp.rtrancl_refl)
qed

lemma demo_manager_lru: "get_manager (offload_demo_config ''lru'' 0) 2 = Inr (offload_demo_manager ''lru'' 0)"
  by code_simp

section \<open>Properties\<close>

lemma served_ok:
  assumes "get_manager cfg n = Inr m" "0 \<le> n" "n \<le> 2 ^ 53"
    "(transfer_step cpu_ops cpu_view data)\<^sup>*\<^sup>* (start_transfers m mem) w"
  shows "transfers_ok cpu_ok cpu_view data w"
  by (rule cpu.transfers_keep [OF assms(4)])
    (simp add: start_transfers_def cpu.fresh_transfers_ok [OF get_manager_ok(1,2) [OF assms(1-3)]])

text \<open>C14. End-to-end correctness of KV offloading (\<open>lru_manager.py\<close>, \<open>arc_manager.py\<close>,
  \<open>reuse_manager.py\<close>, \<open>backends/cpu.py\<close>), for the manager of any configuration and any
  interleaving of its calls with transfers in flight: while a load is in flight the slots it was
  given hold the data of the hashes it asked for, no store in flight was given one of these
  slots, and no slot was given to two stores.\<close>

theorem offloaded_data_read_back:
  assumes "get_manager cfg n = Inr m" "0 \<le> n" "n \<le> 2 ^ 53"
    "(transfer_step cpu_ops cpu_view data)\<^sup>*\<^sup>* (start_transfers m mem) w"
  shows "(\<forall>(h, i)\<in>set (concat (tr_loads w)). tr_memory w i = data h \<and> i \<notin> snd ` set (concat (tr_stores w))) \<and>
    distinct (map snd (concat (tr_stores w)))"
proof (rule conjI)
  note ok = served_ok [OF assms]
  show "\<forall>(h, i)\<in>set (concat (tr_loads w)). tr_memory w i = data h \<and> i \<notin> snd ` set (concat (tr_stores w))"
    using cpu.loads_read_data(1,2) [OF ok] by fastforce
  show "distinct (map snd (concat (tr_stores w)))" by (rule cpu.loads_read_data(3) [OF ok])
qed

theorem offloaded_data_read_back_witness:
  "tr_loads demo_world = [[([2], 1)]] \<and> tr_memory demo_world 1 = demo_data [2] \<and>
   1 \<notin> snd ` set (concat (tr_stores demo_world))"
proof -
  have "concat (tr_loads demo_world) = [([2], 1)]" "tr_loads demo_world = [[([2], 1)]]" by (simp_all add: demo_world_def)
  then show ?thesis
    using offloaded_data_read_back [OF demo_manager_lru _ _ demo_run] by simp
qed

text \<open>C15. Slots are neither lost nor shared: in every state reached, the free slots of the
  backend are those not owned by a cached block, and once no transfer is in flight every cached
  block is idle, so that all the memory can be reclaimed.\<close>

theorem offload_slots_conserved:
  assumes "get_manager cfg n = Inr m" "0 \<le> n" "n \<le> 2 ^ 53"
    "(transfer_step cpu_ops cpu_view data)\<^sup>*\<^sup>* (start_transfers m mem) w"
  shows "owns (cpu_backend_of (tr_manager w)) (cpu_view (tr_manager w)) \<and>
    backend_num_free (cpu_backend_of (tr_manager w)) =
      cb_num_blocks (cpu_backend_of (tr_manager w)) - int (card (dom (cpu_view (tr_manager w)))) \<and>
    (tr_loads w = [] \<and> tr_stores w = [] \<longrightarrow> evictable (cpu_view (tr_manager w)) = dom (cpu_view (tr_manager w)))"
proof -
  note ok = served_ok [OF assms]
  have "owns (cpu_backend_of (tr_manager w)) (cpu_view (tr_manager w))"
    using ok cpu.ok_owns by (simp add: transfers_ok_def)
  then show ?thesis using cpu.slots_conserved [OF ok] by blast
qed

theorem offload_slots_conserved_witness:
  "owns (cpu_backend_of demo_m4) (cpu_view demo_m4) \<and>
   backend_num_free (cpu_backend_of demo_m4) = cb_num_blocks (cpu_backend_of demo_m4) - int (card (dom (cpu_view demo_m4)))"
proof -
  have "tr_manager demo_world = demo_m4" by (simp add: demo_world_def)
  then show ?thesis
    using offload_slots_conserved [OF demo_manager_lru _ _ demo_run] by simp
qed

text \<open>C16. No call of the connector that keeps to the interface raises, in any state reached:
  lookups and touches of any hashes, a load of readable blocks, a store of distinct hashes,
  and the completion, with success or failure, of every transfer in flight.\<close>

theorem offload_calls_return:
  assumes "get_manager cfg n = Inr m" "0 \<le> n" "n \<le> 2 ^ 53"
    "(transfer_step cpu_ops cpu_view data)\<^sup>*\<^sup>* (start_transfers m mem) w"
  shows "returns (op_lookup cpu_ops hs (tr_manager w)) \<and> returns (op_touch cpu_ops hs (tr_manager w)) \<and>
    ((\<forall>h\<in>set hs. ready (cpu_view (tr_manager w)) h) \<and> length (concat (tr_loads w)) + length hs < 2 ^ 31 \<longrightarrow>
       returns (op_prepare_load cpu_ops hs (tr_manager w))) \<and>
    (t \<in> set (tr_loads w) \<longrightarrow> returns (op_complete_load cpu_ops (map fst t) (tr_manager w))) \<and>
    (distinct hs \<longrightarrow> returns (op_prepare_store cpu_ops hs (tr_manager w))) \<and>
    (t \<in> set (tr_stores w) \<longrightarrow> returns (op_complete_store cpu_ops (map fst t) success (tr_manager w)))"
  unfolding returns_def using cpu.calls_return [OF served_ok [OF assms]] by blast

theorem offload_calls_return_witness:
  "returns (op_complete_load cpu_ops [[2]] demo_m4) \<and> returns (op_complete_store cpu_ops [[3]] False demo_m4)"
proof -
  have "tr_manager demo_world = demo_m4" "[([2], 1)] \<in> set (tr_loads demo_world)" "[([3], 0)] \<in> set (tr_stores demo_world)"
    by (simp_all add: demo_world_def)
  then show ?thesis
    using offload_calls_return [OF demo_manager_lru _ _ demo_run, of "[]" "[([2], 1)]"]
      offload_calls_return [OF demo_manager_lru _ _ demo_run, of "[]" "[([3], 0)]" False] by simp
qed

text \<open>C26. \<open>LRUOffloadingManager.prepare_store\<close> is all or nothing: when fewer idle blocks
  outside the request exist than slots are missing it returns \<open>None\<close> and changes nothing;
  otherwise it evicts exactly the missing number of them, least recently used first, keeps
  the order of the others and appends the new blocks, not yet readable.\<close>

theorem lru_store_all_or_nothing:
  assumes "lru_blocks_ok m" "distinct hs"
  defines "idle \<equiv> idle_blocks (set hs) (lm_blocks m)"
    and "new \<equiv> filter (\<lambda>h. lru_view m h = None) hs"
    and "need \<equiv> int (length (filter (\<lambda>h. lru_view m h = None) hs)) - backend_num_free (lm_backend m)"
  shows "runs_to (lm_prepare_store hs m) (\<lambda>res m'.
    if need \<le> int (length idle)
    then \<exists>bs. lru_blocks_ok m' \<and> length bs = length new \<and> (\<forall>b\<in>set bs. refs b = - 1) \<and>
      res = Some \<lparr>so_to_store = new, so_spec = map slot bs, so_evicted = take (nat need) idle\<rparr> \<and>
      lm_blocks m' = filter (\<lambda>(h, b). h \<notin> set (take (nat need) idle)) (lm_blocks m) @ zip new bs \<and>
      cb_num_blocks (lm_backend m') = cb_num_blocks (lm_backend m) \<and>
      lm_events m' = add_event (take (nat need) idle) True (lm_backend m) (lm_events m)
    else res = None \<and> m' = m)"
  unfolding idle_def new_def need_def by (rule lru_prepare_store [OF assms(1,2)])

theorem lru_store_all_or_nothing_witness:
  "lm_prepare_store [[1], [2], [3]] (lru_manager_init (cpu_backend_init 16 2) False) =
     Inr (None, lru_manager_init (cpu_backend_init 16 2) False)"
proof -
  let ?m = "lru_manager_init (cpu_backend_init 16 2) False"
  have "lru_blocks_ok ?m" by (rule lru_init_ok) simp_all
  from lru_store_all_or_nothing [OF this, of "[[1], [2], [3]]"]
  have "runs_to (lm_prepare_store [[1], [2], [3]] ?m) (\<lambda>res m'. res = None \<and> m' = ?m)"
    by (simp add: lru_manager_init_def idle_blocks_def lru_view_def backend_num_free_def cpu_backend_init_def)
  then show ?thesis by (auto elim!: runs_toE)
qed

lemma arc_ok_bounds:
  assumes ok: "arc_ok m"
  shows "0 \<le> am_target_t1_size m \<and> am_target_t1_size m \<le> of_int (am_cache_capacity m) \<and> distinct (arc_lists m) \<and>
    int (length (am_t1 m) + length (am_t2 m)) = cb_num_blocks (am_backend m) - backend_num_free (am_backend m)"
proof -
  have "dom (arc_get m) = set (map fst (am_t1 m) @ map fst (am_t2 m))"
    by (auto simp: arc_get_eq dom_map_of_conv_image_fst)
  then have "card (dom (arc_get m)) = length (map fst (am_t1 m) @ map fst (am_t2 m))"
    using arc_okD(1) [OF ok] by (simp only:) (rule distinct_card, auto simp: arc_lists_def)
  then have "int (length (am_t1 m) + length (am_t2 m)) = cb_num_blocks (am_backend m) - backend_num_free (am_backend m)"
    using owns_num_free [OF arc_okD(2) [OF ok]] by simp
  with arc_okD [OF ok] show ?thesis by auto
qed

lemma arc_reached_ok:
  assumes "0 \<le> n" "n \<le> 2 ^ 53"
    "(transfer_step arc_ops arc_get data)\<^sup>*\<^sup>* (start_transfers (arc_manager_init (cpu_backend_init bs n) ev) mem) w"
  shows "arc_ok (tr_manager w)"
proof -
  have "transfers_ok arc_ok arc_get data w"
    by (rule arc.transfers_keep [OF assms(3)])
      (simp add: start_transfers_def arc.fresh_transfers_ok [OF arc_init_ok(1) [OF assms(1,2)] arc_init_ok(2)])
  then show ?thesis by (simp add: transfers_ok_def)
qed

text \<open>C27. The ARC manager keeps its bounds in every state reached: the target of T1 stays
  between 0 and the capacity under float rounding, T1, T2 and the ghost lists are pairwise
  disjoint and without repetition, T1 and T2 fill exactly the slots in use, and after a
  store of new blocks neither ghost list exceeds the capacity.\<close>

theorem arc_bounds:
  assumes "0 \<le> n" "n \<le> 2 ^ 53"
    "(transfer_step arc_ops arc_get data)\<^sup>*\<^sup>* (start_transfers (arc_manager_init (cpu_backend_init bs n) ev) mem) w"
  shows "0 \<le> am_target_t1_size (tr_manager w) \<and> am_target_t1_size (tr_manager w) \<le> of_int (am_cache_capacity (tr_manager w)) \<and>
    distinct (arc_lists (tr_manager w)) \<and>
    int (length (am_t1 (tr_manager w)) + length (am_t2 (tr_manager w))) =
      cb_num_blocks (am_backend (tr_manager w)) - backend_num_free (am_backend (tr_manager w)) \<and>
    (distinct hs \<longrightarrow> runs_to (arc_prepare_store hs (tr_manager w)) (\<lambda>res m'. res = None \<or> so_to_store (the res) = [] \<or>
       int (length (am_b1 m')) \<le> am_cache_capacity m' \<and> int (length (am_b2 m')) \<le> am_cache_capacity m'))"
proof -
  have ok: "arc_ok (tr_manager w)" by (rule arc_reached_ok [OF assms])
  have "runs_to (arc_prepare_store hs (tr_manager w)) (\<lambda>res m'. res = None \<or> so_to_store (the res) = [] \<or>
       int (length (am_b1 m')) \<le> am_cache_capacity m' \<and> int (length (am_b2 m')) \<le> am_cache_capacity m')"
    if "distinct hs"
    by (rule runs_to_mono [OF arc_store_contract [OF ok that]]) blast
  with arc_ok_bounds [OF ok] show ?thesis by blast
qed

text \<open>A run of the ARC manager: after a ghost hit the target is 1.\<close>

definition arc_story :: "(arc_manager, unit) res" where
  "arc_story =
     rbind (arc_prepare_store [[1], [2]] (arc_manager_init (cpu_backend_init 16 2) True)) (\<lambda>_ m.
     rbind (arc_complete_store [[1], [2]] True m) (\<lambda>_ m.
     rbind (arc_prepare_store [[3], [4]] m) (\<lambda>_ m.
     rbind (arc_complete_store [[3], [4]] True m) (\<lambda>_ m.
     rbind (arc_touch [[1]] m) (\<lambda>_ m.
     rbind (arc_touch [[1]] m) (\<lambda>_ m.
     rbind (arc_touch [[3]] m) (\<lambda>_ m.
     rbind (arc_prepare_load [[3]] m) (\<lambda>_ m. return () m))))))))"

theorem arc_bounds_witness:
  "let m = arc_manager_init (cpu_backend_init 16 2) True in
   0 \<le> am_target_t1_size m \<and> am_target_t1_size m \<le> of_int (am_cache_capacity m) \<and>
   runs_to (arc_prepare_store [[1]] m) (\<lambda>res m'. res = None \<or> so_to_store (the res) = [] \<or>
     int (length (am_b1 m')) \<le> am_cache_capacity m' \<and> int (length (am_b2 m')) \<le> am_cache_capacity m')"
  using arc_bounds [of 2 "\<lambda>_. ()" 16 True "\<lambda>_. ()"
      "start_transfers (arc_manager_init (cpu_backend_init 16 2) True) (\<lambda>_. ())" "[[1]]"]
  by (simp add: start_transfers_def Let_def)

section \<open>Where the ARC manager departs from the interface\<close>

text \<open>The blocks of a table that an eviction may take, and how many evictions ARC can make.\<close>

definition idle_in :: "block_hash set \<Rightarrow> (block_hash, block_status) dict \<Rightarrow> nat" where
  "idle_in protected t = length (filter (\<lambda>(h, b). refs b = 0 \<and> h \<notin> protected) t)"

definition arc_reach :: "block_hash set \<Rightarrow> arc_manager \<Rightarrow> int" where
  "arc_reach protected m =
     min (int (idle_in protected (am_t1 m))) (max 0 (int (length (am_t1 m)) - float_to_int (am_target_t1_size m) + 1)) +
     int (idle_in protected (am_t2 m))"

lemma oldest_idle_None: "oldest_idle protected t = None \<longleftrightarrow> idle_in protected t = 0"
  by (auto simp: oldest_idle_def idle_in_def find_None_iff refs_def filter_empty_conv)

lemma drop_oldest_idle:
  assumes "dict_wf t" "oldest_idle protected t = Some (h, b)"
  shows "idle_in protected t = Suc (idle_in protected (AList.delete h t))" "length t = Suc (length (AList.delete h t))"
proof -
  have hb: "(h, b) \<in> set t" "refs b = 0" "h \<notin> protected"
    using oldest_idle_SomeD [OF assms(2)] by auto
  then obtain xs ys where t: "t = xs @ (h, b) # ys" by (meson split_list)
  then have "h \<notin> fst ` set xs" "h \<notin> fst ` set ys" using assms(1) by auto
  then have "AList.delete h xs = xs" "AList.delete h ys = ys" by (force simp: AList.delete_eq filter_id_conv)+
  then have d: "AList.delete h t = xs @ ys" unfolding t by (simp add: AList.delete_eq)
  show "idle_in protected t = Suc (idle_in protected (AList.delete h t))" "length t = Suc (length (AList.delete h t))"
    unfolding d by (simp_all add: t idle_in_def hb)
qed

lemma arc_evict_None_iff:
  assumes "dict_wf (am_t1 m)" "dict_wf (am_t2 m)"
  shows "fst (arc_evict n protected acc m) = None \<longleftrightarrow> arc_reach protected m < int n"
  using assms
proof (induction n arbitrary: acc m)
  case 0
  then show ?case by (simp add: arc_reach_def)
next
  case (Suc n)
  let ?full = "int (length (am_t1 m)) \<ge> float_to_int (am_target_t1_size m)"
  show ?case
  proof (cases "if ?full then oldest_idle protected (am_t1 m) else None")
    case (Some hb)
    obtain h b where hb: "hb = (h, b)" by fastforce
    let ?m = "m\<lparr>am_t1 := AList.delete h (am_t1 m), am_b1 := AList.update h () (am_b1 m), am_backend := backend_free b (am_backend m)\<rparr>"
    have f: "?full" "oldest_idle protected (am_t1 m) = Some (h, b)" using Some hb by (auto split: if_splits)
    note d = drop_oldest_idle [OF Suc.prems(1) f(2)]
    have "arc_reach protected m = arc_reach protected ?m + 1" using f(1) d by (simp add: arc_reach_def)
    moreover have "fst (arc_evict n protected (acc @ [h]) ?m) = None \<longleftrightarrow> arc_reach protected ?m < int n"
      using Suc.prems by (intro Suc.IH) (simp_all add: distinct_delete)
    ultimately show ?thesis using f by simp
  next
    case None
    then have z: "min (int (idle_in protected (am_t1 m))) (max 0 (int (length (am_t1 m)) - float_to_int (am_target_t1_size m) + 1)) = 0"
      by (cases ?full) (auto simp: oldest_idle_None)
    show ?thesis
    proof (cases "oldest_idle protected (am_t2 m)")
      case None': None
      then have "idle_in protected (am_t2 m) = 0" by (simp add: oldest_idle_None)
      then show ?thesis using None None' z by (simp add: arc_reach_def)
    next
      case (Some hb)
      obtain h b where hb: "hb = (h, b)" by fastforce
      let ?m = "m\<lparr>am_t2 := AList.delete h (am_t2 m), am_b2 := AList.update h () (am_b2 m), am_backend := backend_free b (am_backend m)\<rparr>"
      note d = drop_oldest_idle [OF Suc.prems(2) Some [unfolded hb]]
      have "arc_reach protected m = arc_reach protected ?m + 1" using z d by (simp add: arc_reach_def)
      moreover have "fst (arc_evict n protected (acc @ [h]) ?m) = None \<longleftrightarrow> arc_reach protected ?m < int n"
        using Suc.prems by (intro Suc.IH) (simp_all add: distinct_delete)
      ultimately show ?thesis using None Some hb by simp
    qed
  qed
qed

text \<open>C34. When the ARC manager refuses a store, exactly: the blocks to store exceed the free slots by more than the idle, unprotected blocks of
  T2 plus those of T1 that it is willing to take, which are at most as many as T1 has in excess of its target plus one. So while T1 is
  below its target none of its idle blocks counts and a store is refused although evicting them would make room; the LRU
  manager refuses only when too few blocks are idle altogether.\<close>

theorem arc_store_refused_iff:
  assumes "0 \<le> n" "n \<le> 2 ^ 53"
    "(transfer_step arc_ops arc_get data)\<^sup>*\<^sup>* (start_transfers (arc_manager_init (cpu_backend_init bs n) ev) mem) w"
    "distinct hs"
  shows "runs_to (arc_prepare_store hs (tr_manager w)) (\<lambda>res _. res = None \<longleftrightarrow>
     arc_reach (set hs) (tr_manager w) <
       int (length (filter (\<lambda>h. arc_get (tr_manager w) h = None) hs)) - backend_num_free (am_backend (tr_manager w)))"
proof -
  let ?m = "tr_manager w"
  have ok: "arc_ok ?m" by (rule arc_reached_ok [OF assms(1-3)])
  have wf: "dict_wf (am_t1 ?m)" "dict_wf (am_t2 ?m)" using arc_okD(1) [OF ok] by (simp_all add: arc_lists_def)
  have new: "filter (\<lambda>h. map_of (am_t1 ?m) h = None \<and> map_of (am_t2 ?m) h = None) hs = filter (\<lambda>h. arc_get ?m h = None) hs"
    by (rule filter_cong [OF refl]) (simp add: arc_get_def split: option.split)
  let ?new = "filter (\<lambda>h. arc_get ?m h = None) hs"
  let ?k = "int (length ?new) - backend_num_free (am_backend ?m)"
  have free: "0 \<le> backend_num_free (am_backend ?m)"
    using card_free_slots [of "am_backend ?m"] arc_okD(2) [OF ok] by (auto simp: owns_def)
  have reach: "0 \<le> arc_reach (set hs) ?m" by (simp add: arc_reach_def)
  have none: "fst (arc_evict (nat ?k) (set hs) [] ?m) = None \<longleftrightarrow> arc_reach (set hs) ?m < ?k"
    unfolding arc_evict_None_iff [OF wf] using reach by auto
  show ?thesis
  proof (rule runs_to_mono [OF arc_store_contract [OF ok assms(4)]], goal_cases)
    case (1 res m')
    then have run: "arc_prepare_store hs ?m = Inr (res, m')" by simp
    show ?case
    proof (cases "?new = []")
      case True
      with run have "res \<noteq> None" unfolding arc_prepare_store_def Let_def new by (auto simp: return_def)
      with True free reach show ?thesis by simp
    next
      case False
      obtain out m1 where e: "arc_evict (nat ?k) (set hs) [] ?m = (out, m1)" by fastforce
      from run False have "res = None \<longleftrightarrow> out = None"
        unfolding arc_prepare_store_def Let_def new e
        by (cases out) (auto simp: return_def rbind_def Let_def split: sum.splits)
      with none e show ?thesis by simp
    qed
  qed
qed

theorem arc_store_refused_iff_witness:
  "runs_to (arc_prepare_store [[1]] (arc_manager_init (cpu_backend_init 16 0) True)) (\<lambda>res _. res = None) \<and>
   runs_to (arc_prepare_store [[1]] (arc_manager_init (cpu_backend_init 16 2) True)) (\<lambda>res _. res \<noteq> None)"
proof -
  let ?m = "\<lambda>n. arc_manager_init (cpu_backend_init 16 n) True"
  have r: "runs_to (arc_prepare_store [[1]] (?m n)) (\<lambda>res _. res = None \<longleftrightarrow> arc_reach {[1]} (?m n) < 1 - backend_num_free (am_backend (?m n)))"
    if "0 \<le> n" "n \<le> 2 ^ 53" for n
    using arc_store_refused_iff [OF that, where bs = 16 and ev = True and mem = "\<lambda>_. ()" and data = "\<lambda>_. ()"
        and w = "start_transfers (?m n) (\<lambda>_. ())" and hs = "[[1]]"]
    by (simp add: start_transfers_def) (simp add: arc_get_def arc_manager_init_def)
  have "arc_reach {[1]} (?m 0) < 1 - backend_num_free (am_backend (?m 0))"
    "\<not> arc_reach {[1]} (?m 2) < 1 - backend_num_free (am_backend (?m 2))" by code_simp+
  with r [of 0] r [of 2] show ?thesis by simp
qed

text \<open>
  A run that ends in such a refusal: T1 holds the idle block 4 and is below its target, T2 holds block 3, which a load uses; storing
  block 5 is refused although evicting block 4 would make room.
\<close>

lemma arc_refuses_with_idle_block:
  "case arc_story of
     Inl _ \<Rightarrow> False
   | Inr (_, m) \<Rightarrow> map_option refs (arc_get m [4]) = Some 0 \<and> arc_prepare_store [[5]] m = return None m"
  by code_simp

text \<open>A failed store of a block that is still being written gives its slot back. Of a block that is readable the ARC manager drops the
  block as well, but not the slot: afterwards one slot is neither free nor owned by a block.\<close>

lemma arc_failed_store_loses_slot:
  assumes ok: "arc_ok m" and b: "arc_get m h = Some b"
  shows "runs_to (arc_complete_store [h] False m) (\<lambda>_ m'. arc_get m' h = None \<and>
     int (length (am_t1 m') + length (am_t2 m')) + backend_num_free (am_backend m') =
       cb_num_blocks (am_backend m') - (if is_ready b then 1 else 0))"
proof -
  note D = arc_okD [OF ok]
  have n: "int (length (am_t1 m) + length (am_t2 m)) = cb_num_blocks (am_backend m) - backend_num_free (am_backend m)"
    using arc_ok_bounds [OF ok] by blast
  from ok b show ?thesis
  proof (cases rule: arc_get_cases)
    case t1
    from length_delete_present [OF D(5), of h] t1 n show ?thesis
      by (simp add: map_of_keys return_def arc_complete_store_def arc_failed_one_def arc_get_def backend_free_def backend_num_free_def)
  next
    case t2
    from length_delete_present [OF D(6), of h] t2 n show ?thesis
      by (simp add: map_of_keys return_def arc_complete_store_def arc_failed_one_def arc_get_def backend_free_def backend_num_free_def)
  qed
qed

text \<open>C28. \<open>FilterReusedOffloadingManager\<close>: after any sequence of lookups, \<open>prepare_store\<close>
  hands to the backing manager only hashes that occurred in them at least \<open>store_threshold\<close>
  times, and exactly those as long as at most \<open>max_tracker_size\<close> hashes were looked up; the
  tracker never exceeds that size.\<close>

theorem reuse_filter_threshold:
  assumes "reuse_filter_init backing threshold mx = Inr r" "collect_each (filter_lookup ops) hss r = Inr (ns, r')"
  shows "filter_prepare_store ops hs r' = on_backing (op_prepare_store ops (eligible r' hs)) r' \<and>
    (\<forall>h\<in>set (eligible r' hs). threshold \<le> int (count_list (concat hss) h)) \<and>
    (int (card (set (concat hss))) \<le> mx \<longrightarrow> eligible r' hs = filter (\<lambda>h. threshold \<le> int (count_list (concat hss) h)) hs) \<and>
    int (length (rf_counts r')) \<le> mx"
  using reuse_filter_passes [OF assms] unfolding filter_prepare_store_def by blast

definition demo_filter :: "lru_manager reuse_filter" where
  "demo_filter = projr (reuse_filter_init (lru_manager_init (cpu_backend_init 16 2) False) 2 4)"

definition demo_seen :: "lru_manager reuse_filter" where
  "demo_seen = after (collect_each (filter_lookup lru_ops) [[[1], [2]], [[1]]] demo_filter)"

theorem reuse_filter_threshold_witness: "eligible demo_seen [[2], [1]] = [[1]] \<and> int (length (rf_counts demo_seen)) \<le> 4"
proof -
  have i: "reuse_filter_init (lru_manager_init (cpu_backend_init 16 2) False) 2 4 = Inr demo_filter" by code_simp
  have s: "collect_each (filter_lookup lru_ops) [[[1], [2]], [[1]]] demo_filter = Inr ([Some 0, Some 0], demo_seen)"
    by code_simp
  have "eligible demo_seen [[2], [1]] = filter (\<lambda>h. 2 \<le> int (count_list (concat [[[1], [2]], [[1]]]) h)) [[2], [1]]"
    using conjunct1 [OF conjunct2 [OF conjunct2 [OF reuse_filter_threshold [OF i s]]]] by (rule mp) code_simp
  moreover have "filter (\<lambda>h. 2 \<le> int (count_list (concat [[[1], [2]], [[1]]]) h)) [[2], [1]] = [[1 :: byte]]" by code_simp
  ultimately show ?thesis using reuse_filter_threshold [OF i s] by simp
qed

end
