(* ===== verification/Encoder_Cache.thy ===== *)
theory Encoder_Cache
  imports Pool_Prelude
begin

text \<open>
  The cache of multi-modal encoder outputs, \<open>vllm/v1/core/encoder_cache_manager.py\<close>, and
  the part of the scheduler that spends it: \<open>_try_schedule_encoder_inputs\<close> and
  \<open>_free_encoder_inputs\<close> of \<open>vllm/v1/core/sched/scheduler.py\<close>.

  The manager only counts embeddings; the outputs live in the workers. A set of request ids
  is a list without repetitions. The scheduling loop is written over the operations of the
  manager, because the scheduler holds one of two classes. The order in which Python
  traverses a set of input ids is the parameter \<open>iter\<close>.
\<close>

section \<open>Requests\<close>

record placeholder_range =
  pr_offset :: int
  pr_length :: int
  pr_is_embed :: "bool list option"

record mm_item =
  mi_identifier :: string
  mi_position :: placeholder_range

record enc_request =
  er_request_id :: string
  er_mm_features :: "mm_item list"

text \<open>Indexing of a tensor: negative indices count from the end.\<close>

definition tensor_at :: "'a list \<Rightarrow> int \<Rightarrow> error + 'a" where
  "tensor_at xs i =
     (if 0 \<le> i \<and> i < int (length xs) then Inr (xs ! nat i)
      else if - int (length xs) \<le> i \<and> i < 0 then Inr (xs ! nat (int (length xs) + i))
      else Inl IndexError)"

fun embeds_cumsum :: "int \<Rightarrow> bool list \<Rightarrow> int list" where
  "embeds_cumsum n [] = []"
| "embeds_cumsum n (b # bs) = (let n' = n + (if b then 1 else 0) in n' # embeds_cumsum n' bs)"

definition get_num_embeds :: "placeholder_range \<Rightarrow> error + int" where
  "get_num_embeds p =
     (case pr_is_embed p of None \<Rightarrow> Inr (pr_length p) | Some bits \<Rightarrow> tensor_at (embeds_cumsum 0 bits) (- 1))"

definition get_embeds_indices_in_range :: "placeholder_range \<Rightarrow> int \<Rightarrow> int \<Rightarrow> error + (int \<times> int)" where
  "get_embeds_indices_in_range p start_idx end_idx =
     (case pr_is_embed p of
        None \<Rightarrow> Inr (start_idx, end_idx)
      | Some bits \<Rightarrow>
          (case (if start_idx > 0 then tensor_at (embeds_cumsum 0 bits) (start_idx - 1) else Inr 0) of
             Inl e \<Rightarrow> Inl e
           | Inr s \<Rightarrow> map_sum id (\<lambda>e. (s, e)) (tensor_at (embeds_cumsum 0 bits) (end_idx - 1))))"

definition get_num_encoder_embeds :: "enc_request \<Rightarrow> nat \<Rightarrow> error + int" where
  "get_num_encoder_embeds r i =
     (if \<not> i < length (er_mm_features r) then Inl (AssertionError ''input_id'')
      else get_num_embeds (mi_position (er_mm_features r ! i)))"

text \<open>A computation that may raise but does not touch the state, and \<open>request.mm_features[i].identifier\<close>.\<close>

definition lift_err :: "error + 'a \<Rightarrow> 's \<Rightarrow> ('s, 'a) res" where
  "lift_err x s = (case x of Inl e \<Rightarrow> raise e s | Inr a \<Rightarrow> return a s)"

definition identifier_of :: "enc_request \<Rightarrow> nat \<Rightarrow> error + string" where
  "identifier_of r i =
     (if i < length (er_mm_features r) then Inr (mi_identifier (er_mm_features r ! i)) else Inl IndexError)"

section \<open>The manager\<close>

record encoder_cache =
  ec_cache_size :: int
  ec_num_free_slots :: int
  ec_num_freeable_slots :: int
  ec_cached :: "(string, string list) dict"
  ec_freeable :: "(string, int) dict"
  ec_freed :: "string list"

definition encoder_cache_init :: "int \<Rightarrow> encoder_cache" where
  "encoder_cache_init cache_size =
     \<lparr>ec_cache_size = cache_size, ec_num_free_slots = cache_size, ec_num_freeable_slots = cache_size,
      ec_cached = [], ec_freeable = [], ec_freed = []\<rparr>"

definition ec_reset :: "encoder_cache \<Rightarrow> (encoder_cache, unit) res" where
  "ec_reset m = return () (m\<lparr>ec_cached := [], ec_freeable := [], ec_freed := [],
                            ec_num_free_slots := ec_cache_size m, ec_num_freeable_slots := ec_cache_size m\<rparr>)"

definition ec_add_ref :: "string \<Rightarrow> string \<Rightarrow> encoder_cache \<Rightarrow> (encoder_cache, unit) res" where
  "ec_add_ref h req_id m =
     (case map_of (ec_cached m) h of
        None \<Rightarrow> raise KeyError m
      | Some refs \<Rightarrow> return () (m\<lparr>ec_cached := AList.update h (set_add req_id refs) (ec_cached m)\<rparr>))"

definition check_and_update_cache :: "enc_request \<Rightarrow> nat \<Rightarrow> encoder_cache \<Rightarrow> (encoder_cache, bool) res" where
  "check_and_update_cache r i m =
     rbind (lift_err (identifier_of r i) m) (\<lambda>h m.
       case map_of (ec_cached m) h of
         None \<Rightarrow> return False m
       | Some refs \<Rightarrow>
           rbind (if refs = []
                  then (case map_of (ec_freeable m) h of
                          None \<Rightarrow> raise KeyError m
                        | Some n \<Rightarrow> return () (m\<lparr>ec_freeable := AList.delete h (ec_freeable m),
                                                ec_num_freeable_slots := ec_num_freeable_slots m - n\<rparr>))
                  else return () m)
             (\<lambda>_ m. rbind (ec_add_ref h (er_request_id r) m) (\<lambda>_. return True)))"

text \<open>The eviction loop of \<open>can_allocate\<close>; its first argument is the content of \<open>freeable\<close>.\<close>

fun evict_until :: "(string, int) dict \<Rightarrow> int \<Rightarrow> encoder_cache \<Rightarrow> (encoder_cache, unit) res" where
  "evict_until [] num_embeds m =
     (if num_embeds > ec_num_free_slots m then raise KeyError m else return () m)"
| "evict_until ((h, n) # rest) num_embeds m =
     (if num_embeds > ec_num_free_slots m
      then let m = m\<lparr>ec_freeable := rest\<rparr>
           in if map_of (ec_cached m) h = None then raise KeyError m
              else evict_until rest num_embeds
                     (m\<lparr>ec_cached := AList.delete h (ec_cached m), ec_freed := ec_freed m @ [h],
                        ec_num_free_slots := ec_num_free_slots m + n\<rparr>)
      else return () m)"

definition can_allocate :: "enc_request \<Rightarrow> nat \<Rightarrow> int \<Rightarrow> int \<Rightarrow> encoder_cache \<Rightarrow> (encoder_cache, bool) res" where
  "can_allocate r i encoder_compute_budget num_embeds_to_schedule m =
     rbind (lift_err (get_num_encoder_embeds r i) m) (\<lambda>num_embeds m.
       if num_embeds > encoder_compute_budget then return False m
       else let num_embeds = num_embeds + num_embeds_to_schedule
            in if num_embeds \<le> ec_num_free_slots m then return True m
               else if num_embeds > ec_num_freeable_slots m then return False m
               else rbind (evict_until (ec_freeable m) num_embeds m) (\<lambda>_. return True))"

definition ec_allocate :: "enc_request \<Rightarrow> nat \<Rightarrow> encoder_cache \<Rightarrow> (encoder_cache, unit) res" where
  "ec_allocate r i m =
     rbind (lift_err (identifier_of r i) m) (\<lambda>h m.
       let m = (if map_of (ec_cached m) h = None then m\<lparr>ec_cached := AList.update h [] (ec_cached m)\<rparr> else m)
       in rbind (lift_err (get_num_encoder_embeds r i) m) (\<lambda>n m.
          rbind (assert_that (ec_num_free_slots m \<ge> n) ''num_free_slots'' m) (\<lambda>_ m.
          rbind (assert_that (ec_num_freeable_slots m \<ge> n) ''num_freeable_slots'' m) (\<lambda>_ m.
          rbind (ec_add_ref h (er_request_id r) m) (\<lambda>_ m.
            return () (m\<lparr>ec_num_free_slots := ec_num_free_slots m - n,
                        ec_num_freeable_slots := ec_num_freeable_slots m - n\<rparr>))))))"

definition get_cached_input_ids :: "enc_request \<Rightarrow> encoder_cache \<Rightarrow> nat list" where
  "get_cached_input_ids r m =
     filter (\<lambda>i. map_of (ec_cached m) (mi_identifier (er_mm_features r ! i)) \<noteq> None) [0..<length (er_mm_features r)]"

definition free_encoder_input :: "enc_request \<Rightarrow> nat \<Rightarrow> encoder_cache \<Rightarrow> (encoder_cache, unit) res" where
  "free_encoder_input r i m =
     rbind (lift_err (identifier_of r i) m) (\<lambda>h m.
       case map_of (ec_cached m) h of
         None \<Rightarrow> return () m
       | Some refs \<Rightarrow>
           if refs = [] then return () m
           else let refs' = removeAll (er_request_id r) refs;
                    m = m\<lparr>ec_cached := AList.update h refs' (ec_cached m)\<rparr>
                in if refs' = []
                   then rbind (lift_err (get_num_encoder_embeds r i) m) (\<lambda>n m.
                          return () (m\<lparr>ec_freeable := AList.update h n (ec_freeable m),
                                      ec_num_freeable_slots := ec_num_freeable_slots m + n\<rparr>))
                   else return () m)"

definition ec_free :: "(nat list \<Rightarrow> nat list) \<Rightarrow> enc_request \<Rightarrow> encoder_cache \<Rightarrow> (encoder_cache, unit) res" where
  "ec_free iter r m = for_each (free_encoder_input r) (iter (get_cached_input_ids r m)) m"

definition get_freed_mm_hashes :: "encoder_cache \<Rightarrow> (encoder_cache, string list) res" where
  "get_freed_mm_hashes m = return (ec_freed m) (m\<lparr>ec_freed := []\<rparr>)"

section \<open>The manager of encoder-decoder models\<close>

record encdec_cache =
  ed_cache_size :: int
  ed_num_free_slots :: int
  ed_allocated :: "string list"
  ed_to_free :: "string list"

definition encdec_cache_init :: "int \<Rightarrow> encdec_cache" where
  "encdec_cache_init cache_size =
     \<lparr>ed_cache_size = cache_size, ed_num_free_slots = cache_size, ed_allocated = [], ed_to_free = []\<rparr>"

definition ed_reset :: "encdec_cache \<Rightarrow> (encdec_cache, unit) res" where
  "ed_reset m = return () (m\<lparr>ed_num_free_slots := ed_cache_size m, ed_allocated := [], ed_to_free := []\<rparr>)"

definition ed_check_and_update_cache :: "enc_request \<Rightarrow> nat \<Rightarrow> encdec_cache \<Rightarrow> (encdec_cache, bool) res" where
  "ed_check_and_update_cache r i m = return False m"

definition ed_can_allocate :: "enc_request \<Rightarrow> nat \<Rightarrow> int \<Rightarrow> int \<Rightarrow> encdec_cache \<Rightarrow> (encdec_cache, bool) res" where
  "ed_can_allocate r i encoder_compute_budget num_embeds_to_schedule m =
     rbind (lift_err (get_num_encoder_embeds r i) m) (\<lambda>n m.
       if n > encoder_compute_budget then return False m
       else return (n + num_embeds_to_schedule \<le> ed_num_free_slots m) m)"

definition ed_allocate :: "enc_request \<Rightarrow> nat \<Rightarrow> encdec_cache \<Rightarrow> (encdec_cache, unit) res" where
  "ed_allocate r i m =
     rbind (lift_err (get_num_encoder_embeds r i) m) (\<lambda>n m.
       let m = m\<lparr>ed_num_free_slots := ed_num_free_slots m - n\<rparr>
       in rbind (lift_err (identifier_of r i) m) (\<lambda>h m. return () (m\<lparr>ed_allocated := ed_allocated m @ [h]\<rparr>)))"

definition ed_free_encoder_input :: "enc_request \<Rightarrow> nat \<Rightarrow> encdec_cache \<Rightarrow> (encdec_cache, unit) res" where
  "ed_free_encoder_input r i m =
     rbind (lift_err (get_num_encoder_embeds r i) m) (\<lambda>n m.
       return () (m\<lparr>ed_num_free_slots := ed_num_free_slots m + n\<rparr>))"

definition ed_free :: "enc_request \<Rightarrow> encdec_cache \<Rightarrow> (encdec_cache, unit) res" where
  "ed_free r m = for_each (ed_free_encoder_input r) [0..<length (er_mm_features r)] m"

definition ed_get_cached_input_ids :: "enc_request \<Rightarrow> encdec_cache \<Rightarrow> nat list" where
  "ed_get_cached_input_ids r m = [0..<length (er_mm_features r)]"

definition ed_get_freed_mm_hashes :: "encdec_cache \<Rightarrow> (encdec_cache, string list) res" where
  "ed_get_freed_mm_hashes m = return (ed_to_free m) (m\<lparr>ed_to_free := ed_allocated m, ed_allocated := []\<rparr>)"

section \<open>Budget\<close>

definition compute_mm_encoder_budget :: "bool \<Rightarrow> int \<Rightarrow> int \<Rightarrow> int \<Rightarrow> (string, int) dict \<Rightarrow> error + (int \<times> int)" where
  "compute_mm_encoder_budget disable_chunked_mm_input max_num_batched_tokens max_num_encoder_input_tokens
       config_encoder_cache_size mm_max_toks_per_item =
     (if mm_max_toks_per_item = [] then Inr (0, 0)
      else let max_tokens_per_mm_item = Max (set (map snd mm_max_toks_per_item))
           in if disable_chunked_mm_input \<and> max_tokens_per_mm_item > max_num_batched_tokens
              then Inl (ValueError ''Chunked MM input disabled but max_tokens_per_mm_item is larger than max_num_batched_tokens'')
              else Inr (max max_num_encoder_input_tokens max_tokens_per_mm_item,
                        max config_encoder_cache_size max_tokens_per_mm_item))"

section \<open>Scheduling of encoder inputs\<close>

record 'm encoder_ops =
  eo_check :: "enc_request \<Rightarrow> nat \<Rightarrow> 'm \<Rightarrow> ('m, bool) res"
  eo_can_allocate :: "enc_request \<Rightarrow> nat \<Rightarrow> int \<Rightarrow> int \<Rightarrow> 'm \<Rightarrow> ('m, bool) res"
  eo_allocate :: "enc_request \<Rightarrow> nat \<Rightarrow> 'm \<Rightarrow> ('m, unit) res"
  eo_free_input :: "enc_request \<Rightarrow> nat \<Rightarrow> 'm \<Rightarrow> ('m, unit) res"
  eo_cached_ids :: "enc_request \<Rightarrow> 'm \<Rightarrow> nat list"

definition cache_ops :: "encoder_cache encoder_ops" where
  "cache_ops = \<lparr>eo_check = check_and_update_cache, eo_can_allocate = can_allocate, eo_allocate = ec_allocate,
                eo_free_input = free_encoder_input, eo_cached_ids = get_cached_input_ids\<rparr>"

definition encdec_ops :: "encdec_cache encoder_ops" where
  "encdec_ops = \<lparr>eo_check = ed_check_and_update_cache, eo_can_allocate = ed_can_allocate, eo_allocate = ed_allocate,
                 eo_free_input = ed_free_encoder_input, eo_cached_ids = ed_get_cached_input_ids\<rparr>"

record scheduler_env =
  se_is_encoder_decoder :: bool
  se_disable_chunked_mm_input :: bool
  se_has_cache_item :: "(string \<Rightarrow> bool) option"

text \<open>The local variables of the loop.\<close>

record encoder_plan =
  ep_inputs :: "nat list"
  ep_num_new_tokens :: int
  ep_budget :: int
  ep_external :: "nat list"
  ep_hashes :: "string list"
  ep_embeds :: int

fun encoder_loop :: "'m encoder_ops \<Rightarrow> scheduler_env \<Rightarrow> enc_request \<Rightarrow> int \<Rightarrow> int \<Rightarrow> nat list \<Rightarrow> encoder_plan
    \<Rightarrow> 'm \<Rightarrow> ('m, encoder_plan) res" where
  "encoder_loop ops env r computed shift [] p m = return p m"
| "encoder_loop ops env r computed shift (i # is) p m =
     (let f = er_mm_features r ! i; pos = mi_position f; start_pos = pr_offset pos;
          num_encoder_tokens = pr_length pos; h = mi_identifier f
      in rbind (lift_err (get_num_embeds pos) m) (\<lambda>num_encoder_embeds m.
         if start_pos \<ge> computed + ep_num_new_tokens p + shift then return p m
         else if se_is_encoder_decoder env \<and> computed > 0
         then rbind (assert_that (start_pos = 0) ''encoder input at the beginning'' m)
                (\<lambda>_ m. encoder_loop ops env r computed shift is p m)
         else if start_pos + num_encoder_tokens \<le> computed then encoder_loop ops env r computed shift is p m
         else if \<not> se_is_encoder_decoder env \<and> h \<in> set (ep_hashes p)
         then encoder_loop ops env r computed shift is p m
         else rbind (if \<not> se_is_encoder_decoder env then eo_check ops r i m else return False m) (\<lambda>hit m.
         if hit then encoder_loop ops env r computed shift is p m
         else if se_disable_chunked_mm_input env \<and> computed < start_pos \<and>
                 computed + ep_num_new_tokens p < start_pos + num_encoder_tokens
         then return (p\<lparr>ep_num_new_tokens := max 0 (start_pos - (computed + shift))\<rparr>) m
         else rbind (eo_can_allocate ops r i (ep_budget p) (ep_embeds p) m) (\<lambda>fits m.
         if \<not> fits
         then return (p\<lparr>ep_num_new_tokens :=
                          (if computed + shift < start_pos then start_pos - (computed + shift) else 0)\<rparr>) m
         else
           let start_idx_rel = max 0 (computed - start_pos);
               end_idx_rel = min num_encoder_tokens (computed + ep_num_new_tokens p - start_pos)
           in rbind (lift_err (get_embeds_indices_in_range pos start_idx_rel end_idx_rel) m) (\<lambda>(s, e) m.
           if e - s = 0 then encoder_loop ops env r computed shift is p m
           else if (case se_has_cache_item env of None \<Rightarrow> False | Some has \<Rightarrow> has h)
           then encoder_loop ops env r computed shift is
                  (p\<lparr>ep_hashes := set_add h (ep_hashes p), ep_external := ep_external p @ [i],
                     ep_embeds := ep_embeds p + num_encoder_embeds\<rparr>) m
           else encoder_loop ops env r computed shift is
                  (p\<lparr>ep_embeds := ep_embeds p + num_encoder_embeds, ep_budget := ep_budget p - num_encoder_embeds,
                     ep_hashes := set_add h (ep_hashes p), ep_inputs := ep_inputs p @ [i]\<rparr>) m)))))"

definition try_schedule_encoder_inputs :: "'m encoder_ops \<Rightarrow> scheduler_env \<Rightarrow> enc_request \<Rightarrow> int \<Rightarrow> int \<Rightarrow> int \<Rightarrow> int
    \<Rightarrow> 'm \<Rightarrow> ('m, nat list \<times> int \<times> int \<times> nat list) res" where
  "try_schedule_encoder_inputs ops env r computed num_new_tokens budget shift m =
     (if num_new_tokens = 0 \<or> er_mm_features r = [] then return ([], num_new_tokens, budget, []) m
      else rbind (encoder_loop ops env r computed shift [0..<length (er_mm_features r)]
                    \<lparr>ep_inputs = [], ep_num_new_tokens = num_new_tokens, ep_budget = budget, ep_external = [],
                     ep_hashes = [], ep_embeds = 0\<rparr> m)
             (\<lambda>p. return (ep_inputs p, ep_num_new_tokens p, ep_budget p, ep_external p)))"

text \<open>Scheduling a request allocates the inputs found, first the ones to compute, then the ones to load.\<close>

definition schedule_encoder_inputs :: "'m encoder_ops \<Rightarrow> enc_request \<Rightarrow> nat list \<Rightarrow> nat list \<Rightarrow> 'm \<Rightarrow> ('m, unit) res" where
  "schedule_encoder_inputs ops r inputs external m =
     rbind (for_each (eo_allocate ops r) inputs m) (\<lambda>_ m. for_each (eo_allocate ops r) external m)"

definition free_encoder_inputs :: "'m encoder_ops \<Rightarrow> scheduler_env \<Rightarrow> (nat list \<Rightarrow> nat list) \<Rightarrow> int \<Rightarrow> enc_request \<Rightarrow> 'm
    \<Rightarrow> ('m, unit) res" where
  "free_encoder_inputs ops env iter num_computed_tokens r m =
     for_each (\<lambda>i m.
         let pos = mi_position (er_mm_features r ! i)
         in if se_is_encoder_decoder env \<and> num_computed_tokens > 0 then eo_free_input ops r i m
            else if pr_offset pos + pr_length pos \<le> num_computed_tokens then eo_free_input ops r i m
            else return () m)
       (iter (eo_cached_ids ops r m)) m"

end
