(* ===== verification/Encoder_Space.thy ===== *)
theory Encoder_Space
  imports Encoder_Cache
begin

text \<open>
  Correctness of the encoder cache. The size of an encoder output is fixed by its identifier
  (a content hash): \<open>sz\<close>. The invariant says that free slots and the sizes of the cached
  entries add up to the cache size, and that exactly the entries no request refers to are
  reclaimable. The locale \<open>encoder_space\<close> is what the scheduling loop needs of a manager:
  a positive answer of \<open>can_allocate\<close> reserves room for the whole plan; both managers of
  \<open>encoder_cache_manager.py\<close> interpret it.
\<close>

section \<open>Invariant\<close>

definition req_ok :: "(string \<Rightarrow> int) \<Rightarrow> enc_request \<Rightarrow> bool" where
  "req_ok sz r \<longleftrightarrow> (\<forall>f\<in>set (er_mm_features r). get_num_embeds (mi_position f) = Inr (sz (mi_identifier f)))"

abbreviation weight :: "(string \<Rightarrow> int) \<Rightarrow> (string, 'v) dict \<Rightarrow> int" where
  "weight sz d \<equiv> sum sz (fst ` set d)"

definition enc_ok :: "(string \<Rightarrow> int) \<Rightarrow> encoder_cache \<Rightarrow> bool" where
  "enc_ok sz m \<longleftrightarrow>
     dict_wf (ec_cached m) \<and> dict_wf (ec_freeable m) \<and>
     (\<forall>h n. map_of (ec_freeable m) h = Some n \<longleftrightarrow> map_of (ec_cached m) h = Some [] \<and> n = sz h) \<and>
     ec_num_free_slots m + weight sz (ec_cached m) = ec_cache_size m \<and>
     ec_num_freeable_slots m = ec_num_free_slots m + weight sz (ec_freeable m) \<and>
     0 \<le> ec_num_free_slots m"

lemma enc_okD:
  assumes "enc_ok sz m"
  shows "dict_wf (ec_cached m)" "dict_wf (ec_freeable m)"
    "map_of (ec_freeable m) h = Some n \<longleftrightarrow> map_of (ec_cached m) h = Some [] \<and> n = sz h"
    "ec_num_free_slots m + weight sz (ec_cached m) = ec_cache_size m"
    "ec_num_freeable_slots m = ec_num_free_slots m + weight sz (ec_freeable m)"
    "0 \<le> ec_num_free_slots m"
  using assms unfolding enc_ok_def by blast+

lemma enc_okI:
  assumes "dict_wf (ec_cached m)" "dict_wf (ec_freeable m)"
    "\<And>h n. map_of (ec_freeable m) h = Some n \<longleftrightarrow> map_of (ec_cached m) h = Some [] \<and> n = sz h"
    "ec_num_free_slots m + weight sz (ec_cached m) = ec_cache_size m"
    "ec_num_freeable_slots m = ec_num_free_slots m + weight sz (ec_freeable m)"
    "0 \<le> ec_num_free_slots m"
  shows "enc_ok sz m"
  using assms unfolding enc_ok_def by blast

lemma weight_delete: "map_of d h \<noteq> None \<Longrightarrow> weight sz (AList.delete h d) = weight sz d - sz h"
  by (simp add: map_of_keys sum_diff1)

lemma weight_update: "weight sz (AList.update h v d) = (if map_of d h = None then weight sz d + sz h else weight sz d)"
proof (cases "map_of d h = None")
  case True
  then have "h \<notin> fst ` set d" by (simp add: map_of_eq_None_iff)
  with True show ?thesis by simp
next
  case False
  then have "h \<in> fst ` set d" by (simp add: map_of_keys)
  with False show ?thesis by (auto simp: insert_absorb)
qed

lemma lift_err_Inr [simp]: "lift_err (Inr a) s = return a s"
  by (simp add: lift_err_def)

lemma identifier_in: "i < length (er_mm_features r) \<Longrightarrow> identifier_of r i = Inr (mi_identifier (er_mm_features r ! i))"
  by (simp add: identifier_of_def)

lemma num_embeds_in:
  "req_ok sz r \<Longrightarrow> i < length (er_mm_features r) \<Longrightarrow>
     get_num_encoder_embeds r i = Inr (sz (mi_identifier (er_mm_features r ! i)))"
  "req_ok sz r \<Longrightarrow> i < length (er_mm_features r) \<Longrightarrow>
     get_num_embeds (mi_position (er_mm_features r ! i)) = Inr (sz (mi_identifier (er_mm_features r ! i)))"
  by (simp_all add: req_ok_def get_num_encoder_embeds_def)

lemma rbind_return [simp]: "rbind (return a s) f = f a s"
  by (simp add: return_def)

section \<open>The operations\<close>

abbreviation ident :: "enc_request \<Rightarrow> nat \<Rightarrow> string" where
  "ident r i \<equiv> mi_identifier (er_mm_features r ! i)"

definition entries :: "encoder_cache \<Rightarrow> string set" where
  "entries m = fst ` set (ec_cached m)"

lemma entries_iff: "h \<in> entries m \<longleftrightarrow> map_of (ec_cached m) h \<noteq> None"
  by (simp add: entries_def map_of_keys)

lemma init_ok: "0 \<le> n \<Longrightarrow> enc_ok sz (encoder_cache_init n)"
  by (rule enc_okI) (simp_all add: encoder_cache_init_def)

lemma check_ok:
  assumes ok: "enc_ok sz m" and i: "i < length (er_mm_features r)"
  shows "runs_to (check_and_update_cache r i m) (\<lambda>hit m'. enc_ok sz m' \<and> hit = (ident r i \<in> entries m) \<and>
    entries m' = entries m \<and> ec_num_free_slots m' = ec_num_free_slots m \<and> ec_cache_size m' = ec_cache_size m)"
proof (cases "map_of (ec_cached m) (ident r i)")
  case None
  then show ?thesis using ok by (simp add: check_and_update_cache_def identifier_in [OF i] entries_iff)
next
  case (Some refs)
  let ?h = "ident r i"
  let ?upd = "AList.update ?h (set_add (er_request_id r) refs) (ec_cached m)"
  have hk: "?h \<in> fst ` set (ec_cached m)" using Some by (simp add: map_of_keys)
  have ne: "set_add (er_request_id r) refs \<noteq> []" by (metis empty_iff insert_not_empty list.set(1) set_set_add)
  show ?thesis
  proof (cases "refs = []")
    case True
    have fr: "map_of (ec_freeable m) ?h = Some (sz ?h)" using enc_okD(3) [OF ok] Some True by simp
    let ?m = "m\<lparr>ec_freeable := AList.delete ?h (ec_freeable m), ec_num_freeable_slots := ec_num_freeable_slots m - sz ?h,
                 ec_cached := ?upd\<rparr>"
    have run: "check_and_update_cache r i m = return True ?m"
      using Some True fr by (simp add: check_and_update_cache_def identifier_in [OF i] ec_add_ref_def)
    have "enc_ok sz ?m"
    proof (rule enc_okI)
      show "map_of (ec_freeable ?m) k = Some n \<longleftrightarrow> map_of (ec_cached ?m) k = Some [] \<and> n = sz k" for k n
        using enc_okD(3) [OF ok, of k n] ne by simp
      show "ec_num_freeable_slots ?m = ec_num_free_slots ?m + weight sz (ec_freeable ?m)"
        using enc_okD(5) [OF ok] weight_delete [of "ec_freeable m" ?h sz] fr by (simp del: dict_keys_delete)
      show "ec_num_free_slots ?m + weight sz (ec_cached ?m) = ec_cache_size ?m"
        using enc_okD(4) [OF ok] weight_update [of sz ?h _ "ec_cached m"] Some by (simp del: dict_keys_update)
    qed (use enc_okD [OF ok] in auto)
    then show ?thesis unfolding run using hk by (simp add: entries_def insert_absorb)
  next
    case False
    let ?m = "m\<lparr>ec_cached := ?upd\<rparr>"
    have run: "check_and_update_cache r i m = return True ?m"
      using Some False by (simp add: check_and_update_cache_def identifier_in [OF i] ec_add_ref_def)
    have "enc_ok sz ?m"
    proof (rule enc_okI)
      show "map_of (ec_freeable ?m) k = Some n \<longleftrightarrow> map_of (ec_cached ?m) k = Some [] \<and> n = sz k" for k n
        using enc_okD(3) [OF ok, of k n] ne Some False by auto
      show "ec_num_free_slots ?m + weight sz (ec_cached ?m) = ec_cache_size ?m"
        using enc_okD(4) [OF ok] weight_update [of sz ?h _ "ec_cached m"] Some by (simp del: dict_keys_update)
    qed (use enc_okD [OF ok] in auto)
    then show ?thesis unfolding run using hk by (simp add: entries_def insert_absorb)
  qed
qed

text \<open>
  Eviction of the first \<open>k\<close> reclaimable entries, oldest first: no shorter prefix would have made room for \<open>need\<close>, and the other entries keep their
  references. That the prefix does make room is stated beside it, as \<open>need \<le> ec_num_free_slots m'\<close>.
\<close>

definition evicted_by :: "(string \<Rightarrow> int) \<Rightarrow> int \<Rightarrow> encoder_cache \<Rightarrow> nat \<Rightarrow> encoder_cache \<Rightarrow> bool" where
  "evicted_by sz need m k m' \<longleftrightarrow>
     k \<le> length (ec_freeable m) \<and> ec_freeable m' = drop k (ec_freeable m) \<and>
     ec_freed m' = ec_freed m @ map fst (take k (ec_freeable m)) \<and>
     map_of (ec_cached m') = map_of (ec_cached m) |` (- set (map fst (take k (ec_freeable m)))) \<and>
     ec_num_free_slots m' = ec_num_free_slots m + (\<Sum>h\<leftarrow>map fst (take k (ec_freeable m)). sz h) \<and>
     (\<forall>j<k. ec_num_free_slots m + (\<Sum>h\<leftarrow>map fst (take j (ec_freeable m)). sz h) < need) \<and>
     ec_cache_size m' = ec_cache_size m \<and> ec_num_freeable_slots m' = ec_num_freeable_slots m"

lemma evicted_by_0: "evicted_by sz need m 0 m"
  by (simp add: evicted_by_def restrict_map_def)

lemma evict_one_ok:
  assumes ok: "enc_ok sz m" and f: "ec_freeable m = (h, n) # rest" and sz: "\<forall>k. 0 \<le> sz k"
  defines "m1 \<equiv> m\<lparr>ec_freeable := rest, ec_cached := AList.delete h (ec_cached m), ec_freed := ec_freed m @ [h],
                  ec_num_free_slots := ec_num_free_slots m + n\<rparr>"
  shows "n = sz h" "map_of (ec_cached m) h = Some []" "enc_ok sz m1"
proof -
  have hn: "map_of (ec_freeable m) h = Some n" using f by simp
  then show n: "n = sz h" and c: "map_of (ec_cached m) h = Some []" using enc_okD(3) [OF ok] by auto
  have w: "dict_wf rest" "h \<notin> fst ` set rest" using enc_okD(2) [OF ok] f by auto
  show "enc_ok sz m1"
  proof (rule enc_okI)
    show "map_of (ec_freeable m1) k = Some l \<longleftrightarrow> map_of (ec_cached m1) k = Some [] \<and> l = sz k" for k l
    proof (cases "k = h")
      case True
      have "map_of rest h = None" using w(2) by (simp add: map_of_eq_None_iff)
      with True show ?thesis by (simp add: m1_def)
    next
      case False
      then show ?thesis using enc_okD(3) [OF ok, of k l] by (simp add: m1_def f)
    qed
    show "ec_num_free_slots m1 + weight sz (ec_cached m1) = ec_cache_size m1"
      using enc_okD(4) [OF ok] weight_delete [of "ec_cached m" h sz] c n by (simp add: m1_def del: dict_keys_delete)
    show "ec_num_freeable_slots m1 = ec_num_free_slots m1 + weight sz (ec_freeable m1)"
      using enc_okD(5) [OF ok] w(2) n by (simp add: m1_def f)
  qed (use enc_okD [OF ok] w n sz in \<open>auto simp: m1_def add_nonneg_nonneg\<close>)
qed

lemma evict_until_ok:
  assumes "enc_ok sz m" "ec_freeable m = fr" "need \<le> ec_num_freeable_slots m" and sz: "\<forall>k. 0 \<le> sz k"
  shows "runs_to (evict_until fr need m) (\<lambda>_ m'. enc_ok sz m' \<and> need \<le> ec_num_free_slots m' \<and> (\<exists>k. evicted_by sz need m k m'))"
  using assms(1-3)
proof (induction fr arbitrary: m)
  case Nil
  then have "need \<le> ec_num_free_slots m" using enc_okD(5) [OF Nil(1)] by simp
  then show ?case using Nil(1) evicted_by_0 by auto
next
  case (Cons x rest)
  obtain h n where x: "x = (h, n)" by fastforce
  show ?case
  proof (cases "need > ec_num_free_slots m")
    case False
    then show ?thesis using Cons.prems(1) evicted_by_0 by (auto simp: x)
  next
    case True
    define m1 where "m1 = m\<lparr>ec_freeable := rest, ec_cached := AList.delete h (ec_cached m), ec_freed := ec_freed m @ [h],
                  ec_num_free_slots := ec_num_free_slots m + n\<rparr>"
    note one = evict_one_ok [OF Cons.prems(1) Cons.prems(2) [unfolded x] sz, folded m1_def]
    have run: "evict_until (x # rest) need m = evict_until rest need m1"
      using True one(2) by (simp add: x m1_def)
    have pre: "ec_freeable m1 = rest" "need \<le> ec_num_freeable_slots m1" using Cons.prems(3) by (simp_all add: m1_def)
    show ?thesis
      unfolding run
    proof (rule runs_to_mono [OF Cons.IH [OF one(3) pre]])
      fix u m' assume "enc_ok sz m' \<and> need \<le> ec_num_free_slots m' \<and> (\<exists>k. evicted_by sz need m1 k m')"
      then obtain k where m': "enc_ok sz m'" "need \<le> ec_num_free_slots m'" "evicted_by sz need m1 k m'" by blast
      have "evicted_by sz need m (Suc k) m'"
        unfolding evicted_by_def
      proof (intro conjI)
        have f: "ec_freeable m = (h, n) # rest" using Cons.prems(2) x by simp
        show "map_of (ec_cached m') = map_of (ec_cached m) |` (- set (map fst (take (Suc k) (ec_freeable m))))"
          using m'(3) f by (auto simp: evicted_by_def m1_def restrict_map_def fun_eq_iff)
        show "\<forall>j<Suc k. ec_num_free_slots m + (\<Sum>h\<leftarrow>map fst (take j (ec_freeable m)). sz h) < need"
        proof (intro allI impI)
          fix j assume "j < Suc k"
          then show "ec_num_free_slots m + (\<Sum>h\<leftarrow>map fst (take j (ec_freeable m)). sz h) < need"
            using m'(3) f True one(1) by (cases j) (auto simp: evicted_by_def m1_def)
        qed
      qed (use m'(3) Cons.prems(2) x one(1) in \<open>auto simp: evicted_by_def m1_def\<close>)
      with m' show "enc_ok sz m' \<and> need \<le> ec_num_free_slots m' \<and> (\<exists>k. evicted_by sz need m k m')" by blast
    qed
  qed
qed

lemma can_allocate_ok:
  assumes ok: "enc_ok sz m" and r: "req_ok sz r" and i: "i < length (er_mm_features r)" and sz: "\<forall>k. 0 \<le> sz k"
  defines "n \<equiv> sz (ident r i)"
  shows "runs_to (can_allocate r i budget planned m) (\<lambda>fits m'. enc_ok sz m' \<and>
    (fits \<longleftrightarrow> n \<le> budget \<and> n + planned \<le> ec_num_freeable_slots m) \<and>
    (fits \<longrightarrow> n + planned \<le> ec_num_free_slots m') \<and> (\<not> fits \<longrightarrow> m' = m) \<and>
    (\<exists>k. evicted_by sz (n + planned) m k m'))"
proof -
  have le: "ec_num_free_slots m \<le> ec_num_freeable_slots m"
    using enc_okD(5) [OF ok] sz by (simp add: sum_nonneg)
  show ?thesis
  proof (cases "n \<le> budget \<and> \<not> n + planned \<le> ec_num_free_slots m \<and> n + planned \<le> ec_num_freeable_slots m")
    case True
    then have "can_allocate r i budget planned m = rbind (evict_until (ec_freeable m) (n + planned) m) (\<lambda>_. return True)"
      using num_embeds_in(1) [OF r i] by (simp add: can_allocate_def n_def)
    moreover have "runs_to (evict_until (ec_freeable m) (n + planned) m) (\<lambda>_ m'. enc_ok sz m' \<and>
        n + planned \<le> ec_num_free_slots m' \<and> (\<exists>k. evicted_by sz (n + planned) m k m'))"
      using True by (intro evict_until_ok [OF ok refl _ sz]) simp
    ultimately show ?thesis using True by (auto simp: post_rbind elim!: runs_to_mono)
  next
    case False
    then have "can_allocate r i budget planned m = return (n \<le> budget \<and> n + planned \<le> ec_num_freeable_slots m) m"
      using num_embeds_in(1) [OF r i] le by (auto simp: can_allocate_def n_def)
    then show ?thesis using False ok le evicted_by_0 by auto
  qed
qed

lemma allocate_ok:
  assumes ok: "enc_ok sz m" and r: "req_ok sz r" and i: "i < length (er_mm_features r)" and sz: "\<forall>k. 0 \<le> sz k"
    and new: "ident r i \<notin> entries m" and room: "sz (ident r i) \<le> ec_num_free_slots m"
  shows "runs_to (ec_allocate r i m) (\<lambda>_ m'. enc_ok sz m' \<and> entries m' = insert (ident r i) (entries m) \<and>
    ec_num_free_slots m' = ec_num_free_slots m - sz (ident r i) \<and> ec_cache_size m' = ec_cache_size m)"
proof -
  let ?h = "ident r i"
  have n: "map_of (ec_cached m) ?h = None" using new by (simp add: entries_iff)
  have nf: "map_of (ec_freeable m) ?h = None"
    using enc_okD(3) [OF ok, of ?h] n by (cases "map_of (ec_freeable m) ?h") auto
  have le: "sz ?h \<le> ec_num_freeable_slots m" using enc_okD(5) [OF ok] sz room by (simp add: sum_nonneg add_increasing2)
  let ?m = "m\<lparr>ec_cached := AList.update ?h [er_request_id r] (AList.update ?h [] (ec_cached m)),
              ec_num_free_slots := ec_num_free_slots m - sz ?h, ec_num_freeable_slots := ec_num_freeable_slots m - sz ?h\<rparr>"
  have run: "ec_allocate r i m = return () ?m"
    using n room le num_embeds_in(1) [OF r i]
    by (simp add: ec_allocate_def identifier_in [OF i] ec_add_ref_def assert_that_def set_add_def)
  have "enc_ok sz ?m"
  proof (rule enc_okI)
    show "map_of (ec_freeable ?m) k = Some l \<longleftrightarrow> map_of (ec_cached ?m) k = Some [] \<and> l = sz k" for k l
      using enc_okD(3) [OF ok, of k l] nf by auto
    show "ec_num_free_slots ?m + weight sz (ec_cached ?m) = ec_cache_size ?m"
      using enc_okD(4) [OF ok] weight_update [of sz ?h "[]" "ec_cached m"] n by (simp add: insert_absorb)
  qed (use enc_okD [OF ok] room in auto)
  then show ?thesis unfolding run by (simp add: entries_def)
qed

lemma free_input_ok:
  assumes ok: "enc_ok sz m" and r: "req_ok sz r" and i: "i < length (er_mm_features r)"
  shows "runs_to (free_encoder_input r i m) (\<lambda>_ m'. enc_ok sz m' \<and> entries m' = entries m \<and>
    ec_num_free_slots m' = ec_num_free_slots m \<and> ec_cache_size m' = ec_cache_size m)"
proof (cases "map_of (ec_cached m) (ident r i)")
  case None
  then show ?thesis using ok by (simp add: free_encoder_input_def identifier_in [OF i])
next
  case (Some refs)
  let ?h = "ident r i" and ?refs = "removeAll (er_request_id r) refs"
  have hk: "?h \<in> fst ` set (ec_cached m)" using Some by (simp add: map_of_keys)
  have keys: "fst ` set (AList.update ?h ?refs (ec_cached m)) = fst ` set (ec_cached m)" using hk by (simp add: insert_absorb)
  consider "refs = []" | "refs \<noteq> []" "?refs = []" | "refs \<noteq> []" "?refs \<noteq> []" by blast
  then show ?thesis
  proof cases
    case 1
    then show ?thesis using ok Some by (simp add: free_encoder_input_def identifier_in [OF i])
  next
    case 2
    have nf: "map_of (ec_freeable m) ?h = None"
      using enc_okD(3) [OF ok, of ?h] Some 2(1) by (cases "map_of (ec_freeable m) ?h") auto
    let ?m = "m\<lparr>ec_cached := AList.update ?h [] (ec_cached m), ec_freeable := AList.update ?h (sz ?h) (ec_freeable m),
                 ec_num_freeable_slots := ec_num_freeable_slots m + sz ?h\<rparr>"
    have run: "free_encoder_input r i m = return () ?m"
      using Some 2 num_embeds_in(1) [OF r i] by (simp add: free_encoder_input_def identifier_in [OF i] Let_def)
    have "enc_ok sz ?m"
    proof (rule enc_okI)
      show "map_of (ec_freeable ?m) k = Some l \<longleftrightarrow> map_of (ec_cached ?m) k = Some [] \<and> l = sz k" for k l
        using enc_okD(3) [OF ok, of k l] by auto
      show "ec_num_freeable_slots ?m = ec_num_free_slots ?m + weight sz (ec_freeable ?m)"
        using enc_okD(5) [OF ok] weight_update [of sz ?h "sz ?h" "ec_freeable m"] nf by (simp del: dict_keys_update)
      show "ec_num_free_slots ?m + weight sz (ec_cached ?m) = ec_cache_size ?m"
        using enc_okD(4) [OF ok] keys 2 by simp
    qed (use enc_okD [OF ok] in auto)
    then show ?thesis unfolding run using keys 2 by (simp add: entries_def)
  next
    case 3
    let ?m = "m\<lparr>ec_cached := AList.update ?h ?refs (ec_cached m)\<rparr>"
    have run: "free_encoder_input r i m = return () ?m"
      using Some 3 by (simp add: free_encoder_input_def identifier_in [OF i] Let_def)
    have "enc_ok sz ?m"
    proof (rule enc_okI)
      show "map_of (ec_freeable ?m) k = Some l \<longleftrightarrow> map_of (ec_cached ?m) k = Some [] \<and> l = sz k" for k l
        using enc_okD(3) [OF ok, of k l] Some 3 by auto
      show "ec_num_free_slots ?m + weight sz (ec_cached ?m) = ec_cache_size ?m"
        using enc_okD(4) [OF ok] keys by simp
    qed (use enc_okD [OF ok] in auto)
    then show ?thesis unfolding run using keys by (simp add: entries_def)
  qed
qed

lemma reset_ok:
  assumes ok: "enc_ok sz m" and sz: "\<forall>k. 0 \<le> sz k"
  shows "runs_to (ec_reset m) (\<lambda>_ m'. enc_ok sz m' \<and> ec_cache_size m' = ec_cache_size m)"
proof -
  have "0 \<le> weight sz (ec_cached m)" using sz by (simp add: sum_nonneg)
  then have "0 \<le> ec_cache_size m" using enc_okD(4,6) [OF ok] by linarith
  then show ?thesis by (simp add: ec_reset_def) (rule enc_okI, simp_all)
qed

text \<open>The entries that some request references; they cannot be evicted.\<close>

definition pinned :: "encoder_cache \<Rightarrow> string set" where
  "pinned m = {h. \<exists>refs. map_of (ec_cached m) h = Some refs \<and> refs \<noteq> []}"

lemma pinned_entries: "pinned m \<subseteq> entries m"
  by (auto simp: pinned_def entries_iff)

lemma check_pins:
  assumes ok: "enc_ok sz m" and i: "i < length (er_mm_features r)"
  shows "runs_to (check_and_update_cache r i m) (\<lambda>hit m'. pinned m \<subseteq> pinned m' \<and> (hit \<longrightarrow> ident r i \<in> pinned m'))"
proof (cases "map_of (ec_cached m) (ident r i)")
  case None
  then show ?thesis by (simp add: check_and_update_cache_def identifier_in [OF i])
next
  case (Some refs)
  have ne: "set_add (er_request_id r) refs \<noteq> []" by (metis empty_iff insert_not_empty list.set(1) set_set_add)
  have "refs = [] \<Longrightarrow> map_of (ec_freeable m) (ident r i) = Some (sz (ident r i))" using enc_okD(3) [OF ok] Some by simp
  then show ?thesis using Some ne
    by (auto simp: check_and_update_cache_def identifier_in [OF i] ec_add_ref_def pinned_def)
qed

lemma evicted_pins:
  assumes ok: "enc_ok sz m" and ev: "evicted_by sz need m k m'"
  shows "pinned m' = pinned m" "entries m' \<subseteq> entries m" "(\<forall>h. 0 \<le> sz h) \<Longrightarrow> ec_num_free_slots m \<le> ec_num_free_slots m'"
proof -
  have gone: "map_of (ec_cached m) h = Some []" if "h \<in> set (map fst (take k (ec_freeable m)))" for h
  proof -
    have "h \<in> fst ` set (ec_freeable m)" using that set_take_subset [of k "ec_freeable m"] by fastforce
    then obtain n where "map_of (ec_freeable m) h = Some n" by (auto simp: map_of_keys)
    then show ?thesis using enc_okD(3) [OF ok] by blast
  qed
  have c: "map_of (ec_cached m') = map_of (ec_cached m) |` (- set (map fst (take k (ec_freeable m))))"
    using ev by (simp add: evicted_by_def)
  have "h \<in> pinned m' \<longleftrightarrow> h \<in> pinned m" for h
    using gone [of h] by (cases "h \<in> set (map fst (take k (ec_freeable m)))") (simp_all add: pinned_def c)
  then show "pinned m' = pinned m" by blast
  show "entries m' \<subseteq> entries m" by (auto simp: entries_iff c restrict_map_def split: if_splits)
  show "ec_num_free_slots m \<le> ec_num_free_slots m'" if "\<forall>h. 0 \<le> sz h"
    using ev that by (auto simp: evicted_by_def intro!: sum_list_nonneg)
qed

section \<open>Reservation by the scheduling loop\<close>

locale encoder_space =
  fixes ops :: "'m encoder_ops" and sz :: "string \<Rightarrow> int" and ok :: "'m \<Rightarrow> bool" and room :: "'m \<Rightarrow> int"
    and has :: "'m \<Rightarrow> string set" and pins :: "'m \<Rightarrow> string set"
  assumes sz_nonneg: "0 \<le> sz h"
    and room_nonneg: "ok m \<Longrightarrow> 0 \<le> room m"
    and check_law: "\<lbrakk>ok m; req_ok sz r; i < length (er_mm_features r)\<rbrakk> \<Longrightarrow> runs_to (eo_check ops r i m)
      (\<lambda>hit m'. ok m' \<and> room m' = room m \<and> has m' = has m \<and> pins m \<subseteq> pins m' \<and>
        (if hit then ident r i \<in> pins m' else ident r i \<notin> has m'))"
    and can_law: "\<lbrakk>ok m; req_ok sz r; i < length (er_mm_features r)\<rbrakk> \<Longrightarrow> runs_to (eo_can_allocate ops r i budget planned m)
      (\<lambda>fits m'. ok m' \<and> room m \<le> room m' \<and> has m' \<subseteq> has m \<and> pins m \<subseteq> pins m' \<and>
        (fits \<longrightarrow> sz (ident r i) \<le> budget \<and> sz (ident r i) + planned \<le> room m'))"
    and alloc_law: "\<lbrakk>ok m; req_ok sz r; i < length (er_mm_features r); ident r i \<notin> has m; sz (ident r i) \<le> room m\<rbrakk> \<Longrightarrow>
      runs_to (eo_allocate ops r i m)
      (\<lambda>_ m'. ok m' \<and> room m' = room m - sz (ident r i) \<and> has m' \<subseteq> insert (ident r i) (has m))"

text \<open>The plan under construction: its inputs are new, and there is room for all of them.\<close>

abbreviation plan_items :: "encoder_plan \<Rightarrow> nat list" where
  "plan_items p \<equiv> ep_inputs p @ ep_external p"

definition reserved :: "(string \<Rightarrow> int) \<Rightarrow> scheduler_env \<Rightarrow> enc_request \<Rightarrow> int \<Rightarrow> string set \<Rightarrow> int \<Rightarrow> encoder_plan \<Rightarrow> bool" where
  "reserved sz env r budget H room p \<longleftrightarrow>
     (\<forall>i\<in>set (plan_items p). i < length (er_mm_features r) \<and> ident r i \<notin> H) \<and>
     ep_embeds p = (\<Sum>i\<leftarrow>plan_items p. sz (ident r i)) \<and> ep_embeds p \<le> room \<and>
     (\<not> se_is_encoder_decoder env \<longrightarrow> distinct (map (ident r) (plan_items p)) \<and>
        set (ep_hashes p) = ident r ` set (plan_items p)) \<and>
     ep_budget p = budget - (\<Sum>i\<leftarrow>ep_inputs p. sz (ident r i)) \<and> 0 \<le> ep_budget p"

text \<open>No position of the range carries an embedding.\<close>

definition no_embeds :: "placeholder_range \<Rightarrow> int \<Rightarrow> int \<Rightarrow> bool" where
  "no_embeds pos s e \<longleftrightarrow>
     (case pr_is_embed pos of None \<Rightarrow> e \<le> s | Some bits \<Rightarrow> \<forall>j. s \<le> int j \<longrightarrow> int j < e \<longrightarrow> j < length bits \<longrightarrow> \<not> bits ! j)"

text \<open>The encoder output of input \<open>i\<close> is there for the tokens \<open>[computed, computed + n)\<close>.\<close>

definition available :: "enc_request \<Rightarrow> int \<Rightarrow> int \<Rightarrow> string set \<Rightarrow> nat \<Rightarrow> bool" where
  "available r computed n A i \<longleftrightarrow>
     (let pos = mi_position (er_mm_features r ! i)
      in pr_offset pos < computed + n \<longrightarrow> computed < pr_offset pos + pr_length pos \<longrightarrow>
         ident r i \<in> A \<or>
         no_embeds pos (max 0 (computed - pr_offset pos)) (min (pr_length pos) (computed + n - pr_offset pos)))"

definition masks_ok :: "enc_request \<Rightarrow> bool" where
  "masks_ok r \<longleftrightarrow> (\<forall>f\<in>set (er_mm_features r). 0 < pr_length (mi_position f) \<and>
     (case pr_is_embed (mi_position f) of None \<Rightarrow> True | Some bits \<Rightarrow> int (length bits) = pr_length (mi_position f)))"

definition in_order :: "enc_request \<Rightarrow> bool" where
  "in_order r \<longleftrightarrow> sorted (map (\<lambda>f. pr_offset (mi_position f)) (er_mm_features r))"

lemma cumsum_nth: "j < length bs \<Longrightarrow> embeds_cumsum n bs ! j = n + int (length (filter id (take (Suc j) bs)))"
  by (induction bs arbitrary: n j) (auto simp: Let_def nth_Cons split: nat.split)

lemma cumsum_length [simp]: "length (embeds_cumsum n bs) = length bs"
  by (induction bs arbitrary: n) (simp_all add: Let_def)

lemma available_mono:
  assumes "available r computed n A i" "n' \<le> n" "A \<subseteq> A'"
  shows "available r computed n' A' i"
  using assms by (fastforce simp: available_def no_embeds_def Let_def split: option.splits)

lemma available_none: "n \<le> 0 \<Longrightarrow> available r computed n A i"
  by (auto simp: available_def no_embeds_def Let_def split: option.splits)

lemma available_later:
  assumes "in_order r" "k \<le> i" "i < length (er_mm_features r)"
    and "computed + n \<le> pr_offset (mi_position (er_mm_features r ! k))"
  shows "available r computed n A i"
proof -
  have "pr_offset (mi_position (er_mm_features r ! k)) \<le> pr_offset (mi_position (er_mm_features r ! i))"
    using assms(1-3) sorted_nth_mono [of "map (\<lambda>f. pr_offset (mi_position f)) (er_mm_features r)" k i]
    by (simp add: in_order_def)
  with assms(4) show ?thesis by (auto simp: available_def Let_def)
qed

text \<open>The range computation of the loop never raises, and finds no embedding only where there is none.\<close>

lemma embeds_in_range_ok:
  fixes computed n shift :: int
  assumes ms: "masks_ok r" and i: "i < length (er_mm_features r)"
  defines "pos \<equiv> mi_position (er_mm_features r ! i)"
  assumes st: "pr_offset pos < computed + n + shift" "computed < pr_offset pos + pr_length pos" "0 \<le> n" "shift \<le> 1"
  shows "\<exists>s e. get_embeds_indices_in_range pos (max 0 (computed - pr_offset pos))
      (min (pr_length pos) (computed + n - pr_offset pos)) = Inr (s, e) \<and> (e - s = 0 \<longrightarrow> available r computed n A i)"
proof -
  define s where "s = max 0 (computed - pr_offset pos)"
  define e where "e = min (pr_length pos) (computed + n - pr_offset pos)"
  have pos: "0 < pr_length pos" and len: "\<And>bits. pr_is_embed pos = Some bits \<Longrightarrow> int (length bits) = pr_length pos"
    using ms i by (auto simp: masks_ok_def pos_def split: option.splits)
  have se: "0 \<le> s" "s < pr_length pos" "0 \<le> e" "e \<le> pr_length pos" "s \<le> e"
    using st pos by (auto simp: s_def e_def)
  have goal: "available r computed n A i" if "0 < e \<Longrightarrow> no_embeds pos s e"
    using that pos by (auto simp: available_def Let_def pos_def [symmetric] s_def [symmetric] e_def [symmetric])
      (simp add: e_def)
  show ?thesis
    unfolding s_def [symmetric] e_def [symmetric]
  proof (cases "pr_is_embed pos")
    case None
    then show "\<exists>s' e'. get_embeds_indices_in_range pos s e = Inr (s', e') \<and> (e' - s' = 0 \<longrightarrow> available r computed n A i)"
      using goal by (auto simp: get_embeds_indices_in_range_def no_embeds_def)
  next
    case (Some bits)
    have l: "int (length bits) = pr_length pos" by (rule len [OF Some])
    let ?c = "\<lambda>j. int (length (filter id (take (nat j) bits)))"
    have cs: "tensor_at (embeds_cumsum 0 bits) (j - 1) = Inr (?c j)" if "0 < j" "j \<le> int (length bits)" for j
    proof -
      have "nat (j - 1) < length bits" "Suc (nat (j - 1)) = nat j" using that by auto
      with that cumsum_nth [of "nat (j - 1)" bits 0] show ?thesis by (simp add: tensor_at_def)
    qed
    have start: "(if s > 0 then tensor_at (embeds_cumsum 0 bits) (s - 1) else Inr 0) = Inr (?c s)"
      using cs [of s] se l by (cases "s > 0") auto
    obtain e' where e': "tensor_at (embeds_cumsum 0 bits) (e - 1) = Inr e'" "0 < e \<Longrightarrow> e' = ?c e"
    proof (cases "0 < e")
      case True
      then show ?thesis using cs [of e] se l that [of "?c e"] by simp
    next
      case False
      then have "e = 0" using se by simp
      then have "\<exists>x. tensor_at (embeds_cumsum 0 bits) (e - 1) = Inr x" using l pos by (simp add: tensor_at_def)
      with that \<open>e = 0\<close> show ?thesis by auto
    qed
    have run: "get_embeds_indices_in_range pos s e = Inr (?c s, e')"
      using Some start e'(1) by (simp add: get_embeds_indices_in_range_def)
    have "no_embeds pos s e" if "e' - ?c s = 0" "0 < e"
    proof -
      have "nat e = nat s + (nat e - nat s)" using se by simp
      then have "take (nat e) bits = take (nat s) bits @ take (nat e - nat s) (drop (nat s) bits)"
        by (metis take_add)
      then have "?c e = ?c s + int (length (filter id (take (nat e - nat s) (drop (nat s) bits))))" by simp
      then have "filter id (take (nat e - nat s) (drop (nat s) bits)) = []" using that e'(2) by simp
      then have none: "\<forall>b\<in>set (take (nat e - nat s) (drop (nat s) bits)). \<not> b" by (simp add: filter_empty_conv)
      have "\<not> bits ! j" if "s \<le> int j" "int j < e" "j < length bits" for j
      proof -
        have "take (nat e - nat s) (drop (nat s) bits) ! (j - nat s) = bits ! j" using that se by (simp add: nth_drop)
        moreover have "j - nat s < length (take (nat e - nat s) (drop (nat s) bits))" using that se by auto
        ultimately show ?thesis using none by (metis nth_mem)
      qed
      then show ?thesis by (simp add: no_embeds_def Some)
    qed
    then show "\<exists>s' e'. get_embeds_indices_in_range pos s e = Inr (s', e') \<and> (e' - s' = 0 \<longrightarrow> available r computed n A i)"
      using run goal by auto
  qed
qed

lemma reserved_mono: "reserved sz env r b H R p \<Longrightarrow> H' \<subseteq> H \<Longrightarrow> R \<le> R' \<Longrightarrow> reserved sz env r b H' R' p"
  by (auto simp: reserved_def)

lemma reserved_tokens [simp]: "reserved sz env r b H R (p\<lparr>ep_num_new_tokens := n\<rparr>) = reserved sz env r b H R p"
  by (simp add: reserved_def)

lemma reserved_extend:
  assumes "reserved sz env r b H R p" "i < length (er_mm_features r)" "ident r i \<notin> H"
    "ep_embeds p + sz (ident r i) \<le> R" "se_is_encoder_decoder env \<or> ident r i \<notin> set (ep_hashes p)"
  shows "reserved sz env r b H R (p\<lparr>ep_hashes := set_add (ident r i) (ep_hashes p), ep_external := ep_external p @ [i],
      ep_embeds := ep_embeds p + sz (ident r i)\<rparr>)"
    "sz (ident r i) \<le> ep_budget p \<Longrightarrow> reserved sz env r b H R (p\<lparr>ep_embeds := ep_embeds p + sz (ident r i),
      ep_budget := ep_budget p - sz (ident r i), ep_hashes := set_add (ident r i) (ep_hashes p), ep_inputs := ep_inputs p @ [i]\<rparr>)"
  using assms by (auto simp: reserved_def)

context encoder_space
begin

text \<open>What the loop has established when it reaches input \<open>k\<close>.\<close>

definition loop_inv :: "scheduler_env \<Rightarrow> enc_request \<Rightarrow> int \<Rightarrow> int \<Rightarrow> nat \<Rightarrow> encoder_plan \<Rightarrow> 'm \<Rightarrow> bool" where
  "loop_inv env r computed budget k p m \<longleftrightarrow>
     ok m \<and> reserved sz env r budget (has m) (room m) p \<and> 0 \<le> ep_num_new_tokens p \<and>
     (\<not> (se_is_encoder_decoder env \<and> computed > 0) \<longrightarrow>
        (\<forall>i<k. available r computed (ep_num_new_tokens p) (pins m \<union> ident r ` set (plan_items p)) i))"

lemma loop_inv_next:
  assumes inv: "loop_inv env r computed budget k p m"
    and m': "ok m'" "has m' \<subseteq> has m" "room m \<le> room m'" "pins m \<subseteq> pins m'"
    and k: "\<not> (se_is_encoder_decoder env \<and> computed > 0) \<Longrightarrow>
        available r computed (ep_num_new_tokens p) (pins m' \<union> ident r ` set (plan_items p)) k"
  shows "loop_inv env r computed budget (Suc k) p m'"
proof -
  have "available r computed (ep_num_new_tokens p) (pins m' \<union> ident r ` set (plan_items p)) i"
    if "\<not> (se_is_encoder_decoder env \<and> computed > 0)" "i < Suc k" for i
  proof (cases "i = k")
    case False
    then have "available r computed (ep_num_new_tokens p) (pins m \<union> ident r ` set (plan_items p)) i"
      using inv that by (auto simp: loop_inv_def)
    then show ?thesis by (rule available_mono) (use m'(4) in auto)
  qed (use k that in simp)
  then show ?thesis using inv m' reserved_mono [of sz env r budget "has m" "room m" p "has m'" "room m'"]
    by (auto simp: loop_inv_def)
qed

lemma loop_inv_stop:
  assumes inv: "loop_inv env r computed budget k p m"
    and m': "ok m'" "has m' \<subseteq> has m" "room m \<le> room m'" "pins m \<subseteq> pins m'"
    and n: "0 \<le> n" "n \<le> ep_num_new_tokens p"
    and later: "\<And>i. k \<le> i \<Longrightarrow> i < N \<Longrightarrow>
      available r computed n (pins m' \<union> ident r ` set (plan_items p)) i"
  shows "loop_inv env r computed budget N (p\<lparr>ep_num_new_tokens := n\<rparr>) m'"
proof -
  have "available r computed n (pins m' \<union> ident r ` set (plan_items p)) i"
    if "\<not> (se_is_encoder_decoder env \<and> computed > 0)" "i < N" for i
  proof (cases "i < k")
    case True
    then have "available r computed (ep_num_new_tokens p) (pins m \<union> ident r ` set (plan_items p)) i"
      using inv that by (auto simp: loop_inv_def)
    then show ?thesis by (rule available_mono) (use m'(4) n in auto)
  qed (use later that in simp)
  then show ?thesis using inv m' n reserved_mono [of sz env r budget "has m" "room m" p "has m'" "room m'"]
    by (auto simp: loop_inv_def)
qed

lemma available_planned: "ident r i \<in> A \<Longrightarrow> available r computed n A i"
  by (simp add: available_def Let_def)

lemma encoder_loop_ok:
  assumes req: "req_ok sz r" "masks_ok r" "in_order r" and shift: "0 \<le> shift" "shift \<le> 1"
    and dec: "se_is_encoder_decoder env \<Longrightarrow> (\<forall>m. has m = {}) \<and>
      (computed > 0 \<longrightarrow> (\<forall>f\<in>set (er_mm_features r). pr_offset (mi_position f) = 0))"
    and "is = [k..<N]" "N = length (er_mm_features r)" "loop_inv env r computed budget k p m"
  shows "runs_to (encoder_loop ops env r computed shift is p m) (\<lambda>p' m'.
    loop_inv env r computed budget N p' m' \<and> ep_num_new_tokens p' \<le> ep_num_new_tokens p)"
  using assms(7-)
proof (induction "is" arbitrary: k p m)
  case Nil
  then have "N \<le> k" by (metis le0 upt_eq_Nil_conv)
  then show ?case using Nil(3) by (auto simp: loop_inv_def)
next
  case (Cons i "is")
  from Cons.prems(1) have i: "i = k" "is = [Suc k..<N]" "k < N"
    by (metis list.distinct(1) list.inject upt_rec)+
  note inv = Cons.prems(3)
  have kN: "k < length (er_mm_features r)" using i Cons.prems(2) by simp
  define pos where "pos = mi_position (er_mm_features r ! k)"
  define h where "h = ident r k"
  have ok: "ok m" and res: "reserved sz env r budget (has m) (room m) p" and nn: "0 \<le> ep_num_new_tokens p"
    using inv by (auto simp: loop_inv_def)
  have ne: "get_num_embeds pos = Inr (sz h)" using num_embeds_in(2) [OF req(1) kN] by (simp add: pos_def h_def)
  have rec: "runs_to (encoder_loop ops env r computed shift is p' m') (\<lambda>q m''.
      loop_inv env r computed budget N q m'' \<and> ep_num_new_tokens q \<le> ep_num_new_tokens p)"
    if "loop_inv env r computed budget (Suc k) p' m'" "ep_num_new_tokens p' = ep_num_new_tokens p" for p' m'
    using Cons.IH [OF i(2) Cons.prems(2) that(1)] that(2) by simp
  have stop: "loop_inv env r computed budget N (p\<lparr>ep_num_new_tokens := n\<rparr>) m'"
    if "ok m'" "has m' \<subseteq> has m" "room m \<le> room m'" "pins m \<subseteq> pins m'" "0 \<le> n" "n \<le> ep_num_new_tokens p"
      "n \<le> 0 \<or> computed + n \<le> pr_offset pos" for m' n
    by (rule loop_inv_stop [OF inv that(1-6)])
      (use that(7) available_none available_later [OF req(3)] Cons.prems(2) in \<open>auto simp: pos_def\<close>)
  let ?rec = "\<lambda>p m. encoder_loop ops env r computed shift is p m"
  let ?Q = "\<lambda>q m''. loop_inv env r computed budget N q m'' \<and> ep_num_new_tokens q \<le> ep_num_new_tokens p"
  note body = encoder_loop.simps(2) Let_def i(1) pos_def [symmetric] h_def [symmetric] ne lift_err_Inr rbind_return
  consider (out) "pr_offset pos \<ge> computed + ep_num_new_tokens p + shift"
    | (dec) "\<not> pr_offset pos \<ge> computed + ep_num_new_tokens p + shift" "se_is_encoder_decoder env \<and> computed > 0"
    | (past) "\<not> pr_offset pos \<ge> computed + ep_num_new_tokens p + shift" "\<not> (se_is_encoder_decoder env \<and> computed > 0)"
        "pr_offset pos + pr_length pos \<le> computed"
    | (dup) "\<not> pr_offset pos \<ge> computed + ep_num_new_tokens p + shift" "\<not> (se_is_encoder_decoder env \<and> computed > 0)"
        "\<not> pr_offset pos + pr_length pos \<le> computed" "\<not> se_is_encoder_decoder env \<and> h \<in> set (ep_hashes p)"
    | (need) "\<not> pr_offset pos \<ge> computed + ep_num_new_tokens p + shift" "\<not> (se_is_encoder_decoder env \<and> computed > 0)"
        "\<not> pr_offset pos + pr_length pos \<le> computed" "\<not> (\<not> se_is_encoder_decoder env \<and> h \<in> set (ep_hashes p))"
    by blast
  then show ?case
  proof cases
    case out
    have "runs_to (return p m) ?Q"
      using stop [OF ok subset_refl order_refl subset_refl nn order_refl] out shift(1) by simp
    then show ?thesis unfolding body using out by simp
  next
    case dec
    have "pr_offset pos = 0" using assms(6) dec kN by (auto simp: pos_def)
    moreover have "runs_to (?rec p m) ?Q"
      by (rule rec [OF loop_inv_next [OF inv ok subset_refl order_refl subset_refl] refl]) (use dec in simp)
    ultimately show ?thesis unfolding body using dec by (simp add: post_rbind post_assert)
  next
    case past
    have "runs_to (?rec p m) ?Q"
      by (rule rec [OF loop_inv_next [OF inv ok subset_refl order_refl subset_refl] refl])
        (use past in \<open>simp add: available_def Let_def pos_def\<close>)
    then show ?thesis unfolding body if_not_P [OF past(1)] if_not_P [OF past(2)] if_P [OF past(3)] .
  next
    case dup
    have "h \<in> ident r ` set (plan_items p)" using res dup by (simp add: reserved_def)
    then have "runs_to (?rec p m) ?Q"
      by (intro rec [OF loop_inv_next [OF inv ok subset_refl order_refl subset_refl] refl] available_planned)
        (simp add: h_def)
    then show ?thesis unfolding body using dup by simp
  next
    case need
    have first: "runs_to (if \<not> se_is_encoder_decoder env then eo_check ops r k m else return False m)
      (\<lambda>hit m1. ok m1 \<and> room m1 = room m \<and> has m1 = has m \<and> pins m \<subseteq> pins m1 \<and>
        (if hit then h \<in> pins m1 else h \<notin> has m1))"
    proof (cases "se_is_encoder_decoder env")
      case True
      then show ?thesis using assms(6) ok by simp
    next
      case False
      show ?thesis unfolding if_P [OF False] h_def by (rule check_law [OF ok req(1) kN])
    qed
    show ?thesis
      unfolding body if_not_P [OF need(1)] if_not_P [OF need(2)] if_not_P [OF need(3)] if_not_P [OF need(4)] post_rbind
    proof (rule runs_to_mono [OF first], goal_cases)
      case (1 hit m1)
      then have m1: "ok m1" "room m \<le> room m1" "has m1 \<subseteq> has m" "pins m \<subseteq> pins m1" and hit: "if hit then h \<in> pins m1 else h \<notin> has m1"
        by auto
      show ?case
      proof (cases hit)
        case True
        with hit have "runs_to (?rec p m1) ?Q"
          by (intro rec [OF loop_inv_next [OF inv m1(1,3,2,4)] refl] available_planned) (simp add: h_def)
        then show ?thesis using True by simp
      next
        case False
        with hit have new: "h \<notin> has m1" by simp
        show ?thesis
        proof (cases "se_disable_chunked_mm_input env \<and> computed < pr_offset pos \<and>
            computed + ep_num_new_tokens p < pr_offset pos + pr_length pos")
          case True
          have "loop_inv env r computed budget N (p\<lparr>ep_num_new_tokens := max 0 (pr_offset pos - (computed + shift))\<rparr>) m1"
            by (rule stop [OF m1(1,3,2,4)]) (use need(1) True nn shift in auto)
          then show ?thesis
            unfolding if_not_P [OF False] if_P [OF True] post_return using need(1) nn by auto
        next
          case whole: False
          note can = can_law [OF m1(1) req(1) kN, of "ep_budget p" "ep_embeds p"]
          show ?thesis
            unfolding if_not_P [OF False] if_not_P [OF whole] post_rbind
          proof (rule runs_to_mono [OF can], goal_cases)
            case (1 fits m2)
            then have m2: "ok m2" "room m \<le> room m2" "has m2 \<subseteq> has m" "pins m \<subseteq> pins m2" "has m2 \<subseteq> has m1"
              and fits: "fits \<Longrightarrow> sz h \<le> ep_budget p \<and> ep_embeds p + sz h \<le> room m2"
              using m1 by (auto simp: h_def)
            show ?case
            proof (cases fits)
              case no: False
              define n where "n = (if computed + shift < pr_offset pos then pr_offset pos - (computed + shift) else 0)"
              have "loop_inv env r computed budget N (p\<lparr>ep_num_new_tokens := n\<rparr>) m2" "n \<le> ep_num_new_tokens p"
                by (rule stop [OF m2(1,3,2,4)]) (use need(1) nn shift in \<open>auto simp: n_def\<close>)
              then show ?thesis unfolding n_def [symmetric] using no by simp
            next
              case yes: True
              obtain s e where se: "get_embeds_indices_in_range pos (max 0 (computed - pr_offset pos))
                  (min (pr_length pos) (computed + ep_num_new_tokens p - pr_offset pos)) = Inr (s, e)"
                and none: "e - s = 0 \<Longrightarrow> available r computed (ep_num_new_tokens p) (pins m2 \<union> ident r ` set (plan_items p)) k"
                using embeds_in_range_ok [OF req(2) kN, folded pos_def, of computed "ep_num_new_tokens p" shift
                    "pins m2 \<union> ident r ` set (plan_items p)"] need(1,3) nn shift(2) by auto
              have inv2: "reserved sz env r budget (has m2) (room m2) p" using reserved_mono [OF res m2(3,2)] .
              have hn: "h \<notin> has m2" "se_is_encoder_decoder env \<or> h \<notin> set (ep_hashes p)" using new m2(5) need(4) by auto
              note ext = reserved_extend [OF inv2 kN, folded h_def, OF hn(1) _ hn(2)]
              have room: "ep_embeds p + sz h \<le> room m2" and bud: "sz h \<le> ep_budget p" using fits yes by auto
              have grow: "loop_inv env r computed budget (Suc k) q m2"
                if "reserved sz env r budget (has m2) (room m2) q" "ep_num_new_tokens q = ep_num_new_tokens p"
                  "set (plan_items q) = insert k (set (plan_items p))" for q
              proof -
                have "available r computed (ep_num_new_tokens q) (pins m2 \<union> ident r ` set (plan_items q)) j"
                  if "\<not> (se_is_encoder_decoder env \<and> computed > 0)" "j < Suc k" for j
                proof (cases "j = k")
                  case True
                  then show ?thesis using \<open>set (plan_items q) = insert k (set (plan_items p))\<close> by (intro available_planned) simp
                next
                  case False
                  then have "available r computed (ep_num_new_tokens p) (pins m \<union> ident r ` set (plan_items p)) j"
                    using inv that by (auto simp: loop_inv_def)
                  then show ?thesis
                    by (rule available_mono) (use \<open>set (plan_items q) = insert k (set (plan_items p))\<close>
                        \<open>ep_num_new_tokens q = ep_num_new_tokens p\<close> m2(4) in auto)
                qed
                then show ?thesis using that(1,2) m2(1) nn by (auto simp: loop_inv_def)
              qed
              have skip: "runs_to (?rec p m2) ?Q" if "e - s = 0"
                by (rule rec [OF loop_inv_next [OF inv m2(1,3,2,4) none [OF that]] refl])
              have e1: "runs_to (?rec (p\<lparr>ep_hashes := set_add h (ep_hashes p), ep_external := ep_external p @ [k],
                  ep_embeds := ep_embeds p + sz h\<rparr>) m2) ?Q"
                by (rule rec [OF grow [OF ext(1) [OF room]]]) simp_all
              have e2: "runs_to (?rec (p\<lparr>ep_embeds := ep_embeds p + sz h, ep_budget := ep_budget p - sz h,
                  ep_hashes := set_add h (ep_hashes p), ep_inputs := ep_inputs p @ [k]\<rparr>) m2) ?Q"
                by (rule rec [OF grow [OF ext(2) [OF room bud]]]) simp_all
              show ?thesis using yes skip e1 e2 by (simp add: se)
            qed
          qed
        qed
      qed
    qed
  qed
qed

text \<open>What a finished plan promises, and that it can be carried out.\<close>

definition pledge :: "enc_request \<Rightarrow> nat list \<Rightarrow> 'm \<Rightarrow> bool" where
  "pledge r items m \<longleftrightarrow> (\<forall>i\<in>set items. i < length (er_mm_features r) \<and> ident r i \<notin> has m) \<and>
     (distinct (map (ident r) items) \<or> (\<forall>m. has m = {})) \<and> (\<Sum>i\<leftarrow>items. sz (ident r i)) \<le> room m"

lemma alloc_list:
  assumes "ok m" "req_ok sz r" "pledge r items m"
  shows "runs_to (for_each (eo_allocate ops r) items m) (\<lambda>_ m'. ok m' \<and> room m' = room m - (\<Sum>i\<leftarrow>items. sz (ident r i)))"
  using assms
proof (induction items arbitrary: m)
  case (Cons i items)
  have i: "i < length (er_mm_features r)" "ident r i \<notin> has m" using Cons.prems(3) by (auto simp: pledge_def)
  have nn: "0 \<le> (\<Sum>i\<leftarrow>items. sz (ident r i))" by (rule sum_list_nonneg) (auto simp: sz_nonneg)
  then have fit: "sz (ident r i) \<le> room m" using Cons.prems(3) by (simp add: pledge_def)
  show ?case
    unfolding for_each.simps post_rbind
  proof (rule runs_to_mono [OF alloc_law [OF Cons.prems(1,2) i fit]], goal_cases)
    case (1 u m1)
    then have m1: "ok m1" "room m1 = room m - sz (ident r i)" "has m1 \<subseteq> insert (ident r i) (has m)" by auto
    have "ident r j \<notin> has m1" if "j \<in> set items" for j
    proof (cases "\<forall>m. has m = {}")
      case False
      then have "ident r i \<notin> ident r ` set items" "ident r j \<notin> has m" using Cons.prems(3) that by (auto simp: pledge_def)
      then have "ident r j \<noteq> ident r i" "ident r j \<notin> has m" using that by (metis imageI, blast)
      then show ?thesis using m1(3) by auto
    qed simp
    then have "pledge r items m1" using Cons.prems(3) m1(2) by (auto simp: pledge_def)
    from runs_to_mono [OF Cons.IH [OF m1(1) Cons.prems(2) this]] m1(2) show ?case by auto
  qed
qed simp

lemma schedule_ok:
  assumes "ok m" "req_ok sz r" "pledge r (inputs @ external) m"
  shows "runs_to (schedule_encoder_inputs ops r inputs external m)
    (\<lambda>_ m'. ok m' \<and> room m' = room m - (\<Sum>i\<leftarrow>inputs @ external. sz (ident r i)))"
  using alloc_list [OF assms] by (simp add: schedule_encoder_inputs_def for_each_append)

lemma try_schedule_ok:
  assumes req: "req_ok sz r" "masks_ok r" "in_order r" and shift: "0 \<le> shift" "shift \<le> 1"
    and dec: "se_is_encoder_decoder env \<Longrightarrow> (\<forall>m. has m = {}) \<and>
      (computed > 0 \<longrightarrow> (\<forall>f\<in>set (er_mm_features r). pr_offset (mi_position f) = 0))"
    and m: "ok m" "0 \<le> new" "0 \<le> budget"
  shows "runs_to (try_schedule_encoder_inputs ops env r computed new budget shift m) (\<lambda>(inputs, n, b, external) m'.
    ok m' \<and> pledge r (inputs @ external) m' \<and> 0 \<le> n \<and> n \<le> new \<and> 0 \<le> b \<and>
    b = budget - (\<Sum>i\<leftarrow>inputs. sz (ident r i)) \<and>
    (\<not> (se_is_encoder_decoder env \<and> computed > 0) \<longrightarrow> (\<forall>i<length (er_mm_features r).
      available r computed n (pins m' \<union> ident r ` set (inputs @ external)) i)))"
proof (cases "new = 0 \<or> er_mm_features r = []")
  case True
  then show ?thesis using m room_nonneg [OF m(1)]
    by (auto simp: try_schedule_encoder_inputs_def pledge_def intro: available_none)
next
  case False
  let ?p = "\<lparr>ep_inputs = [], ep_num_new_tokens = new, ep_budget = budget, ep_external = [], ep_hashes = [], ep_embeds = 0\<rparr>"
  have "loop_inv env r computed budget 0 ?p m"
    using m room_nonneg [OF m(1)] by (simp add: loop_inv_def reserved_def)
  note loop = encoder_loop_ok [OF req shift dec refl refl this]
  have pl: "pledge r (plan_items p) m'" if "loop_inv env r computed budget N p m'" for p m' N
    using that dec by (auto simp: loop_inv_def reserved_def pledge_def)
  show ?thesis
    unfolding try_schedule_encoder_inputs_def if_not_P [OF False] post_rbind
    by (rule runs_to_mono [OF loop]) (use pl in \<open>auto simp: loop_inv_def reserved_def\<close>)
qed

end

section \<open>Both managers\<close>

interpretation cache: encoder_space cache_ops "\<lambda>h. int (w h)" "\<lambda>m. enc_ok (\<lambda>h. int (w h)) m \<and> ec_cache_size m = cap"
    ec_num_free_slots entries pinned
  for w :: "string \<Rightarrow> nat" and cap :: int
proof
  fix m r i budget planned
  let ?sz = "\<lambda>h. int (w h)"
  assume ok': "enc_ok ?sz m \<and> ec_cache_size m = cap"
  then have ok: "enc_ok ?sz m" by blast
  have sz: "\<forall>h. 0 \<le> ?sz h" by simp
  show "0 \<le> ec_num_free_slots m" by (rule enc_okD(6) [OF ok])
  assume r: "req_ok ?sz r" and i: "i < length (er_mm_features r)"
  have "runs_to (check_and_update_cache r i m) (\<lambda>hit m'. (enc_ok ?sz m' \<and> hit = (ident r i \<in> entries m) \<and>
    entries m' = entries m \<and> ec_num_free_slots m' = ec_num_free_slots m \<and> ec_cache_size m' = ec_cache_size m) \<and>
    (pinned m \<subseteq> pinned m' \<and> (hit \<longrightarrow> ident r i \<in> pinned m')))"
    using check_ok [OF ok i] check_pins [OF ok i] by (auto simp: post_def split: sum.splits)
  then have "runs_to (check_and_update_cache r i m) (\<lambda>hit m'. (enc_ok ?sz m' \<and> ec_cache_size m' = cap) \<and> ec_num_free_slots m' = ec_num_free_slots m \<and>
      entries m' = entries m \<and> pinned m \<subseteq> pinned m' \<and> (if hit then ident r i \<in> pinned m' else ident r i \<notin> entries m'))"
    using ok' by (auto elim!: runs_to_mono)
  then show "runs_to (eo_check cache_ops r i m) (\<lambda>hit m'. (enc_ok ?sz m' \<and> ec_cache_size m' = cap) \<and> ec_num_free_slots m' = ec_num_free_slots m \<and>
      entries m' = entries m \<and> pinned m \<subseteq> pinned m' \<and> (if hit then ident r i \<in> pinned m' else ident r i \<notin> entries m'))"
    by (simp add: cache_ops_def)
  show "runs_to (eo_can_allocate cache_ops r i budget planned m) (\<lambda>fits m'. (enc_ok ?sz m' \<and> ec_cache_size m' = cap) \<and>
      ec_num_free_slots m \<le> ec_num_free_slots m' \<and> entries m' \<subseteq> entries m \<and> pinned m \<subseteq> pinned m' \<and>
      (fits \<longrightarrow> ?sz (ident r i) \<le> budget \<and> ?sz (ident r i) + planned \<le> ec_num_free_slots m'))"
  proof (simp add: cache_ops_def, rule runs_to_mono [OF can_allocate_ok [OF ok r i sz, of budget planned]], goal_cases)
    case (1 fits m')
    then obtain k where ev: "evicted_by ?sz (?sz (ident r i) + planned) m k m'" by blast
    then have "ec_cache_size m' = cap" using ok' by (simp add: evicted_by_def)
    with evicted_pins [OF ok ev] 1 show ?case by auto
  qed
  show "runs_to (eo_allocate cache_ops r i m) (\<lambda>_ m'. (enc_ok ?sz m' \<and> ec_cache_size m' = cap) \<and> ec_num_free_slots m' = ec_num_free_slots m - ?sz (ident r i) \<and>
      entries m' \<subseteq> insert (ident r i) (entries m))"
    if "ident r i \<notin> entries m" "?sz (ident r i) \<le> ec_num_free_slots m"
    using allocate_ok [OF ok r i sz that] ok' by (auto simp: cache_ops_def elim!: runs_to_mono)
qed simp

interpretation encdec: encoder_space encdec_ops "\<lambda>h. int (w h)" "\<lambda>m. 0 \<le> ed_num_free_slots m" ed_num_free_slots "\<lambda>_. {}" "\<lambda>_. {}"
  for w :: "string \<Rightarrow> nat"
  by unfold_locales
    (auto simp: encdec_ops_def ed_check_and_update_cache_def ed_can_allocate_def ed_allocate_def num_embeds_in identifier_in Let_def)

end
