(* ===== verification/Encoder_Serving.thy ===== *)
theory Encoder_Serving
  imports Encoder_Space
begin

text \<open>
  The encoder cache under the scheduler: planning the encoder inputs of a request, the
  preemptions that may come between plan and allocation, allocation, release, eviction and
  reset, in any order. The properties: the cache is never over-committed and no allocation of
  a plan raises; every encoder output that the scheduled tokens need is cached, pinned or in
  the plan; eviction takes the oldest unreferenced entries and no more than needed; an item
  within the configured budget fits whenever nothing is referenced.
\<close>

section \<open>The scheduler's calls\<close>

definition good_request :: "(string \<Rightarrow> nat) \<Rightarrow> enc_request \<Rightarrow> bool" where
  "good_request w r \<longleftrightarrow> req_ok (\<lambda>h. int (w h)) r \<and> masks_ok r \<and> in_order r"

definition set_order :: "(nat list \<Rightarrow> nat list) \<Rightarrow> bool" where
  "set_order iter \<longleftrightarrow> (\<forall>xs. set (iter xs) = set xs)"

text \<open>Preemption of some request: \<open>free\<close>.\<close>

definition preempt :: "(string \<Rightarrow> nat) \<Rightarrow> (nat list \<Rightarrow> nat list) \<Rightarrow> encoder_cache \<Rightarrow> encoder_cache \<Rightarrow> bool" where
  "preempt w iter m m' \<longleftrightarrow> (\<exists>r. good_request w r \<and> ec_free iter r m = Inr ((), m'))"

inductive encoder_step :: "(string \<Rightarrow> nat) \<Rightarrow> (nat list \<Rightarrow> nat list) \<Rightarrow> scheduler_env \<Rightarrow> encoder_cache \<Rightarrow> encoder_cache \<Rightarrow> bool"
  for w iter env where
  planned: "good_request w r \<Longrightarrow> 0 \<le> new \<Longrightarrow> 0 \<le> budget \<Longrightarrow> shift \<in> {0, 1} \<Longrightarrow>
    try_schedule_encoder_inputs cache_ops env r computed new budget shift m = Inr (plan, m') \<Longrightarrow>
    encoder_step w iter env m m'"
| scheduled: "good_request w r \<Longrightarrow> 0 \<le> new \<Longrightarrow> 0 \<le> budget \<Longrightarrow> shift \<in> {0, 1} \<Longrightarrow>
    try_schedule_encoder_inputs cache_ops env r computed new budget shift m = Inr ((inputs, n, b, external), m1) \<Longrightarrow>
    (preempt w iter)\<^sup>*\<^sup>* m1 m2 \<Longrightarrow>
    schedule_encoder_inputs cache_ops r inputs external m2 = Inr ((), m') \<Longrightarrow>
    encoder_step w iter env m m'"
| released: "preempt w iter m m' \<Longrightarrow> encoder_step w iter env m m'"
| advanced: "good_request w r \<Longrightarrow> free_encoder_inputs cache_ops env iter computed r m = Inr ((), m') \<Longrightarrow>
    encoder_step w iter env m m'"
| collected: "get_freed_mm_hashes m = Inr (hs, m') \<Longrightarrow> encoder_step w iter env m m'"
| was_reset: "ec_reset m = Inr ((), m') \<Longrightarrow> encoder_step w iter env m m'"

section \<open>Invariant\<close>

abbreviation ec_ok :: "(string \<Rightarrow> nat) \<Rightarrow> int \<Rightarrow> encoder_cache \<Rightarrow> bool" where
  "ec_ok w cap m \<equiv> enc_ok (\<lambda>h. int (w h)) m \<and> ec_cache_size m = cap"

lemma free_list_ok:
  assumes "ec_ok w cap m" "good_request w r" "\<forall>i\<in>set is. i < length (er_mm_features r)"
  shows "runs_to (for_each (\<lambda>i m. if c i then free_encoder_input r i m else return () m) is m)
    (\<lambda>_ m'. ec_ok w cap m' \<and> entries m' = entries m \<and> ec_num_free_slots m' = ec_num_free_slots m)"
  using assms
proof (induction "is" arbitrary: m)
  case (Cons i "is")
  have one: "runs_to (if c i then free_encoder_input r i m else return () m)
      (\<lambda>_ m'. ec_ok w cap m' \<and> entries m' = entries m \<and> ec_num_free_slots m' = ec_num_free_slots m)"
    using free_input_ok [of "\<lambda>h. int (w h)" m r i] Cons.prems by (auto simp: good_request_def elim!: runs_to_mono)
  show ?case
    unfolding for_each.simps post_rbind
    by (rule runs_to_mono [OF one], rule runs_to_mono [OF Cons.IH]) (use Cons.prems in auto)
qed simp

lemma cached_ids_in: "i \<in> set (get_cached_input_ids r m) \<Longrightarrow> i < length (er_mm_features r)"
  by (simp add: get_cached_input_ids_def)

lemma preempt_ok:
  assumes "ec_ok w cap m" "set_order iter" "preempt w iter m m'"
  shows "ec_ok w cap m' \<and> entries m' = entries m \<and> ec_num_free_slots m' = ec_num_free_slots m"
proof -
  obtain r where r: "good_request w r" and run: "ec_free iter r m = Inr ((), m')" using assms(3) by (auto simp: preempt_def)
  have "\<forall>i\<in>set (iter (get_cached_input_ids r m)). i < length (er_mm_features r)"
    using assms(2) cached_ids_in by (simp add: set_order_def)
  from postD [OF free_list_ok [OF assms(1) r this, of "\<lambda>_. True"], of "()" m'] run
  show ?thesis by (simp add: ec_free_def)
qed

lemma preempts_ok:
  assumes "(preempt w iter)\<^sup>*\<^sup>* m m'" "ec_ok w cap m" "set_order iter"
  shows "ec_ok w cap m' \<and> entries m' = entries m \<and> ec_num_free_slots m' = ec_num_free_slots m"
  using assms
proof (induction rule: rtranclp_induct)
  case (step m1 m2)
  then show ?case using preempt_ok [of w m1 cap iter m2] by auto
qed simp

lemma plan_ok:
  assumes "ec_ok w cap m" "good_request w r" "0 \<le> new" "0 \<le> budget" "shift \<in> {0, 1}" "\<not> se_is_encoder_decoder env"
  shows "runs_to (try_schedule_encoder_inputs cache_ops env r computed new budget shift m) (\<lambda>(inputs, n, b, external) m'.
    ec_ok w cap m' \<and> cache.pledge w r (inputs @ external) m' \<and> 0 \<le> n \<and> n \<le> new \<and> 0 \<le> b \<and>
    b = budget - (\<Sum>i\<leftarrow>inputs. int (w (ident r i))) \<and>
    (\<forall>i<length (er_mm_features r). available r computed n (pinned m' \<union> ident r ` set (inputs @ external)) i))"
  using cache.try_schedule_ok [where w = w and r = r and shift = shift and env = env and computed = computed and m = m
      and cap = cap and new = new and budget = budget] assms
  by (auto simp: good_request_def elim!: runs_to_mono)

lemma pledge_kept:
  assumes "cache.pledge w r items m" "entries m' = entries m" "ec_num_free_slots m' = ec_num_free_slots m"
  shows "cache.pledge w r items m'"
  using assms by (simp add: cache.pledge_def)

lemma carried_out:
  assumes "ec_ok w cap m" "good_request w r" "0 \<le> new" "0 \<le> budget" "shift \<in> {0, 1}" "\<not> se_is_encoder_decoder env"
    and plan: "try_schedule_encoder_inputs cache_ops env r computed new budget shift m = Inr ((inputs, n, b, external), m1)"
    and pre: "(preempt w iter)\<^sup>*\<^sup>* m1 m2" "set_order iter"
  shows "runs_to (schedule_encoder_inputs cache_ops r inputs external m2) (\<lambda>_ m'. ec_ok w cap m')"
proof -
  from postD [OF plan_ok [OF assms(1-6)] plan]
  have m1: "ec_ok w cap m1" "cache.pledge w r (inputs @ external) m1" by auto
  from preempts_ok [OF pre(1) m1(1) pre(2)] have m2: "ec_ok w cap m2" "entries m2 = entries m1"
    "ec_num_free_slots m2 = ec_num_free_slots m1" by auto
  from cache.schedule_ok [OF m2(1) _ pledge_kept [OF m1(2) m2(2,3)]] assms(2) show ?thesis
    by (auto simp: good_request_def elim!: runs_to_mono)
qed

lemma encoder_step_ok:
  assumes "encoder_step w iter env m m'" "ec_ok w cap m" "set_order iter" "\<not> se_is_encoder_decoder env"
  shows "ec_ok w cap m'"
  using assms
proof (cases rule: encoder_step.cases)
  case (planned r new budget shift computed plan)
  from postD [OF plan_ok [OF assms(2) planned(1-4) assms(4)] planned(5)] show ?thesis by (auto split: prod.splits)
next
  case (scheduled r new budget shift computed inputs n b external m1 m2)
  from postD [OF carried_out [OF assms(2) scheduled(1-4) assms(4) scheduled(5,6) assms(3)] scheduled(7)] show ?thesis .
next
  case released
  then show ?thesis using preempt_ok [OF assms(2,3)] by blast
next
  case (advanced r computed)
  have ops: "eo_free_input cache_ops = free_encoder_input" "eo_cached_ids cache_ops = get_cached_input_ids"
    by (simp_all add: cache_ops_def)
  have "\<forall>i\<in>set (iter (get_cached_input_ids r m)). i < length (er_mm_features r)"
    using assms(3) cached_ids_in by (simp add: set_order_def)
  from postD [OF free_list_ok [OF assms(2) advanced(1) this,
        of "\<lambda>i. pr_offset (mi_position (er_mm_features r ! i)) + pr_length (mi_position (er_mm_features r ! i)) \<le> computed"]]
    advanced(2) assms(4) show ?thesis by (simp add: free_encoder_inputs_def ops Let_def cong del: if_weak_cong)
next
  case (collected hs)
  then show ?thesis using assms(2) by (auto simp: get_freed_mm_hashes_def return_def enc_ok_def)
next
  case was_reset
  then show ?thesis using postD [OF reset_ok, of "\<lambda>h. int (w h)" m "()" m'] assms(2) by simp
qed

lemma encoder_steps_ok:
  assumes "(encoder_step w iter env)\<^sup>*\<^sup>* (encoder_cache_init cap) m" "0 \<le> cap" "set_order iter" "\<not> se_is_encoder_decoder env"
  shows "ec_ok w cap m"
  using assms(1)
proof (induction rule: rtranclp_induct)
  case base
  then show ?case using init_ok [OF assms(2)] by (simp add: encoder_cache_init_def)
next
  case (step m1 m2)
  then show ?case using encoder_step_ok assms(3,4) by blast
qed

lemma encoder_eviction_room:
  assumes "enc_ok (\<lambda>h. int (w h)) m" "good_request w r" "i < length (er_mm_features r)"
  shows "runs_to (can_allocate r i budget planned m) (\<lambda>fits m'. enc_ok (\<lambda>h. int (w h)) m' \<and>
    (fits \<longleftrightarrow> int (w (ident r i)) \<le> budget \<and> int (w (ident r i)) + planned \<le> ec_num_freeable_slots m) \<and>
    (if fits then int (w (ident r i)) + planned \<le> ec_num_free_slots m' \<and>
       (\<exists>k. evicted_by (\<lambda>h. int (w h)) (int (w (ident r i)) + planned) m k m') else m' = m))"
  using can_allocate_ok [OF assms(1) _ assms(3), of budget planned] assms(2)
  by (auto simp: good_request_def elim!: runs_to_mono)

section \<open>A concrete request\<close>

definition demo_env :: scheduler_env where
  "demo_env = \<lparr>se_is_encoder_decoder = False, se_disable_chunked_mm_input = False, se_has_cache_item = None\<rparr>"

definition multimodal_demo_request :: "string \<Rightarrow> enc_request" where
  "multimodal_demo_request name = \<lparr>er_request_id = name, er_mm_features =
     [\<lparr>mi_identifier = ''img'', mi_position = \<lparr>pr_offset = 0, pr_length = 3, pr_is_embed = Some [True, False, True]\<rparr>\<rparr>]\<rparr>"

definition demo_weight :: "string \<Rightarrow> nat" where
  "demo_weight _ = 2"

definition demo_planned :: encoder_cache where
  "demo_planned = (case try_schedule_encoder_inputs cache_ops demo_env (multimodal_demo_request ''a'') 0 4 4 0 (encoder_cache_init 4) of
     Inr (_, m) \<Rightarrow> m | Inl (_, m) \<Rightarrow> m)"

lemma demo_plan:
  "try_schedule_encoder_inputs cache_ops demo_env (multimodal_demo_request ''a'') 0 4 4 0 (encoder_cache_init 4) =
     Inr (([0], 4, 2, []), demo_planned)"
  by code_simp

lemma demo_good: "good_request demo_weight (multimodal_demo_request name)" "set_order id" "\<not> se_is_encoder_decoder demo_env"
  by (simp_all add: good_request_def req_ok_def masks_ok_def in_order_def multimodal_demo_request_def demo_weight_def
      get_num_embeds_def tensor_at_def set_order_def demo_env_def)

section \<open>Properties\<close>

text \<open>C17. The encoder cache is never over-committed: in every state the scheduler reaches, the
  free slots and the sizes of the cached encoder outputs add up to the cache size, planning the
  encoder inputs of a request never raises, and the allocation of the plan passes the
  assertions of \<open>allocate\<close> even when requests are preempted in between.\<close>

theorem encoder_cache_not_overcommitted:
  assumes "(encoder_step w iter env)\<^sup>*\<^sup>* (encoder_cache_init cap) m" "0 \<le> cap" "set_order iter" "\<not> se_is_encoder_decoder env"
  shows "0 \<le> ec_num_free_slots m \<and> ec_num_free_slots m + (\<Sum>h\<in>entries m. int (w h)) = cap \<and>
    (good_request w r \<and> 0 \<le> new \<and> 0 \<le> budget \<and> shift \<in> {0, 1} \<longrightarrow>
      (\<exists>inputs n b external m1. try_schedule_encoder_inputs cache_ops env r computed new budget shift m =
          Inr ((inputs, n, b, external), m1) \<and>
        (\<forall>m2. (preempt w iter)\<^sup>*\<^sup>* m1 m2 \<longrightarrow> (\<exists>m3. schedule_encoder_inputs cache_ops r inputs external m2 = Inr ((), m3)))))"
proof (intro conjI impI)
  have ok: "ec_ok w cap m" by (rule encoder_steps_ok [OF assms])
  then show "0 \<le> ec_num_free_slots m" "ec_num_free_slots m + (\<Sum>h\<in>entries m. int (w h)) = cap"
    using enc_okD(4,6) [of "\<lambda>h. int (w h)" m] by (auto simp: entries_def)
  assume "good_request w r \<and> 0 \<le> new \<and> 0 \<le> budget \<and> shift \<in> {0, 1}"
  then have r: "good_request w r" "0 \<le> new" "0 \<le> budget" "shift \<in> {0, 1}" by blast+
  obtain inputs n b external m1 where
    plan: "try_schedule_encoder_inputs cache_ops env r computed new budget shift m = Inr ((inputs, n, b, external), m1)"
    using plan_ok [OF ok r assms(4), of computed] by (elim runs_toE) auto
  have "\<exists>m3. schedule_encoder_inputs cache_ops r inputs external m2 = Inr ((), m3)" if "(preempt w iter)\<^sup>*\<^sup>* m1 m2" for m2
    using carried_out [OF ok r assms(4) plan that assms(3)] by (elim runs_toE) auto
  with plan show "\<exists>inputs n b external m1. try_schedule_encoder_inputs cache_ops env r computed new budget shift m =
          Inr ((inputs, n, b, external), m1) \<and>
        (\<forall>m2. (preempt w iter)\<^sup>*\<^sup>* m1 m2 \<longrightarrow> (\<exists>m3. schedule_encoder_inputs cache_ops r inputs external m2 = Inr ((), m3)))"
    by blast
qed

theorem encoder_cache_not_overcommitted_witness:
  "0 \<le> ec_num_free_slots (encoder_cache_init 4) \<and>
   (\<exists>inputs n b external m1 m3.
      try_schedule_encoder_inputs cache_ops demo_env (multimodal_demo_request ''a'') 0 4 4 0 (encoder_cache_init 4) =
        Inr ((inputs, n, b, external), m1) \<and>
      schedule_encoder_inputs cache_ops (multimodal_demo_request ''a'') inputs external m1 = Inr ((), m3))"
proof -
  note claim = encoder_cache_not_overcommitted [OF rtranclp.rtrancl_refl _ demo_good(2,3),
      where w = demo_weight and cap = 4 and r = "multimodal_demo_request ''a''" and new = 4 and budget = 4 and shift = 0 and computed = 0]
  have "0 \<le> ec_num_free_slots (encoder_cache_init 4)" using claim by simp
  moreover obtain inputs n b external m1 where
    "try_schedule_encoder_inputs cache_ops demo_env (multimodal_demo_request ''a'') 0 4 4 0 (encoder_cache_init 4) =
       Inr ((inputs, n, b, external), m1)"
    "\<And>m2. (preempt demo_weight id)\<^sup>*\<^sup>* m1 m2 \<Longrightarrow>
       \<exists>m3. schedule_encoder_inputs cache_ops (multimodal_demo_request ''a'') inputs external m2 = Inr ((), m3)"
    using claim demo_good(1) [of "''a''"] by auto
  ultimately show ?thesis by blast
qed

text \<open>C18. \<open>_try_schedule_encoder_inputs\<close> cuts the scheduled tokens so that their encoder
  outputs are there: for each multi-modal input overlapping the tokens it lets through (not counting the
  token that an EAGLE draft reads ahead), the output is cached and referenced by some request, or in the plan,
  unless no embedding of the input falls on these tokens. It schedules no more tokens than asked and spends the compute
  budget exactly on the inputs to compute.\<close>

theorem encoder_outputs_available:
  assumes "(encoder_step w iter env)\<^sup>*\<^sup>* (encoder_cache_init cap) m" "0 \<le> cap" "set_order iter" "\<not> se_is_encoder_decoder env"
    and "good_request w r" "0 \<le> new" "0 \<le> budget" "shift \<in> {0, 1}"
    and "try_schedule_encoder_inputs cache_ops env r computed new budget shift m = Inr ((inputs, n, b, external), m')"
  shows "(\<forall>i<length (er_mm_features r). available r computed n (pinned m' \<union> ident r ` set (inputs @ external)) i) \<and>
    0 \<le> n \<and> n \<le> new \<and> 0 \<le> b \<and> b = budget - (\<Sum>i\<leftarrow>inputs. int (w (ident r i)))"
  using postD [OF plan_ok [OF encoder_steps_ok [OF assms(1-4)] assms(5-8,4)] assms(9)] by auto

theorem encoder_outputs_available_witness:
  "available (multimodal_demo_request ''a'') 0 4 (pinned demo_planned \<union> ident (multimodal_demo_request ''a'') ` set ([0] @ [])) 0"
proof -
  have "0 < length (er_mm_features (multimodal_demo_request ''a''))" by (simp add: multimodal_demo_request_def)
  with encoder_outputs_available [OF rtranclp.rtrancl_refl _ demo_good(2,3,1) _ _ _ demo_plan]
  show ?thesis by simp
qed

text \<open>C29. \<open>can_allocate\<close> answers exactly whether the item fits the compute budget and, with
  what is already planned, the free and reclaimable slots together. When it answers yes, the free
  slots afterwards hold the item and what is planned, and it has evicted the shortest prefix of the
  unreferenced entries, oldest first, that makes that room, reported them as freed, and left every other
  entry with its references; when it answers no, it has changed nothing.\<close>

theorem encoder_eviction_oldest_first:
  assumes "enc_ok (\<lambda>h. int (w h)) m" "good_request w r" "i < length (er_mm_features r)"
  shows "runs_to (can_allocate r i budget planned m) (\<lambda>fits m'. enc_ok (\<lambda>h. int (w h)) m' \<and>
    (fits \<longleftrightarrow> int (w (ident r i)) \<le> budget \<and> int (w (ident r i)) + planned \<le> ec_num_freeable_slots m) \<and>
    (if fits then int (w (ident r i)) + planned \<le> ec_num_free_slots m' \<and>
       (\<exists>k. evicted_by (\<lambda>h. int (w h)) (int (w (ident r i)) + planned) m k m') else m' = m))"
  by (rule encoder_eviction_room [OF assms])

theorem encoder_eviction_oldest_first_witness:
  "\<exists>fits m'. can_allocate (multimodal_demo_request ''a'') 0 4 0 (encoder_cache_init 4) = Inr (fits, m') \<and> fits"
proof -
  have ok: "enc_ok (\<lambda>h. int (demo_weight h)) (encoder_cache_init 4)" by (rule init_ok) simp
  have i: "0 < length (er_mm_features (multimodal_demo_request ''a''))" by (simp add: multimodal_demo_request_def)
  have "ec_num_freeable_slots (encoder_cache_init 4) = 4" by (simp add: encoder_cache_init_def)
  then have "runs_to (can_allocate (multimodal_demo_request ''a'') 0 4 0 (encoder_cache_init 4)) (\<lambda>fits m'. fits)"
    by (intro runs_to_mono [OF encoder_eviction_oldest_first [OF ok demo_good(1) i, of 4 0]]) (simp add: demo_weight_def)
  then show ?thesis by (auto elim!: runs_toE)
qed

text \<open>C30. The budgets of \<open>compute_mm_encoder_budget\<close> suffice: an item no larger than the
  largest item of its modality passes \<open>can_allocate\<close> in every state in which no cached entry
  is referenced, so no request can be locked out by its size.\<close>

theorem encoder_item_fits:
  assumes "compute_mm_encoder_budget nochunk batched max_tokens config_size items = Inr (compute_budget, cap)"
    "(modality, largest) \<in> set items" "0 \<le> largest"
    "(encoder_step w iter env)\<^sup>*\<^sup>* (encoder_cache_init cap) m" "set_order iter" "\<not> se_is_encoder_decoder env"
    "good_request w r" "i < length (er_mm_features r)" "int (w (ident r i)) \<le> largest" "pinned m = {}"
  shows "\<exists>m'. can_allocate r i compute_budget 0 m = Inr (True, m')"
proof -
  have "largest \<le> Max (set (map snd items))" using assms(2) by (intro Max_ge) force+
  then have big: "largest \<le> compute_budget" "largest \<le> cap"
    using assms(1,2) by (auto simp: compute_mm_encoder_budget_def Let_def split: if_splits)
  have "0 \<le> cap" using big assms(3) by linarith
  from encoder_steps_ok [OF assms(4) this assms(5,6)] have ok: "enc_ok (\<lambda>h. int (w h)) m" and cap: "ec_cache_size m = cap" by auto
  have "fst ` set (ec_freeable m) = fst ` set (ec_cached m)"
  proof -
    have "h \<in> fst ` set (ec_freeable m) \<longleftrightarrow> h \<in> fst ` set (ec_cached m)" for h
      using enc_okD(3) [OF ok, of h "int (w h)"] enc_okD(3) [OF ok, of h] assms(10) unfolding map_of_keys pinned_def by blast
    then show ?thesis by blast
  qed
  then have "ec_num_freeable_slots m = cap" using enc_okD(4,5) [OF ok] cap by simp
  with encoder_eviction_room [OF ok assms(7,8), of compute_budget 0] big assms(9) show ?thesis
    by (elim runs_toE) auto
qed

theorem encoder_item_fits_witness: "\<exists>m'. can_allocate (multimodal_demo_request ''a'') 0 4 0 (encoder_cache_init 4) = Inr (True, m')"
proof (rule encoder_item_fits)
  show "compute_mm_encoder_budget False 8 4 3 [(''image'', 2), (''video'', 4)] = Inr (4, 4)" by code_simp
  show "(''image'', 2) \<in> set [(''image'', 2), (''video'', 4 :: int)]" by simp
  show "(encoder_step demo_weight id demo_env)\<^sup>*\<^sup>* (encoder_cache_init 4) (encoder_cache_init 4)" by (rule rtranclp.rtrancl_refl)
  show "pinned (encoder_cache_init 4) = {}" by (simp add: pinned_def encoder_cache_init_def)
qed (use demo_good in \<open>simp_all add: multimodal_demo_request_def demo_weight_def\<close>)

section \<open>Gaps in the accounts\<close>

text \<open>
  A request whose encoder input was scheduled and allocated and that is preempted in the same step (the scheduler drops its
  inputs from the step under the priority policy) leaves the entry cached: the next check takes the output for computed, although no worker
  has run the encoder.
\<close>

lemma preempted_input_counts_as_cached:
  assumes ok: "enc_ok (\<lambda>h. int (w h)) m" and r: "good_request w r" and i: "i < length (er_mm_features r)" and iter: "set_order iter"
    and new: "ident r i \<notin> entries m" and room: "int (w (ident r i)) \<le> ec_num_free_slots m"
  shows "runs_to (rbind (ec_allocate r i m) (\<lambda>_. ec_free iter r)) (\<lambda>_ m'. runs_to (check_and_update_cache r i m') (\<lambda>hit _. hit))"
proof -
  have q: "req_ok (\<lambda>h. int (w h)) r" using r by (simp add: good_request_def)
  show ?thesis
    unfolding post_rbind
  proof (rule runs_to_mono [OF allocate_ok [OF ok q i _ new room]], goal_cases)
    case (2 u m1)
    then have m1: "ec_ok w (ec_cache_size m) m1" "ident r i \<in> entries m1" by auto
    have "\<forall>j \<in> set (iter (get_cached_input_ids r m1)). j < length (er_mm_features r)"
      using iter cached_ids_in by (auto simp: set_order_def)
    from free_list_ok [OF m1(1) r this, of "\<lambda>_. True"]
    have "runs_to (ec_free iter r m1) (\<lambda>_ m'. ec_ok w (ec_cache_size m) m' \<and> entries m' = entries m1)"
      by (auto simp: ec_free_def elim!: runs_to_mono)
    then show ?case
      by (rule runs_to_mono) (use m1(2) in \<open>auto intro!: runs_to_mono [OF check_ok [OF _ i]]\<close>)
  qed simp
qed

lemma ed_free_list:
  assumes "req_ok (\<lambda>h. int (w h)) r" "\<forall>i \<in> set is. i < length (er_mm_features r)"
  shows "for_each (ed_free_encoder_input r) is m =
     Inr ((), m\<lparr>ed_num_free_slots := ed_num_free_slots m + (\<Sum>i\<leftarrow>is. int (w (ident r i)))\<rparr>)"
  using assms(2)
proof (induction "is" arbitrary: m)
  case (Cons i "is")
  have "ed_free_encoder_input r i m = return () (m\<lparr>ed_num_free_slots := ed_num_free_slots m + int (w (ident r i))\<rparr>)"
    using num_embeds_in(1) [OF assms(1), of i] Cons.prems by (simp add: ed_free_encoder_input_def)
  with Cons show ?case by (simp add: algebra_simps)
qed (simp add: return_def)

text \<open>C35. The encoder-decoder cache manager gives slots back that nobody took: each time the scheduler frees the inputs of a
  request that has computed a token, the sizes of all its inputs are added to the free slots, whether or not they were
  allocated or freed before. After \<open>n\<close> such steps of one request the free slots have grown by \<open>n\<close> times their total, past the size of
  the cache.\<close>

theorem encdec_free_slots_grow:
  assumes "good_request w r" "set_order iter" "distinct (iter [0..<length (er_mm_features r)])" "se_is_encoder_decoder env"
    "\<forall>t \<in> set ts. 0 < t"
  shows "runs_to (for_each (\<lambda>t. free_encoder_inputs encdec_ops env iter t r) ts m) (\<lambda>_ m'.
     ed_num_free_slots m' = ed_num_free_slots m + int (length ts) * (\<Sum>i<length (er_mm_features r). int (w (ident r i))) \<and>
     ed_cache_size m' = ed_cache_size m)"
  using assms(5)
proof (induction ts arbitrary: m)
  case (Cons t ts)
  let ?is = "iter [0..<length (er_mm_features r)]" and ?T = "\<Sum>i<length (er_mm_features r). int (w (ident r i))"
  have it: "distinct ?is" "set ?is = {..<length (er_mm_features r)}" using assms(2,3) by (auto simp: set_order_def)
  then have s: "(\<Sum>i\<leftarrow>?is. int (w (ident r i))) = ?T" by (metis sum_list_distinct_conv_sum_set)
  have r: "req_ok (\<lambda>h. int (w h)) r" using assms(1) by (simp add: good_request_def)
  have "free_encoder_inputs encdec_ops env iter t r m = for_each (ed_free_encoder_input r) ?is m"
    using assms(4) Cons.prems by (simp add: free_encoder_inputs_def encdec_ops_def ed_get_cached_input_ids_def)
  then have run: "free_encoder_inputs encdec_ops env iter t r m = Inr ((), m\<lparr>ed_num_free_slots := ed_num_free_slots m + ?T\<rparr>)"
    using ed_free_list [OF r, of ?is m] it(2) s by simp
  show ?case
    unfolding for_each.simps run rbind_simps
    by (rule runs_to_mono [OF Cons.IH]) (use Cons.prems in \<open>simp_all add: algebra_simps\<close>)
qed (simp add: return_def)

theorem encdec_free_slots_grow_witness:
  "runs_to (for_each (\<lambda>t. free_encoder_inputs encdec_ops (demo_env\<lparr>se_is_encoder_decoder := True\<rparr>) id t (multimodal_demo_request ''a'')) [1, 2, 3]
      (encdec_cache_init 4)) (\<lambda>_ m'. ed_num_free_slots m' = 10 \<and> ed_cache_size m' = 4)"
  using encdec_free_slots_grow [OF demo_good(1,2), of "''a''" "demo_env\<lparr>se_is_encoder_decoder := True\<rparr>" "[1, 2, 3]" "encdec_cache_init 4"]
  by (simp add: multimodal_demo_request_def demo_weight_def encdec_cache_init_def)

end
