(* ===== verification/Spec2Isabelle.thy ===== *)
theory Spec2Isabelle
  imports KV_Serving Offload_Serving Encoder_Serving
begin

text \<open>
  Verification of the unified expert/KV memory pool of vLLM (the fork under \<open>src/vllm\<close>).

  \<^bold>\<open>The program.\<close> A mixture-of-experts model is served with the expert weights in CPU memory. One GPU buffer per
  layer holds both the KV cache of the requests and the experts in use. The buffer is cut into pages, the blocks of
  the KV cache's block pool; \<open>F\<close> consecutive pages form a super-block, which can hold one expert. The block pool hands
  pages to requests, counts references, keeps freed pages on a list and remembers the prefix-cache hash of each.
  The pool manager listens to the block pool, chooses the victims of KV allocations, and takes super-blocks whose
  pages no request uses for experts, moving or dropping the cached prefixes on them. The KV cache manager asks the block
  pool for the slots of each request and searches the cached prefix of a new one.

  \<^bold>\<open>Theories and sources.\<close> Paths are relative to \<open>src/vllm/vllm\<close>.
  \<^item> \<open>Pool_Prelude\<close>: errors as values, results with the state left behind (an exception does not undo mutations),
    postconditions \<open>post\<close> and \<open>runs_to\<close>, Python dictionaries as ordered association lists, byte ranges, \<open>cdiv\<close>.
    \<open>Linked_List\<close>: doubly linked paths over node records.
  \<^item> \<open>Free_Block_Queue\<close>: \<open>FreeKVCacheBlockQueue\<close> of \<open>v1/core/kv_cache_utils.py\<close>, node by node; locale \<open>block_queue\<close>,
    the list it represents.
  \<^item> \<open>Block_Hash\<close>: hashing of requests in \<open>v1/core/kv_cache_utils.py\<close> and \<open>v1/request.py\<close>; digests are parameters.
  \<^item> \<open>Block_Map\<close>: \<open>BlockHashToBlockMap\<close> of \<open>v1/core/block_pool.py\<close>; locale \<open>hash_index\<close>.
  \<^item> \<open>Block_Pool\<close>: \<open>BlockPool\<close> of \<open>v1/core/block_pool.py\<close> with its callbacks as a record of functions.
    \<open>Pool_Listener\<close>: its invariant, and the locale \<open>pool_listener\<close>, the contract between the pool and a component
    that registers callbacks; every pool operation is proved inside it once, and the locale is interpreted on the pool
    without callbacks and on the pool manager.
  \<^item> \<open>Prefix_LRU\<close>, \<open>Unified_Layer\<close>, \<open>Unified_Manager\<close>: \<open>PrefixLRU\<close>, \<open>UnifiedPool\<close> and \<open>UnifiedPoolManager\<close> of
    \<open>model_executor/layers/fused_moe/unified_pool.py\<close>. The manager's record extends the block pool's, so that the operations of the
    pool run on the manager's state and its callbacks see both. Locales \<open>recency_list\<close> and \<open>expert_directory\<close>.
  \<^item> \<open>Manager_Invariant\<close>, \<open>Expert_Path\<close>, \<open>Expert_Choice\<close>, \<open>Expert_Loading\<close>: the invariant of the manager and its operations in the
    order the code calls them: victims of KV allocations, relocating and evicting pages, choosing a super-block, loading
    and unwinding.
  \<^item> \<open>Pool_Machine\<close>: construction, warm-up and the step relation \<open>pool_step\<close> with the reachable states. Its steps are the
    operations that clients of the block pool and of the manager call after start-up, with one restriction: \<open>BlockPool.reset_prefix_cache\<close>, when it succeeds, is a step only while the recency list
    is empty, because otherwise it breaks the invariant (\<open>reset_needs_empty_recency\<close>). "Reachable" below means by these steps, and
    \<open>serve_step\<close> of \<open>KV_Serving\<close> has the same restriction. \<open>Pool_Example\<close>: a small pool the
    witnesses run on.
  \<^item> \<open>Expert_Kernel\<close>, \<open>Expert_Cache\<close>, \<open>Pool_Forward\<close>: the two forward passes of \<open>FusedMoE\<close> in \<open>fused_moe/layer.py\<close> and the fixed-size
    cache of \<open>fused_moe/expert_cache.py\<close>; locale \<open>expert_store\<close>, interpreted on both. The fused kernel is a parameter; it is
    assumed to use expert ids only to pick weight rows (\<open>reads_rows_by_id\<close>).
  \<^item> \<open>Pool_Setup\<close>: \<open>config/offload.py\<close>, \<open>extract_layer_index\<close> and the two stages of \<open>v1/worker/gpu_model_runner.py\<close> that build the pool.
  \<^item> \<open>KV_Groups\<close>, \<open>KV_Manager\<close>: \<open>v1/core/single_type_kv_cache_manager.py\<close>, \<open>v1/core/kv_cache_manager.py\<close> and the coordinators
    for one group of \<open>v1/core/kv_cache_coordinator.py\<close>. \<open>KV_Accounting\<close>, \<open>KV_Slots\<close>: the locale \<open>kv_pool\<close>, what the manager relies on,
    and \<open>allocate_slots\<close> inside it. \<open>KV_Prefix\<close>: the prefix search against a declarative reference. \<open>KV_Serving\<close>: every
    \<open>pool_listener\<close> is a \<open>kv_pool\<close> (a \<open>sublocale\<close>), the unified pool is one whose effects are machine steps, and the machine
    \<open>serve_step\<close> of scheduler calls interleaved with kernels and forward passes.
  \<^item> \<open>KV_Offload\<close>, \<open>KV_Offload_ARC\<close>, \<open>Offload_Reuse\<close>: the managers of KV blocks offloaded to CPU memory, \<open>v1/kv_offload\<close>:
    the interface of \<open>abstract.py\<close> as a record of operations, \<open>backends/cpu.py\<close> with its 32-bit reference counts, \<open>lru_manager.py\<close>,
    \<open>arc_manager.py\<close> with the rounding of its float target, \<open>reuse_manager.py\<close> and the choice among them in \<open>cpu.py\<close>.
    \<open>Offload_Contract\<close>: the locale \<open>offloading_manager\<close>, what the interface promises, and inside it the machine \<open>transfer_step\<close> of
    calls interleaved with copies in flight. \<open>Offload_LRU\<close>, \<open>Offload_ARC\<close>: its interpretations; the reuse filter and the run-time choice
    between managers keep the contract (\<open>sublocale\<close>s). \<open>Offload_Serving\<close>: the properties of the configured manager.
  \<^item> \<open>Encoder_Cache\<close>: \<open>v1/core/encoder_cache_manager.py\<close>, the placeholder ranges of \<open>multimodal/inputs.py\<close> and the routines of
    \<open>v1/core/sched/scheduler.py\<close> that plan, allocate and free encoder inputs. \<open>Encoder_Space\<close>: the locale \<open>encoder_space\<close> with the planning
    loop, interpreted on both cache managers. \<open>Encoder_Serving\<close>: the machine \<open>encoder_step\<close> and the properties.

  \<^bold>\<open>What is shown.\<close> For a pool of whole super-blocks: experts and KV data never share memory and the kernel reads the right weights in every reachable state;
  loading succeeds when there is room and unwinds when there is not; a KV allocation within the free count is always
  served; loading loses as few and as cold prefixes as possible and moves the others with their bytes; the
  recency list is exact; both forward passes compute what the kernel computes on the full weights; start-up
  yields a well-formed pool; the accounts of the KV cache manager balance under every interleaving, no block leaks, a
  scheduler call never raises and refuses only for lack of room, and the prefix reused is the longest possible. The linked structures refine
  lists, the index refines a finite relation, hashing is incremental and collision-free up to the digest. A load of offloaded blocks reads
  the data that was stored whatever else is in flight, slots of CPU memory are conserved, and calls within the interface return;
  the encoder cache is never over-committed and scheduled tokens find their encoder outputs.

  \<^bold>\<open>Where the code falls short.\<close> Some theorems characterise defects. A successful reset of the prefix cache leaves the recency list of the
  unified pool stale and keeps the invariant exactly if there was nothing to reset; a run shows an expert's weights overwritten by a relocation
  afterwards. A cached page in a partial super-block at the end of the pool makes the search for a super-block to vacate raise. Once a request
  has hashed a block, its later keys ignore all multi-modal inputs but the last. A batch with more experts than slots leaves the
  fixed-size cache with table entries whose weights were never copied. The ARC manager refuses a store exactly when the blocks it is willing to
  evict do not suffice, which leaves out the idle blocks of T1 while T1 is below its target, and loses a slot when a store of a
  readable block is reported as failed. An encoder input of a request preempted in the step that scheduled it counts as cached,
  and the encoder-decoder manager frees inputs again at every step.

  \<^bold>\<open>Bounds.\<close> Three loops carry fuel. The hasher advances by a positive block size, so the number of tokens plus one is enough
  (\<open>fuel_bound\<close>); every round but the last of the search with a growing horizon reads another page of the recency list, so the list's length plus two is
  enough; walks along linked lists are bounded by the number of nodes, and well-formedness shows that they end at the
  sentinel. Running out of fuel is a result the theorems exclude. Counters are Python integers; only the group id (32 bits),
  the event hash (64 bits) and the reference counts of offloaded blocks (32 bits, signed) have a width.

  \<^bold>\<open>Not modelled.\<close> The forward passes of \<open>fused_moe/layer.py\<close> swap \<open>w13_weight\<close>, \<open>w2_weight\<close>, \<open>global_num_experts\<close> and \<open>_expert_map\<close> of the layer for the
  call of the kernel and restore them; the model hands the kernel the rows and ids instead. The checks that \<open>view\<close>, \<open>reshape\<close> and \<open>as_strided\<close> make
  when a layer's views are built are left out (the assertions of the constructor are not), and the assertion that a multi-modal input has an identifier is a
  type. CUDA streams, events and copies are taken as executed in program order; tracing, profiling, metrics and statistics have no
  effect on the state; kernels and quantisation are tensor programs outside the logic. The scheduler's policy and the planning
  of KV cache memory are not modelled: what the scheduler
  must respect when it calls the KV cache manager is the predicate \<open>schedulable\<close>, and of its own code only the encoder inputs are.
  The handlers that copy offloaded blocks are steps of the machine. Of the KV cache managers, Mamba, cross and sink attention and
  the coordinator of several groups are left out, since the unified pool requires a single group.
\<close>

section \<open>Safety of the shared pool\<close>

text \<open>C1. Experts and KV never share memory: in a pool of whole super-blocks, in every state the engine reaches after warm-up by
  the steps of \<open>pool_step\<close>, the pages of a super-block that holds an expert belong to no request, hold no cached prefix, are still
  on the free list, and exclude the null block's super-block. A successful reset of the prefix cache is among the steps only
  while no cached prefix is evictable; \<open>reset_needs_empty_recency\<close> shows that it breaks the invariant otherwise.\<close>

theorem experts_and_kv_disjoint:
  assumes "fresh s0" "whole_super_blocks s0" "\<forall>l \<in> snd ` set (layers s0). k \<le> num_experts l" "k < num_super_blocks s0"
    and "warm_up k s0 = Inr ((), s1)" "reachable s1 s"
    and "map_of (layers s) i = Some l" "map_of (expert_at_super_block l) sb = Some e" "p \<in> set (pages_of s sb)"
  shows "0 < sb \<and> sb < num_super_blocks s \<and> ref_at s p = 0 \<and> hash_at s p = None \<and> p \<in> set (free_ids (free_block_queue s))"
proof -
  note J = engine_run(1) [OF assms(1-6)]
  note D = manager_syncedD [OF J]
  have m: "mapped s i sb e" using assms(7,8) by (auto simp: mapped_def)
  note h = mapped_held [OF D(10) m]
  have "p \<in> held_pages s" using h(1) assms(9) by (auto simp: held_pages_def)
  then have "p \<in> free_set s" "hash_at s p = None" using D(3) by auto
  with free_page [OF D(5)] h D(10) show ?thesis by (auto simp: free_set_def holders_ok_def)
qed

theorem experts_and_kv_disjoint_witness:
  "map_of (expert_at_super_block (the (map_of (layers demo_cached) 0))) 1 = Some 0 \<and> ref_at demo_cached 2 = 0 \<and>
   hash_at demo_cached 2 = None \<and> 2 \<in> set (free_ids (free_block_queue demo_cached))"
proof -
  have "map_of (layers demo_cached) 0 = Some (the (map_of (layers demo_cached) 0))"
    "map_of (expert_at_super_block (the (map_of (layers demo_cached) 0))) 1 = Some 0" "2 \<in> set (pages_of demo_cached 1)"
    "num_experts demo_layer = 2"
    by code_simp+
  moreover note experts_and_kv_disjoint [OF demo_fresh_ok(1,2) _ _ demo_warm_ok(1) demo_reachable(2) this(1-3)]
  ultimately show ?thesis by (simp add: demo_fresh_ok)
qed

text \<open>C2. The kernel reads the right weights: in a pool of whole super-blocks, in every state the engine reaches after warm-up by
  the steps of \<open>pool_step\<close> (which resets the prefix cache only while no cached prefix is evictable), an expert whose row of the remap
  tensor is not \<open>UNLOADED\<close> is resident at the super-block the row names, and the pool's rows there are byte for byte its CPU weights.\<close>

theorem remap_points_to_weights:
  assumes "fresh s0" "whole_super_blocks s0" "\<forall>l \<in> snd ` set (layers s0). k \<le> num_experts l" "k < num_super_blocks s0"
    and "warm_up k s0 = Inr ((), s1)" "reachable s1 s"
    and "map_of (layers s) i = Some l" "map_of (kv_pool_buffers s) i = Some buf"
    and "e < num_experts l" "super_block_id_at l ! e \<noteq> UNLOADED"
  shows "\<exists>sb. super_block_id_at l ! e = int sb \<and> super_block_of_expert l e = Some sb \<and> expert_of_super_block l sb = Some e \<and>
     pool_w13_row l buf sb = cpu_w13_bytes l ! e \<and> pool_w2_row l buf sb = cpu_w2_bytes l ! e"
proof -
  note J = engine_run(1) [OF assms(1-6)]
  have ok: "layer_ok (step s) l" using manager_syncedD(9) [OF J] assms(7) unfolding layers_ok_def by blast
  obtain sb where sb: "map_of (super_block_at_expert l) e = Some sb" using experts.row_resident [OF ok assms(9)] assms(10) by blast
  then have at: "map_of (expert_at_super_block l) sb = Some e" using experts.inverse [OF ok] by blast
  from experts.row_value [OF ok at] manager_syncedD(11) [OF J] sb at assms(7,8) show ?thesis
    unfolding bytes_ok_def super_block_of_expert_def expert_of_super_block_def by blast
qed

theorem remap_points_to_weights_witness:
  "pool_w13_row (the (map_of (layers demo_cached) 0)) (the (map_of (kv_pool_buffers demo_cached) 0)) 1 = [1] \<and>
   pool_w2_row (the (map_of (layers demo_cached) 0)) (the (map_of (kv_pool_buffers demo_cached) 0)) 1 = [3]"
proof -
  let ?l = "the (map_of (layers demo_cached) 0)"
  have "map_of (layers demo_cached) 0 = Some ?l"
    "map_of (kv_pool_buffers demo_cached) 0 = Some (the (map_of (kv_pool_buffers demo_cached) 0))"
    "0 < num_experts ?l" "super_block_id_at ?l ! 0 \<noteq> UNLOADED" "num_experts demo_layer = 2"
    "super_block_id_at ?l ! 0 = 1" "cpu_w13_bytes ?l ! 0 = [1]" "cpu_w2_bytes ?l ! 0 = [3]"
    by code_simp+
  moreover note remap_points_to_weights [OF demo_fresh_ok(1,2) _ _ demo_warm_ok(1) demo_reachable(2) this(1-4)]
  ultimately show ?thesis by (auto simp: demo_fresh_ok)
qed

text \<open>C9. The manager's recency list is exact: in a pool of whole super-blocks, in every state the engine reaches after warm-up by the
  steps of \<open>pool_step\<close> (which resets the prefix cache only while this list is empty), it lists each evictable cached block once, in
  nondecreasing order of steps none of which lies in the future, its links are well formed, and its own check passes.\<close>

theorem recency_list_exact:
  assumes "fresh s0" "whole_super_blocks s0" "\<forall>l \<in> snd ` set (layers s0). k \<le> num_experts l" "k < num_super_blocks s0"
    and "warm_up k s0 = Inr ((), s1)" "reachable s1 s"
  shows "distinct (map fst (lru_items (prefix_lru s))) \<and>
     fst ` set (lru_items (prefix_lru s)) =
       {p. 0 < p \<and> p < length (blocks s) \<and> ref_at s p = 0 \<and> hash_at s p \<noteq> None} \<and>
     recency_ordered (step s) (lru_items (prefix_lru s)) \<and> lru_validate (prefix_lru s) = Inr ((), prefix_lru s)"
proof -
  note J = engine_run(1) [OF assms(1-6)]
  note D = manager_syncedD [OF J]
  have "cached_free s = {p. 0 < p \<and> p < length (blocks s) \<and> ref_at s p = 0 \<and> hash_at s p \<noteq> None}"
    using D(5) by (auto simp: cached_free_def queue_ok_def)
  moreover have "lru_wf (prefix_lru s)" "recency_ordered (step s) (lru_items (prefix_lru s))" using D(12) by (auto simp: lru_ok_def)
  ultimately show ?thesis using inv_items [OF J] lru_validate_ordered [of "prefix_lru s" "step s"] by simp
qed

theorem recency_list_exact_witness:
  "lru_items (prefix_lru demo_cached) = [(5, 0), (4, 0), (1, 0)] \<and>
   {p. 0 < p \<and> p < length (blocks demo_cached) \<and> ref_at demo_cached p = 0 \<and> hash_at demo_cached p \<noteq> None} = {1, 4, 5} \<and>
   lru_validate (prefix_lru demo_cached) = Inr ((), prefix_lru demo_cached)"
proof -
  have "num_experts demo_layer = 2" "lru_items (prefix_lru demo_cached) = [(5, 0), (4, 0), (1, 0)]" by code_simp+
  moreover from this have "fst ` set (lru_items (prefix_lru demo_cached)) = {1, 4, 5}" by auto
  moreover note recency_list_exact [OF demo_fresh_ok(1,2) _ _ demo_warm_ok(1) demo_reachable(2)]
  ultimately show ?thesis by (simp add: demo_fresh_ok)
qed

text \<open>C8. Every step of the engine (allocation, prefix hits, release, caching, eviction, kernel writes, expert loading that
  succeeds or fails, the end of a forward pass, draining the events, a refused reset of the prefix cache, and a successful one
  while the recency list is empty) preserves the invariant that ties together the free list, the prefix-cache
  index, the recency list, the expert directories, the holder table and the bytes of the pool. A successful reset while the
  recency list is not empty is not a step: by \<open>reset_needs_empty_recency\<close> it never preserves the invariant.\<close>

theorem engine_steps_preserve_invariant:
  assumes "pool_step s s'" "engine_inv s"
  shows "engine_inv s'"
  using assms by (rule pool_step_inv)

theorem engine_steps_preserve_invariant_witness: "engine_inv demo_warm \<and> engine_inv demo_live"
  using engine_steps_preserve_invariant [OF pool_step.allocate [OF demo_warm_ok(3) demo_live_run]] demo_warm_ok(2) by blast

section \<open>Loading experts\<close>

text \<open>C3. A forward pass gets its experts: in a state that satisfies the invariant of a pool of whole super-blocks, if at least as many super-blocks are free of pages in use as experts are needed,
  \<open>ensure_loaded\<close> returns, and then each needed expert is resident and pinned, its row of the remap tensor names its
  super-block and the pool holds its weights there.\<close>

theorem ensure_loaded_succeeds:
  assumes "engine_inv s" "map_of (layers s) i = Some l" "pinned_super_blocks l = []"
    and "distinct needed" "\<forall>e \<in> set needed. e < num_experts l" "length needed \<le> card (usable_super_blocks s)"
  shows "runs_to (ensure_loaded i needed s) (\<lambda>_ s'. \<exists>l' buf. map_of (layers s') i = Some l' \<and> map_of (kv_pool_buffers s') i = Some buf \<and>
     (\<forall>e \<in> set needed. \<exists>sb. super_block_id_at l' ! e = int sb \<and> sb \<in> set (pinned_super_blocks l') \<and>
        pool_w13_row l' buf sb = cpu_w13_bytes l' ! e \<and> pool_w2_row l' buf sb = cpu_w2_bytes l' ! e))"
proof -
  have J: "inv s" and w: "whole_super_blocks s" using assms(1) by (simp_all add: engine_inv_def)
  from ensure_loaded_ok [OF J w assms(2-5)] assms(6) obtain s' where s': "ensure_loaded i needed s = Inr ((), s')" "loaded i needed s s'"
    by (cases "ensure_loaded i needed s") auto
  from s'(2) obtain l' where J': "inv s'" and l': "map_of (layers s') i = Some l'"
    and pins: "set (pinned_super_blocks l') = {sb. \<exists>e \<in> set needed. map_of (expert_at_super_block l') sb = Some e}"
    and all: "\<forall>e \<in> set needed. \<exists>sb. map_of (expert_at_super_block l') sb = Some e"
    by (auto simp: loaded_def)
  note D = manager_syncedD [OF J']
  have ok: "layer_ok (step s') l'" "map_of (kv_pool_buffers s') i \<noteq> None" using D(9) l' unfolding layers_ok_def by blast+
  then obtain buf where buf: "map_of (kv_pool_buffers s') i = Some buf" by blast
  have each: "\<exists>sb. super_block_id_at l' ! e = int sb \<and> sb \<in> set (pinned_super_blocks l') \<and>
        pool_w13_row l' buf sb = cpu_w13_bytes l' ! e \<and> pool_w2_row l' buf sb = cpu_w2_bytes l' ! e" if e: "e \<in> set needed" for e
  proof -
    obtain sb where sb: "map_of (expert_at_super_block l') sb = Some e" using all e by blast
    with pins e have "sb \<in> set (pinned_super_blocks l')" by blast
    with experts.row_value [OF ok(1) sb] D(11) l' buf sb show ?thesis unfolding bytes_ok_def by blast
  qed
  show ?thesis unfolding s'(1) post_simps by (rule exI [of _ l'], rule exI [of _ buf], intro conjI ballI l' buf each)
qed

text \<open>C5. When loading fails in a state that satisfies the invariant of a pool of whole super-blocks, it says so with the code's error, there were fewer usable super-blocks than needed experts,
  and the failure is clean: the invariant holds, nothing stays pinned in the layer, no new mapping of the layer survives,
  and no other layer is touched.\<close>

theorem ensure_loaded_failure_unwinds:
  assumes "engine_inv s" "map_of (layers s) i = Some l" "pinned_super_blocks l = []"
    and "distinct needed" "\<forall>e \<in> set needed. e < num_experts l" "ensure_loaded i needed s = Inl (err, s')"
  shows "err = RuntimeError ''pool exhausted while resolving expert miss'' \<and> card (usable_super_blocks s) < length needed \<and>
     inv s' \<and> pins_of s' = (pins_of s)(i \<mapsto> []) \<and> (\<forall>b d. mapped s' i b d \<longrightarrow> mapped s i b d) \<and>
     (\<forall>j b d. j \<noteq> i \<longrightarrow> mapped s' j b d = mapped s j b d)"
proof -
  have J: "inv s" and w: "whole_super_blocks s" using assms(1) by (simp_all add: engine_inv_def)
  from ensure_loaded_ok [OF J w assms(2-5)] show ?thesis unfolding assms(6) unwound_def by simp
qed

text \<open>C6. Loading experts in a state that satisfies the invariant of a pool of whole super-blocks never costs a request its KV: whether it succeeds or fails, every page in use keeps its reference
  count, its hash and its bytes in every layer, and every prefix that is still cached is cached with the bytes it had.\<close>

theorem loading_preserves_kv:
  assumes "engine_inv s" "map_of (layers s) i = Some l" "pinned_super_blocks l = []"
    and "distinct needed" "\<forall>e \<in> set needed. e < num_experts l"
  shows "post (ensure_loaded i needed s) (\<lambda>_ s'. kv_kept s s') (\<lambda>_ s'. kv_kept s s')"
proof -
  have J: "inv s" and w: "whole_super_blocks s" using assms(1) by (simp_all add: engine_inv_def)
  from ensure_loaded_ok [OF J w assms(2-5)] show ?thesis
    by (cases "ensure_loaded i needed s") (auto simp: loaded_def unwound_def)
qed

theorem ensure_loaded_succeeds_witness:
  "runs_to (ensure_loaded 0 [1] demo_cached) (\<lambda>_ s'. \<exists>l' buf. map_of (layers s') 0 = Some l' \<and> map_of (kv_pool_buffers s') 0 = Some buf \<and>
     (\<forall>e \<in> set [1]. \<exists>sb. super_block_id_at l' ! e = int sb \<and> sb \<in> set (pinned_super_blocks l') \<and>
        pool_w13_row l' buf sb = cpu_w13_bytes l' ! e \<and> pool_w2_row l' buf sb = cpu_w2_bytes l' ! e))"
proof (rule ensure_loaded_succeeds [OF demo_inv(2) demo_lookup(1,2)])
  have "{2, 3} \<subseteq> usable_super_blocks demo_cached" using demo_vacatable by (auto simp: usable_super_blocks_def vacatable_def)
  from card_mono [OF finite_usable this] show "length [1 :: nat] \<le> card (usable_super_blocks demo_cached)" by simp
qed (simp_all add: demo_lookup(3))

theorem ensure_loaded_failure_unwinds_witness:
  "pins_of (final (ensure_loaded 0 [0, 1] demo_full)) = (pins_of demo_full)(0 \<mapsto> []) \<and> card (usable_super_blocks demo_full) < 2"
  using ensure_loaded_failure_unwinds [OF demo_inv(3) demo_lookup(4,5) _ _ demo_full_load] by (simp add: demo_lookup(6))

theorem loading_preserves_kv_witness:
  "post (ensure_loaded 0 [0, 1] demo_full) (\<lambda>_ s'. kv_kept demo_full s') (\<lambda>_ s'. kv_kept demo_full s')"
  by (rule loading_preserves_kv [OF demo_inv(3) demo_lookup(4,5)]) (simp_all add: demo_lookup(6))

section \<open>KV allocation and prefix caching\<close>

text \<open>C4. With the unified pool listening, in a state that satisfies the invariant of a pool of whole super-blocks, KV allocation between
  forward passes succeeds whenever the block pool reports
  enough free blocks, even if experts or cached prefixes have to go: it returns that many distinct blocks that were free,
  each now in use once and without a hash, none of them in a super-block that still holds an expert. With too few free
  blocks it raises before changing anything.\<close>

theorem kv_allocation_served:
  assumes "engine_inv s" "unpinned s"
  shows "if int n \<le> get_num_free_blocks s
     then runs_to (get_new_blocks manager_callbacks n s) (\<lambda>ret s'. engine_inv s' \<and> distinct ret \<and> length ret = n \<and>
       set ret \<subseteq> set (free_ids (free_block_queue s)) \<and>
       (\<forall>p \<in> set ret. ref_at s' p = 1 \<and> hash_at s' p = None \<and>
          (\<forall>i l e. map_of (layers s') i = Some l \<longrightarrow> map_of (expert_at_super_block l) (super_block_of_page s' p) \<noteq> Some e)))
     else get_new_blocks manager_callbacks n s = Inl (ValueError ''Cannot get free blocks from the pool'', s)"
proof (cases "int n \<le> get_num_free_blocks s")
  case True
  have J: "inv s" using assms(1) by (simp add: engine_inv_def)
  have "runs_to (get_new_blocks manager_callbacks n s) (\<lambda>ret s'. engine_inv s' \<and> distinct ret \<and> length ret = n \<and>
       set ret \<subseteq> set (free_ids (free_block_queue s)) \<and>
       (\<forall>p \<in> set ret. ref_at s' p = 1 \<and> hash_at s' p = None \<and>
          (\<forall>i l e. map_of (layers s') i = Some l \<longrightarrow> map_of (expert_at_super_block l) (super_block_of_page s' p) \<noteq> Some e)))"
  proof (rule runs_to_mono [OF manager_get_new_blocks [OF J assms(2) True]])
    fix ret s' assume r: "manager_synced (length (blocks s)) {} s' \<and> unpinned s' \<and> distinct ret \<and> length ret = n \<and>
      set ret \<subseteq> free_set s \<and> claimed (set ret) s s' \<and> frozen s' = frozen s"
    then have c: "claimed (set ret) s s'" "manager_synced (length (blocks s)) {} s'" "frozen s' = frozen s" by blast+
    have len: "length (blocks s') = length (blocks s)" using c(1) by (simp add: claimed_def)
    have e: "engine_inv s'" by (rule engine_invI [OF assms(1) c(2) len c(3)])
    note D = manager_syncedD [OF c(2)]
    have "map_of (expert_at_super_block l) (super_block_of_page s' p) \<noteq> Some d"
      if p: "p \<in> set ret" "map_of (layers s') i = Some l" for p i l d
    proof
      assume "map_of (expert_at_super_block l) (super_block_of_page s' p) = Some d"
      with p(2) have "mapped s' i (super_block_of_page s' p) d" by (auto simp: mapped_def)
      from mapped_held(1) [OF D(10) this] have "p \<in> held_pages s'" using held_iff [OF D(8)] by simp
      then have "ref_at s' p = 0" using D(3) free_page [OF D(5)] by blast
      with c(1) p(1) show False by (simp add: claimed_def)
    qed
    moreover have "\<forall>p \<in> set ret. ref_at s' p = 1 \<and> hash_at s' p = None" using c(1) by (simp add: claimed_def)
    ultimately show "engine_inv s' \<and> distinct ret \<and> length ret = n \<and> set ret \<subseteq> set (free_ids (free_block_queue s)) \<and>
       (\<forall>p \<in> set ret. ref_at s' p = 1 \<and> hash_at s' p = None \<and>
          (\<forall>i l e. map_of (layers s') i = Some l \<longrightarrow> map_of (expert_at_super_block l) (super_block_of_page s' p) \<noteq> Some e))"
      using r e unfolding free_set_def by blast
  qed
  with True show ?thesis by presburger
qed (simp add: get_new_blocks_def raise_def)

theorem kv_allocation_served_witness:
  "runs_to (get_new_blocks manager_callbacks 7 demo_warm) (\<lambda>ret s'. engine_inv s' \<and> distinct ret \<and> length ret = 7 \<and>
     (\<forall>p \<in> set ret. ref_at s' p = 1))"
proof -
  have "int 7 \<le> get_num_free_blocks demo_warm" by code_simp
  with kv_allocation_served [OF demo_warm_ok(2,3), of 7] show ?thesis by (auto elim!: runs_to_mono)
qed

text \<open>C20. What is cached is found: after \<open>cache_full_blocks\<close>, looking up the hash of any of the newly cached blocks
  in its group hits a block that carries exactly that hash and group.\<close>

theorem cached_blocks_are_found:
  assumes "engine_inv s" "enable_caching s" "0 \<le> gid" "gid < 2 ^ 32"
    and "\<forall>b \<in> set (take (nf - nc) (drop nc blks)). b < length (blocks s) \<and> 0 < b \<and> 0 < ref_at s b \<and> hash_at s b = None"
    and "distinct (filter (\<lambda>b. b \<noteq> 0) blks)" "nc \<le> j" "j < nf" "nf \<le> length blks" "nf \<le> length (block_hashes r)"
      "nf \<le> length (group_hashes (hash_block_size s) bs r)"
  shows "runs_to (cache_full_blocks sha r blks nc nf bs gid s) (\<lambda>_ s'.
     \<exists>b key. get_cached_block (group_hashes (hash_block_size s) bs r ! j) [gid] s' = Inr (Some [b]) \<and>
       hash_at s' b = Some key \<and> get_block_hash key = group_hashes (hash_block_size s) bs r ! j \<and> get_group_id key = gid)"
proof -
  have J: "inv s" using assms(1) by (simp add: engine_inv_def)
  have m: "blks ! j \<in> set (take (nf - nc) (drop nc blks))"
    using assms(7-9) by (auto simp: in_set_conv_nth intro!: exI [of _ "j - nc"])
  have lt: "blks ! j < length (blocks s)" "blks ! j \<noteq> 0" using assms(5) m by blast+
  have pre: "\<forall>b \<in> set (take (nf - nc) (drop nc blks)). b < length (blocks s) \<and> (b \<noteq> 0 \<longrightarrow> 0 < ref_at s b \<and> hash_at s b = None)"
    using assms(5) by blast
  have "nc < nf" using assms(7,8) by simp
  note run = manager_cache_full_blocks [OF J assms(2-4) pre assms(6) this assms(9-11), of sha]
  show ?thesis
  proof (rule runs_to_mono [OF run])
    fix r' s'
    let ?h = "group_hashes (hash_block_size s) bs r ! j"
    assume a: "manager_synced (length (blocks s)) {} s' \<and> ref_at s' = ref_at s \<and> free_block_queue s' = free_block_queue s \<and>
       length (blocks s') = length (blocks s) \<and> enable_caching s' = enable_caching s \<and> hash_block_size s' = hash_block_size s \<and> unpinned s' = unpinned s \<and> frozen s' = frozen s \<and>
       (\<forall>j. nc \<le> j \<and> j < nf \<and> blks ! j \<noteq> 0 \<longrightarrow> hash_at s' (blks ! j) \<noteq> None \<and>
          make_block_hash_with_group_id (group_hashes (hash_block_size s) bs r ! j) gid = Inr (the (hash_at s' (blks ! j)))) \<and>
       (\<forall>b. b \<notin> set (take (nf - nc) (drop nc blks)) \<longrightarrow> hash_at s' b = hash_at s b)"
    then obtain key where key: "hash_at s' (blks ! j) = Some key" "make_block_hash_with_group_id ?h gid = Inr key"
      using assms(7,8) lt(2) by fastforce
    have c: "cache_ok s'" "length (blocks s') = length (blocks s)" using a manager_syncedD(6) by blast+
    let ?m = "cached_block_hash_to_block s'"
    have wf: "bmap_wf ?m" and ids: "set (bmap_ids ?m key) = {i. i < length (blocks s') \<and> hash_at s' i = Some key}"
      using c(1) by (simp_all add: cache_ok_def)
    have "blks ! j \<in> set (bmap_ids ?m key)" using ids key(1) lt(1) c(2) by simp
    then obtain b bs' where b: "bmap_ids ?m key = b # bs'" by (cases "bmap_ids ?m key") auto
    have "get_cached_block ?h [gid] s' = Inr (Some [b])"
      using bmap.get_one_ids [OF wf, of key] b key(2) by (simp add: get_cached_block_def)
    moreover have "hash_at s' b = Some key" using ids b by auto
    moreover have "get_block_hash key = ?h \<and> get_group_id key = gid" using unpack_pack [OF assms(3,4), of ?h] key(2) by auto
    ultimately show "\<exists>b key. get_cached_block ?h [gid] s' = Inr (Some [b]) \<and> hash_at s' b = Some key \<and>
       get_block_hash key = ?h \<and> get_group_id key = gid" by blast
  qed
qed

theorem cached_blocks_are_found_witness:
  "runs_to (cache_full_blocks id demo_request [1, 4, 5] 0 3 16 0 demo_live) (\<lambda>_ s'.
     \<exists>b key. get_cached_block [2] [0] s' = Inr (Some [b]) \<and> hash_at s' b = Some key \<and> get_block_hash key = [2])"
proof -
  have "hash_block_size demo_live = 16" "enable_caching demo_live"
    "\<forall>b \<in> set (take (3 - 0) (drop 0 [1, 4, 5])). b < length (blocks demo_live) \<and> 0 < b \<and> 0 < ref_at demo_live b \<and> hash_at demo_live b = None"
    by code_simp+
  moreover from cached_blocks_are_found [OF demo_inv(1) this(2) _ _ this(3), of 0 1 demo_request 16 id]
  have "runs_to (cache_full_blocks id demo_request [1, 4, 5] 0 3 16 0 demo_live) (\<lambda>_ s'.
     \<exists>b key. get_cached_block (group_hashes (hash_block_size demo_live) 16 demo_request ! 1) [0] s' = Inr (Some [b]) \<and>
       hash_at s' b = Some key \<and> get_block_hash key = group_hashes (hash_block_size demo_live) 16 demo_request ! 1 \<and> get_group_id key = 0)"
    using calculation(1) by (simp add: group_hashes_def demo_request_def)
  ultimately show ?thesis by (auto simp: group_hashes_def demo_request_def elim!: runs_to_mono)
qed

text \<open>Releasing blocks puts those that lost their last reference at the back of the free list in the order given (the
  caller passes a request's blocks tail first, so that is the order they are evicted in), leaves the other
  blocks in use, and keeps the invariant.\<close>

lemma release_order:
  assumes "engine_inv s" "may_free bs s"
  shows "runs_to (free_blocks manager_callbacks bs s) (\<lambda>_ s'. engine_inv s' \<and>
     free_ids (free_block_queue s') =
       free_ids (free_block_queue s) @ filter (\<lambda>b. b \<noteq> 0 \<and> ref_at s b = 1) bs \<and>
     (\<forall>b. ref_at s' b = ref_at s b - int (count_list bs b)) \<and> hash_at s' = hash_at s)"
proof -
  have J: "inv s" using assms(1) by (simp add: engine_inv_def)
  show ?thesis
  proof (rule runs_to_mono [OF manager_free_blocks [OF J assms(2)]])
    fix u s' assume a: "manager_synced (length (blocks s)) {} s' \<and> rereffed (\<lambda>i. ref_at s i - int (count_list bs i)) s s' \<and>
      free_ids (free_block_queue s') = free_ids (free_block_queue s) @ last_refs bs s \<and> unpinned s' = unpinned s \<and> frozen s' = frozen s"
    then have r: "rereffed (\<lambda>i. ref_at s i - int (count_list bs i)) s s'" by blast
    then have len: "length (blocks s') = length (blocks s)" by (simp add: rereffed_def)
    have "engine_inv s'" using a by (intro engine_invI [OF assms(1) _ len]) blast+
    moreover have "last_refs bs s = filter (\<lambda>b. b \<noteq> 0 \<and> ref_at s b = 1) bs" by (simp add: last_refs_def)
    ultimately show "engine_inv s' \<and> free_ids (free_block_queue s') =
       free_ids (free_block_queue s) @ filter (\<lambda>b. b \<noteq> 0 \<and> ref_at s b = 1) bs \<and>
      (\<forall>b. ref_at s' b = ref_at s b - int (count_list bs b)) \<and> hash_at s' = hash_at s"
      using a r by (simp add: rereffed_def)
  qed
qed

text \<open>Resetting the prefix cache of a pool on its own succeeds exactly when only the null block is in use; then no
  block has a hash and every lookup misses, and otherwise nothing changes.\<close>

theorem reset_clears_cache:
  assumes "pool_inv {} (s :: block_pool)"
  shows "case reset_prefix_cache s of (ok, s') \<Rightarrow>
     (ok \<longleftrightarrow> (\<forall>i. 0 < i \<and> i < length (blocks s) \<longrightarrow> ref_at s i = 0)) \<and>
     (if ok then pool_inv {} s' \<and> (\<forall>i < length (blocks s). hash_at s' i = None) \<and>
        (\<forall>h. get_cached_block h [0] s' = Inr None) else s' = s)"
proof -
  obtain ok s' where run: "reset_prefix_cache s = (ok, s')" by fastforce
  have "get_cached_block h [0] s' = Inr None" if ok for h
  proof -
    have "cached_block_hash_to_block s' = bmap_empty"
      using run that by (auto simp: reset_prefix_cache_def Let_def split: if_splits)
    then show ?thesis
      by (simp add: get_cached_block_def make_block_hash_with_group_id_def to_bytes4_def get_one_block_def bmap_empty_def)
  qed
  with reset_prefix_cache_ok [OF assms run] show ?thesis unfolding run by auto
qed

theorem reset_clears_cache_witness:
  "fst (reset_prefix_cache demo_blocks) \<and> (\<forall>h. get_cached_block h [0] (snd (reset_prefix_cache demo_blocks)) = Inr None)"
proof -
  have "fst (reset_prefix_cache demo_blocks)" by code_simp
  moreover have "pool_inv {} demo_blocks" using block_pool_init_ok [of 8 True 16 False False] by (auto simp: demo_blocks_def)
  ultimately show ?thesis using reset_clears_cache [of demo_blocks] by (auto split: prod.splits)
qed

section \<open>Eviction policy\<close>

text \<open>C7. Vacating a super-block for an expert empties it at the least cost to the prefix cache: no page in use is touched,
  every surviving prefix keeps its bytes, and with relocation on the prefixes lost are as many as the free pages fall short
  and are the coldest of all cached prefixes, wherever they were.\<close>

theorem vacating_loses_coldest:
  assumes "engine_inv s" "vacatable sb s"
  shows "runs_to (vacate_kv_super_block sb s) (\<lambda>_ s'. engine_inv s' \<and> kv_kept s s' \<and> ref_at s' = ref_at s \<and>
     (\<forall>p \<in> set (pages_of s sb). hash_at s' p = None) \<and>
     (relocation_enabled s \<longrightarrow> (\<exists>lost. mset (map snd (lru_items (prefix_lru s))) = mset (map snd (lru_items (prefix_lru s'))) + lost \<and>
        (\<forall>k \<in># lost. \<forall>b \<in> set (lru_items (prefix_lru s')). k \<le> snd b) \<and>
        size lost = length (filter (\<lambda>p. hash_at s p \<noteq> None) (pages_of s sb)) -
          length (filter (usable_hole sb s) (free_ids (free_block_queue s))))))"
proof -
  have J: "inv s" and w: "whole_super_blocks s" using assms(1) by (simp_all add: engine_inv_def)
  show ?thesis
  proof (rule runs_to_mono [OF vacate_kv_super_block_ok [OF J assms(2)]])
    fix u s' assume a: "inv s' \<and> keeps s s' \<and> kv_kept s s' \<and> (\<forall>p \<in> set (pages_of s sb). hash_at s' p = None) \<and>
       (relocation_enabled s \<longrightarrow> evicted_coldest sb s s')"
    then have k: "keeps s s'" by blast
    have "engine_inv s'" using a w k by (auto simp: engine_inv_def whole_super_blocks_def keeps_def)
    moreover have "\<exists>lost. mset (map snd (lru_items (prefix_lru s))) = mset (map snd (lru_items (prefix_lru s'))) + lost \<and>
        (\<forall>k \<in># lost. \<forall>b \<in> set (lru_items (prefix_lru s')). k \<le> snd b) \<and>
        size lost = length (filter (\<lambda>p. hash_at s p \<noteq> None) (pages_of s sb)) -
          length (filter (usable_hole sb s) (free_ids (free_block_queue s)))" if on: "relocation_enabled s"
    proof -
      obtain K where K: "steps s = steps s' + K" "\<forall>k \<in># K. \<forall>b \<in># steps s'. k \<le> b"
        "size K = length (sb_prefix_pages sb s) - length (hole_list sb s)"
        using a on unfolding evicted_coldest_def by blast
      have "length (sb_prefix_pages sb s) - length (hole_list sb s) =
          length (sb_prefix_pages sb s) - length (filter (usable_hole sb s) (free_ids (free_block_queue s)))"
        by (simp add: hole_list_def min_def)
      moreover have "\<forall>k \<in># K. \<forall>b \<in> set (lru_items (prefix_lru s')). k \<le> snd b" using K(2) by (simp add: steps_def)
      ultimately show ?thesis using K(1,3) unfolding steps_def sb_prefix_pages_def by metis
    qed
    ultimately show "engine_inv s' \<and> kv_kept s s' \<and> ref_at s' = ref_at s \<and> (\<forall>p \<in> set (pages_of s sb). hash_at s' p = None) \<and>
      (relocation_enabled s \<longrightarrow> (\<exists>lost. mset (map snd (lru_items (prefix_lru s))) = mset (map snd (lru_items (prefix_lru s'))) + lost \<and>
        (\<forall>k \<in># lost. \<forall>b \<in> set (lru_items (prefix_lru s')). k \<le> snd b) \<and>
        size lost = length (filter (\<lambda>p. hash_at s p \<noteq> None) (pages_of s sb)) -
          length (filter (usable_hole sb s) (free_ids (free_block_queue s)))))"
      using a k by (auto simp: keeps_def)
  qed
qed

theorem vacating_loses_coldest_witness:
  "runs_to (vacate_kv_super_block 2 demo_cached) (\<lambda>_ s'. engine_inv s' \<and> kv_kept demo_cached s' \<and>
     (\<forall>p \<in> set (pages_of demo_cached 2). hash_at s' p = None) \<and>
     mset (map snd (lru_items (prefix_lru demo_cached))) = mset (map snd (lru_items (prefix_lru s'))))"
proof -
  have "relocation_enabled demo_cached" "length (filter (\<lambda>p. hash_at demo_cached p \<noteq> None) (pages_of demo_cached 2)) = 2"
    "length (filter (usable_hole 2 demo_cached) (free_ids (free_block_queue demo_cached))) = 2" by code_simp+
  with vacating_loses_coldest [OF demo_inv(2) demo_vacatable(1)] show ?thesis by (auto elim!: runs_to_mono)
qed

text \<open>Moving a cached prefix to a free page carries its hash, its place in the recency order and its bytes in every
  layer; the source page ends without a hash and nothing else moves.\<close>

theorem relocation_moves_prefix:
  assumes "engine_inv s" "src \<in> cached_free s"
    and "dst \<in> free_set s" "hash_at s dst = None" "dst \<notin> held_pages s"
  shows "runs_to (relocate_kv_page src dst s) (\<lambda>_ s'. engine_inv s' \<and> kv_kept s s' \<and>
     hash_at s' = (hash_at s)(src := None, dst := hash_at s src) \<and>
     lru_items (prefix_lru s') = map (\<lambda>(q, t). (if q = src then dst else q, t)) (lru_items (prefix_lru s)) \<and>
     layers s' = layers s \<and> free_block_queue s' = free_block_queue s)"
proof -
  have J: "inv s" and w: "whole_super_blocks s" using assms(1) by (simp_all add: engine_inv_def)
  show ?thesis
  proof (rule runs_to_mono [OF relocate_kv_page_ok [OF J assms(2-)]])
    fix u s' assume a: "inv s' \<and> keeps s s' \<and> kv_kept s s' \<and> hash_at s' = (hash_at s)(src := None, dst := hash_at s src) \<and>
       lru_items (prefix_lru s') = map (\<lambda>(q, t). (if q = src then dst else q, t)) (lru_items (prefix_lru s))"
    then have k: "inv s'" "keeps s s'" by blast+
    then have "engine_inv s' \<and> layers s' = layers s \<and> free_block_queue s' = free_block_queue s"
      using w by (simp add: engine_inv_def whole_super_blocks_def keeps_def)
    with a show "engine_inv s' \<and> kv_kept s s' \<and> hash_at s' = (hash_at s)(src := None, dst := hash_at s src) \<and>
       lru_items (prefix_lru s') = map (\<lambda>(q, t). (if q = src then dst else q, t)) (lru_items (prefix_lru s)) \<and>
       layers s' = layers s \<and> free_block_queue s' = free_block_queue s" by blast
  qed
qed

theorem relocation_moves_prefix_witness:
  "runs_to (relocate_kv_page 4 7 demo_cached) (\<lambda>_ s'. engine_inv s' \<and> hash_at s' 7 = hash_at demo_cached 4 \<and> hash_at s' 4 = None \<and>
     lru_items (prefix_lru s') = [(5, 0), (7, 0), (1, 0)])"
proof -
  have "4 \<in> cached_free demo_cached" "7 \<in> free_set demo_cached" "hash_at demo_cached 7 = None" "7 \<notin> held_pages demo_cached"
    "lru_items (prefix_lru demo_cached) = [(5, 0), (4, 0), (1, 0)]" by code_simp+
  from relocation_moves_prefix [OF demo_inv(2) this(1-4)] this(5) show ?thesis by (auto elim!: runs_to_mono)
qed

text \<open>C19. The growing-horizon search for a super-block to vacate ends without an error. It reads the recency order from the cold
  end, \<open>F\<close> pages more in each round, where \<open>F\<close> is the number of pages of a super-block, and stops at the first round in which a
  super-block that can be vacated has a page in the stretch read so far. Its answer has the most pages in exactly that stretch
  among the super-blocks that can be vacated and, among those with as many, the coldest page; under the score \<open>oldest\<close>,
  the default, the step reported is that of its coldest page. It finds none exactly if no super-block that can be vacated
  holds a cached page.\<close>

theorem cheapest_search_spec:
  assumes "engine_inv s" "kv_score_oldest s"
  shows "\<exists>r. cheapest_kv_super_block s = Inr (r, s) \<and>
     (case r of
        None \<Rightarrow> \<forall>sb. vacatable sb s \<longrightarrow> (\<forall>p \<in> set (pages_of s sb). hash_at s p = None)
      | Some (sb, st) \<Rightarrow> vacatable sb s \<and> st = Min (warmth s ` {p \<in> set (pages_of s sb). hash_at s p \<noteq> None}) \<and>
          (\<exists>k. let before = take (k * pages_per_super_block s) (lru_items (prefix_lru s));
                   stretch = take (Suc k * pages_per_super_block s) (lru_items (prefix_lru s));
                   pages = (\<lambda>sb'. filter (\<lambda>e. super_block_of_page s (fst e) = sb') stretch)
               in (\<forall>sb'. vacatable sb' s \<longrightarrow> (\<forall>e \<in> set before. super_block_of_page s (fst e) \<noteq> sb')) \<and> pages sb \<noteq> [] \<and>
                  (\<forall>sb'. vacatable sb' s \<and> pages sb' \<noteq> [] \<longrightarrow> length (pages sb') < length (pages sb) \<or>
                     length (pages sb') = length (pages sb) \<and> snd (hd (pages sb)) \<le> snd (hd (pages sb')))))"
proof -
  have J: "inv s" and w: "whole_super_blocks s" using assms(1) by (simp_all add: engine_inv_def)
  obtain r where r: "cheapest_kv_super_block s = Inr (r, s)" "cheapest_result s r" using cheapest_kv_super_block_ok [OF J w] by blast
  have pages: "set (sb_prefix_pages sb s) = {p \<in> set (pages_of s sb). hash_at s p \<noteq> None}" for sb by (auto simp: sb_prefix_pages_def)
  show ?thesis
  proof (cases r)
    case None
    then have "\<forall>sb. vacatable sb s \<longrightarrow> (\<forall>p \<in> set (pages_of s sb). hash_at s p = None)"
      using r(2) by (simp add: cheapest_result_def sb_prefix_pages_def filter_empty_conv)
    with r(1) None show ?thesis by simp
  next
    case (Some x)
    obtain sb st where x: "x = (sb, st)" by fastforce
    let ?st = "\<lambda>k. take (k * pages_per_super_block s) (lru_items (prefix_lru s))"
    from r(2) obtain k where k: "\<forall>sb'. vacatable sb' s \<longrightarrow> cold_pages s (?st k) sb' = []"
      "cheapest_in s (?st (Suc k)) sb" "st = Min (warmth s ` set (sb_prefix_pages sb s))"
      unfolding Some x cheapest_result_def option.case prod.case if_P [OF assms(2)] by blast
    have "\<forall>sb'. vacatable sb' s \<longrightarrow> (\<forall>e \<in> set (?st k). super_block_of_page s (fst e) \<noteq> sb')"
      using k(1) by (simp add: cold_pages_def filter_empty_conv)
    with k(2,3) r(1) show ?thesis
      unfolding Some x cheapest_in_def cold_pages_def pages Let_def
      by (intro exI [of _ "Some (sb, st)"] conjI) (simp_all only: option.case prod.case, blast)
  qed
qed

theorem cheapest_search_spec_witness:
  "\<exists>sb st. cheapest_kv_super_block demo_cached = Inr (Some (sb, st), demo_cached) \<and> vacatable sb demo_cached \<and>
     st = Min (warmth demo_cached ` {p \<in> set (pages_of demo_cached sb). hash_at demo_cached p \<noteq> None})"
proof -
  have "kv_score_oldest demo_cached" "hash_at demo_cached 4 \<noteq> None" "4 \<in> set (pages_of demo_cached 2)" by code_simp+
  with cheapest_search_spec [OF demo_inv(2)] demo_vacatable(1) show ?thesis by (auto split: option.splits)
qed

text \<open>The selection without the shortcut.\<close>

definition select_scanning ::
  "nat \<Rightarrow> nat list \<Rightarrow> unified_manager \<Rightarrow> (unified_manager, nat \<times> string) res" where
  "select_scanning i needed s =
     (case map_of (layers s) i of
        None \<Rightarrow> raise KeyError s
      | Some l \<Rightarrow>
          (case co_location s l of
             Some sb \<Rightarrow> return (sb, ''free-cross-layer-expert'') s
           | None \<Rightarrow> rbind (first_pure l [1..<num_super_blocks s] s) (\<lambda>found s.
               case found of Some sb \<Rightarrow> return (sb, ''free-pure'') s | None \<Rightarrow> evict_for_expert i needed s)))"

text \<open>The free-page count that lets \<open>_select_super_block_for_expert\<close> skip its scan changes nothing: the selection
  equals the one that always scans for a fully free super-block.\<close>

theorem selection_shortcut_sound:
  assumes "engine_inv s"
  shows "select_super_block_for_expert i needed s = select_scanning i needed s"
proof (cases "map_of (layers s) i")
  case (Some l)
  have J: "inv s" using assms by (simp add: engine_inv_def)
  have fp: "first_pure l [1..<num_super_blocks s] s = Inr (find (pure s) [1..<num_super_blocks s], s)"
    by (rule first_pure_run [OF J Some]) auto
  have "find (pure s) [1..<num_super_blocks s] = None"
    if "num_free_blocks (free_block_queue s) - int (lru_len (prefix_lru s)) < int (pages_per_super_block s)"
    using that pure_needs_pages [OF J] by (auto simp: find_None_iff not_le [symmetric])
  then show ?thesis
    unfolding select_super_block_for_expert_def select_scanning_def Some option.case fp rbind_simps
    by (simp split: option.split)
qed (simp add: select_super_block_for_expert_def select_scanning_def)

theorem selection_shortcut_sound_witness:
  "select_super_block_for_expert 0 [1] demo_full = select_scanning 0 [1] demo_full"
  by (rule selection_shortcut_sound [OF demo_inv(3)])

text \<open>The expert-side victim of KV allocation is the right one: \<open>_oldest_global_expert\<close> never fails, and it names an
  unpinned expert super-block whose least recently used holder is at least as cold as that of any other unpinned one, or none
  if there is none.\<close>

theorem oldest_expert_is_coldest:
  assumes "engine_inv s"
  shows "\<exists>r. oldest_global_expert s = Inr r \<and>
     (\<forall>sb st. r = Some (sb, st) \<longrightarrow> holders_of s sb \<noteq> [] \<and> \<not> any_layer_pins_super_block s sb \<and> st = coldest_stamp s sb) \<and>
     (\<forall>sb. holders_of s sb \<noteq> [] \<and> \<not> any_layer_pins_super_block s sb \<longrightarrow> (\<exists>y. r = Some y \<and> snd y \<le> coldest_stamp s sb))"
proof -
  have J: "inv s" using assms by (simp add: engine_inv_def)
  note D = manager_syncedD [OF J]
  have h: "sb \<in> fst ` set (super_block_holder s) \<longleftrightarrow> holders_of s sb \<noteq> []" for sb using holders_key [OF D(10)] by auto
  obtain r where r: "oldest_global_expert s = Inr r"
    "\<forall>sb st. r = Some (sb, st) \<longrightarrow> sb \<in> fst ` set (super_block_holder s) \<and> \<not> any_layer_pins_super_block s sb \<and> st = coldest_stamp s sb"
    "\<forall>sb \<in> fst ` set (super_block_holder s). \<not> any_layer_pins_super_block s sb \<longrightarrow> (\<exists>y. r = Some y \<and> snd y \<le> coldest_stamp s sb)"
    using oldest_global_expert_spec [OF D(2)] by metis
  from r(1) show ?thesis
    by (intro exI [of _ r] conjI) (use r(2,3) h in blast)+
qed

theorem oldest_expert_is_coldest_witness: "oldest_global_expert demo_cached = Inr (Some (1, coldest_stamp demo_cached 1))"
proof -
  have "oldest_global_expert demo_cached = Inr (Some (1, 0))" by code_simp
  with oldest_expert_is_coldest [OF demo_inv(2)] show ?thesis by auto
qed

section \<open>Construction and warm-up\<close>

text \<open>Construction: a block pool and a manager built with a positive block count, super-block size and page size over
  buffers of the right length start in a state with the invariant, nothing pinned and nothing resident.\<close>

lemma construction_is_fresh:
  assumes "0 < n" "0 < f" "0 < page" "dict_wf bufs" "\<forall>buf \<in> snd ` set bufs. length buf = n * page"
  shows "\<exists>bp s. block_pool_init n caching hbs events use_int = Inr bp \<and> manager_init bp f page bufs relocate score = Inr s \<and>
     fresh s \<and> num_super_blocks s = n div f \<and> free_ids (free_block_queue s) = [1..<n] \<and> (f dvd n \<longrightarrow> whole_super_blocks s)"
proof -
  obtain bp where bp: "block_pool_init n caching hbs events use_int = Inr bp" "pool_inv {} bp" "length (blocks bp) = n"
    "free_ids (free_block_queue bp) = [1..<n]" "\<forall>i<n. ref_at bp i = 0 \<and> hash_at bp i = None"
    using block_pool_init_ok [OF assms(1)] by blast
  have num: "num_gpu_blocks bp = n" using bp(2,3) by (simp add: pool_inv_def ids_ok_def)
  have h: "\<forall>i < length (blocks bp). hash_at bp i = None" using bp(3,5) by simp
  obtain s where s: "manager_init bp f page bufs relocate score = Inr s" "inv s" "unpinned s" "base s = bp" "layers s = []"
    "pages_per_super_block s = f" "num_super_blocks s = num_gpu_blocks bp div f"
    using manager_init_ok [OF bp(2) h assms(2,3,4), of relocate score] assms(5) num by auto
  have "base s = base bp" using s(4) by (cases bp) (simp add: block_pool.truncate_def)
  note b = base_views [OF this]
  have "fresh s" using s(2,3,5) bp(3,5) b by (simp add: fresh_def mapped_def)
  moreover have "free_block_queue s = free_block_queue bp" using \<open>base s = base bp\<close> by (simp add: base_eq_iff)
  moreover have "f dvd n \<Longrightarrow> whole_super_blocks s" using s(6) bp(3) b by (simp add: whole_super_blocks_def)
  ultimately show ?thesis using bp(1,4) s(1,7) num by auto
qed

text \<open>Warm-up: on a fresh pool with room for \<open>k\<close> experts, \<open>warm_up k\<close> passes its own byte check and leaves exactly
  the experts below \<open>k\<close> of every layer resident, expert \<open>e\<close> at super-block \<open>e + 1\<close>, with no block allocated and
  nothing pinned.\<close>

theorem warm_up_loads_experts:
  assumes "fresh s" "\<forall>l \<in> snd ` set (layers s). k \<le> num_experts l" "k < num_super_blocks s"
  shows "runs_to (warm_up k s) (\<lambda>_ s'. inv s' \<and> unpinned s' \<and> ref_at s' = ref_at s \<and> free_block_queue s' = free_block_queue s \<and>
     (\<forall>i b e. (\<exists>l. map_of (layers s') i = Some l \<and> map_of (expert_at_super_block l) b = Some e) \<longleftrightarrow>
        i \<in> set (dict_keys (layers s)) \<and> e < k \<and> b = e + 1))"
proof (rule runs_to_mono [OF warm_up_ok [OF assms]])
  fix u s' assume w: "warming s k {} s'"
  have "unpinned s'" by (rule warming_unpinned [OF assms(1) w])
  with w show "inv s' \<and> unpinned s' \<and> ref_at s' = ref_at s \<and> free_block_queue s' = free_block_queue s \<and>
     (\<forall>i b e. (\<exists>l. map_of (layers s') i = Some l \<and> map_of (expert_at_super_block l) b = Some e) \<longleftrightarrow>
        i \<in> set (dict_keys (layers s)) \<and> e < k \<and> b = e + 1)"
    unfolding warming_def same_pool_def mapped_def by auto
qed

theorem warm_up_loads_experts_witness:
  "runs_to (warm_up 1 demo_fresh) (\<lambda>_ s'. inv s' \<and> (\<exists>l. map_of (layers s') 0 = Some l \<and> map_of (expert_at_super_block l) 1 = Some 0))"
proof -
  have "num_experts demo_layer = 2" by code_simp
  with warm_up_loads_experts [OF demo_fresh_ok(1), of 1] show ?thesis by (auto simp: demo_fresh_ok elim!: runs_to_mono)
qed

section \<open>Where the code falls short\<close>

text \<open>
  A pool whose block count is not a multiple of the super-block size: seven pages in super-blocks of two. Every page is allocated, and
  the last one, page 6 in the partial super-block, is cached and freed.
\<close>

definition odd_built :: unified_manager where
  "odd_built = projr (manager_init (projr (block_pool_init 7 True 16 False False)) 2 1 [(0, replicate 7 0)] True True)"

definition odd_layer :: unified_layer where
  "odd_layer = projr (unified_layer_init 0 2 [[1], [2]] [[3], [4]] 7 1 2 1 1 1)"

definition odd_live :: unified_manager where
  "odd_live = final (get_new_blocks manager_callbacks 6 (final (register_layer odd_layer odd_built)))"

definition odd_cached :: unified_manager where
  "odd_cached = final (rbind (cache_full_blocks id demo_request [6] 0 1 16 0 odd_live) (\<lambda>_. free_blocks manager_callbacks [6]))"

text \<open>C31. Nothing makes the number of blocks a multiple of the super-block size, and the search for a super-block to vacate does not
  expect a partial super-block at the end: if a cached prefix sits on a page there, no page there is in use and no whole super-block that can be vacated
  holds a cached prefix, then \<open>_cheapest_kv_super_block\<close> and with it \<open>_evict_for_expert\<close> of every layer raise \<open>IndexError\<close>, even if the
  layer has an expert of its own to evict.\<close>

theorem tail_page_breaks_search:
  assumes "inv s" "0 < num_super_blocks s" "p \<in> cached_free s" "super_block_of_page s p = num_super_blocks s"
    and "\<forall>q \<in> set (pages_of s (num_super_blocks s)). q < length (blocks s) \<longrightarrow> ref_at s q = 0"
    and "\<forall>sb. vacatable sb s \<longrightarrow> (\<forall>q \<in> set (pages_of s sb). hash_at s q = None)"
    and "map_of (layers s) i = Some l"
  shows "cheapest_kv_super_block s = Inl (IndexError, s) \<and> evict_for_expert i needed s = Inl (IndexError, s)"
proof -
  have "p < length (blocks s)" using assms(3) free_page [OF manager_syncedD(5) [OF assms(1)]] by (simp add: cached_free_def)
  then have "\<not> whole_super_blocks s" using page_super_block [OF assms(1)] assms(4) by fastforce
  moreover have "\<forall>sb. vacatable sb s \<longrightarrow> sb_prefix_pages sb s = []"
    using assms(6) by (simp add: sb_prefix_pages_def filter_empty_conv)
  ultimately have "cheapest_kv_super_block s = Inl (IndexError, s)" using cheapest_tail assms(1-5) by blast
  then show ?thesis using assms(7) by (simp add: evict_for_expert_def)
qed

lemma odd_built_ok: "inv odd_built" "unpinned odd_built" "layers odd_built = []" "kv_pool_buffers odd_built = [(0, replicate 7 0)]"
  "pages_per_super_block odd_built = 2" "page_size_bytes odd_built = 1" "num_super_blocks odd_built = 3" "step odd_built = 0"
proof -
  let ?bp = "projr (block_pool_init 7 True 16 False False)"
  have "block_pool_init 7 True 16 False False = Inr ?bp \<and> pool_inv {} ?bp \<and> length (blocks ?bp) = 7 \<and> (\<forall>i<7. hash_at ?bp i = None)"
    using block_pool_init_ok [of 7 True 16 False False] by auto
  then have bp: "pool_inv {} ?bp" "length (blocks ?bp) = 7" "\<forall>i < length (blocks ?bp). hash_at ?bp i = None" by auto
  have n: "num_gpu_blocks ?bp = 7" by code_simp
  obtain s where s: "manager_init ?bp 2 1 [(0, replicate 7 0)] True True = Inr s" "inv s" "unpinned s" "layers s = []"
    "kv_pool_buffers s = [(0, replicate 7 0)]" "pages_per_super_block s = 2" "page_size_bytes s = 1" "num_super_blocks s = 7 div 2"
    using manager_init_ok [OF bp(1,3), of 2 1 "[(0, replicate 7 0)]" True True] n by auto
  then have e: "s = odd_built" by (simp add: odd_built_def)
  from s show "inv odd_built" "unpinned odd_built" "layers odd_built = []" "kv_pool_buffers odd_built = [(0, replicate 7 0)]"
    "pages_per_super_block odd_built = 2" "page_size_bytes odd_built = 1" "num_super_blocks odd_built = 3" unfolding e by simp_all
  show "step odd_built = 0" by code_simp
qed

lemma odd_fresh_ok: "inv (final (register_layer odd_layer odd_built))" "unpinned (final (register_layer odd_layer odd_built))"
proof -
  have i: "unified_layer_init 0 2 [[1], [2]] [[3], [4]] 7 1 2 1 1 1 = Inr odd_layer" by code_simp
  note ok = unified_layer_init_ok [OF i]
  have x: "expert_slot_bytes odd_layer = 2" "layer_idx odd_layer = 0" "layer_pages_per_super_block odd_layer = 2"
    "layer_num_super_blocks odd_layer = 3" by code_simp+
  have "length ([[1 :: byte], [2]] ! e) = 1 \<and> length ([[3 :: byte], [4]] ! e) = 1" if "e < 2" for e :: nat
    using that by (cases e) auto
  then have "shape_ok odd_built odd_layer" using ok x(1) by (simp add: shape_ok_def odd_built_ok)
  with ok x odd_built_ok have "runs_to (register_layer odd_layer odd_built) (\<lambda>_ s'. inv s' \<and>
      s' = put_layer (layer_idx odd_layer) odd_layer odd_built \<and> (unpinned odd_built \<longrightarrow> unpinned s') \<and> mapped s' = mapped odd_built)"
    by (intro register_layer_ok) simp_all
  then show "inv (final (register_layer odd_layer odd_built))" "unpinned (final (register_layer odd_layer odd_built))"
    using odd_built_ok(2) by (auto elim!: runs_toE)
qed

lemma odd_live_ok: "inv odd_live"
proof -
  let ?s = "final (register_layer odd_layer odd_built)"
  have "int 6 \<le> get_num_free_blocks ?s" by code_simp
  from manager_get_new_blocks [OF odd_fresh_ok this] show ?thesis
    unfolding odd_live_def by (auto simp: claimed_def elim!: runs_toE)
qed

lemma odd_cached_ok: "inv odd_cached"
proof -
  let ?c = "final (cache_full_blocks id demo_request [6] 0 1 16 0 odd_live)"
  have pre: "enable_caching odd_live" "\<forall>b \<in> set (take (1 - 0) (drop 0 [6])). b < length (blocks odd_live) \<and>
      (b \<noteq> 0 \<longrightarrow> 0 < ref_at odd_live b \<and> hash_at odd_live b = None)"
    "1 \<le> length (group_hashes (hash_block_size odd_live) 16 demo_request)" "1 \<le> length (block_hashes demo_request)" by code_simp+
  from manager_cache_full_blocks [OF odd_live_ok pre(1) _ _ pre(2) _ _ _ pre(4,3), of 0 id]
  have c: "runs_to (cache_full_blocks id demo_request [6] 0 1 16 0 odd_live) (\<lambda>_ s'. inv s')"
    by (auto elim!: runs_to_mono)
  then obtain r where r: "cache_full_blocks id demo_request [6] 0 1 16 0 odd_live = Inr (r, ?c)" "inv ?c" by (auto elim!: runs_toE)
  have "may_free [6] ?c" by code_simp
  from manager_free_blocks [OF r(2) this] have "inv (final (free_blocks manager_callbacks [6] ?c))"
    by (auto simp: rereffed_def elim!: runs_toE)
  moreover have "odd_cached = final (free_blocks manager_callbacks [6] ?c)" unfolding odd_cached_def by (subst r(1)) simp
  ultimately show ?thesis by metis
qed

theorem tail_page_breaks_search_witness:
  "cheapest_kv_super_block odd_cached = Inl (IndexError, odd_cached) \<and> evict_for_expert 0 [1] odd_cached = Inl (IndexError, odd_cached)"
proof -
  have num: "num_super_blocks odd_cached = 3" by code_simp
  have p: "6 \<in> cached_free odd_cached" "super_block_of_page odd_cached 6 = 3"
    "\<forall>q \<in> set (pages_of odd_cached 3). q < length (blocks odd_cached) \<longrightarrow> ref_at odd_cached q = 0"
    "map_of (layers odd_cached) 0 = Some (the (map_of (layers odd_cached) 0))"
    "\<not> vacatable 0 odd_cached" "\<not> vacatable 1 odd_cached" "\<not> vacatable 2 odd_cached" by code_simp+
  have "\<not> vacatable sb odd_cached" for sb
  proof
    assume v: "vacatable sb odd_cached"
    then have "sb < 3" using num by (simp add: vacatable_def)
    then have "sb = 0 \<or> sb = 1 \<or> sb = 2" by linarith
    with v p(5-7) show False by auto
  qed
  with tail_page_breaks_search [OF odd_cached_ok _ p(1) _ _ _ p(4), of "[1]"] p(2,3) num show ?thesis by simp
qed

text \<open>C32. When the prefix cache may be reset: \<open>reset_prefix_cache\<close> succeeds exactly when no page is in use, and otherwise changes
  nothing. When it succeeds it clears every hash but does not notify the unified pool, whose recency list keeps every
  entry; so from a state that satisfies the invariant it leads to one that satisfies it if and only if the recency list was empty,
  that is, if there was nothing to reset.\<close>

theorem reset_needs_empty_recency:
  assumes "engine_inv s" "reset_prefix_cache s = (ok, s')"
  shows "(ok \<longleftrightarrow> (\<forall>p. 0 < p \<and> p < length (blocks s) \<longrightarrow> ref_at s p = 0)) \<and>
     (if ok then (\<forall>p < length (blocks s). hash_at s' p = None) \<and> lru_items (prefix_lru s') = lru_items (prefix_lru s) \<and>
        (engine_inv s' \<longleftrightarrow> lru_items (prefix_lru s) = []) \<and>
        (lru_items (prefix_lru s) = [] \<longleftrightarrow> (\<forall>p < length (blocks s). 0 < p \<longrightarrow> hash_at s p = None))
      else s' = s)"
proof -
  have J: "inv s" using assms(1) by (simp add: engine_inv_def)
  note D = manager_syncedD [OF J] and r = reset_prefix_cache_ok [OF manager_syncedD(1) [OF J] assms(2)]
  show ?thesis
  proof (cases ok)
    case True
    then have run: "reset_prefix_cache s = (True, s')" using assms(2) by simp
    have fs: "free_set s = {i. 0 < i \<and> i < length (blocks s) \<and> ref_at s i = 0}" using D(5) by (simp add: queue_ok_def)
    have "cached_free s = {p. 0 < p \<and> p < length (blocks s) \<and> hash_at s p \<noteq> None}"
      unfolding cached_free_def fs using iffD1 [OF r(1) True] by blast
    then have "fst ` set (lru_items (prefix_lru s)) = {} \<longleftrightarrow> (\<forall>p < length (blocks s). 0 < p \<longrightarrow> hash_at s p = None)"
      unfolding inv_items(2) [OF J] by blast
    then have "lru_items (prefix_lru s) = [] \<longleftrightarrow> (\<forall>p < length (blocks s). 0 < p \<longrightarrow> hash_at s p = None)"
      unfolding image_is_empty set_empty .
    moreover have "prefix_lru s' = prefix_lru s" using view_more(8) [OF reset_fields(1) [OF run]] .
    moreover have "\<forall>p < length (blocks s). hash_at s' p = None" using r(2) [OF True] by blast
    ultimately show ?thesis
      unfolding if_P [OF True] using r(1) reset_keeps_inv_iff [OF assms(1) run] by (intro conjI) (blast | simp only:)+
  next
    case False
    with r(1,3) show ?thesis unfolding if_not_P [OF False] by blast
  qed
qed

theorem reset_needs_empty_recency_witness:
  "fst (reset_prefix_cache demo_cached) \<and> \<not> engine_inv (snd (reset_prefix_cache demo_cached)) \<and>
   engine_inv (snd (reset_prefix_cache demo_warm))"
proof -
  have "fst (reset_prefix_cache demo_cached)" "fst (reset_prefix_cache demo_warm)" "lru_items (prefix_lru demo_cached) \<noteq> []"
    "lru_items (prefix_lru demo_warm) = []" by code_simp+
  with reset_needs_empty_recency [OF demo_inv(2) prod.collapse [symmetric]]
    reset_needs_empty_recency [OF demo_warm_ok(2) prod.collapse [symmetric]] show ?thesis by presburger
qed

text \<open>
  What such a reset leads to: a run in which the pages of a stale recency list are displaced by a relocation although an expert has been
  loaded over them. In the end super-block 2 is mapped to expert 1, but its two pages carry prefix hashes and no longer hold the
  weights 2 and 4.
\<close>

definition reset_run_start :: unified_manager where
  "reset_run_start = final (warm_up 1 (final (register_layer
     (projr (unified_layer_init 0 3 [[1], [2], [9]] [[3], [4], [8]] 8 1 2 1 1 1)) demo_built)))"

definition serve_prompt :: "bytes list \<Rightarrow> unified_manager \<Rightarrow> (unified_manager, unit) res" where
  "serve_prompt hs s = rbind (get_new_blocks manager_callbacks (length hs) s) (\<lambda>b s.
     rbind (cache_full_blocks id (demo_request\<lparr>block_hashes := hs\<rparr>) b 0 (length hs) 16 0 s) (\<lambda>_.
       free_blocks manager_callbacks (rev b)))"

definition forward_loads :: "nat list \<Rightarrow> unified_manager \<Rightarrow> (unified_manager, unit) res" where
  "forward_loads needed s = rbind (ensure_loaded 0 needed s) (\<lambda>_ s. rbind (release_pinned 0 True s) (\<lambda>_ s. return () (end_forward_step s)))"

definition reset_run :: "(unified_manager, unit) res" where
  "reset_run = rbind (serve_prompt [[1], [2], [3]] reset_run_start) (\<lambda>_ s.
     rbind (forward_loads [1] (snd (reset_prefix_cache s))) (\<lambda>_ s.
     rbind (serve_prompt [[4], [5], [6]] s) (\<lambda>_ s.
     rbind (forward_loads [1] (end_forward_step s)) (\<lambda>_. forward_loads [0, 2]))))"

lemma reset_overwrites_expert:
  "outcome reset_run = Inr () \<and> mapped (final reset_run) 0 2 1 \<and> pages_of (final reset_run) 2 = [4, 5] \<and>
   hash_at (final reset_run) 4 \<noteq> None \<and> hash_at (final reset_run) 5 \<noteq> None \<and>
   map_option (take 2 \<circ> drop 4) (map_of (kv_pool_buffers (final reset_run)) 0) = Some [0, 0]"
proof (intro conjI)
  have "map_option (\<lambda>l. map_of (expert_at_super_block l) 2) (map_of (layers (final reset_run)) 0) = Some (Some 1)" by code_simp
  then show "mapped (final reset_run) 0 2 1" by (auto simp: mapped_def simp del: map_of_eq_Some_iff)
qed (code_simp)+

end
